(* ===== verification/Prelude.thy ===== *)
theory Prelude
  imports Main "HOL-Library.Word" "HOL-Library.Monad_Syntax"
begin

text \<open>
  Shared vocabulary of the development: the status codes and record identifiers of error.h
  and page.h, the C integers (int and short, with their wrap-around and the truncating
  remainder), and raw memory. A page of the buffer pool is raw memory: a function from
  addresses (relative to the start of the page) to bytes. The three C structs that are laid
  over a page (Page, DBPage, FileHdrPage) read and write it through the little-endian
  accessors below, so that a cast between them is the identity, as in the code.
  An option value marks undefined behaviour or a run that does not return: None.
\<close>

section \<open>Lemma collections\<close>

named_theorems mem_simps \<open>reading a field after a write to memory\<close>
named_theorems inv_intros \<open>preservation of component invariants\<close>

section \<open>Status codes and record identifiers\<close>

datatype Status =
    OK | NOTUSED1
  | BADFILEPTR | BADFILE | FILETABFULL | FILEOPEN | FILENOTOPEN
  | UNIXERR | BADPAGEPTR | BADPAGENO | FILEEXISTS
  | HASHTBLERROR | HASHNOTFOUND | BUFFEREXCEEDED | PAGENOTPINNED
  | BADBUFFER | PAGEPINNED
  | NOSPACE | NORECORDS | ENDOFPAGE | INVALIDSLOTNO | INVALIDRECLEN
  | BADRID | BADRECPTR | BADSCANPARM | BADSCANID | SCANTABFULL | FILEEOF | FILEHDRFULL
  | BADINDEXPARM | RECNOTFOUND | BUCKETFULL | DIROVERFLOW
  | NONUNIQUEENTRY | NOMORERECS
  | BADSORTPARM | INSUFMEM
  | BADCATPARM | RELNOTFOUND | ATTRNOTFOUND
  | NAMETOOLONG | DUPLATTR | RELEXISTS | NOINDEX
  | INDEXEXISTS | ATTRTOOLONG
  | ATTRTYPEMISMATCH | TMP_RES_EXISTS
  | NOTUSED2

record RID =
  pageNo :: int
  slotNo :: int

definition NULLRID :: RID where
  "NULLRID = \<lparr>pageNo = -1, slotNo = -1\<rparr>"

section \<open>C integers\<close>

text \<open>The value stored when an integer is converted to a signed type of the given width.\<close>

definition wrap16 :: "int \<Rightarrow> int" where
  "wrap16 x = (x + 2 ^ 15) mod 2 ^ 16 - 2 ^ 15"

definition wrap32 :: "int \<Rightarrow> int" where
  "wrap32 x = (x + 2 ^ 31) mod 2 ^ 32 - 2 ^ 31"

text \<open>The remainder operator of C: the result has the sign of the dividend.\<close>

definition c_rem :: "int \<Rightarrow> int \<Rightarrow> int" where
  "c_rem a b = sgn a * (\<bar>a\<bar> mod \<bar>b\<bar>)"

lemma wrap16_id [simp]: "- 32768 \<le> x \<Longrightarrow> x < 32768 \<Longrightarrow> wrap16 x = x"
  by (simp add: wrap16_def)

lemma wrap32_id [simp]: "- 2147483648 \<le> x \<Longrightarrow> x < 2147483648 \<Longrightarrow> wrap32 x = x"
  by (simp add: wrap32_def)

lemma wrap16_bounds: "- 32768 \<le> wrap16 x \<and> wrap16 x < 32768"
  by (simp add: wrap16_def)

lemma wrap32_bounds: "- 2147483648 \<le> wrap32 x \<and> wrap32 x < 2147483648"
  by (simp add: wrap32_def)

lemma c_rem_bounds: "0 < b \<Longrightarrow> - b < c_rem a b \<and> c_rem a b < b"
  by (auto simp: c_rem_def sgn_if) (smt (verit) pos_mod_sign pos_mod_bound)+

lemma c_rem_mod: "0 < b \<Longrightarrow> (c_rem a b + b) mod b = a mod b"
proof -
  assume b: "0 < b"
  show ?thesis
  proof (cases "a < 0")
    case True
    then have "(c_rem a b + b) mod b = (- (- a mod b)) mod b"
      using b by (simp add: c_rem_def)
    then show ?thesis by (simp add: mod_minus_eq)
  next
    case False
    then show ?thesis using b by (cases "a = 0") (simp_all add: c_rem_def)
  qed
qed

section \<open>Raw memory\<close>

type_synonym byte = "8 word"
type_synonym mem = "int \<Rightarrow> byte"

text \<open>The address of a File object; NULL is 0.\<close>

type_synonym fptr = int

definition rd_short :: "mem \<Rightarrow> int \<Rightarrow> int" where
  "rd_short m a = wrap16 (uint (m a) + 256 * uint (m (a + 1)))"

definition wr_short :: "mem \<Rightarrow> int \<Rightarrow> int \<Rightarrow> mem" where
  "wr_short m a v = m(a := word_of_int v, a + 1 := word_of_int (v div 256))"

definition rd_int :: "mem \<Rightarrow> int \<Rightarrow> int" where
  "rd_int m a = wrap32 (uint (m a) + 256 * (uint (m (a + 1)) +
                  256 * (uint (m (a + 2)) + 256 * uint (m (a + 3)))))"

definition wr_int :: "mem \<Rightarrow> int \<Rightarrow> int \<Rightarrow> mem" where
  "wr_int m a v = m(a := word_of_int v, a + 1 := word_of_int (v div 256),
                    a + 2 := word_of_int (v div 65536), a + 3 := word_of_int (v div 16777216))"

text \<open>The bytes at \<open>a\<close>, and the effect of memcpy, of bcopy (the source and target may overlap)
  and of memset to zero.\<close>

definition rd_bytes :: "mem \<Rightarrow> int \<Rightarrow> nat \<Rightarrow> byte list" where
  "rd_bytes m a n = map (\<lambda>i. m (a + int i)) [0..<n]"

definition wr_bytes :: "mem \<Rightarrow> int \<Rightarrow> byte list \<Rightarrow> mem" where
  "wr_bytes m a bs = (\<lambda>x. if a \<le> x \<and> x < a + int (length bs) then bs ! nat (x - a) else m x)"

definition mem_move :: "mem \<Rightarrow> int \<Rightarrow> int \<Rightarrow> int \<Rightarrow> mem" where
  "mem_move m src dst cnt = (\<lambda>x. if dst \<le> x \<and> x < dst + cnt then m (x - dst + src) else m x)"

definition zero_mem :: mem where
  "zero_mem = (\<lambda>_. 0)"

subsection \<open>Reading back what was written\<close>

lemma uint_byte_of_int [simp]: "uint (word_of_int v :: byte) = v mod 256"
  by (simp add: uint_word_of_int)

lemma byte_sum16: "(v mod 256 + 256 * (v div 256 mod 256)) = v mod (65536 :: int)"
  using zmod_zmult2_eq [of 256 v 256] by simp

lemma byte_sum32:
  "(v mod 256 + 256 * (v div 256 mod 256 + 256 * (v div 65536 mod 256 + 256 * (v div 16777216 mod 256))))
     = v mod (4294967296 :: int)"
proof -
  have a: "v div 65536 = v div 256 div 256" "v div 16777216 = v div 256 div 256 div 256"
    by (simp_all add: zdiv_zmult2_eq [symmetric])
  have "v div 256 div 256 mod 256 + 256 * (v div 256 div 256 div 256 mod 256)
      = v div 256 div 256 mod 65536"
    by (rule byte_sum16)
  moreover have "v div 256 mod 256 + 256 * (v div 256 div 256 mod 65536) = v div 256 mod 16777216"
    using zmod_zmult2_eq [of 65536 "v div 256" 256] by simp
  moreover have "v mod 256 + 256 * (v div 256 mod 16777216) = v mod 4294967296"
    using zmod_zmult2_eq [of 16777216 v 256] by simp
  ultimately show ?thesis by (simp add: a)
qed

lemma wrap16_mod [simp]: "wrap16 (v mod 65536) = wrap16 v"
  by (simp add: wrap16_def mod_add_left_eq)

lemma wrap32_mod [simp]: "wrap32 (v mod 4294967296) = wrap32 v"
  by (simp add: wrap32_def mod_add_left_eq)

lemma rd_wr_short_same [mem_simps]: "rd_short (wr_short m a v) a = wrap16 v"
  by (simp add: rd_short_def wr_short_def byte_sum16)

lemma rd_wr_int_same [mem_simps]: "rd_int (wr_int m a v) a = wrap32 v"
proof -
  let ?w = "wr_int m a v"
  have b: "?w a = word_of_int v" "?w (a + 1) = word_of_int (v div 256)"
    "?w (a + 2) = word_of_int (v div 65536)" "?w (a + 3) = word_of_int (v div 16777216)"
    by (simp_all add: wr_int_def)
  show ?thesis
    by (simp only: rd_int_def b uint_byte_of_int byte_sum32 wrap32_mod)
qed

subsection \<open>Writes elsewhere\<close>

lemma rd_short_wr_short_above [mem_simps]: "b + 2 \<le> a \<Longrightarrow> rd_short (wr_short m b v) a = rd_short m a"
  by (simp add: rd_short_def wr_short_def)

lemma rd_short_wr_short_below [mem_simps]: "a + 2 \<le> b \<Longrightarrow> rd_short (wr_short m b v) a = rd_short m a"
  by (simp add: rd_short_def wr_short_def)

lemma rd_int_wr_short_above [mem_simps]: "b + 2 \<le> a \<Longrightarrow> rd_int (wr_short m b v) a = rd_int m a"
  by (simp add: rd_int_def wr_short_def)

lemma rd_int_wr_short_below [mem_simps]: "a + 4 \<le> b \<Longrightarrow> rd_int (wr_short m b v) a = rd_int m a"
  by (simp add: rd_int_def wr_short_def)

lemma rd_short_wr_int_above [mem_simps]: "b + 4 \<le> a \<Longrightarrow> rd_short (wr_int m b v) a = rd_short m a"
  by (simp add: rd_short_def wr_int_def)

lemma rd_short_wr_int_below [mem_simps]: "a + 2 \<le> b \<Longrightarrow> rd_short (wr_int m b v) a = rd_short m a"
  by (simp add: rd_short_def wr_int_def)

lemma rd_int_wr_int_above [mem_simps]: "b + 4 \<le> a \<Longrightarrow> rd_int (wr_int m b v) a = rd_int m a"
  by (simp add: rd_int_def wr_int_def)

lemma rd_int_wr_int_below [mem_simps]: "a + 4 \<le> b \<Longrightarrow> rd_int (wr_int m b v) a = rd_int m a"
  by (simp add: rd_int_def wr_int_def)

lemma rd_short_wr_bytes_above [mem_simps]:
  "b + int (length bs) \<le> a \<Longrightarrow> rd_short (wr_bytes m b bs) a = rd_short m a"
  by (simp add: rd_short_def wr_bytes_def)

lemma rd_short_wr_bytes_below [mem_simps]:
  "a + 2 \<le> b \<Longrightarrow> rd_short (wr_bytes m b bs) a = rd_short m a"
  by (simp add: rd_short_def wr_bytes_def)

lemma rd_int_wr_bytes_above [mem_simps]:
  "b + int (length bs) \<le> a \<Longrightarrow> rd_int (wr_bytes m b bs) a = rd_int m a"
  by (simp add: rd_int_def wr_bytes_def)

lemma rd_int_wr_bytes_below [mem_simps]:
  "a + 4 \<le> b \<Longrightarrow> rd_int (wr_bytes m b bs) a = rd_int m a"
  by (simp add: rd_int_def wr_bytes_def)

lemma rd_short_move_above [mem_simps]:
  "dst + cnt \<le> a \<Longrightarrow> rd_short (mem_move m src dst cnt) a = rd_short m a"
  by (simp add: rd_short_def mem_move_def)

lemma rd_int_move_above [mem_simps]:
  "dst + cnt \<le> a \<Longrightarrow> rd_int (mem_move m src dst cnt) a = rd_int m a"
  by (simp add: rd_int_def mem_move_def)

subsection \<open>Byte strings\<close>

lemma length_rd_bytes [simp]: "length (rd_bytes m a n) = n"
  by (simp add: rd_bytes_def)

lemma nth_rd_bytes [simp]: "i < n \<Longrightarrow> rd_bytes m a n ! i = m (a + int i)"
  by (simp add: rd_bytes_def)

lemma rd_bytes_0 [simp]: "rd_bytes m a 0 = []"
  by (simp add: rd_bytes_def)

lemma rd_bytes_cong:
  "(\<And>i. i < n \<Longrightarrow> m (a + int i) = m' (b + int i)) \<Longrightarrow> rd_bytes m a n = rd_bytes m' b n"
  by (simp add: rd_bytes_def)

lemma rd_wr_bytes_same [mem_simps]: "rd_bytes (wr_bytes m a bs) a (length bs) = bs"
  by (rule nth_equalityI) (auto simp: wr_bytes_def)

lemma rd_bytes_wr_bytes_below [mem_simps]:
  "a + int n \<le> b \<Longrightarrow> rd_bytes (wr_bytes m b bs) a n = rd_bytes m a n"
  by (rule rd_bytes_cong) (simp add: wr_bytes_def)

lemma rd_bytes_wr_bytes_above [mem_simps]:
  "b + int (length bs) \<le> a \<Longrightarrow> rd_bytes (wr_bytes m b bs) a n = rd_bytes m a n"
  by (rule rd_bytes_cong) (simp add: wr_bytes_def)

lemma rd_bytes_wr_short_below [mem_simps]:
  "a + int n \<le> b \<Longrightarrow> rd_bytes (wr_short m b v) a n = rd_bytes m a n"
  by (rule rd_bytes_cong) (simp add: wr_short_def)

lemma rd_bytes_wr_short_above [mem_simps]:
  "b + 2 \<le> a \<Longrightarrow> rd_bytes (wr_short m b v) a n = rd_bytes m a n"
  by (rule rd_bytes_cong) (simp add: wr_short_def)

lemma rd_bytes_wr_int_below [mem_simps]:
  "a + int n \<le> b \<Longrightarrow> rd_bytes (wr_int m b v) a n = rd_bytes m a n"
  by (rule rd_bytes_cong) (simp add: wr_int_def)

lemma rd_bytes_wr_int_above [mem_simps]:
  "b + 4 \<le> a \<Longrightarrow> rd_bytes (wr_int m b v) a n = rd_bytes m a n"
  by (rule rd_bytes_cong) (simp add: wr_int_def)

lemma rd_bytes_move_below [mem_simps]:
  "a + int n \<le> dst \<Longrightarrow> rd_bytes (mem_move m src dst cnt) a n = rd_bytes m a n"
  by (rule rd_bytes_cong) (simp add: mem_move_def)

lemma rd_bytes_move_shifted [mem_simps]:
  "dst \<le> a \<Longrightarrow> a + int n \<le> dst + cnt \<Longrightarrow>
     rd_bytes (mem_move m src dst cnt) a n = rd_bytes m (a - dst + src) n"
  by (rule rd_bytes_cong) (auto simp: mem_move_def algebra_simps)

end
