(* ===== verification/KeyedTable.thy ===== *)
theory KeyedTable
  imports Prelude
begin

text \<open>
  The interface that the two hash tables of the program (BufHashTbl of bufHash.C and
  OpenFileHashTbl of db.C) offer to the buffer manager and to DB: a finite map whose insert
  refuses a key that is present and whose delete refuses a key that is absent, both with
  HASHTBLERROR and both leaving the table unchanged. Below it, the bucket chains that both
  classes are built from: the loops over a chain, and the invariant that a bucket sits in the
  chain its key hashes to and no key occurs twice.
\<close>

section \<open>The interface\<close>

locale keyed_table =
  fixes inv :: "'t \<Rightarrow> bool"
    and find :: "'t \<Rightarrow> 'k \<Rightarrow> 'v option"
    and ins :: "'t \<Rightarrow> 'k \<Rightarrow> 'v \<Rightarrow> Status \<times> 't"
    and del :: "'t \<Rightarrow> 'k \<Rightarrow> Status \<times> 't"
  assumes ins_new: "inv t \<Longrightarrow> find t k = None \<Longrightarrow>
      \<exists>t'. ins t k v = (OK, t') \<and> inv t' \<and> find t' = (find t)(k \<mapsto> v)"
    and ins_dup: "inv t \<Longrightarrow> find t k \<noteq> None \<Longrightarrow> ins t k v = (HASHTBLERROR, t)"
    and del_old: "inv t \<Longrightarrow> find t k \<noteq> None \<Longrightarrow>
      \<exists>t'. del t k = (OK, t') \<and> inv t' \<and> find t' = (find t)(k := None)"
    and del_absent: "inv t \<Longrightarrow> find t k = None \<Longrightarrow> del t k = (HASHTBLERROR, t)"
begin

lemma ins_status: "inv t \<Longrightarrow> fst (ins t k v) = (if find t k = None then OK else HASHTBLERROR)"
  using ins_new [of t k v] ins_dup [of t k v] by auto

lemma del_status: "inv t \<Longrightarrow> fst (del t k) = (if find t k = None then HASHTBLERROR else OK)"
  using del_old [of t k] del_absent [of t k] by auto

lemma inv_ins: "inv t \<Longrightarrow> inv (snd (ins t k v))"
  using ins_new [of t k v] ins_dup [of t k v] by (cases "find t k") auto

lemma inv_del: "inv t \<Longrightarrow> inv (snd (del t k))"
  using del_old [of t k] del_absent [of t k] by (cases "find t k") auto

lemma find_ins:
  "inv t \<Longrightarrow> find (snd (ins t k v)) = (if find t k = None then (find t)(k \<mapsto> v) else find t)"
  using ins_new [of t k v] ins_dup [of t k v] by auto

lemma find_del: "inv t \<Longrightarrow> find (snd (del t k)) = (find t)(k := None)"
  using del_old [of t k] del_absent [of t k] by (cases "find t k") auto

lemma ins_then_del:
  "inv t \<Longrightarrow> find t k = None \<Longrightarrow>
     fst (del (snd (ins t k v)) k) = OK \<and> find (snd (del (snd (ins t k v)) k)) = find t"
  by (simp add: inv_ins del_status find_del find_ins fun_upd_idem)

lemma del_then_ins:
  "inv t \<Longrightarrow> find t k = Some v \<Longrightarrow>
     fst (ins (snd (del t k)) k v) = OK \<and> find (snd (ins (snd (del t k)) k v)) = find t"
  by (auto simp: inv_del ins_status find_del find_ins)

end

section \<open>Bucket chains\<close>

text \<open>The loop that looks for a key in a chain, and the one that unlinks the first match.\<close>

fun chain_find :: "('b \<Rightarrow> bool) \<Rightarrow> 'b list \<Rightarrow> 'b option" where
  "chain_find match [] = None"
| "chain_find match (b # bs) = (if match b then Some b else chain_find match bs)"

fun chain_unlink :: "('b \<Rightarrow> bool) \<Rightarrow> 'b list \<Rightarrow> 'b list option" where
  "chain_unlink match [] = None"
| "chain_unlink match (b # bs) =
     (if match b then Some bs else map_option (Cons b) (chain_unlink match bs))"

definition chains_ok :: "('k \<Rightarrow> nat) \<Rightarrow> ('b \<Rightarrow> 'k) \<Rightarrow> 'b list list \<Rightarrow> bool" where
  "chains_ok h key cs \<longleftrightarrow> (\<forall>k. h k < length cs) \<and>
     (\<forall>i < length cs. distinct (map key (cs ! i)) \<and> (\<forall>b \<in> set (cs ! i). h (key b) = i))"

definition chains_find :: "('k \<Rightarrow> nat) \<Rightarrow> ('b \<Rightarrow> 'k) \<Rightarrow> 'b list list \<Rightarrow> 'k \<Rightarrow> 'b option" where
  "chains_find h key cs k = chain_find (\<lambda>b. key b = k) (cs ! h k)"

lemma chain_find_None: "chain_find P bs = None \<longleftrightarrow> (\<forall>b \<in> set bs. \<not> P b)"
  by (induction bs) auto

lemma chain_find_Some: "chain_find P bs = Some b \<Longrightarrow> b \<in> set bs \<and> P b"
  by (induction bs) (auto split: if_splits)

lemma chain_unlink_None: "chain_unlink P bs = None \<longleftrightarrow> chain_find P bs = None"
  by (induction bs) auto

lemma chain_unlink_key:
  assumes "chain_unlink (\<lambda>b. key b = k) bs = Some bs'" and "distinct (map key bs)"
  shows "distinct (map key bs') \<and> set bs' \<subseteq> set bs \<and>
    chain_find (\<lambda>b. key b = k) bs' = None \<and>
    (\<forall>k'. k' \<noteq> k \<longrightarrow> chain_find (\<lambda>b. key b = k') bs' = chain_find (\<lambda>b. key b = k') bs)"
  using assms
proof (induction bs arbitrary: bs')
  case Nil
  then show ?case by simp
next
  case (Cons b bs)
  show ?case
  proof (cases "key b = k")
    case True
    then have "key c \<noteq> k" if "c \<in> set bs" for c using Cons.prems(2) that by simp (metis imageI)
    then show ?thesis using Cons.prems True by (auto simp: chain_find_None)
  next
    case False
    then obtain cs where "chain_unlink (\<lambda>b. key b = k) bs = Some cs" "bs' = b # cs"
      using Cons.prems by (auto split: if_splits)
    then show ?thesis using Cons False by fastforce
  qed
qed

lemma chains_ok_insert:
  assumes "chains_ok h key cs" and "chains_find h key cs (key b) = None"
  defines "cs' \<equiv> cs[h (key b) := b # cs ! h (key b)]"
  shows "chains_ok h key cs'"
    and "chains_find h key cs' = (chains_find h key cs)(key b \<mapsto> b)"
proof -
  show "chains_ok h key cs'"
    using assms by (auto simp: chains_ok_def nth_list_update chains_find_def chain_find_None)
  show "chains_find h key cs' = (chains_find h key cs)(key b \<mapsto> b)"
    using assms by (auto simp: chains_ok_def nth_list_update chains_find_def fun_eq_iff)
qed

lemma chains_ok_unlink:
  assumes "chains_ok h key cs" and "chain_unlink (\<lambda>b. key b = k) (cs ! h k) = Some bs"
  shows "chains_ok h key (cs[h k := bs])"
    and "chains_find h key (cs[h k := bs]) = (chains_find h key cs)(k := None)"
proof -
  have d: "distinct (map key (cs ! h k))" and lt: "h k < length cs"
    using assms(1) by (auto simp: chains_ok_def)
  note U = chain_unlink_key [OF assms(2) d]
  show "chains_ok h key (cs[h k := bs])"
    using assms(1) U by (auto simp: chains_ok_def nth_list_update)
  show "chains_find h key (cs[h k := bs]) = (chains_find h key cs)(k := None)"
    using U lt by (auto simp: chains_find_def fun_eq_iff nth_list_update)
qed

end
