(* ===== verification/BufHash.thy ===== *)
theory BufHash
  imports KeyedTable
begin

text \<open>
  The hash table of the buffer manager (bufHash.C, class BufHashTbl of buf.h): an array of
  HTSIZE chains of buckets that maps (file, page number) to a frame number. A file is known
  by the address of its File object.
\<close>

record hashBucket =
  hb_file :: fptr
  hb_pageNo :: int
  hb_frameNo :: int

record BufHashTbl =
  HTSIZE :: int
  ht :: "hashBucket list list"

definition BufHashTbl_new :: "int \<Rightarrow> BufHashTbl" where
  "BufHashTbl_new htSize = \<lparr>HTSIZE = htSize, ht = replicate (nat htSize) []\<rparr>"

text \<open>The address is cut to an int; both sums are sums of ints and wrap, and the remainder of C can
  be negative.\<close>

definition BufHashTbl_hash :: "int \<Rightarrow> fptr \<Rightarrow> int \<Rightarrow> int" where
  "BufHashTbl_hash htSize file page =
     (let tmp = wrap32 file
      in c_rem (wrap32 (c_rem (wrap32 (tmp + page)) htSize + htSize)) htSize)"

definition bucket_matches :: "fptr \<Rightarrow> int \<Rightarrow> hashBucket \<Rightarrow> bool" where
  "bucket_matches file page b \<longleftrightarrow> hb_file b = file \<and> hb_pageNo b = page"

definition BufHashTbl_insert :: "BufHashTbl \<Rightarrow> fptr \<Rightarrow> int \<Rightarrow> int \<Rightarrow> Status \<times> BufHashTbl" where
  "BufHashTbl_insert t file page frame =
     (let index = nat (BufHashTbl_hash (HTSIZE t) file page)
      in if chain_find (bucket_matches file page) (ht t ! index) \<noteq> None then (HASHTBLERROR, t)
         else (OK, t\<lparr>ht := (ht t)[index :=
                \<lparr>hb_file = file, hb_pageNo = page, hb_frameNo = frame\<rparr> # ht t ! index]\<rparr>))"

text \<open>The frame number is an output parameter that keeps its old value when nothing is found.\<close>

definition BufHashTbl_lookup :: "BufHashTbl \<Rightarrow> fptr \<Rightarrow> int \<Rightarrow> int \<Rightarrow> Status \<times> int" where
  "BufHashTbl_lookup t file page frame =
     (let index = nat (BufHashTbl_hash (HTSIZE t) file page)
      in case chain_find (bucket_matches file page) (ht t ! index) of
           Some b \<Rightarrow> (OK, hb_frameNo b)
         | None \<Rightarrow> (HASHNOTFOUND, frame))"

definition BufHashTbl_remove :: "BufHashTbl \<Rightarrow> fptr \<Rightarrow> int \<Rightarrow> Status \<times> BufHashTbl" where
  "BufHashTbl_remove t file page =
     (let index = nat (BufHashTbl_hash (HTSIZE t) file page)
      in case chain_unlink (bucket_matches file page) (ht t ! index) of
           Some bs \<Rightarrow> (OK, t\<lparr>ht := (ht t)[index := bs]\<rparr>)
         | None \<Rightarrow> (HASHTBLERROR, t))"

section \<open>The table as a map\<close>

text \<open>
  Up to 2 to the 30 chains the second sum does not wrap and the hash value is an index. One more
  chain is too many.
\<close>

definition bht_inv :: "BufHashTbl \<Rightarrow> bool" where
  "bht_inv t \<longleftrightarrow> 0 < HTSIZE t \<and> HTSIZE t \<le> 1073741824 \<and> length (ht t) = nat (HTSIZE t) \<and>
     chains_ok (\<lambda>(f, p). nat (BufHashTbl_hash (HTSIZE t) f p)) (\<lambda>b. (hb_file b, hb_pageNo b)) (ht t)"

definition bht_map :: "BufHashTbl \<Rightarrow> fptr \<times> int \<Rightarrow> int option" where
  "bht_map t k = map_option hb_frameNo
     (chains_find (\<lambda>(f, p). nat (BufHashTbl_hash (HTSIZE t) f p)) (\<lambda>b. (hb_file b, hb_pageNo b)) (ht t) k)"

lemma bht_hash_bounds:
  assumes "0 < htSize" "htSize \<le> 1073741824"
  shows "0 \<le> BufHashTbl_hash htSize file page \<and> BufHashTbl_hash htSize file page < htSize"
proof -
  let ?v = "c_rem (wrap32 (wrap32 file + page)) htSize + htSize"
  have v: "0 < ?v" "?v < 2147483648"
    using c_rem_bounds [OF assms(1), of "wrap32 (wrap32 file + page)"] assms(2) by simp_all
  then have "wrap32 ?v = ?v" by (simp add: wrap32_id)
  then show ?thesis
    using v(1) assms(1) by (simp add: BufHashTbl_hash_def Let_def c_rem_def [of "_ + htSize"] zero_less_mult_iff)
qed

lemma bht_hash_less: "0 < n \<Longrightarrow> n \<le> 1073741824 \<Longrightarrow> nat (BufHashTbl_hash n f p) < nat n"
  using bht_hash_bounds [of n f p] by simp

text \<open>
  The hash value of any File address and page number, negative or wrapped, is a valid
  index of an array of up to 2 to the 30 chains; with one chain more it can be negative.
\<close>
theorem BufHashTbl_hash_range:
  "0 < htSize \<Longrightarrow> htSize \<le> 1073741824 \<Longrightarrow> 0 \<le> BufHashTbl_hash htSize file page \<and> BufHashTbl_hash htSize file page < htSize"
  by (rule bht_hash_bounds)

theorem BufHashTbl_hash_negative: "BufHashTbl_hash 1073741825 1073741824 0 < 0"
  by (simp add: BufHashTbl_hash_def wrap32_def c_rem_def)

lemma BufHashTbl_hash_range_witness:
  "(0::int) < 121 \<and> BufHashTbl_hash 121 140737488355328 (-5) < 121"
  using BufHashTbl_hash_range [of 121 140737488355328 "-5"] by simp

lemma bht_new_inv: "0 < n \<Longrightarrow> n \<le> 1073741824 \<Longrightarrow> bht_inv (BufHashTbl_new n)"
  using bht_hash_bounds [of n] by (auto simp: bht_inv_def BufHashTbl_new_def chains_ok_def)

lemma bht_new_map: "0 < n \<Longrightarrow> n \<le> 1073741824 \<Longrightarrow> bht_map (BufHashTbl_new n) = Map.empty"
  using bht_hash_bounds [of n] by (auto simp: bht_map_def BufHashTbl_new_def chains_find_def fun_eq_iff)

lemma matches_key: "bucket_matches f p = (\<lambda>b. (hb_file b, hb_pageNo b) = (f, p))"
  by (simp add: bucket_matches_def fun_eq_iff)

lemma lookup_bht_map:
  "BufHashTbl_lookup t f p fr =
     (case bht_map t (f, p) of Some i \<Rightarrow> (OK, i) | None \<Rightarrow> (HASHNOTFOUND, fr))"
  by (simp add: BufHashTbl_lookup_def bht_map_def chains_find_def matches_key Let_def
      split: option.splits)

text \<open>The table provides the interface of a keyed table.\<close>

definition bht_ins :: "BufHashTbl \<Rightarrow> fptr \<times> int \<Rightarrow> int \<Rightarrow> Status \<times> BufHashTbl" where
  "bht_ins t k i = BufHashTbl_insert t (fst k) (snd k) i"

definition bht_del :: "BufHashTbl \<Rightarrow> fptr \<times> int \<Rightarrow> Status \<times> BufHashTbl" where
  "bht_del t k = BufHashTbl_remove t (fst k) (snd k)"

interpretation bht: keyed_table bht_inv bht_map bht_ins bht_del
proof
  fix t :: BufHashTbl and k :: "fptr \<times> int" and v :: int
  assume inv: "bht_inv t"
  obtain f p where k: "k = (f, p)" by (cases k)
  let ?h = "\<lambda>(f, p). nat (BufHashTbl_hash (HTSIZE t) f p)"
  let ?key = "\<lambda>b. (hb_file b, hb_pageNo b)"
  have ok: "chains_ok ?h ?key (ht t)" using inv by (simp add: bht_inv_def)
  have unlink: "chain_unlink (bucket_matches f p) (ht t ! ?h k) = None \<longleftrightarrow> bht_map t k = None"
    by (simp add: chain_unlink_None bht_map_def chains_find_def matches_key k)
  show "\<exists>t'. bht_ins t k v = (OK, t') \<and> bht_inv t' \<and> bht_map t' = (bht_map t)(k \<mapsto> v)"
    if none: "bht_map t k = None"
  proof -
    let ?b = "\<lparr>hb_file = f, hb_pageNo = p, hb_frameNo = v\<rparr>"
    have "chains_find ?h ?key (ht t) (?key ?b) = None"
      using none by (simp add: bht_map_def k)
    note I = chains_ok_insert [OF ok this]
    show ?thesis
      using none inv I
      by (auto simp: bht_ins_def BufHashTbl_insert_def bht_map_def chains_find_def matches_key
          bht_inv_def k Let_def fun_eq_iff)
  qed
  show "bht_ins t k v = (HASHTBLERROR, t)" if "bht_map t k \<noteq> None"
    using that by (simp add: bht_ins_def BufHashTbl_insert_def bht_map_def chains_find_def matches_key
        k Let_def)
  show "\<exists>t'. bht_del t k = (OK, t') \<and> bht_inv t' \<and> bht_map t' = (bht_map t)(k := None)"
    if some: "bht_map t k \<noteq> None"
  proof -
    obtain bs where bs: "chain_unlink (bucket_matches f p) (ht t ! ?h k) = Some bs"
      using some unlink by auto
    note U = chains_ok_unlink [OF ok, of k bs]
    have "chain_unlink (\<lambda>b. ?key b = k) (ht t ! ?h k) = Some bs"
      using bs by (simp add: matches_key k)
    from U [OF this] show ?thesis
      using bs inv by (simp add: bht_del_def BufHashTbl_remove_def bht_map_def k Let_def
          bht_inv_def fun_eq_iff)
  qed
  show "bht_del t k = (HASHTBLERROR, t)" if "bht_map t k = None"
    using that unlink by (simp add: bht_del_def BufHashTbl_remove_def k Let_def)
qed

text \<open>
  C20: On a well-formed table, of up to 2 to the 30 chains, insert, lookup and remove act as on a finite map from (file,
  page) to frames: insert succeeds exactly for a new key, remove exactly for a present one,
  a failing call returns HASHTBLERROR and changes nothing, other keys are never affected, and
  lookup returns what was inserted last.
\<close>
theorem BufHashTbl_is_map:
  assumes "bht_inv t"
  shows "fst (BufHashTbl_insert t f p i) = (if bht_map t (f, p) = None then OK else HASHTBLERROR) \<and>
    bht_inv (snd (BufHashTbl_insert t f p i)) \<and>
    bht_map (snd (BufHashTbl_insert t f p i)) =
      (if bht_map t (f, p) = None then (bht_map t)((f, p) \<mapsto> i) else bht_map t) \<and>
    fst (BufHashTbl_remove t f p) = (if bht_map t (f, p) = None then HASHTBLERROR else OK) \<and>
    bht_inv (snd (BufHashTbl_remove t f p)) \<and>
    bht_map (snd (BufHashTbl_remove t f p)) = (bht_map t)((f, p) := None) \<and>
    BufHashTbl_lookup t f p i =
      (case bht_map t (f, p) of Some j \<Rightarrow> (OK, j) | None \<Rightarrow> (HASHNOTFOUND, i))"
  using bht.ins_status [OF assms, of "(f, p)" i] bht.inv_ins [OF assms, of "(f, p)" i]
    bht.find_ins [OF assms, of "(f, p)" i] bht.del_status [OF assms, of "(f, p)"]
    bht.inv_del [OF assms, of "(f, p)"] bht.find_del [OF assms, of "(f, p)"]
  by (simp add: bht_ins_def bht_del_def lookup_bht_map)

lemma BufHashTbl_is_map_witness:
  "bht_inv (BufHashTbl_new 7) \<and> fst (BufHashTbl_insert (BufHashTbl_new 7) 4096 3 5) = OK \<and>
   fst (BufHashTbl_remove (BufHashTbl_new 7) 4096 3) = HASHTBLERROR"
  using BufHashTbl_is_map [OF bht_new_inv [of 7], of 4096 3 5] by (simp add: bht_new_map bht_new_inv)

end
