(* ===== verification/Page.thy ===== *)
theory Page
  imports Prelude
begin

text \<open>
  The slotted page of page.h and page.C. A page is 1024 bytes of raw memory; the struct
  Page is data[1004] at offset 0, slot[0] at 1004 (slot i, with i counting down from 0, lies
  at 1004 + 4 i, inside data for i below 0), then slotCnt, freePtr, freeSpace, dummy,
  nextPage and curPage. Every operation is the code's sequence of reads and writes of that
  memory. The abstraction page_slots reads the page as a list of optional records, and the
  refinement lemmas say what each operation does to that list.
\<close>

section \<open>Layout\<close>

type_synonym page = mem

definition PAGESIZE :: int where "PAGESIZE = 1024"
definition DPFIXED :: int where "DPFIXED = 20"

definition slot_addr :: "int \<Rightarrow> int" where
  "slot_addr i = 1004 + 4 * i"

definition slot_offset :: "page \<Rightarrow> int \<Rightarrow> int" where
  "slot_offset p i = rd_short p (slot_addr i)"

definition slot_length :: "page \<Rightarrow> int \<Rightarrow> int" where
  "slot_length p i = rd_short p (slot_addr i + 2)"

definition set_slot_offset :: "page \<Rightarrow> int \<Rightarrow> int \<Rightarrow> page" where
  "set_slot_offset p i v = wr_short p (slot_addr i) v"

definition set_slot_length :: "page \<Rightarrow> int \<Rightarrow> int \<Rightarrow> page" where
  "set_slot_length p i v = wr_short p (slot_addr i + 2) v"

definition slotCnt :: "page \<Rightarrow> int" where "slotCnt p = rd_short p 1008"
definition freePtr :: "page \<Rightarrow> int" where "freePtr p = rd_short p 1010"
definition freeSpace :: "page \<Rightarrow> int" where "freeSpace p = rd_short p 1012"
definition nextPage :: "page \<Rightarrow> int" where "nextPage p = rd_int p 1016"
definition curPageNo :: "page \<Rightarrow> int" where "curPageNo p = rd_int p 1020"

definition set_slotCnt :: "page \<Rightarrow> int \<Rightarrow> page" where "set_slotCnt p v = wr_short p 1008 v"
definition set_freePtr :: "page \<Rightarrow> int \<Rightarrow> page" where "set_freePtr p v = wr_short p 1010 v"
definition set_freeSpace :: "page \<Rightarrow> int \<Rightarrow> page" where "set_freeSpace p v = wr_short p 1012 v"
definition set_nextPage :: "page \<Rightarrow> int \<Rightarrow> page" where "set_nextPage p v = wr_int p 1016 v"
definition set_curPage :: "page \<Rightarrow> int \<Rightarrow> page" where "set_curPage p v = wr_int p 1020 v"

lemmas slot_access_defs = slot_offset_def slot_length_def set_slot_offset_def set_slot_length_def
  slot_addr_def
lemmas field_defs = slotCnt_def freePtr_def freeSpace_def nextPage_def curPageNo_def
  set_slotCnt_def set_freePtr_def set_freeSpace_def set_nextPage_def set_curPage_def

lemma slotCnt_bounds: "- 32768 \<le> slotCnt p \<and> slotCnt p < 32768"
  by (simp add: slotCnt_def rd_short_def wrap16_bounds)

section \<open>Operations\<close>

definition Page_init :: "page \<Rightarrow> int \<Rightarrow> page" where
  "Page_init p no =
     (let p = set_nextPage p (-1);
          p = set_slotCnt p 0;
          p = set_curPage p no;
          p = set_freePtr p 0
      in set_freeSpace p (PAGESIZE - DPFIXED))"

definition Page_setNextPage :: "page \<Rightarrow> int \<Rightarrow> Status \<times> page" where
  "Page_setNextPage p no = (OK, set_nextPage p no)"

definition Page_getNextPage :: "page \<Rightarrow> Status \<times> int" where
  "Page_getNextPage p = (OK, nextPage p)"

definition Page_getFreeSpace :: "page \<Rightarrow> int" where
  "Page_getFreeSpace p = freeSpace p"

text \<open>The loops that look for an empty slot (insertRecord) and for a used one (firstRecord,
  nextRecord), from slot \<open>i\<close> downwards.\<close>

function find_empty_slot :: "page \<Rightarrow> int \<Rightarrow> int" where
  "find_empty_slot p i =
     (if i > slotCnt p then if slot_length p i = -1 then i else find_empty_slot p (i - 1) else i)"
  by pat_completeness auto
termination by (relation "measure (\<lambda>(p, i). nat (i - slotCnt p))") auto

function find_used_slot :: "page \<Rightarrow> int \<Rightarrow> int" where
  "find_used_slot p i =
     (if i > slotCnt p then if slot_length p i = -1 then find_used_slot p (i - 1) else i else i)"
  by pat_completeness auto
termination by (relation "measure (\<lambda>(p, i). nat (i - slotCnt p))") auto

declare find_empty_slot.simps [simp del] find_used_slot.simps [simp del]

definition Page_insertRecord :: "page \<Rightarrow> byte list \<Rightarrow> Status \<times> page \<times> RID option" where
  "Page_insertRecord p rec =
     (let recLen = int (length rec);
          spaceNeeded = recLen + 4
      in if spaceNeeded > freeSpace p then (NOSPACE, p, None)
         else
           let i = find_empty_slot p 0;
               p = (if i = slotCnt p
                    then set_slotCnt (set_freeSpace p (freeSpace p - spaceNeeded)) (slotCnt p - 1)
                    else set_freeSpace p (freeSpace p - recLen));
               p = set_slot_offset p i (freePtr p);
               p = set_slot_length p i recLen;
               p = wr_bytes p (freePtr p) rec;
               p = set_freePtr p (freePtr p + recLen)
           in (OK, p, Some \<lparr>pageNo = curPageNo p, slotNo = - i\<rparr>))"

text \<open>The loop of deleteRecord that moves the offsets of the records behind the hole, over the
  slots \<open>- k\<close>, and the do-while loop that drops the empty slots at the end of the slot array.\<close>

lemma slotCnt_set_slot_offset [simp]:
  "slotCnt (set_slot_offset p (- int k) v) = slotCnt p"
  by (simp add: slotCnt_def slot_access_defs mem_simps)

function adjust_offsets :: "page \<Rightarrow> nat \<Rightarrow> int \<Rightarrow> int \<Rightarrow> page" where
  "adjust_offsets p k slot recLen =
     (if - int k > slotCnt p
      then adjust_offsets
             (if slot_length p (- int k) \<ge> 0 \<and> slot_offset p (- int k) > slot_offset p slot
              then set_slot_offset p (- int k) (slot_offset p (- int k) - recLen) else p)
             (Suc k) slot recLen
      else p)"
  by pat_completeness auto
termination by (relation "measure (\<lambda>(p, k, slot, recLen). nat (- slotCnt p - int k))") auto

lemma slotCnt_set_slotCnt [simp]: "slotCnt (set_slotCnt p v) = wrap16 v"
  by (simp add: slotCnt_def set_slotCnt_def mem_simps)

lemma slotCnt_set_freeSpace [simp]: "slotCnt (set_freeSpace p v) = slotCnt p"
  by (simp add: slotCnt_def set_freeSpace_def mem_simps)

function compact_slots :: "page \<Rightarrow> page" where
  "compact_slots p =
     (let p1 = set_slotCnt p (slotCnt p + 1);
          p2 = set_freeSpace p1 (freeSpace p1 + 4)
      in if slotCnt p2 < 0 \<and> slot_length p2 (slotCnt p2 + 1) = -1 then compact_slots p2 else p2)"
  by pat_completeness auto
termination
proof (relation "measure (\<lambda>p. nat (if slotCnt p < 0 then - slotCnt p else 100000 - slotCnt p))",
    goal_cases)
  case 1
  show ?case by simp
next
  case (2 p x xa)
  then show ?case
    using slotCnt_bounds [of p] by (cases "slotCnt p = 32767") (auto simp: wrap16_def)
qed

declare adjust_offsets.simps [simp del] compact_slots.simps [simp del]

definition Page_deleteRecord :: "page \<Rightarrow> RID \<Rightarrow> Status \<times> page" where
  "Page_deleteRecord p rid =
     (let slot = - slotNo rid
      in if slot > slotCnt p \<and> slot_length p slot > 0 then
           let offset = slot_offset p slot;
               recLen = slot_length p slot;
               nextOffset = offset + recLen;
               cnt = freePtr p - nextOffset;
               p = mem_move p nextOffset offset cnt;
               p = adjust_offsets p 0 slot recLen;
               p = set_freePtr p (freePtr p - recLen);
               p = set_freeSpace p (freeSpace p + recLen)
           in if slot = slotCnt p + 1 then (OK, compact_slots p)
              else (OK, set_slot_offset (set_slot_length p slot (-1)) slot 0)
         else (INVALIDSLOTNO, p))"

definition Page_firstRecord :: "page \<Rightarrow> Status \<times> RID option" where
  "Page_firstRecord p =
     (let i = find_used_slot p 0
      in if i = slotCnt p \<or> slot_length p i = -1 then (NORECORDS, None)
         else (OK, Some \<lparr>pageNo = curPageNo p, slotNo = - i\<rparr>))"

definition Page_nextRecord :: "page \<Rightarrow> RID \<Rightarrow> Status \<times> RID option" where
  "Page_nextRecord p curRid =
     (let i = find_used_slot p (- slotNo curRid - 1)
      in if i \<le> slotCnt p \<or> slot_length p i = -1 then (ENDOFPAGE, None)
         else (OK, Some \<lparr>pageNo = curPageNo p, slotNo = - i\<rparr>))"

definition Page_getRecord :: "page \<Rightarrow> RID \<Rightarrow> Status \<times> byte list option" where
  "Page_getRecord p rid =
     (let slot = slotNo rid
      in if - slot > slotCnt p \<and> slot_length p (- slot) > 0
         then (OK, Some (rd_bytes p (slot_offset p (- slot)) (nat (slot_length p (- slot)))))
         else (INVALIDSLOTNO, None))"

section \<open>Fields and slots after a write\<close>

named_theorems page_simps \<open>reading a field or slot of a page after a write\<close>

lemma get_set_fields [page_simps]:
  "slotCnt (set_freePtr p v) = slotCnt p" "slotCnt (set_nextPage p v) = slotCnt p"
  "slotCnt (set_curPage p v) = slotCnt p"
  "freePtr (set_freePtr p v) = wrap16 v" "freePtr (set_slotCnt p v) = freePtr p"
  "freePtr (set_freeSpace p v) = freePtr p" "freePtr (set_nextPage p v) = freePtr p"
  "freePtr (set_curPage p v) = freePtr p"
  "freeSpace (set_freeSpace p v) = wrap16 v" "freeSpace (set_slotCnt p v) = freeSpace p"
  "freeSpace (set_freePtr p v) = freeSpace p" "freeSpace (set_nextPage p v) = freeSpace p"
  "freeSpace (set_curPage p v) = freeSpace p"
  "nextPage (set_nextPage p v) = wrap32 v" "nextPage (set_slotCnt p v) = nextPage p"
  "nextPage (set_freePtr p v) = nextPage p" "nextPage (set_freeSpace p v) = nextPage p"
  "nextPage (set_curPage p v) = nextPage p"
  "curPageNo (set_curPage p v) = wrap32 v" "curPageNo (set_slotCnt p v) = curPageNo p"
  "curPageNo (set_freePtr p v) = curPageNo p" "curPageNo (set_freeSpace p v) = curPageNo p"
  "curPageNo (set_nextPage p v) = curPageNo p"
  by (simp_all add: field_defs mem_simps)

lemma fields_set_slot [page_simps]:
  "slotCnt (set_slot_length p (- int k) v) = slotCnt p"
  "freePtr (set_slot_offset p (- int k) v) = freePtr p"
  "freePtr (set_slot_length p (- int k) v) = freePtr p"
  "freeSpace (set_slot_offset p (- int k) v) = freeSpace p"
  "freeSpace (set_slot_length p (- int k) v) = freeSpace p"
  "nextPage (set_slot_offset p (- int k) v) = nextPage p"
  "nextPage (set_slot_length p (- int k) v) = nextPage p"
  "curPageNo (set_slot_offset p (- int k) v) = curPageNo p"
  "curPageNo (set_slot_length p (- int k) v) = curPageNo p"
  by (simp_all add: field_defs slot_access_defs mem_simps)

lemma slot_set_fields [page_simps]:
  "slot_offset (set_slotCnt p v) (- int k) = slot_offset p (- int k)"
  "slot_offset (set_freePtr p v) (- int k) = slot_offset p (- int k)"
  "slot_offset (set_freeSpace p v) (- int k) = slot_offset p (- int k)"
  "slot_offset (set_nextPage p v) (- int k) = slot_offset p (- int k)"
  "slot_length (set_slotCnt p v) (- int k) = slot_length p (- int k)"
  "slot_length (set_freePtr p v) (- int k) = slot_length p (- int k)"
  "slot_length (set_freeSpace p v) (- int k) = slot_length p (- int k)"
  "slot_length (set_nextPage p v) (- int k) = slot_length p (- int k)"
  by (simp_all add: field_defs slot_access_defs mem_simps)

lemma slot_set_slot [page_simps]:
  "slot_offset (set_slot_offset p (- int k) v) (- int j)
     = (if j = k then wrap16 v else slot_offset p (- int j))"
  "slot_length (set_slot_offset p (- int k) v) (- int j) = slot_length p (- int j)"
  "slot_offset (set_slot_length p (- int k) v) (- int j) = slot_offset p (- int j)"
  "slot_length (set_slot_length p (- int k) v) (- int j)
     = (if j = k then wrap16 v else slot_length p (- int j))"
  by (cases j k rule: linorder_cases; simp add: slot_access_defs mem_simps)+

lemma fields_wr_bytes [page_simps]:
  assumes "a + int (length bs) \<le> 1004"
  shows "slotCnt (wr_bytes p a bs) = slotCnt p" "freePtr (wr_bytes p a bs) = freePtr p"
    "freeSpace (wr_bytes p a bs) = freeSpace p" "nextPage (wr_bytes p a bs) = nextPage p"
    "curPageNo (wr_bytes p a bs) = curPageNo p"
  using assms by (simp_all add: field_defs mem_simps)

lemma slot_wr_bytes [page_simps]:
  assumes "a + int (length bs) \<le> 1004 - 4 * int k"
  shows "slot_offset (wr_bytes p a bs) (- int k) = slot_offset p (- int k)"
    "slot_length (wr_bytes p a bs) (- int k) = slot_length p (- int k)"
  using assms by (simp_all add: slot_access_defs mem_simps)

lemma fields_move [page_simps]:
  assumes "dst + cnt \<le> 1004"
  shows "slotCnt (mem_move p src dst cnt) = slotCnt p" "freePtr (mem_move p src dst cnt) = freePtr p"
    "freeSpace (mem_move p src dst cnt) = freeSpace p" "nextPage (mem_move p src dst cnt) = nextPage p"
    "curPageNo (mem_move p src dst cnt) = curPageNo p"
  using assms by (simp_all add: field_defs mem_simps)

lemma slot_move [page_simps]:
  assumes "dst + cnt \<le> 1004 - 4 * int k"
  shows "slot_offset (mem_move p src dst cnt) (- int k) = slot_offset p (- int k)"
    "slot_length (mem_move p src dst cnt) (- int k) = slot_length p (- int k)"
  using assms by (simp_all add: slot_access_defs mem_simps)

lemma bytes_set_fields [page_simps]:
  assumes "a + int n \<le> 1004"
  shows "rd_bytes (set_slotCnt p v) a n = rd_bytes p a n"
    "rd_bytes (set_freePtr p v) a n = rd_bytes p a n"
    "rd_bytes (set_freeSpace p v) a n = rd_bytes p a n"
    "rd_bytes (set_nextPage p v) a n = rd_bytes p a n"
  using assms by (simp_all add: field_defs mem_simps)

lemma bytes_set_slot [page_simps]:
  assumes "a + int n \<le> 1004 - 4 * int k"
  shows "rd_bytes (set_slot_offset p (- int k) v) a n = rd_bytes p a n"
    "rd_bytes (set_slot_length p (- int k) v) a n = rd_bytes p a n"
  using assms by (simp_all add: slot_access_defs mem_simps)

section \<open>The page as a list of slots, and its invariant\<close>

definition page_slot :: "page \<Rightarrow> nat \<Rightarrow> byte list option" where
  "page_slot p k =
     (if slot_length p (- int k) = -1 then None
      else Some (rd_bytes p (slot_offset p (- int k)) (nat (slot_length p (- int k)))))"

definition num_slots :: "page \<Rightarrow> nat" where
  "num_slots p = nat (- slotCnt p)"

definition page_slots :: "page \<Rightarrow> byte list option list" where
  "page_slots p = map (page_slot p) [0..<num_slots p]"

definition slots_bytes :: "byte list option list \<Rightarrow> nat" where
  "slots_bytes ss = sum_list (map (case_option 0 length) ss)"

text \<open>Slot \<open>k\<close> is empty, or describes bytes below \<open>freePtr\<close>; two records never overlap.\<close>

definition slot_fits :: "page \<Rightarrow> nat \<Rightarrow> bool" where
  "slot_fits p k \<longleftrightarrow> slot_length p (- int k) = -1 \<or>
     0 \<le> slot_length p (- int k) \<and> 0 \<le> slot_offset p (- int k) \<and>
     slot_offset p (- int k) + slot_length p (- int k) \<le> freePtr p"

definition slots_apart :: "page \<Rightarrow> nat \<Rightarrow> nat \<Rightarrow> bool" where
  "slots_apart p j k \<longleftrightarrow> slot_length p (- int j) = -1 \<or> slot_length p (- int k) = -1 \<or>
     slot_offset p (- int j) + slot_length p (- int j) \<le> slot_offset p (- int k) \<or>
     slot_offset p (- int k) + slot_length p (- int k) \<le> slot_offset p (- int j)"

definition page_layout :: "page \<Rightarrow> bool" where
  "page_layout p \<longleftrightarrow> slotCnt p \<le> 0 \<and> 0 \<le> freePtr p \<and> 0 \<le> freeSpace p \<and>
     freePtr p + freeSpace p + 4 * int (num_slots p) = 1004 \<and>
     (\<forall>k < num_slots p. slot_fits p k) \<and>
     (\<forall>j < num_slots p. \<forall>k < num_slots p. j \<noteq> k \<longrightarrow> slots_apart p j k)"

text \<open>Space is accounted exactly, and the slot array never ends in an empty slot.\<close>

definition page_inv :: "page \<Rightarrow> bool" where
  "page_inv p \<longleftrightarrow> page_layout p \<and> freePtr p = int (slots_bytes (page_slots p)) \<and>
     (page_slots p \<noteq> [] \<longrightarrow> last (page_slots p) \<noteq> None)"

lemma length_page_slots [simp]: "length (page_slots p) = num_slots p"
  by (simp add: page_slots_def)

lemma nth_page_slots: "k < num_slots p \<Longrightarrow> page_slots p ! k = page_slot p k"
  by (simp add: page_slots_def)

lemma num_slots_int: "page_layout p \<Longrightarrow> slotCnt p = - int (num_slots p)"
  by (simp add: page_layout_def num_slots_def)

subsection \<open>The abstract operations on slots\<close>

definition first_empty :: "byte list option list \<Rightarrow> nat" where
  "first_empty ss = length (takeWhile (\<lambda>s. s \<noteq> None) ss)"

definition put_slot :: "byte list option list \<Rightarrow> byte list \<Rightarrow> byte list option list" where
  "put_slot ss r = (if first_empty ss = length ss then ss @ [Some r] else ss[first_empty ss := Some r])"

definition drop_empty_tail :: "byte list option list \<Rightarrow> byte list option list" where
  "drop_empty_tail ss = rev (dropWhile (\<lambda>s. s = None) (rev ss))"

definition free_slot :: "byte list option list \<Rightarrow> nat \<Rightarrow> byte list option list" where
  "free_slot ss k = drop_empty_tail (ss[k := None])"

lemma slots_bytes_append [simp]: "slots_bytes (xs @ ys) = slots_bytes xs + slots_bytes ys"
  by (simp add: slots_bytes_def)

lemma slots_bytes_update:
  "k < length ss \<Longrightarrow> slots_bytes (ss[k := s]) + case_option 0 length (ss ! k)
     = slots_bytes ss + case_option 0 length s"
proof (induction ss arbitrary: k)
  case Nil
  then show ?case by simp
next
  case (Cons a ss)
  then show ?case by (cases k) (fastforce simp: slots_bytes_def)+
qed

lemma slots_bytes_drop_empty_tail [simp]: "slots_bytes (drop_empty_tail ss) = slots_bytes ss"
  by (induction ss rule: rev_induct) (auto simp: drop_empty_tail_def slots_bytes_def)

lemma drop_empty_tail_snoc:
  "drop_empty_tail (ss @ [s]) = (if s = None then drop_empty_tail ss else ss @ [s])"
  by (simp add: drop_empty_tail_def)

lemma drop_empty_tail_Nil [simp]: "drop_empty_tail [] = []"
  by (simp add: drop_empty_tail_def)

lemma drop_empty_tail_length_cong:
  "(\<And>j. (f j = None) = (g j = None)) \<Longrightarrow>
     length (drop_empty_tail (map f [0..<m])) = length (drop_empty_tail (map g [0..<m]))"
  by (induction m) (simp_all add: drop_empty_tail_snoc)

lemma drop_empty_tail_length_le: "length (drop_empty_tail ss) \<le> length ss"
  by (induction ss rule: rev_induct) (auto simp: drop_empty_tail_snoc)

lemma drop_empty_tail_take:
  "drop_empty_tail ss = take (length (drop_empty_tail ss)) ss"
  by (induction ss rule: rev_induct) (auto simp: drop_empty_tail_snoc drop_empty_tail_length_le)

lemma drop_empty_tail_last: "drop_empty_tail ss \<noteq> [] \<Longrightarrow> last (drop_empty_tail ss) \<noteq> None"
  by (induction ss rule: rev_induct) (auto simp: drop_empty_tail_snoc)

lemma first_empty_Nil [simp]: "first_empty [] = 0"
  by (simp add: first_empty_def)

lemma first_empty_le: "first_empty ss \<le> length ss"
  by (simp add: first_empty_def length_takeWhile_le)

lemma first_empty_None: "first_empty ss < length ss \<Longrightarrow> ss ! first_empty ss = None"
  by (metis (mono_tags, lifting) first_empty_def nth_length_takeWhile)

lemma before_first_empty: "k < first_empty ss \<Longrightarrow> ss ! k \<noteq> None"
  by (metis (mono_tags, lifting) first_empty_def nth_mem set_takeWhileD takeWhile_nth)

section \<open>init and insertRecord\<close>

lemma page_layout_bounds:
  assumes "page_layout p"
  shows "int (num_slots p) \<le> 251" "freePtr p \<le> 1004" "freeSpace p \<le> 1004"
    "k < num_slots p \<Longrightarrow> freePtr p \<le> 1004 - 4 * int k - 4"
  using assms by (auto simp: page_layout_def)

lemma page_init_inv [inv_intros]:
  "page_inv (Page_init p no)"
  by (simp add: page_inv_def page_layout_def Page_init_def num_slots_def page_slots_def
      slots_bytes_def page_simps PAGESIZE_def DPFIXED_def)

lemma page_init_fields:
  "page_slots (Page_init p no) = []" "nextPage (Page_init p no) = -1"
  "curPageNo (Page_init p no) = wrap32 no" "freeSpace (Page_init p no) = 1004"
  by (simp_all add: Page_init_def page_slots_def num_slots_def page_simps PAGESIZE_def DPFIXED_def)

lemma page_slot_None_iff: "page_slot p k = None \<longleftrightarrow> slot_length p (- int k) = -1"
  by (simp add: page_slot_def)

lemma find_empty_slot_spec:
  assumes "page_layout p" "j \<le> num_slots p"
  shows "find_empty_slot p (- int j) = - int (j + first_empty (drop j (page_slots p)))"
  using assms(2)
proof (induction "num_slots p - j" arbitrary: j)
  case 0
  then show ?case
    using num_slots_int [OF assms(1)] by (simp add: find_empty_slot.simps first_empty_def)
next
  case (Suc d)
  then have j: "j < num_slots p" by simp
  have m: "- int j - 1 = - 1 - int j" by simp
  have hyp: "find_empty_slot p (- 1 - int j)
      = - int (Suc j + first_empty (drop (Suc j) (page_slots p)))"
    using Suc.hyps(1) [of "Suc j"] Suc.hyps(2) j by (simp add: algebra_simps)
  have d: "drop j (page_slots p) = page_slot p j # drop (Suc j) (page_slots p)"
    using j by (simp add: Cons_nth_drop_Suc [symmetric] nth_page_slots)
  show ?case
    using j hyp num_slots_int [OF assms(1)]
    by (subst find_empty_slot.simps)
      (auto simp: d first_empty_def page_slot_def m)
qed

text \<open>The memory after a successful insertion into slot \<open>k\<close>.\<close>

definition after_insert :: "page \<Rightarrow> nat \<Rightarrow> byte list \<Rightarrow> page" where
  "after_insert p k rec =
     (let recLen = int (length rec);
          p1 = (if k = num_slots p
                then set_slotCnt (set_freeSpace p (freeSpace p - (recLen + 4))) (slotCnt p - 1)
                else set_freeSpace p (freeSpace p - recLen));
          p2 = set_slot_length (set_slot_offset p1 (- int k) (freePtr p)) (- int k) recLen
      in set_freePtr (wr_bytes p2 (freePtr p) rec) (freePtr p + recLen))"

lemma insertRecord_ok:
  assumes lay: "page_layout p" and fits: "int (length rec) + 4 \<le> freeSpace p"
  shows "Page_insertRecord p rec =
    (OK, after_insert p (first_empty (page_slots p)) rec,
     Some \<lparr>pageNo = curPageNo p, slotNo = int (first_empty (page_slots p))\<rparr>)"
proof -
  let ?k = "first_empty (page_slots p)"
  have i: "find_empty_slot p 0 = - int ?k"
    using find_empty_slot_spec [OF lay, of 0] by simp
  have eq: "(- int ?k = slotCnt p) = (?k = num_slots p)"
    using num_slots_int [OF lay] by simp
  have b: "freePtr p + int (length rec) \<le> 1004"
    using lay fits by (simp add: page_layout_def)
  show ?thesis
    using fits b
    by (simp add: Page_insertRecord_def i after_insert_def eq Let_def page_simps)
qed

lemma after_insert_fields:
  assumes lay: "page_layout p" and fits: "int (length rec) + 4 \<le> freeSpace p"
    and k: "k \<le> num_slots p"
  shows "slotCnt (after_insert p k rec) = (if k = num_slots p then slotCnt p - 1 else slotCnt p)"
    and "freePtr (after_insert p k rec) = freePtr p + int (length rec)"
    and "freeSpace (after_insert p k rec) =
      freeSpace p - int (length rec) - (if k = num_slots p then 4 else 0)"
    and "nextPage (after_insert p k rec) = nextPage p"
    and "curPageNo (after_insert p k rec) = curPageNo p"
    and "j \<le> num_slots p \<Longrightarrow> slot_offset (after_insert p k rec) (- int j) =
      (if j = k then freePtr p else slot_offset p (- int j))"
    and "j \<le> num_slots p \<Longrightarrow> slot_length (after_insert p k rec) (- int j) =
      (if j = k then int (length rec) else slot_length p (- int j))"
    and "a + int n \<le> freePtr p \<Longrightarrow> rd_bytes (after_insert p k rec) a n = rd_bytes p a n"
    and "rd_bytes (after_insert p k rec) (freePtr p) (length rec) = rec"
proof -
  have b: "freePtr p + int (length rec) \<le> 1000 - 4 * int (num_slots p)"
    "0 \<le> freePtr p" "0 \<le> freeSpace p" "freeSpace p \<le> 1004" "slotCnt p = - int (num_slots p)"
    using lay fits num_slots_int [OF lay] by (auto simp: page_layout_def)
  show "slotCnt (after_insert p k rec) = (if k = num_slots p then slotCnt p - 1 else slotCnt p)"
    "freePtr (after_insert p k rec) = freePtr p + int (length rec)"
    "freeSpace (after_insert p k rec) =
      freeSpace p - int (length rec) - (if k = num_slots p then 4 else 0)"
    "nextPage (after_insert p k rec) = nextPage p"
    "curPageNo (after_insert p k rec) = curPageNo p"
    "j \<le> num_slots p \<Longrightarrow> slot_offset (after_insert p k rec) (- int j) =
      (if j = k then freePtr p else slot_offset p (- int j))"
    "j \<le> num_slots p \<Longrightarrow> slot_length (after_insert p k rec) (- int j) =
      (if j = k then int (length rec) else slot_length p (- int j))"
    using b fits k by (simp_all add: after_insert_def Let_def page_simps)
  show "a + int n \<le> freePtr p \<Longrightarrow> rd_bytes (after_insert p k rec) a n = rd_bytes p a n"
    using b k by (simp add: after_insert_def Let_def page_simps mem_simps)
  show "rd_bytes (after_insert p k rec) (freePtr p) (length rec) = rec"
    using b k by (simp add: after_insert_def Let_def page_simps mem_simps)
qed

lemma num_slots_after_insert:
  assumes lay: "page_layout p" and fits: "int (length rec) + 4 \<le> freeSpace p"
    and k: "k \<le> num_slots p"
  shows "num_slots (after_insert p k rec) = (if k = num_slots p then Suc (num_slots p) else num_slots p)"
  using after_insert_fields(1) [OF assms] num_slots_int [OF lay]
  unfolding num_slots_def [of "after_insert p k rec"] by (auto simp: nat_add_distrib)

lemma slots_apart_sym: "slots_apart p j k \<Longrightarrow> slots_apart p k j"
  by (auto simp: slots_apart_def)

lemma page_layout_after_insert:
  assumes lay: "page_layout p" and fits: "int (length rec) + 4 \<le> freeSpace p"
    and k: "k \<le> num_slots p"
  shows "page_layout (after_insert p k rec)"
proof -
  let ?q = "after_insert p k rec"
  note f = after_insert_fields [OF lay fits k]
  note n = num_slots_after_insert [OF lay fits k]
  have old: "slot_fits p j" if "j < num_slots p" for j
    using lay that by (simp add: page_layout_def)
  have le: "j \<le> num_slots p" if "j < num_slots ?q" for j
    using that k by (auto simp: n split: if_splits)
  have lt: "j < num_slots p" if "j < num_slots ?q" "j \<noteq> k" for j
    using that k by (auto simp: n split: if_splits)
  have fit: "slot_fits ?q j" if j: "j < num_slots ?q" for j
  proof (cases "j = k")
    case True
    then show ?thesis using lay le [OF j] by (simp add: slot_fits_def f page_layout_def)
  next
    case False
    then show ?thesis using old [OF lt [OF j]] le [OF j] by (auto simp: slot_fits_def f)
  qed
  have ap: "slots_apart ?q i j" if i: "i < num_slots ?q" and j: "j < num_slots ?q" and "i \<noteq> j" for i j
  proof -
    have new: "slots_apart ?q i k" if i: "i < num_slots ?q" and "i \<noteq> k" for i
      using old [OF lt [OF i \<open>i \<noteq> k\<close>]] le [OF i] k \<open>i \<noteq> k\<close>
      by (auto simp: slots_apart_def slot_fits_def f)
    consider "j = k" | "i = k" | "i \<noteq> k" "j \<noteq> k" by blast
    then show ?thesis
    proof cases
      case 3
      then have "slots_apart p i j"
        using lay lt [OF i] lt [OF j] \<open>i \<noteq> j\<close> by (simp add: page_layout_def)
      then show ?thesis using 3 le [OF i] le [OF j] by (simp add: slots_apart_def f)
    qed (use new i j \<open>i \<noteq> j\<close> slots_apart_sym in blast)+
  qed
  show ?thesis
    using lay fits fit ap by (auto simp: page_layout_def f n split: if_splits)
qed

lemma page_slots_after_insert:
  assumes lay: "page_layout p" and fits: "int (length rec) + 4 \<le> freeSpace p"
  shows "page_slots (after_insert p (first_empty (page_slots p)) rec) = put_slot (page_slots p) rec"
proof -
  let ?k = "first_empty (page_slots p)"
  let ?q = "after_insert p ?k rec"
  have k: "?k \<le> num_slots p" using first_empty_le [of "page_slots p"] by simp
  note f = after_insert_fields [OF lay fits k]
  note n = num_slots_after_insert [OF lay fits k]
  have s: "page_slot ?q j = (if j = ?k then Some rec else page_slot p j)" if jq: "j < num_slots ?q" for j
  proof -
    have j: "j \<le> num_slots p" using jq k by (auto simp: n split: if_splits)
    have "j \<noteq> ?k \<Longrightarrow> j < num_slots p" using jq k by (auto simp: n split: if_splits)
    then have "slot_fits p j" if "j \<noteq> ?k"
      using lay that by (simp add: page_layout_def)
    then show ?thesis
      using j f(9) by (auto simp: page_slot_def f slot_fits_def)
  qed
  show ?thesis
  proof (rule nth_equalityI)
    show "length (page_slots ?q) = length (put_slot (page_slots p) rec)"
      by (simp add: n put_slot_def)
    fix j assume "j < length (page_slots ?q)"
    then have "j \<le> num_slots p" "j < num_slots ?q" using k by (auto simp: n split: if_splits)
    then show "page_slots ?q ! j = put_slot (page_slots p) rec ! j"
      using k by (auto simp: nth_page_slots s put_slot_def nth_append n nth_list_update split: if_splits)
  qed
qed

lemma slots_bytes_put_slot: "slots_bytes (put_slot ss r) = slots_bytes ss + length r"
proof (cases "first_empty ss = length ss")
  case True
  then show ?thesis by (simp add: put_slot_def) (simp add: slots_bytes_def)
next
  case False
  then have "first_empty ss < length ss" using first_empty_le [of ss] by simp
  then show ?thesis
    using slots_bytes_update [of "first_empty ss" ss "Some r"] False
    by (simp add: put_slot_def first_empty_None)
qed

lemma last_put_slot: "ss = [] \<or> last ss \<noteq> None \<Longrightarrow> last (put_slot ss r) \<noteq> None"
  using first_empty_le [of ss] by (cases "ss = []") (auto simp: put_slot_def last_list_update)

lemma page_inv_after_insert:
  assumes inv: "page_inv p" and fits: "int (length rec) + 4 \<le> freeSpace p"
  shows "page_inv (after_insert p (first_empty (page_slots p)) rec)"
proof -
  have lay: "page_layout p" using inv by (simp add: page_inv_def)
  have k: "first_empty (page_slots p) \<le> num_slots p"
    using first_empty_le [of "page_slots p"] by simp
  show ?thesis
    using inv page_layout_after_insert [OF lay fits k] after_insert_fields(2) [OF lay fits k]
      last_put_slot [of "page_slots p" rec]
    by (auto simp: page_inv_def page_slots_after_insert [OF lay fits] slots_bytes_put_slot)
qed

lemma insertRecord_sound:
  assumes "page_inv p"
  shows "if int (length rec) + 4 \<le> freeSpace p
    then \<exists>q. Page_insertRecord p rec
          = (OK, q, Some \<lparr>pageNo = curPageNo p, slotNo = int (first_empty (page_slots p))\<rparr>) \<and>
        page_inv q \<and> page_slots q = put_slot (page_slots p) rec \<and>
        nextPage q = nextPage p \<and> curPageNo q = curPageNo p
    else Page_insertRecord p rec = (NOSPACE, p, None)"
proof (cases "int (length rec) + 4 \<le> freeSpace p")
  case True
  have lay: "page_layout p" using assms by (simp add: page_inv_def)
  have k: "first_empty (page_slots p) \<le> num_slots p"
    using first_empty_le [of "page_slots p"] by simp
  show ?thesis
    using True insertRecord_ok [OF lay True] page_inv_after_insert [OF assms True]
      page_slots_after_insert [OF lay True] after_insert_fields(4,5) [OF lay True k]
    by simp
qed (simp add: Page_insertRecord_def)

text \<open>
  C14: Inserting a record into a well-formed page succeeds exactly when the record and a slot
  fit into the free space; then the record is put into the first empty slot (or a new one),
  the RID returned names that slot, all other records are unchanged, the page stays
  well-formed and the free space shrinks by exactly the bytes used. Otherwise NOSPACE is
  returned and the page is untouched.
\<close>
theorem insertRecord_refines:
  assumes "page_inv p"
  shows "if int (length rec) + 4 \<le> freeSpace p
    then \<exists>q. Page_insertRecord p rec
          = (OK, q, Some \<lparr>pageNo = curPageNo p, slotNo = int (first_empty (page_slots p))\<rparr>) \<and>
        page_inv q \<and> page_slots q = put_slot (page_slots p) rec \<and>
        nextPage q = nextPage p \<and> curPageNo q = curPageNo p
    else Page_insertRecord p rec = (NOSPACE, p, None)"
  by (rule insertRecord_sound [OF assms])

section \<open>deleteRecord\<close>

lemma slot_offset_bounds: "- 32768 \<le> slot_offset p i \<and> slot_offset p i < 32768"
  by (simp add: slot_offset_def rd_short_def wrap16_bounds)

lemma adjust_offsets_spec:
  assumes "slotCnt p = - int n" "0 \<le> slot_offset p (- int k)" "0 \<le> len" "len \<le> 1004"
  shows "slotCnt (adjust_offsets p i (- int k) len) = slotCnt p \<and>
    freePtr (adjust_offsets p i (- int k) len) = freePtr p \<and>
    freeSpace (adjust_offsets p i (- int k) len) = freeSpace p \<and>
    nextPage (adjust_offsets p i (- int k) len) = nextPage p \<and>
    curPageNo (adjust_offsets p i (- int k) len) = curPageNo p \<and>
    (\<forall>j. slot_length (adjust_offsets p i (- int k) len) (- int j) = slot_length p (- int j)) \<and>
    (\<forall>j. slot_offset (adjust_offsets p i (- int k) len) (- int j) =
      (if i \<le> j \<and> j < n \<and> 0 \<le> slot_length p (- int j) \<and>
          slot_offset p (- int j) > slot_offset p (- int k)
       then slot_offset p (- int j) - len else slot_offset p (- int j))) \<and>
    (\<forall>a m. a + int m \<le> 1008 - 4 * int n \<longrightarrow>
      rd_bytes (adjust_offsets p i (- int k) len) a m = rd_bytes p a m)"
  using assms
proof (induction "n - i" arbitrary: i p)
  case 0
  then show ?case by (auto simp: adjust_offsets.simps)
next
  case (Suc d)
  then have i: "i < n" by simp
  let ?c = "slot_length p (- int i) \<ge> 0 \<and> slot_offset p (- int i) > slot_offset p (- int k)"
  let ?p = "if ?c then set_slot_offset p (- int i) (slot_offset p (- int i) - len) else p"
  have w: "?c \<Longrightarrow> wrap16 (slot_offset p (- int i) - len) = slot_offset p (- int i) - len"
    using Suc.prems slot_offset_bounds [of p "- int i"] by simp
  have k: "slot_offset ?p (- int k) = slot_offset p (- int k)"
    by (auto simp: page_simps)
  have step: "adjust_offsets p i (- int k) len = adjust_offsets ?p (Suc i) (- int k) len"
    using i Suc.prems(1) by (subst adjust_offsets.simps) simp
  have IH: "slotCnt (adjust_offsets ?p (Suc i) (- int k) len) = slotCnt ?p \<and>
    freePtr (adjust_offsets ?p (Suc i) (- int k) len) = freePtr ?p \<and>
    freeSpace (adjust_offsets ?p (Suc i) (- int k) len) = freeSpace ?p \<and>
    nextPage (adjust_offsets ?p (Suc i) (- int k) len) = nextPage ?p \<and>
    curPageNo (adjust_offsets ?p (Suc i) (- int k) len) = curPageNo ?p \<and>
    (\<forall>j. slot_length (adjust_offsets ?p (Suc i) (- int k) len) (- int j) = slot_length ?p (- int j)) \<and>
    (\<forall>j. slot_offset (adjust_offsets ?p (Suc i) (- int k) len) (- int j) =
      (if Suc i \<le> j \<and> j < n \<and> 0 \<le> slot_length ?p (- int j) \<and>
          slot_offset ?p (- int j) > slot_offset ?p (- int k)
       then slot_offset ?p (- int j) - len else slot_offset ?p (- int j))) \<and>
    (\<forall>a m. a + int m \<le> 1008 - 4 * int n \<longrightarrow>
      rd_bytes (adjust_offsets ?p (Suc i) (- int k) len) a m = rd_bytes ?p a m)"
    using Suc.hyps Suc.prems k by (intro Suc.hyps(1)) (auto simp: page_simps)
  show ?case
    unfolding step using IH k w i by (auto simp: page_simps not_less_eq_eq le_Suc_eq)
qed

lemma compact_slots_spec:
  assumes "slotCnt p = - int (Suc m)" "m \<le> 251" "0 \<le> freeSpace p" "freeSpace p + 4 * int m \<le> 1004"
  shows "let n = length (drop_empty_tail (map (page_slot p) [0..<m])); q = compact_slots p
    in slotCnt q = - int n \<and> freePtr q = freePtr p \<and>
       freeSpace q = freeSpace p + 4 * (int (Suc m) - int n) \<and>
       nextPage q = nextPage p \<and> curPageNo q = curPageNo p \<and>
       (\<forall>j. slot_offset q (- int j) = slot_offset p (- int j) \<and>
            slot_length q (- int j) = slot_length p (- int j)) \<and>
       (\<forall>a l. a + int l \<le> 1004 \<longrightarrow> rd_bytes q a l = rd_bytes p a l)"
  using assms
proof (induction m arbitrary: p)
  case 0
  then show ?case by (subst compact_slots.simps) (simp add: page_simps Let_def)
next
  case (Suc m)
  let ?q = "set_freeSpace (set_slotCnt p (slotCnt p + 1)) (freeSpace (set_slotCnt p (slotCnt p + 1)) + 4)"
  have q: "slotCnt ?q = - int (Suc m)" "freeSpace ?q = freeSpace p + 4"
    using Suc.prems by (simp_all add: page_simps)
  have same: "slot_offset ?q (- int j) = slot_offset p (- int j)"
    "slot_length ?q (- int j) = slot_length p (- int j)" for j
    by (simp_all add: page_simps)
  have None: "(page_slot ?q j = None) = (page_slot p j = None)" for j
    by (simp only: page_slot_None_iff same)
  have len: "length (drop_empty_tail (map (page_slot ?q) [0..<m])) =
      length (drop_empty_tail (map (page_slot p) [0..<m]))"
    by (rule drop_empty_tail_length_cong) (rule None)
  have next_slot: "slotCnt ?q + 1 = - int m" using q by simp
  show ?case
  proof (cases "page_slot p m = None")
    case True
    then have "compact_slots p = compact_slots ?q"
      using q next_slot same by (subst compact_slots.simps) (simp add: Let_def page_slot_None_iff)
    moreover have "drop_empty_tail (map (page_slot p) [0..<Suc m])
        = drop_empty_tail (map (page_slot p) [0..<m])"
      using True by (simp add: drop_empty_tail_snoc)
    ultimately show ?thesis
      using Suc.IH [of ?q] q Suc.prems same len
      by (simp add: Let_def page_simps del: upt_Suc)
  next
    case False
    then have "compact_slots p = ?q"
      using q next_slot same by (subst compact_slots.simps) (simp add: Let_def page_slot_None_iff)
    moreover have "length (drop_empty_tail (map (page_slot p) [0..<Suc m])) = Suc m"
      using False by (auto simp: drop_empty_tail_snoc)
    ultimately show ?thesis
      using q same by (simp add: Let_def page_simps del: upt_Suc)
  qed
qed

text \<open>The page after the bytes of slot \<open>k\<close> are removed, before the slot itself is freed.\<close>

definition punch_hole :: "page \<Rightarrow> nat \<Rightarrow> page" where
  "punch_hole p k =
     (let offset = slot_offset p (- int k);
          recLen = slot_length p (- int k);
          q = mem_move p (offset + recLen) offset (freePtr p - (offset + recLen));
          q = adjust_offsets q 0 (- int k) recLen;
          q = set_freePtr q (freePtr q - recLen)
      in set_freeSpace q (freeSpace q + recLen))"

lemma slotCnt_punch_hole_eq:
  "slotNo rid = int k \<Longrightarrow> - int k > slotCnt p \<Longrightarrow> slot_length p (- int k) > 0 \<Longrightarrow>
   Page_deleteRecord p rid =
     (if - int k = slotCnt (punch_hole p k) + 1 then (OK, compact_slots (punch_hole p k))
      else (OK, set_slot_offset (set_slot_length (punch_hole p k) (- int k) (-1)) (- int k) 0))"
  by (simp add: Page_deleteRecord_def punch_hole_def Let_def)

lemma punch_hole_spec:
  assumes lay: "page_layout p" and k: "k < num_slots p" and pos: "slot_length p (- int k) > 0"
  defines "off \<equiv> slot_offset p (- int k)" and "len \<equiv> slot_length p (- int k)"
  shows "slotCnt (punch_hole p k) = slotCnt p"
    and "freePtr (punch_hole p k) = freePtr p - len"
    and "freeSpace (punch_hole p k) = freeSpace p + len"
    and "nextPage (punch_hole p k) = nextPage p"
    and "curPageNo (punch_hole p k) = curPageNo p"
    and "j < num_slots p \<Longrightarrow> slot_length (punch_hole p k) (- int j) = slot_length p (- int j)"
    and "j < num_slots p \<Longrightarrow> slot_offset (punch_hole p k) (- int j) =
      (if 0 \<le> slot_length p (- int j) \<and> off < slot_offset p (- int j)
       then slot_offset p (- int j) - len else slot_offset p (- int j))"
    and "a + int m \<le> off \<Longrightarrow> rd_bytes (punch_hole p k) a m = rd_bytes p a m"
    and "off \<le> a \<Longrightarrow> a + int m \<le> freePtr p - len \<Longrightarrow>
      rd_bytes (punch_hole p k) a m = rd_bytes p (a + len) m"
proof -
  have fit: "0 \<le> off" "off + len \<le> freePtr p" "0 < len"
    using lay k pos by (auto simp: page_layout_def slot_fits_def off_def len_def)
  have b: "freePtr p \<le> 1004 - 4 * int (num_slots p)" "0 \<le> freeSpace p" "freeSpace p \<le> 1004"
    "freePtr p + freeSpace p \<le> 1004" "slotCnt p = - int (num_slots p)"
    using lay num_slots_int [OF lay] by (auto simp: page_layout_def)
  let ?m = "mem_move p (off + len) off (freePtr p - (off + len))"
  have m: "slotCnt ?m = slotCnt p" "freePtr ?m = freePtr p" "freeSpace ?m = freeSpace p"
    "nextPage ?m = nextPage p" "curPageNo ?m = curPageNo p"
    using fit b by (simp_all add: page_simps)
  have ms: "slot_offset ?m (- int j) = slot_offset p (- int j)"
    "slot_length ?m (- int j) = slot_length p (- int j)" if "j < num_slots p" for j
    using fit b that by (simp_all add: page_simps)
  have off: "slot_offset ?m (- int k) = off" using ms [OF k] by (simp only: off_def)
  have len: "len \<le> 1004" using fit b by linarith
  note A = adjust_offsets_spec [of ?m "num_slots p" k len 0, unfolded m off, OF b(5) fit(1) less_imp_le [OF fit(3)] len]
  have bd: "a + int m \<le> freePtr p \<Longrightarrow> a + int m \<le> 1008 - 4 * int (num_slots p)" for a m
    using b by linarith
  have bd4: "a + int m \<le> freePtr p \<Longrightarrow> a + int m \<le> 1004" for a m
    using b by linarith
  show "slotCnt (punch_hole p k) = slotCnt p"
    "freePtr (punch_hole p k) = freePtr p - len"
    "freeSpace (punch_hole p k) = freeSpace p + len"
    "nextPage (punch_hole p k) = nextPage p"
    "curPageNo (punch_hole p k) = curPageNo p"
    using A fit b by (simp_all add: punch_hole_def off_def [symmetric] len_def [symmetric] Let_def page_simps)
  show "j < num_slots p \<Longrightarrow> slot_length (punch_hole p k) (- int j) = slot_length p (- int j)"
    using A ms by (simp add: punch_hole_def off_def [symmetric] len_def [symmetric] Let_def page_simps)
  show "j < num_slots p \<Longrightarrow> slot_offset (punch_hole p k) (- int j) =
      (if 0 \<le> slot_length p (- int j) \<and> off < slot_offset p (- int j)
       then slot_offset p (- int j) - len else slot_offset p (- int j))"
    using A ms by (simp add: punch_hole_def off_def [symmetric] len_def [symmetric] Let_def page_simps)
  show "a + int m \<le> off \<Longrightarrow> rd_bytes (punch_hole p k) a m = rd_bytes p a m"
    using A bd [of a m] bd4 [of a m] fit
    by (simp add: punch_hole_def off_def [symmetric] len_def [symmetric] Let_def page_simps mem_simps)
  show "off \<le> a \<Longrightarrow> a + int m \<le> freePtr p - len \<Longrightarrow>
      rd_bytes (punch_hole p k) a m = rd_bytes p (a + len) m"
    using A bd [of a m] bd4 [of a m] fit
    by (simp add: punch_hole_def off_def [symmetric] len_def [symmetric] Let_def page_simps mem_simps
        algebra_simps)
qed

lemma punch_hole_slots:
  assumes lay: "page_layout p" and k: "k < num_slots p" and pos: "slot_length p (- int k) > 0"
  shows "j < num_slots p \<Longrightarrow> j \<noteq> k \<Longrightarrow> slot_fits (punch_hole p k) j"
    and "j < num_slots p \<Longrightarrow> j \<noteq> k \<Longrightarrow> page_slot (punch_hole p k) j = page_slot p j"
    and "i < num_slots p \<Longrightarrow> i \<noteq> k \<Longrightarrow> j < num_slots p \<Longrightarrow> j \<noteq> k \<Longrightarrow> i \<noteq> j \<Longrightarrow>
      slots_apart (punch_hole p k) i j"
proof -
  note P = punch_hole_spec [OF lay k pos]
  have fits: "slot_fits p j" if "j < num_slots p" for j
    using lay that by (simp add: page_layout_def)
  have apart: "slots_apart p i j" if "i < num_slots p" "j < num_slots p" "i \<noteq> j" for i j
    using lay that by (simp add: page_layout_def)
  show "slot_fits (punch_hole p k) j" if "j < num_slots p" "j \<noteq> k"
    using fits [OF that(1)] fits [OF k] apart [OF that(1) k that(2)] pos that
    by (auto simp: slot_fits_def slots_apart_def P)
  show "page_slot (punch_hole p k) j = page_slot p j" if j: "j < num_slots p" "j \<noteq> k"
  proof (cases "slot_length p (- int j) = -1")
    case True
    then show ?thesis by (simp add: page_slot_def P j)
  next
    case False
    show ?thesis
    proof (cases "slot_offset p (- int k) < slot_offset p (- int j)")
      case True
      then show ?thesis
        using False fits [OF j(1)] fits [OF k] apart [OF j(1) k j(2)] pos
        by (auto simp: page_slot_def P j slot_fits_def slots_apart_def)
    next
      case other: False
      then show ?thesis
        using False fits [OF j(1)] fits [OF k] apart [OF j(1) k j(2)] pos
        by (auto simp: page_slot_def P j slot_fits_def slots_apart_def)
    qed
  qed
  show "slots_apart (punch_hole p k) i j"
    if "i < num_slots p" "i \<noteq> k" "j < num_slots p" "j \<noteq> k" "i \<noteq> j"
    using fits [OF that(1)] fits [OF that(3)] fits [OF k] apart [OF that(1) k that(2)]
      apart [OF that(3) k that(4)] apart [OF that(1,3,5)] pos
    by (auto simp: slot_fits_def slots_apart_def P that)
qed

lemma page_slots_eqI:
  assumes "num_slots q = length ss" "\<And>j. j < length ss \<Longrightarrow> page_slot q j = ss ! j"
  shows "page_slots q = ss"
  using assms by (intro nth_equalityI) (simp_all add: nth_page_slots)

text \<open>Freeing a slot that is not the last one: it is marked empty.\<close>

lemma free_middle_slot:
  assumes lay: "page_layout p" and k: "k < num_slots p" and pos: "slot_length p (- int k) > 0"
  defines "q \<equiv> set_slot_offset (set_slot_length (punch_hole p k) (- int k) (-1)) (- int k) 0"
  shows "page_layout q" and "page_slots q = (page_slots p)[k := None]"
    and "freePtr q = freePtr p - slot_length p (- int k)"
    and "nextPage q = nextPage p" and "curPageNo q = curPageNo p"
proof -
  note P = punch_hole_spec [OF lay k pos] and S = punch_hole_slots [OF lay k pos]
  note b = page_layout_bounds [OF lay]
  have fp: "freePtr p \<le> 1004 - 4 * int (num_slots p)" using lay by (auto simp: page_layout_def)
  show fields: "freePtr q = freePtr p - slot_length p (- int k)"
    "nextPage q = nextPage p" "curPageNo q = curPageNo p"
    by (simp_all add: q_def page_simps P)
  have n: "num_slots q = num_slots p"
    by (simp add: q_def num_slots_def page_simps P)
  have sl: "slot_length q (- int j) = (if j = k then -1 else slot_length (punch_hole p k) (- int j))"
    "j \<noteq> k \<Longrightarrow> slot_offset q (- int j) = slot_offset (punch_hole p k) (- int j)" for j
    by (simp_all add: q_def page_simps)
  have fit: "slot_fits q j" if "j < num_slots p" for j
    using S(1) [of j] that by (auto simp: slot_fits_def sl fields P)
  have ap: "slots_apart q i j" if "i < num_slots p" "j < num_slots p" "i \<noteq> j" for i j
    using S(3) [of i j] that by (auto simp: slots_apart_def sl)
  have k0: "0 \<le> slot_offset p (- int k)" "slot_offset p (- int k) + slot_length p (- int k) \<le> freePtr p"
    using lay k pos by (auto simp: page_layout_def slot_fits_def)
  show "page_layout q"
    using lay fit ap k0 pos by (simp add: page_layout_def fields n)
      (simp add: q_def page_simps P)
  show "page_slots q = (page_slots p)[k := None]"
  proof (rule page_slots_eqI)
    show "num_slots q = length ((page_slots p)[k := None])" by (simp add: n)
    fix j assume "j < length ((page_slots p)[k := None])"
    then have j: "j < num_slots p" by simp
    have "rd_bytes q a m = rd_bytes (punch_hole p k) a m" if "a + int m \<le> freePtr p" for a m
      using that fp k by (simp add: q_def page_simps)
    then have "page_slot q j = page_slot (punch_hole p k) j" if "j \<noteq> k"
      using S(1) [OF j that] that pos by (auto simp: page_slot_def sl slot_fits_def P)
    then show "page_slot q j = (page_slots p)[k := None] ! j"
      using S(2) [OF j] k j by (auto simp: nth_page_slots nth_list_update page_slot_def sl)
  qed
qed

text \<open>Freeing the last slot: it is dropped, with all the empty slots before it.\<close>

lemma free_last_slot:
  assumes lay: "page_layout p" and k: "num_slots p = Suc k" and pos: "slot_length p (- int k) > 0"
  defines "q \<equiv> compact_slots (punch_hole p k)"
  shows "page_layout q" and "page_slots q = free_slot (page_slots p) k"
    and "freePtr q = freePtr p - slot_length p (- int k)"
    and "nextPage q = nextPage p" and "curPageNo q = curPageNo p"
proof -
  have kn: "k < num_slots p" using k by simp
  note P = punch_hole_spec [OF lay kn pos] and S = punch_hole_slots [OF lay kn pos]
  have k0: "0 \<le> slot_offset p (- int k)" "slot_offset p (- int k) + slot_length p (- int k) \<le> freePtr p"
    using lay kn pos by (auto simp: page_layout_def slot_fits_def)
  have b: "0 \<le> freePtr p" "0 \<le> freeSpace p" "freePtr p + freeSpace p + 4 * int (Suc k) = 1004"
    "slotCnt p = - int (Suc k)"
    using lay num_slots_int [OF lay] k by (auto simp: page_layout_def)
  let ?ss = "map (page_slot (punch_hole p k)) [0..<k]"
  let ?n = "length (drop_empty_tail ?ss)"
  have ss: "?ss = take k (page_slots p)"
    using S(2) k by (auto simp: page_slots_def take_map intro!: nth_equalityI)
  have free: "free_slot (page_slots p) k = drop_empty_tail ?ss"
  proof -
    have "(page_slots p)[k := None] = take k (page_slots p) @ [None]"
      using k by (simp add: upd_conv_take_nth_drop)
    then show ?thesis by (simp add: free_slot_def ss drop_empty_tail_snoc)
  qed
  have nk: "?n \<le> k" using drop_empty_tail_length_le [of ?ss] by simp
  have C: "slotCnt q = - int ?n" "freePtr q = freePtr p - slot_length p (- int k)"
    "freeSpace q = freeSpace p + slot_length p (- int k) + 4 * (int (Suc k) - int ?n)"
    "nextPage q = nextPage p" "curPageNo q = curPageNo p"
    "\<And>j. slot_offset q (- int j) = slot_offset (punch_hole p k) (- int j)"
    "\<And>j. slot_length q (- int j) = slot_length (punch_hole p k) (- int j)"
    "\<And>a l. a + int l \<le> 1004 \<Longrightarrow> rd_bytes q a l = rd_bytes (punch_hole p k) a l"
    using compact_slots_spec [of "punch_hole p k" k] b k0 pos k
    by (simp_all add: q_def Let_def P)
  then show "freePtr q = freePtr p - slot_length p (- int k)"
    "nextPage q = nextPage p" "curPageNo q = curPageNo p" by simp_all
  have n: "num_slots q = ?n" by (simp add: num_slots_def C)
  have fit: "slot_fits q j" if "j < ?n" for j
    using S(1) [of j] that nk k by (auto simp: slot_fits_def C P)
  have ap: "slots_apart q i j" if "i < ?n" "j < ?n" "i \<noteq> j" for i j
    using S(3) [of i j] that nk k by (auto simp: slots_apart_def C)
  show "page_layout q"
    using fit ap b k0 pos nk by (simp add: page_layout_def n) (simp add: C)
  show "page_slots q = free_slot (page_slots p) k"
    unfolding free
  proof (rule page_slots_eqI)
    show "num_slots q = ?n" by (rule n)
    fix j assume j: "j < ?n"
    then have jk: "j < num_slots p" "j \<noteq> k" using nk k by auto
    have "page_slot q j = page_slot (punch_hole p k) j"
      using S(1) [OF jk] b k0 pos by (auto simp: page_slot_def C slot_fits_def P)
    also have "\<dots> = drop_empty_tail ?ss ! j"
      using j nk by (subst drop_empty_tail_take) simp
    finally show "page_slot q j = drop_empty_tail ?ss ! j" .
  qed
qed

lemma slots_bytes_free_slot:
  "k < length ss \<Longrightarrow> ss ! k = Some r \<Longrightarrow> slots_bytes (free_slot ss k) + length r = slots_bytes ss"
  using slots_bytes_update [of k ss None] by (simp add: free_slot_def)

lemma free_slot_not_last:
  assumes "ss \<noteq> []" "last ss \<noteq> None" "k < length ss" "Suc k \<noteq> length ss"
  shows "free_slot ss k = ss[k := None]"
proof -
  have "last (ss[k := None]) \<noteq> None" "ss[k := None] \<noteq> []"
    using assms by (simp_all add: last_list_update)
  then show ?thesis
    unfolding free_slot_def by (metis append_butlast_last_id drop_empty_tail_snoc)
qed

lemma deleteRecord_sound:
  assumes "page_inv p" and "slotNo rid = int k"
  shows "if k < num_slots p \<and> page_slots p ! k \<noteq> None \<and> page_slots p ! k \<noteq> Some []
    then \<exists>q. Page_deleteRecord p rid = (OK, q) \<and> page_inv q \<and>
        page_slots q = free_slot (page_slots p) k \<and>
        nextPage q = nextPage p \<and> curPageNo q = curPageNo p
    else Page_deleteRecord p rid = (INVALIDSLOTNO, p)"
proof -
  have lay: "page_layout p" and acc: "freePtr p = int (slots_bytes (page_slots p))"
    and last: "page_slots p \<noteq> [] \<longrightarrow> last (page_slots p) \<noteq> None"
    using assms(1) by (auto simp: page_inv_def)
  have n: "slotCnt p = - int (num_slots p)" by (rule num_slots_int [OF lay])
  have guard: "(k < num_slots p \<and> page_slots p ! k \<noteq> None \<and> page_slots p ! k \<noteq> Some []) =
      (- int k > slotCnt p \<and> slot_length p (- int k) > 0)"
  proof (cases "k < num_slots p")
    case True
    then have "slot_fits p k" using lay by (simp add: page_layout_def)
    then show ?thesis
      using True by (auto simp: n nth_page_slots page_slot_def slot_fits_def
          simp flip: length_0_conv)
  qed (simp add: n)
  show ?thesis
  proof (cases "k < num_slots p \<and> page_slots p ! k \<noteq> None \<and> page_slots p ! k \<noteq> Some []")
    case used: True
    then have k: "k < num_slots p" and pos: "slot_length p (- int k) > 0" using guard by auto
    let ?r = "rd_bytes p (slot_offset p (- int k)) (nat (slot_length p (- int k)))"
    have r: "page_slots p ! k = Some ?r" using k pos by (simp add: nth_page_slots page_slot_def)
    have acc': "freePtr p - slot_length p (- int k) = int (slots_bytes (free_slot (page_slots p) k))"
      using slots_bytes_free_slot [of k "page_slots p", OF _ r] k pos acc by simp
    have lst: "free_slot (page_slots p) k \<noteq> [] \<longrightarrow> last (free_slot (page_slots p) k) \<noteq> None"
      using drop_empty_tail_last unfolding free_slot_def by blast
    have del: "Page_deleteRecord p rid =
       (if num_slots p = Suc k then (OK, compact_slots (punch_hole p k))
        else (OK, set_slot_offset (set_slot_length (punch_hole p k) (- int k) (-1)) (- int k) 0))"
      using slotCnt_punch_hole_eq [OF assms(2), of p] used guard n
      by (auto simp: punch_hole_spec(1) [OF lay k pos])
    show ?thesis
    proof (cases "num_slots p = Suc k")
      case True
      note L = free_last_slot [OF lay True pos]
      show ?thesis
        using L lst acc' used by (simp add: del True page_inv_def)
    next
      case False
      note M = free_middle_slot [OF lay k pos]
      have "page_slots p \<noteq> []" using k by (simp flip: length_0_conv)
      then have eq: "free_slot (page_slots p) k = (page_slots p)[k := None]"
        using last k False by (intro free_slot_not_last) auto
      show ?thesis
        using M lst acc' used False by (simp add: del page_inv_def eq)
    qed
  next
    case False
    then show ?thesis
      using guard assms(2) by (auto simp: Page_deleteRecord_def Let_def)
  qed
qed

text \<open>
  C15: Deleting the record in a used slot of a well-formed page removes exactly that record:
  the bytes behind it are moved down, every other record keeps its slot number and its
  contents, the slot is marked empty or (at the end of the slot array) dropped together with
  the empty slots before it, and the page stays well-formed, so no space is lost. For a slot
  that is empty, out of range or holds an empty record INVALIDSLOTNO is returned and the page
  is untouched.
\<close>
theorem deleteRecord_refines:
  assumes "page_inv p" and "slotNo rid = int k"
  shows "if k < num_slots p \<and> page_slots p ! k \<noteq> None \<and> page_slots p ! k \<noteq> Some []
    then \<exists>q. Page_deleteRecord p rid = (OK, q) \<and> page_inv q \<and>
        page_slots q = free_slot (page_slots p) k \<and>
        nextPage q = nextPage p \<and> curPageNo q = curPageNo p
    else Page_deleteRecord p rid = (INVALIDSLOTNO, p)"
  by (rule deleteRecord_sound [OF assms])

section \<open>Reading records and iterating over them\<close>

lemma getRecord_spec:
  assumes "page_inv p" and "slotNo rid = int k"
  shows "Page_getRecord p rid =
    (if k < num_slots p \<and> page_slots p ! k \<noteq> None \<and> page_slots p ! k \<noteq> Some []
     then (OK, page_slots p ! k) else (INVALIDSLOTNO, None))"
proof (cases "k < num_slots p")
  case True
  have lay: "page_layout p" using assms(1) by (simp add: page_inv_def)
  then have "slot_fits p k" using True by (simp add: page_layout_def)
  then show ?thesis
    using True assms(2) num_slots_int [OF lay]
    by (auto simp: Page_getRecord_def Let_def nth_page_slots page_slot_def slot_fits_def
        simp flip: length_0_conv)
next
  case False
  have lay: "page_layout p" using assms(1) by (simp add: page_inv_def)
  show ?thesis
    using False assms(2) num_slots_int [OF lay] by (simp add: Page_getRecord_def Let_def)
qed

text \<open>The first used slot from \<open>k\<close> on.\<close>

definition next_used :: "byte list option list \<Rightarrow> nat \<Rightarrow> nat option" where
  "next_used ss k = find (\<lambda>j. ss ! j \<noteq> None) [k..<length ss]"

lemma find_used_slot_spec:
  assumes lay: "page_layout p"
  shows "find_used_slot p (- int j) =
    (case next_used (page_slots p) j of Some i \<Rightarrow> - int i
     | None \<Rightarrow> (if j \<le> num_slots p then slotCnt p else - int j))"
proof (induction "num_slots p - j" arbitrary: j)
  case 0
  then show ?case
    using num_slots_int [OF lay] by (auto simp: find_used_slot.simps next_used_def)
next
  case (Suc d)
  then have j: "j < num_slots p" by simp
  have m: "- int j - 1 = - int (Suc j)" by simp
  have nu: "next_used (page_slots p) j =
      (if page_slot p j \<noteq> None then Some j else next_used (page_slots p) (Suc j))"
    using j by (simp add: next_used_def upt_rec [of j] nth_page_slots)
  show ?case
    using j Suc.hyps(1) [of "Suc j"] Suc.hyps(2) num_slots_int [OF lay]
    by (subst find_used_slot.simps) (auto simp: nu m page_slot_None_iff simp del: of_nat_Suc)
qed

lemma next_used_Some:
  assumes "next_used ss k = Some i"
  shows "k \<le> i \<and> i < length ss \<and> ss ! i \<noteq> None \<and> (\<forall>j. k \<le> j \<and> j < i \<longrightarrow> ss ! j = None)"
proof -
  have "\<exists>n < length ss - k. ss ! (k + n) \<noteq> None \<and> i = k + n \<and> (\<forall>m < n. ss ! (k + m) = None)"
    using assms by (auto simp: next_used_def find_Some_iff)
  then obtain n where n: "n < length ss - k" "ss ! (k + n) \<noteq> None" "i = k + n"
    and before: "\<forall>m < n. ss ! (k + m) = None"
    by blast
  have "ss ! j = None" if "k \<le> j" "j < i" for j
    using before [rule_format, of "j - k"] that n(3) by simp
  then show ?thesis using n by auto
qed

lemma next_used_None: "next_used ss k = None \<Longrightarrow> k \<le> j \<Longrightarrow> j < length ss \<Longrightarrow> ss ! j = None"
  by (auto simp: next_used_def find_None_iff)

lemma firstRecord_spec:
  assumes "page_inv p"
  shows "Page_firstRecord p =
    (case next_used (page_slots p) 0 of None \<Rightarrow> (NORECORDS, None)
     | Some i \<Rightarrow> (OK, Some \<lparr>pageNo = curPageNo p, slotNo = int i\<rparr>))"
proof -
  have lay: "page_layout p" using assms by (simp add: page_inv_def)
  show ?thesis
    using find_used_slot_spec [OF lay, of 0] num_slots_int [OF lay]
      next_used_Some [of "page_slots p" 0]
    by (auto simp: Page_firstRecord_def Let_def nth_page_slots page_slot_def split: option.splits)
qed

lemma nextRecord_spec:
  assumes "page_inv p" and "slotNo rid = int k - 1"
  shows "Page_nextRecord p rid =
    (case next_used (page_slots p) k of None \<Rightarrow> (ENDOFPAGE, None)
     | Some i \<Rightarrow> (OK, Some \<lparr>pageNo = curPageNo p, slotNo = int i\<rparr>))"
proof -
  have lay: "page_layout p" using assms by (simp add: page_inv_def)
  have m: "- slotNo rid - 1 = - int k" using assms(2) by simp
  show ?thesis
    using find_used_slot_spec [OF lay, of k] num_slots_int [OF lay]
      next_used_Some [of "page_slots p" k]
    by (auto simp: Page_nextRecord_def Let_def m nth_page_slots page_slot_def split: option.splits)
qed

text \<open>The used slots from \<open>k\<close> on, which is what repeated calls of nextRecord visit.\<close>

definition used_from :: "byte list option list \<Rightarrow> nat \<Rightarrow> nat list" where
  "used_from ss k = filter (\<lambda>j. ss ! j \<noteq> None) [k..<length ss]"

lemma used_from_next:
  "used_from ss k = (case next_used ss k of None \<Rightarrow> [] | Some i \<Rightarrow> i # used_from ss (Suc i))"
proof (induction "length ss - k" arbitrary: k)
  case 0
  then show ?case by (simp add: used_from_def next_used_def)
next
  case (Suc d)
  then have "k < length ss" by simp
  then show ?case
    using Suc.hyps(1) [of "Suc k"] Suc.hyps(2)
    by (simp add: used_from_def next_used_def upt_rec [of k])
qed

text \<open>
  A record that has just been inserted is found under the RID that insertRecord returned,
  with the same bytes, and the records that were on the page before are still found under
  their old RIDs.
\<close>
theorem insert_then_get:
  assumes "page_inv p" and "rec \<noteq> []" and "Page_insertRecord p rec = (OK, q, Some rid)"
  shows "Page_getRecord q rid = (OK, Some rec) \<and>
    (\<forall>k. k < num_slots p \<and> page_slots p ! k \<noteq> None \<longrightarrow>
       Page_getRecord q \<lparr>pageNo = curPageNo p, slotNo = int k\<rparr> =
       Page_getRecord p \<lparr>pageNo = curPageNo p, slotNo = int k\<rparr>)"
proof -
  let ?i = "first_empty (page_slots p)"
  have q: "page_inv q" "page_slots q = put_slot (page_slots p) rec" "slotNo rid = int ?i"
    using insertRecord_sound [OF assms(1), of rec] assms(3) by (auto split: if_splits)
  have i: "?i \<le> num_slots p" using first_empty_le [of "page_slots p"] by simp
  have n: "num_slots q = length (put_slot (page_slots p) rec)"
    using q(2) length_page_slots [of q] by simp
  have new: "put_slot (page_slots p) rec ! ?i = Some rec" "?i < num_slots q"
    using i by (auto simp: n put_slot_def nth_append)
  have old: "put_slot (page_slots p) rec ! k = page_slots p ! k" "k < num_slots q"
    if "k < num_slots p" "page_slots p ! k \<noteq> None" for k
  proof -
    have "k \<noteq> ?i \<or> ?i = num_slots p"
      using that first_empty_None [of "page_slots p"] i by auto
    then show "put_slot (page_slots p) rec ! k = page_slots p ! k"
      using that by (auto simp: put_slot_def nth_append)
    show "k < num_slots q" using that by (auto simp: n put_slot_def)
  qed
  show ?thesis
    using new old assms(2) getRecord_spec [OF q(1,3)]
    by (auto simp: q(2) getRecord_spec [OF q(1)] getRecord_spec [OF assms(1)])
qed

text \<open>
  Neither getRecord nor deleteRecord checks that the slot number is not negative: for the
  RID (-1, -1) both look at the bytes behind the slot array, where slotCnt and freePtr lie,
  and on every page that holds data they take these for a slot, so getRecord returns OK with
  freePtr bytes that start slotCnt bytes before the page.
\<close>
theorem getRecord_accepts_NULLRID:
  assumes "page_inv p" and "page_slots p \<noteq> []" and "freePtr p > 0"
  shows "Page_getRecord p NULLRID = (OK, Some (rd_bytes p (slotCnt p) (nat (freePtr p)))) \<and>
    slotCnt p < 0 \<and> fst (Page_deleteRecord p NULLRID) = OK"
proof -
  have lay: "page_layout p" using assms(1) by (simp add: page_inv_def)
  have n: "num_slots p > 0" using assms(2) by (simp flip: length_greater_0_conv)
  have "slot_offset p 1 = slotCnt p" "slot_length p 1 = freePtr p"
    by (simp_all add: slot_access_defs field_defs)
  moreover have "slotCnt p < 0" using n num_slots_int [OF lay] by simp
  ultimately show ?thesis
    using assms(3) by (auto simp: Page_getRecord_def Page_deleteRecord_def NULLRID_def Let_def)
qed

section \<open>Examples\<close>

definition example_page :: page where
  "example_page = after_insert (Page_init zero_mem 5) 0 [1, 2, 3]"

lemma example_page_facts:
  "page_inv example_page" "page_slots example_page = [Some [1, 2, 3]]"
  "curPageNo example_page = 5" "freeSpace example_page = 997" "freePtr example_page = 3"
proof -
  note I = page_init_inv [of zero_mem 5] and F = page_init_fields [of zero_mem 5]
  have L: "page_layout (Page_init zero_mem 5)" using I by (simp add: page_inv_def)
  have fits: "int (length [1, 2, 3 :: byte]) + 4 \<le> freeSpace (Page_init zero_mem 5)" by (simp add: F)
  have 0: "first_empty (page_slots (Page_init zero_mem 5)) = 0" by (simp add: F first_empty_def)
  have n: "num_slots (Page_init zero_mem 5) = 0" using length_page_slots F(1) by (metis list.size(3))
  show "page_inv example_page"
    using page_inv_after_insert [OF I fits] by (simp add: 0 example_page_def)
  show "page_slots example_page = [Some [1, 2, 3]]"
    using page_slots_after_insert [OF L fits] by (simp add: 0 example_page_def F put_slot_def)
  show "curPageNo example_page = 5" "freeSpace example_page = 997"
    using after_insert_fields(3,5) [OF L fits, of 0] by (simp_all add: example_page_def F n)
  have "freePtr (Page_init zero_mem 5) = 0" using I by (simp add: page_inv_def F slots_bytes_def)
  then show "freePtr example_page = 3"
    using after_insert_fields(2) [OF L fits, of 0] by (simp add: example_page_def)
qed

lemma insertRecord_refines_witness:
  "page_inv example_page \<and> (\<exists>q. Page_insertRecord example_page [9, 8]
     = (OK, q, Some \<lparr>pageNo = 5, slotNo = 1\<rparr>) \<and> page_slots q = [Some [1, 2, 3], Some [9, 8]])"
  using insertRecord_refines [OF example_page_facts(1), of "[9, 8]"]
  by (auto simp: example_page_facts first_empty_def put_slot_def)

lemma deleteRecord_refines_witness:
  "page_inv example_page \<and> (\<exists>q. Page_deleteRecord example_page \<lparr>pageNo = 5, slotNo = 0\<rparr> = (OK, q) \<and>
     page_inv q \<and> page_slots q = [])"
proof -
  have n: "num_slots example_page = 1"
    using length_page_slots [of example_page] by (simp add: example_page_facts)
  show ?thesis
    using deleteRecord_refines [OF example_page_facts(1), of "\<lparr>pageNo = 5, slotNo = 0\<rparr>" 0]
    by (auto simp: example_page_facts n free_slot_def drop_empty_tail_def)
qed

lemma insert_then_get_witness:
  "\<exists>q. Page_insertRecord example_page [9, 8] = (OK, q, Some \<lparr>pageNo = 5, slotNo = 1\<rparr>) \<and>
     Page_getRecord q \<lparr>pageNo = 5, slotNo = 1\<rparr> = (OK, Some [9, 8])"
proof -
  obtain q where "Page_insertRecord example_page [9, 8] = (OK, q, Some \<lparr>pageNo = 5, slotNo = 1\<rparr>)"
    using insertRecord_sound [OF example_page_facts(1), of "[9, 8]"]
    by (auto simp: example_page_facts first_empty_def)
  then show ?thesis
    using insert_then_get [OF example_page_facts(1), of "[9, 8]"] by blast
qed

lemma getRecord_accepts_NULLRID_witness:
  "\<exists>bs. Page_getRecord example_page NULLRID = (OK, Some bs) \<and> length bs = 3"
  using getRecord_accepts_NULLRID [OF example_page_facts(1)]
  by (simp add: example_page_facts)

end
