(* ===== verification/FileIO.thy ===== *)
theory FileIO
  imports Page
begin

text \<open>
  Unix files and the File class of db.C. A database file is a sequence of 1024-byte pages:
  File reads and writes whole pages at multiples of the page size, so a read past the end
  comes back short (UNIXERR) and a write past the end extends the file. The state holds the
  files of the directory by name, the open file descriptors and the heap of File objects.
  Calling a method on a pointer that is no File object is undefined: None. The operating
  system is taken to have room on the disk and to deny no access.
\<close>

section \<open>The state\<close>

record file_obj =
  fileName :: string
  openCnt :: int
  unixFile :: int

record io =
  disk :: "string \<Rightarrow> page list option"
  fds :: "int \<Rightarrow> string option"
  next_fd :: int
  files :: "fptr \<Rightarrow> file_obj option"
  next_ptr :: fptr

text \<open>The struct DBPage, laid over page 0 (and over the pages of the free list).\<close>

definition db_nextFree :: "page \<Rightarrow> int" where "db_nextFree p = rd_int p 0"
definition db_firstPage :: "page \<Rightarrow> int" where "db_firstPage p = rd_int p 4"
definition db_numPages :: "page \<Rightarrow> int" where "db_numPages p = rd_int p 8"

definition set_db_nextFree :: "page \<Rightarrow> int \<Rightarrow> page" where "set_db_nextFree p v = wr_int p 0 v"
definition set_db_firstPage :: "page \<Rightarrow> int \<Rightarrow> page" where "set_db_firstPage p v = wr_int p 4 v"
definition set_db_numPages :: "page \<Rightarrow> int \<Rightarrow> page" where "set_db_numPages p v = wr_int p 8 v"

lemmas db_defs = db_nextFree_def db_firstPage_def db_numPages_def
  set_db_nextFree_def set_db_firstPage_def set_db_numPages_def

lemma db_fields [mem_simps]:
  "db_nextFree (set_db_nextFree p v) = wrap32 v" "db_nextFree (set_db_firstPage p v) = db_nextFree p"
  "db_nextFree (set_db_numPages p v) = db_nextFree p"
  "db_firstPage (set_db_firstPage p v) = wrap32 v" "db_firstPage (set_db_nextFree p v) = db_firstPage p"
  "db_firstPage (set_db_numPages p v) = db_firstPage p"
  "db_numPages (set_db_numPages p v) = wrap32 v" "db_numPages (set_db_nextFree p v) = db_numPages p"
  "db_numPages (set_db_firstPage p v) = db_numPages p"
  by (simp_all add: db_defs mem_simps)

section \<open>Page input and output\<close>

definition pages_write :: "page list \<Rightarrow> nat \<Rightarrow> page \<Rightarrow> page list" where
  "pages_write ps n p =
     (if n < length ps then ps[n := p] else ps @ replicate (n - length ps) zero_mem @ [p])"

text \<open>The pages of the file behind a File object: None when the descriptor is not open.\<close>

definition fd_pages :: "'z io_scheme \<Rightarrow> int \<Rightarrow> page list option" where
  "fd_pages s fd = (case fds s fd of None \<Rightarrow> None | Some name \<Rightarrow> disk s name)"

definition File_intread :: "'z io_scheme \<Rightarrow> fptr \<Rightarrow> int \<Rightarrow> (Status \<times> page option) option" where
  "File_intread s f no = do {
     fo \<leftarrow> files s f;
     Some (case fd_pages s (unixFile fo) of
        None \<Rightarrow> (UNIXERR, None)
      | Some ps \<Rightarrow> if 0 \<le> no \<and> no < int (length ps) then (OK, Some (ps ! nat no)) else (UNIXERR, None))
   }"

definition File_intwrite :: "'z io_scheme \<Rightarrow> fptr \<Rightarrow> int \<Rightarrow> page \<Rightarrow> (Status \<times> 'z io_scheme) option" where
  "File_intwrite s f no p = do {
     fo \<leftarrow> files s f;
     Some (case fds s (unixFile fo) of
        None \<Rightarrow> (UNIXERR, s)
      | Some name \<Rightarrow> (case disk s name of
            None \<Rightarrow> (UNIXERR, s)
          | Some ps \<Rightarrow> if no < 0 then (UNIXERR, s)
              else (OK, s\<lparr>disk := (disk s)(name \<mapsto> pages_write ps (nat no) p)\<rparr>)))
   }"

definition File_readPage :: "'z io_scheme \<Rightarrow> fptr \<Rightarrow> int \<Rightarrow> (Status \<times> page option) option" where
  "File_readPage s f no = (if no < 1 then Some (BADPAGENO, None) else File_intread s f no)"

definition File_writePage :: "'z io_scheme \<Rightarrow> fptr \<Rightarrow> int \<Rightarrow> page \<Rightarrow> (Status \<times> 'z io_scheme) option" where
  "File_writePage s f no p = (if no < 1 then Some (BADPAGENO, s) else File_intwrite s f no p)"

text \<open>The page number is set only when the header page could be read.\<close>

definition File_getFirstPage :: "'z io_scheme \<Rightarrow> fptr \<Rightarrow> (Status \<times> int option) option" where
  "File_getFirstPage s f = do {
     (st, header) \<leftarrow> File_intread s f 0;
     Some (case header of None \<Rightarrow> (st, None) | Some h \<Rightarrow> (st, Some (db_firstPage h)))
   }"

section \<open>Allocation of pages\<close>

definition File_allocatePage :: "'z io_scheme \<Rightarrow> fptr \<Rightarrow> (Status \<times> int option \<times> 'z io_scheme) option" where
  "File_allocatePage s f = do {
     (st, hdr) \<leftarrow> File_intread s f 0;
     case hdr of None \<Rightarrow> Some (st, None, s)
     | Some header \<Rightarrow>
       if db_nextFree header \<noteq> -1 then do {
         let no = db_nextFree header;
         (st, ff) \<leftarrow> File_intread s f no;
         (case ff of None \<Rightarrow> Some (st, Some no, s)
          | Some firstFree \<Rightarrow> do {
              let header = set_db_nextFree header (db_nextFree firstFree);
              (st, s) \<leftarrow> File_intwrite s f 0 header;
              Some (st, Some no, s) })
       }
       else do {
         let no = db_numPages header;
         (st, s) \<leftarrow> File_intwrite s f no zero_mem;
         if st \<noteq> OK then Some (st, Some no, s)
         else do {
           let header = set_db_numPages header (db_numPages header + 1);
           let header = (if db_firstPage header = -1 then set_db_firstPage header no else header);
           (st, s) \<leftarrow> File_intwrite s f 0 header;
           Some (st, Some no, s) }
       }
   }"

definition File_disposePage :: "'z io_scheme \<Rightarrow> fptr \<Rightarrow> int \<Rightarrow> (Status \<times> 'z io_scheme) option" where
  "File_disposePage s f no =
     (if no < 1 then Some (BADPAGENO, s)
      else do {
        (st, hdr) \<leftarrow> File_intread s f 0;
        case hdr of None \<Rightarrow> Some (st, s)
        | Some header \<Rightarrow>
          if db_firstPage header = no \<or> no \<ge> db_numPages header then Some (BADPAGENO, s)
          else do {
            (st, aw) \<leftarrow> File_intread s f no;
            case aw of None \<Rightarrow> Some (st, s)
            | Some _ \<Rightarrow> do {
                let away = set_db_nextFree zero_mem (db_nextFree header);
                let header = set_db_nextFree header no;
                (st, s) \<leftarrow> File_intwrite s f no away;
                if st \<noteq> OK then Some (st, s) else File_intwrite s f 0 header }
          }
      })"

section \<open>Creation, destruction, opening\<close>

text \<open>
  Unix gets the name of a file as a C string, which ends before the first NUL of the C++ string.
  No file has the empty name. A File object keeps the whole string; two names are the same file
  exactly when they are cut to the same string. The pages of a file that is removed under another
  spelling while it is open are gone at once, where Unix keeps them up to the last close; DB
  refuses to remove a file that is open under the same name.
\<close>

definition c_str :: "string \<Rightarrow> string" where
  "c_str name = takeWhile (\<lambda>c. c \<noteq> CHR 0x00) name"

lemma c_str_id: "CHR 0x00 \<notin> set name \<Longrightarrow> c_str name = name"
  unfolding c_str_def by (rule takeWhile_eq_all_conv [THEN iffD2]) auto

lemma c_str_simps [simp]: "c_str [] = []" "c_str (c # cs) = (if c = CHR 0x00 then [] else c # c_str cs)"
  by (simp_all add: c_str_def)

lemma c_str_c_str [simp]: "c_str (c_str name) = c_str name"
  by (rule c_str_id) (auto simp: c_str_def dest: set_takeWhileD)

lemma c_str_NUL: "CHR 0x00 \<in> set name \<Longrightarrow> c_str name \<noteq> name"
proof
  assume "CHR 0x00 \<in> set name" "c_str name = name"
  then have "CHR 0x00 \<in> set (c_str name)" by (simp only:)
  then show False unfolding c_str_def by (auto dest: set_takeWhileD)
qed

lemma c_str_append: "CHR 0x00 \<notin> set a \<Longrightarrow> c_str (a @ b) = a @ c_str b"
  unfolding c_str_def by (rule takeWhile_append2) auto

text \<open>The descriptor that create opens is closed again at once.\<close>

definition File_create :: "'z io_scheme \<Rightarrow> string \<Rightarrow> Status \<times> 'z io_scheme" where
  "File_create s name =
     (let path = c_str name
      in if path = [] then (UNIXERR, s)
      else if disk s path \<noteq> None then (FILEEXISTS, s)
      else
        let header = set_db_nextFree zero_mem (-1);
            header = set_db_firstPage header (-1);
            header = set_db_numPages header 1
        in (OK, s\<lparr>disk := (disk s)(path \<mapsto> [header])\<rparr>))"

definition File_destroy :: "'z io_scheme \<Rightarrow> string \<Rightarrow> Status \<times> 'z io_scheme" where
  "File_destroy s name =
     (let path = c_str name
      in if disk s path = None then (UNIXERR, s) else (OK, s\<lparr>disk := (disk s)(path := None)\<rparr>))"

text \<open>The constructor: a fresh File object.\<close>

definition File_new :: "'z io_scheme \<Rightarrow> string \<Rightarrow> fptr \<times> 'z io_scheme" where
  "File_new s name =
     (next_ptr s, s\<lparr>files := (files s)(next_ptr s \<mapsto> \<lparr>fileName = name, openCnt = 0, unixFile = -1\<rparr>),
                    next_ptr := next_ptr s + 1\<rparr>)"

definition File_open :: "'z io_scheme \<Rightarrow> fptr \<Rightarrow> (Status \<times> 'z io_scheme) option" where
  "File_open s f = do {
     fo \<leftarrow> files s f;
     Some (if openCnt fo = 0 then
             (if disk s (c_str (fileName fo)) = None
              then (UNIXERR, s\<lparr>files := (files s)(f \<mapsto> fo\<lparr>unixFile := -1\<rparr>)\<rparr>)
              else (OK, s\<lparr>files := (files s)(f \<mapsto> fo\<lparr>unixFile := next_fd s, openCnt := 1\<rparr>),
                          fds := (fds s)(next_fd s \<mapsto> c_str (fileName fo)),
                          next_fd := next_fd s + 1\<rparr>))
           else (OK, s\<lparr>files := (files s)(f \<mapsto> fo\<lparr>openCnt := openCnt fo + 1\<rparr>)\<rparr>))
   }"

section \<open>What a read and a write do to an open file\<close>

definition file_name :: "'z io_scheme \<Rightarrow> fptr \<Rightarrow> string option" where
  "file_name s f = do { fo \<leftarrow> files s f; fds s (unixFile fo) }"

definition file_pages :: "'z io_scheme \<Rightarrow> fptr \<Rightarrow> page list option" where
  "file_pages s f = do { name \<leftarrow> file_name s f; disk s name }"

lemma file_pages_SomeD:
  "file_pages s f = Some ps \<Longrightarrow> \<exists>name fo. file_name s f = Some name \<and> disk s name = Some ps \<and>
     files s f = Some fo \<and> fds s (unixFile fo) = Some name \<and> fd_pages s (unixFile fo) = Some ps"
  by (auto simp: file_pages_def file_name_def fd_pages_def bind_eq_Some_conv)

lemma intread_spec:
  "file_pages s f = Some ps \<Longrightarrow> File_intread s f no =
     Some (if 0 \<le> no \<and> no < int (length ps) then (OK, Some (ps ! nat no)) else (UNIXERR, None))"
  by (drule file_pages_SomeD) (auto simp: File_intread_def)

lemma intwrite_spec:
  "file_name s f = Some name \<Longrightarrow> disk s name = Some ps \<Longrightarrow> File_intwrite s f no p =
     Some (if no < 0 then (UNIXERR, s)
           else (OK, s\<lparr>disk := (disk s)(name \<mapsto> pages_write ps (nat no) p)\<rparr>))"
  by (auto simp: file_name_def File_intwrite_def bind_eq_Some_conv)

lemma file_name_disk_update [simp]: "file_name (s\<lparr>disk := d\<rparr>) f = file_name s f"
  by (simp add: file_name_def)

lemma file_pages_disk_update:
  "file_name s f = Some name \<Longrightarrow> file_pages (s\<lparr>disk := (disk s)(name \<mapsto> ps)\<rparr>) f = Some ps"
  by (simp add: file_pages_def)

lemma file_pages_disk_other:
  "file_name s f \<noteq> Some name \<Longrightarrow> file_pages (s\<lparr>disk := (disk s)(name \<mapsto> ps)\<rparr>) f = file_pages s f"
  by (cases "file_name s f") (simp_all add: file_pages_def)

lemma length_pages_write: "length (pages_write ps n p) = max (length ps) (Suc n)"
  by (simp add: pages_write_def)

lemma nth_pages_write:
  "i < max (length ps) (Suc n) \<Longrightarrow> pages_write ps n p ! i =
     (if i = n then p else if i < length ps then ps ! i else zero_mem)"
  by (auto simp: pages_write_def nth_append nth_list_update)

section \<open>The free list\<close>

text \<open>The pages reached from \<open>no\<close> through the nextFree fields, up to the terminating -1.\<close>

fun free_chain :: "page list \<Rightarrow> int \<Rightarrow> int list \<Rightarrow> bool" where
  "free_chain ps no [] \<longleftrightarrow> no = -1"
| "free_chain ps no (x # xs) \<longleftrightarrow>
     no = x \<and> 1 \<le> x \<and> x < int (length ps) \<and> free_chain ps (db_nextFree (ps ! nat x)) xs"

definition db_file :: "page list \<Rightarrow> int list \<Rightarrow> bool" where
  "db_file ps fl \<longleftrightarrow> ps \<noteq> [] \<and> db_numPages (ps ! 0) = int (length ps) \<and>
     free_chain ps (db_nextFree (ps ! 0)) fl \<and> distinct fl \<and>
     (if length ps = 1 then db_firstPage (ps ! 0) = -1
      else 1 \<le> db_firstPage (ps ! 0) \<and> db_firstPage (ps ! 0) < int (length ps) \<and>
           db_firstPage (ps ! 0) \<notin> set fl)"

definition used_pages :: "page list \<Rightarrow> int list \<Rightarrow> int set" where
  "used_pages ps fl = {q. 1 \<le> q \<and> q < int (length ps)} - set fl"

lemma free_chain_range: "free_chain ps no xs \<Longrightarrow> x \<in> set xs \<Longrightarrow> 1 \<le> x \<and> x < int (length ps)"
  by (induction xs arbitrary: no) auto

lemma free_chain_cong:
  assumes "free_chain ps no xs" "length ps \<le> length ps'"
    "\<And>x. x \<in> set xs \<Longrightarrow> ps' ! nat x = ps ! nat x"
  shows "free_chain ps' no xs"
  using assms by (induction xs arbitrary: no) auto

lemma free_chain_head: "free_chain ps no xs \<Longrightarrow> no = (case xs of [] \<Rightarrow> -1 | x # _ \<Rightarrow> x)"
  by (cases xs) auto

lemma db_file_create:
  "db_file [set_db_numPages (set_db_firstPage (set_db_nextFree zero_mem (- 1)) (- 1)) 1] []"
  by (simp add: db_file_def mem_simps)

text \<open>allocatePage on a well-formed file, from the free list and by extending the file.\<close>

lemma allocatePage_spec:
  assumes fn: "file_name s f = Some name" and d: "disk s name = Some ps"
    and db: "db_file ps fl" and room: "length ps < 2147483647"
  shows "\<exists>no ps' fl'. File_allocatePage s f = Some (OK, Some no, s\<lparr>disk := (disk s)(name \<mapsto> ps')\<rparr>) \<and>
    db_file ps' fl' \<and> no \<notin> used_pages ps fl \<and> used_pages ps' fl' = insert no (used_pages ps fl) \<and>
    (\<forall>q. 1 \<le> q \<and> q < int (length ps) \<longrightarrow> ps' ! nat q = ps ! nat q) \<and> length ps \<le> length ps' \<and>
    1 \<le> no \<and> no < int (length ps') \<and> length ps' \<le> Suc (length ps) \<and>
    db_firstPage (ps' ! 0) = (if length ps = 1 then no else db_firstPage (ps ! 0)) \<and>
    (no \<in> set fl \<and> length ps' = length ps \<or> no = int (length ps) \<and> ps' ! nat no = zero_mem)"
proof -
  have fp: "file_pages s f = Some ps" using fn d by (simp add: file_pages_def)
  have ne: "ps \<noteq> []" and np: "db_numPages (ps ! 0) = int (length ps)"
    and ch: "free_chain ps (db_nextFree (ps ! 0)) fl" and dist: "distinct fl"
    using db by (auto simp: db_file_def)
  show ?thesis
  proof (cases fl)
    case (Cons x xs)
    then have x: "db_nextFree (ps ! 0) = x" "1 \<le> x" "x < int (length ps)"
      and chx: "free_chain ps (db_nextFree (ps ! nat x)) xs"
      using ch by auto
    let ?h = "set_db_nextFree (ps ! 0) (db_nextFree (ps ! nat x))"
    let ?ps = "ps[0 := ?h]"
    have w: "wrap32 (db_nextFree (ps ! nat x)) = db_nextFree (ps ! nat x)"
      by (simp add: db_nextFree_def rd_int_def wrap32_bounds)
    have run: "File_allocatePage s f = Some (OK, Some x, s\<lparr>disk := (disk s)(name \<mapsto> ?ps)\<rparr>)"
      using ne x by (simp add: File_allocatePage_def intread_spec [OF fp] intwrite_spec [OF fn d]
          pages_write_def Let_def)
    have "free_chain ?ps (db_nextFree (ps ! nat x)) xs"
      using chx
    proof (rule free_chain_cong)
      fix y assume "y \<in> set xs"
      then have "1 \<le> y" using free_chain_range [OF chx] by blast
      then show "?ps ! nat y = ps ! nat y" by (simp add: nth_list_update)
    qed simp
    then have "db_file ?ps xs"
      using db Cons w ne by (auto simp: db_file_def mem_simps split: if_splits)
    moreover have "used_pages ?ps xs = insert x (used_pages ps fl)"
      using x dist Cons by (auto simp: used_pages_def)
    moreover have "x \<notin> used_pages ps fl" using Cons by (simp add: used_pages_def)
    moreover have "length ps \<noteq> 1" using x by auto
    ultimately show ?thesis
      using run x ne Cons by (intro exI [of _ x] exI [of _ ?ps] exI [of _ xs]) (auto simp: mem_simps)
  next
    case Nil
    then have nf: "db_nextFree (ps ! 0) = -1" using ch by simp
    let ?n = "int (length ps)"
    let ?h = "set_db_numPages (ps ! 0) (?n + 1)"
    let ?h' = "if db_firstPage ?h = -1 then set_db_firstPage ?h ?n else ?h"
    let ?ps = "(ps @ [zero_mem])[0 := ?h']"
    have run: "File_allocatePage s f = Some (OK, Some ?n, s\<lparr>disk := (disk s)(name \<mapsto> ?ps)\<rparr>)"
      using ne nf np
      by (simp add: File_allocatePage_def intread_spec [OF fp] intwrite_spec [OF fn d]
          intwrite_spec [of "s\<lparr>disk := (disk s)(name \<mapsto> ps @ [zero_mem])\<rparr>" f name "ps @ [zero_mem]"]
          fn pages_write_def Let_def)
    have "db_file ?ps []"
      using db Nil ne room by (auto simp: db_file_def mem_simps nth_append nf split: if_splits)
    moreover have "used_pages ?ps [] = insert ?n (used_pages ps fl)"
      using Nil ne by (cases ps) (auto simp: used_pages_def)
    moreover have "?n \<notin> used_pages ps fl" by (simp add: used_pages_def)
    moreover have "db_firstPage (?ps ! 0) = (if length ps = 1 then ?n else db_firstPage (ps ! 0))"
      using db ne room by (auto simp: db_file_def mem_simps split: if_splits)
    ultimately show ?thesis
      using run ne by (intro exI [of _ ?n] exI [of _ ?ps] exI [of _ "[]"])
        (auto simp: nth_append nth_list_update Suc_le_eq)
  qed
qed

lemma disposePage_spec:
  assumes fn: "file_name s f = Some name" and d: "disk s name = Some ps"
    and db: "db_file ps fl" and used: "no \<in> used_pages ps fl" and nf: "no \<noteq> db_firstPage (ps ! 0)"
    and room: "length ps < 2147483648"
  shows "\<exists>ps'. File_disposePage s f no = Some (OK, s\<lparr>disk := (disk s)(name \<mapsto> ps')\<rparr>) \<and>
    db_file ps' (no # fl) \<and> length ps' = length ps \<and>
    db_firstPage (ps' ! 0) = db_firstPage (ps ! 0) \<and>
    (\<forall>q. 1 \<le> q \<and> q < int (length ps) \<and> q \<noteq> no \<longrightarrow> ps' ! nat q = ps ! nat q)"
proof -
  have fp: "file_pages s f = Some ps" using fn d by (simp add: file_pages_def)
  have no: "1 \<le> no" "no < int (length ps)" "no \<notin> set fl" using used by (auto simp: used_pages_def)
  have ne: "ps \<noteq> []" and np: "db_numPages (ps ! 0) = int (length ps)"
    and ch: "free_chain ps (db_nextFree (ps ! 0)) fl"
    using db by (auto simp: db_file_def)
  let ?a = "set_db_nextFree zero_mem (db_nextFree (ps ! 0))"
  let ?h = "set_db_nextFree (ps ! 0) no"
  let ?ps = "ps[nat no := ?a, 0 := ?h]"
  have w: "wrap32 (db_nextFree (ps ! 0)) = db_nextFree (ps ! 0)"
    by (simp add: db_nextFree_def rd_int_def wrap32_bounds)
  have len: "nat no < length ps" using no by linarith
  have run: "File_disposePage s f no = Some (OK, s\<lparr>disk := (disk s)(name \<mapsto> ?ps)\<rparr>)"
    using ne no np nf len
    by (simp add: File_disposePage_def intread_spec [OF fp] intwrite_spec [OF fn d]
        intwrite_spec [of "s\<lparr>disk := (disk s)(name \<mapsto> ps[nat no := ?a])\<rparr>" f name "ps[nat no := ?a]"]
        fn pages_write_def Let_def)
  have "free_chain ?ps (db_nextFree (ps ! 0)) fl"
    using ch
  proof (rule free_chain_cong)
    fix x assume "x \<in> set fl"
    then have "1 \<le> x" "x \<noteq> no" using free_chain_range [OF ch] no by auto
    then show "?ps ! nat x = ps ! nat x" using no by (auto simp: nth_list_update)
  qed simp
  then have "db_file ?ps (no # fl)"
    using db no ne nf room w by (auto simp: db_file_def mem_simps nth_list_update split: if_splits)
  then show ?thesis
    using run ne no by (intro exI [of _ ?ps]) (auto simp: mem_simps nth_list_update)
qed


section \<open>The pages of an open file, one at a time\<close>

text \<open>
  File objects and descriptors are fresh ones, and no two File objects have the same file
  open; a null pointer is no File object.
\<close>

definition io_inv :: "'z io_scheme \<Rightarrow> bool" where
  "io_inv s \<longleftrightarrow> (\<forall>f. files s f \<noteq> None \<longrightarrow> 0 < f \<and> f < next_ptr s) \<and> 0 < next_ptr s \<and>
     (\<forall>fd. fds s fd \<noteq> None \<longrightarrow> 0 \<le> fd \<and> fd < next_fd s) \<and> 0 \<le> next_fd s \<and>
     (\<forall>f g name. file_name s f = Some name \<and> file_name s g = Some name \<longrightarrow> f = g)"

definition disk_page :: "'z io_scheme \<Rightarrow> fptr \<Rightarrow> int \<Rightarrow> page option" where
  "disk_page s f no = (case file_pages s f of None \<Rightarrow> None
     | Some ps \<Rightarrow> if 1 \<le> no \<and> no < int (length ps) then Some (ps ! nat no) else None)"

lemma disk_page_Some:
  "disk_page s f no = Some pg \<longleftrightarrow>
     (\<exists>ps. file_pages s f = Some ps \<and> 1 \<le> no \<and> no < int (length ps) \<and> pg = ps ! nat no)"
  by (auto simp: disk_page_def split: option.splits if_splits)

lemma readPage_disk:
  "file_pages s f \<noteq> None \<Longrightarrow> File_readPage s f no =
     Some (case disk_page s f no of Some pg \<Rightarrow> (OK, Some pg)
           | None \<Rightarrow> (if no < 1 then BADPAGENO else UNIXERR, None))"
  by (auto simp: File_readPage_def intread_spec disk_page_def)

lemma io_inv_disk [simp]: "io_inv (s\<lparr>disk := d\<rparr>) = io_inv s"
  by (simp add: io_inv_def)

lemma writePage_disk:
  assumes inv: "io_inv s" and pg: "disk_page s f no \<noteq> None"
  obtains d where "File_writePage s f no p = Some (OK, s\<lparr>disk := d\<rparr>)"
    "\<And>g. file_pages (s\<lparr>disk := d\<rparr>) g =
       (if g = f then map_option (\<lambda>ps. ps[nat no := p]) (file_pages s g) else file_pages s g)"
    "\<And>g q. disk_page (s\<lparr>disk := d\<rparr>) g q = (if g = f \<and> q = no then Some p else disk_page s g q)"
proof -
  obtain ps where ps: "file_pages s f = Some ps" "1 \<le> no" "no < int (length ps)"
    using pg by (auto simp: disk_page_Some)
  then obtain name where name: "file_name s f = Some name" "disk s name = Some ps"
    using file_pages_SomeD by blast
  let ?d = "(disk s)(name \<mapsto> ps[nat no := p])"
  have lt: "nat no < length ps" using ps by linarith
  have run: "File_writePage s f no p = Some (OK, s\<lparr>disk := ?d\<rparr>)"
    using ps lt by (simp add: File_writePage_def intwrite_spec [OF name] pages_write_def)
  have fp: "file_pages (s\<lparr>disk := ?d\<rparr>) g =
      (if g = f then map_option (\<lambda>ps. ps[nat no := p]) (file_pages s g) else file_pages s g)" for g
  proof (cases "g = f")
    case True
    then show ?thesis using ps name by (simp add: file_pages_disk_update)
  next
    case False
    then have "file_name s g \<noteq> Some name" using inv name by (auto simp: io_inv_def)
    then show ?thesis using False by (simp add: file_pages_disk_other)
  qed
  have "disk_page (s\<lparr>disk := ?d\<rparr>) g q = (if g = f \<and> q = no then Some p else disk_page s g q)" for g q
    unfolding disk_page_def fp using ps lt by (auto simp: nth_list_update eq_nat_nat_iff)
  then show thesis using that [OF run fp] by blast
qed

text \<open>A page in use can be overwritten without harm to the free list.\<close>

lemma db_file_update:
  assumes db: "db_file ps fl" and no: "no \<in> used_pages ps fl"
  shows "db_file (ps[nat no := p]) fl \<and> used_pages (ps[nat no := p]) fl = used_pages ps fl"
proof -
  have pos: "1 \<le> no" "no \<notin> set fl" using no by (auto simp: used_pages_def)
  have ch: "free_chain ps (db_nextFree (ps ! 0)) fl" using db by (simp add: db_file_def)
  have "free_chain (ps[nat no := p]) (db_nextFree (ps ! 0)) fl"
    using ch
  proof (rule free_chain_cong)
    fix x assume "x \<in> set fl"
    then have "1 \<le> x" "x \<noteq> no" using free_chain_range [OF ch] pos by auto
    then show "ps[nat no := p] ! nat x = ps ! nat x" using pos by (auto simp: nth_list_update)
  qed simp
  then show ?thesis using db pos by (simp add: db_file_def used_pages_def)
qed


section \<open>Properties of page allocation\<close>

lemma disposePage_run:
  assumes fn: "file_name s f = Some name" and d: "disk s name = Some ps"
    and no: "1 \<le> no" "no < int (length ps)" "no \<noteq> db_firstPage (ps ! 0)"
    and np: "db_numPages (ps ! 0) = int (length ps)"
  shows "File_disposePage s f no = Some (OK, s\<lparr>disk := (disk s)(name \<mapsto>
     ps[nat no := set_db_nextFree zero_mem (db_nextFree (ps ! 0)), 0 := set_db_nextFree (ps ! 0) no])\<rparr>)"
proof -
  have fp: "file_pages s f = Some ps" using fn d by (simp add: file_pages_def)
  have "nat no < length ps" "ps \<noteq> []" using no by auto
  then show ?thesis
    using no np
    by (simp add: File_disposePage_def intread_spec [OF fp] intwrite_spec [OF fn d]
        intwrite_spec [of "s\<lparr>disk := (disk s)(name \<mapsto> qs)\<rparr>" f name qs for qs] fn pages_write_def Let_def)
qed

lemma allocatePage_run:
  assumes fn: "file_name s f = Some name" and d: "disk s name = Some ps"
    and x: "db_nextFree (ps ! 0) = x" "1 \<le> x" "x < int (length ps)"
  shows "File_allocatePage s f = Some (OK, Some x, s\<lparr>disk := (disk s)(name \<mapsto>
     ps[0 := set_db_nextFree (ps ! 0) (db_nextFree (ps ! nat x))])\<rparr>)"
proof -
  have fp: "file_pages s f = Some ps" using fn d by (simp add: file_pages_def)
  have "ps \<noteq> []" using x by auto
  then show ?thesis
    using x by (simp add: File_allocatePage_def intread_spec [OF fp] intwrite_spec [OF fn d] pages_write_def Let_def)
qed

text \<open>
  On a well-formed database file allocatePage succeeds and returns a page that was not in
  use, which is the only page that comes into use; no other page changes, the file stays
  well-formed, and it grows only when the free list is empty.
\<close>
theorem allocatePage_fresh:
  assumes "file_name s f = Some name" "disk s name = Some ps" "db_file ps fl" "length ps < 2147483647"
  shows "\<exists>no ps' fl'. File_allocatePage s f = Some (OK, Some no, s\<lparr>disk := (disk s)(name \<mapsto> ps')\<rparr>) \<and>
    db_file ps' fl' \<and> 1 \<le> no \<and> no < int (length ps') \<and> no \<notin> used_pages ps fl \<and>
    used_pages ps' fl' = insert no (used_pages ps fl) \<and>
    (\<forall>q. 1 \<le> q \<and> q < int (length ps) \<longrightarrow> ps' ! nat q = ps ! nat q) \<and>
    (no \<in> set fl \<and> length ps' = length ps \<or> fl = [] \<and> no = int (length ps) \<and> ps' ! nat no = zero_mem)"
proof -
  from allocatePage_spec [OF assms] obtain no ps' fl' where
    A: "File_allocatePage s f = Some (OK, Some no, s\<lparr>disk := (disk s)(name \<mapsto> ps')\<rparr>)"
    "db_file ps' fl'" "no \<notin> used_pages ps fl" "used_pages ps' fl' = insert no (used_pages ps fl)"
    "\<forall>q. 1 \<le> q \<and> q < int (length ps) \<longrightarrow> ps' ! nat q = ps ! nat q"
    "1 \<le> no" "no < int (length ps')"
    "no \<in> set fl \<and> length ps' = length ps \<or> no = int (length ps) \<and> ps' ! nat no = zero_mem"
    by blast
  have "fl = []" if "no = int (length ps)"
  proof (cases fl)
    case (Cons x xs)
    then have "db_nextFree (ps ! 0) = x" "1 \<le> x" "x < int (length ps)" using assms(3) by (auto simp: db_file_def)
    then have "no = x" using A(1) allocatePage_run [OF assms(1,2)] by simp
    then show ?thesis using that \<open>x < int (length ps)\<close> by simp
  qed simp
  then show ?thesis using A by (intro exI [of _ no] exI [of _ ps'] exI [of _ fl']) blast
qed

text \<open>
  A disposed page goes on the free list and the next allocatePage returns it, so that the
  free list is a stack; all other pages keep their contents.
\<close>
theorem disposePage_then_allocatePage:
  assumes "file_name s f = Some name" "disk s name = Some ps" "db_file ps fl"
    "no \<in> used_pages ps fl" "no \<noteq> db_firstPage (ps ! 0)" "length ps < 2147483647"
  shows "\<exists>ps' ps''. File_disposePage s f no = Some (OK, s\<lparr>disk := (disk s)(name \<mapsto> ps')\<rparr>) \<and>
    db_file ps' (no # fl) \<and>
    File_allocatePage (s\<lparr>disk := (disk s)(name \<mapsto> ps')\<rparr>) f = Some (OK, Some no, s\<lparr>disk := (disk s)(name \<mapsto> ps'')\<rparr>) \<and>
    db_file ps'' fl \<and> (\<forall>q. 1 \<le> q \<and> q < int (length ps) \<and> q \<noteq> no \<longrightarrow> ps'' ! nat q = ps ! nat q)"
proof -
  obtain ps' where D: "File_disposePage s f no = Some (OK, s\<lparr>disk := (disk s)(name \<mapsto> ps')\<rparr>)"
    "db_file ps' (no # fl)" "length ps' = length ps"
    "\<forall>q. 1 \<le> q \<and> q < int (length ps) \<and> q \<noteq> no \<longrightarrow> ps' ! nat q = ps ! nat q"
    using disposePage_spec [OF assms(1-5)] assms(6) by auto
  let ?s = "s\<lparr>disk := (disk s)(name \<mapsto> ps')\<rparr>"
  have x: "db_nextFree (ps' ! 0) = no" "1 \<le> no" "no < int (length ps')"
    "free_chain ps' (db_nextFree (ps' ! nat no)) fl"
    using D(2) by (simp_all add: db_file_def)
  let ?h = "set_db_nextFree (ps' ! 0) (db_nextFree (ps' ! nat no))"
  have w: "wrap32 (db_nextFree (ps' ! nat no)) = db_nextFree (ps' ! nat no)"
    by (simp add: db_nextFree_def rd_int_def wrap32_bounds)
  have A: "File_allocatePage ?s f = Some (OK, Some no, s\<lparr>disk := (disk s)(name \<mapsto> ps'[0 := ?h])\<rparr>)"
    using allocatePage_run [of ?s f name ps' no] assms(1) x by simp
  have "free_chain (ps'[0 := ?h]) (db_nextFree (ps' ! nat no)) fl"
    using x(4)
  proof (rule free_chain_cong)
    fix y assume "y \<in> set fl"
    then have "1 \<le> y" using free_chain_range [OF x(4)] by blast
    then show "ps'[0 := ?h] ! nat y = ps' ! nat y" by (simp add: nth_list_update)
  qed simp
  then have "db_file (ps'[0 := ?h]) fl"
    using D(2) w by (auto simp: db_file_def mem_simps split: if_splits)
  moreover have "\<forall>q. 1 \<le> q \<and> q < int (length ps) \<and> q \<noteq> no \<longrightarrow> ps'[0 := ?h] ! nat q = ps ! nat q"
    using D(4) by simp
  ultimately show ?thesis using D(1,2) A by blast
qed

text \<open>A number of allocations, one after the other, with their answers.\<close>

fun allocate_pages :: "nat \<Rightarrow> 'z io_scheme \<Rightarrow> fptr \<Rightarrow> ((Status \<times> int option) list \<times> 'z io_scheme) option" where
  "allocate_pages 0 s f = Some ([], s)"
| "allocate_pages (Suc n) s f = do {
     (st, no, s) \<leftarrow> File_allocatePage s f;
     (rs, s) \<leftarrow> allocate_pages n s f;
     Some ((st, no) # rs, s) }"

lemma allocate_pages_fixed:
  "File_allocatePage s f = Some (st, no, s) \<Longrightarrow> allocate_pages n s f = Some (replicate n (st, no), s)"
  by (induction n) simp_all

lemma set_db_nextFree_same: "set_db_nextFree (set_db_nextFree p v) v = set_db_nextFree p v"
  by (simp add: set_db_nextFree_def wr_int_def fun_eq_iff)

text \<open>
  C22: disposePage does not see that a page is already free. Disposing the same page twice
  succeeds both times and ties the free list to a loop: from then on allocatePage hands out this
  one page however often it is called, without ever changing the file.
\<close>
theorem disposePage_twice:
  assumes "file_name s f = Some name" "disk s name = Some ps" "db_file ps fl"
    "no \<in> used_pages ps fl" "no \<noteq> db_firstPage (ps ! 0)" "length ps < 2147483647"
  shows "\<exists>s1 s2. File_disposePage s f no = Some (OK, s1) \<and> File_disposePage s1 f no = Some (OK, s2) \<and>
    (\<forall>n. allocate_pages n s2 f = Some (replicate n (OK, Some no), s2))"
proof -
  have no: "1 \<le> no" "no < int (length ps)" "db_numPages (ps ! 0) = int (length ps)" "ps \<noteq> []"
    using assms(3,4) by (auto simp: db_file_def used_pages_def)
  have len: "nat no < length ps" "0 < nat no" using no by linarith+
  have w: "wrap32 no = no" using no assms(6) by (simp add: wrap32_id)
  let ?ps1 = "ps[nat no := set_db_nextFree zero_mem (db_nextFree (ps ! 0)), 0 := set_db_nextFree (ps ! 0) no]"
  let ?ps2 = "?ps1[nat no := set_db_nextFree zero_mem (db_nextFree (?ps1 ! 0)), 0 := set_db_nextFree (?ps1 ! 0) no]"
  let ?ps3 = "?ps2[0 := set_db_nextFree (?ps2 ! 0) (db_nextFree (?ps2 ! nat no))]"
  have D1: "File_disposePage s f no = Some (OK, s\<lparr>disk := (disk s)(name \<mapsto> ?ps1)\<rparr>)"
    by (rule disposePage_run [OF assms(1,2) no(1,2) assms(5) no(3)])
  have f1: "?ps1 ! 0 = set_db_nextFree (ps ! 0) no" "length ?ps1 = length ps" using no by simp_all
  have D2: "File_disposePage (s\<lparr>disk := (disk s)(name \<mapsto> ?ps1)\<rparr>) f no = Some (OK, s\<lparr>disk := (disk s)(name \<mapsto> ?ps2)\<rparr>)"
    using disposePage_run [of "s\<lparr>disk := (disk s)(name \<mapsto> ?ps1)\<rparr>" f name ?ps1 no] assms(1,5) no f1
    by (simp add: mem_simps)
  have f2: "?ps2 ! 0 = set_db_nextFree (?ps1 ! 0) no" "?ps2 ! nat no = set_db_nextFree zero_mem no"
    "length ?ps2 = length ps"
    using no len f1 w by (simp_all add: mem_simps nth_list_update)
  have A1: "File_allocatePage (s\<lparr>disk := (disk s)(name \<mapsto> ?ps2)\<rparr>) f = Some (OK, Some no, s\<lparr>disk := (disk s)(name \<mapsto> ?ps3)\<rparr>)"
    using allocatePage_run [of "s\<lparr>disk := (disk s)(name \<mapsto> ?ps2)\<rparr>" f name ?ps2 no] assms(1) no f2 w
    by (simp add: mem_simps)
  have "db_nextFree (?ps2 ! nat no) = no" unfolding f2(2) using w by (simp add: mem_simps)
  then have "set_db_nextFree (?ps2 ! 0) (db_nextFree (?ps2 ! nat no)) = ?ps2 ! 0"
    unfolding f2(1) using w by (simp add: set_db_nextFree_same mem_simps)
  then have "?ps3 = ?ps2" by (simp only: list_update_id)
  then have "File_allocatePage (s\<lparr>disk := (disk s)(name \<mapsto> ?ps2)\<rparr>) f = Some (OK, Some no, s\<lparr>disk := (disk s)(name \<mapsto> ?ps2)\<rparr>)"
    using A1 by (simp only:)
  then show ?thesis using D1 D2 allocate_pages_fixed by blast
qed

text \<open>A directory with one open file of two pages, for the witnesses.\<close>

definition example_io :: io where
  "example_io = \<lparr>disk = [''a'' \<mapsto> [set_db_numPages (set_db_firstPage (set_db_nextFree zero_mem (-1)) 1) 3,
      zero_mem, zero_mem]],
     fds = [3 \<mapsto> ''a''], next_fd = 4,
     files = [4096 \<mapsto> \<lparr>fileName = ''a'', openCnt = 1, unixFile = 3\<rparr>], next_ptr = 4097\<rparr>"

definition example_pages :: "page list" where
  "example_pages = [set_db_numPages (set_db_firstPage (set_db_nextFree zero_mem (-1)) 1) 3, zero_mem, zero_mem]"

lemma example_db:
  "file_name example_io 4096 = Some ''a''" "disk example_io ''a'' = Some example_pages"
  "db_file example_pages []" "length example_pages = 3" "2 \<in> used_pages example_pages []"
  "db_firstPage (example_pages ! 0) = 1"
  by (simp_all add: example_io_def example_pages_def file_name_def db_file_def used_pages_def mem_simps)

lemma allocatePage_fresh_witness:
  "\<exists>no s'. File_allocatePage example_io 4096 = Some (OK, Some no, s') \<and> no \<notin> used_pages example_pages []"
  using allocatePage_fresh [OF example_db(1,2,3)] by (auto simp: example_db(4))

lemma disposePage_then_allocatePage_witness:
  "\<exists>s' s''. File_disposePage example_io 4096 2 = Some (OK, s') \<and> File_allocatePage s' 4096 = Some (OK, Some 2, s'')"
  using disposePage_then_allocatePage [OF example_db(1,2,3,5)] by (auto simp: example_db(4,6))

lemma disposePage_twice_witness:
  "\<exists>s1 s2. File_disposePage example_io 4096 2 = Some (OK, s1) \<and> File_disposePage s1 4096 2 = Some (OK, s2) \<and>
     allocate_pages 3 s2 4096 = Some ([(OK, Some 2), (OK, Some 2), (OK, Some 2)], s2)"
proof -
  obtain s1 s2 where D: "File_disposePage example_io 4096 2 = Some (OK, s1)" "File_disposePage s1 4096 2 = Some (OK, s2)"
    "\<forall>n. allocate_pages n s2 4096 = Some (replicate n (OK, Some 2), s2)"
    using disposePage_twice [OF example_db(1,2,3,5)] by (auto simp: example_db(4,6))
  have "allocate_pages 3 s2 4096 = Some ([(OK, Some 2), (OK, Some 2), (OK, Some 2)], s2)"
    using D(3) [rule_format, of 3] by (simp add: numeral_3_eq_3)
  then show ?thesis using D(1,2) by blast
qed

end
