(* ===== verification/Buf.thy ===== *)
theory Buf
  imports BufHash FileIO
begin

text \<open>
  The buffer manager (stage6/buf.C, classes BufDesc, BufStats and BufMgr of buf.h): a pool of
  numBufs page frames with one descriptor each, a hash table from (file, page) to frames, and
  the clock algorithm that picks a victim. The state extends the files by the pool. A Page
  pointer that points into the pool is the number of its frame. Counters (pin counts,
  statistics) are unbounded; numBufs is positive and fits an int, so clockHand stays below it
  and its unsigned increment cannot wrap.
\<close>

section \<open>State\<close>

record BufDesc =
  bd_file :: fptr
  bd_pageNo :: int
  bd_frameNo :: int
  pinCnt :: int
  dirty :: bool
  valid :: bool
  refbit :: bool

definition BufDesc_Clear :: "BufDesc \<Rightarrow> BufDesc" where
  "BufDesc_Clear d = d\<lparr>pinCnt := 0, bd_file := 0, bd_pageNo := -1, dirty := False, valid := False\<rparr>"

definition BufDesc_Set :: "BufDesc \<Rightarrow> fptr \<Rightarrow> int \<Rightarrow> BufDesc" where
  "BufDesc_Set d f no =
     d\<lparr>bd_file := f, bd_pageNo := no, pinCnt := 1, dirty := False, valid := True, refbit := True\<rparr>"

record BufStats =
  accesses :: int
  diskreads :: int
  diskwrites :: int

definition BufStats_clear :: "BufStats" where
  "BufStats_clear = \<lparr>accesses = 0, diskreads = 0, diskwrites = 0\<rparr>"

record pool = io +
  clockHand :: nat
  numBufs :: nat
  hashTable :: BufHashTbl
  bufTable :: "BufDesc list"
  bufStats :: BufStats
  bufPool :: "page list"

section \<open>Construction\<close>

text \<open>
  The frames start zeroed. (int) (bufs * 1.2) is \<open>bufs * 6 div 5\<close>: the double nearest
  to 1.2 lies below it by less than half a unit in the last place, so that the product of an
  int with it rounds up to a whole number whenever bufs is a multiple of five. The product with
  2 wraps; the lemmas are about pools small enough that it does not.
\<close>

definition BufMgr_new :: "io \<Rightarrow> nat \<Rightarrow> pool" where
  "BufMgr_new s bufs = io.extend s
     \<lparr>clockHand = bufs - 1, numBufs = bufs,
      hashTable = BufHashTbl_new (wrap32 (int (bufs * 6 div 5) * 2) div 2 + 1),
      bufTable = map (\<lambda>i. \<lparr>bd_file = 0, bd_pageNo = 0, bd_frameNo = int i, pinCnt = 0,
                              dirty = False, valid = False, refbit = False\<rparr>) [0..<bufs],
      bufStats = BufStats_clear,
      bufPool = replicate bufs zero_mem\<rparr>"

text \<open>The destructor: every dirty page is written; the results of the writes are dropped.\<close>

fun BufMgr_flush_all :: "nat list \<Rightarrow> 'z pool_scheme \<Rightarrow> 'z pool_scheme option" where
  "BufMgr_flush_all [] s = Some s"
| "BufMgr_flush_all (i # is) s =
     (let d = bufTable s ! i
      in if valid d \<and> dirty d then do {
           (st, s) \<leftarrow> File_writePage s (bd_file d) (bd_pageNo d) (bufPool s ! i);
           BufMgr_flush_all is s }
         else BufMgr_flush_all is s)"

definition BufMgr_delete :: "'z pool_scheme \<Rightarrow> 'z pool_scheme option" where
  "BufMgr_delete s = BufMgr_flush_all [0..<numBufs s] s"

section \<open>The clock\<close>

definition advanceClock :: "'z pool_scheme \<Rightarrow> 'z pool_scheme" where
  "advanceClock s = s\<lparr>clockHand := (clockHand s + 1) mod numBufs s\<rparr>"

text \<open>
  The loop of allocBuf. The counter is the number of scans left, 2 * numBufs - numScanned; the
  result is the flag found, the scans left, and the state. The status of the removal from the
  hash table is dropped.
\<close>

fun allocBuf_loop :: "nat \<Rightarrow> 'z pool_scheme \<Rightarrow> bool \<times> nat \<times> 'z pool_scheme" where
  "allocBuf_loop 0 s = (False, 0, s)"
| "allocBuf_loop (Suc n) s =
     (let s = advanceClock s; d = bufTable s ! clockHand s
      in if \<not> valid d then (False, n, s)
         else if \<not> refbit d then
           if pinCnt d = 0
           then (True, n, s\<lparr>hashTable := snd (BufHashTbl_remove (hashTable s) (bd_file d) (bd_pageNo d))\<rparr>)
           else allocBuf_loop n s
         else allocBuf_loop n
           (s\<lparr>bufStats := (bufStats s)\<lparr>accesses := accesses (bufStats s) + 1\<rparr>,
              bufTable := (bufTable s)[clockHand s := d\<lparr>refbit := False\<rparr>]\<rparr>))"

definition allocBuf :: "'z pool_scheme \<Rightarrow> (Status \<times> nat option \<times> 'z pool_scheme) option" where
  "allocBuf s =
     (let (found, left, s) = allocBuf_loop (2 * numBufs s) s
      in if \<not> found \<and> left = 0 then Some (BUFFEREXCEEDED, None, s)
         else let d = bufTable s ! clockHand s
              in if dirty d then do {
                   let s = s\<lparr>bufStats := (bufStats s)\<lparr>diskwrites := diskwrites (bufStats s) + 1\<rparr>\<rparr>;
                   (st, s) \<leftarrow> File_writePage s (bd_file d) (bd_pageNo d) (bufPool s ! clockHand s);
                   Some (if st \<noteq> OK then (st, None, s) else (OK, Some (clockHand s), s)) }
                 else Some (OK, Some (clockHand s), s))"

section \<open>Operations\<close>

text \<open>A page pointer is returned only with OK.\<close>

definition readPage :: "'z pool_scheme \<Rightarrow> fptr \<Rightarrow> int \<Rightarrow> (Status \<times> nat option \<times> 'z pool_scheme) option" where
  "readPage s f no =
     (let (st, fr) = BufHashTbl_lookup (hashTable s) f no 0
      in if st = OK then
           let i = nat fr; d = bufTable s ! i
           in Some (OK, Some i, s\<lparr>bufTable := (bufTable s)[i := d\<lparr>refbit := True, pinCnt := pinCnt d + 1\<rparr>]\<rparr>)
         else do {
           (st, fr, s) \<leftarrow> allocBuf s;
           case fr of None \<Rightarrow> Some (st, None, s)
           | Some i \<Rightarrow> do {
               let s = s\<lparr>bufStats := (bufStats s)\<lparr>diskreads := diskreads (bufStats s) + 1\<rparr>\<rparr>;
               (st, pg) \<leftarrow> File_readPage s f no;
               case pg of None \<Rightarrow> Some (st, None, s)
               | Some pg \<Rightarrow>
                 let s = s\<lparr>bufPool := (bufPool s)[i := pg],
                           bufTable := (bufTable s)[i := BufDesc_Set (bufTable s ! i) f no]\<rparr>;
                     (st, t) = BufHashTbl_insert (hashTable s) f no (int i);
                     s = s\<lparr>hashTable := t\<rparr>
                 in Some (if st \<noteq> OK then (st, None, s) else (OK, Some i, s)) }
         })"

definition unPinPage :: "'z pool_scheme \<Rightarrow> fptr \<Rightarrow> int \<Rightarrow> bool \<Rightarrow> Status \<times> 'z pool_scheme" where
  "unPinPage s f no dirt =
     (let (st, fr) = BufHashTbl_lookup (hashTable s) f no 0
      in if st \<noteq> OK then (st, s)
         else let i = nat fr;
                  d = (if dirt then (bufTable s ! i)\<lparr>dirty := True\<rparr> else bufTable s ! i)
              in if pinCnt d = 0 then (PAGENOTPINNED, s\<lparr>bufTable := (bufTable s)[i := d]\<rparr>)
                 else (OK, s\<lparr>bufTable := (bufTable s)[i := d\<lparr>pinCnt := pinCnt d - 1\<rparr>]\<rparr>))"

definition flush_drop :: "'z pool_scheme \<Rightarrow> fptr \<Rightarrow> nat \<Rightarrow> 'z pool_scheme" where
  "flush_drop s f i =
     (let d = bufTable s ! i
      in s\<lparr>hashTable := snd (BufHashTbl_remove (hashTable s) f (bd_pageNo d)),
           bufTable := (bufTable s)[i := d\<lparr>dirty := False, bd_file := 0, bd_pageNo := -1, valid := False\<rparr>]\<rparr>)"

fun flushFile_loop :: "fptr \<Rightarrow> nat list \<Rightarrow> 'z pool_scheme \<Rightarrow> (Status \<times> 'z pool_scheme) option" where
  "flushFile_loop f [] s = Some (OK, s)"
| "flushFile_loop f (i # is) s =
     (let d = bufTable s ! i
      in if valid d \<and> bd_file d = f then
           if pinCnt d > 0 then Some (PAGEPINNED, s)
           else if dirty d then do {
             (st, s) \<leftarrow> File_writePage s (bd_file d) (bd_pageNo d) (bufPool s ! i);
             if st \<noteq> OK then Some (st, s) else flushFile_loop f is (flush_drop s f i) }
           else flushFile_loop f is (flush_drop s f i)
         else if \<not> valid d \<and> bd_file d = f then Some (BADBUFFER, s)
         else flushFile_loop f is s)"

definition flushFile :: "'z pool_scheme \<Rightarrow> fptr \<Rightarrow> (Status \<times> 'z pool_scheme) option" where
  "flushFile s f = flushFile_loop f [0..<numBufs s] s"

text \<open>The page is dropped from the pool even while it is pinned.\<close>

definition disposePage :: "'z pool_scheme \<Rightarrow> fptr \<Rightarrow> int \<Rightarrow> (Status \<times> 'z pool_scheme) option" where
  "disposePage s f no =
     (let (st, fr) = BufHashTbl_lookup (hashTable s) f no 0;
          s = (if st = OK
               then s\<lparr>bufTable := (bufTable s)[nat fr := BufDesc_Clear (bufTable s ! nat fr)]\<rparr> else s);
          s = s\<lparr>hashTable := snd (BufHashTbl_remove (hashTable s) f no)\<rparr>
      in File_disposePage s f no)"

text \<open>
  The frame keeps what it held before: the new page is not read from disk. The page number is
  an output parameter that is set as soon as the file has allocated the page.
\<close>

definition allocPage ::
  "'z pool_scheme \<Rightarrow> fptr \<Rightarrow> (Status \<times> int option \<times> nat option \<times> 'z pool_scheme) option" where
  "allocPage s f = do {
     (st, no, s) \<leftarrow> File_allocatePage s f;
     case no of None \<Rightarrow> Some (st, None, None, s)
     | Some no \<Rightarrow>
       if st \<noteq> OK then Some (st, Some no, None, s)
       else do {
         (st, fr, s) \<leftarrow> allocBuf s;
         case fr of None \<Rightarrow> Some (st, Some no, None, s)
         | Some i \<Rightarrow>
           let s = s\<lparr>bufTable := (bufTable s)[i := BufDesc_Set (bufTable s ! i) f no]\<rparr>;
               (st, t) = BufHashTbl_insert (hashTable s) f no (int i);
               s = s\<lparr>hashTable := t\<rparr>
           in Some (st, Some no, Some i, s) }
   }"

definition getBufStats :: "'z pool_scheme \<Rightarrow> BufStats" where
  "getBufStats s = bufStats s"

definition clearBufStats :: "'z pool_scheme \<Rightarrow> 'z pool_scheme" where
  "clearBufStats s = s\<lparr>bufStats := BufStats_clear\<rparr>"


section \<open>The invariant of the pool\<close>

lemma pool_files [simp]:
  "file_name (s\<lparr>clockHand := a\<rparr>) f = file_name s f" "file_name (s\<lparr>hashTable := b\<rparr>) f = file_name s f"
  "file_name (s\<lparr>bufTable := c\<rparr>) f = file_name s f" "file_name (s\<lparr>bufStats := st\<rparr>) f = file_name s f"
  "file_name (s\<lparr>bufPool := e\<rparr>) f = file_name s f"
  by (simp_all add: file_name_def)

lemma pool_pages [simp]:
  "file_pages (s\<lparr>clockHand := a\<rparr>) f = file_pages s f" "file_pages (s\<lparr>hashTable := b\<rparr>) f = file_pages s f"
  "file_pages (s\<lparr>bufTable := c\<rparr>) f = file_pages s f" "file_pages (s\<lparr>bufStats := st\<rparr>) f = file_pages s f"
  "file_pages (s\<lparr>bufPool := e\<rparr>) f = file_pages s f"
  by (simp_all add: file_pages_def)

lemma pool_disk_page [simp]:
  "disk_page (s\<lparr>clockHand := a\<rparr>) = disk_page s" "disk_page (s\<lparr>hashTable := b\<rparr>) = disk_page s"
  "disk_page (s\<lparr>bufTable := c\<rparr>) = disk_page s" "disk_page (s\<lparr>bufStats := st\<rparr>) = disk_page s"
  "disk_page (s\<lparr>bufPool := e\<rparr>) = disk_page s"
  by (simp_all add: disk_page_def fun_eq_iff)

lemma pool_io_inv [simp]:
  "io_inv (s\<lparr>clockHand := a\<rparr>) = io_inv s" "io_inv (s\<lparr>hashTable := b\<rparr>) = io_inv s"
  "io_inv (s\<lparr>bufTable := c\<rparr>) = io_inv s" "io_inv (s\<lparr>bufStats := st\<rparr>) = io_inv s"
  "io_inv (s\<lparr>bufPool := e\<rparr>) = io_inv s"
  by (simp_all add: io_inv_def)

definition in_frame :: "BufDesc \<Rightarrow> fptr \<Rightarrow> int \<Rightarrow> bool" where
  "in_frame d f no \<longleftrightarrow> valid d \<and> bd_file d = f \<and> bd_pageNo d = no"

definition desc_ok :: "'z io_scheme \<Rightarrow> BufDesc \<Rightarrow> bool" where
  "desc_ok s d \<longleftrightarrow> (if valid d then 0 \<le> pinCnt d \<and> disk_page s (bd_file d) (bd_pageNo d) \<noteq> None
                    else \<not> dirty d \<and> bd_file d = 0)"

text \<open>
  The hash table names exactly the valid frames, outside a set X of frames that an operation
  has taken out of use and is about to fill.
\<close>

definition pool_ok :: "nat set \<Rightarrow> 'z pool_scheme \<Rightarrow> bool" where
  "pool_ok X s \<longleftrightarrow> 0 < numBufs s \<and> length (bufTable s) = numBufs s \<and> length (bufPool s) = numBufs s \<and>
     clockHand s < numBufs s \<and> io_inv s \<and> bht_inv (hashTable s) \<and>
     (\<forall>i < numBufs s. bd_frameNo (bufTable s ! i) = int i) \<and>
     (\<forall>f no i. bht_map (hashTable s) (f, no) = Some i \<longleftrightarrow>
        0 \<le> i \<and> nat i < numBufs s \<and> nat i \<notin> X \<and> in_frame (bufTable s ! nat i) f no) \<and>
     (\<forall>i < numBufs s. i \<notin> X \<longrightarrow> desc_ok s (bufTable s ! i))"

abbreviation pool_inv :: "'z pool_scheme \<Rightarrow> bool" where
  "pool_inv s \<equiv> pool_ok {} s"

text \<open>A clean page that nobody has pinned is the page on disk.\<close>

definition desc_coherent :: "'z io_scheme \<Rightarrow> BufDesc \<Rightarrow> page \<Rightarrow> bool" where
  "desc_coherent s d pg \<longleftrightarrow> (valid d \<and> \<not> dirty d \<and> pinCnt d = 0 \<longrightarrow>
      disk_page s (bd_file d) (bd_pageNo d) = Some pg)"

definition coherent :: "nat set \<Rightarrow> 'z pool_scheme \<Rightarrow> bool" where
  "coherent X s \<longleftrightarrow> (\<forall>i < numBufs s. i \<notin> X \<longrightarrow> desc_coherent s (bufTable s ! i) (bufPool s ! i))"

text \<open>What a client sees: the cached page, or the one on disk.\<close>

definition page_of :: "'z pool_scheme \<Rightarrow> fptr \<Rightarrow> int \<Rightarrow> page option" where
  "page_of s f no = (case bht_map (hashTable s) (f, no) of
      Some i \<Rightarrow> Some (bufPool s ! nat i) | None \<Rightarrow> disk_page s f no)"

definition usable :: "BufDesc \<Rightarrow> bool" where
  "usable d \<longleftrightarrow> \<not> valid d \<or> pinCnt d = 0"

section \<open>The clock algorithm\<close>

definition same_desc :: "BufDesc \<Rightarrow> BufDesc \<Rightarrow> bool" where
  "same_desc d d' \<longleftrightarrow> d\<lparr>refbit := False\<rparr> = d'\<lparr>refbit := False\<rparr>"

lemma same_descD:
  "same_desc d d' \<Longrightarrow> bd_file d' = bd_file d \<and> bd_pageNo d' = bd_pageNo d \<and> bd_frameNo d' = bd_frameNo d \<and>
     pinCnt d' = pinCnt d \<and> dirty d' = dirty d \<and> valid d' = valid d"
  by (cases d; cases d') (simp add: same_desc_def)

lemma same_desc_refl [simp]: "same_desc d d" "same_desc d (d\<lparr>refbit := b\<rparr>)"
  by (simp_all add: same_desc_def)

lemma same_desc_trans: "same_desc d d' \<Longrightarrow> same_desc d' d'' \<Longrightarrow> same_desc d d''"
  by (simp add: same_desc_def)

definition same_table :: "BufDesc list \<Rightarrow> BufDesc list \<Rightarrow> bool" where
  "same_table bt bt' \<longleftrightarrow> length bt' = length bt \<and> (\<forall>i < length bt. same_desc (bt ! i) (bt' ! i))"

lemma same_table_refl [simp]: "same_table bt bt"
  by (simp add: same_table_def)

lemma same_table_trans: "same_table a b \<Longrightarrow> same_table b c \<Longrightarrow> same_table a c"
  by (auto simp: same_table_def intro: same_desc_trans)

lemma same_table_refbit: "same_table bt (bt[i := (bt ! i)\<lparr>refbit := b\<rparr>])"
proof -
  have "same_desc (bt ! j) (bt[i := (bt ! i)\<lparr>refbit := b\<rparr>] ! j)" if "j < length bt" for j
    using that by (cases "j = i") simp_all
  then show ?thesis by (simp add: same_table_def)
qed

lemma loop_result:
  assumes "0 < numBufs s" "length (bufTable s) = numBufs s" "clockHand s < numBufs s"
    "allocBuf_loop n s = (found, left, s')"
  shows "\<exists>h bs bt. h < numBufs s \<and> same_table (bufTable s) bt \<and>
    (if found then valid (bt ! h) \<and> pinCnt (bt ! h) = 0 \<and>
       s' = s\<lparr>clockHand := h, bufStats := bs, bufTable := bt,
              hashTable := snd (BufHashTbl_remove (hashTable s) (bd_file (bt ! h)) (bd_pageNo (bt ! h)))\<rparr>
     else (left = 0 \<or> \<not> valid (bt ! h)) \<and> s' = s\<lparr>clockHand := h, bufStats := bs, bufTable := bt\<rparr>)"
  using assms
proof (induction n s rule: allocBuf_loop.induct)
  case (1 s)
  then show ?case
    by (intro exI [of _ "clockHand s"] exI [of _ "bufStats s"] exI [of _ "bufTable s"]) auto
next
  case (2 n s)
  let ?s = "advanceClock s"
  let ?h = "clockHand ?s"
  let ?d = "bufTable ?s ! ?h"
  have h: "?h < numBufs s" "numBufs ?s = numBufs s" "bufTable ?s = bufTable s"
    "hashTable ?s = hashTable s"
    using 2 by (simp_all add: advanceClock_def)
  show ?case
  proof (cases "\<not> valid ?d \<or> \<not> refbit ?d \<and> pinCnt ?d = 0")
    case True
    have s': "bufStats ?s = bufStats s" "bufTable ?s = bufTable s"
      "?s\<lparr>bufStats := bufStats s, bufTable := bufTable s\<rparr> = ?s"
      by (simp_all add: advanceClock_def)
    have "s' = (if valid ?d then ?s\<lparr>bufStats := bufStats s, bufTable := bufTable s, hashTable :=
        snd (BufHashTbl_remove (hashTable s) (bd_file ?d) (bd_pageNo ?d))\<rparr>
      else ?s\<lparr>bufStats := bufStats s, bufTable := bufTable s\<rparr>)" "found = valid ?d"
      using True 2(6) h s' by (auto simp: Let_def split: if_splits)
    then show ?thesis
      using True h by (intro exI [of _ ?h] exI [of _ "bufStats s"] exI [of _ "bufTable s"])
        (auto simp: advanceClock_def)
  next
    case False
    show ?thesis
    proof (cases "refbit ?d")
      case rb: True
      let ?s1 = "?s\<lparr>bufStats := (bufStats ?s)\<lparr>accesses := accesses (bufStats ?s) + 1\<rparr>,
              bufTable := (bufTable ?s)[?h := ?d\<lparr>refbit := False\<rparr>]\<rparr>"
      have run: "allocBuf_loop n ?s1 = (found, left, s')"
        using 2(6) False rb by (simp add: Let_def)
      have "\<exists>h bs bt. h < numBufs ?s1 \<and> same_table (bufTable ?s1) bt \<and>
        (if found then valid (bt ! h) \<and> pinCnt (bt ! h) = 0 \<and>
           s' = ?s1\<lparr>clockHand := h, bufStats := bs, bufTable := bt,
              hashTable := snd (BufHashTbl_remove (hashTable ?s1) (bd_file (bt ! h)) (bd_pageNo (bt ! h)))\<rparr>
         else (left = 0 \<or> \<not> valid (bt ! h)) \<and> s' = ?s1\<lparr>clockHand := h, bufStats := bs, bufTable := bt\<rparr>)"
        using 2(2) [OF refl refl _ _ _ _ _ run] False rb h 2(3,4) by simp
      then obtain h' bs bt where I: "h' < numBufs s" "same_table (bufTable ?s1) bt"
        "if found then valid (bt ! h') \<and> pinCnt (bt ! h') = 0 \<and>
           s' = ?s1\<lparr>clockHand := h', bufStats := bs, bufTable := bt,
              hashTable := snd (BufHashTbl_remove (hashTable ?s1) (bd_file (bt ! h')) (bd_pageNo (bt ! h')))\<rparr>
         else (left = 0 \<or> \<not> valid (bt ! h')) \<and> s' = ?s1\<lparr>clockHand := h', bufStats := bs, bufTable := bt\<rparr>"
        using h by auto
      have "same_table (bufTable s) bt"
        using I(2) same_table_refbit [of "bufTable s" ?h False] h by (auto intro: same_table_trans)
      then show ?thesis
        using I(1,3) h by (intro exI [of _ h'] exI [of _ bs] exI [of _ bt])
          (auto simp: advanceClock_def split: if_splits)
    next
      case nrb: False
      have run: "allocBuf_loop n ?s = (found, left, s')"
        using 2(6) False nrb by (simp add: Let_def)
      have "\<exists>h bs bt. h < numBufs ?s \<and> same_table (bufTable ?s) bt \<and>
        (if found then valid (bt ! h) \<and> pinCnt (bt ! h) = 0 \<and>
           s' = ?s\<lparr>clockHand := h, bufStats := bs, bufTable := bt,
              hashTable := snd (BufHashTbl_remove (hashTable ?s) (bd_file (bt ! h)) (bd_pageNo (bt ! h)))\<rparr>
         else (left = 0 \<or> \<not> valid (bt ! h)) \<and> s' = ?s\<lparr>clockHand := h, bufStats := bs, bufTable := bt\<rparr>)"
        using 2(1) [OF refl refl _ _ _ _ _ _ run] False nrb h 2(3,4) by simp
      then show ?thesis using h by (auto simp: advanceClock_def split: if_splits)
    qed
  qed
qed


text \<open>
  How many scans it takes at most until the clock stops at frame k: once around to it, and
  once more when its reference bit is set.
\<close>

definition clock_dist :: "'z pool_scheme \<Rightarrow> nat \<Rightarrow> nat" where
  "clock_dist s k = (if clockHand s < k then k - clockHand s else k + numBufs s - clockHand s)"

definition clock_pot :: "'z pool_scheme \<Rightarrow> nat \<Rightarrow> nat" where
  "clock_pot s k = clock_dist s k +
     (if valid (bufTable s ! k) \<and> refbit (bufTable s ! k) then numBufs s else 0)"

lemma clock_dist_step:
  "0 < numBufs s \<Longrightarrow> clockHand s < numBufs s \<Longrightarrow> k < numBufs s \<Longrightarrow>
   clock_dist s k = (if clockHand (advanceClock s) = k then 1 else Suc (clock_dist (advanceClock s) k)) \<and>
   (clockHand (advanceClock s) = k \<longrightarrow> clock_dist (advanceClock s) k = numBufs s)"
  by (cases "Suc (clockHand s) = numBufs s") (auto simp: clock_dist_def advanceClock_def)

lemma loop_stops:
  assumes "0 < numBufs s" "length (bufTable s) = numBufs s" "clockHand s < numBufs s"
    "allocBuf_loop n s = (found, left, s')"
    "k < numBufs s" "usable (bufTable s ! k)" "clock_pot s k \<le> n"
  shows "n \<le> left + clock_pot s k \<and> (found \<or> \<not> valid (bufTable s' ! clockHand s'))"
  using assms
proof (induction n s rule: allocBuf_loop.induct)
  case (1 s)
  then have "clock_dist s k = 0" by (simp add: clock_pot_def)
  then show ?case using 1 by (simp add: clock_dist_def split: if_splits)
next
  case (2 n s)
  let ?s = "advanceClock s"
  let ?h = "clockHand ?s"
  let ?d = "bufTable ?s ! ?h"
  have h: "?h < numBufs s" "numBufs ?s = numBufs s" "bufTable ?s = bufTable s"
    using 2 by (simp_all add: advanceClock_def)
  note dist = clock_dist_step [OF 2(3) 2(5) 2(7)]
  have pos: "1 \<le> clock_pot s k" using dist by (simp add: clock_pot_def split: if_splits)
  show ?case
  proof (cases "\<not> valid ?d \<or> \<not> refbit ?d \<and> pinCnt ?d = 0")
    case True
    then show ?thesis using 2(6) pos h by (auto simp: Let_def split: if_splits)
  next
    case stop: False
    show ?thesis
    proof (cases "refbit ?d")
      case rb: True
      let ?s1 = "?s\<lparr>bufStats := (bufStats ?s)\<lparr>accesses := accesses (bufStats ?s) + 1\<rparr>,
              bufTable := (bufTable ?s)[?h := ?d\<lparr>refbit := False\<rparr>]\<rparr>"
      have run: "allocBuf_loop n ?s1 = (found, left, s')"
        using 2(6) stop rb by (simp add: Let_def)
      have us: "usable (bufTable ?s1 ! k)"
        using 2(4,7,8) h stop by (cases "?h = k") (simp_all add: usable_def)
      have d1: "clock_dist ?s1 k = clock_dist ?s k" by (simp add: clock_dist_def)
      have pot: "clock_pot s k = Suc (clock_pot ?s1 k)"
        using dist 2(4) h stop rb d1 by (cases "?h = k") (auto simp: clock_pot_def)
      have "n \<le> left + clock_pot ?s1 k \<and> (found \<or> \<not> valid (bufTable s' ! clockHand s'))"
        using 2(2) [OF refl refl _ _ _ _ _ run _ us] stop rb h 2(3,4,7,9) pot by simp
      then show ?thesis using pot by simp
    next
      case nrb: False
      have run: "allocBuf_loop n ?s = (found, left, s')"
        using 2(6) stop nrb by (simp add: Let_def)
      have "?h \<noteq> k" using stop nrb 2(8) h by (auto simp: usable_def)
      then have pot: "clock_pot s k = Suc (clock_pot ?s k)"
        using dist h by (simp add: clock_pot_def)
      have "n \<le> left + clock_pot ?s k \<and> (found \<or> \<not> valid (bufTable s' ! clockHand s'))"
        using 2(1) [OF refl refl _ _ _ _ _ _ run] stop nrb h 2(3,4,7,8,9) pot by simp
      then show ?thesis using pot by simp
    qed
  qed
qed

text \<open>
  A run of the loop: it stops at a usable frame when there is one, with scans to spare when
  that frame is invalid (so that the test after the loop is right), and runs out otherwise.
\<close>

lemma loop_spec:
  assumes wf: "0 < numBufs s" "length (bufTable s) = numBufs s" "clockHand s < numBufs s"
    and run: "allocBuf_loop (2 * numBufs s) s = (found, left, s')"
  obtains h bs bt where "h < numBufs s" "same_table (bufTable s) bt"
    "(\<exists>k < numBufs s. usable (bufTable s ! k)) \<longleftrightarrow> found \<or> left > 0"
    "s' = (if found then s\<lparr>clockHand := h, bufStats := bs, bufTable := bt,
         hashTable := snd (BufHashTbl_remove (hashTable s) (bd_file (bt ! h)) (bd_pageNo (bt ! h)))\<rparr>
       else s\<lparr>clockHand := h, bufStats := bs, bufTable := bt\<rparr>)"
    "found \<longrightarrow> valid (bt ! h) \<and> pinCnt (bt ! h) = 0" "\<not> found \<and> 0 < left \<longrightarrow> \<not> valid (bt ! h)"
proof -
  obtain h bs bt where R: "h < numBufs s" "same_table (bufTable s) bt"
    "if found then valid (bt ! h) \<and> pinCnt (bt ! h) = 0 \<and>
       s' = s\<lparr>clockHand := h, bufStats := bs, bufTable := bt,
              hashTable := snd (BufHashTbl_remove (hashTable s) (bd_file (bt ! h)) (bd_pageNo (bt ! h)))\<rparr>
     else (left = 0 \<or> \<not> valid (bt ! h)) \<and> s' = s\<lparr>clockHand := h, bufStats := bs, bufTable := bt\<rparr>"
    using loop_result [OF wf run] by blast
  have same: "same_desc (bufTable s ! k) (bt ! k)" if "k < numBufs s" for k
    using R(2) wf that by (simp add: same_table_def)
  have pot: "clock_pot s k \<le> 2 * numBufs s"
    "\<not> valid (bufTable s ! k) \<Longrightarrow> clock_pot s k \<le> numBufs s" if "k < numBufs s" for k
    using wf that by (auto simp: clock_pot_def clock_dist_def)
  have "found \<or> left > 0" if k: "k < numBufs s" "usable (bufTable s ! k)" for k
  proof (rule ccontr)
    assume no: "\<not> (found \<or> left > 0)"
    then have "\<not> valid (bt ! h)"
      using loop_stops [OF wf run k pot(1) [OF k(1)]] R(3) by simp
    then have "\<not> valid (bufTable s ! h)" "usable (bufTable s ! h)"
      using same_descD [OF same [OF R(1)]] by (auto simp: usable_def)
    then show False
      using loop_stops [OF wf run R(1)] pot [OF R(1)] no wf by simp
  qed
  moreover have "\<exists>k < numBufs s. usable (bufTable s ! k)" if "found \<or> left > 0"
    using that R(1,3) same_descD [OF same [OF R(1)]]
    by (intro exI [of _ h]) (auto simp: usable_def split: if_splits)
  ultimately have "(\<exists>k < numBufs s. usable (bufTable s ! k)) \<longleftrightarrow> found \<or> left > 0" by blast
  from that [OF R(1,2) this, of bs] R(3) show thesis by (auto split: if_splits)
qed


section \<open>How the invariant moves\<close>

lemma pool_ok_map:
  "pool_ok X s \<Longrightarrow> bht_map (hashTable s) (f, no) = Some i \<longleftrightarrow>
     0 \<le> i \<and> nat i < numBufs s \<and> nat i \<notin> X \<and> in_frame (bufTable s ! nat i) f no"
  by (simp add: pool_ok_def)

lemma pool_okD:
  "pool_ok X s \<Longrightarrow> 0 < numBufs s \<and> length (bufTable s) = numBufs s \<and> length (bufPool s) = numBufs s \<and>
     clockHand s < numBufs s \<and> io_inv s \<and> bht_inv (hashTable s)"
  by (simp add: pool_ok_def)

lemma pool_ok_desc: "pool_ok X s \<Longrightarrow> i < numBufs s \<Longrightarrow> i \<notin> X \<Longrightarrow> desc_ok s (bufTable s ! i)"
  by (simp add: pool_ok_def)

lemma in_frame_map:
  "pool_ok X s \<Longrightarrow> i < numBufs s \<Longrightarrow> i \<notin> X \<Longrightarrow> in_frame (bufTable s ! i) f no \<Longrightarrow>
   bht_map (hashTable s) (f, no) = Some (int i)"
  by (simp add: pool_ok_map)

lemma desc_ok_pool [simp]:
  "desc_ok (s\<lparr>clockHand := a\<rparr>) = desc_ok s" "desc_ok (s\<lparr>hashTable := b\<rparr>) = desc_ok s"
  "desc_ok (s\<lparr>bufTable := c\<rparr>) = desc_ok s" "desc_ok (s\<lparr>bufStats := st\<rparr>) = desc_ok s"
  "desc_ok (s\<lparr>bufPool := e\<rparr>) = desc_ok s"
  by (simp_all add: desc_ok_def fun_eq_iff)

lemma desc_coherent_pool [simp]:
  "desc_coherent (s\<lparr>clockHand := a\<rparr>) = desc_coherent s" "desc_coherent (s\<lparr>hashTable := b\<rparr>) = desc_coherent s"
  "desc_coherent (s\<lparr>bufTable := c\<rparr>) = desc_coherent s" "desc_coherent (s\<lparr>bufStats := st\<rparr>) = desc_coherent s"
  "desc_coherent (s\<lparr>bufPool := e\<rparr>) = desc_coherent s"
  by (simp_all add: desc_coherent_def fun_eq_iff)

lemma same_desc_simps:
  assumes "same_desc d d'"
  shows "desc_ok s d' = desc_ok s d" "desc_coherent s d' = desc_coherent s d"
    "in_frame d' = in_frame d" "usable d' = usable d"
  using same_descD [OF assms]
  by (simp_all add: desc_ok_def desc_coherent_def in_frame_def usable_def fun_eq_iff)

lemma pool_ok_same:
  fixes bs :: BufStats
  assumes ok: "pool_ok X s" and same: "same_table (bufTable s) bt" and h: "h < numBufs s"
  defines "s' \<equiv> s\<lparr>clockHand := h, bufStats := bs, bufTable := bt\<rparr>"
  shows "pool_ok X s'" and "coherent X s \<Longrightarrow> coherent X s'" and "page_of s' = page_of s"
proof -
  have len: "length (bufTable s) = numBufs s" using ok by (simp add: pool_ok_def)
  have sd: "same_desc (bufTable s ! i) (bt ! i)" if "i < numBufs s" for i
    using same len that by (simp add: same_table_def)
  show "pool_ok X s'"
    using ok h same same_desc_simps(1) [OF sd, where s = s] same_desc_simps(3) [OF sd] same_descD [OF sd]
    by (simp add: pool_ok_def s'_def same_table_def cong: conj_cong)
  show "coherent X s \<Longrightarrow> coherent X s'"
    using same_desc_simps(2) [OF sd, where s = s] by (simp add: coherent_def s'_def)
  show "page_of s' = page_of s"
    by (auto simp: page_of_def s'_def fun_eq_iff split: option.splits)
qed

lemma pool_ok_evict:
  assumes ok: "pool_ok {} s" and h: "h < numBufs s" and v: "in_frame (bufTable s ! h) f no"
  defines "s' \<equiv> s\<lparr>hashTable := snd (BufHashTbl_remove (hashTable s) f no)\<rparr>"
  shows "pool_ok {h} s'" and "bht_map (hashTable s') = (bht_map (hashTable s))((f, no) := None)"
proof -
  have inv: "bht_inv (hashTable s)" using ok by (simp add: pool_ok_def)
  have m: "bht_map (hashTable s') = (bht_map (hashTable s))((f, no) := None)"
    and i: "bht_inv (hashTable s')"
    using bht.find_del [OF inv, of "(f, no)"] bht.inv_del [OF inv, of "(f, no)"]
    by (simp_all add: bht_del_def s'_def)
  then show "bht_map (hashTable s') = (bht_map (hashTable s))((f, no) := None)" by simp
  have at: "bht_map (hashTable s) (f, no) = Some (int h)"
    using in_frame_map [OF ok h _ v] by simp
  have key: "g = f \<and> q = no" if "in_frame (bufTable s ! h) g q" for g q
    using v that by (auto simp: in_frame_def)
  have "bht_map (hashTable s') (g, q) = Some i \<longleftrightarrow>
     0 \<le> i \<and> nat i < numBufs s \<and> nat i \<notin> {h} \<and> in_frame (bufTable s ! nat i) g q" for g q i
  proof (cases "(g, q) = (f, no)")
    case True
    then have "i = int h" if "0 \<le> i" "nat i < numBufs s" "in_frame (bufTable s ! nat i) g q"
      using that in_frame_map [OF ok that(2), of g q] at by simp
    then show ?thesis using True m by auto
  next
    case False
    then have "nat i = h \<Longrightarrow> \<not> in_frame (bufTable s ! nat i) g q" using key by blast
    then show ?thesis using False m pool_ok_map [OF ok, of g q i] by auto
  qed
  then show "pool_ok {h} s'"
    using ok i by (auto simp: pool_ok_def s'_def)
qed

lemma pool_ok_disk:
  assumes ok: "pool_ok X s" and dom: "\<And>g q. disk_page (s\<lparr>disk := d\<rparr>) g q = None \<Longrightarrow> disk_page s g q = None"
  shows "pool_ok X (s\<lparr>disk := d\<rparr>)"
proof -
  have "desc_ok s d' \<Longrightarrow> desc_ok (s\<lparr>disk := d\<rparr>) d'" for d'
    using dom [of "bd_file d'" "bd_pageNo d'"] by (auto simp: desc_ok_def split: if_splits)
  then show ?thesis using ok by (simp add: pool_ok_def)
qed

text \<open>Filling a frame that has been taken out of use.\<close>

lemma pool_ok_fill:
  assumes ok: "pool_ok {h} s" and h: "h < numBufs s" and new: "bht_map (hashTable s) (f, no) = None"
    and pg: "disk_page s f no \<noteq> None"
    and ins: "BufHashTbl_insert (hashTable s) f no (int h) = (st, t)"
  defines "s' \<equiv> s\<lparr>bufTable := (bufTable s)[h := BufDesc_Set (bufTable s ! h) f no], hashTable := t\<rparr>"
  shows "st = OK" and "pool_ok {} s'"
    and "bht_map t = (bht_map (hashTable s))((f, no) \<mapsto> int h)"
    and "coherent {h} s \<Longrightarrow> coherent {} s'"
proof -
  have wf: "bht_inv (hashTable s)" "length (bufTable s) = numBufs s" using ok by (simp_all add: pool_ok_def)
  have st: "st = OK \<and> bht_inv t \<and> bht_map t = (bht_map (hashTable s))((f, no) \<mapsto> int h)"
    using bht.ins_new [OF wf(1) new, of "int h"] ins by (auto simp: bht_ins_def)
  then show "st = OK" "bht_map t = (bht_map (hashTable s))((f, no) \<mapsto> int h)" by simp_all
  let ?bt = "(bufTable s)[h := BufDesc_Set (bufTable s ! h) f no]"
  have fr: "in_frame (?bt ! i) g q \<longleftrightarrow> (if i = h then g = f \<and> q = no else in_frame (bufTable s ! i) g q)"
    if "i < numBufs s" for i g q
    using that wf h by (auto simp: in_frame_def BufDesc_Set_def nth_list_update)
  have "bht_map t (g, q) = Some i \<longleftrightarrow> 0 \<le> i \<and> nat i < numBufs s \<and> in_frame (?bt ! nat i) g q" for g q i
  proof (cases "nat i < numBufs s")
    case True
    show ?thesis
    proof (cases "nat i = h")
      case eq: True
      then show ?thesis
        using st pool_ok_map [OF ok, of g q i] h fr [OF True, of g q] by (cases "0 \<le> i") auto
    next
      case False
      then show ?thesis
        using st pool_ok_map [OF ok, of g q i] pool_ok_map [OF ok, of f no i] new h fr [OF True, of g q]
        by (auto simp: fun_upd_apply)
    qed
  next
    case False
    then show ?thesis using st pool_ok_map [OF ok, of g q i] h by (auto simp: fun_upd_apply)
  qed
  moreover have "desc_ok s (?bt ! i)" if "i < numBufs s" for i
    using pool_ok_desc [OF ok that] pg wf that
    by (cases "i = h") (auto simp: desc_ok_def BufDesc_Set_def)
  ultimately show "pool_ok {} s'"
    using ok st wf h by (auto simp: pool_ok_def s'_def nth_list_update BufDesc_Set_def)
  show "coherent {h} s \<Longrightarrow> coherent {} s'"
    using wf h by (auto simp: coherent_def s'_def nth_list_update BufDesc_Set_def desc_coherent_def)
qed


section \<open>allocBuf\<close>

text \<open>The files change at most in pages that were cached.\<close>

definition wrote_cached :: "'z pool_scheme \<Rightarrow> 'z pool_scheme \<Rightarrow> bool" where
  "wrote_cached s s' \<longleftrightarrow> file_name s' = file_name s \<and> files s' = files s \<and>
     (\<forall>f. file_pages s' f = file_pages s f \<or>
       (\<exists>no pg ps i. i < numBufs s \<and> usable (bufTable s ! i) \<and> in_frame (bufTable s ! i) f no \<and>
          file_pages s f = Some ps \<and> file_pages s' f = Some (ps[nat no := pg])))"

lemma wrote_cached_pool [simp]:
  "wrote_cached s (s\<lparr>clockHand := h, bufStats := bs, bufTable := bt\<rparr>)"
  "wrote_cached s (s\<lparr>clockHand := h, bufStats := bs, bufTable := bt, hashTable := t\<rparr>)"
  by (simp_all add: wrote_cached_def fun_eq_iff)

lemma allocBuf_full:
  assumes inv: "pool_ok {} s" and full: "\<forall>k < numBufs s. \<not> usable (bufTable s ! k)"
  shows "\<exists>h bs bt. allocBuf s = Some (BUFFEREXCEEDED, None, s\<lparr>clockHand := h, bufStats := bs, bufTable := bt\<rparr>) \<and>
    h < numBufs s \<and> same_table (bufTable s) bt"
proof -
  obtain found left s' where run: "allocBuf_loop (2 * numBufs s) s = (found, left, s')"
    by (metis prod_cases3)
  have wf: "0 < numBufs s" "length (bufTable s) = numBufs s" "clockHand s < numBufs s"
    using pool_okD [OF inv] by simp_all
  obtain h bs bt where L: "h < numBufs s" "same_table (bufTable s) bt"
    "(\<exists>k < numBufs s. usable (bufTable s ! k)) \<longleftrightarrow> found \<or> left > 0"
    "s' = (if found then s\<lparr>clockHand := h, bufStats := bs, bufTable := bt,
         hashTable := snd (BufHashTbl_remove (hashTable s) (bd_file (bt ! h)) (bd_pageNo (bt ! h)))\<rparr>
       else s\<lparr>clockHand := h, bufStats := bs, bufTable := bt\<rparr>)"
    by (rule loop_spec [OF wf run])
  then show ?thesis using full run by (auto simp: allocBuf_def)
qed

lemma allocBuf_free:
  assumes inv: "pool_ok {} s" and coh: "coherent {} s" and some: "\<exists>k < numBufs s. usable (bufTable s ! k)"
  obtains h s' where "allocBuf s = Some (OK, Some h, s')" "h < numBufs s" "usable (bufTable s ! h)"
    "pool_ok {h} s'" "coherent {h} s'" "page_of s' = page_of s" "numBufs s' = numBufs s"
    "same_table (bufTable s) (bufTable s')" "bufPool s' = bufPool s" "wrote_cached s s'"
proof -
  obtain found left s1 where run: "allocBuf_loop (2 * numBufs s) s = (found, left, s1)"
    by (metis prod_cases3)
  have wf: "0 < numBufs s" "length (bufTable s) = numBufs s" "clockHand s < numBufs s"
    using pool_okD [OF inv] by simp_all
  obtain h bs bt where L: "h < numBufs s" "same_table (bufTable s) bt" "found \<or> left > 0"
    "s1 = (if found then s\<lparr>clockHand := h, bufStats := bs, bufTable := bt,
         hashTable := snd (BufHashTbl_remove (hashTable s) (bd_file (bt ! h)) (bd_pageNo (bt ! h)))\<rparr>
       else s\<lparr>clockHand := h, bufStats := bs, bufTable := bt\<rparr>)"
    "found \<longrightarrow> valid (bt ! h) \<and> pinCnt (bt ! h) = 0" "\<not> found \<and> 0 < left \<longrightarrow> \<not> valid (bt ! h)"
    using loop_spec [OF wf run] some by metis
  let ?s0 = "s\<lparr>clockHand := h, bufStats := bs, bufTable := bt\<rparr>"
  let ?f = "bd_file (bt ! h)" and ?no = "bd_pageNo (bt ! h)"
  note S = pool_ok_same [OF inv L(2) L(1), of bs]
  have coh0: "coherent {} ?s0" by (rule S(2) [OF coh])
  have us: "usable (bufTable s ! h)"
    using L same_desc_simps(4) [of "bufTable s ! h" "bt ! h"] wf
    by (auto simp: usable_def same_table_def)
  have desc: "desc_ok ?s0 (bt ! h)" using pool_ok_desc [OF S(1), of h] L(1) by simp
  show thesis
  proof (cases found)
    case False
    then have "\<not> valid (bt ! h)" "left > 0" using L by auto
    moreover have "\<not> dirty (bt ! h)" using desc calculation by (simp add: desc_ok_def)
    ultimately have run': "allocBuf s = Some (OK, Some h, ?s0)"
      using False L(4) by (simp add: allocBuf_def run)
    have "pool_ok {h} ?s0"
      using S(1) \<open>\<not> valid (bt ! h)\<close> L(1) by (auto simp: pool_ok_def in_frame_def)
    moreover have "coherent {h} ?s0" using coh0 by (simp add: coherent_def)
    ultimately show thesis using that [OF run' L(1) us] S(3) L(2) by simp
  next
    case True
    have v: "valid (bt ! h)" using True L by simp
    have fr: "in_frame (bufTable ?s0 ! h) ?f ?no" using v by (simp add: in_frame_def)
    note E = pool_ok_evict [OF S(1) _ fr]
    have s1: "s1 = ?s0\<lparr>hashTable := snd (BufHashTbl_remove (hashTable ?s0) ?f ?no)\<rparr>"
      using True L(4) by simp
    have ok1: "pool_ok {h} s1" and map1: "bht_map (hashTable s1) = (bht_map (hashTable s))((?f, ?no) := None)"
      using E L(1) s1 by simp_all
    have coh1: "coherent {h} s1" using coh0 by (simp add: coherent_def s1)
    have at: "bht_map (hashTable s) (?f, ?no) = Some (int h)"
      using in_frame_map [OF S(1) _ _ fr] L(1) by simp
    have pg: "disk_page s1 ?f ?no \<noteq> None" using desc v by (simp add: desc_ok_def s1)
    show thesis
    proof (cases "dirty (bt ! h)")
      case False
      then have run': "allocBuf s = Some (OK, Some h, s1)"
        using True L(4) by (simp add: allocBuf_def run Let_def)
      have "desc_coherent ?s0 (bt ! h) (bufPool s ! h)"
        using coh0 L(1) by (simp add: coherent_def)
      then have "disk_page s ?f ?no = Some (bufPool s ! h)"
        using v False True L(5) by (simp add: desc_coherent_def)
      then have "page_of s1 = page_of s"
        using at map1 by (auto simp: page_of_def fun_eq_iff s1 split: option.splits)
      then show thesis using that [OF run' L(1) us ok1 coh1] L(2) by (simp add: s1)
    next
      case dt: True
      let ?s2 = "s1\<lparr>bufStats := (bufStats s1)\<lparr>diskwrites := diskwrites (bufStats s1) + 1\<rparr>\<rparr>"
      have io: "io_inv ?s2" using pool_okD [OF ok1] by simp
      have pg2: "disk_page ?s2 ?f ?no \<noteq> None" using pg by simp
      obtain d where W: "File_writePage ?s2 ?f ?no (bufPool s ! h) = Some (OK, ?s2\<lparr>disk := d\<rparr>)"
        "\<And>g. file_pages (?s2\<lparr>disk := d\<rparr>) g = (if g = ?f
           then map_option (\<lambda>ps. ps[nat ?no := bufPool s ! h]) (file_pages ?s2 g) else file_pages ?s2 g)"
        "\<And>g q. disk_page (?s2\<lparr>disk := d\<rparr>) g q =
           (if g = ?f \<and> q = ?no then Some (bufPool s ! h) else disk_page ?s2 g q)"
        by (rule writePage_disk [OF io pg2, where p = "bufPool s ! h"]) (rule that)
      define s3 where "s3 = ?s2\<lparr>disk := d\<rparr>"
      have run': "allocBuf s = Some (OK, Some h, s3)"
        using True L(4) dt W(1) by (simp add: allocBuf_def run Let_def s3_def)
      have f3: "bufTable s3 = bt" "bufPool s3 = bufPool s" "numBufs s3 = numBufs s" "files s3 = files s"
        "hashTable s3 = hashTable s1" "file_name s3 = file_name s"
        by (simp_all add: s3_def s1 fun_eq_iff)
      have dp: "disk_page s3 g q = (if g = ?f \<and> q = ?no then Some (bufPool s ! h) else disk_page s g q)" for g q
        using W(3) [of g q] by (simp add: s3_def s1)
      have fp: "file_pages s3 g = (if g = ?f then map_option (\<lambda>ps. ps[nat ?no := bufPool s ! h]) (file_pages s g)
          else file_pages s g)" for g
        using W(2) [of g] by (simp add: s3_def s1)
      have "pool_ok {h} ?s2" using ok1 by (simp add: pool_ok_def)
      then have ok3: "pool_ok {h} s3"
        unfolding s3_def by (rule pool_ok_disk) (use W(3) pg2 in \<open>auto split: if_splits\<close>)
      have other: "\<not> in_frame (bt ! i) ?f ?no" if "i < numBufs s" "i \<noteq> h" for i
        using in_frame_map [OF S(1) _ _ , of i ?f ?no] that at by auto
      have coh3: "coherent {h} s3"
        unfolding coherent_def f3
      proof (intro allI impI)
        fix i assume i: "i < numBufs s" "i \<notin> {h}"
        then have "desc_coherent ?s0 (bt ! i) (bufPool s ! i)" using coh0 by (simp add: coherent_def)
        then show "desc_coherent s3 (bt ! i) (bufPool s ! i)"
          using other [of i] i by (auto simp: desc_coherent_def dp in_frame_def)
      qed
      have page: "page_of s3 = page_of s"
        using at map1 by (auto simp: page_of_def fun_eq_iff dp f3 split: option.splits)
      have "in_frame (bufTable s ! h) ?f ?no"
        using fr same_desc_simps(3) [of "bufTable s ! h" "bt ! h"] L(1,2) wf by (simp add: same_table_def)
      moreover obtain ps where "file_pages s ?f = Some ps"
        using pg by (auto simp: s1 disk_page_Some)
      ultimately have wr: "\<exists>no pg ps i. i < numBufs s \<and> usable (bufTable s ! i) \<and> in_frame (bufTable s ! i) ?f no \<and>
        file_pages s ?f = Some ps \<and> file_pages s3 ?f = Some (ps[nat no := pg])"
        using L(1) us by (intro exI [of _ ?no] exI [of _ "bufPool s ! h"] exI [of _ ps] exI [of _ h])
          (simp add: fp)
      have "wrote_cached s s3"
        unfolding wrote_cached_def f3 using wr fp by (intro conjI allI refl) metis
      then show thesis
        using that [OF run' L(1) us ok3 coh3 page] L(2) by (simp add: f3)
    qed
  qed
qed

section \<open>Pins\<close>

definition pin_of :: "'z pool_scheme \<Rightarrow> fptr \<Rightarrow> int \<Rightarrow> int" where
  "pin_of s f no = (case bht_map (hashTable s) (f, no) of
      Some i \<Rightarrow> pinCnt (bufTable s ! nat i) | None \<Rightarrow> 0)"

lemma pin_of_same_table:
  assumes ok: "pool_ok {} s" and same: "same_table (bufTable s) (bufTable s')" and h: "hashTable s' = hashTable s"
  shows "pin_of s' = pin_of s"
proof -
  have "pinCnt (bufTable s' ! nat i) = pinCnt (bufTable s ! nat i)" if "bht_map (hashTable s) (f, no) = Some i" for f no i
    using that same pool_okD [OF ok] pool_ok_map [OF ok] by (auto simp: same_table_def dest: same_descD)
  then show ?thesis using h by (auto simp: pin_of_def fun_eq_iff split: option.splits)
qed

lemma pin_of_evicted:
  assumes ok: "pool_ok {} s" and ok': "pool_ok {h} s'" and us: "usable (bufTable s ! h)"
    and same: "same_table (bufTable s) (bufTable s')" and n: "numBufs s' = numBufs s"
  shows "pin_of s' = pin_of s"
proof (intro ext)
  fix f no
  have sd: "same_desc (bufTable s ! i) (bufTable s' ! i)" if "i < numBufs s" for i
    using same pool_okD [OF ok] that by (simp add: same_table_def)
  show "pin_of s' f no = pin_of s f no"
  proof (cases "bht_map (hashTable s) (f, no)")
    case None
    then have "bht_map (hashTable s') (f, no) = None"
      using pool_ok_map [OF ok', of f no] pool_ok_map [OF ok, of f no] n same_desc_simps(3) [OF sd]
      by (metis not_Some_eq singletonI empty_iff)
    then show ?thesis using None by (simp add: pin_of_def)
  next
    case (Some i)
    then have i: "0 \<le> i" "nat i < numBufs s" "in_frame (bufTable s ! nat i) f no"
      using pool_ok_map [OF ok] by auto
    note d = same_descD [OF sd [OF i(2)]] same_desc_simps(3) [OF sd [OF i(2)]]
    show ?thesis
    proof (cases "nat i = h")
      case True
      have "bht_map (hashTable s') (f, no) = None"
      proof (rule ccontr)
        assume "bht_map (hashTable s') (f, no) \<noteq> None"
        then obtain j where j: "0 \<le> j" "nat j < numBufs s" "nat j \<noteq> h" "in_frame (bufTable s' ! nat j) f no"
          using pool_ok_map [OF ok', of f no] n by auto
        then have "in_frame (bufTable s ! nat j) f no" using same_desc_simps(3) [OF sd [OF j(2)]] by simp
        then have "bht_map (hashTable s) (f, no) = Some j" using pool_ok_map [OF ok, of f no j] j by simp
        then show False using Some j True by simp
      qed
      moreover have "pinCnt (bufTable s ! h) = 0" using us i True by (simp add: usable_def in_frame_def)
      ultimately show ?thesis using Some True by (simp add: pin_of_def)
    next
      case False
      then have "bht_map (hashTable s') (f, no) = Some i"
        using i d n pool_ok_map [OF ok', of f no i] by simp
      then show ?thesis using Some d by (simp add: pin_of_def)
    qed
  qed
qed

lemma pool_ok_upd_desc:
  fixes s :: "'z pool_scheme" and d' :: BufDesc
  assumes ok: "pool_ok X s" and i: "i < numBufs s"
    and d': "bd_file d' = bd_file (bufTable s ! i)" "bd_pageNo d' = bd_pageNo (bufTable s ! i)"
      "bd_frameNo d' = bd_frameNo (bufTable s ! i)" "valid d' = valid (bufTable s ! i)"
      "valid d' \<longrightarrow> 0 \<le> pinCnt d'" "\<not> valid d' \<longrightarrow> \<not> dirty d'"
  defines "s' \<equiv> s\<lparr>bufTable := (bufTable s)[i := d']\<rparr>"
  shows "pool_ok X s'" and "page_of s' = page_of s"
    and "coherent X s \<Longrightarrow> (valid d' \<and> \<not> dirty d' \<and> pinCnt d' = 0 \<Longrightarrow>
      disk_page s (bd_file d') (bd_pageNo d') = Some (bufPool s ! i)) \<Longrightarrow> coherent X s'"
    and "in_frame (bufTable s ! i) f no \<Longrightarrow> i \<notin> X \<Longrightarrow>
      pin_of s' = (\<lambda>g q. if g = f \<and> q = no then pinCnt d' else pin_of s g q)"
proof -
  have len: "length (bufTable s) = numBufs s" using ok by (simp add: pool_ok_def)
  have fr: "in_frame ((bufTable s)[i := d'] ! j) = in_frame (bufTable s ! j)" for j
    using d' len i by (cases "j = i") (simp_all add: in_frame_def fun_eq_iff)
  have ds: "desc_ok s ((bufTable s)[i := d'] ! j)" if "j < numBufs s" "j \<notin> X" for j
    using pool_ok_desc [OF ok that] d' len i by (cases "j = i") (auto simp: desc_ok_def split: if_splits)
  have fn: "bd_frameNo ((bufTable s)[i := d'] ! j) = int j" if "j < numBufs s" for j
    using that d'(3) ok i len by (cases "j = i") (simp_all add: pool_ok_def)
  show "pool_ok X s'"
    using ok fr ds fn len by (simp add: pool_ok_def s'_def)
  show "page_of s' = page_of s"
    by (auto simp: page_of_def fun_eq_iff s'_def split: option.splits)
  show "coherent X s'" if "coherent X s"
    "valid d' \<and> \<not> dirty d' \<and> pinCnt d' = 0 \<Longrightarrow> disk_page s (bd_file d') (bd_pageNo d') = Some (bufPool s ! i)"
    using that len i by (auto simp: coherent_def s'_def nth_list_update desc_coherent_def)
  show "pin_of s' = (\<lambda>g q. if g = f \<and> q = no then pinCnt d' else pin_of s g q)"
    if "in_frame (bufTable s ! i) f no" "i \<notin> X"
  proof (intro ext)
    fix g q
    have at: "bht_map (hashTable s) (f, no) = Some (int i)"
      using in_frame_map [OF ok i that(2,1)] .
    have "nat j \<noteq> i" if "bht_map (hashTable s) (g, q) = Some j" "(g, q) \<noteq> (f, no)" for j
      using that \<open>in_frame (bufTable s ! i) f no\<close> pool_ok_map [OF ok, of g q j] by (auto simp: in_frame_def)
    then show "pin_of s' g q = (if g = f \<and> q = no then pinCnt d' else pin_of s g q)"
      using at i len by (auto simp: pin_of_def s'_def nth_list_update split: option.splits)
  qed
qed

section \<open>readPage\<close>

lemma allocBuf_result:
  assumes inv: "pool_ok {} s" and coh: "coherent {} s"
  obtains s' where "allocBuf s = Some (BUFFEREXCEEDED, None, s')" "\<forall>k < numBufs s. \<not> usable (bufTable s ! k)"
    "pool_ok {} s'" "coherent {} s'" "page_of s' = page_of s" "pin_of s' = pin_of s" "wrote_cached s s'"
    "numBufs s' = numBufs s" "same_table (bufTable s) (bufTable s')" "bufPool s' = bufPool s"
  | h s' where "allocBuf s = Some (OK, Some h, s')" "h < numBufs s" "usable (bufTable s ! h)"
    "pool_ok {h} s'" "coherent {h} s'" "page_of s' = page_of s" "pin_of s' = pin_of s"
    "wrote_cached s s'" "numBufs s' = numBufs s" "bufPool s' = bufPool s" "same_table (bufTable s) (bufTable s')"
proof (cases "\<exists>k < numBufs s. usable (bufTable s ! k)")
  case True
  from allocBuf_free [OF inv coh True] obtain h s' where
    "allocBuf s = Some (OK, Some h, s')" "h < numBufs s" "usable (bufTable s ! h)"
    "pool_ok {h} s'" "coherent {h} s'" "page_of s' = page_of s" "numBufs s' = numBufs s"
    "same_table (bufTable s) (bufTable s')" "bufPool s' = bufPool s" "wrote_cached s s'"
    by metis
  with that(2) pin_of_evicted [OF inv this(4,3,8,7)] show thesis by metis
next
  case False
  then obtain h bs bt where A: "allocBuf s = Some (BUFFEREXCEEDED, None, s\<lparr>clockHand := h, bufStats := bs, bufTable := bt\<rparr>)"
    "h < numBufs s" "same_table (bufTable s) bt"
    using allocBuf_full [OF inv] by blast
  let ?s = "s\<lparr>clockHand := h, bufStats := bs, bufTable := bt\<rparr>"
  note S = pool_ok_same [OF inv A(3,2), of bs]
  have "pin_of ?s = pin_of s" using A(3) by (intro pin_of_same_table [OF inv]) simp_all
  then show thesis using that(1) [OF A(1)] False S S(2) [OF coh] A(3) by simp
qed

lemma wrote_cached_stats [simp]:
  "wrote_cached s (s'\<lparr>bufStats := b\<rparr>) = wrote_cached s s'" "wrote_cached s (s'\<lparr>hashTable := t\<rparr>) = wrote_cached s s'"
  "wrote_cached s (s'\<lparr>bufTable := bt\<rparr>) = wrote_cached s s'" "wrote_cached s (s'\<lparr>bufPool := bp\<rparr>) = wrote_cached s s'"
  by (simp_all add: wrote_cached_def fun_eq_iff)

lemma wrote_cached_refl [simp]: "wrote_cached s s"
  by (simp add: wrote_cached_def)

lemma wrote_cached_open: "wrote_cached s s' \<Longrightarrow> file_pages s f \<noteq> None \<Longrightarrow> file_pages s' f \<noteq> None"
  by (auto simp: wrote_cached_def dest: spec [of _ f])

lemma lookup_pool: "BufHashTbl_lookup t f no 0 =
    (case bht_map t (f, no) of Some i \<Rightarrow> (OK, i) | None \<Rightarrow> (HASHNOTFOUND, 0))"
  by (simp add: lookup_bht_map)

lemma pool_ok_stats [simp]: "pool_ok X (s\<lparr>bufStats := b\<rparr>) = pool_ok X s" "coherent X (s\<lparr>bufStats := b\<rparr>) = coherent X s"
  "page_of (s\<lparr>bufStats := b\<rparr>) = page_of s" "pin_of (s\<lparr>bufStats := b\<rparr>) = pin_of s"
  by (auto simp: pool_ok_def coherent_def page_of_def pin_of_def fun_eq_iff split: option.splits)


text \<open>A page that is cached is pinned once more.\<close>

lemma readPage_hit:
  assumes inv: "pool_ok {} s" and coh: "coherent {} s" and at: "bht_map (hashTable s) (f, no) = Some i"
  obtains s' where "readPage s f no = Some (OK, Some (nat i), s')" "nat i < numBufs s"
    "pool_ok {} s'" "coherent {} s'" "page_of s' = page_of s"
    "pin_of s' = (\<lambda>g q. if g = f \<and> q = no then pin_of s g q + 1 else pin_of s g q)"
    "hashTable s' = hashTable s" "bufPool s' = bufPool s" "wrote_cached s s'" "disk_page s' = disk_page s"
proof -
  have i: "0 \<le> i" "nat i < numBufs s" "in_frame (bufTable s ! nat i) f no"
    using pool_ok_map [OF inv] at by auto
  let ?d = "bufTable s ! nat i"
  let ?d' = "?d\<lparr>refbit := True, pinCnt := pinCnt ?d + 1\<rparr>"
  have ok: "desc_ok s ?d" using pool_ok_desc [OF inv i(2)] by simp
  then have pin: "0 \<le> pinCnt ?d" using i by (simp add: desc_ok_def in_frame_def)
  have d': "bd_file ?d' = bd_file ?d" "bd_pageNo ?d' = bd_pageNo ?d" "bd_frameNo ?d' = bd_frameNo ?d"
    "valid ?d' = valid ?d" "valid ?d' \<longrightarrow> 0 \<le> pinCnt ?d'" "\<not> valid ?d' \<longrightarrow> \<not> dirty ?d'"
    using ok i pin by (simp_all add: desc_ok_def in_frame_def)
  note U = pool_ok_upd_desc [OF inv i(2) d']
  have "coherent {} (s\<lparr>bufTable := (bufTable s)[nat i := ?d']\<rparr>)"
    by (rule U(3) [OF coh]) (use pin in auto)
  then show thesis
    using that [of "s\<lparr>bufTable := (bufTable s)[nat i := ?d']\<rparr>"] U(1,2) U(4) [OF i(3)] i at
    by (simp add: readPage_def lookup_pool Let_def pin_of_def [of s f no] fun_eq_iff)
qed

lemma pool_ok_fill_page:
  fixes q :: page
  assumes ok: "pool_ok {h} s" and coh: "coherent {h} s" and h: "h < numBufs s"
    and new: "bht_map (hashTable s) (f, no) = None" and pg: "disk_page s f no = Some pg"
    and ins: "BufHashTbl_insert (hashTable s) f no (int h) = (st, t)"
  defines "s' \<equiv> s\<lparr>bufPool := (bufPool s)[h := q], bufTable := (bufTable s)[h := BufDesc_Set (bufTable s ! h) f no],
                  hashTable := t\<rparr>"
  shows "st = OK" and "pool_ok {} s'" and "coherent {} s'"
    and "page_of s' = (\<lambda>g n. if g = f \<and> n = no then Some q else page_of s g n)"
    and "pin_of s' = (\<lambda>g n. if g = f \<and> n = no then 1 else pin_of s g n)"
    and "bht_map t = (bht_map (hashTable s))((f, no) \<mapsto> int h)"
proof -
  let ?s = "s\<lparr>bufPool := (bufPool s)[h := q]\<rparr>"
  have wf: "length (bufPool s) = numBufs s" "length (bufTable s) = numBufs s" using ok by (simp_all add: pool_ok_def)
  have a: "pool_ok {h} ?s" using ok by (simp add: pool_ok_def)
  have c: "coherent {h} ?s" using coh by (simp add: coherent_def)
  have b: "h < numBufs ?s" "bht_map (hashTable ?s) (f, no) = None" "disk_page ?s f no \<noteq> None"
    "BufHashTbl_insert (hashTable ?s) f no (int h) = (st, t)"
    using h new pg ins by simp_all
  note F = pool_ok_fill [OF a b]
  show "st = OK" by (rule F(1))
  show "pool_ok {} s'" "coherent {} s'" using F(2) F(4) [OF c] by (simp_all add: s'_def)
  show m: "bht_map t = (bht_map (hashTable s))((f, no) \<mapsto> int h)" using F(3) by simp
  have ne: "nat i \<noteq> h" if "bht_map (hashTable s) (g, n) = Some i" for g n i
    using pool_ok_map [OF ok, of g n i] that by auto
  have kept: "(bufPool s)[h := q] ! nat i = bufPool s ! nat i" "(bufTable s)[h := d] ! nat i = bufTable s ! nat i"
    if "bht_map (hashTable s) (g, n) = Some i" for g n i d
    using ne [OF that] by simp_all
  show "page_of s' = (\<lambda>g n. if g = f \<and> n = no then Some q else page_of s g n)"
    using wf h by (intro ext) (auto simp: page_of_def s'_def m kept split: option.splits)
  show "pin_of s' = (\<lambda>g n. if g = f \<and> n = no then 1 else pin_of s g n)"
    using wf h by (intro ext) (auto simp: pin_of_def s'_def m BufDesc_Set_def kept split: option.splits)
qed

lemma page_of_uncached:
  "bht_map (hashTable s) (f, no) = None \<Longrightarrow> page_of s f no = disk_page s f no"
  by (simp add: page_of_def)

lemma evicted_uncached:
  assumes ok: "pool_ok {} s" and ok': "pool_ok {h} s'" and n: "numBufs s' = numBufs s"
    and same: "same_table (bufTable s) (bufTable s')" and none: "bht_map (hashTable s) (f, no) = None"
  shows "bht_map (hashTable s') (f, no) = None"
proof (rule ccontr)
  assume "bht_map (hashTable s') (f, no) \<noteq> None"
  then obtain j where j: "0 \<le> j" "nat j < numBufs s" "in_frame (bufTable s' ! nat j) f no"
    using pool_ok_map [OF ok', of f no] n by auto
  have "same_desc (bufTable s ! nat j) (bufTable s' ! nat j)"
    using same j pool_okD [OF ok] by (simp add: same_table_def)
  then have "in_frame (bufTable s ! nat j) f no" using j same_desc_simps(3) by metis
  then show False using pool_ok_map [OF ok, of f no j] j none by simp
qed

text \<open>readPage of a page that exists: it hands out the page, or finds every frame pinned.\<close>

lemma readPage_spec:
  assumes inv: "pool_ok {} s" and coh: "coherent {} s" and pg: "page_of s f no = Some pg"
  obtains s' where "readPage s f no = Some (BUFFEREXCEEDED, None, s')"
    "\<forall>k < numBufs s. \<not> usable (bufTable s ! k)" "bht_map (hashTable s) (f, no) = None"
    "pool_ok {} s'" "coherent {} s'" "page_of s' = page_of s" "pin_of s' = pin_of s" "wrote_cached s s'"
    "numBufs s' = numBufs s"
  | i s' where "readPage s f no = Some (OK, Some i, s')" "pool_ok {} s'" "coherent {} s'"
    "page_of s' = page_of s" "bht_map (hashTable s') (f, no) = Some (int i)" "bufPool s' ! i = pg"
    "pin_of s' = (\<lambda>g q. if g = f \<and> q = no then pin_of s g q + 1 else pin_of s g q)" "wrote_cached s s'"
    "numBufs s' = numBufs s" "pin_of s f no = 0 \<longrightarrow> dirty (bufTable s' ! i) \<or> disk_page s' f no = Some pg"
proof (cases "bht_map (hashTable s) (f, no)")
  case (Some i)
  obtain s' where H: "readPage s f no = Some (OK, Some (nat i), s')" "nat i < numBufs s"
    "pool_ok {} s'" "coherent {} s'" "page_of s' = page_of s"
    "pin_of s' = (\<lambda>g q. if g = f \<and> q = no then pin_of s g q + 1 else pin_of s g q)"
    "hashTable s' = hashTable s" "bufPool s' = bufPool s" "wrote_cached s s'" "disk_page s' = disk_page s"
    by (rule readPage_hit [OF inv coh Some])
  have i: "0 \<le> i" "nat i < numBufs s" "in_frame (bufTable s ! nat i) f no"
    using pool_ok_map [OF inv] Some by auto
  have tab: "bufTable s' = (bufTable s)[nat i := (bufTable s ! nat i)
      \<lparr>refbit := True, pinCnt := pinCnt (bufTable s ! nat i) + 1\<rparr>]" "numBufs s' = numBufs s"
    using H(1) Some by (auto simp: readPage_def lookup_pool Let_def)
  have pool: "bufPool s ! nat i = pg" using pg Some by (simp add: page_of_def)
  have "pin_of s f no = 0 \<longrightarrow> dirty (bufTable s' ! nat i) \<or> disk_page s' f no = Some pg"
  proof
    assume "pin_of s f no = 0"
    then have "pinCnt (bufTable s ! nat i) = 0" using Some by (simp add: pin_of_def)
    then have "dirty (bufTable s ! nat i) \<or> disk_page s f no = Some pg"
      using coh i pool by (auto simp: coherent_def desc_coherent_def in_frame_def)
    then show "dirty (bufTable s' ! nat i) \<or> disk_page s' f no = Some pg"
      using i pool_okD [OF inv] H(10) by (simp add: tab)
  qed
  then show thesis
    using that(2) [OF H(1,3,4,5)] H i Some pool tab by simp
next
  case None
  then have dp: "disk_page s f no = Some pg" using pg by (simp add: page_of_def)
  from inv coh show thesis
  proof (cases rule: allocBuf_result)
    case (1 s')
    have "readPage s f no = Some (BUFFEREXCEEDED, None, s')"
      using None 1(1) by (simp add: readPage_def lookup_pool)
    from that(1) [OF this 1(2) None 1(3-8)] show thesis .
  next
    case (2 h s1)
    have none1: "bht_map (hashTable s1) (f, no) = None"
      by (rule evicted_uncached [OF inv 2(4,9,11) None])
    have dp1: "disk_page s1 f no = Some pg"
      using pg 2(6) none1 by (metis page_of_uncached)
    let ?s1 = "s1\<lparr>bufStats := (bufStats s1)\<lparr>diskreads := diskreads (bufStats s1) + 1\<rparr>\<rparr>"
    obtain st t where ins: "BufHashTbl_insert (hashTable ?s1) f no (int h) = (st, t)" by (metis surj_pair)
    have a: "pool_ok {h} ?s1" "coherent {h} ?s1" "h < numBufs ?s1"
      "bht_map (hashTable ?s1) (f, no) = None" "disk_page ?s1 f no = Some pg"
      using 2 none1 dp1 by simp_all
    note F = pool_ok_fill_page [OF a ins]
    let ?s' = "?s1\<lparr>bufPool := (bufPool ?s1)[h := pg],
      bufTable := (bufTable ?s1)[h := BufDesc_Set (bufTable ?s1 ! h) f no], hashTable := t\<rparr>"
    have rd: "File_readPage ?s1 f no = Some (OK, Some pg)"
      using readPage_disk [of ?s1 f no] dp1 by (auto simp: disk_page_Some)
    have run: "readPage s f no = Some (OK, Some h, ?s')"
      using None 2(1) rd ins F(1) by (simp add: readPage_def lookup_pool Let_def)
    have pin0: "pin_of s f no = 0" using None by (simp add: pin_of_def)
    have page: "page_of ?s' = page_of s"
      unfolding F(4) using 2(6) pg by (auto simp: fun_eq_iff)
    have pin: "pin_of ?s' = (\<lambda>g q. if g = f \<and> q = no then pin_of s g q + 1 else pin_of s g q)"
      unfolding F(5) using 2(7) pin0 by (auto simp: fun_eq_iff)
    have "bufPool ?s' ! h = pg" using 2 pool_okD [OF inv] by simp
    moreover have "wrote_cached s ?s'" "disk_page ?s' f no = Some pg"
      using 2(8) dp1 by simp_all
    ultimately show thesis
      using that(2) [OF run F(2,3) page _ _ pin] F(6) 2(9) by simp
  qed
qed


section \<open>unPinPage and writes through a page pointer\<close>

lemma unPinPage_spec:
  assumes inv: "pool_ok {} s" and coh: "coherent {} s" and at: "bht_map (hashTable s) (f, no) = Some i"
    and pin: "0 < pin_of s f no"
    and clean: "1 < pin_of s f no \<or> dirt \<or> dirty (bufTable s ! nat i) \<or> disk_page s f no = page_of s f no"
  obtains s' where "unPinPage s f no dirt = (OK, s')" "pool_ok {} s'" "coherent {} s'"
    "page_of s' = page_of s" "pin_of s' = (\<lambda>g q. if g = f \<and> q = no then pin_of s g q - 1 else pin_of s g q)"
    "hashTable s' = hashTable s" "numBufs s' = numBufs s" "disk_page s' = disk_page s" "wrote_cached s s'"
proof -
  have i: "0 \<le> i" "nat i < numBufs s" "in_frame (bufTable s ! nat i) f no"
    using pool_ok_map [OF inv] at by auto
  let ?d = "bufTable s ! nat i"
  let ?d' = "(if dirt then ?d\<lparr>dirty := True\<rparr> else ?d)\<lparr>pinCnt := pinCnt ?d - 1\<rparr>"
  have pc: "pinCnt ?d = pin_of s f no" using at by (simp add: pin_of_def)
  have d': "bd_file ?d' = bd_file ?d" "bd_pageNo ?d' = bd_pageNo ?d" "bd_frameNo ?d' = bd_frameNo ?d"
    "valid ?d' = valid ?d" "valid ?d' \<longrightarrow> 0 \<le> pinCnt ?d'" "\<not> valid ?d' \<longrightarrow> \<not> dirty ?d'"
    using i pin pc by (simp_all add: in_frame_def)
  note U = pool_ok_upd_desc [OF inv i(2) d']
  have "coherent {} (s\<lparr>bufTable := (bufTable s)[nat i := ?d']\<rparr>)"
    by (rule U(3) [OF coh]) (use clean pc i at in \<open>auto simp: in_frame_def page_of_def split: if_splits\<close>)
  moreover have "unPinPage s f no dirt = (OK, s\<lparr>bufTable := (bufTable s)[nat i := ?d']\<rparr>)"
    using at pin pc by (simp add: unPinPage_def lookup_pool Let_def)
  ultimately show thesis
    using that [of "s\<lparr>bufTable := (bufTable s)[nat i := ?d']\<rparr>"] U(1,2) U(4) [OF i(3)] pc
    by (simp add: fun_eq_iff)
qed

lemma unPinPage_absent:
  "bht_map (hashTable s) (f, no) = None \<Longrightarrow> unPinPage s f no dirt = (HASHNOTFOUND, s)"
  by (simp add: unPinPage_def lookup_pool Let_def)

lemma unPinPage_unpinned:
  "bht_map (hashTable s) (f, no) = Some i \<Longrightarrow> pin_of s f no = 0 \<Longrightarrow>
   fst (unPinPage s f no dirt) = PAGENOTPINNED"
  by (simp add: unPinPage_def lookup_pool Let_def pin_of_def)

definition pool_write :: "'z pool_scheme \<Rightarrow> nat \<Rightarrow> page \<Rightarrow> 'z pool_scheme" where
  "pool_write s i pg = s\<lparr>bufPool := (bufPool s)[i := pg]\<rparr>"

lemma pool_write_spec:
  assumes inv: "pool_ok {} s" and coh: "coherent {} s" and at: "bht_map (hashTable s) (f, no) = Some i"
    and pin: "0 < pin_of s f no"
  shows "pool_ok {} (pool_write s (nat i) pg)" "coherent {} (pool_write s (nat i) pg)"
    "page_of (pool_write s (nat i) pg) = (\<lambda>g q. if g = f \<and> q = no then Some pg else page_of s g q)"
    "pin_of (pool_write s (nat i) pg) = pin_of s"
proof -
  have i: "0 \<le> i" "nat i < numBufs s" "in_frame (bufTable s ! nat i) f no"
    using pool_ok_map [OF inv] at by auto
  have len: "length (bufPool s) = numBufs s" using pool_okD [OF inv] by simp
  show "pool_ok {} (pool_write s (nat i) pg)" using inv by (simp add: pool_ok_def pool_write_def)
  have "0 < pinCnt (bufTable s ! nat i)" using pin at by (simp add: pin_of_def)
  then show "coherent {} (pool_write s (nat i) pg)"
    using coh len i by (auto simp: coherent_def pool_write_def nth_list_update desc_coherent_def)
  have ne: "(bufPool s)[nat i := pg] ! nat j = bufPool s ! nat j"
    if "bht_map (hashTable s) (g, q) = Some j" "g \<noteq> f \<or> q \<noteq> no" for g q j
    using pool_ok_map [OF inv, of g q j] that i by (cases "nat j = nat i") (auto simp: in_frame_def)
  show "page_of (pool_write s (nat i) pg) = (\<lambda>g q. if g = f \<and> q = no then Some pg else page_of s g q)"
    using at len i ne by (intro ext) (auto simp: page_of_def pool_write_def split: option.splits)
  show "pin_of (pool_write s (nat i) pg) = pin_of s"
    by (auto simp: pin_of_def pool_write_def fun_eq_iff split: option.splits)
qed

section \<open>flushFile\<close>

definition drop_desc :: "BufDesc \<Rightarrow> BufDesc" where
  "drop_desc d = d\<lparr>dirty := False, bd_file := 0, bd_pageNo := -1, valid := False\<rparr>"

lemma pool_ok_drop:
  assumes ok: "pool_ok {h} s" and h: "h < numBufs s"
    and d: "\<not> valid d" "\<not> dirty d" "bd_file d = 0" "bd_frameNo d = int h"
  shows "pool_ok {} (s\<lparr>bufTable := (bufTable s)[h := d]\<rparr>)"
proof -
  have wf: "length (bufTable s) = numBufs s" using pool_okD [OF ok] by simp
  have fr: "in_frame ((bufTable s)[h := d] ! i) f no \<longleftrightarrow> i \<noteq> h \<and> in_frame (bufTable s ! i) f no"
    if "i < numBufs s" for i f no
    using that wf d by (cases "i = h") (simp_all add: in_frame_def)
  have ds: "desc_ok s ((bufTable s)[h := d] ! i)" if "i < numBufs s" for i
    using that wf d pool_ok_desc [OF ok that] by (cases "i = h") (simp_all add: desc_ok_def)
  have fn: "bd_frameNo ((bufTable s)[h := d] ! i) = int i" if "i < numBufs s" for i
    using that wf d ok by (cases "i = h") (simp_all add: pool_ok_def)
  show ?thesis
    using ok fr ds fn by (auto simp: pool_ok_def)
qed

lemma pool_ok_evict_free:
  assumes ok: "pool_ok {} s" and coh: "coherent {} s" and h: "h < numBufs s" and fr: "in_frame (bufTable s ! h) f no"
    and d: "\<not> valid d" "\<not> dirty d" "bd_file d = 0" "bd_frameNo d = int h"
  defines "s' \<equiv> s\<lparr>hashTable := snd (BufHashTbl_remove (hashTable s) f no), bufTable := (bufTable s)[h := d]\<rparr>"
  shows "pool_ok {} s'" "coherent {} s'" "bht_map (hashTable s') = (bht_map (hashTable s))((f, no) := None)"
    "page_of s' = (\<lambda>g q. if g = f \<and> q = no then disk_page s f no else page_of s g q)"
    "pin_of s' = (\<lambda>g q. if g = f \<and> q = no then 0 else pin_of s g q)"
proof -
  let ?s = "s\<lparr>hashTable := snd (BufHashTbl_remove (hashTable s) f no)\<rparr>"
  note E = pool_ok_evict [OF ok h fr]
  have wf: "length (bufTable s) = numBufs s" using pool_okD [OF ok] by simp
  have h': "h < numBufs ?s" using h by simp
  show "pool_ok {} s'" using pool_ok_drop [OF E(1) h' d] by (simp add: s'_def)
  show "coherent {} s'"
    using coh wf h d(1) by (auto simp: coherent_def s'_def nth_list_update desc_coherent_def)
  show m: "bht_map (hashTable s') = (bht_map (hashTable s))((f, no) := None)"
    using E(2) by (simp add: s'_def)
  have at: "bht_map (hashTable s) (f, no) = Some (int h)" using in_frame_map [OF ok h _ fr] by simp
  have ne: "(bufTable s)[h := d] ! nat i = bufTable s ! nat i"
    if "bht_map (hashTable s) (g, q) = Some i" "\<not> (g = f \<and> q = no)" for g q i
    using that pool_ok_map [OF ok, of g q i] fr by (cases "nat i = h") (auto simp: in_frame_def)
  show "page_of s' = (\<lambda>g q. if g = f \<and> q = no then disk_page s f no else page_of s g q)"
    using m by (intro ext) (auto simp: page_of_def s'_def split: option.splits)
  show "pin_of s' = (\<lambda>g q. if g = f \<and> q = no then 0 else pin_of s g q)"
  proof (intro ext)
    fix g q
    show "pin_of s' g q = (if g = f \<and> q = no then 0 else pin_of s g q)"
      using ne [of g q] m by (cases "g = f \<and> q = no")
        (auto simp: pin_of_def s'_def split: option.splits)
  qed
qed

text \<open>What happens to the files: only pages of a given set change, and no file changes its length.\<close>

definition disk_changes :: "(fptr \<times> int) set \<Rightarrow> 'z pool_scheme \<Rightarrow> 'z pool_scheme \<Rightarrow> bool" where
  "disk_changes A s s' \<longleftrightarrow> file_name s' = file_name s \<and> files s' = files s \<and>
     (\<forall>g ps. file_pages s g = Some ps \<longrightarrow> (\<exists>ps'. file_pages s' g = Some ps' \<and> length ps' = length ps \<and>
        (\<forall>i < length ps. (g, int i) \<notin> A \<longrightarrow> ps' ! i = ps ! i)))"

definition cached :: "'z pool_scheme \<Rightarrow> (fptr \<times> int) set" where
  "cached s = dom (bht_map (hashTable s))"

lemma disk_changes_refl: "disk_changes A s s"
  by (simp add: disk_changes_def)

lemma disk_changes_trans:
  assumes "disk_changes A s s'" and "disk_changes A s' s''"
  shows "disk_changes A s s''"
  unfolding disk_changes_def
proof (intro conjI allI impI)
  show "file_name s'' = file_name s" "files s'' = files s" using assms by (simp_all add: disk_changes_def)
  fix g ps assume "file_pages s g = Some ps"
  then obtain ps' where p: "file_pages s' g = Some ps'" "length ps' = length ps"
    "\<forall>i < length ps. (g, int i) \<notin> A \<longrightarrow> ps' ! i = ps ! i"
    using assms(1) unfolding disk_changes_def by blast
  then obtain ps'' where "file_pages s'' g = Some ps''" "length ps'' = length ps'"
    "\<forall>i < length ps'. (g, int i) \<notin> A \<longrightarrow> ps'' ! i = ps' ! i"
    using assms(2) unfolding disk_changes_def by blast
  then show "\<exists>ps''. file_pages s'' g = Some ps'' \<and> length ps'' = length ps \<and>
      (\<forall>i < length ps. (g, int i) \<notin> A \<longrightarrow> ps'' ! i = ps ! i)"
    using p by (intro exI [of _ ps'']) simp
qed

lemma disk_changes_mono: "disk_changes A s s' \<Longrightarrow> A \<subseteq> B \<Longrightarrow> disk_changes B s s'"
  unfolding disk_changes_def by (elim conjE, intro conjI) (assumption+, fast)

lemma wrote_cached_changes:
  assumes inv: "pool_ok {} s" and w: "wrote_cached s s'"
  shows "disk_changes (cached s) s s'"
  unfolding disk_changes_def
proof (intro conjI allI impI)
  show "file_name s' = file_name s" "files s' = files s" using w by (simp_all add: wrote_cached_def)
  fix g ps assume ps: "file_pages s g = Some ps"
  show "\<exists>ps'. file_pages s' g = Some ps' \<and> length ps' = length ps \<and>
      (\<forall>i < length ps. (g, int i) \<notin> cached s \<longrightarrow> ps' ! i = ps ! i)"
  proof (cases "file_pages s' g = file_pages s g")
    case True
    then show ?thesis using ps by simp
  next
    case False
    then obtain no pg i where c: "i < numBufs s" "in_frame (bufTable s ! i) g no"
      "file_pages s' g = Some (ps[nat no := pg])"
      using w ps unfolding wrote_cached_def by (metis option.inject)
    have "(g, no) \<in> cached s" using in_frame_map [OF inv c(1) _ c(2)] by (auto simp: cached_def)
    moreover have "0 \<le> no"
      using pool_ok_desc [OF inv c(1)] c(2) by (auto simp: desc_ok_def in_frame_def disk_page_def split: option.splits if_splits)
    ultimately have "ps[nat no := pg] ! i = ps ! i" if "(g, int i) \<notin> cached s" for i
      using that by (cases "i = nat no") auto
    then show ?thesis using c(3) by simp
  qed
qed


lemma write_frame:
  assumes inv: "pool_ok {} s" and coh: "coherent {} s" and h: "h < numBufs s"
    and fr: "in_frame (bufTable s ! h) f no" and pin: "pinCnt (bufTable s ! h) = 0"
  obtains d where "File_writePage s f no (bufPool s ! h) = Some (OK, s\<lparr>disk := d\<rparr>)"
    "pool_ok {} (s\<lparr>disk := d\<rparr>)" "coherent {} (s\<lparr>disk := d\<rparr>)" "page_of (s\<lparr>disk := d\<rparr>) = page_of s"
    "pin_of (s\<lparr>disk := d\<rparr>) = pin_of s" "disk_changes (cached s) s (s\<lparr>disk := d\<rparr>)"
    "disk_page (s\<lparr>disk := d\<rparr>) f no = page_of s f no"
proof -
  have pg: "disk_page s f no \<noteq> None"
    using pool_ok_desc [OF inv h] fr by (auto simp: desc_ok_def in_frame_def)
  have at: "bht_map (hashTable s) (f, no) = Some (int h)" using in_frame_map [OF inv h _ fr] by simp
  have io: "io_inv s" using pool_okD [OF inv] by simp
  obtain d where W: "File_writePage s f no (bufPool s ! h) = Some (OK, s\<lparr>disk := d\<rparr>)"
    "\<And>g. file_pages (s\<lparr>disk := d\<rparr>) g =
       (if g = f then map_option (\<lambda>ps. ps[nat no := bufPool s ! h]) (file_pages s g) else file_pages s g)"
    "\<And>g q. disk_page (s\<lparr>disk := d\<rparr>) g q = (if g = f \<and> q = no then Some (bufPool s ! h) else disk_page s g q)"
    by (rule writePage_disk [OF io pg, where p = "bufPool s ! h"]) (rule that)
  have ok: "pool_ok {} (s\<lparr>disk := d\<rparr>)"
    by (rule pool_ok_disk [OF inv]) (use pg W(3) in \<open>auto split: if_splits\<close>)
  have other: "i = h" if "i < numBufs s" "in_frame (bufTable s ! i) f no" for i
    using in_frame_map [OF inv that(1) _ that(2)] at by simp
  have "desc_coherent (s\<lparr>disk := d\<rparr>) (bufTable s ! i) (bufPool s ! i)" if "i < numBufs s" for i
    using coh that other [OF that] by (auto simp: coherent_def desc_coherent_def W(3) in_frame_def)
  then have "coherent {} (s\<lparr>disk := d\<rparr>)" by (simp add: coherent_def)
  moreover have "page_of (s\<lparr>disk := d\<rparr>) = page_of s"
    using at by (auto simp: page_of_def fun_eq_iff W(3) split: option.splits)
  moreover have "pin_of (s\<lparr>disk := d\<rparr>) = pin_of s"
    by (auto simp: pin_of_def fun_eq_iff split: option.splits)
  moreover have "wrote_cached s (s\<lparr>disk := d\<rparr>)"
    unfolding wrote_cached_def using h fr pin pg by (auto simp: usable_def W(2) disk_page_def split: option.splits)
  moreover have "disk_page (s\<lparr>disk := d\<rparr>) f no = page_of s f no"
    using at by (simp add: W(3) page_of_def)
  ultimately show thesis
    using that [OF W(1) ok] wrote_cached_changes [OF inv] by simp
qed

definition holds_no :: "fptr \<Rightarrow> 'z pool_scheme \<Rightarrow> nat set \<Rightarrow> bool" where
  "holds_no f s I \<longleftrightarrow> (\<forall>i \<in> I. i < numBufs s \<longrightarrow> bd_file (bufTable s ! i) \<noteq> f)"

lemma disk_changes_pool [simp]:
  "disk_changes A s (s'\<lparr>hashTable := t\<rparr>) = disk_changes A s s'"
  "disk_changes A s (s'\<lparr>bufTable := bt\<rparr>) = disk_changes A s s'"
  by (simp_all add: disk_changes_def fun_eq_iff)

text \<open>One round of the loop drops one page of the file.\<close>

lemma flush_step:
  assumes inv: "pool_ok {} s" and coh: "coherent {} s" and h: "h < numBufs s"
    and fr: "in_frame (bufTable s ! h) f no" and pin: "pinCnt (bufTable s ! h) = 0"
    and same: "disk_page s f no = page_of s f no" and f: "f \<noteq> 0"
  shows "pool_ok {} (flush_drop s f h)" "coherent {} (flush_drop s f h)" "page_of (flush_drop s f h) = page_of s"
    "pin_of (flush_drop s f h) = pin_of s" "disk_changes (cached s) s (flush_drop s f h)"
    "numBufs (flush_drop s f h) = numBufs s" "cached (flush_drop s f h) \<subseteq> cached s"
    "bufTable (flush_drop s f h) = (bufTable s)[h := drop_desc (bufTable s ! h)]"
proof -
  let ?d = "drop_desc (bufTable s ! h)"
  have no: "bd_pageNo (bufTable s ! h) = no" using fr by (simp add: in_frame_def)
  have eq: "flush_drop s f h =
      s\<lparr>hashTable := snd (BufHashTbl_remove (hashTable s) f no), bufTable := (bufTable s)[h := ?d]\<rparr>"
    by (simp add: flush_drop_def drop_desc_def no Let_def)
  have d: "\<not> valid ?d" "\<not> dirty ?d" "bd_file ?d = 0" "bd_frameNo ?d = int h"
    using inv h by (simp_all add: drop_desc_def pool_ok_def)
  note E = pool_ok_evict_free [OF inv coh h fr d]
  have at: "pin_of s f no = 0"
    using in_frame_map [OF inv h _ fr] pin by (simp add: pin_of_def)
  show "pool_ok {} (flush_drop s f h)" "coherent {} (flush_drop s f h)" using E by (simp_all add: eq)
  show "page_of (flush_drop s f h) = page_of s"
    unfolding eq E(4) using same by (auto simp: fun_eq_iff)
  show "pin_of (flush_drop s f h) = pin_of s"
    unfolding eq E(5) using at by (auto simp: fun_eq_iff)
  show "disk_changes (cached s) s (flush_drop s f h)" by (simp add: eq disk_changes_refl)
  show "numBufs (flush_drop s f h) = numBufs s" by (simp add: eq)
  show "cached (flush_drop s f h) \<subseteq> cached s" using E(3) by (auto simp: eq cached_def)
  show "bufTable (flush_drop s f h) = (bufTable s)[h := ?d]" by (simp add: eq)
qed

lemma flushFile_loop_spec:
  assumes "pool_ok {} s" "coherent {} s" "f \<noteq> 0" "k \<le> numBufs s" "holds_no f s {..<k}"
  shows "\<exists>st s'. flushFile_loop f [k..<numBufs s] s = Some (st, s') \<and> pool_ok {} s' \<and> coherent {} s' \<and>
    page_of s' = page_of s \<and> pin_of s' = pin_of s \<and> disk_changes (cached s) s s' \<and> numBufs s' = numBufs s \<and>
    cached s' \<subseteq> cached s \<and> (st = OK \<and> holds_no f s' UNIV \<or> st = PAGEPINNED \<and> (\<exists>no. 0 < pin_of s f no))"
  using assms
proof (induction "numBufs s - k" arbitrary: k s)
  case 0
  then show ?case by (auto simp: disk_changes_refl holds_no_def)
next
  case (Suc n)
  then have k: "k < numBufs s" by simp
  then have cons: "[k..<numBufs s] = k # [Suc k..<numBufs s]" by (simp add: upt_rec)
  let ?d = "bufTable s ! k"
  have dok: "desc_ok s ?d" using pool_ok_desc [OF Suc.prems(1) k] by simp
  show ?case
  proof (cases "bd_file ?d = f")
    case False
    have "holds_no f s {..<Suc k}" using Suc.prems(5) False by (auto simp: holds_no_def less_Suc_eq)
    moreover have "flushFile_loop f [k..<numBufs s] s = flushFile_loop f [Suc k..<numBufs s] s"
      using False by (simp add: cons)
    ultimately show ?thesis using Suc.hyps(1) [of s "Suc k"] Suc.hyps(2) Suc.prems k by simp
  next
    case True
    then have v: "valid ?d" using dok Suc.prems(3) by (auto simp: desc_ok_def split: if_splits)
    then have fr: "in_frame ?d f (bd_pageNo ?d)" using True by (simp add: in_frame_def)
    have at: "bht_map (hashTable s) (f, bd_pageNo ?d) = Some (int k)"
      using in_frame_map [OF Suc.prems(1) k _ fr] by simp
    show ?thesis
    proof (cases "0 < pinCnt ?d")
      case pinned: True
      then have "0 < pin_of s f (bd_pageNo ?d)" using at by (simp add: pin_of_def)
      then show ?thesis using pinned v True Suc.prems by (auto simp: cons disk_changes_refl)
    next
      case unpinned: False
      then have pin: "pinCnt ?d = 0" using dok v by (simp add: desc_ok_def)
      have rest: ?thesis if s1: "pool_ok {} s1" "coherent {} s1" "page_of s1 = page_of s" "pin_of s1 = pin_of s"
        "disk_changes (cached s) s s1" "numBufs s1 = numBufs s" "bufTable s1 = bufTable s" "cached s1 = cached s"
        "disk_page s1 f (bd_pageNo ?d) = page_of s f (bd_pageNo ?d)"
        "flushFile_loop f [k..<numBufs s] s = flushFile_loop f [Suc k..<numBufs s] (flush_drop s1 f k)" for s1
      proof -
        have a: "k < numBufs s1" "in_frame (bufTable s1 ! k) f (bd_pageNo ?d)" "pinCnt (bufTable s1 ! k) = 0"
          "disk_page s1 f (bd_pageNo ?d) = page_of s1 f (bd_pageNo ?d)"
          using k fr pin s1 by simp_all
        note F = flush_step [OF s1(1,2) a Suc.prems(3)]
        let ?s2 = "flush_drop s1 f k"
        have len: "length (bufTable s) = numBufs s" using pool_okD [OF Suc.prems(1)] by simp
        have "holds_no f ?s2 {..<Suc k}"
          using Suc.prems(3,5) len k by (auto simp: holds_no_def F(6,8) s1 nth_list_update drop_desc_def less_Suc_eq)
        moreover have n: "n = numBufs ?s2 - Suc k" using Suc.hyps(2) F(6) s1(6) by simp
        ultimately obtain st s' where I: "flushFile_loop f [Suc k..<numBufs s] ?s2 = Some (st, s')"
          "pool_ok {} s'" "coherent {} s'" "page_of s' = page_of ?s2" "pin_of s' = pin_of ?s2"
          "disk_changes (cached ?s2) ?s2 s'" "numBufs s' = numBufs ?s2" "cached s' \<subseteq> cached ?s2"
          "st = OK \<and> holds_no f s' UNIV \<or> st = PAGEPINNED \<and> (\<exists>no. 0 < pin_of ?s2 f no)"
          using Suc.hyps(1) [OF n F(1,2) Suc.prems(3)] k F(6) s1(6) by auto
        have "disk_changes (cached s) s s'"
          by (rule disk_changes_trans [OF disk_changes_trans [OF s1(5) F(5) [unfolded s1(8)]]
              disk_changes_mono [OF I(6) F(7) [unfolded s1(8)]]])
        moreover have "cached s' \<subseteq> cached s" using I(8) F(7) s1(8) by simp
        ultimately show ?thesis using I F s1 by auto
      qed
      show ?thesis
      proof (cases "dirty ?d")
        case True
        obtain d where W: "File_writePage s f (bd_pageNo ?d) (bufPool s ! k) = Some (OK, s\<lparr>disk := d\<rparr>)"
          "pool_ok {} (s\<lparr>disk := d\<rparr>)" "coherent {} (s\<lparr>disk := d\<rparr>)" "page_of (s\<lparr>disk := d\<rparr>) = page_of s"
          "pin_of (s\<lparr>disk := d\<rparr>) = pin_of s" "disk_changes (cached s) s (s\<lparr>disk := d\<rparr>)"
          "disk_page (s\<lparr>disk := d\<rparr>) f (bd_pageNo ?d) = page_of s f (bd_pageNo ?d)"
          by (rule write_frame [OF Suc.prems(1,2) k fr pin])
        show ?thesis
          by (rule rest [of "s\<lparr>disk := d\<rparr>"])
            (use W True v unpinned \<open>bd_file ?d = f\<close> in \<open>simp_all add: cons cached_def\<close>)
      next
        case False
        have "disk_page s f (bd_pageNo ?d) = page_of s f (bd_pageNo ?d)"
          using Suc.prems(2) k v False pin True at
          by (auto simp: coherent_def desc_coherent_def page_of_def)
        then show ?thesis
          by (intro rest [of s])
            (use Suc.prems False v unpinned True in \<open>simp_all add: cons disk_changes_refl\<close>)
      qed
    qed
  qed
qed

lemma flushFile_spec:
  assumes inv: "pool_ok {} s" and coh: "coherent {} s" and f: "f \<noteq> 0"
  obtains st s' where "flushFile s f = Some (st, s')" "pool_ok {} s'" "coherent {} s'"
    "page_of s' = page_of s" "pin_of s' = pin_of s" "disk_changes (cached s) s s'" "numBufs s' = numBufs s"
    "cached s' \<subseteq> cached s"
    "st = (if \<forall>no. pin_of s f no = 0 then OK else PAGEPINNED)"
    "st = OK \<Longrightarrow> (\<forall>no. bht_map (hashTable s') (f, no) = None \<and> disk_page s' f no = page_of s f no)"
proof -
  obtain st s' where L: "flushFile_loop f [0..<numBufs s] s = Some (st, s')" "pool_ok {} s'" "coherent {} s'"
    "page_of s' = page_of s" "pin_of s' = pin_of s" "disk_changes (cached s) s s'" "numBufs s' = numBufs s"
    "cached s' \<subseteq> cached s" "st = OK \<and> holds_no f s' UNIV \<or> st = PAGEPINNED \<and> (\<exists>no. 0 < pin_of s f no)"
    using flushFile_loop_spec [OF inv coh f, of 0] by (auto simp: holds_no_def)
  have none: "bht_map (hashTable s') (f, no) = None" if "st = OK" for no
  proof (rule ccontr)
    assume "bht_map (hashTable s') (f, no) \<noteq> None"
    then obtain i where "nat i < numBufs s'" "in_frame (bufTable s' ! nat i) f no"
      using pool_ok_map [OF L(2), of f no] by auto
    then show False using that L(9) by (auto simp: holds_no_def in_frame_def)
  qed
  have "pin_of s f no = 0" if "st = OK" for no
    using none [OF that, of no] L(5) by (metis option.simps(4) pin_of_def)
  then have "st = (if \<forall>no. pin_of s f no = 0 then OK else PAGEPINNED)" using L(9) by auto
  moreover have "disk_page s' f no = page_of s f no" if "st = OK" for no
    using none [OF that] L(4) by (metis page_of_uncached)
  ultimately show thesis
    using that [of st s'] L none by (simp add: flushFile_def)
qed


section \<open>Pinned pages stay\<close>

text \<open>
  A page is settled when its last user may unpin it without the dirty flag: the frame is dirty
  already, or it is what is on disk.
\<close>

definition settled :: "'z pool_scheme \<Rightarrow> fptr \<Rightarrow> int \<Rightarrow> bool" where
  "settled s f no \<longleftrightarrow> disk_page s f no = page_of s f no \<or>
     (\<exists>i. bht_map (hashTable s) (f, no) = Some i \<and> dirty (bufTable s ! nat i))"

definition pins_kept :: "'z pool_scheme \<Rightarrow> 'z pool_scheme \<Rightarrow> bool" where
  "pins_kept s s' \<longleftrightarrow> (\<forall>g q. 0 < pin_of s g q \<longrightarrow>
     bht_map (hashTable s') (g, q) = bht_map (hashTable s) (g, q) \<and> (settled s g q \<longrightarrow> settled s' g q))"

lemma pins_kept_refl: "pins_kept s s"
  by (simp add: pins_kept_def)

lemma evict_keeps:
  assumes ok: "pool_ok {} s" and ok': "pool_ok X s'" and X: "\<And>i. i \<in> X \<Longrightarrow> usable (bufTable s ! i)"
    and w: "wrote_cached s s'" and same: "same_table (bufTable s) (bufTable s')" and n: "numBufs s' = numBufs s"
    and at: "bht_map (hashTable s) (g, q) = Some i" and pin: "0 < pin_of s g q"
  shows "bht_map (hashTable s') (g, q) = Some i" "nat i \<notin> X" "dirty (bufTable s' ! nat i) = dirty (bufTable s ! nat i)"
    "disk_page s' g q = disk_page s g q"
proof -
  have i: "0 \<le> i" "nat i < numBufs s" "in_frame (bufTable s ! nat i) g q"
    using pool_ok_map [OF ok] at by auto
  have sd: "same_desc (bufTable s ! nat i) (bufTable s' ! nat i)"
    using same i pool_okD [OF ok] by (simp add: same_table_def)
  have pc: "0 < pinCnt (bufTable s ! nat i)" using pin at by (simp add: pin_of_def)
  then have nu: "\<not> usable (bufTable s ! nat i)" using i by (simp add: usable_def in_frame_def)
  then show nX: "nat i \<notin> X" using X by blast
  show "bht_map (hashTable s') (g, q) = Some i"
    using pool_ok_map [OF ok', of g q i] i n nX same_desc_simps(3) [OF sd] by simp
  show "dirty (bufTable s' ! nat i) = dirty (bufTable s ! nat i)" using same_descD [OF sd] by simp
  obtain ps where ps: "file_pages s g = Some ps" "1 \<le> q" "q < int (length ps)"
    using pool_ok_desc [OF ok i(2)] i(3) by (auto simp: desc_ok_def in_frame_def disk_page_Some)
  show "disk_page s' g q = disk_page s g q"
  proof (cases "file_pages s' g = file_pages s g")
    case True
    then show ?thesis by (simp add: disk_page_def)
  next
    case False
    then obtain no pg j where c: "j < numBufs s" "usable (bufTable s ! j)" "in_frame (bufTable s ! j) g no"
      "file_pages s' g = Some (ps[nat no := pg])"
      using w ps(1) unfolding wrote_cached_def by (metis option.inject)
    have "no \<noteq> q"
      using in_frame_map [OF ok c(1) _ c(3)] at nu c(2) by auto
    moreover have "0 \<le> no"
      using pool_ok_desc [OF ok c(1)] c(3) by (auto simp: desc_ok_def in_frame_def disk_page_Some)
    ultimately show ?thesis using ps c(4) by (auto simp: disk_page_def nth_list_update)
  qed
qed

lemma settledI:
  assumes s: "settled s g q" and page: "page_of s' g q = page_of s g q"
    and at: "bht_map (hashTable s) (g, q) = Some i" "bht_map (hashTable s') (g, q) = Some i"
    and d: "dirty (bufTable s ! nat i) \<Longrightarrow> dirty (bufTable s' ! nat i)" and dp: "disk_page s' g q = disk_page s g q"
  shows "settled s' g q"
  using assms by (auto simp: settled_def)

lemma pinned_cached: "0 < pin_of s g q \<Longrightarrow> \<exists>i. bht_map (hashTable s) (g, q) = Some i"
  by (cases "bht_map (hashTable s) (g, q)") (simp_all add: pin_of_def)

lemma readPage_keeps:
  assumes inv: "pool_ok {} s" and coh: "coherent {} s" and pg: "page_of s f no = Some pg"
    and rd: "readPage s f no = Some (st, fr, s')"
  shows "pins_kept s s'" "st = OK \<Longrightarrow> pin_of s f no = 0 \<Longrightarrow> settled s' f no"
proof -
  have keep: "bht_map (hashTable s') (g, q) = bht_map (hashTable s) (g, q) \<and> (settled s g q \<longrightarrow> settled s' g q)"
    if pin: "0 < pin_of s g q" for g q
  proof -
    obtain i where at: "bht_map (hashTable s) (g, q) = Some i" using pinned_cached [OF pin] by blast
    then have i: "0 \<le> i" "nat i < numBufs s" "in_frame (bufTable s ! nat i) g q"
      using pool_ok_map [OF inv] by auto
    show ?thesis
    proof (cases "bht_map (hashTable s) (f, no)")
      case (Some j)
      have len: "length (bufTable s) = numBufs s" using pool_okD [OF inv] by simp
      have s': "s' = s\<lparr>bufTable := (bufTable s)[nat j := (bufTable s ! nat j)
          \<lparr>refbit := True, pinCnt := pinCnt (bufTable s ! nat j) + 1\<rparr>]\<rparr>"
        using rd Some by (simp add: readPage_def lookup_pool Let_def)
      have "dirty (bufTable s' ! nat i) = dirty (bufTable s ! nat i)"
        using len i by (cases "nat i = nat j") (simp_all add: s')
      moreover have "page_of s' g q = page_of s g q" using at by (simp add: page_of_def s')
      ultimately show ?thesis using at settledI [of s g q s' i] by (simp add: s')
    next
      case None
      from inv coh show ?thesis
      proof (cases rule: allocBuf_result)
        case (1 s1)
        have "s' = s1" using rd None 1(1) by (simp add: readPage_def lookup_pool)
        note E = evict_keeps [OF inv 1(3) _ 1(7,9,8) at pin, simplified]
        have "page_of s1 g q = page_of s g q" using 1(5) by simp
        then show ?thesis using E at settledI [of s g q s1 i] \<open>s' = s1\<close> by simp
      next
        case (2 h s1)
        have none1: "bht_map (hashTable s1) (f, no) = None" by (rule evicted_uncached [OF inv 2(4,9,11) None])
        have X: "j \<in> {h} \<Longrightarrow> usable (bufTable s ! j)" for j using 2(3) by simp
        note E = evict_keeps [OF inv 2(4) X 2(8,11,9) at pin]
        have dp1: "disk_page s1 f no = Some pg" using pg 2(6) none1 by (metis page_of_uncached)
        let ?s1 = "s1\<lparr>bufStats := (bufStats s1)\<lparr>diskreads := diskreads (bufStats s1) + 1\<rparr>\<rparr>"
        have rdp: "File_readPage ?s1 f no = Some (OK, Some pg)"
          using readPage_disk [of ?s1 f no] dp1 by (auto simp: disk_page_Some)
        obtain st2 t where ins: "BufHashTbl_insert (hashTable s1) f no (int h) = (st2, t)" by (metis surj_pair)
        have t: "st2 = OK" "bht_map t = (bht_map (hashTable s1))((f, no) \<mapsto> int h)"
          using bht.ins_new [of "hashTable s1" "(f, no)" "int h"] pool_okD [OF 2(4)] none1 ins
          by (auto simp: bht_ins_def)
        have ne: "(g, q) \<noteq> (f, no)" using at None by auto
        have s': "s' = ?s1\<lparr>bufPool := (bufPool s1)[h := pg], bufTable := (bufTable s1)[h := BufDesc_Set (bufTable s1 ! h) f no],
            hashTable := t\<rparr>"
          using rd None 2(1) rdp ins t(1) by (simp add: readPage_def lookup_pool Let_def)
        have nh: "nat i \<noteq> h" using E(2) by simp
        have at': "bht_map (hashTable s') (g, q) = Some i" using E(1) t(2) ne by (auto simp: s')
        have "page_of s' g q = page_of s1 g q" using at' E(1) nh by (simp add: page_of_def s')
        moreover have "dirty (bufTable s' ! nat i) = dirty (bufTable s1 ! nat i)" using nh by (simp add: s')
        ultimately show ?thesis using at at' E(3,4) 2(6) settledI [of s g q s' i] by (simp add: s')
      qed
    qed
  qed
  then show "pins_kept s s'" by (simp add: pins_kept_def)
  show "settled s' f no" if ok: "st = OK" and free: "pin_of s f no = 0"
    using inv coh pg
  proof (cases rule: readPage_spec)
    case (1 s1)
    then show ?thesis using rd ok by simp
  next
    case (2 i s1)
    have s1: "s1 = s'" using 2(1) rd by simp
    then have "dirty (bufTable s' ! i) \<or> disk_page s' f no = page_of s' f no" using 2(4,10) free pg by simp
    then show ?thesis using 2(5) s1 by (auto simp: settled_def)
  qed
qed

lemma unPinPage_keeps:
  assumes inv: "pool_ok {} s" and at: "bht_map (hashTable s) (f, no) = Some i" and pin: "0 < pin_of s f no"
    and run: "unPinPage s f no dirt = (OK, s')"
  shows "settled s g q \<Longrightarrow> settled s' g q" "dirt \<Longrightarrow> settled s' f no"
proof -
  have i: "nat i < numBufs s" using pool_ok_map [OF inv] at by auto
  have len: "length (bufTable s) = numBufs s" using pool_okD [OF inv] by simp
  let ?d = "if dirt then (bufTable s ! nat i)\<lparr>dirty := True\<rparr> else bufTable s ! nat i"
  have s': "s' = s\<lparr>bufTable := (bufTable s)[nat i := ?d\<lparr>pinCnt := pinCnt ?d - 1\<rparr>]\<rparr>"
    using run at pin by (simp add: unPinPage_def lookup_pool Let_def pin_of_def split: if_splits)
  then obtain bt where bt: "s' = s\<lparr>bufTable := bt\<rparr>" by blast
  have same: "page_of s' = page_of s" "disk_page s' = disk_page s" "hashTable s' = hashTable s"
    by (simp_all add: bt page_of_def fun_eq_iff split: option.split)
  have d: "dirty (bufTable s ! k) \<Longrightarrow> dirty (bufTable s' ! k)" for k
    using i len by (cases "k = nat i") (simp_all add: s')
  show "settled s g q \<Longrightarrow> settled s' g q" using d by (auto simp: settled_def same)
  show "dirt \<Longrightarrow> settled s' f no" using at i len by (auto simp: settled_def same) (simp add: s')
qed

lemma pool_write_keeps:
  assumes inv: "pool_ok {} s" and at: "bht_map (hashTable s) (f, no) = Some i" and ne: "(g, q) \<noteq> (f, no)"
    and st: "settled s g q"
  shows "settled (pool_write s (nat i) p) g q"
proof -
  have i: "nat i < numBufs s" "in_frame (bufTable s ! nat i) f no" using pool_ok_map [OF inv] at by auto
  have nj: "nat j \<noteq> nat i" if "bht_map (hashTable s) (g, q) = Some j" for j
    using pool_ok_map [OF inv, of g q j] that i ne by (auto simp: in_frame_def)
  then show ?thesis
    using st by (cases "bht_map (hashTable s) (g, q)") (auto simp: settled_def pool_write_def pin_of_def page_of_def)
qed

section \<open>Allocating and disposing pages through the pool\<close>

text \<open>A well-formed file, of which only pages in use are cached.\<close>

definition file_ok :: "'z pool_scheme \<Rightarrow> fptr \<Rightarrow> page list \<Rightarrow> int list \<Rightarrow> bool" where
  "file_ok s f ps fl \<longleftrightarrow> file_pages s f = Some ps \<and> db_file ps fl \<and>
     (\<forall>no. (f, no) \<in> cached s \<longrightarrow> no \<in> used_pages ps fl)"

lemma db_file_cong:
  assumes db: "db_file ps fl" and len: "length ps' = length ps" and zero: "ps' ! 0 = ps ! 0"
    and eq: "\<And>x. x \<in> set fl \<Longrightarrow> ps' ! nat x = ps ! nat x"
  shows "db_file ps' fl"
proof -
  have "free_chain ps' (db_nextFree (ps ! 0)) fl"
    by (rule free_chain_cong [of ps]) (use db len eq in \<open>auto simp: db_file_def\<close>)
  moreover have "ps' \<noteq> []" using db len by (auto simp: db_file_def)
  ultimately show ?thesis using db len zero by (simp add: db_file_def)
qed

lemma file_ok_changes:
  assumes ok: "file_ok s f ps fl" and ch: "disk_changes A s s'" and c: "cached s' \<subseteq> A"
    and A: "\<And>no. (f, no) \<in> A \<Longrightarrow> no \<in> used_pages ps fl"
  obtains ps' where "file_ok s' f ps' fl" "length ps' = length ps" "ps' ! 0 = ps ! 0"
proof -
  have ps: "file_pages s f = Some ps" "db_file ps fl" using ok by (simp_all add: file_ok_def)
  then obtain ps' where p: "file_pages s' f = Some ps'" "length ps' = length ps"
    "\<And>i. i < length ps \<Longrightarrow> (f, int i) \<notin> A \<Longrightarrow> ps' ! i = ps ! i"
    using ch unfolding disk_changes_def by metis
  have ne: "ps \<noteq> []" and ch: "free_chain ps (db_nextFree (ps ! 0)) fl" using ps(2) by (simp_all add: db_file_def)
  have zero: "ps' ! 0 = ps ! 0" using p(3) [of 0] A [of 0] ne by (auto simp: used_pages_def)
  have "ps' ! nat x = ps ! nat x" if x: "x \<in> set fl" for x
  proof -
    have "1 \<le> x" "x < int (length ps)" using free_chain_range [OF ch x] by auto
    moreover have "(f, x) \<notin> A" using A [of x] x by (auto simp: used_pages_def)
    ultimately show ?thesis using p(3) [of "nat x"] by simp
  qed
  then have "db_file ps' fl" by (rule db_file_cong [OF ps(2) p(2) zero])
  moreover have "used_pages ps' fl = used_pages ps fl" using p(2) by (simp add: used_pages_def)
  ultimately have "file_ok s' f ps' fl" using p(1) c A by (auto simp: file_ok_def)
  then show thesis using that p(2) zero by blast
qed

lemma disposePage_pool_spec:
  assumes inv: "pool_ok {} s" and coh: "coherent {} s" and ok: "file_ok s f ps fl"
    and used: "no \<in> used_pages ps fl" and nf: "no \<noteq> db_firstPage (ps ! 0)" and room: "length ps < 2147483648"
  obtains s' ps' where "disposePage s f no = Some (OK, s')" "pool_ok {} s'" "coherent {} s'"
    "file_ok s' f ps' (no # fl)" "length ps' = length ps" "db_firstPage (ps' ! 0) = db_firstPage (ps ! 0)"
    "\<And>g q. (g, q) \<noteq> (f, no) \<Longrightarrow> page_of s' g q = page_of s g q"
    "\<And>g q. pin_of s' g q = (if g = f \<and> q = no then 0 else pin_of s g q)"
proof -
  define s1 where "s1 = (let (st, fr) = BufHashTbl_lookup (hashTable s) f no 0;
          s = (if st = OK
               then s\<lparr>bufTable := (bufTable s)[nat fr := BufDesc_Clear (bufTable s ! nat fr)]\<rparr> else s)
      in s\<lparr>hashTable := snd (BufHashTbl_remove (hashTable s) f no)\<rparr>)"
  have run1: "disposePage s f no = File_disposePage s1 f no"
    by (simp add: disposePage_def s1_def Let_def split: prod.splits)
  have wf: "bht_inv (hashTable s)" using pool_okD [OF inv] by simp
  have s1: "pool_ok {} s1 \<and> coherent {} s1 \<and> bht_map (hashTable s1) = (bht_map (hashTable s))((f, no) := None) \<and>
     page_of s1 = (\<lambda>g q. if g = f \<and> q = no then disk_page s f no else page_of s g q) \<and>
     pin_of s1 = (\<lambda>g q. if g = f \<and> q = no then 0 else pin_of s g q) \<and> disk_page s1 = disk_page s \<and>
     file_name s1 = file_name s \<and> disk s1 = disk s"
  proof (cases "bht_map (hashTable s) (f, no)")
    case None
    have "bht_del (hashTable s) (f, no) = (HASHTBLERROR, hashTable s)" by (rule bht.del_absent [OF wf None])
    then have "s1 = s" by (simp add: s1_def lookup_pool None bht_del_def)
    then show ?thesis using inv coh None by (auto simp: fun_eq_iff page_of_def pin_of_def)
  next
    case (Some i)
    then have i: "0 \<le> i" "nat i < numBufs s" "in_frame (bufTable s ! nat i) f no"
      using pool_ok_map [OF inv] by auto
    let ?d = "BufDesc_Clear (bufTable s ! nat i)"
    have d: "\<not> valid ?d" "\<not> dirty ?d" "bd_file ?d = 0" "bd_frameNo ?d = int (nat i)"
      using inv i by (simp_all add: BufDesc_Clear_def pool_ok_def)
    have "s1 = s\<lparr>hashTable := snd (BufHashTbl_remove (hashTable s) f no), bufTable := (bufTable s)[nat i := ?d]\<rparr>"
      by (simp add: s1_def lookup_pool Some)
    then show ?thesis using pool_ok_evict_free [OF inv coh i(2,3) d] by (auto simp: fun_eq_iff)
  qed
  obtain name where name: "file_name s f = Some name" "disk s name = Some ps" and db: "db_file ps fl"
    using ok file_pages_SomeD [of s f ps] by (auto simp: file_ok_def)
  obtain ps' where D: "File_disposePage s1 f no = Some (OK, s1\<lparr>disk := (disk s1)(name \<mapsto> ps')\<rparr>)"
    "db_file ps' (no # fl)" "length ps' = length ps" "db_firstPage (ps' ! 0) = db_firstPage (ps ! 0)"
    "\<forall>q. 1 \<le> q \<and> q < int (length ps) \<and> q \<noteq> no \<longrightarrow> ps' ! nat q = ps ! nat q"
    using disposePage_spec [of s1 f name ps fl no] s1 name db used nf room by auto
  let ?s2 = "s1\<lparr>disk := (disk s1)(name \<mapsto> ps')\<rparr>"
  have fp: "file_pages s f = Some ps" using ok by (simp add: file_ok_def)
  have io: "io_inv s1" using s1 pool_okD [of "{}" s1] by simp
  have fpg: "file_pages ?s2 g = (if g = f then Some ps' else file_pages s1 g)" for g
  proof (cases "g = f")
    case True
    then show ?thesis using name s1 by (simp add: file_pages_def)
  next
    case False
    then have "file_name s1 g \<noteq> Some name" using io name s1 by (auto simp: io_inv_def)
    then show ?thesis using False by (simp add: file_pages_disk_other)
  qed
  have fp1: "file_pages s1 f = Some ps" using name s1 by (simp add: file_pages_def)
  have dp: "disk_page ?s2 g q = disk_page s1 g q" if "(g, q) \<noteq> (f, no)" for g q
    using that D(3,5) fp1 by (auto simp: disk_page_def fpg split: option.splits)
  have dom: "(disk_page ?s2 g q = None) = (disk_page s1 g q = None)" for g q
    using D(3) fp1 by (auto simp: disk_page_def fpg split: option.splits)
  have ok2: "pool_ok {} ?s2" by (rule pool_ok_disk) (use s1 dom in auto)
  have none: "\<not> in_frame (bufTable s1 ! i) f no" if "i < numBufs s1" for i
    using in_frame_map [of "{}" s1 i f no] s1 that by auto
  have "desc_coherent ?s2 (bufTable s1 ! i) (bufPool s1 ! i)" if "i < numBufs s1" for i
  proof -
    let ?d = "bufTable s1 ! i"
    have "desc_coherent s1 ?d (bufPool s1 ! i)" using s1 that by (simp add: coherent_def)
    then show ?thesis
      using none [OF that] dp [of "bd_file ?d" "bd_pageNo ?d"] by (auto simp: desc_coherent_def in_frame_def)
  qed
  then have "coherent {} ?s2" by (simp add: coherent_def)
  moreover have "file_ok ?s2 f ps' (no # fl)"
  proof -
    have "q \<in> used_pages ps' (no # fl)" if "(f, q) \<in> cached ?s2" for q
      using that s1 ok D(3) by (auto simp: cached_def file_ok_def used_pages_def split: if_splits)
    then show ?thesis using D(2) fpg by (simp add: file_ok_def)
  qed
  moreover have "page_of ?s2 g q = page_of s g q" if "(g, q) \<noteq> (f, no)" for g q
  proof -
    have "page_of ?s2 g q = page_of s1 g q" using dp [OF that] by (simp add: page_of_def split: option.split)
    then show ?thesis using s1 that by auto
  qed
  moreover have "pin_of ?s2 g q = (if g = f \<and> q = no then 0 else pin_of s g q)" for g q
  proof -
    have "pin_of ?s2 = pin_of s1" by (simp add: pin_of_def fun_eq_iff split: option.split)
    then show ?thesis using s1 by simp
  qed
  ultimately show thesis
    using that [of ?s2 ps'] run1 D ok2 by simp
qed


text \<open>The layout of a file and its free list stay as they are.\<close>

definition file_same :: "'z pool_scheme \<Rightarrow> 'z pool_scheme \<Rightarrow> fptr \<Rightarrow> bool" where
  "file_same s s' g \<longleftrightarrow> (\<forall>ps fl. file_ok s g ps fl \<longrightarrow>
     (\<exists>ps'. file_ok s' g ps' fl \<and> length ps' = length ps \<and> ps' ! 0 = ps ! 0))"

lemma allocPage_pool_spec:
  assumes inv: "pool_ok {} s" and coh: "coherent {} s" and ok: "file_ok s f ps fl"
    and room: "length ps < 2147483647"
  obtains no s' ps' fl' where "allocPage s f = Some (BUFFEREXCEEDED, Some no, None, s')"
    "\<forall>k < numBufs s. \<not> usable (bufTable s ! k)" "pool_ok {} s'" "coherent {} s'"
    "file_ok s' f ps' fl'" "no \<notin> used_pages ps fl" "used_pages ps' fl' = insert no (used_pages ps fl)"
    "\<And>g q. (g, q) \<noteq> (f, no) \<Longrightarrow> page_of s' g q = page_of s g q" "pin_of s' = pin_of s" "pins_kept s s'"
  | no h s' ps' fl' where "allocPage s f = Some (OK, Some no, Some h, s')" "pool_ok {} s'" "coherent {} s'"
    "file_ok s' f ps' fl'" "no \<notin> used_pages ps fl" "used_pages ps' fl' = insert no (used_pages ps fl)"
    "\<And>g q. (g, q) \<noteq> (f, no) \<Longrightarrow> page_of s' g q = page_of s g q"
    "bht_map (hashTable s') (f, no) = Some (int h)" "numBufs s' = numBufs s" "h < numBufs s"
    "\<And>g q. pin_of s' g q = (if g = f \<and> q = no then 1 else pin_of s g q)"
    "db_firstPage (ps' ! 0) = (if length ps = 1 then no else db_firstPage (ps ! 0))" "length ps' \<le> Suc (length ps)" "pins_kept s s'"
    "\<And>g. g \<noteq> f \<Longrightarrow> file_same s s' g"
proof -
  obtain name where name: "file_name s f = Some name" "disk s name = Some ps" and db: "db_file ps fl"
    and fps: "file_pages s f = Some ps"
    using ok file_pages_SomeD [of s f ps] by (auto simp: file_ok_def)
  obtain no ps' fl' where A: "File_allocatePage s f = Some (OK, Some no, s\<lparr>disk := (disk s)(name \<mapsto> ps')\<rparr>)"
    "db_file ps' fl'" "no \<notin> used_pages ps fl" "used_pages ps' fl' = insert no (used_pages ps fl)"
    "\<And>q. 1 \<le> q \<Longrightarrow> q < int (length ps) \<Longrightarrow> ps' ! nat q = ps ! nat q" "length ps \<le> length ps'"
    "1 \<le> no" "no < int (length ps')" "length ps' \<le> Suc (length ps)"
    "db_firstPage (ps' ! 0) = (if length ps = 1 then no else db_firstPage (ps ! 0))"
    "no \<in> set fl \<and> length ps' = length ps \<or> no = int (length ps) \<and> ps' ! nat no = zero_mem"
    using allocatePage_spec [OF name db room] by blast
  let ?s1 = "s\<lparr>disk := (disk s)(name \<mapsto> ps')\<rparr>"
  have io: "io_inv s" using pool_okD [OF inv] by simp
  have fpg: "file_pages ?s1 g = (if g = f then Some ps' else file_pages s g)" for g
  proof (cases "g = f")
    case True
    then show ?thesis using name by (simp add: file_pages_def)
  next
    case False
    then have "file_name s g \<noteq> Some name" using io name by (auto simp: io_inv_def)
    then show ?thesis using False by (simp add: file_pages_disk_other)
  qed
  have dp: "disk_page ?s1 g q = disk_page s g q" if "(g, q) \<noteq> (f, no)" for g q
    using that A(5,6,9,11) by (cases "g = f") (auto simp: disk_page_def fpg fps)
  have dom: "disk_page s g q = None" if "disk_page ?s1 g q = None" for g q
    using that A(6) fps by (auto simp: disk_page_def fpg split: option.splits if_splits)
  have new: "bht_map (hashTable s) (f, no) = None"
    using ok A(3) by (auto simp: file_ok_def cached_def)
  have none: "\<not> in_frame (bufTable s ! i) f no" if "i < numBufs s" for i
    using in_frame_map [OF inv that, of f no] new by auto
  have ok1: "pool_ok {} ?s1" by (rule pool_ok_disk [OF inv dom])
  have "desc_coherent ?s1 (bufTable s ! i) (bufPool s ! i)" if "i < numBufs s" for i
  proof -
    let ?d = "bufTable s ! i"
    have "desc_coherent s ?d (bufPool s ! i)" using coh that by (simp add: coherent_def)
    then show ?thesis
      using none [OF that] dp [of "bd_file ?d" "bd_pageNo ?d"] by (auto simp: desc_coherent_def in_frame_def)
  qed
  then have coh1: "coherent {} ?s1" by (simp add: coherent_def)
  have page1: "page_of ?s1 g q = page_of s g q" if "(g, q) \<noteq> (f, no)" for g q
    using dp [OF that] by (simp add: page_of_def split: option.split)
  have pin1: "pin_of ?s1 = pin_of s" by (simp add: pin_of_def fun_eq_iff split: option.split)
  have fok1: "file_ok ?s1 f ps' fl'"
    using A(2,4) ok fpg by (auto simp: file_ok_def cached_def)
  have cached1: "q \<in> used_pages ps' fl'" if "(f, q) \<in> cached ?s1" for q
    using fok1 that by (simp add: file_ok_def)
  have kept1: "bht_map (hashTable ?s1) (g, q) = Some i" "0 < pin_of ?s1 g q" "settled s g q \<Longrightarrow> settled ?s1 g q"
    if "bht_map (hashTable s) (g, q) = Some i" "0 < pin_of s g q" for g q i
  proof -
    have ne: "(g, q) \<noteq> (f, no)" using that new by auto
    show "bht_map (hashTable ?s1) (g, q) = Some i" "0 < pin_of ?s1 g q" using that pin1 by simp_all
    show "settled ?s1 g q" if "settled s g q"
      by (rule settledI [OF that, of _ i]) (use page1 [OF ne] dp [OF ne] \<open>bht_map (hashTable s) (g, q) = Some i\<close> in simp_all)
  qed
  from ok1 coh1 show thesis
  proof (cases rule: allocBuf_result)
    case (1 s2)
    have keep: "pins_kept s s2"
      unfolding pins_kept_def
    proof (intro allI impI)
      fix g q assume pin: "0 < pin_of s g q"
      obtain i where at: "bht_map (hashTable s) (g, q) = Some i" using pinned_cached [OF pin] by blast
      note K = kept1 [OF at pin]
      note E = evict_keeps [OF ok1 1(3) _ 1(7,9,8) K(1,2), simplified]
      have "settled s2 g q" if "settled s g q"
        by (rule settledI [OF K(3) [OF that] _ K(1) E(1) _ E(4)]) (use E(3) 1(5) in simp_all)
      then show "bht_map (hashTable s2) (g, q) = bht_map (hashTable s) (g, q) \<and> (settled s g q \<longrightarrow> settled s2 g q)"
        using at E(1) by simp
    qed
    have "cached s2 \<subseteq> cached ?s1"
    proof
      fix x assume "x \<in> cached s2"
      then obtain g q i where x: "x = (g, q)" "bht_map (hashTable s2) (g, q) = Some i" by (cases x) (auto simp: cached_def)
      then have "0 \<le> i" "nat i < numBufs s" "in_frame (bufTable s2 ! nat i) g q"
        using pool_ok_map [OF 1(3)] 1(8) by auto
      moreover have "same_desc (bufTable s ! nat i) (bufTable s2 ! nat i)"
        using 1(9) calculation pool_okD [OF inv] by (simp add: same_table_def)
      ultimately have "in_frame (bufTable s ! nat i) g q" using same_desc_simps(3) by metis
      then show "x \<in> cached ?s1"
        using in_frame_map [OF inv \<open>nat i < numBufs s\<close>, of g q] x by (auto simp: cached_def)
    qed
    from file_ok_changes [OF fok1 wrote_cached_changes [OF ok1 1(7)] this cached1]
    obtain ps2 where ps2: "file_ok s2 f ps2 fl'" "length ps2 = length ps'" by metis
    have "allocPage s f = Some (BUFFEREXCEEDED, Some no, None, s2)"
      using A(1) 1(1) by (simp add: allocPage_def)
    moreover have "used_pages ps2 fl' = insert no (used_pages ps fl)"
      using A(4) ps2(2) by (simp add: used_pages_def)
    ultimately show thesis
      using that(1) [of no s2 ps2 fl'] 1 ps2 A(3) page1 pin1 keep by simp
  next
    case (2 h s2)
    have new1: "bht_map (hashTable ?s1) (f, no) = None" using new by simp
    have new2: "bht_map (hashTable s2) (f, no) = None"
      by (rule evicted_uncached [OF ok1 2(4,9,11) new1])
    have cs: "cached s2 \<subseteq> cached ?s1"
    proof
      fix x assume x: "x \<in> cached s2"
      obtain g q where g: "x = (g, q)" by (cases x)
      show "x \<in> cached ?s1"
        using evicted_uncached [OF ok1 2(4,9,11), of g q] x g
        by (cases "bht_map (hashTable s) (g, q)") (auto simp: cached_def)
    qed
    from file_ok_changes [OF fok1 wrote_cached_changes [OF ok1 2(8)] cs cached1]
    obtain ps2 where ps2: "file_ok s2 f ps2 fl'" "length ps2 = length ps'" "ps2 ! 0 = ps' ! 0" by metis
    have pg: "disk_page s2 f no \<noteq> None"
      using ps2 A(7,8) by (auto simp: file_ok_def disk_page_def)
    obtain st t where ins: "BufHashTbl_insert (hashTable s2) f no (int h) = (st, t)" by (metis surj_pair)
    obtain pg where pg': "disk_page s2 f no = Some pg" using pg by auto
    have h2: "h < numBufs s2" using 2(2,9) by simp
    let ?s3 = "s2\<lparr>bufTable := (bufTable s2)[h := BufDesc_Set (bufTable s2 ! h) f no], hashTable := t\<rparr>"
    have same: "s2\<lparr>bufPool := (bufPool s2)[h := bufPool s2 ! h],
        bufTable := (bufTable s2)[h := BufDesc_Set (bufTable s2 ! h) f no], hashTable := t\<rparr> = ?s3"
      by simp
    note F = pool_ok_fill_page [OF 2(4,5) h2 new2 pg' ins]
    note F' = F(2-5) [where q = "bufPool s2 ! h", unfolded same]
    have run: "allocPage s f = Some (OK, Some no, Some h, ?s3)"
      using A(1) 2(1) ins F(1) by (simp add: allocPage_def Let_def)
    have "file_ok ?s3 f ps2 fl'"
    proof -
      have "q \<in> used_pages ps2 fl'" if "(f, q) \<in> cached ?s3" for q
      proof (cases "q = no")
        case True
        then show ?thesis using A(4) ps2(2) by (auto simp: used_pages_def)
      next
        case False
        then have "(f, q) \<in> cached ?s1" using that F(6) cs by (auto simp: cached_def)
        then show ?thesis using cached1 ps2(2) by (simp add: used_pages_def)
      qed
      then show ?thesis using ps2 by (simp add: file_ok_def)
    qed
    moreover have "used_pages ps2 fl' = insert no (used_pages ps fl)"
      using A(4) ps2(2) by (simp add: used_pages_def)
    moreover have "page_of ?s3 g q = page_of s g q" if "(g, q) \<noteq> (f, no)" for g q
      using F'(3) page1 [OF that] that 2(6) by auto
    moreover have "pin_of ?s3 g q = (if g = f \<and> q = no then 1 else pin_of s g q)" for g q
      using F'(4) pin1 2(7) by simp
    moreover have "pins_kept s ?s3"
      unfolding pins_kept_def
    proof (intro allI impI)
      fix g q assume pin: "0 < pin_of s g q"
      obtain i where at: "bht_map (hashTable s) (g, q) = Some i" using pinned_cached [OF pin] by blast
      then have ne: "(g, q) \<noteq> (f, no)" using new by auto
      note K = kept1 [OF at pin]
      have X: "j \<in> {h} \<Longrightarrow> usable (bufTable ?s1 ! j)" for j using 2(3) by simp
      note E = evict_keeps [OF ok1 2(4) X 2(8,11,9) K(1,2)]
      have nh: "nat i \<noteq> h" using E(2) by simp
      have at3: "bht_map (hashTable ?s3) (g, q) = Some i" using E(1) F(6) ne by auto
      have "settled ?s3 g q" if "settled s g q"
      proof (rule settledI [OF K(3) [OF that] _ K(1) at3])
        show "page_of ?s3 g q = page_of ?s1 g q" using F'(3) ne 2(6) by auto
        show "disk_page ?s3 g q = disk_page ?s1 g q" using E(4) by simp
        show "dirty (bufTable ?s3 ! nat i)" if "dirty (bufTable ?s1 ! nat i)" using that E(3) nh by simp
      qed
      then show "bht_map (hashTable ?s3) (g, q) = bht_map (hashTable s) (g, q) \<and> (settled s g q \<longrightarrow> settled ?s3 g q)"
        using at at3 by simp
    qed
    moreover have "file_same s ?s3 g" if g: "g \<noteq> f" for g
      unfolding file_same_def
    proof (intro allI impI)
      fix qs gl assume ok: "file_ok s g qs gl"
      then have ok1: "file_ok ?s1 g qs gl" using fpg g by (simp add: file_ok_def cached_def)
      have "q \<in> used_pages qs gl" if "(g, q) \<in> cached ?s1" for q using ok1 that by (simp add: file_ok_def)
      from file_ok_changes [OF ok1 wrote_cached_changes [OF \<open>pool_ok {} ?s1\<close> 2(8)] cs this]
      obtain qs2 where "file_ok s2 g qs2 gl" "length qs2 = length qs" "qs2 ! 0 = qs ! 0" by metis
      moreover have "(g, q) \<in> cached ?s3 \<longleftrightarrow> (g, q) \<in> cached s2" for q using F(6) g by (auto simp: cached_def)
      ultimately show "\<exists>ps'. file_ok ?s3 g ps' gl \<and> length ps' = length qs \<and> ps' ! 0 = qs ! 0"
        by (auto simp: file_ok_def)
    qed
    ultimately show thesis
      using that(2) [of no h ?s3 ps2 fl'] run F'(1,2) F(6) A(3,9,10) 2(2,9) ps2 by simp
  qed
qed


section \<open>A new pool\<close>

lemma BufMgr_new_fields:
  "numBufs (BufMgr_new s n) = n" "bufPool (BufMgr_new s n) = replicate n zero_mem"
  "i < n \<Longrightarrow> bufTable (BufMgr_new s n) ! i = \<lparr>bd_file = 0, bd_pageNo = 0, bd_frameNo = int i, pinCnt = 0,
     dirty = False, valid = False, refbit = False\<rparr>"
  "int (n * 6 div 5) < 1073741824 \<Longrightarrow> bht_map (hashTable (BufMgr_new s n)) = Map.empty"
  "io.truncate (BufMgr_new s n) = s"
  by (simp_all add: BufMgr_new_def io.defs bht_new_map)

lemma BufMgr_new_files:
  "file_name (BufMgr_new s n) = file_name s" "file_pages (BufMgr_new s n) = file_pages s"
  "disk_page (BufMgr_new s n) = disk_page s" "io_inv (BufMgr_new s n) = io_inv s"
proof -
  have f: "files (BufMgr_new s n) = files s" "fds (BufMgr_new s n) = fds s" "disk (BufMgr_new s n) = disk s"
    "next_fd (BufMgr_new s n) = next_fd s" "next_ptr (BufMgr_new s n) = next_ptr s"
    by (simp_all add: BufMgr_new_def io.defs)
  then show a: "file_name (BufMgr_new s n) = file_name s" by (simp add: file_name_def fun_eq_iff)
  then show b: "file_pages (BufMgr_new s n) = file_pages s" using f by (simp add: file_pages_def fun_eq_iff)
  then show "disk_page (BufMgr_new s n) = disk_page s" by (simp add: disk_page_def fun_eq_iff)
  show "io_inv (BufMgr_new s n) = io_inv s" using a f by (simp add: io_inv_def)
qed

lemma BufMgr_new_inv:
  assumes "io_inv s" "0 < n" "int (n * 6 div 5) < 1073741824"
  shows "pool_ok {} (BufMgr_new s n)" "coherent {} (BufMgr_new s n)"
    "page_of (BufMgr_new s n) = disk_page s" "pin_of (BufMgr_new s n) = (\<lambda>f no. 0)"
proof -
  let ?s = "BufMgr_new s n"
  have b: "bht_inv (hashTable ?s)" using assms(3) by (simp add: BufMgr_new_def io.defs bht_new_inv)
  have l: "length (bufTable ?s) = n" "clockHand ?s < n" using assms by (simp_all add: BufMgr_new_def io.defs)
  show "pool_ok {} ?s"
    using assms b l by (auto simp: pool_ok_def BufMgr_new_fields BufMgr_new_files in_frame_def desc_ok_def)
  show "coherent {} ?s" by (simp add: coherent_def BufMgr_new_fields desc_coherent_def)
  show "page_of ?s = disk_page s" "pin_of ?s = (\<lambda>f no. 0)"
    using assms(3) by (simp_all add: page_of_def pin_of_def fun_eq_iff BufMgr_new_fields BufMgr_new_files)
qed

lemma example_file:
  "file_name example_io f = (if f = 4096 then Some ''a'' else None)"
  "file_pages example_io f = (if f = 4096 then disk example_io ''a'' else None)"
  "disk_page example_io f no = (if f = 4096 \<and> 1 \<le> no \<and> no < 3 then Some zero_mem else None)"
proof -
  show a: "file_name example_io f = (if f = 4096 then Some ''a'' else None)"
    by (simp add: example_io_def file_name_def)
  then show b: "file_pages example_io f = (if f = 4096 then disk example_io ''a'' else None)"
    by (simp add: file_pages_def)
  have "no = 1 \<or> no = 2" if "1 \<le> no" "no < 3" using that by linarith
  then show "disk_page example_io f no = (if f = 4096 \<and> 1 \<le> no \<and> no < 3 then Some zero_mem else None)"
    using b by (auto simp: disk_page_def example_io_def nth_Cons')
qed

lemma example_io_inv: "io_inv example_io"
  by (auto simp: io_inv_def example_file) (simp_all add: example_io_def split: if_splits)

definition example_pool :: pool where
  "example_pool = BufMgr_new example_io 2"

lemma example_pool:
  "pool_ok {} example_pool" "coherent {} example_pool" "page_of example_pool = disk_page example_io"
  "pin_of example_pool = (\<lambda>f no. 0)" "numBufs example_pool = 2" "bht_map (hashTable example_pool) = Map.empty"
  "file_pages example_pool = file_pages example_io"
  using BufMgr_new_inv [OF example_io_inv, of 2]
  by (simp_all add: example_pool_def BufMgr_new_fields BufMgr_new_files)


section \<open>What the operations leave alone\<close>

text \<open>
  No operation touches more than the fields of the pool and, on disk, the files that are open.
\<close>

definition closed_disk :: "'z io_scheme \<Rightarrow> string \<Rightarrow> page list option" where
  "closed_disk s = (\<lambda>n. if \<exists>f. file_name s f = Some n then None else disk s n)"

lemma closed_disk_pool [simp]:
  "closed_disk (s\<lparr>clockHand := a\<rparr>) = closed_disk s" "closed_disk (s\<lparr>hashTable := b\<rparr>) = closed_disk s"
  "closed_disk (s\<lparr>bufTable := c\<rparr>) = closed_disk s" "closed_disk (s\<lparr>bufStats := st\<rparr>) = closed_disk s"
  "closed_disk (s\<lparr>bufPool := e\<rparr>) = closed_disk s"
  by (simp_all add: closed_disk_def fun_eq_iff)

lemma closed_disk_write:
  "file_name s f = Some n \<Longrightarrow> closed_disk (s\<lparr>disk := (disk s)(n \<mapsto> ps)\<rparr>) = closed_disk s"
  by (auto simp: closed_disk_def file_name_def fun_eq_iff)

definition pool_step :: "'z pool_scheme \<Rightarrow> 'z pool_scheme \<Rightarrow> bool" where
  "pool_step s s' \<longleftrightarrow> fds s' = fds s \<and> next_fd s' = next_fd s \<and> files s' = files s \<and> next_ptr s' = next_ptr s \<and>
     numBufs s' = numBufs s \<and> pool.more s' = pool.more s \<and> closed_disk s' = closed_disk s"

lemma pool_step_refl [simp]: "pool_step s s"
  by (simp add: pool_step_def)

lemma pool_step_trans: "pool_step s s' \<Longrightarrow> pool_step s' s'' \<Longrightarrow> pool_step s s''"
  by (simp add: pool_step_def)

lemma pool_step_upd [simp]:
  "pool_step s (s'\<lparr>clockHand := c\<rparr>) = pool_step s s'"
  "pool_step s (s'\<lparr>hashTable := h\<rparr>) = pool_step s s'" "pool_step s (s'\<lparr>bufTable := b\<rparr>) = pool_step s s'"
  "pool_step s (s'\<lparr>bufStats := st\<rparr>) = pool_step s s'" "pool_step s (s'\<lparr>bufPool := p\<rparr>) = pool_step s s'"
  "pool_step (s\<lparr>clockHand := c\<rparr>) s' = pool_step s s'"
  "pool_step (s\<lparr>hashTable := h\<rparr>) s' = pool_step s s'" "pool_step (s\<lparr>bufTable := b\<rparr>) s' = pool_step s s'"
  "pool_step (s\<lparr>bufStats := st\<rparr>) s' = pool_step s s'" "pool_step (s\<lparr>bufPool := p\<rparr>) s' = pool_step s s'"
  "pool_step s (advanceClock s') = pool_step s s'" "pool_step s (flush_drop s' f i) = pool_step s s'"
  "pool_step (advanceClock s) s' = pool_step s s'" "pool_step (flush_drop s f i) s' = pool_step s s'"
  by (simp_all add: pool_step_def advanceClock_def flush_drop_def Let_def)

lemma intwrite_step: "File_intwrite s f no p = Some (st, s') \<Longrightarrow> pool_step s s'"
proof (cases "files s f")
  case (Some fo)
  moreover assume "File_intwrite s f no p = Some (st, s')"
  ultimately show ?thesis
    by (cases "fds s (unixFile fo)"; cases "disk s (the (fds s (unixFile fo)))")
      (auto simp: File_intwrite_def pool_step_def file_name_def intro!: closed_disk_write [of s f] split: if_split_asm)
qed (simp add: File_intwrite_def)

lemma writePage_step: "File_writePage s f no p = Some (st, s') \<Longrightarrow> pool_step s s'"
  by (auto simp: File_writePage_def intwrite_step split: if_split_asm)

lemma allocBuf_loop_step: "allocBuf_loop n s = (b, m, s') \<Longrightarrow> pool_step s s'"
  by (induction n s rule: allocBuf_loop.induct) (auto simp: Let_def split: if_split_asm)

lemma allocBuf_step: "allocBuf s = Some (st, fr, s') \<Longrightarrow> pool_step s s'"
  by (auto simp: allocBuf_def Let_def bind_eq_Some_conv all_conj_distrib split: prod.split_asm if_split_asm
      dest!: allocBuf_loop_step writePage_step intro: pool_step_trans)

lemma readPage_step: "readPage s f no = Some (st, fr, s') \<Longrightarrow> pool_step s s'"
  by (auto simp: readPage_def Let_def bind_eq_Some_conv all_conj_distrib case_prod_unfold
      split: if_split_asm option.split_asm dest!: allocBuf_step)

lemma unPinPage_step: "unPinPage s f no d = (st, s') \<Longrightarrow> pool_step s s'"
  by (auto simp: unPinPage_def Let_def split: prod.split_asm if_split_asm)

lemma flushFile_loop_step: "flushFile_loop f is s = Some (st, s') \<Longrightarrow> pool_step s s'"
proof (induction f "is" s rule: flushFile_loop.induct)
  case (1 f s)
  then show ?case by simp
next
  case (2 f i "is" s)
  show ?case
    using 2 by (fastforce simp: Let_def bind_eq_Some_conv all_conj_distrib split: if_split_asm
      dest: writePage_step intro: pool_step_trans)
qed

lemma flushFile_step: "flushFile s f = Some (st, s') \<Longrightarrow> pool_step s s'"
  by (simp add: flushFile_def flushFile_loop_step)

text \<open>flushFile touches the frames and the disk pages of its own file only.\<close>

lemma writePage_other:
  assumes "File_writePage s f no p = Some (st, s')" "file_name s f = Some n" "m \<noteq> n"
  shows "disk s' m = disk s m"
  using assms by (auto simp: File_writePage_def File_intwrite_def file_name_def bind_eq_Some_conv
      split: if_split_asm option.split_asm)

lemma flushFile_loop_other:
  assumes "flushFile_loop f is s = Some (st, s')" "file_name s f = Some n" "m \<noteq> n"
  shows "disk s' m = disk s m"
  using assms
proof (induction f "is" s rule: flushFile_loop.induct)
  case (2 f i "is" s)
  let ?d = "bufTable s ! i"
  have skip: "disk (flush_drop t f i) = disk t" "file_name (flush_drop t f i) = file_name t" for t :: "'a pool_scheme"
    by (simp_all add: flush_drop_def Let_def fun_eq_iff)
  show ?case
  proof (cases "valid ?d \<and> bd_file ?d = f \<and> \<not> 0 < pinCnt ?d \<and> dirty ?d")
    case True
    then obtain st1 s1 where w: "File_writePage s (bd_file ?d) (bd_pageNo ?d) (bufPool s ! i) = Some (st1, s1)"
      using 2(4) by (auto simp: Let_def bind_eq_Some_conv)
    have d: "disk s1 m = disk s m" using writePage_other [OF w] True 2(5,6) by simp
    have fn: "file_name s1 = file_name s" using writePage_step [OF w] by (simp add: pool_step_def file_name_def fun_eq_iff)
    show ?thesis
    proof (cases "st1 = OK")
      case True
      then have "flushFile_loop f is (flush_drop s1 f i) = Some (st, s')"
        using 2(4) w \<open>valid ?d \<and> _\<close> by (simp add: Let_def)
      then show ?thesis using 2(1) [OF refl _ _ _ w refl] True \<open>valid ?d \<and> _\<close> 2(5,6) d fn skip by simp
    next
      case False
      then show ?thesis using 2(4) w \<open>valid ?d \<and> _\<close> d by (simp add: Let_def)
    qed
  next
    case False
    then show ?thesis using 2 skip by (auto simp: Let_def split: if_split_asm)
  qed
qed simp

lemma writePage_table:
  assumes "File_writePage s f no p = Some (st, s')"
  shows "bufTable s' = bufTable s"
proof (cases "files s f")
  case (Some fo)
  then show ?thesis using assms
    by (cases "fds s (unixFile fo)"; cases "disk s (the (fds s (unixFile fo)))")
      (auto simp: File_writePage_def File_intwrite_def split: if_split_asm)
qed (use assms in \<open>auto simp: File_writePage_def File_intwrite_def split: if_split_asm\<close>)

text \<open>A page that is pinned in the pool is not written.\<close>

definition all_pinned :: "'z pool_scheme \<Rightarrow> fptr \<Rightarrow> int \<Rightarrow> bool" where
  "all_pinned s f no \<longleftrightarrow> (\<forall>i < length (bufTable s). in_frame (bufTable s ! i) f no \<longrightarrow> 0 < pinCnt (bufTable s ! i))"

lemma all_pinned_drop: "all_pinned s f no \<Longrightarrow> all_pinned (flush_drop s f i) f no"
proof -
  assume a: "all_pinned s f no"
  have "0 < pinCnt (bufTable (flush_drop s f i) ! j)"
    if "j < length (bufTable s)" "in_frame (bufTable (flush_drop s f i) ! j) f no" for j
    using a that by (cases "j = i") (simp_all add: all_pinned_def flush_drop_def Let_def in_frame_def)
  then show ?thesis by (simp add: all_pinned_def) (simp add: flush_drop_def Let_def)
qed

lemma writePage_elsewhere:
  assumes "File_writePage s f q p = Some (st, s')" "disk_page s f no = Some pg" "q \<noteq> no"
  shows "disk_page s' f no = Some pg"
proof -
  obtain ps where ps: "file_pages s f = Some ps" "1 \<le> no" "no < int (length ps)" "pg = ps ! nat no"
    using assms(2) by (auto simp: disk_page_def bind_eq_Some_conv split: option.splits if_splits)
  obtain name where name: "file_name s f = Some name" "disk s name = Some ps" using file_pages_SomeD [OF ps(1)] by blast
  show ?thesis
  proof (cases "q < 1")
    case True
    then show ?thesis using assms(1,2) by (simp add: File_writePage_def)
  next
    case False
    then have "s' = s\<lparr>disk := (disk s)(name \<mapsto> pages_write ps (nat q) p)\<rparr>"
      using assms(1) intwrite_spec [OF name, of q p] by (simp add: File_writePage_def)
    moreover have "pages_write ps (nat q) p ! nat no = ps ! nat no" "length ps \<le> length (pages_write ps (nat q) p)"
      using False ps(2,3) assms(3) by (auto simp: pages_write_def nth_list_update nth_append)
    ultimately show ?thesis using name ps(2-4) by (simp add: disk_page_def file_pages_def file_name_def)
  qed
qed

lemma flushFile_loop_pinned:
  assumes "flushFile_loop f is s = Some (st, s')" "all_pinned s f no" "set is \<subseteq> {..<length (bufTable s)}" "disk_page s f no = Some pg"
  shows "disk_page s' f no = Some pg"
  using assms
proof (induction f "is" s rule: flushFile_loop.induct)
  case (2 f i "is" s)
  let ?d = "bufTable s ! i"
  have skip: "disk_page (flush_drop t f i) = disk_page t" "length (bufTable (flush_drop t f i)) = length (bufTable t)" for t :: "'a pool_scheme"
    by (simp_all add: flush_drop_def Let_def fun_eq_iff)
  show ?case
  proof (cases "valid ?d \<and> bd_file ?d = f \<and> \<not> 0 < pinCnt ?d \<and> dirty ?d")
    case True
    then obtain st1 s1 where w: "File_writePage s (bd_file ?d) (bd_pageNo ?d) (bufPool s ! i) = Some (st1, s1)"
      using 2(4) by (auto simp: Let_def bind_eq_Some_conv)
    have "bd_pageNo ?d \<noteq> no" using True 2(5,6) by (auto simp: all_pinned_def in_frame_def)
    then have d: "disk_page s1 f no = Some pg" using writePage_elsewhere [OF w] True 2(7) by simp
    have b: "bufTable s1 = bufTable s" by (rule writePage_table [OF w])
    then have a: "all_pinned s1 f no" using 2(5) by (simp add: all_pinned_def)
    show ?thesis
    proof (cases "st1 = OK")
      case ok: True
      have L: "flushFile_loop f is (flush_drop s1 f i) = Some (st, s')" using 2(4) w True ok by (simp add: Let_def)
      show ?thesis
        by (rule 2(1) [OF refl _ _ _ w refl, rotated 4]) (use L True ok all_pinned_drop [OF a] b d skip 2(6) in simp_all)
    next
      case False
      then show ?thesis using 2(4) w \<open>valid ?d \<and> _\<close> d by (simp add: Let_def)
    qed
  next
    case False
    then show ?thesis using 2 skip all_pinned_drop [of s f no i] by (auto simp: Let_def split: if_split_asm)
  qed
qed simp

lemma flushFile_pinned:
  assumes run: "flushFile s f = Some (st, s')" and ok: "pool_ok {} s" and pin: "0 < pin_of s f no" and d: "disk_page s f no = Some pg"
  shows "disk_page s' f no = Some pg"
proof -
  have "0 < pinCnt (bufTable s ! i)" if "i < length (bufTable s)" "in_frame (bufTable s ! i) f no" for i
    using in_frame_map [OF ok _ _ that(2)] that(1) pool_okD [OF ok] pin by (simp add: pin_of_def)
  then have "all_pinned s f no" by (simp add: all_pinned_def)
  then show ?thesis
    by (rule flushFile_loop_pinned [OF run [unfolded flushFile_def]]) (use d pool_okD [OF ok] in auto)
qed

lemma flushFile_loop_frames:
  assumes "flushFile_loop f is s = Some (st, s')"
  shows "(bd_file (bufTable s ! j) \<noteq> f \<longrightarrow> bufTable s' ! j = bufTable s ! j) \<and>
    (bd_file (bufTable s ! j) = f \<or> \<not> valid (bufTable s ! j) \<longrightarrow> bd_file (bufTable s' ! j) = f \<or> \<not> valid (bufTable s' ! j))"
  using assms
proof (induction f "is" s rule: flushFile_loop.induct)
  case (2 f i "is" s)
  let ?d = "bufTable s ! i"
  have drop: "bufTable (flush_drop t f i) ! j = (if j = i \<and> i < length (bufTable t)
      then drop_desc (bufTable t ! i) else bufTable t ! j)" for t :: "'a pool_scheme"
    by (cases "i < length (bufTable t)") (auto simp: flush_drop_def drop_desc_def Let_def nth_list_update list_update_beyond)
  have dd: "\<not> valid (drop_desc d)" "bd_file (drop_desc d) = 0" for d by (simp_all add: drop_desc_def)
  show ?case
  proof (cases "valid ?d \<and> bd_file ?d = f \<and> \<not> 0 < pinCnt ?d \<and> dirty ?d")
    case True
    then obtain st1 s1 where w: "File_writePage s (bd_file ?d) (bd_pageNo ?d) (bufPool s ! i) = Some (st1, s1)"
      using 2(4) by (auto simp: Let_def bind_eq_Some_conv)
    have t: "bufTable s1 = bufTable s" by (rule writePage_table [OF w])
    show ?thesis
    proof (cases "st1 = OK")
      case ok: True
      then have "flushFile_loop f is (flush_drop s1 f i) = Some (st, s')" using 2(4) w True by (simp add: Let_def)
      then show ?thesis using 2(1) [OF refl _ _ _ w refl] True ok drop [of s1] t dd by (auto split: if_splits)
    next
      case False
      then have "s' = s1" using 2(4) w True by (simp add: Let_def)
      then show ?thesis using t by simp
    qed
  next
    case False
    show ?thesis
    proof (cases "valid ?d \<and> bd_file ?d = f \<and> \<not> 0 < pinCnt ?d")
      case True
      then have "flushFile_loop f is (flush_drop s f i) = Some (st, s')" using 2(4) False by (simp add: Let_def)
      then show ?thesis using 2(2) [OF refl] True False drop [of s] dd by (auto split: if_splits)
    next
      case no: False
      then show ?thesis using 2(3) [OF refl] 2(4) False by (auto simp: Let_def split: if_split_asm)
    qed
  qed
qed simp

text \<open>Together: what is cached of another file stays where it is.\<close>

lemma flushFile_others:
  assumes run: "flushFile s f = Some (st, s')" and ok: "pool_ok {} s" "pool_ok {} s'" and n: "numBufs s' = numBufs s" and g: "g \<noteq> f"
  shows "bht_map (hashTable s') (g, q) = bht_map (hashTable s) (g, q)"
    "bht_map (hashTable s) (g, q) = Some i \<Longrightarrow> bufTable s' ! nat i = bufTable s ! nat i"
proof -
  note F = flushFile_loop_frames [OF run [unfolded flushFile_def]]
  have fr: "in_frame (bufTable s' ! j) g q = in_frame (bufTable s ! j) g q" for j
    using F [of j] g by (auto simp: in_frame_def)
  have "bht_map (hashTable s') (g, q) = Some i \<longleftrightarrow> bht_map (hashTable s) (g, q) = Some i" for i
    using pool_ok_map [OF ok(1), of g q i] pool_ok_map [OF ok(2), of g q i] fr n by simp
  then show "bht_map (hashTable s') (g, q) = bht_map (hashTable s) (g, q)"
    by (cases "bht_map (hashTable s) (g, q)"; cases "bht_map (hashTable s') (g, q)") auto
  show "bufTable s' ! nat i = bufTable s ! nat i" if "bht_map (hashTable s) (g, q) = Some i"
    using F [of "nat i"] g pool_ok_map [OF ok(1), of g q i] that by (auto simp: in_frame_def)
qed

lemma allocatePage_step: "File_allocatePage s f = Some (st, no, s') \<Longrightarrow> pool_step s s'"
  by (auto simp: File_allocatePage_def Let_def bind_eq_Some_conv all_conj_distrib split: if_split_asm option.split_asm
      dest!: intwrite_step intro: pool_step_trans)

lemma disposePage_file_step: "File_disposePage s f no = Some (st, s') \<Longrightarrow> pool_step s s'"
  by (auto simp: File_disposePage_def Let_def bind_eq_Some_conv all_conj_distrib split: if_split_asm option.split_asm
      dest!: intwrite_step intro: pool_step_trans)

lemma allocPage_step: "allocPage s f = Some (st, no, fr, s') \<Longrightarrow> pool_step s s'"
  by (auto simp: allocPage_def Let_def bind_eq_Some_conv all_conj_distrib case_prod_unfold
      split: if_split_asm option.split_asm dest!: allocBuf_step allocatePage_step)
    (erule (1) pool_step_trans)+

lemma disposePage_step: "disposePage s f no = Some (st, s') \<Longrightarrow> pool_step s s'"
  by (auto simp: disposePage_def Let_def split: prod.split_asm if_split_asm
      dest!: disposePage_file_step intro: pool_step_trans)

lemma pool_write_step: "pool_step s (pool_write s i p)"
  by (simp add: pool_write_def)

section \<open>The same pool over other files\<close>

definition same_pool :: "'z pool_scheme \<Rightarrow> 'z pool_scheme \<Rightarrow> bool" where
  "same_pool s s' \<longleftrightarrow> clockHand s' = clockHand s \<and> numBufs s' = numBufs s \<and> hashTable s' = hashTable s \<and>
     bufTable s' = bufTable s \<and> bufPool s' = bufPool s"

lemma same_pool_ok:
  assumes ok: "pool_ok {} s" and same: "same_pool s s'" and io: "io_inv s'"
    and dp: "\<And>g q. (g, q) \<in> cached s \<Longrightarrow> disk_page s' g q = disk_page s g q"
  shows "pool_ok {} s'" "coherent {} s \<Longrightarrow> coherent {} s'" "pin_of s' = pin_of s" "cached s' = cached s"
    "page_of s' g q = (if (g, q) \<in> cached s then page_of s g q else disk_page s' g q)"
proof -
  note sp = same [unfolded same_pool_def]
  have c: "(bd_file (bufTable s ! i), bd_pageNo (bufTable s ! i)) \<in> cached s"
    if "i < numBufs s" "valid (bufTable s ! i)" for i
    using in_frame_map [OF ok that(1), of "bd_file (bufTable s ! i)" "bd_pageNo (bufTable s ! i)"] that(2)
    by (auto simp: in_frame_def cached_def)
  have "desc_ok s' (bufTable s ! i)" if "i < numBufs s" for i
    using pool_ok_desc [OF ok that] dp [OF c [OF that]] by (auto simp: desc_ok_def)
  then show "pool_ok {} s'" using ok io sp by (simp add: pool_ok_def)
  have "desc_coherent s' (bufTable s ! i) p" if "i < numBufs s" "desc_coherent s (bufTable s ! i) p" for i p
    using that(2) dp [OF c [OF that(1)]] by (auto simp: desc_coherent_def)
  then show "coherent {} s \<Longrightarrow> coherent {} s'" using sp by (simp add: coherent_def)
  show "pin_of s' = pin_of s" using sp by (simp add: pin_of_def fun_eq_iff split: option.split)
  show "cached s' = cached s" using sp by (simp add: cached_def)
  show "page_of s' g q = (if (g, q) \<in> cached s then page_of s g q else disk_page s' g q)"
    using sp by (auto simp: page_of_def cached_def split: option.splits)
qed

section \<open>Properties\<close>

text \<open>
  C16: The clock algorithm is live and safe. allocBuf returns BUFFEREXCEEDED exactly when every
  frame holds a pinned page; otherwise it returns a frame that was free or unpinned. Either way
  no page is lost: what a client can read of any page of any file is the same as before, no pin
  count changes, and the victim is no longer in the hash table.
\<close>
theorem allocBuf_live:
  assumes "pool_inv s" "coherent {} s"
  shows "\<exists>st fr s'. allocBuf s = Some (st, fr, s') \<and> page_of s' = page_of s \<and> pin_of s' = pin_of s \<and>
    (if \<exists>k < numBufs s. usable (bufTable s ! k)
     then st = OK \<and> (\<exists>h < numBufs s. fr = Some h \<and> usable (bufTable s ! h) \<and> pool_ok {h} s' \<and> coherent {h} s')
     else st = BUFFEREXCEEDED \<and> fr = None \<and> pool_inv s' \<and> coherent {} s')"
  using assms
proof (cases rule: allocBuf_result)
  case (1 s')
  then show ?thesis by auto
next
  case (2 h s')
  then show ?thesis by auto
qed

lemma allocBuf_live_witness:
  "\<exists>st fr s'. allocBuf example_pool = Some (st, fr, s') \<and> page_of s' = page_of example_pool"
  using allocBuf_live [OF example_pool(1,2)] by metis

text \<open>
  C17: Reading a page that exists either fails with BUFFEREXCEEDED because all frames are pinned
  and the page is not cached, or returns OK and a frame of the pool that holds exactly the
  page's current contents, pinned once more. No other page and no other pin count changes and
  the invariants of the pool hold again.
\<close>
theorem readPage_returns_page:
  assumes "pool_inv s" "coherent {} s" "page_of s f no = Some pg"
  shows "\<exists>st fr s'. readPage s f no = Some (st, fr, s') \<and> pool_inv s' \<and> coherent {} s' \<and> page_of s' = page_of s \<and>
    (if (\<exists>k < numBufs s. usable (bufTable s ! k)) \<or> bht_map (hashTable s) (f, no) \<noteq> None
     then st = OK \<and> (\<exists>i. fr = Some i \<and> bufPool s' ! i = pg \<and> bht_map (hashTable s') (f, no) = Some (int i)) \<and>
       pin_of s' = (\<lambda>g q. if g = f \<and> q = no then pin_of s g q + 1 else pin_of s g q)
     else st = BUFFEREXCEEDED \<and> fr = None \<and> pin_of s' = pin_of s)"
proof (cases "bht_map (hashTable s) (f, no)")
  case (Some i)
  obtain s' where "readPage s f no = Some (OK, Some (nat i), s')"
    "pool_ok {} s'" "coherent {} s'" "page_of s' = page_of s"
    "pin_of s' = (\<lambda>g q. if g = f \<and> q = no then pin_of s g q + 1 else pin_of s g q)"
    "hashTable s' = hashTable s" "bufPool s' = bufPool s"
    by (rule readPage_hit [OF assms(1,2) Some])
  moreover have "0 \<le> i" using Some pool_ok_map [OF assms(1)] by auto
  ultimately show ?thesis using Some assms(3) by (simp add: page_of_def)
next
  case None
  from assms show ?thesis
  proof (cases rule: readPage_spec)
    case (1 s')
    then show ?thesis by simp
  next
    case (2 i s')
    have "\<exists>k < numBufs s. usable (bufTable s ! k)"
    proof (rule ccontr)
      assume no: "\<not> ?thesis"
      then obtain h bs bt where "allocBuf s = Some (BUFFEREXCEEDED, None, s\<lparr>clockHand := h, bufStats := bs, bufTable := bt\<rparr>)"
        using allocBuf_full [OF assms(1)] by blast
      then show False using 2(1) None by (simp add: readPage_def lookup_pool)
    qed
    then show ?thesis using 2 by simp
  qed
qed

lemma readPage_returns_page_witness:
  "\<exists>st fr s'. readPage example_pool 4096 1 = Some (st, fr, s') \<and> page_of s' = page_of example_pool"
  using readPage_returns_page [OF example_pool(1,2), of 4096 1 zero_mem]
  by (force simp: example_pool(3) example_file)

text \<open>
  C18: flushFile returns OK exactly when no page of the file is pinned, and then every page that
  a client could read is on disk and none of the file is cached; otherwise it returns
  PAGEPINNED. In both cases no page of any file loses its contents.
\<close>
theorem flushFile_writes_back:
  assumes "pool_inv s" "coherent {} s" "f \<noteq> 0"
  shows "\<exists>st s'. flushFile s f = Some (st, s') \<and> pool_inv s' \<and> coherent {} s' \<and>
    page_of s' = page_of s \<and> pin_of s' = pin_of s \<and>
    st = (if \<forall>no. pin_of s f no = 0 then OK else PAGEPINNED) \<and>
    (st = OK \<longrightarrow> (\<forall>no. bht_map (hashTable s') (f, no) = None \<and> disk_page s' f no = page_of s f no))"
proof (rule flushFile_spec [OF assms])
  fix st s'
  assume A: "flushFile s f = Some (st, s')" "pool_inv s'" "coherent {} s'" "page_of s' = page_of s" "pin_of s' = pin_of s"
    "st = (if \<forall>no. pin_of s f no = 0 then OK else PAGEPINNED)"
    and B: "st = OK \<Longrightarrow> \<forall>no. bht_map (hashTable s') (f, no) = None \<and> disk_page s' f no = page_of s f no"
  show ?thesis using A B by (intro exI [of _ st] exI [of _ s']) blast
qed

lemma flushFile_writes_back_witness:
  "\<exists>s'. flushFile example_pool 4096 = Some (OK, s') \<and> page_of s' = page_of example_pool"
  using flushFile_writes_back [OF example_pool(1,2), of 4096] by (auto simp: example_pool(4))

text \<open>
  C19: allocPage on a well-formed file hands out a page that was not in use. When a frame can be
  had, the page is cached in it and pinned once, it is the only page that comes into use, and no
  other page changes. When all frames are pinned the call fails with BUFFEREXCEEDED, but the page
  stays allocated in the file: nothing gives it back.
\<close>
theorem allocPage_fresh:
  assumes "pool_inv s" "coherent {} s" "file_ok s f ps fl" "length ps < 2147483647"
  shows "\<exists>st no fr s' ps' fl'. allocPage s f = Some (st, Some no, fr, s') \<and> pool_inv s' \<and> coherent {} s' \<and>
    file_ok s' f ps' fl' \<and> no \<notin> used_pages ps fl \<and> used_pages ps' fl' = insert no (used_pages ps fl) \<and>
    (\<forall>g q. (g, q) \<noteq> (f, no) \<longrightarrow> page_of s' g q = page_of s g q) \<and>
    (if \<exists>k < numBufs s. usable (bufTable s ! k)
     then st = OK \<and> (\<exists>h. fr = Some h \<and> bht_map (hashTable s') (f, no) = Some (int h)) \<and> pin_of s' f no = 1
     else st = BUFFEREXCEEDED \<and> fr = None)"
  using assms
proof (cases rule: allocPage_pool_spec)
  case (1 no s' ps' fl')
  then show ?thesis by (intro exI [of _ BUFFEREXCEEDED] exI [of _ no] exI [of _ None] exI [of _ s'] exI [of _ ps'] exI [of _ fl']) auto
next
  case (2 no h s' ps' fl')
  have "\<exists>k < numBufs s. usable (bufTable s ! k)"
  proof (rule ccontr)
    assume full: "\<not> ?thesis"
    obtain no1 s1 where f1: "File_allocatePage s f = Some (OK, Some no1, s1)"
      and s1: "\<exists>d. s1 = s\<lparr>disk := d\<rparr>"
      using assms(3,4) allocatePage_spec [of s f _ ps fl] file_pages_SomeD [of s f ps] unfolding file_ok_def by blast
    obtain d where d: "s1 = s\<lparr>disk := d\<rparr>" using s1 by blast
    have wf: "0 < numBufs s1" "length (bufTable s1) = numBufs s1" "clockHand s1 < numBufs s1"
      using pool_okD [OF assms(1)] d by simp_all
    obtain found left s2 where run: "allocBuf_loop (2 * numBufs s1) s1 = (found, left, s2)" by (metis prod_cases3)
    have "\<not> (found \<or> left > 0)" using loop_spec [OF wf run] full d by fastforce
    then have "\<exists>s2. allocBuf s1 = Some (BUFFEREXCEEDED, None, s2)" using run by (simp add: allocBuf_def)
    then show False using f1 2(1) by (auto simp: allocPage_def)
  qed
  then show ?thesis
    using 2 by (intro exI [of _ OK] exI [of _ no] exI [of _ "Some h"] exI [of _ s'] exI [of _ ps'] exI [of _ fl']) auto
qed

lemma example_file_ok:
  "file_ok example_pool 4096 (the (disk example_io ''a'')) []"
  by (simp add: file_ok_def example_pool(6,7) example_file cached_def)
    (simp add: example_io_def db_file_def mem_simps)

lemma allocPage_fresh_witness:
  "\<exists>st no fr s'. allocPage example_pool 4096 = Some (st, Some no, fr, s') \<and>
     no \<notin> used_pages (the (disk example_io ''a'')) []"
  using allocPage_fresh [OF example_pool(1,2) example_file_ok] by (force simp: example_io_def)

text \<open>
  C23: A failing read strands the victim. When a page that does not exist is read while the pool
  is full of valid pages, the frame that was taken for it stays marked valid for its old page
  although the hash table no longer names it: a later read of that page loads a second copy, and
  flushFile of the old file may overwrite newer data with the stranded frame.
\<close>
theorem readPage_failure_strands_frame:
  assumes inv: "pool_inv s" and coh: "coherent {} s" and op: "file_pages s f \<noteq> None"
    and no: "page_of s f no = None" and full: "\<forall>k < numBufs s. valid (bufTable s ! k)"
    and us: "\<exists>k < numBufs s. usable (bufTable s ! k)"
  shows "\<exists>st s' h g q. readPage s f no = Some (st, None, s') \<and> st \<noteq> OK \<and> h < numBufs s \<and>
    in_frame (bufTable s' ! h) g q \<and> bht_map (hashTable s') (g, q) = None \<and> \<not> pool_inv s'"
proof -
  have unc: "bht_map (hashTable s) (f, no) = None"
    using no by (cases "bht_map (hashTable s) (f, no)") (simp_all add: page_of_def)
  from allocBuf_free [OF inv coh us] obtain h s1 where A: "allocBuf s = Some (OK, Some h, s1)"
    "h < numBufs s" "pool_ok {h} s1" "page_of s1 = page_of s" "numBufs s1 = numBufs s"
    "same_table (bufTable s) (bufTable s1)" "wrote_cached s s1"
    by metis
  let ?s1 = "s1\<lparr>bufStats := (bufStats s1)\<lparr>diskreads := diskreads (bufStats s1) + 1\<rparr>\<rparr>"
  have "bht_map (hashTable s1) (f, no) = None"
    by (rule evicted_uncached [OF inv A(3,5,6) unc])
  then have "disk_page ?s1 f no = None" using no A(4) by (simp add: page_of_uncached [symmetric])
  then have rd: "File_readPage ?s1 f no = Some (if no < 1 then BADPAGENO else UNIXERR, None)"
    using readPage_disk [of ?s1 f no] wrote_cached_open [OF A(7) op] by simp
  have sd: "same_desc (bufTable s ! i) (bufTable s1 ! i)" if "i < numBufs s" for i
    using A(6) pool_okD [OF inv] that by (simp add: same_table_def)
  let ?g = "bd_file (bufTable s1 ! h)" and ?q = "bd_pageNo (bufTable s1 ! h)"
  have fr: "in_frame (bufTable s1 ! h) ?g ?q" "in_frame (bufTable s ! h) ?g ?q"
    using full A(2) same_descD [OF sd [OF A(2)]] by (simp_all add: in_frame_def)
  have "bht_map (hashTable s1) (?g, ?q) = None"
  proof (rule ccontr)
    assume "bht_map (hashTable s1) (?g, ?q) \<noteq> None"
    then obtain j where j: "0 \<le> j" "nat j < numBufs s" "nat j \<noteq> h" "in_frame (bufTable s1 ! nat j) ?g ?q"
      using pool_ok_map [OF A(3), of ?g ?q] A(5) by auto
    then have "in_frame (bufTable s ! nat j) ?g ?q" using same_desc_simps(3) [OF sd [OF j(2)]] by simp
    then show False using in_frame_map [OF inv j(2)] in_frame_map [OF inv A(2) _ fr(2)] j by simp
  qed
  moreover have "\<not> pool_inv ?s1"
    using calculation fr(1) A(2,5) in_frame_map [of "{}" ?s1 h ?g ?q] by auto
  ultimately show ?thesis
    using A(1,2) unc rd fr(1)
    by (intro exI [of _ "if no < 1 then BADPAGENO else UNIXERR"] exI [of _ ?s1] exI [of _ h] exI [of _ ?g] exI [of _ ?q])
      (simp add: readPage_def lookup_pool Let_def)
qed


text \<open>A pool of one frame that holds a clean unpinned page.\<close>

lemma example_full_pool:
  "\<exists>s :: pool. pool_inv s \<and> coherent {} s \<and> file_pages s 4096 \<noteq> None \<and> page_of s 4096 7 = None \<and>
     (\<forall>k < numBufs s. valid (bufTable s ! k)) \<and> (\<exists>k < numBufs s. usable (bufTable s ! k))"
proof -
  let ?s = "BufMgr_new example_io (Suc 0)"
  have "int (Suc 0 * 6 div 5) < 1073741824" by simp
  note I = BufMgr_new_inv [OF example_io_inv zero_less_Suc this]
  have pg: "page_of ?s 4096 1 = Some zero_mem" by (simp add: I(3) example_file)
  have us: "usable (bufTable ?s ! 0)" "numBufs ?s = 1" by (simp_all add: BufMgr_new_fields usable_def)
  from I(1,2) pg show ?thesis
  proof (cases rule: readPage_spec)
    case (1 s')
    then show ?thesis using us by auto
  next
    case (2 i s')
    have i: "i = 0" "in_frame (bufTable s' ! 0) 4096 1" using pool_ok_map [OF 2(2), of 4096 1 "int i"] 2(5,9) us by auto
    have pin: "pin_of s' 4096 1 = 1" using 2(7) I(4) by simp
    have cl: "1 < pin_of s' 4096 1 \<or> True \<or> dirty (bufTable s' ! nat (int i)) \<or> disk_page s' 4096 1 = page_of s' 4096 1"
      by simp
    have pos: "0 < pin_of s' 4096 1" using pin by simp
    obtain s2 where U: "unPinPage s' 4096 1 True = (OK, s2)" "pool_ok {} s2" "coherent {} s2"
      "page_of s2 = page_of s'" "pin_of s2 = (\<lambda>g q. if g = 4096 \<and> q = 1 then pin_of s' g q - 1 else pin_of s' g q)"
      "hashTable s2 = hashTable s'" "numBufs s2 = numBufs s'" "disk_page s2 = disk_page s'" "wrote_cached s' s2"
      by (rule unPinPage_spec [OF 2(2,3,5) pos cl])
    have at: "bht_map (hashTable s2) (4096, 1) = Some (int 0)" using 2(5) U(6) i by simp
    then have "in_frame (bufTable s2 ! 0) 4096 1" using pool_ok_map [OF U(2), of 4096 1 0] by simp
    moreover have "pinCnt (bufTable s2 ! 0) = 0" using at pin U(5) by (simp add: pin_of_def fun_eq_iff split: if_splits)
    moreover have "file_pages s2 4096 \<noteq> None"
    proof -
      have "disk example_io ''a'' \<noteq> None" by (simp add: example_io_def)
      then have "file_pages ?s 4096 \<noteq> None" by (simp add: BufMgr_new_files example_file)
      then show ?thesis by (rule wrote_cached_open [OF U(9) wrote_cached_open [OF 2(8)]])
    qed
    moreover have "page_of s2 4096 7 = None" using U(4) 2(4) I(3) by (simp add: example_file)
    ultimately show ?thesis using U(2,3,7) 2(9) us by (intro exI [of _ s2]) (simp add: usable_def in_frame_def)
  qed
qed

lemma readPage_failure_strands_frame_witness:
  "\<exists>(s :: pool) st s'. pool_inv s \<and> readPage s 4096 7 = Some (st, None, s') \<and> \<not> pool_inv s'"
proof -
  obtain s :: pool where "pool_inv s" "coherent {} s" "file_pages s 4096 \<noteq> None" "page_of s 4096 7 = None"
    "\<forall>k < numBufs s. valid (bufTable s ! k)" "\<exists>k < numBufs s. usable (bufTable s ! k)"
    using example_full_pool by blast
  from readPage_failure_strands_frame [OF this] \<open>pool_inv s\<close> show ?thesis by blast
qed

end
