(* ===== verification/DB.thy ===== *)
theory DB
  imports Buf
begin

text \<open>
  The table of open files and the class DB (db.C): OpenFileHashTbl maps a file name to the File
  object that has it open, and DB creates, destroys, opens and closes files through it. File
  objects count how often they have been opened; the last close flushes the pages of the file
  from the buffer pool, closes the descriptor, takes the name out of the table and deletes the
  object. The state extends the buffer pool by the table. Object addresses are not reused.
\<close>

section \<open>The table of open files\<close>

record fileHashBucket =
  fb_fname :: string
  fb_file :: fptr

record OpenFileHashTbl =
  of_HTSIZE :: int
  of_ht :: "fileHashBucket list list"

definition OpenFileHashTbl_new :: OpenFileHashTbl where
  "OpenFileHashTbl_new = \<lparr>of_HTSIZE = 113, of_ht = replicate 113 []\<rparr>"

text \<open>A char is signed; the polynomial wraps in an int.\<close>

definition char_int :: "char \<Rightarrow> int" where
  "char_int c = (let n = int (of_char c) in if n \<ge> 128 then n - 256 else n)"

fun OpenFileHashTbl_hash_loop :: "int \<Rightarrow> string \<Rightarrow> int" where
  "OpenFileHashTbl_hash_loop value [] = value"
| "OpenFileHashTbl_hash_loop value (c # cs) = OpenFileHashTbl_hash_loop (wrap32 (31 * value + char_int c)) cs"

definition OpenFileHashTbl_hash :: "int \<Rightarrow> string \<Rightarrow> int" where
  "OpenFileHashTbl_hash htSize name = \<bar>c_rem (OpenFileHashTbl_hash_loop 0 name) htSize\<bar>"

definition OpenFileHashTbl_insert :: "OpenFileHashTbl \<Rightarrow> string \<Rightarrow> fptr \<Rightarrow> Status \<times> OpenFileHashTbl" where
  "OpenFileHashTbl_insert t name f =
     (let index = nat (OpenFileHashTbl_hash (of_HTSIZE t) name)
      in if chain_find (\<lambda>b. fb_fname b = name) (of_ht t ! index) \<noteq> None then (HASHTBLERROR, t)
         else (OK, t\<lparr>of_ht := (of_ht t)[index := \<lparr>fb_fname = name, fb_file = f\<rparr> # of_ht t ! index]\<rparr>))"

definition OpenFileHashTbl_find :: "OpenFileHashTbl \<Rightarrow> string \<Rightarrow> Status \<times> fptr option" where
  "OpenFileHashTbl_find t name =
     (let index = nat (OpenFileHashTbl_hash (of_HTSIZE t) name)
      in case chain_find (\<lambda>b. fb_fname b = name) (of_ht t ! index) of
           Some b \<Rightarrow> (OK, Some (fb_file b))
         | None \<Rightarrow> (HASHNOTFOUND, None))"

definition OpenFileHashTbl_erase :: "OpenFileHashTbl \<Rightarrow> string \<Rightarrow> Status \<times> OpenFileHashTbl" where
  "OpenFileHashTbl_erase t name =
     (let index = nat (OpenFileHashTbl_hash (of_HTSIZE t) name)
      in case chain_unlink (\<lambda>b. fb_fname b = name) (of_ht t ! index) of
           Some bs \<Rightarrow> (OK, t\<lparr>of_ht := (of_ht t)[index := bs]\<rparr>)
         | None \<Rightarrow> (HASHTBLERROR, t))"

definition of_inv :: "OpenFileHashTbl \<Rightarrow> bool" where
  "of_inv t \<longleftrightarrow> 0 < of_HTSIZE t \<and> length (of_ht t) = nat (of_HTSIZE t) \<and>
     chains_ok (\<lambda>n. nat (OpenFileHashTbl_hash (of_HTSIZE t) n)) fb_fname (of_ht t)"

definition of_map :: "OpenFileHashTbl \<Rightarrow> string \<Rightarrow> fptr option" where
  "of_map t name = map_option fb_file
     (chains_find (\<lambda>n. nat (OpenFileHashTbl_hash (of_HTSIZE t) n)) fb_fname (of_ht t) name)"

lemma of_hash_bounds:
  "0 < htSize \<Longrightarrow> 0 \<le> OpenFileHashTbl_hash htSize name \<and> OpenFileHashTbl_hash htSize name < htSize"
  using c_rem_bounds [of htSize "OpenFileHashTbl_hash_loop 0 name"] by (auto simp: OpenFileHashTbl_hash_def)

lemma of_new_inv: "of_inv OpenFileHashTbl_new"
  using of_hash_bounds [of 113] by (auto simp: of_inv_def OpenFileHashTbl_new_def chains_ok_def nat_less_iff)

lemma of_new_map: "of_map OpenFileHashTbl_new = Map.empty"
  using of_hash_bounds [of 113]
  by (auto simp: of_map_def OpenFileHashTbl_new_def chains_find_def fun_eq_iff nat_less_iff)

lemma find_of_map:
  "OpenFileHashTbl_find t name = (case of_map t name of Some f \<Rightarrow> (OK, Some f) | None \<Rightarrow> (HASHNOTFOUND, None))"
  by (simp add: OpenFileHashTbl_find_def of_map_def chains_find_def Let_def split: option.splits)

interpretation oft: keyed_table of_inv of_map OpenFileHashTbl_insert OpenFileHashTbl_erase
proof
  fix t :: OpenFileHashTbl and k :: string and v :: fptr
  assume inv: "of_inv t"
  let ?h = "\<lambda>n. nat (OpenFileHashTbl_hash (of_HTSIZE t) n)"
  have ok: "chains_ok ?h fb_fname (of_ht t)" using inv by (simp add: of_inv_def)
  have unlink: "chain_unlink (\<lambda>b. fb_fname b = k) (of_ht t ! ?h k) = None \<longleftrightarrow> of_map t k = None"
    by (simp add: chain_unlink_None of_map_def chains_find_def)
  show "\<exists>t'. OpenFileHashTbl_insert t k v = (OK, t') \<and> of_inv t' \<and> of_map t' = (of_map t)(k \<mapsto> v)"
    if none: "of_map t k = None"
  proof -
    let ?b = "\<lparr>fb_fname = k, fb_file = v\<rparr>"
    have "chains_find ?h fb_fname (of_ht t) (fb_fname ?b) = None"
      using none by (simp add: of_map_def)
    note I = chains_ok_insert [OF ok this]
    show ?thesis
      using none inv I
      by (auto simp: OpenFileHashTbl_insert_def of_map_def chains_find_def of_inv_def Let_def fun_eq_iff)
  qed
  show "OpenFileHashTbl_insert t k v = (HASHTBLERROR, t)" if "of_map t k \<noteq> None"
    using that by (simp add: OpenFileHashTbl_insert_def of_map_def chains_find_def Let_def)
  show "\<exists>t'. OpenFileHashTbl_erase t k = (OK, t') \<and> of_inv t' \<and> of_map t' = (of_map t)(k := None)"
    if some: "of_map t k \<noteq> None"
  proof -
    obtain bs where bs: "chain_unlink (\<lambda>b. fb_fname b = k) (of_ht t ! ?h k) = Some bs"
      using some unlink by auto
    from chains_ok_unlink [OF ok bs] show ?thesis
      using bs inv by (simp add: OpenFileHashTbl_erase_def of_map_def Let_def of_inv_def fun_eq_iff)
  qed
  show "OpenFileHashTbl_erase t k = (HASHTBLERROR, t)" if "of_map t k = None"
    using that unlink by (simp add: OpenFileHashTbl_erase_def Let_def)
qed

section \<open>Closing a File object\<close>

record db = pool +
  openFiles :: OpenFileHashTbl

text \<open>The result of flushFile is dropped.\<close>

definition File_close :: "'z db_scheme \<Rightarrow> fptr \<Rightarrow> (Status \<times> 'z db_scheme) option" where
  "File_close s f = do {
     fo \<leftarrow> files s f;
     if openCnt fo \<le> 0 then Some (FILENOTOPEN, s)
     else do {
       let cnt = openCnt fo - 1;
       let s = s\<lparr>files := (files s)(f \<mapsto> fo\<lparr>openCnt := cnt\<rparr>)\<rparr>;
       if cnt = 0 then do {
         (_, s) \<leftarrow> flushFile s f;
         Some (if fds s (unixFile fo) = None then (UNIXERR, s)
               else (OK, s\<lparr>fds := (fds s)(unixFile fo := None)\<rparr>)) }
       else Some (OK, s) }
   }"

text \<open>Deleting a File object closes the file whatever its open count.\<close>

definition File_delete :: "'z db_scheme \<Rightarrow> fptr \<Rightarrow> 'z db_scheme option" where
  "File_delete s f = do {
     fo \<leftarrow> files s f;
     if openCnt fo = 0 then Some (s\<lparr>files := (files s)(f := None)\<rparr>)
     else do {
       (_, s) \<leftarrow> File_close (s\<lparr>files := (files s)(f \<mapsto> fo\<lparr>openCnt := 1\<rparr>)\<rparr>) f;
       Some (s\<lparr>files := (files s)(f := None)\<rparr>) }
   }"

text \<open>The destructor of the table deletes the File objects that are still in it.\<close>

fun delete_buckets :: "fileHashBucket list \<Rightarrow> 'z db_scheme \<Rightarrow> 'z db_scheme option" where
  "delete_buckets [] s = Some s"
| "delete_buckets (b # bs) s = do {
     s \<leftarrow> (if fb_file b \<noteq> 0 then File_delete s (fb_file b) else Some s);
     delete_buckets bs s }"

definition OpenFileHashTbl_delete :: "'z db_scheme \<Rightarrow> 'z db_scheme option" where
  "OpenFileHashTbl_delete s = delete_buckets (concat (of_ht (openFiles s))) s"

section \<open>The class DB\<close>

definition DB_createFile :: "'z db_scheme \<Rightarrow> string \<Rightarrow> Status \<times> 'z db_scheme" where
  "DB_createFile s name =
     (if name = [] then (BADFILE, s)
      else if fst (OpenFileHashTbl_find (openFiles s) name) = OK then (FILEEXISTS, s)
      else File_create s name)"

definition DB_destroyFile :: "'z db_scheme \<Rightarrow> string \<Rightarrow> Status \<times> 'z db_scheme" where
  "DB_destroyFile s name =
     (if name = [] then (BADFILE, s)
      else if fst (OpenFileHashTbl_find (openFiles s) name) = OK then (FILEOPEN, s)
      else File_destroy s name)"

text \<open>
  When the file cannot be opened, filePtr is left pointing to the deleted object.
\<close>

definition DB_openFile :: "'z db_scheme \<Rightarrow> string \<Rightarrow> (Status \<times> fptr option \<times> 'z db_scheme) option" where
  "DB_openFile s name =
     (if name = [] then Some (BADFILE, None, s)
      else case OpenFileHashTbl_find (openFiles s) name of
        (OK, Some file) \<Rightarrow> do {
          (st, s) \<leftarrow> File_open s file;
          Some (st, Some file, s) }
      | _ \<Rightarrow> do {
          let (file, s) = File_new s name;
          (st, s) \<leftarrow> File_open s file;
          if st \<noteq> OK then do {
            s \<leftarrow> File_delete s file;
            Some (st, Some file, s) }
          else
            let (st, t) = OpenFileHashTbl_insert (openFiles s) name file
            in Some (st, Some file, s\<lparr>openFiles := t\<rparr>) })"

definition DB_closeFile :: "'z db_scheme \<Rightarrow> fptr \<Rightarrow> (Status \<times> 'z db_scheme) option" where
  "DB_closeFile s f =
     (if f = 0 then Some (BADFILEPTR, s)
      else do {
        (_, s) \<leftarrow> File_close s f;
        fo \<leftarrow> files s f;
        if openCnt fo = 0 then
          let (st, t) = OpenFileHashTbl_erase (openFiles s) (fileName fo)
          in if st \<noteq> OK then Some (BADFILEPTR, s\<lparr>openFiles := t\<rparr>)
             else do {
               s \<leftarrow> File_delete (s\<lparr>openFiles := t\<rparr>) f;
               Some (OK, s) }
        else Some (OK, s) })"


section \<open>The invariant of the open files\<close>

text \<open>
  The table names exactly the File objects that exist; each of them has its file open and
  counts at least one user. At most one object exists for a name. No name in the directory has
  a NUL in it, so that different names of the directory are different files.
\<close>

definition open_ok :: "'z db_scheme \<Rightarrow> bool" where
  "open_ok s \<longleftrightarrow> of_inv (openFiles s) \<and>
     (\<forall>name f. of_map (openFiles s) name = Some f \<longleftrightarrow> (\<exists>fo. files s f = Some fo \<and> fileName fo = name)) \<and>
     (\<forall>f fo. files s f = Some fo \<longrightarrow> 1 \<le> openCnt fo \<and> fileName fo \<noteq> [] \<and>
        fds s (unixFile fo) = Some (fileName fo) \<and> disk s (fileName fo) \<noteq> None) \<and>
     (\<forall>name. disk s name \<noteq> None \<longrightarrow> c_str name = name)"

definition db_inv :: "'z db_scheme \<Rightarrow> bool" where
  "db_inv s \<longleftrightarrow> pool_ok {} s \<and> coherent {} s \<and> open_ok s"

lemma open_okD:
  assumes "open_ok s" "files s f = Some fo"
  shows "1 \<le> openCnt fo" "fileName fo \<noteq> []" "fds s (unixFile fo) = Some (fileName fo)"
    "\<exists>ps. disk s (fileName fo) = Some ps" "of_map (openFiles s) (fileName fo) = Some f"
    "file_name s f = Some (fileName fo)" "file_pages s f = disk s (fileName fo)"
  using assms by (auto simp: open_ok_def file_name_def file_pages_def)

lemma open_ok_c_str: "open_ok s \<Longrightarrow> disk s name \<noteq> None \<Longrightarrow> c_str name = name"
  by (simp add: open_ok_def)

lemma db_inv_c_str: "db_inv s \<Longrightarrow> disk s name = Some ps \<Longrightarrow> c_str name = name"
  using open_ok_c_str [of s name] by (simp add: db_inv_def)

lemma open_ok_map:
  "open_ok s \<Longrightarrow> of_map (openFiles s) name = Some f \<longleftrightarrow> (\<exists>fo. files s f = Some fo \<and> fileName fo = name)"
  by (simp add: open_ok_def)

lemma open_ok_name_inj:
  assumes "open_ok s" "file_name s f = Some name" "file_name s g = Some name"
  shows "f = g"
proof -
  obtain fo go where f: "files s f = Some fo" and g: "files s g = Some go"
    using assms(2,3) by (auto simp: file_name_def bind_eq_Some_conv)
  have "fileName fo = name" "fileName go = name"
    using open_okD(6) [OF assms(1) f] open_okD(6) [OF assms(1) g] assms(2,3) by auto
  then show ?thesis using open_okD(5) [OF assms(1) f] open_okD(5) [OF assms(1) g] by simp
qed

lemma open_ok_unix_inj:
  "open_ok s \<Longrightarrow> files s f = Some fo \<Longrightarrow> files s g = Some go \<Longrightarrow> unixFile fo = unixFile go \<Longrightarrow> f = g"
  using open_okD(3,6) open_ok_name_inj by (metis option.inject)

lemma db_more: "pool.more s' = pool.more s \<Longrightarrow> openFiles s' = openFiles s"
  by (cases s; cases s') simp

lemma io_invI:
  assumes "\<And>f. files s f \<noteq> None \<Longrightarrow> 0 < f \<and> f < next_ptr s" "0 < next_ptr s"
    "\<And>fd. fds s fd \<noteq> None \<Longrightarrow> 0 \<le> fd \<and> fd < next_fd s" "0 \<le> next_fd s" "open_ok s"
  shows "io_inv s"
  using assms open_ok_name_inj unfolding io_inv_def by blast

lemma io_invD:
  assumes "io_inv s"
  shows "files s f = Some fo \<Longrightarrow> 0 < f \<and> f < next_ptr s" "0 < next_ptr s"
    "fds s fd = Some n \<Longrightarrow> 0 \<le> fd \<and> fd < next_fd s" "0 \<le> next_fd s"
    "files s (next_ptr s) = None" "fds s (next_fd s) = None" "files s 0 = None"
  using assms unfolding io_inv_def by force+

lemma cached_disk:
  assumes po: "pool_ok {} s" and c: "(g, q) \<in> cached s"
  shows "disk_page s g q \<noteq> None"
proof -
  obtain i where i: "nat i < numBufs s" "in_frame (bufTable s ! nat i) g q"
    using pool_ok_map [OF po] c by (auto simp: cached_def)
  show ?thesis using pool_ok_desc [OF po i(1)] i(2) by (simp add: desc_ok_def in_frame_def)
qed

section \<open>openFile\<close>

text \<open>The state after a further open of a file that is open already.\<close>

lemma openFile_again:
  assumes inv: "db_inv s" and name: "name \<noteq> []" and at: "of_map (openFiles s) name = Some f"
  obtains fo where "files s f = Some fo" "fileName fo = name"
    "DB_openFile s name = Some (OK, Some f, s\<lparr>files := (files s)(f \<mapsto> fo\<lparr>openCnt := openCnt fo + 1\<rparr>)\<rparr>)"
    "db_inv (s\<lparr>files := (files s)(f \<mapsto> fo\<lparr>openCnt := openCnt fo + 1\<rparr>)\<rparr>)"
    "page_of (s\<lparr>files := (files s)(f \<mapsto> fo\<lparr>openCnt := openCnt fo + 1\<rparr>)\<rparr>) = page_of s"
    "pin_of (s\<lparr>files := (files s)(f \<mapsto> fo\<lparr>openCnt := openCnt fo + 1\<rparr>)\<rparr>) = pin_of s"
    "file_pages (s\<lparr>files := (files s)(f \<mapsto> fo\<lparr>openCnt := openCnt fo + 1\<rparr>)\<rparr>) = file_pages s"
proof -
  have op: "open_ok s" and po: "pool_ok {} s" and co: "coherent {} s" using inv by (simp_all add: db_inv_def)
  obtain fo where fo: "files s f = Some fo" "fileName fo = name" using open_ok_map [OF op] at by auto
  have cnt: "1 \<le> openCnt fo" using open_okD(1) [OF op fo(1)] .
  then have cnt0: "0 \<le> openCnt fo" by simp
  let ?s = "s\<lparr>files := (files s)(f \<mapsto> fo\<lparr>openCnt := openCnt fo + 1\<rparr>)\<rparr>"
  have run: "DB_openFile s name = Some (OK, Some f, ?s)"
    using name at cnt fo by (simp add: DB_openFile_def find_of_map File_open_def)
  have fn: "file_name ?s = file_name s" using fo by (auto simp: file_name_def fun_eq_iff)
  then have fp: "file_pages ?s = file_pages s" by (simp add: file_pages_def fun_eq_iff)
  have op': "open_ok ?s"
    using op fo cnt0 by (auto simp: open_ok_def)
  have io: "io_inv ?s" using pool_okD [OF po] fn fo by (auto simp: io_inv_def)
  have dp: "disk_page ?s = disk_page s" using fp by (simp add: disk_page_def fun_eq_iff)
  have sp: "same_pool s ?s" by (simp add: same_pool_def)
  note S = same_pool_ok [OF po sp io]
  have "page_of ?s = page_of s" using dp by (simp add: page_of_def fun_eq_iff split: option.split)
  then show thesis using that [OF fo run] S(1-3) co op' dp fp by (simp add: db_inv_def)
qed

text \<open>The first open of a file makes a fresh File object.\<close>

lemma openFile_new:
  assumes inv: "db_inv s" and name: "name \<noteq> []" and at: "of_map (openFiles s) name = None"
    and d: "disk s name = Some ps"
  obtains s' where "DB_openFile s name = Some (OK, Some (next_ptr s), s')" "db_inv s'"
    "\<And>g q. g \<noteq> next_ptr s \<Longrightarrow> page_of s' g q = page_of s g q" "file_pages s' (next_ptr s) = Some ps"
    "\<And>q. page_of s' (next_ptr s) q = disk_page s' (next_ptr s) q" "pin_of s' = pin_of s" "disk s' = disk s"
    "\<And>g. g \<noteq> next_ptr s \<Longrightarrow> files s' g = files s g \<and> file_pages s' g = file_pages s g"
    "of_map (openFiles s') = (of_map (openFiles s))(name \<mapsto> next_ptr s)" "cached s' = cached s"
    "files s' (next_ptr s) = Some \<lparr>fileName = name, openCnt = 1, unixFile = next_fd s\<rparr>" "numBufs s' = numBufs s"
    "same_pool s s'" "files s (next_ptr s) = None" "db.more s' = db.more s"
proof -
  have op: "open_ok s" and po: "pool_ok {} s" and co: "coherent {} s" using inv by (simp_all add: db_inv_def)
  have io: "io_inv s" using pool_okD [OF po] by simp
  note I = io_invD [OF io]
  let ?f = "next_ptr s" and ?fo = "\<lparr>fileName = name, openCnt = 1, unixFile = next_fd s\<rparr>"
  have wf: "of_inv (openFiles s)" using op by (simp add: open_ok_def)
  obtain t where t: "OpenFileHashTbl_insert (openFiles s) name ?f = (OK, t)" "of_inv t"
    "of_map t = (of_map (openFiles s))(name \<mapsto> ?f)"
    using oft.ins_new [OF wf at] by blast
  define s' where "s' = s\<lparr>files := (files s)(?f \<mapsto> ?fo), next_ptr := ?f + 1, fds := (fds s)(next_fd s \<mapsto> name),
     next_fd := next_fd s + 1, openFiles := t\<rparr>"
  have run: "DB_openFile s name = Some (OK, Some ?f, s')"
    using name at d t(1) db_inv_c_str [OF inv d] by (simp add: DB_openFile_def find_of_map File_new_def File_open_def s'_def)
  have other: "files s' g = files s g" if "g \<noteq> ?f" for g using that by (simp add: s'_def)
  have fd: "unixFile fo \<noteq> next_fd s" if "files s g = Some fo" for g fo
    using open_okD(3) [OF op that] I(6) by auto
  have fn: "file_name s' g = (if g = ?f then Some name else file_name s g)" for g
    using fd [of g] by (cases "files s g") (auto simp: file_name_def s'_def)
  have fp: "file_pages s' g = (if g = ?f then Some ps else file_pages s g)" for g
    using fn d by (simp add: file_pages_def s'_def)
  have op': "open_ok s'"
    unfolding open_ok_def
  proof (intro conjI allI impI)
    show "of_inv (openFiles s')" using t(2) by (simp add: s'_def)
    fix n g
    have m: "of_map (openFiles s) n = Some g \<longleftrightarrow> (\<exists>fo. files s g = Some fo \<and> fileName fo = n)" for n g
      using open_ok_map [OF op] .
    show "of_map (openFiles s') n = Some g \<longleftrightarrow> (\<exists>fo. files s' g = Some fo \<and> fileName fo = n)"
    proof (cases "g = ?f")
      case True
      have "of_map (openFiles s) n \<noteq> Some ?f" using m [of n ?f] I(5) by simp
      then show ?thesis using True t(3) by (simp add: s'_def)
    next
      case False
      have "of_map (openFiles s) name \<noteq> Some g" using at by simp
      then show ?thesis using False t(3) m [of n g] m [of name g] by (auto simp: s'_def)
    qed
  next
    fix g fo assume g: "files s' g = Some fo"
    show "1 \<le> openCnt fo" "fileName fo \<noteq> []" "fds s' (unixFile fo) = Some (fileName fo)" "disk s' (fileName fo) \<noteq> None"
      using g open_okD(1-4) [OF op, of g fo] fd [of g fo] name d
      by (auto simp: s'_def split: if_splits)
  next
    show "c_str n = n" if "disk s' n \<noteq> None" for n using open_ok_c_str [OF op] that by (simp add: s'_def)
  qed
  have io': "io_inv s'"
    by (rule io_invI [OF _ _ _ _ op']) (use I in \<open>auto simp: s'_def split: if_splits, force+\<close>)
  have sp: "same_pool s s'" by (simp add: same_pool_def s'_def)
  have nc: "(?f, q) \<notin> cached s" for q
    using cached_disk [OF po, of ?f q] I(5) by (auto simp: disk_page_def file_pages_def file_name_def)
  have dp: "disk_page s' g q = disk_page s g q" if "g \<noteq> ?f" for g q
    using fp [of g] that by (simp add: disk_page_def)
  have dpc: "disk_page s' g q = disk_page s g q" if "(g, q) \<in> cached s" for g q
    using that nc by (intro dp) auto
  note S = same_pool_ok [OF po sp io' dpc]
  have pg: "page_of s' g q = page_of s g q" if "g \<noteq> ?f" for g q
    using S(5) dp [OF that] by (auto simp: page_of_def cached_def split: option.splits)
  have "db_inv s'" using S(1,2) co op' by (simp add: db_inv_def)
  then show thesis
    using that [OF run, of] pg S(3,4) S(5) nc fp other t(3) sp I(5) by (simp add: s'_def)
qed


section \<open>closeFile\<close>

text \<open>While a File object changes its open count, the pool does not notice.\<close>

lemma count_pool_ok:
  fixes n :: int
  assumes po: "pool_ok {} s" and fo: "files s f = Some fo"
  defines "s' \<equiv> s\<lparr>files := (files s)(f \<mapsto> fo\<lparr>openCnt := n\<rparr>)\<rparr>"
  shows "pool_ok {} s'" "coherent {} s \<Longrightarrow> coherent {} s'" "page_of s' = page_of s" "pin_of s' = pin_of s"
    "cached s' = cached s" "file_pages s' = file_pages s" "disk_page s' = disk_page s" "file_name s' = file_name s"
proof -
  show fn: "file_name s' = file_name s" using fo by (auto simp: file_name_def fun_eq_iff s'_def)
  then show fp: "file_pages s' = file_pages s" by (simp add: file_pages_def fun_eq_iff s'_def)
  have io: "io_inv s'" using pool_okD [OF po] fn fo by (auto simp: io_inv_def s'_def)
  show dp: "disk_page s' = disk_page s" using fp by (simp add: disk_page_def fun_eq_iff)
  have sp: "same_pool s s'" by (simp add: same_pool_def s'_def)
  note S = same_pool_ok [OF po sp io]
  show "pool_ok {} s'" "coherent {} s \<Longrightarrow> coherent {} s'" "pin_of s' = pin_of s" "cached s' = cached s"
    using S(1-4) dp by simp_all
  show "page_of s' = page_of s" using dp by (simp add: page_of_def fun_eq_iff s'_def split: option.split)
qed

lemma closeFile_more:
  assumes inv: "db_inv s" and fo: "files s f = Some fo" and cnt: "openCnt fo > 1"
  defines "s' \<equiv> s\<lparr>files := (files s)(f \<mapsto> fo\<lparr>openCnt := openCnt fo - 1\<rparr>)\<rparr>"
  shows "DB_closeFile s f = Some (OK, s')" "db_inv s'" "page_of s' = page_of s" "pin_of s' = pin_of s"
    "file_pages s' = file_pages s"
proof -
  have op: "open_ok s" and po: "pool_ok {} s" and co: "coherent {} s" using inv by (simp_all add: db_inv_def)
  have "0 < f" using io_invD(1) pool_okD [OF po] fo by blast
  then show "DB_closeFile s f = Some (OK, s')"
    using fo cnt by (simp add: DB_closeFile_def File_close_def s'_def)
  have "openCnt fo - 1 \<ge> 1" using cnt by simp
  then have "open_ok s'" using op fo by (auto simp: open_ok_def s'_def)
  then show "db_inv s'" using count_pool_ok [OF po fo] co by (simp add: db_inv_def s'_def)
  show "page_of s' = page_of s" "pin_of s' = pin_of s" "file_pages s' = file_pages s"
    using count_pool_ok [OF po fo] by (simp_all add: s'_def)
qed

lemma closeFile_last:
  assumes inv: "db_inv s" and fo: "files s f = Some fo" and cnt: "openCnt fo = 1"
    and free: "\<And>no. pin_of s f no = 0"
  obtains s' ps ps' where "DB_closeFile s f = Some (OK, s')" "db_inv s'" "files s' = (files s)(f := None)"
    "\<And>g q. g \<noteq> f \<Longrightarrow> page_of s' g q = page_of s g q" "\<And>g q. pin_of s' g q = pin_of s g q"
    "disk s (fileName fo) = Some ps" "disk s' (fileName fo) = Some ps'" "length ps' = length ps"
    "\<And>no. 1 \<le> no \<Longrightarrow> no < int (length ps) \<Longrightarrow> page_of s f no = Some (ps' ! nat no)"
    "of_map (openFiles s') = (of_map (openFiles s))(fileName fo := None)" "numBufs s' = numBufs s"
    "\<And>n. n \<noteq> fileName fo \<Longrightarrow> disk s' n = disk s n" "\<And>g. g \<noteq> f \<Longrightarrow> file_pages s' g = file_pages s g"
    "\<And>g q. g \<noteq> f \<Longrightarrow> bht_map (hashTable s') (g, q) = bht_map (hashTable s) (g, q)"
    "\<And>g q. g \<noteq> f \<Longrightarrow> settled s g q \<Longrightarrow> settled s' g q" "db.more s' = db.more s"
    "\<And>i. i < length ps \<Longrightarrow> (f, int i) \<notin> cached s \<Longrightarrow> ps' ! i = ps ! i"
proof -
  have op: "open_ok s" and po: "pool_ok {} s" and co: "coherent {} s" using inv by (simp_all add: db_inv_def)
  note O = open_okD [OF op fo]
  note I = io_invD [OF pool_okD [OF po, THEN conjunct2, THEN conjunct2, THEN conjunct2, THEN conjunct2, THEN conjunct1]]
  have f0: "f \<noteq> 0" using I(1) [OF fo] by simp
  let ?s1 = "s\<lparr>files := (files s)(f \<mapsto> fo\<lparr>openCnt := 0\<rparr>)\<rparr>"
  note C = count_pool_ok [OF po fo, of 0]
  obtain st s2 where F: "flushFile ?s1 f = Some (st, s2)" "pool_ok {} s2" "coherent {} s2"
    "page_of s2 = page_of ?s1" "pin_of s2 = pin_of ?s1" "disk_changes (cached ?s1) ?s1 s2"
    "cached s2 \<subseteq> cached ?s1" "st = (if \<forall>no. pin_of ?s1 f no = 0 then OK else PAGEPINNED)"
    "st = OK \<Longrightarrow> (\<forall>no. bht_map (hashTable s2) (f, no) = None \<and> disk_page s2 f no = page_of ?s1 f no)"
    by (rule flushFile_spec [OF C(1) C(2) [OF co] f0]) (rule that)
  have none: "bht_map (hashTable s2) (f, no) = None" "disk_page s2 f no = page_of s f no" for no
    using F(8,9) C(3,4) free by auto
  have step: "pool_step ?s1 s2" by (rule flushFile_step [OF F(1)])
  then have fr: "fds s2 = fds s" "next_fd s2 = next_fd s" "files s2 = (files s)(f \<mapsto> fo\<lparr>openCnt := 0\<rparr>)"
    "next_ptr s2 = next_ptr s" "openFiles s2 = openFiles s"
    by (auto simp: pool_step_def dest!: db_more)
  have wf: "of_inv (openFiles s)" using op by (simp add: open_ok_def)
  obtain t where t: "OpenFileHashTbl_erase (openFiles s) (fileName fo) = (OK, t)" "of_inv t"
    "of_map t = (of_map (openFiles s))(fileName fo := None)"
    using oft.del_old [OF wf, of "fileName fo"] O(5) by auto
  define s' where "s' = s2\<lparr>fds := (fds s2)(unixFile fo := None), openFiles := t, files := (files s2)(f := None)\<rparr>"
  have run: "DB_closeFile s f = Some (OK, s')"
    using f0 fo cnt F(1) fr O(3) t(1)
    by (simp add: DB_closeFile_def File_close_def File_delete_def s'_def)
  have files: "files s' = (files s)(f := None)" by (simp add: s'_def fr)
  have fd: "unixFile go \<noteq> unixFile fo" if "files s g = Some go" "g \<noteq> f" for g go
    using open_ok_unix_inj [OF op that(1) fo] that(2) by auto
  have fn: "file_name s' g = (if g = f then None else file_name s2 g)" for g
    using fd [of g] by (cases "files s g") (auto simp: file_name_def s'_def fr)
  have fp: "file_pages s' g = (if g = f then None else file_pages s2 g)" for g
    using fn [of g] by (simp add: file_pages_def s'_def)
  obtain ps where ps: "disk s (fileName fo) = Some ps" using O(4) by auto
  have fpg: "\<exists>ps'. file_pages s2 g = Some ps' \<and> length ps' = length ps" if "file_pages s g = Some ps" for g ps
    using F(6) that C(6) unfolding disk_changes_def by metis
  have dn: "disk s2 (fileName go) \<noteq> None" if g: "files s g = Some go" for g go
  proof -
    obtain ps where "file_pages s g = Some ps" using open_okD(4,7) [OF op g] by auto
    then obtain ps' where "file_pages s2 g = Some ps'" using fpg by blast
    moreover have "file_name s2 g = Some (fileName go)"
      using F(6) C(8) open_okD(6) [OF op g] by (simp add: disk_changes_def)
    ultimately show ?thesis by (simp add: file_pages_def)
  qed
  obtain ps' where ps': "file_pages s2 f = Some ps'" "length ps' = length ps"
    using fpg [of f ps] O(7) ps by auto
  have "file_name s2 f = Some (fileName fo)" using F(6) C(8) O(6) by (simp add: disk_changes_def)
  then have dsk: "disk s' (fileName fo) = Some ps'" using ps'(1) by (simp add: file_pages_def s'_def)
  have m': "of_map (openFiles s') = (of_map (openFiles s))(fileName fo := None)"
    by (simp add: s'_def t(3))
  have do: "disk s' n = disk s n" if "n \<noteq> fileName fo" for n
    using flushFile_loop_other [OF F(1) [unfolded flushFile_def], of "fileName fo" n] C(8) O(6) that by (simp add: s'_def)
  have op': "open_ok s'"
    unfolding open_ok_def
  proof (intro conjI allI impI)
    show "of_inv (openFiles s')" using t(2) by (simp add: s'_def)
    fix n g
    show "of_map (openFiles s') n = Some g \<longleftrightarrow> (\<exists>fo. files s' g = Some fo \<and> fileName fo = n)"
    proof (cases "g = f")
      case True
      have "of_map (openFiles s) n = Some f \<longleftrightarrow> n = fileName fo"
        using open_ok_map [OF op, of n f] fo by auto
      then show ?thesis using True m' files by simp
    next
      case False
      have "of_map (openFiles s) (fileName fo) \<noteq> Some g" using O(5) False by simp
      then show ?thesis using open_ok_map [OF op, of n g] False m' files by (cases "n = fileName fo") auto
    qed
  next
    fix g go assume "files s' g = Some go"
    then have g: "files s g = Some go" "g \<noteq> f" using files by (auto split: if_splits)
    note G = open_okD [OF op g(1)]
    show "1 \<le> openCnt go" "fileName go \<noteq> []" "fds s' (unixFile go) = Some (fileName go)" "disk s' (fileName go) \<noteq> None"
      using G(1-3) fd [OF g] dn [OF g(1)] by (simp_all add: s'_def fr)
  next
    show "c_str n = n" if "disk s' n \<noteq> None" for n
      using that do [of n] open_ok_c_str [OF op, of n] O(4) by (cases "n = fileName fo") auto
  qed
  have io': "io_inv s'"
  proof (rule io_invI [OF _ _ _ _ op'])
    fix g assume "files s' g \<noteq> None"
    then have "files s g \<noteq> None" by (simp add: files split: if_splits)
    then show "0 < g \<and> g < next_ptr s'" using I(1) by (auto simp: s'_def fr)
  next
    fix fd assume "fds s' fd \<noteq> None"
    then have "fds s fd \<noteq> None" by (simp add: s'_def fr split: if_splits)
    then show "0 \<le> fd \<and> fd < next_fd s'" using I(3) by (auto simp: s'_def fr)
  qed (use I(2,4) in \<open>simp_all add: s'_def fr\<close>)
  have sp: "same_pool s2 s'" by (simp add: same_pool_def s'_def)
  have dpc: "disk_page s' g q = disk_page s2 g q" if "(g, q) \<in> cached s2" for g q
    using that none(1) fp [of g] by (auto simp: disk_page_def cached_def)
  note S = same_pool_ok [OF F(2) sp io' dpc]
  have "db_inv s'" using S(1) S(2) [OF _ F(3)] op' by (simp add: db_inv_def)
  moreover have pgo: "page_of s' g q = page_of s g q" if "g \<noteq> f" for g q
  proof -
    have "page_of s' g q = page_of s2 g q"
      using S(5) fp [of g] that by (auto simp: page_of_def cached_def disk_page_def split: option.splits)
    then show ?thesis using F(4) C(3) by simp
  qed
  moreover have "page_of s f no = Some (ps' ! nat no)" if "1 \<le> no" "no < int (length ps)" for no
    using none(2) [of no] ps' that by (simp add: disk_page_def)
  moreover note do
  moreover have fpo: "file_pages s' g = file_pages s g" if "g \<noteq> f" for g
  proof (cases "file_name s g")
    case (Some n)
    have "file_name s2 g = file_name s g" using F(6) C(8) by (simp add: disk_changes_def)
    moreover have "n \<noteq> fileName fo" using open_ok_name_inj [OF op] Some O(6) that by blast
    ultimately show ?thesis using that Some fn [of g] do [of n] by (simp add: file_pages_def)
  next
    case None
    have "file_name s2 g = file_name s g" using F(6) C(8) by (simp add: disk_changes_def)
    then show ?thesis using that None fn [of g] by (simp add: file_pages_def)
  qed
  moreover have mp: "bht_map (hashTable s') (g, q) = bht_map (hashTable s) (g, q)"
    and tb: "bht_map (hashTable s) (g, q) = Some i \<Longrightarrow> bufTable s' ! nat i = bufTable s ! nat i" if "g \<noteq> f" for g q i
    using flushFile_others [OF F(1) C(1) F(2) _ that] step by (simp_all add: pool_step_def s'_def)
  moreover have "settled s' g q" if g: "g \<noteq> f" and s: "settled s g q" for g q
  proof -
    have "disk_page s' g q = disk_page s g q" using fpo [OF g] by (simp add: disk_page_def)
    then show ?thesis using s pgo [OF g] mp [OF g] tb [OF g] by (auto simp: settled_def)
  qed
  moreover have "numBufs s' = numBufs s" using step by (simp add: pool_step_def s'_def)
  moreover have "ps' ! i = ps ! i" if "i < length ps" "(f, int i) \<notin> cached s" for i
  proof -
    have "file_pages ?s1 f = Some ps" using O(7) ps C(6) by simp
    then show ?thesis using F(6) that C(5) ps'(1) unfolding disk_changes_def by fastforce
  qed
  moreover have "db.more s' = db.more s"
  proof -
    have "pool.more s2 = pool.more s" using step by (simp add: pool_step_def)
    then have "db.more s2 = db.more s" by (cases s; cases s2) simp
    then show ?thesis by (simp add: s'_def)
  qed
  ultimately show thesis
    using that [OF run _ files _ _ ps dsk ps'(2)] S(3) F(5) C(4) t(3) by (simp add: s'_def)
qed


section \<open>Buffer manager calls keep the invariant\<close>

lemma disk_names_kept:
  assumes op: "open_ok s" and fn: "file_name s' = file_name s" and cl: "closed_disk s' = closed_disk s" and d: "disk s' n \<noteq> None"
  shows "c_str n = n"
proof (cases "\<exists>g. file_name s g = Some n")
  case True
  then obtain g fo where "files s g = Some fo" "file_name s g = Some n" by (auto simp: file_name_def bind_eq_Some_conv)
  then have "disk s n \<noteq> None" using open_okD(4,6) [OF op, of g fo] by simp
  then show ?thesis by (rule open_ok_c_str [OF op])
next
  case False
  then have "disk s' n = disk s n" using fun_cong [OF cl, of n] fn by (simp add: closed_disk_def)
  then show ?thesis using open_ok_c_str [OF op] d by simp
qed

lemma db_inv_step:
  assumes inv: "db_inv s" and st: "pool_step s s'" and ok: "pool_ok {} s'" "coherent {} s'"
    and dc: "disk_changes A s s'"
  shows "db_inv s'"
proof -
  have op: "open_ok s" using inv by (simp add: db_inv_def)
  have eq: "fds s' = fds s" "files s' = files s" "openFiles s' = openFiles s"
    using st by (auto simp: pool_step_def dest: db_more)
  have dn: "disk s' (fileName fo) \<noteq> None" if g: "files s f = Some fo" for f fo
  proof -
    obtain ps where "file_pages s f = Some ps" using open_okD(4,7) [OF op g] by auto
    then obtain ps' where "file_pages s' f = Some ps'" using dc unfolding disk_changes_def by blast
    moreover have "file_name s' f = Some (fileName fo)"
      using open_okD(6) [OF op g] eq by (simp add: file_name_def)
    ultimately show ?thesis by (simp add: file_pages_def)
  qed
  have "open_ok s'"
    unfolding open_ok_def eq
  proof (intro conjI allI impI)
    have "file_name s' = file_name s" "closed_disk s' = closed_disk s"
      using st eq by (simp_all add: pool_step_def file_name_def fun_eq_iff)
    then show "c_str n = n" if "disk s' n \<noteq> None" for n by (rule disk_names_kept [OF op _ _ that])
    show "of_inv (openFiles s)" using op by (simp add: open_ok_def)
    show "of_map (openFiles s) n = Some g \<longleftrightarrow> (\<exists>fo. files s g = Some fo \<and> fileName fo = n)" for n g
      by (rule open_ok_map [OF op])
    fix f fo assume f: "files s f = Some fo"
    show "1 \<le> openCnt fo" "fileName fo \<noteq> []" "fds s (unixFile fo) = Some (fileName fo)" "disk s' (fileName fo) \<noteq> None"
      using open_okD(1-3) [OF op f] dn [OF f] by simp_all
  qed
  then show ?thesis using ok by (simp add: db_inv_def)
qed

text \<open>A fresh system over a directory: no file is open and the pool is empty.\<close>

definition db_start :: "(string \<Rightarrow> page list option) \<Rightarrow> nat \<Rightarrow> db" where
  "db_start d n = pool.extend (BufMgr_new \<lparr>disk = d, fds = Map.empty, next_fd = 3, files = Map.empty, next_ptr = 4096\<rparr> n)
     \<lparr>openFiles = OpenFileHashTbl_new\<rparr>"

lemma db_start_fields:
  "disk (db_start d n) = d" "fds (db_start d n) = Map.empty" "next_fd (db_start d n) = 3"
  "files (db_start d n) = Map.empty" "next_ptr (db_start d n) = 4096" "openFiles (db_start d n) = OpenFileHashTbl_new"
  "numBufs (db_start d n) = n" "bufPool (db_start d n) = replicate n zero_mem"
  "hashTable (db_start d n) = BufHashTbl_new (wrap32 (int (n * 6 div 5) * 2) div 2 + 1)"
  "length (bufTable (db_start d n)) = n" "clockHand (db_start d n) = n - 1"
  "i < n \<Longrightarrow> bufTable (db_start d n) ! i = \<lparr>bd_file = 0, bd_pageNo = 0, bd_frameNo = int i, pinCnt = 0,
     dirty = False, valid = False, refbit = False\<rparr>"
  by (simp_all add: db_start_def BufMgr_new_def io.defs pool.defs)

lemma db_start_inv:
  assumes "0 < n" "int (n * 6 div 5) < 1073741824" "\<forall>x \<in> dom d. c_str x = x"
  shows "db_inv (db_start d n)" "page_of (db_start d n) = (\<lambda>f no. None)" "pin_of (db_start d n) = (\<lambda>f no. 0)"
proof -
  let ?s = "db_start d n"
  have m: "bht_map (hashTable ?s) = Map.empty" "bht_inv (hashTable ?s)"
    using assms(2) by (simp_all add: db_start_fields bht_new_map bht_new_inv)
  have op: "open_ok ?s" using assms(3) by (auto simp: dom_def open_ok_def db_start_fields of_new_inv of_new_map)
  have io: "io_inv ?s" by (rule io_invI [OF _ _ _ _ op]) (simp_all add: db_start_fields)
  have "pool_ok {} ?s"
    using assms m io by (auto simp: pool_ok_def db_start_fields(4,7,8,10-12) in_frame_def desc_ok_def)
  moreover have "coherent {} ?s" by (simp add: coherent_def db_start_fields(7,12) desc_coherent_def)
  ultimately show "db_inv ?s" using op by (simp add: db_inv_def)
  show "page_of ?s = (\<lambda>f no. None)" "pin_of ?s = (\<lambda>f no. 0)"
    by (simp_all add: page_of_def pin_of_def m fun_eq_iff disk_page_def file_pages_def file_name_def db_start_fields(4))
qed

section \<open>Properties\<close>

text \<open>
  Opening a file that exists returns a File object that has it open and leaves every page
  of every other file as it was: the first open makes a fresh object with open count one over
  the pages on disk, a further open returns the same object, counts it once more and changes no
  page at all.
\<close>
theorem DB_openFile_opens:
  assumes "db_inv s" "name \<noteq> []" "disk s name = Some ps"
  shows "\<exists>f s' fo. DB_openFile s name = Some (OK, Some f, s') \<and> db_inv s' \<and> files s' f = Some fo \<and> fileName fo = name \<and>
    (\<forall>g q. g \<noteq> f \<longrightarrow> page_of s' g q = page_of s g q) \<and> pin_of s' = pin_of s \<and>
    (case of_map (openFiles s) name of
       Some g \<Rightarrow> f = g \<and> openCnt fo = openCnt (the (files s g)) + 1 \<and> page_of s' = page_of s
     | None \<Rightarrow> files s f = None \<and> openCnt fo = 1 \<and> file_pages s' f = Some ps)"
proof (cases "of_map (openFiles s) name")
  case None
  have "files s (next_ptr s) = None"
    using io_invD(5) pool_okD assms(1) unfolding db_inv_def by blast
  moreover obtain s' where "DB_openFile s name = Some (OK, Some (next_ptr s), s')" "db_inv s'"
    "\<And>g q. g \<noteq> next_ptr s \<Longrightarrow> page_of s' g q = page_of s g q" "file_pages s' (next_ptr s) = Some ps"
    "pin_of s' = pin_of s" "files s' (next_ptr s) = Some \<lparr>fileName = name, openCnt = 1, unixFile = next_fd s\<rparr>"
    by (rule openFile_new [OF assms(1,2) None assms(3)]) (rule that)
  ultimately show ?thesis using None by simp
next
  case (Some f)
  from openFile_again [OF assms(1,2) Some] obtain fo where O: "files s f = Some fo" "fileName fo = name"
    "DB_openFile s name = Some (OK, Some f, s\<lparr>files := (files s)(f \<mapsto> fo\<lparr>openCnt := openCnt fo + 1\<rparr>)\<rparr>)"
    "db_inv (s\<lparr>files := (files s)(f \<mapsto> fo\<lparr>openCnt := openCnt fo + 1\<rparr>)\<rparr>)"
    "page_of (s\<lparr>files := (files s)(f \<mapsto> fo\<lparr>openCnt := openCnt fo + 1\<rparr>)\<rparr>) = page_of s"
    "pin_of (s\<lparr>files := (files s)(f \<mapsto> fo\<lparr>openCnt := openCnt fo + 1\<rparr>)\<rparr>) = pin_of s"
    by metis
  then show ?thesis
    using Some by (intro exI [of _ f] exI [of _ "s\<lparr>files := (files s)(f \<mapsto> fo\<lparr>openCnt := openCnt fo + 1\<rparr>)\<rparr>"]
        exI [of _ "fo\<lparr>openCnt := openCnt fo + 1\<rparr>"]) simp
qed

text \<open>
  C25: The last close of a file whose pages are not pinned puts everything a client could read
  of the file on disk, deletes the File object and its entry in the table, and touches no other
  file.
\<close>
theorem DB_closeFile_writes_back:
  assumes "db_inv s" "files s f = Some fo" "openCnt fo = 1" "\<And>no. pin_of s f no = 0"
  shows "\<exists>s' ps ps'. DB_closeFile s f = Some (OK, s') \<and> db_inv s' \<and> files s' = (files s)(f := None) \<and>
    of_map (openFiles s') (fileName fo) = None \<and> (\<forall>g q. g \<noteq> f \<longrightarrow> page_of s' g q = page_of s g q) \<and>
    disk s (fileName fo) = Some ps \<and> disk s' (fileName fo) = Some ps' \<and> length ps' = length ps \<and>
    (\<forall>no. 1 \<le> no \<and> no < int (length ps) \<longrightarrow> page_of s f no = Some (ps' ! nat no))"
proof (rule closeFile_last [OF assms])
  fix s' ps ps'
  assume "DB_closeFile s f = Some (OK, s')" "db_inv s'" "files s' = (files s)(f := None)"
    and "\<And>g q. g \<noteq> f \<Longrightarrow> page_of s' g q = page_of s g q"
    and "disk s (fileName fo) = Some ps" "disk s' (fileName fo) = Some ps'" "length ps' = length ps"
    and "\<And>no. 1 \<le> no \<Longrightarrow> no < int (length ps) \<Longrightarrow> page_of s f no = Some (ps' ! nat no)"
    and "of_map (openFiles s') = (of_map (openFiles s))(fileName fo := None)"
  then show ?thesis by (intro exI [of _ s'] exI [of _ ps] exI [of _ ps']) simp
qed

text \<open>
  C26: closeFile drops the result of flushFile. When a page of the file is still pinned, closeFile
  answers OK and deletes the File object all the same; the page is on disk what it was before,
  whatever its users have written, and their contents are left in a valid frame for a file that no
  longer exists; writing it back later goes through a dangling pointer.
\<close>
theorem DB_closeFile_drops_PAGEPINNED:
  assumes inv: "db_inv s" and fo: "files s f = Some fo" and cnt: "openCnt fo = 1" and pin: "0 < pin_of s f no"
  shows "\<exists>s' i ps ps'. DB_closeFile s f = Some (OK, s') \<and> files s' f = None \<and>
    disk s (fileName fo) = Some ps \<and> disk s' (fileName fo) = Some ps' \<and> 1 \<le> no \<and> no < int (length ps) \<and>
    length ps' = length ps \<and> ps' ! nat no = ps ! nat no \<and> i < numBufs s' \<and> in_frame (bufTable s' ! i) f no \<and>
    0 < pinCnt (bufTable s' ! i) \<and> page_of s f no = Some (bufPool s' ! i) \<and> \<not> db_inv s'"
proof -
  have op: "open_ok s" and po: "pool_ok {} s" and co: "coherent {} s" using inv by (simp_all add: db_inv_def)
  note O = open_okD [OF op fo]
  have f0: "f \<noteq> 0" using io_invD(1) pool_okD [OF po] fo by blast
  let ?s1 = "s\<lparr>files := (files s)(f \<mapsto> fo\<lparr>openCnt := 0\<rparr>)\<rparr>"
  note C = count_pool_ok [OF po fo, of 0]
  obtain st s2 where F: "flushFile ?s1 f = Some (st, s2)" "pool_ok {} s2" "pin_of s2 = pin_of ?s1" "page_of s2 = page_of ?s1"
    "disk_changes (cached ?s1) ?s1 s2"
    by (rule flushFile_spec [OF C(1) C(2) [OF co] f0]) (rule that)
  have fr: "fds s2 = fds s" "files s2 = (files s)(f \<mapsto> fo\<lparr>openCnt := 0\<rparr>)" "openFiles s2 = openFiles s"
    using flushFile_step [OF F(1)] by (auto simp: pool_step_def dest!: db_more)
  have wf: "of_inv (openFiles s)" using op by (simp add: open_ok_def)
  obtain t where t: "OpenFileHashTbl_erase (openFiles s) (fileName fo) = (OK, t)"
    using oft.del_old [OF wf, of "fileName fo"] O(5) by auto
  define s' where "s' = s2\<lparr>fds := (fds s2)(unixFile fo := None), openFiles := t, files := (files s2)(f := None)\<rparr>"
  have run: "DB_closeFile s f = Some (OK, s')"
    using f0 fo cnt F(1) fr O(3) t by (simp add: DB_closeFile_def File_close_def File_delete_def s'_def)
  have p2: "0 < pin_of s2 f no" using F(3) C(4) pin by simp
  then obtain i where i: "bht_map (hashTable s2) (f, no) = Some i"
    by (cases "bht_map (hashTable s2) (f, no)") (simp_all add: pin_of_def)
  have fr2: "nat i < numBufs s2" "in_frame (bufTable s2 ! nat i) f no" using pool_ok_map [OF F(2)] i by auto
  have "page_of s2 f no = Some (bufPool s2 ! nat i)" using i by (simp add: page_of_def)
  then have pg: "page_of s f no = Some (bufPool s2 ! nat i)" using F(4) C(3) by simp
  have pin1: "0 < pin_of ?s1 f no" using pin C(4) by simp
  have "(f, no) \<in> cached s" using pin by (auto simp: cached_def pin_of_def split: option.splits)
  then have "disk_page ?s1 f no \<noteq> None" using cached_disk [OF po] C(7) by simp
  then obtain q where "disk_page ?s1 f no = Some q" by blast
  moreover note flushFile_pinned [OF F(1) C(1) pin1 this]
  moreover obtain ps where ps: "disk s (fileName fo) = Some ps" using O(4) by blast
  moreover obtain ps' where ps': "file_pages s2 f = Some ps'" "length ps' = length ps"
    using F(5) C(6) O(7) ps unfolding disk_changes_def by metis
  moreover have "file_name s2 f = Some (fileName fo)" using F(5) C(8) O(6) by (simp add: disk_changes_def)
  ultimately have dsk: "disk s' (fileName fo) = Some ps'" "1 \<le> no" "no < int (length ps)" "ps' ! nat no = ps ! nat no"
    using C(6) O(7) by (auto simp: disk_page_def file_pages_def s'_def split: if_splits)
  have "\<not> db_inv s'"
  proof
    assume "db_inv s'"
    then have "desc_ok s' (bufTable s' ! nat i)"
      using fr2(1) pool_ok_desc [of "{}" s' "nat i"] by (simp add: db_inv_def s'_def)
    then show False using fr2(2) by (simp add: desc_ok_def in_frame_def s'_def disk_page_def file_pages_def file_name_def)
  qed
  moreover have "0 < pinCnt (bufTable s2 ! nat i)" using p2 i by (simp add: pin_of_def)
  ultimately show ?thesis
    using run fr2 pg ps ps'(2) dsk
    by (intro exI [of _ s'] exI [of _ "nat i"] exI [of _ ps] exI [of _ ps']) (simp add: s'_def)
qed

text \<open>Witnesses: a directory with one file of two pages.\<close>

definition example_start :: db where
  "example_start = db_start [''a'' \<mapsto> example_pages] 2"

lemma example_start: "db_inv example_start" "disk example_start ''a'' = Some example_pages"
  "of_map (openFiles example_start) = Map.empty" "next_ptr example_start = 4096" "numBufs example_start = 2"
  "pin_of example_start = (\<lambda>f no. 0)"
  by (simp_all add: example_start_def db_start_inv db_start_fields of_new_map)

lemma DB_openFile_opens_witness:
  "\<exists>f s'. DB_openFile example_start ''a'' = Some (OK, Some f, s') \<and> file_pages s' f = Some example_pages"
  using DB_openFile_opens [OF example_start(1) _ example_start(2)] by (auto simp: example_start(3))

text \<open>The file opened, and one page of it read.\<close>

lemma example_open:
  obtains s :: db and fo where "db_inv s" "files s 4096 = Some fo" "openCnt fo = 1" "\<And>no. pin_of s 4096 no = 0"
    "page_of s 4096 1 = Some zero_mem" "numBufs s = 2" "usable (bufTable s ! 0)"
proof -
  have ne: "''a'' \<noteq> []" by simp
  have none: "of_map (openFiles example_start) ''a'' = None" by (simp add: example_start(3))
  obtain s' where O: "DB_openFile example_start ''a'' = Some (OK, Some 4096, s')" "db_inv s'"
    "file_pages s' 4096 = Some example_pages" "\<And>q. page_of s' 4096 q = disk_page s' 4096 q"
    "pin_of s' = pin_of example_start"
    "files s' 4096 = Some \<lparr>fileName = ''a'', openCnt = 1, unixFile = next_fd example_start\<rparr>"
    by (rule openFile_new [OF example_start(1) ne none example_start(2), unfolded example_start(4)]) (rule that)
  have "page_of s' 4096 1 = Some zero_mem"
    using O(3,4) by (simp add: disk_page_def example_pages_def)
  moreover have "numBufs s' = 2 \<and> bufTable s' = bufTable example_start"
    using O(1) none by (auto simp: DB_openFile_def find_of_map File_new_def File_open_def Let_def
      example_start_def db_start_fields bind_eq_Some_conv File_delete_def split: if_splits prod.splits)
  ultimately show thesis using that [OF O(2,6)] O(5) example_start(6)
    by (simp add: example_start_def db_start_fields usable_def)
qed

lemma DB_closeFile_writes_back_witness:
  "\<exists>(s :: db) s'. db_inv s \<and> DB_closeFile s 4096 = Some (OK, s') \<and> db_inv s'"
proof -
  obtain s :: db and fo where "db_inv s" "files s 4096 = Some fo" "openCnt fo = 1" "\<And>no. pin_of s 4096 no = 0"
    by (rule example_open) (rule that)
  from DB_closeFile_writes_back [OF this] \<open>db_inv s\<close> show ?thesis by blast
qed

lemma DB_closeFile_drops_PAGEPINNED_witness:
  "\<exists>(s :: db) s'. db_inv s \<and> DB_closeFile s 4096 = Some (OK, s') \<and> \<not> db_inv s'"
proof -
  obtain s :: db and fo where S: "db_inv s" "files s 4096 = Some fo" "openCnt fo = 1" "\<And>no. pin_of s 4096 no = 0"
    "page_of s 4096 1 = Some zero_mem" "numBufs s = 2" "usable (bufTable s ! 0)"
    by (rule example_open) (rule that)
  have po: "pool_ok {} s" "coherent {} s" using S(1) by (simp_all add: db_inv_def)
  from po S(5) show ?thesis
  proof (cases rule: readPage_spec)
    case (1 s')
    then show ?thesis using S(6,7) by auto
  next
    case (2 i s')
    have "db_inv s'"
      by (rule db_inv_step [OF S(1) readPage_step [OF 2(1)] 2(2,3) wrote_cached_changes [OF po(1) 2(8)]])
    moreover have "files s' 4096 = Some fo" using readPage_step [OF 2(1)] S(2) by (simp add: pool_step_def)
    moreover have "0 < pin_of s' 4096 1" using 2(7) S(4) by simp
    ultimately show ?thesis using DB_closeFile_drops_PAGEPINNED [of s' 4096 fo 1] S(3) by blast
  qed
qed

end
