(* ===== verification/HeapFile.thy ===== *)
theory HeapFile
  imports DB
begin

text \<open>
  Heap files (stage6/heapfile.C): createHeapFile and destroyHeapFile, the class HeapFile and its
  two subclasses HeapFileScan and InsertFileScan. The first page of a file is a header
  (FileHdrPage) that is laid over the page's bytes, the data pages form a chain through their
  nextPage fields. A HeapFile object keeps its header page and one data page pinned in the
  buffer pool. A pointer to a page is the number of its frame; a pointer that the constructor
  leaves uninitialised is Wild, and using it is undefined: None.
\<close>

section \<open>Data\<close>

datatype Datatype = STRING | INTEGER | FLOAT

datatype Operator = LT | LTE | EQ | GTE | GT | NE

definition MAXNAMESIZE :: nat where "MAXNAMESIZE = 50"

text \<open>The struct FileHdrPage: 50 bytes of name, padded to 52, then four ints.\<close>

definition hdr_firstPage :: "page \<Rightarrow> int" where "hdr_firstPage p = rd_int p 52"
definition hdr_lastPage :: "page \<Rightarrow> int" where "hdr_lastPage p = rd_int p 56"
definition hdr_pageCnt :: "page \<Rightarrow> int" where "hdr_pageCnt p = rd_int p 60"
definition hdr_recCnt :: "page \<Rightarrow> int" where "hdr_recCnt p = rd_int p 64"

definition set_hdr_firstPage :: "page \<Rightarrow> int \<Rightarrow> page" where "set_hdr_firstPage p v = wr_int p 52 v"
definition set_hdr_lastPage :: "page \<Rightarrow> int \<Rightarrow> page" where "set_hdr_lastPage p v = wr_int p 56 v"
definition set_hdr_pageCnt :: "page \<Rightarrow> int \<Rightarrow> page" where "set_hdr_pageCnt p v = wr_int p 60 v"
definition set_hdr_recCnt :: "page \<Rightarrow> int \<Rightarrow> page" where "set_hdr_recCnt p v = wr_int p 64 v"

text \<open>strncpy pads with zeros up to the count and writes no terminator beyond it.\<close>

definition strncpy :: "string \<Rightarrow> nat \<Rightarrow> byte list" where
  "strncpy name n = take n (map of_char name @ replicate n 0)"

definition set_hdr_fileName :: "page \<Rightarrow> string \<Rightarrow> page" where
  "set_hdr_fileName p name = wr_bytes p 0 (strncpy name MAXNAMESIZE)"

datatype pptr = Null | Frame nat | Wild

record heapfile =
  filePtr :: fptr
  headerPage :: nat
  headerPageNo :: int
  hdrDirtyFlag :: bool
  curPage :: pptr
  cur_pageNo :: int
  curDirtyFlag :: bool
  curRec :: RID

record filescan = heapfile +
  sc_offset :: int
  sc_length :: int
  sc_type :: Datatype
  sc_filter :: "mem option"
  sc_op :: Operator
  markedPageNo :: int
  markedRec :: RID

definition bufUpdate :: "'z db_scheme \<Rightarrow> nat \<Rightarrow> (page \<Rightarrow> page) \<Rightarrow> 'z db_scheme" where
  "bufUpdate s i g = pool_write s i (g (bufPool s ! i))"

section \<open>Creation and destruction of heap files\<close>

definition createHeapFile :: "'z db_scheme \<Rightarrow> string \<Rightarrow> (Status \<times> 'z db_scheme) option" where
  "createHeapFile s name = do {
     (st, _, s) \<leftarrow> DB_openFile s name;
     if st \<noteq> OK then do {
       let (st, s) = DB_createFile s name;
       if st \<noteq> OK then Some (st, s) else do {
       (st, file, s) \<leftarrow> DB_openFile s name;
       if st \<noteq> OK then Some (st, s) else do {
       file \<leftarrow> file;
       (st, hdrPageNo, hdrPage, s) \<leftarrow> allocPage s file;
       if st \<noteq> OK then Some (st, s) else do {
       hdrPageNo \<leftarrow> hdrPageNo; hdrPage \<leftarrow> hdrPage;
       let s = bufUpdate s hdrPage (\<lambda>p. set_hdr_fileName p name);
       (st, newPageNo, newPage, s) \<leftarrow> allocPage s file;
       if st \<noteq> OK then Some (st, s) else do {
       newPageNo \<leftarrow> newPageNo; newPage \<leftarrow> newPage;
       let s = bufUpdate s newPage (\<lambda>p. Page_init p newPageNo);
       let s = bufUpdate s newPage (\<lambda>p. snd (Page_setNextPage p (-1)));
       let s = bufUpdate s hdrPage (\<lambda>p. set_hdr_recCnt p 0);
       let s = bufUpdate s hdrPage (\<lambda>p. set_hdr_pageCnt p 1);
       let s = bufUpdate s hdrPage (\<lambda>p. set_hdr_firstPage (set_hdr_lastPage p newPageNo) newPageNo);
       let (st, s) = unPinPage s file newPageNo True;
       if st \<noteq> OK then Some (st, s) else do {
       let (st, s) = unPinPage s file hdrPageNo True;
       if st \<noteq> OK then Some (st, s) else do {
       (st, s) \<leftarrow> flushFile s file;
       if st \<noteq> OK then Some (st, s) else do {
       (st, s) \<leftarrow> DB_closeFile s file;
       Some (st, s) }}}}}}}}
     else Some (FILEEXISTS, s)
   }"

definition destroyHeapFile :: "'z db_scheme \<Rightarrow> string \<Rightarrow> Status \<times> 'z db_scheme" where
  "destroyHeapFile s name = DB_destroyFile s name"

section \<open>HeapFile\<close>

text \<open>
  The constructor. When the file cannot be opened no usable object exists. The failure of the
  read of the header page leaves the header pointer uninitialised, which the next line follows:
  undefined. The failure of the read of the data page leaves curPage uninitialised; in both
  cases returnStatus is overwritten with OK before the constructor returns.
\<close>

definition HeapFile_new :: "'z db_scheme \<Rightarrow> string \<Rightarrow> (Status \<times> heapfile option \<times> 'z db_scheme) option" where
  "HeapFile_new s name = do {
     (st, file, s) \<leftarrow> DB_openFile s name;
     if st = OK then do {
       file \<leftarrow> file;
       (st, hdrNo) \<leftarrow> File_getFirstPage s file;
       hdrNo \<leftarrow> hdrNo;
       (st, fr, s) \<leftarrow> readPage s file hdrNo;
       hdr \<leftarrow> fr;
       let no = hdr_firstPage (bufPool s ! hdr);
       (st, fr, s) \<leftarrow> readPage s file no;
       Some (OK, Some \<lparr>filePtr = file, headerPage = hdr, headerPageNo = hdrNo, hdrDirtyFlag = False,
                       curPage = (case fr of Some i \<Rightarrow> Frame i | None \<Rightarrow> Wild), cur_pageNo = no,
                       curDirtyFlag = False, curRec = NULLRID\<rparr>, s)
     }
     else Some (st, None, s)
   }"

text \<open>The destructor prints the statuses that the calls return and goes on.\<close>

definition HeapFile_delete :: "'z db_scheme \<Rightarrow> 'h heapfile_scheme \<Rightarrow> 'z db_scheme option" where
  "HeapFile_delete s h = do {
     s \<leftarrow> (case curPage h of
         Null \<Rightarrow> Some s
       | Frame i \<Rightarrow> Some (snd (unPinPage s (filePtr h) (cur_pageNo h) (curDirtyFlag h)))
       | Wild \<Rightarrow> None);
     let s = snd (unPinPage s (filePtr h) (headerPageNo h) (hdrDirtyFlag h));
     (_, s) \<leftarrow> DB_closeFile s (filePtr h);
     Some s }"

definition HeapFile_getRecCnt :: "'z db_scheme \<Rightarrow> 'h heapfile_scheme \<Rightarrow> int" where
  "HeapFile_getRecCnt s h = hdr_recCnt (bufPool s ! headerPage h)"

text \<open>When the read fails after the old page has been unpinned, curPage keeps its old value.\<close>

definition HeapFile_getRecord ::
  "'z db_scheme \<Rightarrow> 'h heapfile_scheme \<Rightarrow> RID \<Rightarrow> (Status \<times> byte list option \<times> 'z db_scheme \<times> 'h heapfile_scheme) option" where
  "HeapFile_getRecord s h rid =
     (let load = (\<lambda>s. do {
            (st, fr, s) \<leftarrow> readPage s (filePtr h) (RID.pageNo rid);
            case fr of None \<Rightarrow> Some (st, None, s, h)
            | Some i \<Rightarrow>
              let h = h\<lparr>curPage := Frame i, cur_pageNo := RID.pageNo rid, curDirtyFlag := False, curRec := rid\<rparr>;
                  (st, rec) = Page_getRecord (bufPool s ! i) rid
              in Some (st, rec, s, h) })
      in case curPage h of
           Wild \<Rightarrow> None
         | Null \<Rightarrow> load s
         | Frame i \<Rightarrow>
             if RID.pageNo rid = cur_pageNo h then
               let (st, rec) = Page_getRecord (bufPool s ! i) rid
               in Some (st, rec, s, h\<lparr>curRec := rid\<rparr>)
             else
               let (st, s) = unPinPage s (filePtr h) (cur_pageNo h) (curDirtyFlag h)
               in if st \<noteq> OK
                  then Some (st, None, s, h\<lparr>curPage := Null, cur_pageNo := 0, curDirtyFlag := False\<rparr>)
                  else load s)"


section \<open>HeapFileScan\<close>

definition HeapFileScan_new :: "'z db_scheme \<Rightarrow> string \<Rightarrow> (Status \<times> filescan option \<times> 'z db_scheme) option" where
  "HeapFileScan_new s name = do {
     (st, h, s) \<leftarrow> HeapFile_new s name;
     Some (st, map_option (\<lambda>h. heapfile.extend h
       \<lparr>sc_offset = 0, sc_length = 0, sc_type = STRING, sc_filter = None, sc_op = LT,
        markedPageNo = 0, markedRec = NULLRID\<rparr>) h, s) }"

text \<open>The checks that type and op are values of their enums hold in every C++ program state.\<close>

definition HeapFileScan_startScan ::
  "'h filescan_scheme \<Rightarrow> int \<Rightarrow> int \<Rightarrow> Datatype \<Rightarrow> mem option \<Rightarrow> Operator \<Rightarrow> Status \<times> 'h filescan_scheme" where
  "HeapFileScan_startScan h offset len type flt op =
     (if flt = None then (OK, h\<lparr>sc_filter := None\<rparr>)
      else if offset < 0 \<or> len < 1 \<or> (type = INTEGER \<and> len \<noteq> 4 \<or> type = FLOAT \<and> len \<noteq> 4)
           then (BADSCANPARM, h)
      else (OK, h\<lparr>sc_offset := offset, sc_length := len, sc_type := type, sc_filter := flt, sc_op := op\<rparr>))"

definition HeapFileScan_endScan ::
  "'z db_scheme \<Rightarrow> 'h filescan_scheme \<Rightarrow> (Status \<times> 'z db_scheme \<times> 'h filescan_scheme) option" where
  "HeapFileScan_endScan s h =
     (case curPage h of
        Null \<Rightarrow> Some (OK, s, h)
      | Wild \<Rightarrow> None
      | Frame i \<Rightarrow>
          let (st, s) = unPinPage s (filePtr h) (cur_pageNo h) (curDirtyFlag h)
          in Some (st, s, h\<lparr>curPage := Null, cur_pageNo := 0, curDirtyFlag := False\<rparr>))"

definition HeapFileScan_delete :: "'z db_scheme \<Rightarrow> 'h filescan_scheme \<Rightarrow> 'z db_scheme option" where
  "HeapFileScan_delete s h = do {
     (_, s, h) \<leftarrow> HeapFileScan_endScan s h;
     HeapFile_delete s h }"

definition HeapFileScan_markScan :: "'h filescan_scheme \<Rightarrow> 'h filescan_scheme" where
  "HeapFileScan_markScan h = h\<lparr>markedPageNo := cur_pageNo h, markedRec := curRec h\<rparr>"

definition HeapFileScan_resetScan ::
  "'z db_scheme \<Rightarrow> 'h filescan_scheme \<Rightarrow> (Status \<times> 'z db_scheme \<times> 'h filescan_scheme) option" where
  "HeapFileScan_resetScan s h =
     (if markedPageNo h \<noteq> cur_pageNo h then do {
        (st, s) \<leftarrow> (case curPage h of
            Null \<Rightarrow> Some (OK, s)
          | Wild \<Rightarrow> None
          | Frame i \<Rightarrow> Some (unPinPage s (filePtr h) (cur_pageNo h) (curDirtyFlag h)));
        if st \<noteq> OK then Some (st, s, h) else do {
        let h = h\<lparr>cur_pageNo := markedPageNo h, curRec := markedRec h\<rparr>;
        (st, fr, s) \<leftarrow> readPage s (filePtr h) (cur_pageNo h);
        case fr of None \<Rightarrow> Some (st, s, h)
        | Some i \<Rightarrow> Some (OK, s, h\<lparr>curPage := Frame i, curDirtyFlag := False\<rparr>) }}
      else Some (OK, s, h\<lparr>curRec := markedRec h\<rparr>))"

subsection \<open>The filter\<close>

text \<open>A float in memory, as a multiple of 2^-149, the smallest positive one.\<close>

datatype fval = Finite int | Infinite int | NotANumber

definition rd_float :: "mem \<Rightarrow> int \<Rightarrow> fval" where
  "rd_float m a =
     (let w = rd_int m a;
          sign = (if w < 0 then -1 else 1);
          bits = w mod 2 ^ 31;
          e = bits div 2 ^ 23;
          f = bits mod 2 ^ 23
      in if e = 255 then if f = 0 then Infinite sign else NotANumber
         else if e = 0 then Finite (sign * f)
         else Finite (sign * (2 ^ 23 + f) * 2 ^ nat (e - 1)))"

text \<open>
  The sign of a difference of floats; None for a NaN. The difference of two finite floats is
  zero only when they are equal, because of gradual underflow, and an overflow keeps the sign.
\<close>

fun float_diff :: "fval \<Rightarrow> fval \<Rightarrow> int option" where
  "float_diff NotANumber _ = None"
| "float_diff _ NotANumber = None"
| "float_diff (Infinite a) (Infinite b) = (if a = b then None else Some a)"
| "float_diff (Infinite a) (Finite _) = Some a"
| "float_diff (Finite _) (Infinite b) = Some (- b)"
| "float_diff (Finite a) (Finite b) = Some (sgn (a - b))"

text \<open>strncmp compares unsigned bytes and stops at a zero byte.\<close>

fun strncmp :: "mem \<Rightarrow> int \<Rightarrow> mem \<Rightarrow> int \<Rightarrow> nat \<Rightarrow> int" where
  "strncmp m a m' b 0 = 0"
| "strncmp m a m' b (Suc n) =
     (if m a \<noteq> m' b then uint (m a) - uint (m' b)
      else if m a = 0 then 0
      else strncmp m (a + 1) m' (b + 1) n)"

definition bytes_mem :: "byte list \<Rightarrow> mem" where
  "bytes_mem bs = (\<lambda>x. if 0 \<le> x \<and> x < int (length bs) then bs ! nat x else 0)"

text \<open>The sign of attribute minus filter: the difference of the ints wraps before it is
  converted to the float diff; None stands for a NaN.\<close>

definition filter_diff :: "Datatype \<Rightarrow> mem \<Rightarrow> int \<Rightarrow> mem \<Rightarrow> int \<Rightarrow> int option" where
  "filter_diff type m offset flt len =
     (case type of
        INTEGER \<Rightarrow> Some (wrap32 (rd_int m offset - rd_int flt 0))
      | FLOAT \<Rightarrow> float_diff (rd_float m offset) (rd_float flt 0)
      | STRING \<Rightarrow> Some (strncmp m offset flt 0 (nat len)))"

definition op_holds :: "Operator \<Rightarrow> int option \<Rightarrow> bool" where
  "op_holds op diff =
     (case diff of None \<Rightarrow> op = NE
      | Some d \<Rightarrow> (case op of LT \<Rightarrow> d < 0 | LTE \<Rightarrow> d \<le> 0 | EQ \<Rightarrow> d = 0 | GTE \<Rightarrow> d \<ge> 0 | GT \<Rightarrow> d > 0 | NE \<Rightarrow> d \<noteq> 0))"

definition HeapFileScan_matchRec :: "'h filescan_scheme \<Rightarrow> byte list \<Rightarrow> bool" where
  "HeapFileScan_matchRec h rec =
     (case sc_filter h of None \<Rightarrow> True
      | Some flt \<Rightarrow>
          if sc_offset h + sc_length h - 1 \<ge> int (length rec) then False
          else op_holds (sc_op h) (filter_diff (sc_type h) (bytes_mem rec) (sc_offset h) flt (sc_length h)))"

subsection \<open>The scan\<close>

text \<open>
  The inner loop: while the current page is exhausted, go to the first record of the next page.
  The status is OK with a record found, or the status that scanNext returns.
\<close>

partial_function (option) scan_nextPage ::
  "'z db_scheme \<Rightarrow> 'h filescan_scheme \<Rightarrow> (Status \<times> 'z db_scheme \<times> 'h filescan_scheme) option" where
  "scan_nextPage s h =
     (case curPage h of Null \<Rightarrow> None | Wild \<Rightarrow> None
      | Frame i \<Rightarrow>
        let nextPageNo = snd (Page_getNextPage (bufPool s ! i))
        in if nextPageNo = -1 then Some (FILEEOF, s, h)
           else
             let (st, s) = unPinPage s (filePtr h) (cur_pageNo h) (curDirtyFlag h);
                 h = h\<lparr>curPage := Null, cur_pageNo := -1\<rparr>
             in if st \<noteq> OK then Some (st, s, h)
                else Option.bind (readPage s (filePtr h) nextPageNo) (\<lambda>(st, fr, s).
                  let h = h\<lparr>cur_pageNo := nextPageNo, curDirtyFlag := False\<rparr>
                  in case fr of None \<Rightarrow> Some (st, s, h)
                     | Some j \<Rightarrow>
                       let (st, rid) = Page_firstRecord (bufPool s ! j);
                           h = h\<lparr>curPage := Frame j, curRec := (case rid of Some r \<Rightarrow> r | None \<Rightarrow> curRec h)\<rparr>
                       in if st = ENDOFPAGE \<or> st = NORECORDS then scan_nextPage s h
                          else Some (OK, s, h)))"

text \<open>The outer loop, from the record after curRec on the pinned page.\<close>

partial_function (option) scan_loop ::
  "'z db_scheme \<Rightarrow> 'h filescan_scheme \<Rightarrow> (Status \<times> RID option \<times> 'z db_scheme \<times> 'h filescan_scheme) option" where
  "scan_loop s h =
     (case curPage h of Null \<Rightarrow> None | Wild \<Rightarrow> None
      | Frame i \<Rightarrow>
        Option.bind
          (case Page_nextRecord (bufPool s ! i) (curRec h) of
             (OK, Some rid) \<Rightarrow> Some (OK, s, h\<lparr>curRec := rid\<rparr>)
           | (st, _) \<Rightarrow> if st = ENDOFPAGE \<or> st = NORECORDS then scan_nextPage s h else Some (OK, s, h))
          (\<lambda>(st, s, h).
             if st \<noteq> OK then Some (st, None, s, h)
             else case curPage h of Null \<Rightarrow> None | Wild \<Rightarrow> None
             | Frame j \<Rightarrow>
               (case Page_getRecord (bufPool s ! j) (curRec h) of
                  (OK, Some rec) \<Rightarrow>
                    if HeapFileScan_matchRec h rec then Some (OK, Some (curRec h), s, h) else scan_loop s h
                | (st, _) \<Rightarrow> Some (st, None, s, h))))"

text \<open>
  The case of a scan without a current page starts at the first page of the file, and gives up
  when that page is empty. (curRec is left uninitialised then, but curPageNo is negative, so
  that the next call returns before it is used.)
\<close>

definition HeapFileScan_scanNext ::
  "'z db_scheme \<Rightarrow> 'h filescan_scheme \<Rightarrow> (Status \<times> RID option \<times> 'z db_scheme \<times> 'h filescan_scheme) option" where
  "HeapFileScan_scanNext s h =
     (if cur_pageNo h < 0 then Some (FILEEOF, None, s, h)
      else case curPage h of
        Wild \<Rightarrow> None
      | Frame i \<Rightarrow> scan_loop s h
      | Null \<Rightarrow>
        let h = h\<lparr>cur_pageNo := hdr_firstPage (bufPool s ! headerPage h)\<rparr>
        in if cur_pageNo h = -1 then Some (FILEEOF, None, s, h)
           else do {
             (st, fr, s) \<leftarrow> readPage s (filePtr h) (cur_pageNo h);
             let h = h\<lparr>curDirtyFlag := False, curRec := NULLRID\<rparr>;
             case fr of None \<Rightarrow> Some (st, None, s, h)
             | Some i \<Rightarrow>
               let h = h\<lparr>curPage := Frame i\<rparr>
               in (case Page_firstRecord (bufPool s ! i) of
                    (OK, Some rid) \<Rightarrow>
                      let h = h\<lparr>curRec := rid\<rparr>
                      in (case Page_getRecord (bufPool s ! i) rid of
                           (OK, Some rec) \<Rightarrow>
                             if HeapFileScan_matchRec h rec then Some (OK, Some rid, s, h) else scan_loop s h
                         | (st, _) \<Rightarrow> Some (st, None, s, h))
                  | _ \<Rightarrow>
                      let (st, s) = unPinPage s (filePtr h) (cur_pageNo h) (curDirtyFlag h)
                      in if st \<noteq> OK then Some (st, None, s, h)
                         else Some (FILEEOF, None, s, h\<lparr>cur_pageNo := -1, curPage := Null\<rparr>)) })"

definition HeapFileScan_getRecord :: "'z db_scheme \<Rightarrow> 'h filescan_scheme \<Rightarrow> (Status \<times> byte list option) option" where
  "HeapFileScan_getRecord s h =
     (case curPage h of Frame i \<Rightarrow> Some (Page_getRecord (bufPool s ! i) (curRec h)) | _ \<Rightarrow> None)"

text \<open>The record count is reduced whether or not the page found a record to delete.\<close>

definition HeapFileScan_deleteRecord ::
  "'z db_scheme \<Rightarrow> 'h filescan_scheme \<Rightarrow> (Status \<times> 'z db_scheme \<times> 'h filescan_scheme) option" where
  "HeapFileScan_deleteRecord s h =
     (case curPage h of
        Frame i \<Rightarrow>
          let (st, p) = Page_deleteRecord (bufPool s ! i) (curRec h);
              s = bufUpdate s i (\<lambda>_. p);
              s = bufUpdate s (headerPage h) (\<lambda>p. set_hdr_recCnt p (hdr_recCnt p - 1))
          in Some (st, s, h\<lparr>curDirtyFlag := True, hdrDirtyFlag := True\<rparr>)
      | _ \<Rightarrow> None)"

definition HeapFileScan_markDirty :: "'h filescan_scheme \<Rightarrow> Status \<times> 'h filescan_scheme" where
  "HeapFileScan_markDirty h = (OK, h\<lparr>curDirtyFlag := True\<rparr>)"

section \<open>InsertFileScan\<close>

text \<open>When the file cannot be opened, HeapFile() leaves the object uninitialised and the body goes on
  to read curPage: undefined. When the read of the last page fails, curPage keeps pointing at the
  unpinned frame.\<close>

definition InsertFileScan_new :: "'z db_scheme \<Rightarrow> string \<Rightarrow> (Status \<times> heapfile option \<times> 'z db_scheme) option" where
  "InsertFileScan_new s name = do {
     (st, h, s) \<leftarrow> HeapFile_new s name;
     case h of None \<Rightarrow> None
     | Some h \<Rightarrow>
       let last = hdr_lastPage (bufPool s ! headerPage h)
       in if curPage h \<noteq> Null \<and> cur_pageNo h \<noteq> last then do {
            let s = snd (unPinPage s (filePtr h) (cur_pageNo h) (curDirtyFlag h));
            (st, fr, s) \<leftarrow> readPage s (filePtr h) last;
            let h = h\<lparr>cur_pageNo := last, curDirtyFlag := False\<rparr>;
            Some (st, Some (case fr of Some i \<Rightarrow> h\<lparr>curPage := Frame i\<rparr> | None \<Rightarrow> h), s) }
          else Some (st, Some h, s) }"

definition InsertFileScan_delete :: "'z db_scheme \<Rightarrow> heapfile \<Rightarrow> 'z db_scheme option" where
  "InsertFileScan_delete s h = do {
     (s, h) \<leftarrow> (case curPage h of
         Null \<Rightarrow> Some (s, h)
       | Wild \<Rightarrow> None
       | Frame i \<Rightarrow> Some (snd (unPinPage s (filePtr h) (cur_pageNo h) True), h\<lparr>curPage := Null, cur_pageNo := 0\<rparr>));
     HeapFile_delete s h }"

text \<open>The part of insertRecord that is reached when the current page has no room.\<close>

definition insert_newPage ::
  "'z db_scheme \<Rightarrow> heapfile \<Rightarrow> nat \<Rightarrow> byte list \<Rightarrow> (Status \<times> RID option \<times> 'z db_scheme \<times> heapfile) option" where
  "insert_newPage s h cur rec = do {
     (st, no, fr, s) \<leftarrow> allocPage s (filePtr h);
     if st \<noteq> OK then Some (st, None, s, h) else do {
     newPageNo \<leftarrow> no; newPage \<leftarrow> fr;
     let s = bufUpdate s newPage (\<lambda>p. Page_init p newPageNo);
     let s = bufUpdate s newPage (\<lambda>p. snd (Page_setNextPage p (-1)));
     let s = bufUpdate s (headerPage h) (\<lambda>p. set_hdr_lastPage p newPageNo);
     let s = bufUpdate s (headerPage h) (\<lambda>p. set_hdr_pageCnt p (hdr_pageCnt p + 1));
     let h = h\<lparr>hdrDirtyFlag := True\<rparr>;
     let s = bufUpdate s cur (\<lambda>p. snd (Page_setNextPage p newPageNo));
     let (st, s) = unPinPage s (filePtr h) (cur_pageNo h) True;
     if st \<noteq> OK then
       Some (st, None, snd (unPinPage s (filePtr h) newPageNo True),
             h\<lparr>curPage := Null, cur_pageNo := -1, curDirtyFlag := False\<rparr>)
     else do {
     let h = h\<lparr>curPage := Frame newPage, cur_pageNo := newPageNo\<rparr>;
     let (st, p, rid) = Page_insertRecord (bufPool s ! newPage) rec;
     let s = bufUpdate s newPage (\<lambda>_. p);
     if st = OK then
       Some (st, rid, bufUpdate s (headerPage h) (\<lambda>p. set_hdr_recCnt p (hdr_recCnt p + 1)),
             h\<lparr>curDirtyFlag := True, hdrDirtyFlag := True\<rparr>)
     else Some (st, None, s, h) }}}"

definition InsertFileScan_insertRecord ::
  "'z db_scheme \<Rightarrow> heapfile \<Rightarrow> byte list \<Rightarrow> (Status \<times> RID option \<times> 'z db_scheme \<times> heapfile) option" where
  "InsertFileScan_insertRecord s h rec =
     (if int (length rec) > PAGESIZE - DPFIXED then Some (INVALIDRECLEN, None, s, h)
      else do {
        (st, s, h) \<leftarrow> (case curPage h of
            Null \<Rightarrow> do {
              let no = hdr_lastPage (bufPool s ! headerPage h);
              (st, fr, s) \<leftarrow> readPage s (filePtr h) no;
              let h = h\<lparr>cur_pageNo := no\<rparr>;
              Some (st, s, case fr of Some i \<Rightarrow> h\<lparr>curPage := Frame i\<rparr> | None \<Rightarrow> h) }
          | _ \<Rightarrow> Some (OK, s, h));
        if st \<noteq> OK then Some (st, None, s, h)
        else case curPage h of Null \<Rightarrow> None | Wild \<Rightarrow> None
        | Frame i \<Rightarrow> do {
            let (st, p, rid) = Page_insertRecord (bufPool s ! i) rec;
            let s = bufUpdate s i (\<lambda>_. p);
            if st = OK then
              Some (OK, rid, bufUpdate s (headerPage h) (\<lambda>p. set_hdr_recCnt p (hdr_recCnt p + 1)),
                    h\<lparr>hdrDirtyFlag := True, curDirtyFlag := True\<rparr>)
            else insert_newPage s h i rec }
      })"

end
