(* ===== verification/PageStore.thy ===== *)
theory PageStore
  imports DB
begin

text \<open>
  What the heap file relies on: a store of pages, read by file and page number, with pins. The
  locale states the contract of readPage, unPinPage, allocPage and of writing through a page
  pointer; the buffer manager over the table of open files provides it.
\<close>

section \<open>The interface\<close>

text \<open>A pinned page keeps its frame, and stays settled.\<close>

definition pinned_kept ::
  "('s \<Rightarrow> fptr \<Rightarrow> int \<Rightarrow> int) \<Rightarrow> ('s \<Rightarrow> fptr \<Rightarrow> int \<Rightarrow> nat option) \<Rightarrow> ('s \<Rightarrow> fptr \<Rightarrow> int \<Rightarrow> bool) \<Rightarrow> 's \<Rightarrow> 's \<Rightarrow> bool" where
  "pinned_kept pins frame ok s s' \<longleftrightarrow> (\<forall>g q. 0 < pins s g q \<longrightarrow> frame s' g q = frame s g q \<and> (ok s g q \<longrightarrow> ok s' g q))"

text \<open>The pins B of the other users and one more on page no; the pages that are pinned.\<close>

definition hold :: "fptr \<Rightarrow> int \<Rightarrow> (fptr \<Rightarrow> int \<Rightarrow> int) \<Rightarrow> fptr \<Rightarrow> int \<Rightarrow> int" where
  "hold f no B = (\<lambda>g q. if g = f \<and> q = no then B g q + 1 else B g q)"

definition busy :: "(fptr \<Rightarrow> int \<Rightarrow> int) \<Rightarrow> (fptr \<times> int) set" where
  "busy B = {(g, q). 0 < B g q}"

lemma hold_swap: "hold f a (hold g b B) = hold g b (hold f a B)"
  by (auto simp: hold_def fun_eq_iff)

lemma hold_release: "(\<lambda>g q. if g = f \<and> q = no then hold f no B g q - 1 else hold f no B g q) = B"
  by (auto simp: hold_def fun_eq_iff)

lemma hold_self [simp]: "hold f no B f no = B f no + 1"
  by (simp add: hold_def)

lemma hold_mono: "B g q \<le> hold f no B g q"
  by (simp add: hold_def)

lemma busy_hold: "(\<And>g q. 0 \<le> B g q) \<Longrightarrow> busy (hold f no B) = insert (f, no) (busy B)"
  by (auto simp: busy_def hold_def)

text \<open>The layout of a file: its pages in use, the page number in its header page, and its length.\<close>

record layout =
  lay_used :: "int set"
  lay_first :: int
  lay_size :: nat

definition layout_of :: "page list \<Rightarrow> int list \<Rightarrow> layout" where
  "layout_of ps fl = \<lparr>lay_used = used_pages ps fl, lay_first = db_firstPage (ps ! 0), lay_size = length ps\<rparr>"

lemma layout_of_simps [simp]:
  "lay_used (layout_of ps fl) = used_pages ps fl" "lay_first (layout_of ps fl) = db_firstPage (ps ! 0)"
  "lay_size (layout_of ps fl) = length ps"
  by (simp_all add: layout_of_def)

definition grown :: "int \<Rightarrow> nat \<Rightarrow> layout \<Rightarrow> layout" where
  "grown no n U = U\<lparr>lay_used := insert no (lay_used U), lay_size := n\<rparr>"

lemma grown_simps [simp]:
  "lay_used (grown no n U) = insert no (lay_used U)" "lay_first (grown no n U) = lay_first U" "lay_size (grown no n U) = n"
  by (simp_all add: grown_def)

locale page_store =
  fixes inv :: "'s \<Rightarrow> bool"
    and view :: "'s \<Rightarrow> fptr \<Rightarrow> int \<Rightarrow> page option"
    and pins :: "'s \<Rightarrow> fptr \<Rightarrow> int \<Rightarrow> int"
    and frame :: "'s \<Rightarrow> fptr \<Rightarrow> int \<Rightarrow> nat option"
    and contents :: "'s \<Rightarrow> nat \<Rightarrow> page"
    and ok :: "'s \<Rightarrow> fptr \<Rightarrow> int \<Rightarrow> bool"
    and room :: "'s \<Rightarrow> bool"
    and used :: "'s \<Rightarrow> fptr \<Rightarrow> layout \<Rightarrow> bool"
    and rest :: "'s \<Rightarrow> 'r"
    and frames :: "'r \<Rightarrow> nat"
    and read :: "'s \<Rightarrow> fptr \<Rightarrow> int \<Rightarrow> (Status \<times> nat option \<times> 's) option"
    and unpin :: "'s \<Rightarrow> fptr \<Rightarrow> int \<Rightarrow> bool \<Rightarrow> Status \<times> 's"
    and put :: "'s \<Rightarrow> nat \<Rightarrow> page \<Rightarrow> 's"
  assumes view_frame: "inv s \<Longrightarrow> frame s f no = Some i \<Longrightarrow> view s f no = Some (contents s i)"
    and pins_frame: "0 < pins s f no \<Longrightarrow> \<exists>i. frame s f no = Some i"
    and pins_nonneg: "inv s \<Longrightarrow> 0 \<le> pins s f no"
    and busy_finite: "inv s \<Longrightarrow> finite (busy (pins s))"
    and room_count: "inv s \<Longrightarrow> card (busy (pins s)) < frames (rest s) \<Longrightarrow> room s"
    and read_page: "inv s \<Longrightarrow> view s f no = Some pg \<Longrightarrow> room s \<or> 0 < pins s f no \<Longrightarrow>
      \<exists>i s'. read s f no = Some (OK, Some i, s') \<and> inv s' \<and> view s' = view s \<and> frame s' f no = Some i \<and>
        (pins s f no = 0 \<longrightarrow> ok s' f no) \<and> pins s' = hold f no (pins s) \<and> rest s' = rest s \<and>
        pinned_kept pins frame ok s s' \<and> (\<forall>g U. used s g U \<and> (g = f \<longrightarrow> no \<in> lay_used U) \<longrightarrow> used s' g U)"
    and unpin_page: "inv s \<Longrightarrow> 0 < pins s f no \<Longrightarrow> dirt \<or> ok s f no \<or> 1 < pins s f no \<Longrightarrow>
      \<exists>s'. unpin s f no dirt = (OK, s') \<and> inv s' \<and> view s' = view s \<and> frame s' = frame s \<and> rest s' = rest s \<and>
        pins s' = (\<lambda>g q. if g = f \<and> q = no then pins s g q - 1 else pins s g q) \<and>
        (\<forall>g q. ok s g q \<longrightarrow> ok s' g q) \<and> (dirt \<longrightarrow> ok s' f no) \<and>
        (\<forall>g U. used s g U \<longrightarrow> used s' g U)"
    and write_page: "inv s \<Longrightarrow> frame s f no = Some i \<Longrightarrow> 0 < pins s f no \<Longrightarrow>
      inv (put s i pg) \<and> frame (put s i pg) = frame s \<and> pins (put s i pg) = pins s \<and> rest (put s i pg) = rest s \<and>
        view (put s i pg) = (\<lambda>g q. if g = f \<and> q = no then Some pg else view s g q) \<and>
        (\<forall>g q. (g, q) \<noteq> (f, no) \<longrightarrow> ok s g q \<longrightarrow> ok (put s i pg) g q) \<and>
        (room (put s i pg) = room s) \<and> (\<forall>g U. used s g U \<longrightarrow> used (put s i pg) g U)"
begin

text \<open>A user gives its page back: the other users' pins are left.\<close>

lemma release_page:
  assumes inv: "inv s" and pins: "pins s = hold f no B" and nn: "\<And>g q. 0 \<le> B g q" and d: "dirt \<or> ok s f no \<or> 0 < B f no"
  obtains s' where "unpin s f no dirt = (OK, s')" "inv s'" "view s' = view s" "frame s' = frame s" "rest s' = rest s"
    "pins s' = B" "\<And>g q. ok s g q \<or> dirt \<and> g = f \<and> q = no \<Longrightarrow> ok s' g q" "\<And>g U. used s g U \<Longrightarrow> used s' g U"
proof -
  have "0 < pins s f no" "dirt \<or> ok s f no \<or> 1 < pins s f no" using nn [of f no] d by (auto simp: pins)
  from unpin_page [OF inv this] obtain s' where A: "unpin s f no dirt = (OK, s')" "inv s'" "view s' = view s"
    "frame s' = frame s" "rest s' = rest s" "pins s' = B" "\<forall>g q. ok s g q \<longrightarrow> ok s' g q" "dirt \<longrightarrow> ok s' f no"
    "\<forall>g U. used s g U \<longrightarrow> used s' g U"
    unfolding pins hold_release by blast
  then show thesis using that [of s'] by blast
qed

text \<open>A user takes a page.\<close>

lemma take_page:
  assumes inv: "inv s" and pg: "view s f no = Some pg" and room: "card (busy (pins s)) < frames (rest s)"
    and u: "used s f U" "no \<in> lay_used U"
  obtains i s' where "read s f no = Some (OK, Some i, s')" "inv s'" "view s' = view s" "rest s' = rest s"
    "frame s' f no = Some i" "contents s' i = pg" "pins s' = hold f no (pins s)" "ok s' f no \<or> 0 < pins s f no"
    "\<And>g q. 0 < pins s g q \<Longrightarrow> frame s' g q = frame s g q \<and> (ok s g q \<longrightarrow> ok s' g q)" "used s' f U"
    "\<And>g V. g \<noteq> f \<Longrightarrow> used s g V \<Longrightarrow> used s' g V"
proof -
  obtain i s' where B: "read s f no = Some (OK, Some i, s')" "inv s'" "view s' = view s" "frame s' f no = Some i"
    "pins s f no = 0 \<longrightarrow> ok s' f no" "pins s' = hold f no (pins s)" "rest s' = rest s"
    "pinned_kept pins frame ok s s'" "\<forall>g U. used s g U \<and> (g = f \<longrightarrow> no \<in> lay_used U) \<longrightarrow> used s' g U"
    using read_page [OF inv pg] room_count [OF inv room] by blast
  have c: "contents s' i = pg" using view_frame [OF B(2,4)] B(3) pg by simp
  have o: "ok s' f no \<or> 0 < pins s f no" using B(5) pins_nonneg [OF inv, of f no] by fastforce
  show thesis
    by (rule that [OF B(1,2,3,7,4) c B(6) o]) (use B(8,9) u in \<open>auto simp: pinned_kept_def simp del: split_paired_All\<close>)
qed

text \<open>A user gives its page back and takes another one.\<close>

lemma swap_page:
  assumes inv: "inv s" and pins: "pins s = hold f no B" and nn: "\<And>g q. 0 \<le> B g q"
    and room: "card (busy B) < frames (rest s)" and d: "dirt \<or> ok s f no \<or> 0 < B f no"
    and pg: "view s f no' = Some pg" and u: "used s f U" "no' \<in> lay_used U"
  obtains s1 i s2 where "unpin s f no dirt = (OK, s1)" "read s1 f no' = Some (OK, Some i, s2)" "inv s2"
    "view s2 = view s" "rest s2 = rest s" "frame s2 f no' = Some i" "contents s2 i = pg"
    "pins s2 = hold f no' B" "ok s2 f no' \<or> 0 < B f no'"
    "\<And>g q. 0 < B g q \<Longrightarrow> frame s2 g q = frame s g q \<and> (ok s g q \<or> dirt \<and> g = f \<and> q = no \<longrightarrow> ok s2 g q)"
    "used s2 f U" "\<And>g V. g \<noteq> f \<Longrightarrow> used s g V \<Longrightarrow> used s2 g V"
proof -
  obtain s1 where A: "unpin s f no dirt = (OK, s1)" "inv s1" "view s1 = view s" "frame s1 = frame s" "rest s1 = rest s"
    "pins s1 = B" "\<And>g q. ok s g q \<or> dirt \<and> g = f \<and> q = no \<Longrightarrow> ok s1 g q" "\<And>g U. used s g U \<Longrightarrow> used s1 g U"
    by (rule release_page [OF inv pins nn d]) (rule that)
  have pg1: "view s1 f no' = Some pg" and r1: "card (busy (pins s1)) < frames (rest s1)" using A(3,5,6) pg room by simp_all
  obtain i s2 where B: "read s1 f no' = Some (OK, Some i, s2)" "inv s2" "view s2 = view s1" "rest s2 = rest s1"
    "frame s2 f no' = Some i" "contents s2 i = pg" "pins s2 = hold f no' (pins s1)" "ok s2 f no' \<or> 0 < pins s1 f no'"
    "\<And>g q. 0 < pins s1 g q \<Longrightarrow> frame s2 g q = frame s1 g q \<and> (ok s1 g q \<longrightarrow> ok s2 g q)" "used s2 f U"
    "\<And>g V. g \<noteq> f \<Longrightarrow> used s1 g V \<Longrightarrow> used s2 g V"
    by (rule take_page [OF A(2) pg1 r1 A(8) [OF u(1)] u(2)]) (rule that)
  show thesis
    by (rule that [OF A(1) B(1,2) _ _ B(5,6)]) (use A B in auto)
qed

text \<open>A pinned page can be overwritten; it must be given back dirty.\<close>

lemma write_pinned:
  assumes inv: "inv s" and fr: "frame s f no = Some i" and pos: "0 < pins s f no"
  shows "inv (put s i pg)" "frame (put s i pg) = frame s" "pins (put s i pg) = pins s" "rest (put s i pg) = rest s"
    "view (put s i pg) = (\<lambda>g q. if g = f \<and> q = no then Some pg else view s g q)"
    "(g, q) \<noteq> (f, no) \<Longrightarrow> ok s g q \<Longrightarrow> ok (put s i pg) g q" "room (put s i pg) = room s"
    "used s f' U \<Longrightarrow> used (put s i pg) f' U"
  using write_page [OF inv fr pos] by (simp_all del: split_paired_All)

lemma contents_write:
  assumes "inv s" "frame s f no = Some i" "0 < pins s f no"
  shows "contents (put s i pg) i = pg"
  using view_frame [of "put s i pg" f no i] write_pinned [OF assms] assms(2) by simp

lemma contents_write_other:
  assumes "inv s" "frame s f no = Some i" "0 < pins s f no" "frame s g q = Some j" "(g, q) \<noteq> (f, no)"
  shows "contents (put s i pg) j = contents s j"
  using view_frame [of "put s i pg" g q j] view_frame [of s g q j] write_pinned [OF assms(1-3)] assms(1,4,5) by auto

lemma frame_differ:
  assumes "inv s" "frame s f no = Some i" "0 < pins s f no" "frame s g q = Some j" "(g, q) \<noteq> (f, no)"
  shows "j \<noteq> i"
proof
  assume "j = i"
  have "contents (put s i pg) j = contents s j" for pg by (rule contents_write_other [OF assms])
  moreover have "contents (put s i pg) i = pg" for pg by (rule contents_write [OF assms(1-3)])
  ultimately have all: "pg = contents s i" for pg using \<open>j = i\<close> by metis
  have "(\<lambda>_ :: int. 0 :: byte) = (\<lambda>_. 1)"
    by (rule trans [OF all all [symmetric]])
  then show False by (simp add: fun_eq_iff)
qed

end

section \<open>The buffer manager as a page store\<close>

definition pool_frame :: "'z db_scheme \<Rightarrow> fptr \<Rightarrow> int \<Rightarrow> nat option" where
  "pool_frame s f no = map_option nat (bht_map (hashTable s) (f, no))"

definition pool_room :: "'z db_scheme \<Rightarrow> bool" where
  "pool_room s \<longleftrightarrow> (\<exists>k < numBufs s. usable (bufTable s ! k))"

text \<open>The pages of a file that are in use, and its first page.\<close>

definition pool_used :: "'z db_scheme \<Rightarrow> fptr \<Rightarrow> layout \<Rightarrow> bool" where
  "pool_used s f U \<longleftrightarrow> (\<exists>ps fl. file_ok s f ps fl \<and> U = layout_of ps fl)"

text \<open>What the buffer pool leaves alone.\<close>

type_synonym 'z pool_rest =
  "nat \<times> (int \<Rightarrow> string option) \<times> int \<times> (fptr \<Rightarrow> file_obj option) \<times> fptr \<times> 'z db_ext \<times> (string \<Rightarrow> page list option)"

definition pool_rest :: "'z db_scheme \<Rightarrow> 'z pool_rest" where
  "pool_rest s = (numBufs s, fds s, next_fd s, files s, next_ptr s, pool.more s, closed_disk s)"

lemma pool_rest_step: "pool_rest s' = pool_rest s \<longleftrightarrow> pool_step s s'"
  by (auto simp: pool_rest_def pool_step_def)

lemma pool_frame_Some:
  assumes "pool_ok {} s"
  shows "pool_frame s f no = Some i \<longleftrightarrow> bht_map (hashTable s) (f, no) = Some (int i)"
proof (cases "bht_map (hashTable s) (f, no)")
  case (Some j)
  then have "0 \<le> j" using pool_ok_map [OF assms] by blast
  then show ?thesis using Some by (auto simp: pool_frame_def)
qed (simp add: pool_frame_def)

lemma pool_used_step:
  assumes u: "pool_used s f U" and ch: "disk_changes A s s'" and c: "cached s' \<subseteq> A"
    and A: "\<And>no. (f, no) \<in> A \<Longrightarrow> no \<in> lay_used U"
  shows "pool_used s' f U"
proof -
  obtain ps fl where ok: "file_ok s f ps fl" and U: "U = layout_of ps fl"
    using u by (auto simp: pool_used_def)
  have A': "\<And>no. (f, no) \<in> A \<Longrightarrow> no \<in> used_pages ps fl" using A U by simp
  obtain ps' where "file_ok s' f ps' fl" "length ps' = length ps" "ps' ! 0 = ps ! 0"
    by (rule file_ok_changes [OF ok ch c A'])
  then have "file_ok s' f ps' fl \<and> U = layout_of ps' fl" using U by (simp add: used_pages_def layout_of_def)
  then show ?thesis unfolding pool_used_def by blast
qed

lemma pool_used_cached: "pool_used s f U \<Longrightarrow> (f, no) \<in> cached s \<Longrightarrow> no \<in> lay_used U"
  by (auto simp: pool_used_def file_ok_def)

lemma settled_pool_frame:
  assumes "pool_ok {} s"
  shows "pin_of s f no \<ge> 0"
  using pool_ok_map [OF assms, of f no] pool_ok_desc [OF assms]
  by (auto simp: pin_of_def desc_ok_def in_frame_def split: option.splits)

lemma readPage_total:
  assumes inv: "db_inv s" and pg: "page_of s f no = Some pg" and room: "pool_room s \<or> 0 < pin_of s f no"
  shows "\<exists>i s'. readPage s f no = Some (OK, Some i, s') \<and> db_inv s' \<and> page_of s' = page_of s \<and> pool_frame s' f no = Some i \<and>
    (pin_of s f no = 0 \<longrightarrow> settled s' f no) \<and> pin_of s' = hold f no (pin_of s) \<and> pool_rest s' = pool_rest s \<and>
    pinned_kept pin_of pool_frame settled s s' \<and> (\<forall>g U. pool_used s g U \<and> (g = f \<longrightarrow> no \<in> lay_used U) \<longrightarrow> pool_used s' g U)"
proof -
  have po: "pool_ok {} s" "coherent {} s" using inv by (simp_all add: db_inv_def)
  from po pg show ?thesis
  proof (cases rule: readPage_spec)
    case (1 s')
    then have "\<not> pool_room s" "\<not> 0 < pin_of s f no" by (auto simp: pool_room_def pin_of_def)
    then show ?thesis using room by simp
  next
    case (2 i s')
    note K = readPage_keeps [OF po pg 2(1)]
    have dc: "disk_changes (cached s) s s'" by (rule wrote_cached_changes [OF po(1) 2(8)])
    have inv': "db_inv s'" by (rule db_inv_step [OF inv readPage_step [OF 2(1)] 2(2,3) dc])
    have cs: "cached s' \<subseteq> insert (f, no) (cached s)"
    proof
      fix x assume x: "x \<in> cached s'"
      obtain g q where gq: "x = (g, q)" by (cases x)
      show "x \<in> insert (f, no) (cached s)"
      proof (cases "bht_map (hashTable s) (f, no)")
        case (Some j)
        then have "hashTable s' = hashTable s" using 2(1) by (auto simp: readPage_def lookup_pool Let_def)
        then show ?thesis using x by (simp add: cached_def)
      next
        case None
        from po show ?thesis
        proof (cases rule: allocBuf_result)
          case (1 s1)
          then show ?thesis using 2(1) None by (simp add: readPage_def lookup_pool)
        next
          case A: (2 h s1)
          have c1: "cached s1 \<subseteq> cached s"
          proof
            fix y assume y: "y \<in> cached s1"
            obtain a b where ab: "y = (a, b)" by (cases y)
            show "y \<in> cached s"
              using evicted_uncached [OF po(1) A(4,9,11), of a b] y ab
              by (cases "bht_map (hashTable s) (a, b)") (auto simp: cached_def)
          qed
          have none1: "bht_map (hashTable s1) (f, no) = None" by (rule evicted_uncached [OF po(1) A(4,9,11) None])
          obtain st t where ins: "BufHashTbl_insert (hashTable s1) f no (int h) = (st, t)" by (metis surj_pair)
          have t: "bht_map t = (bht_map (hashTable s1))((f, no) \<mapsto> int h)"
            using bht.ins_new [of "hashTable s1" "(f, no)" "int h"] pool_okD [OF A(4)] none1 ins by (auto simp: bht_ins_def)
          have "hashTable s' = t"
            using 2(1) None A(1) ins
            by (auto simp: readPage_def lookup_pool Let_def bind_eq_Some_conv split: option.split_asm if_split_asm)
          then show ?thesis using x t c1 gq by (auto simp: cached_def split: if_splits)
        qed
      qed
    qed
    have used: "pool_used s' g U" if u: "pool_used s g U" "g = f \<longrightarrow> no \<in> lay_used U" for g U
    proof (rule pool_used_step [OF u(1) disk_changes_mono [OF dc] cs])
      show "cached s \<subseteq> insert (f, no) (cached s)" by blast
      show "q \<in> lay_used U" if "(g, q) \<in> insert (f, no) (cached s)" for q
        using that u pool_used_cached [OF u(1), of q] by auto
    qed
    have "pool_frame s' f no = Some i" using 2(5) by (simp add: pool_frame_def)
    moreover have "pinned_kept pin_of pool_frame settled s s'"
      using K(1) by (simp add: pinned_kept_def pins_kept_def pool_frame_def)
    moreover have "pin_of s' = hold f no (pin_of s)" using 2(7) by (auto simp: hold_def fun_eq_iff)
    moreover have "pool_rest s' = pool_rest s" using readPage_step [OF 2(1)] by (simp add: pool_rest_step)
    ultimately show ?thesis using 2(1,4) inv' K(2) used by blast
  qed
qed

section \<open>Room in the pool\<close>

abbreviation pinned :: "'z db_scheme \<Rightarrow> (fptr \<times> int) set" where
  "pinned s \<equiv> busy (pin_of s)"

lemma pinned_frames:
  assumes po: "pool_ok {} s"
  shows "pinned s \<subseteq> (\<lambda>k. (bd_file (bufTable s ! k), bd_pageNo (bufTable s ! k))) ` {..<numBufs s}"
proof
  fix x assume "x \<in> pinned s"
  then obtain g q where x: "x = (g, q)" "0 < pin_of s g q" by (auto simp: busy_def)
  then obtain i where "bht_map (hashTable s) (g, q) = Some i" using pinned_cached by blast
  then have "nat i < numBufs s" "in_frame (bufTable s ! nat i) g q" using pool_ok_map [OF po] by auto
  then show "x \<in> (\<lambda>k. (bd_file (bufTable s ! k), bd_pageNo (bufTable s ! k))) ` {..<numBufs s}"
    unfolding x(1) by (intro image_eqI [of _ _ "nat i"]) (auto simp: in_frame_def)
qed

lemma finite_pinned: "pool_ok {} s \<Longrightarrow> finite (pinned s)"
  by (rule finite_subset [OF pinned_frames]) simp_all

text \<open>As long as fewer pages are pinned than there are frames, a page can be read.\<close>

lemma pool_room_count:
  assumes po: "pool_ok {} s" and c: "card (pinned s) < numBufs s"
  shows "pool_room s"
proof (rule ccontr)
  assume no: "\<not> pool_room s"
  let ?at = "\<lambda>k. (bd_file (bufTable s ! k), bd_pageNo (bufTable s ! k))"
  have v: "bht_map (hashTable s) (?at k) = Some (int k) \<and> ?at k \<in> pinned s" if k: "k < numBufs s" for k
  proof -
    have d: "valid (bufTable s ! k)" "pinCnt (bufTable s ! k) \<noteq> 0" using no k by (auto simp: pool_room_def usable_def)
    then have "0 < pinCnt (bufTable s ! k)" using pool_ok_desc [OF po k] by (simp add: desc_ok_def)
    moreover have "bht_map (hashTable s) (?at k) = Some (int k)"
      using in_frame_map [OF po k] d by (simp add: in_frame_def)
    ultimately show ?thesis by (simp add: busy_def pin_of_def)
  qed
  have "inj_on ?at {..<numBufs s}"
  proof (rule inj_onI)
    fix j k assume a: "j \<in> {..<numBufs s}" "k \<in> {..<numBufs s}" "?at j = ?at k"
    have "Some (int j) = bht_map (hashTable s) (?at j)" using v [of j] a(1) by simp
    also have "\<dots> = bht_map (hashTable s) (?at k)" by (rule arg_cong [OF a(3)])
    also have "\<dots> = Some (int k)" using v [of k] a(2) by simp
    finally show "j = k" by simp
  qed
  then have "numBufs s = card (?at ` {..<numBufs s})" by (simp add: card_image)
  also have "\<dots> \<le> card (pinned s)"
    by (rule card_mono [OF finite_pinned [OF po]]) (use v in auto)
  finally show False using c by simp
qed

section \<open>The interpretation\<close>

interpretation pool: page_store db_inv page_of pin_of pool_frame "\<lambda>s i. bufPool s ! i" settled pool_room pool_used
  pool_rest fst readPage unPinPage pool_write
proof
  fix s :: "'z db_scheme" and f :: fptr and no :: int and i :: nat and pg :: page and dirt :: bool
  show "page_of s f no = Some (bufPool s ! i)" if "db_inv s" "pool_frame s f no = Some i"
    using that by (auto simp: page_of_def pool_frame_def)
  show "\<exists>i. pool_frame s f no = Some i" if "0 < pin_of s f no"
    using pinned_cached [OF that] by (auto simp: pool_frame_def)
  show "0 \<le> pin_of s f no" if "db_inv s"
    using that settled_pool_frame [of s f no] by (simp add: db_inv_def)
  show "finite (pinned s)" if "db_inv s" using finite_pinned [of s] that by (simp add: db_inv_def)
  show "pool_room s" if "db_inv s" "card (pinned s) < fst (pool_rest s)"
    using pool_room_count [of s] that by (simp add: db_inv_def pool_rest_def)
  show "\<exists>i s'. readPage s f no = Some (OK, Some i, s') \<and> db_inv s' \<and> page_of s' = page_of s \<and> pool_frame s' f no = Some i \<and>
      (pin_of s f no = 0 \<longrightarrow> settled s' f no) \<and> pin_of s' = hold f no (pin_of s) \<and> pool_rest s' = pool_rest s \<and>
      pinned_kept pin_of pool_frame settled s s' \<and> (\<forall>g U. pool_used s g U \<and> (g = f \<longrightarrow> no \<in> lay_used U) \<longrightarrow> pool_used s' g U)"
    if "db_inv s" "page_of s f no = Some pg" "pool_room s \<or> 0 < pin_of s f no"
    by (rule readPage_total [OF that])
  show "\<exists>s'. unPinPage s f no dirt = (OK, s') \<and> db_inv s' \<and> page_of s' = page_of s \<and> pool_frame s' = pool_frame s \<and>
        pool_rest s' = pool_rest s \<and> pin_of s' = (\<lambda>g q. if g = f \<and> q = no then pin_of s g q - 1 else pin_of s g q) \<and>
        (\<forall>g q. settled s g q \<longrightarrow> settled s' g q) \<and> (dirt \<longrightarrow> settled s' f no) \<and>
        (\<forall>g U. pool_used s g U \<longrightarrow> pool_used s' g U)"
    if inv: "db_inv s" and pos: "0 < pin_of s f no" and d: "dirt \<or> settled s f no \<or> 1 < pin_of s f no"
  proof -
    have po: "pool_ok {} s" "coherent {} s" using inv by (simp_all add: db_inv_def)
    obtain j where at: "bht_map (hashTable s) (f, no) = Some j" using pinned_cached [OF pos] by blast
    have clean: "1 < pin_of s f no \<or> dirt \<or> dirty (bufTable s ! nat j) \<or> disk_page s f no = page_of s f no"
      using d at by (auto simp: settled_def)
    obtain s' where U: "unPinPage s f no dirt = (OK, s')" "pool_ok {} s'" "coherent {} s'"
      "page_of s' = page_of s" "pin_of s' = (\<lambda>g q. if g = f \<and> q = no then pin_of s g q - 1 else pin_of s g q)"
      "hashTable s' = hashTable s" "numBufs s' = numBufs s" "disk_page s' = disk_page s" "wrote_cached s s'"
      by (rule unPinPage_spec [OF po at pos clean])
    have dc: "disk_changes (cached s) s s'" by (rule wrote_cached_changes [OF po(1) U(9)])
    have inv': "db_inv s'" by (rule db_inv_step [OF inv unPinPage_step [OF U(1)] U(2,3) dc])
    note keep = unPinPage_keeps [OF po(1) at pos U(1)]
    have used: "pool_used s' g V" if "pool_used s g V" for g V
      by (rule pool_used_step [OF that dc]) (use U(6) pool_used_cached [OF that] in \<open>auto simp: cached_def\<close>)
    have "pool_frame s' = pool_frame s" using U(6) by (simp add: pool_frame_def fun_eq_iff)
    moreover have "pool_rest s' = pool_rest s" using unPinPage_step [OF U(1)] by (simp add: pool_rest_step)
    ultimately show ?thesis using U(1,4,5) inv' keep used by blast
  qed
  show "db_inv (pool_write s i pg) \<and> pool_frame (pool_write s i pg) = pool_frame s \<and> pin_of (pool_write s i pg) = pin_of s \<and>
        pool_rest (pool_write s i pg) = pool_rest s \<and> page_of (pool_write s i pg) = (\<lambda>g q. if g = f \<and> q = no then Some pg else page_of s g q) \<and>
        (\<forall>g q. (g, q) \<noteq> (f, no) \<longrightarrow> settled s g q \<longrightarrow> settled (pool_write s i pg) g q) \<and>
        (pool_room (pool_write s i pg) = pool_room s) \<and> (\<forall>g U. pool_used s g U \<longrightarrow> pool_used (pool_write s i pg) g U)"
    if inv: "db_inv s" and fr: "pool_frame s f no = Some i" and pos: "0 < pin_of s f no"
  proof -
    have po: "pool_ok {} s" "coherent {} s" using inv by (simp_all add: db_inv_def)
    have at: "bht_map (hashTable s) (f, no) = Some (int i)" using pool_frame_Some [OF po(1)] fr by simp
    note W = pool_write_spec [OF po at pos, of pg, simplified]
    have keep: "settled (pool_write s i pg) g q" if "(g, q) \<noteq> (f, no)" "settled s g q" for g q
      using pool_write_keeps [OF po(1) at that, of pg] by simp
    have dc: "disk_changes (cached s) s (pool_write s i pg)"
      by (simp add: disk_changes_def pool_write_def fun_eq_iff)
    have inv': "db_inv (pool_write s i pg)"
      by (rule db_inv_step [OF inv pool_write_step W(1,2) dc])
    have used: "pool_used (pool_write s i pg) g V" if "pool_used s g V" for g V
      by (rule pool_used_step [OF that dc]) (use pool_used_cached [OF that] in \<open>auto simp: cached_def pool_write_def\<close>)
    have "pool_frame (pool_write s i pg) = pool_frame s" "pool_room (pool_write s i pg) = pool_room s"
      "pool_rest (pool_write s i pg) = pool_rest s"
      by (simp_all add: pool_frame_def pool_write_def fun_eq_iff pool_room_def pool_rest_def)
    then show ?thesis using W(3,4) inv' keep used by blast
  qed
qed

end
