(* ===== verification/HeapScan.thy ===== *)
theory HeapScan
  imports HeapFile PageStore
begin

text \<open>
  What a heap file holds, and the refinement of scans: a heap file is a chain of data pages, its
  records are those of the pages in order, and a scan that is repeatedly asked for the next
  record returns exactly the records that match its filter, in that order.
\<close>

section \<open>The records of a heap file\<close>

text \<open>The records of a page from slot k on, with their RIDs.\<close>

definition page_recs_from :: "int \<Rightarrow> page \<Rightarrow> nat \<Rightarrow> (RID \<times> byte list) list" where
  "page_recs_from x p k = map (\<lambda>j. (\<lparr>pageNo = x, slotNo = int j\<rparr>, the (page_slots p ! j))) (used_from (page_slots p) k)"

abbreviation page_recs :: "int \<Rightarrow> page \<Rightarrow> (RID \<times> byte list) list" where
  "page_recs x p \<equiv> page_recs_from x p 0"

text \<open>A page of records: well-formed, numbered, and without empty records.\<close>

definition data_page :: "int \<Rightarrow> page \<Rightarrow> bool" where
  "data_page x p \<longleftrightarrow> 1 \<le> x \<and> page_inv p \<and> curPageNo p = x \<and> Some [] \<notin> set (page_slots p)"

fun page_chain :: "(int \<Rightarrow> page option) \<Rightarrow> int \<Rightarrow> int list \<Rightarrow> bool" where
  "page_chain P no [] \<longleftrightarrow> no = -1"
| "page_chain P no (x # xs) \<longleftrightarrow> no = x \<and> (\<exists>p. P x = Some p \<and> data_page x p \<and> page_chain P (nextPage p) xs)"

definition chain_recs :: "(int \<Rightarrow> page option) \<Rightarrow> int list \<Rightarrow> (RID \<times> byte list) list" where
  "chain_recs P xs = concat (map (\<lambda>x. page_recs x (the (P x))) xs)"

lemma chain_recs_simps [simp]:
  "chain_recs P [] = []" "chain_recs P (x # xs) = page_recs x (the (P x)) @ chain_recs P xs"
  "chain_recs P (xs @ ys) = chain_recs P xs @ chain_recs P ys"
  by (simp_all add: chain_recs_def)

lemma page_chain_cong:
  "(\<And>x. x \<in> set xs \<Longrightarrow> P' x = P x) \<Longrightarrow> page_chain P' no xs = page_chain P no xs"
  by (induction xs arbitrary: no) auto

lemma page_chain_pos: "page_chain P no xs \<Longrightarrow> x \<in> set xs \<Longrightarrow> 1 \<le> x \<and> (\<exists>p. P x = Some p \<and> data_page x p)"
  by (induction xs arbitrary: no) (auto simp: data_page_def)

lemma page_chain_tl: "page_chain P no (x # y # ys) \<Longrightarrow> page_chain P y (y # ys)"
  by auto

lemma page_recs_next:
  "page_recs_from x p k = (case next_used (page_slots p) k of None \<Rightarrow> []
     | Some i \<Rightarrow> (\<lparr>pageNo = x, slotNo = int i\<rparr>, the (page_slots p ! i)) # page_recs_from x p (Suc i))"
  by (subst page_recs_from_def, subst used_from_next) (auto simp: page_recs_from_def split: option.splits)

text \<open>Reading the record of a used slot.\<close>

lemma getRecord_used:
  assumes p: "data_page x p" and n: "next_used (page_slots p) k = Some i"
  shows "Page_getRecord p \<lparr>pageNo = x, slotNo = int i\<rparr> = (OK, Some (the (page_slots p ! i)))"
proof -
  have i: "i < num_slots p" "page_slots p ! i \<noteq> None" using next_used_Some [OF n] by simp_all
  have "page_slots p ! i \<in> set (page_slots p)" using i by (intro nth_mem) simp
  then have "page_slots p ! i \<noteq> Some []" using p by (auto simp: data_page_def)
  then show ?thesis using getRecord_spec [of p "\<lparr>pageNo = x, slotNo = int i\<rparr>" i] p i by (auto simp: data_page_def)
qed

section \<open>A scan in progress\<close>

text \<open>
  The scan stands on page x before slot k, and the pages ys are still to come. It has page x
  pinned once; B are the other pins of the pool, among them those of other users of the same
  pages, and they leave a frame for the scan.
\<close>

definition scan_at ::
  "'z db_scheme \<Rightarrow> 'h filescan_scheme \<Rightarrow> layout \<Rightarrow> (fptr \<Rightarrow> int \<Rightarrow> int) \<Rightarrow> int \<Rightarrow> nat \<Rightarrow> int list \<Rightarrow> bool" where
  "scan_at s h U B x k ys \<longleftrightarrow> db_inv s \<and> pool_used s (filePtr h) U \<and> set (x # ys) \<subseteq> lay_used U \<and>
     (\<exists>i. curPage h = Frame i \<and> pool_frame s (filePtr h) x = Some i) \<and> cur_pageNo h = x \<and>
     slotNo (curRec h) = int k - 1 \<and> page_chain (page_of s (filePtr h)) x (x # ys) \<and>
     pin_of s = hold (filePtr h) x B \<and> (\<forall>g q. 0 \<le> B g q) \<and> card (busy B) < numBufs s \<and>
     (curDirtyFlag h \<or> settled s (filePtr h) x \<or> 0 < B (filePtr h) x)"

definition scan_rest :: "'z db_scheme \<Rightarrow> fptr \<Rightarrow> int \<Rightarrow> nat \<Rightarrow> int list \<Rightarrow> (RID \<times> byte list) list" where
  "scan_rest s f x k ys = page_recs_from x (the (page_of s f x)) k @ chain_recs (page_of s f) ys"

text \<open>The current page, when it has been changed through this object.\<close>

definition cur_dirty :: "'h heapfile_scheme \<Rightarrow> fptr \<Rightarrow> int \<Rightarrow> bool" where
  "cur_dirty h g q \<longleftrightarrow> curDirtyFlag h \<and> g = filePtr h \<and> q = cur_pageNo h"

text \<open>
  What a scan leaves alone: the pages, and for the other users of the pool the frames of their
  pages. A page that would be written back still will be: it is settled, or the object that
  changed it knows.
\<close>

definition scan_kept ::
  "(fptr \<Rightarrow> int \<Rightarrow> int) \<Rightarrow> 'z db_scheme \<Rightarrow> 'h heapfile_scheme \<Rightarrow> 'z db_scheme \<Rightarrow> 'h heapfile_scheme \<Rightarrow> bool" where
  "scan_kept B s h s' h' \<longleftrightarrow> page_of s' = page_of s \<and> pool_rest s' = pool_rest s \<and> filePtr h' = filePtr h \<and>
     (\<forall>g V. g \<noteq> filePtr h \<and> pool_used s g V \<longrightarrow> pool_used s' g V) \<and>
     (\<forall>g q. 0 < B g q \<longrightarrow> pool_frame s' g q = pool_frame s g q \<and>
        (settled s g q \<or> cur_dirty h g q \<longrightarrow> settled s' g q \<or> cur_dirty h' g q))"

lemma scan_kept_refl: "scan_kept B s h s h" "scan_kept B s h s (h\<lparr>curRec := r\<rparr>)"
  by (simp_all add: scan_kept_def cur_dirty_def)

lemma scan_kept_trans: "scan_kept B s h s1 h1 \<Longrightarrow> scan_kept B s1 h1 s2 h2 \<Longrightarrow> scan_kept B s h s2 h2"
  unfolding scan_kept_def by metis

text \<open>The scan goes to the next page of the chain.\<close>

lemma scan_swap:
  assumes at: "scan_at s h U B x k (y # ys)"
  obtains s1 j s2 where "unPinPage s (filePtr h) x (curDirtyFlag h) = (OK, s1)"
    "readPage s1 (filePtr h) y = Some (OK, Some j, s2)"
    "\<And>h' k'. filePtr h' = filePtr h \<Longrightarrow> curPage h' = Frame j \<Longrightarrow> cur_pageNo h' = y \<Longrightarrow> slotNo (curRec h') = int k' - 1 \<Longrightarrow>
       scan_at s2 (h' :: 'h filescan_scheme) U B y k' ys \<and> scan_kept B s h s2 h'"
    "bufPool s2 ! j = the (page_of s (filePtr h) y)" "page_of s2 = page_of s"
proof -
  let ?f = "filePtr h"
  note A = at [unfolded scan_at_def]
  obtain p where p: "page_of s ?f y = Some p" using A by auto
  have inv: "db_inv s" and pins: "pin_of s = hold ?f x B" and nn: "\<And>g q. 0 \<le> B g q"
    and room: "card (busy B) < fst (pool_rest s)" and d: "curDirtyFlag h \<or> settled s ?f x \<or> 0 < B ?f x"
    and u: "pool_used s ?f U" "y \<in> lay_used U" and cur: "cur_pageNo h = x"
    using A by (simp_all add: pool_rest_def)
  obtain s1 j s2 where C: "unPinPage s ?f x (curDirtyFlag h) = (OK, s1)" "readPage s1 ?f y = Some (OK, Some j, s2)"
    "db_inv s2" "page_of s2 = page_of s" "pool_rest s2 = pool_rest s" "pool_frame s2 ?f y = Some j" "bufPool s2 ! j = p"
    "pin_of s2 = hold ?f y B" "settled s2 ?f y \<or> 0 < B ?f y"
    "\<And>g q. 0 < B g q \<Longrightarrow> pool_frame s2 g q = pool_frame s g q \<and>
       (settled s g q \<or> curDirtyFlag h \<and> g = ?f \<and> q = x \<longrightarrow> settled s2 g q)"
    "pool_used s2 ?f U" "\<And>g V. g \<noteq> ?f \<Longrightarrow> pool_used s g V \<Longrightarrow> pool_used s2 g V"
    by (rule pool.swap_page [OF inv pins nn room d p u]) (rule that)
  have chain: "page_chain (page_of s2 ?f) y (y # ys)" unfolding C(4) by (rule page_chain_tl) (use A in blast)
  have next': "scan_at s2 h' U B y k' ys \<and> scan_kept B s h s2 h'"
    if "filePtr h' = ?f" "curPage h' = Frame j" "cur_pageNo h' = y" "slotNo (curRec h') = int k' - 1"
    for h' :: "'h filescan_scheme" and k'
    unfolding scan_at_def that(1) scan_kept_def cur_dirty_def
    using that C(3,5,6,8-12) A chain cur nn by (auto simp: C(4) pool_rest_def)
  show thesis by (rule that [OF C(1,2) next' _ C(4)]) (use C(7) p in simp_all)
qed


section \<open>Going to the next page\<close>

text \<open>The fields of a scan object that its operations leave alone.\<close>

definition same_scan :: "'h filescan_scheme \<Rightarrow> 'h filescan_scheme \<Rightarrow> bool" where
  "same_scan h h' \<longleftrightarrow> h' = h\<lparr>curPage := curPage h', cur_pageNo := cur_pageNo h', curDirtyFlag := curDirtyFlag h', curRec := curRec h'\<rparr>"

lemma same_scanI [simp]:
  "same_scan h h" "same_scan h (h\<lparr>cur_pageNo := n, curDirtyFlag := d, curPage := c, curRec := r\<rparr>)"
  "same_scan h (h\<lparr>cur_pageNo := n, curDirtyFlag := d, curPage := c\<rparr>)" "same_scan h (h\<lparr>curRec := r\<rparr>)"
  by (cases h; simp add: same_scan_def)+

lemma same_scan_trans: "same_scan h h1 \<Longrightarrow> same_scan h1 h2 \<Longrightarrow> same_scan h h2"
  by (cases h; cases h1; cases h2) (simp add: same_scan_def)

lemma same_scanD:
  assumes "same_scan h h'"
  shows "filePtr h' = filePtr h" "HeapFileScan_matchRec h' rec = HeapFileScan_matchRec h rec"
    "headerPage h' = headerPage h" "headerPageNo h' = headerPageNo h" "hdrDirtyFlag h' = hdrDirtyFlag h"
proof -
  obtain a b c d where "h' = h\<lparr>curPage := a, cur_pageNo := b, curDirtyFlag := c, curRec := d\<rparr>"
    using assms by (auto simp: same_scan_def)
  then show "filePtr h' = filePtr h" "HeapFileScan_matchRec h' rec = HeapFileScan_matchRec h rec"
    "headerPage h' = headerPage h" "headerPageNo h' = headerPageNo h" "hdrDirtyFlag h' = hdrDirtyFlag h"
    by (simp_all add: HeapFileScan_matchRec_def cong: option.case_cong)
qed

lemma scan_at_page:
  assumes "scan_at s h U B x k ys"
  obtains i p where "curPage h = Frame i" "bufPool s ! i = p" "page_of s (filePtr h) x = Some p" "data_page x p"
    "page_chain (page_of s (filePtr h)) (nextPage p) ys" "pool_frame s (filePtr h) x = Some i"
proof -
  obtain i where i: "curPage h = Frame i" "pool_frame s (filePtr h) x = Some i" using assms by (auto simp: scan_at_def)
  have "page_of s (filePtr h) x = Some (bufPool s ! i)"
    by (rule pool.view_frame [OF _ i(2)]) (use assms in \<open>simp add: scan_at_def\<close>)
  then show thesis using that [OF i(1) refl] i(2) assms by (auto simp: scan_at_def)
qed

lemma page_recs_empty: "page_recs x p = [] \<Longrightarrow> page_recs_from x p k = []"
  by (auto simp: page_recs_from_def used_from_def filter_empty_conv)

lemma scan_at_rec: "scan_at s h U B x k ys \<Longrightarrow> slotNo r = int k' - 1 \<Longrightarrow> scan_at s (h\<lparr>curRec := r\<rparr>) U B x k' ys"
  by (simp add: scan_at_def)

lemma scan_nextPage_spec:
  assumes "scan_at s h U B x k ys"
  shows "\<exists>st s' h' x' k' ys'. scan_nextPage s h = Some (st, s', h') \<and> same_scan h h' \<and> scan_at s' h' U B x' k' ys' \<and>
    set (x' # ys') \<subseteq> set (x # ys) \<and> scan_kept B s h s' h' \<and>
    (if chain_recs (page_of s (filePtr h)) ys = []
     then st = FILEEOF \<and> ys' = [] \<and> (page_recs_from x (the (page_of s (filePtr h) x)) k = [] \<longrightarrow>
       page_recs_from x' (the (page_of s (filePtr h) x')) k' = [])
     else st = OK \<and> (\<exists>rec i. chain_recs (page_of s (filePtr h)) ys = (curRec h', rec) # scan_rest s' (filePtr h) x' k' ys' \<and>
       curPage h' = Frame i \<and> Page_getRecord (bufPool s' ! i) (curRec h') = (OK, Some rec)) \<and> pageNo (curRec h') = x')"
  using assms
proof (induction ys arbitrary: s h x k)
  case Nil
  obtain i p where p: "curPage h = Frame i" "bufPool s ! i = p" "page_chain (page_of s (filePtr h)) (nextPage p) []"
    by (rule scan_at_page [OF Nil]) (rule that)
  have "scan_nextPage s h = Some (FILEEOF, s, h)"
    using p by (subst scan_nextPage.simps) (simp add: Page_getNextPage_def)
  then show ?case using Nil by (auto intro: scan_kept_refl)
next
  case (Cons y ys)
  let ?f = "filePtr h"
  let ?P = "page_of s ?f"
  obtain i p where p: "curPage h = Frame i" "bufPool s ! i = p" "page_chain ?P (nextPage p) (y # ys)"
    by (rule scan_at_page [OF Cons.prems]) (rule that)
  then have y: "nextPage p = y" by simp
  have "data_page y (the (?P y))" using p(3) by auto
  then have y1: "y \<noteq> -1" and inv: "page_inv (the (?P y))" and no: "curPageNo (the (?P y)) = y" by (auto simp: data_page_def)
  obtain s1 j s2 where B: "unPinPage s ?f x (curDirtyFlag h) = (OK, s1)"
    "readPage s1 ?f y = Some (OK, Some j, s2)"
    "\<And>h' k'. filePtr h' = ?f \<Longrightarrow> curPage h' = Frame j \<Longrightarrow> cur_pageNo h' = y \<Longrightarrow> slotNo (curRec h') = int k' - 1 \<Longrightarrow>
       scan_at s2 (h' :: 'b filescan_scheme) U B y k' ys \<and> scan_kept B s h s2 h'"
    "bufPool s2 ! j = the (?P y)" "page_of s2 = page_of s"
    by (rule scan_swap [OF Cons.prems]) (rule that)
  note P2 = B(5)
  have cx: "cur_pageNo h = x" and ck: "slotNo (curRec h) = int k - 1" using Cons.prems by (auto simp: scan_at_def)
  note fr = firstRecord_spec [OF inv]
  have pr: "page_recs y (the (?P y)) = (case next_used (page_slots (the (?P y))) 0 of None \<Rightarrow> []
     | Some i \<Rightarrow> (\<lparr>pageNo = y, slotNo = int i\<rparr>, the (page_slots (the (?P y)) ! i)) # page_recs_from y (the (?P y)) (Suc i))"
    by (rule page_recs_next)
  let ?h0 = "\<lambda>r. h\<lparr>cur_pageNo := y, curDirtyFlag := False, curPage := Frame j, curRec := r\<rparr>"
  show ?case
  proof (cases "next_used (page_slots (the (?P y))) 0")
    case None
    then have emp: "page_recs y (the (?P y)) = []" using pr by simp
    have at2: "scan_at s2 (?h0 (curRec h)) U B y k ys \<and> scan_kept B s h s2 (?h0 (curRec h))" by (rule B(3)) (simp_all add: ck)
    have step: "scan_nextPage s h = scan_nextPage s2 (?h0 (curRec h))"
      using p(1,2) y y1 B(1,2,4) cx fr None
      by (subst scan_nextPage.simps) (simp add: Page_getNextPage_def Let_def)
    have f0: "filePtr (?h0 (curRec h)) = ?f" by simp
    from Cons.IH [OF conjunct1 [OF at2], unfolded P2 f0] obtain st s' h' x' k' ys' where I: "scan_nextPage s2 (?h0 (curRec h)) = Some (st, s', h')"
      "same_scan (?h0 (curRec h)) h'" "scan_at s' h' U B x' k' ys'" "set (x' # ys') \<subseteq> set (y # ys)" "scan_kept B s2 (?h0 (curRec h)) s' h'"
      "if chain_recs ?P ys = []
       then st = FILEEOF \<and> ys' = [] \<and> (page_recs_from y (the (?P y)) k = [] \<longrightarrow> page_recs_from x' (the (?P x')) k' = [])
       else st = OK \<and> (\<exists>rec i. chain_recs ?P ys = (curRec h', rec) # scan_rest s' ?f x' k' ys' \<and>
         curPage h' = Frame i \<and> Page_getRecord (bufPool s' ! i) (curRec h') = (OK, Some rec)) \<and> pageNo (curRec h') = x'"
      by blast
    have mv: "scan_kept B s h s' h'" by (rule scan_kept_trans [OF conjunct2 [OF at2] I(5)])
    have ss: "same_scan h h'" by (rule same_scan_trans [OF _ I(2)]) simp
    have ch: "chain_recs ?P (y # ys) = chain_recs ?P ys" using emp by simp
    have last: "page_recs_from y (the (?P y)) k = []" by (rule page_recs_empty [OF emp])
    show ?thesis unfolding step I(1) ch using I(3,4,6) mv ss last
      by (intro exI [of _ st] exI [of _ s'] exI [of _ h'] exI [of _ x'] exI [of _ k'] exI [of _ ys']) auto
  next
    case (Some n)
    let ?r = "\<lparr>pageNo = y, slotNo = int n\<rparr>"
    have at2: "scan_at s2 (?h0 ?r) U B y (Suc n) ys \<and> scan_kept B s h s2 (?h0 ?r)" by (rule B(3)) simp_all
    have step: "scan_nextPage s h = Some (OK, s2, ?h0 ?r)"
      using p(1,2) y y1 B(1,2,4) cx fr Some no
      by (subst scan_nextPage.simps) (simp add: Page_getNextPage_def Let_def)
    have get: "Page_getRecord (bufPool s2 ! j) ?r = (OK, Some (the (page_slots (the (?P y)) ! n)))"
      unfolding B(4) by (rule getRecord_used [OF \<open>data_page y (the (?P y))\<close> Some])
    have ch: "chain_recs ?P (y # ys) = (?r, the (page_slots (the (?P y)) ! n)) # scan_rest s2 ?f y (Suc n) ys"
      using pr Some by (simp add: scan_rest_def P2)
    show ?thesis unfolding step ch using at2 get
      by (intro exI [of _ OK] exI [of _ s2] exI [of _ "?h0 ?r"] exI [of _ y] exI [of _ "Suc n"] exI [of _ ys]) auto
  qed
qed


section \<open>The next record that matches\<close>

text \<open>
  What a call that looks for the next record answers, when rest are the records still to come:
  the first of them that matches, or FILEEOF; it stands behind the record it returns.
\<close>

definition scan_found :: "'z db_scheme \<Rightarrow> 'h filescan_scheme \<Rightarrow> layout \<Rightarrow> (fptr \<Rightarrow> int \<Rightarrow> int) \<Rightarrow> int \<Rightarrow> int list \<Rightarrow> (RID \<times> byte list) list \<Rightarrow>
    Status \<Rightarrow> RID option \<Rightarrow> 'z db_scheme \<Rightarrow> 'h filescan_scheme \<Rightarrow> bool" where
  "scan_found s h U B x ys rest st out s' h' \<longleftrightarrow> same_scan h h' \<and>
     (\<exists>x' k' ys'. scan_at s' h' U B x' k' ys' \<and> set (x' # ys') \<subseteq> set (x # ys) \<and> scan_kept B s h s' h' \<and>
       (case dropWhile (\<lambda>(rid, rec). \<not> HeapFileScan_matchRec h rec) rest of
          [] \<Rightarrow> st = FILEEOF \<and> out = None \<and> ys' = [] \<and> scan_rest s' (filePtr h) x' k' ys' = []
        | (rid, rec) # rs \<Rightarrow> st = OK \<and> out = Some rid \<and> curRec h' = rid \<and> pageNo rid = x' \<and>
            HeapFileScan_getRecord s' h' = Some (OK, Some rec) \<and> scan_rest s' (filePtr h) x' k' ys' = rs))"

lemma scan_found_trans:
  assumes f: "scan_found s1 h1 U B x1 ys1 rest st out s' h'" and ss: "same_scan h h1"
    and mv: "scan_kept B s h s1 h1" and sub: "set (x1 # ys1) \<subseteq> set (x # ys)" 
  shows "scan_found s h U B x ys rest st out s' h'"
proof -
  have m: "scan_kept B s h s' h'" if "scan_kept B s1 h1 s' h'" by (rule scan_kept_trans [OF mv that])
  have t: "same_scan h h'" if "same_scan h1 h'" by (rule same_scan_trans [OF ss that])
  show ?thesis using f m t sub unfolding scan_found_def same_scanD(1,2) [OF ss] by blast
qed

lemma scan_found_here:
  assumes at: "scan_at s h U B x k ys" and r: "rest = (curRec h, rec) # scan_rest s (filePtr h) x k ys"
    and m: "HeapFileScan_matchRec h rec" and g: "HeapFileScan_getRecord s h = Some (OK, Some rec)"
    and "pageNo (curRec h) = x"
  shows "scan_found s h U B x ys rest OK (Some (curRec h)) s h"
  unfolding scan_found_def using assms scan_kept_refl
  by (intro conjI exI [of _ x] exI [of _ k] exI [of _ ys]) auto

lemma scan_found_skip: "\<not> HeapFileScan_matchRec h rec \<Longrightarrow>
  scan_found s h U B x ys ((rid, rec) # rest) st out s' h' = scan_found s h U B x ys rest st out s' h'"
  by (simp add: scan_found_def)

lemma scan_found_end:
  "scan_at s h U B x k [] \<Longrightarrow> scan_rest s (filePtr h) x k [] = [] \<Longrightarrow> scan_found s h U B x [] [] FILEEOF None s h"
  unfolding scan_found_def using scan_kept_refl
  by (intro conjI exI [of _ x] exI [of _ k] exI [of _ "[]"]) auto

text \<open>The step after the next record has been determined.\<close>

lemma scan_rest_next:
  "scan_rest s f x k ys = (case next_used (page_slots (the (page_of s f x))) k of None \<Rightarrow> chain_recs (page_of s f) ys
     | Some i \<Rightarrow> (\<lparr>pageNo = x, slotNo = int i\<rparr>, the (page_slots (the (page_of s f x)) ! i)) # scan_rest s f x (Suc i) ys)"
  using page_recs_next [of x "the (page_of s f x)" k] by (auto simp: scan_rest_def split: option.splits)

lemma scan_loop_spec:
  assumes "scan_at s h U B x k ys"
  shows "\<exists>st out s' h'. scan_loop s h = Some (st, out, s', h') \<and>
    scan_found s h U B x ys (scan_rest s (filePtr h) x k ys) st out s' h'"
  using assms
proof (induction "length (scan_rest s (filePtr h) x k ys)" arbitrary: s h x k ys rule: less_induct)
  case less
  let ?f = "filePtr h"
  let ?P = "page_of s ?f"
  note at = less.prems
  obtain i p where p: "curPage h = Frame i" "bufPool s ! i = p" "?P x = Some p" "data_page x p"
    by (rule scan_at_page [OF at]) (rule that)
  have inv: "page_inv p" and no: "curPageNo p = x" using p(4) by (simp_all add: data_page_def)
  have ck: "slotNo (curRec h) = int k - 1" using at by (simp add: scan_at_def)
  note nr = nextRecord_spec [OF inv ck]
  note rest = scan_rest_next [of s ?f x k ys, unfolded p(3) option.sel]
  have go: "\<exists>st out s' h'. (if HeapFileScan_matchRec h1 rec then Some (OK, Some (curRec h1), s1, h1) else scan_loop s1 h1) = Some (st, out, s', h') \<and>
      scan_found s h U B x ys (scan_rest s ?f x k ys) st out s' h'"
    if c: "scan_rest s ?f x k ys = (curRec h1, rec) # scan_rest s1 ?f x1 k1 ys1" and a1: "scan_at s1 h1 U B x1 k1 ys1"
      and ss: "same_scan h h1" and mv: "scan_kept B s h s1 h1" and sub: "set (x1 # ys1) \<subseteq> set (x # ys)"
      and g: "HeapFileScan_getRecord s1 h1 = Some (OK, Some rec)" and pg: "pageNo (curRec h1) = x1" for h1 rec s1 x1 k1 ys1
  proof (cases "HeapFileScan_matchRec h1 rec")
    case True
    have "scan_found s1 h1 U B x1 ys1 (scan_rest s ?f x k ys) OK (Some (curRec h1)) s1 h1"
      by (rule scan_found_here [OF a1 _ True g pg]) (use c same_scanD(1) [OF ss] in simp)
    then show ?thesis using scan_found_trans [OF _ ss mv sub] True by auto
  next
    case False
    have f1: "filePtr h1 = ?f" by (rule same_scanD(1) [OF ss])
    have "length (scan_rest s1 (filePtr h1) x1 k1 ys1) < length (scan_rest s ?f x k ys)" using c f1 by simp
    from less.hyps [OF this a1] obtain st out s' h' where L: "scan_loop s1 h1 = Some (st, out, s', h')"
      "scan_found s1 h1 U B x1 ys1 (scan_rest s1 ?f x1 k1 ys1) st out s' h'" using f1 by auto
    have nm: "\<not> HeapFileScan_matchRec h rec" using False same_scanD(2) [OF ss] by simp
    have "scan_found s h U B x ys (scan_rest s ?f x k ys) st out s' h'"
      unfolding c scan_found_skip [OF nm] by (rule scan_found_trans [OF L(2) ss mv sub])
    then show ?thesis using L(1) False by auto
  qed
  show ?case
  proof (cases "next_used (page_slots p) k")
    case (Some n)
    let ?r = "\<lparr>pageNo = x, slotNo = int n\<rparr>"
    let ?rec = "the (page_slots p ! n)"
    have get: "Page_getRecord (bufPool s ! i) ?r = (OK, Some ?rec)" unfolding p(2) by (rule getRecord_used [OF p(4) Some])
    have step: "scan_loop s h = (if HeapFileScan_matchRec (h\<lparr>curRec := ?r\<rparr>) ?rec
        then Some (OK, Some (curRec (h\<lparr>curRec := ?r\<rparr>)), s, h\<lparr>curRec := ?r\<rparr>) else scan_loop s (h\<lparr>curRec := ?r\<rparr>))"
      using p(1,2) nr Some no get by (subst scan_loop.simps) simp
    show ?thesis unfolding step
    proof (rule go)
      show "scan_rest s ?f x k ys = (curRec (h\<lparr>curRec := ?r\<rparr>), ?rec) # scan_rest s ?f x (Suc n) ys" using rest Some by simp
      show "scan_at s (h\<lparr>curRec := ?r\<rparr>) U B x (Suc n) ys" by (rule scan_at_rec [OF at]) simp
      show "HeapFileScan_getRecord s (h\<lparr>curRec := ?r\<rparr>) = Some (OK, Some ?rec)" using get p(1) by (simp add: HeapFileScan_getRecord_def)
    qed (simp_all add: scan_kept_refl)
  next
    case None
    have emp: "page_recs_from x p k = []" using page_recs_next [of x p k] None by simp
    from scan_nextPage_spec [OF at] obtain st s1 h1 x1 k1 ys1 where N: "scan_nextPage s h = Some (st, s1, h1)" "same_scan h h1"
      "scan_at s1 h1 U B x1 k1 ys1" "set (x1 # ys1) \<subseteq> set (x # ys)" "scan_kept B s h s1 h1"
      "if chain_recs ?P ys = []
       then st = FILEEOF \<and> ys1 = [] \<and> (page_recs_from x (the (?P x)) k = [] \<longrightarrow> page_recs_from x1 (the (?P x1)) k1 = [])
       else st = OK \<and> (\<exists>rec i. chain_recs ?P ys = (curRec h1, rec) # scan_rest s1 ?f x1 k1 ys1 \<and>
         curPage h1 = Frame i \<and> Page_getRecord (bufPool s1 ! i) (curRec h1) = (OK, Some rec)) \<and> pageNo (curRec h1) = x1" by blast
    have P1: "page_of s1 = page_of s" using N(5) by (simp add: scan_kept_def)
    show ?thesis
    proof (cases "chain_recs ?P ys = []")
      case True
      have r0: "scan_rest s ?f x k ys = []" using rest None True by simp
      have r1: "ys1 = []" "scan_rest s1 (filePtr h1) x1 k1 [] = []"
        using N(6) True emp p(3) same_scanD(1) [OF N(2)] by (simp_all add: scan_rest_def P1)
      have st: "st = FILEEOF" using N(6) True by simp
      have "scan_loop s h = Some (FILEEOF, None, s1, h1)"
        using p(1,2) nr None N(1) st by (subst scan_loop.simps) simp
      then show ?thesis 
        using scan_found_trans [OF scan_found_end [OF N(3) [unfolded r1(1)] r1(2)] N(2,5)] N(4) r0 r1(1) by auto
    next
      case False
      obtain rec j where R: "chain_recs ?P ys = (curRec h1, rec) # scan_rest s1 ?f x1 k1 ys1" "curPage h1 = Frame j"
        "Page_getRecord (bufPool s1 ! j) (curRec h1) = (OK, Some rec)" "st = OK" "pageNo (curRec h1) = x1"
        using N(6) False by auto
      have step: "scan_loop s h = (if HeapFileScan_matchRec h1 rec then Some (OK, Some (curRec h1), s1, h1) else scan_loop s1 h1)"
        using p(1,2) nr None N(1) R(2-4) by (subst scan_loop.simps) simp
      show ?thesis unfolding step
        by (rule go [OF _ N(3,2,5,4)]) (use R rest None in \<open>simp_all add: HeapFileScan_getRecord_def\<close>)
    qed
  qed
qed

section \<open>A whole scan\<close>

text \<open>The loop of the clients: call scanNext until it no longer answers OK.\<close>

fun scan_run :: "nat \<Rightarrow> 'z db_scheme \<Rightarrow> 'h filescan_scheme \<Rightarrow> (RID list \<times> Status \<times> 'z db_scheme \<times> 'h filescan_scheme) option" where
  "scan_run 0 s h = None"
| "scan_run (Suc n) s h = do {
     (st, out, s, h) \<leftarrow> HeapFileScan_scanNext s h;
     if st = OK then do {
       rid \<leftarrow> out;
       (rids, st, s, h) \<leftarrow> scan_run n s h;
       Some (rid # rids, st, s, h) }
     else Some ([], st, s, h) }"

lemma scanNext_loop: "scan_at s h U B x k ys \<Longrightarrow> HeapFileScan_scanNext s h = scan_loop s h"
  by (rule scan_at_page, assumption) (auto simp: HeapFileScan_scanNext_def scan_at_def data_page_def)

lemma filter_dropWhile: "filter P (dropWhile (\<lambda>x. \<not> P x) xs) = filter P xs"
  by (induction xs) auto

lemma scan_run_spec:
  assumes "scan_at s h U B x k ys"
    and "length (filter (\<lambda>(rid, rec). HeapFileScan_matchRec h rec) (scan_rest s (filePtr h) x k ys)) < n"
  shows "\<exists>s' h' x' k'. scan_run n s h =
      Some (map fst (filter (\<lambda>(rid, rec). HeapFileScan_matchRec h rec) (scan_rest s (filePtr h) x k ys)), FILEEOF, s', h') \<and>
    same_scan h h' \<and> scan_at s' h' U B x' k' [] \<and> x' \<in> set (x # ys) \<and> scan_kept B s h s' h'"
  using assms
proof (induction n arbitrary: s h x k ys)
  case (Suc n)
  let ?f = "filePtr h" and ?m = "\<lambda>(rid, rec). HeapFileScan_matchRec h rec"
  let ?rest = "scan_rest s ?f x k ys"
  note at = Suc.prems(1)
  obtain st out s1 h1 where L: "scan_loop s h = Some (st, out, s1, h1)" and F: "scan_found s h U B x ys ?rest st out s1 h1"
    using scan_loop_spec [OF at] by blast
  have ss: "same_scan h h1" using F by (simp add: scan_found_def)
  obtain x1 k1 ys1 where N: "scan_at s1 h1 U B x1 k1 ys1" "set (x1 # ys1) \<subseteq> set (x # ys)" "scan_kept B s h s1 h1"
    "case dropWhile (\<lambda>(rid, rec). \<not> HeapFileScan_matchRec h rec) ?rest of
       [] \<Rightarrow> st = FILEEOF \<and> out = None \<and> ys1 = [] \<and> scan_rest s1 ?f x1 k1 ys1 = []
     | (rid, rec) # rs \<Rightarrow> st = OK \<and> out = Some rid \<and> curRec h1 = rid \<and> pageNo rid = x1 \<and>
         HeapFileScan_getRecord s1 h1 = Some (OK, Some rec) \<and> scan_rest s1 ?f x1 k1 ys1 = rs"
    using F by (auto simp: scan_found_def)
  note next' = scanNext_loop [OF at] L
  have fd: "filter ?m ?rest = filter ?m (dropWhile (\<lambda>(rid, rec). \<not> HeapFileScan_matchRec h rec) ?rest)"
    using filter_dropWhile [of ?m ?rest] by (simp add: case_prod_unfold)
  show ?case
  proof (cases "dropWhile (\<lambda>(rid, rec). \<not> HeapFileScan_matchRec h rec) ?rest")
    case Nil
    have e: "filter ?m ?rest = []" unfolding fd Nil by simp
    have "scan_run (Suc n) s h = Some ([], FILEEOF, s1, h1)" using next' N(4) Nil by simp
    then show ?thesis using ss N(1-4) Nil e by auto
  next
    case (Cons a rs)
    obtain rid rec where a: "a = (rid, rec)" by (cases a)
    have st: "st = OK" "out = Some rid" and rs: "scan_rest s1 ?f x1 k1 ys1 = rs" using N(4) Cons a by auto
    have m: "HeapFileScan_matchRec h rec" using hd_dropWhile [of "\<lambda>(rid, rec). \<not> HeapFileScan_matchRec h rec" ?rest] Cons a by simp
    have fc: "filter ?m ?rest = (rid, rec) # filter ?m rs" using fd Cons a m by simp
    have same: "filePtr h1 = ?f" "(\<lambda>(rid, rec). HeapFileScan_matchRec h1 rec) = ?m"
      using same_scanD(1,2) [OF ss] by (simp_all add: fun_eq_iff)
    have less: "length (filter (\<lambda>(rid, rec). HeapFileScan_matchRec h1 rec) (scan_rest s1 (filePtr h1) x1 k1 ys1)) < n"
      unfolding same rs using Suc.prems(2) fc by simp
    obtain s' h' x' k' where R: "scan_run n s1 h1 = Some (map fst (filter ?m rs), FILEEOF, s', h')"
      "same_scan h1 h'" "scan_at s' h' U B x' k' []" "x' \<in> set (x1 # ys1)" "scan_kept B s1 h1 s' h'"
      using Suc.IH [OF N(1) less] unfolding same rs by blast
    have "scan_kept B s h s' h'" by (rule scan_kept_trans [OF N(3) R(5)])
    moreover have "scan_run (Suc n) s h = Some (rid # map fst (filter ?m rs), FILEEOF, s', h')"
      using next' st R(1) by simp
    moreover have "same_scan h h'" by (rule same_scan_trans [OF ss R(2)])
    moreover have "x' \<in> set (x # ys)" using R(4) N(2) by blast
    ultimately show ?thesis using R(3) fc by auto
  qed
qed simp

end
