(* ===== verification/HeapOps.thy ===== *)
theory HeapOps
  imports HeapScan "HOL-Library.Multiset"
begin

text \<open>
  The operations on heap files against what a heap file holds: opening one, looking up a record,
  inserting and deleting records, and creating an empty one.
\<close>

section \<open>A heap file\<close>

text \<open>
  The pages P of a file are those of a heap file with header page hno and data pages xs. The
  counts in the header are ints: they wrap around.
\<close>

definition heap_file :: "(int \<Rightarrow> page option) \<Rightarrow> int \<Rightarrow> page \<Rightarrow> int list \<Rightarrow> bool" where
  "heap_file P hno hdr xs \<longleftrightarrow> P hno = Some hdr \<and> hno \<notin> set xs \<and> distinct xs \<and> xs \<noteq> [] \<and>
     page_chain P (hdr_firstPage hdr) xs \<and> hdr_lastPage hdr = last xs \<and>
     hdr_pageCnt hdr = wrap32 (int (length xs)) \<and> hdr_recCnt hdr = wrap32 (int (length (chain_recs P xs)))"

text \<open>
  A HeapFile object over it: it has the header page and one data page x pinned, each once; B are
  the other pins of the pool, which may be on the same pages. A page that was changed and not yet
  written is marked dirty, unless it has another user.
\<close>

definition heap_at ::
  "'z db_scheme \<Rightarrow> 'h heapfile_scheme \<Rightarrow> layout \<Rightarrow> (fptr \<Rightarrow> int \<Rightarrow> int) \<Rightarrow> page \<Rightarrow> int list \<Rightarrow> int \<Rightarrow> bool" where
  "heap_at s h U B hdr xs x \<longleftrightarrow> db_inv s \<and> pool_used s (filePtr h) U \<and> headerPageNo h = lay_first U \<and>
     headerPageNo h \<in> lay_used U \<and> set xs \<subseteq> lay_used U \<and> heap_file (page_of s (filePtr h)) (headerPageNo h) hdr xs \<and>
     pool_frame s (filePtr h) (headerPageNo h) = Some (headerPage h) \<and>
     (hdrDirtyFlag h \<or> settled s (filePtr h) (headerPageNo h) \<or> 0 < B (filePtr h) (headerPageNo h)) \<and>
     x \<in> set xs \<and> cur_pageNo h = x \<and> (\<exists>i. curPage h = Frame i \<and> pool_frame s (filePtr h) x = Some i) \<and>
     pin_of s = hold (filePtr h) x (hold (filePtr h) (headerPageNo h) B) \<and> (\<forall>g q. 0 \<le> B g q) \<and>
     card (busy (hold (filePtr h) (headerPageNo h) B)) < numBufs s \<and>
     (curDirtyFlag h \<or> settled s (filePtr h) x \<or> 0 < B (filePtr h) x)"

lemma heap_atD:
  assumes "heap_at s h U B hdr xs x"
  shows "db_inv s" "pool_used s (filePtr h) U" "headerPageNo h \<in> lay_used U" "set xs \<subseteq> lay_used U"
    "heap_file (page_of s (filePtr h)) (headerPageNo h) hdr xs"
    "pool_frame s (filePtr h) (headerPageNo h) = Some (headerPage h)" "0 < pin_of s (filePtr h) (headerPageNo h)"
    "hdrDirtyFlag h \<or> settled s (filePtr h) (headerPageNo h) \<or> 0 < B (filePtr h) (headerPageNo h)" "x \<in> set xs" "cur_pageNo h = x"
    "\<exists>i. curPage h = Frame i \<and> pool_frame s (filePtr h) x = Some i"
    "0 < pin_of s (filePtr h) x" "curDirtyFlag h \<or> settled s (filePtr h) x \<or> 0 < B (filePtr h) x"
    "headerPageNo h \<noteq> x" "bufPool s ! headerPage h = hdr"
    "pin_of s = hold (filePtr h) x (hold (filePtr h) (headerPageNo h) B)" "\<And>g q. 0 \<le> B g q"
    "card (busy (hold (filePtr h) (headerPageNo h) B)) < numBufs s" "headerPageNo h = lay_first U"
proof -
  show f: "db_inv s" "pool_frame s (filePtr h) (headerPageNo h) = Some (headerPage h)"
    "heap_file (page_of s (filePtr h)) (headerPageNo h) hdr xs" using assms unfolding heap_at_def by blast+
  show "bufPool s ! headerPage h = hdr" using pool.view_frame [OF f(1,2)] f(3) by (simp add: heap_file_def)
  have p: "pin_of s = hold (filePtr h) x (hold (filePtr h) (headerPageNo h) B)" "\<And>g q. 0 \<le> B g q"
    using assms unfolding heap_at_def by blast+
  have "0 \<le> B (filePtr h) (headerPageNo h)" "0 \<le> B (filePtr h) x" by (rule p(2))+
  then show "0 < pin_of s (filePtr h) (headerPageNo h)" "0 < pin_of s (filePtr h) x" unfolding p(1) by (simp_all add: hold_def)
  have "x \<in> set xs" using assms unfolding heap_at_def by blast
  then show "headerPageNo h \<noteq> x" using f(3) by (auto simp: heap_file_def)
qed (use assms in \<open>unfold heap_at_def, blast+\<close>)

text \<open>The pins of the other users and the one on the header page.\<close>

lemma hold_nonneg: "(\<And>g q. 0 \<le> B g q) \<Longrightarrow> 0 \<le> hold f no B g q"
  by (simp add: hold_def)

lemma hold_pos: "0 < B g q \<Longrightarrow> 0 < hold f no B g q"
  using hold_mono [of B g q f no] by linarith

text \<open>What an object leaves to the other users of the pool.\<close>

definition flagged :: "'h heapfile_scheme \<Rightarrow> fptr \<Rightarrow> int \<Rightarrow> bool" where
  "flagged h g q \<longleftrightarrow> cur_dirty h g q \<or> hdrDirtyFlag h \<and> g = filePtr h \<and> q = headerPageNo h"

definition heap_kept ::
  "(fptr \<Rightarrow> int \<Rightarrow> int) \<Rightarrow> 'z db_scheme \<Rightarrow> 'h heapfile_scheme \<Rightarrow> 'z db_scheme \<Rightarrow> 'h heapfile_scheme \<Rightarrow> bool" where
  "heap_kept B s h s' h' \<longleftrightarrow> pool_rest s' = pool_rest s \<and> filePtr h' = filePtr h \<and>
     (\<forall>g V. g \<noteq> filePtr h \<and> pool_used s g V \<longrightarrow> pool_used s' g V) \<and> (\<forall>g q. 0 < B g q \<longrightarrow> pool_frame s' g q = pool_frame s g q \<and>
     (settled s g q \<or> flagged h g q \<longrightarrow> settled s' g q \<or> flagged h' g q))"

lemma heap_kept_refl: "heap_kept B s h s h"
  by (simp add: heap_kept_def)

lemma heap_kept_trans: "heap_kept B s h s1 h1 \<Longrightarrow> heap_kept B s1 h1 s2 h2 \<Longrightarrow> heap_kept B s h s2 h2"
  unfolding heap_kept_def by metis

lemma heap_fileD:
  assumes "heap_file P hno hdr xs" "x \<in> set xs"
  obtains as bs p where "xs = as @ x # bs" "P x = Some p" "data_page x p" "page_chain P x (x # bs)"
proof -
  have chain: "page_chain P (hdr_firstPage hdr) xs" using assms(1) by (simp add: heap_file_def)
  have tail: "\<exists>as bs. xs = as @ x # bs \<and> page_chain P x (x # bs)" if "page_chain P no xs" "x \<in> set xs" for no xs
    using that
  proof (induction xs arbitrary: no)
    case (Cons y ys)
    show ?case
    proof (cases "x = y")
      case True
      then show ?thesis using Cons.prems(1) by (intro exI [of _ "[]"] exI [of _ ys]) simp
    next
      case False
      then have "x \<in> set ys" using Cons.prems(2) by simp
      moreover obtain p where "page_chain P (nextPage p) ys" using Cons.prems(1) by auto
      ultimately obtain as bs where "ys = as @ x # bs" "page_chain P x (x # bs)" using Cons.IH by blast
      then show ?thesis by (intro exI [of _ "y # as"] exI [of _ bs]) simp
    qed
  qed simp
  obtain as bs where "xs = as @ x # bs" "page_chain P x (x # bs)" using tail [OF chain assms(2)] by blast
  then show thesis using that by auto
qed

text \<open>A HeapFileScan object stands on the page of its HeapFile part.\<close>

lemma heap_at_scan:
  assumes h: "heap_at s h U B hdr xs x" and k: "slotNo (curRec h) = int k - 1"
  obtains as ys where "xs = as @ x # ys" "scan_at s h U (hold (filePtr h) (headerPageNo h) B) x k ys"
proof -
  obtain as ys where xs: "xs = as @ x # ys" and c: "page_chain (page_of s (filePtr h)) x (x # ys)"
    by (rule heap_fileD [OF heap_atD(5,9) [OF h]]) (rule that)
  note H = heap_atD [OF h]
  have "scan_at s h U (hold (filePtr h) (headerPageNo h) B) x k ys"
    unfolding scan_at_def using c k H(1,2,4,10,11,13,16,18) hold_nonneg [of B, OF H(17)]
      hold_pos [of B "filePtr h" x "filePtr h" "headerPageNo h"] xs by auto
  with xs show thesis by (rule that)
qed

lemma heap_first:
  assumes "xs = as @ hd xs # ys" "heap_file P hno hdr xs"
  shows "xs = hd xs # ys"
proof (cases as)
  case (Cons a as')
  then have "hd xs = a" using assms(1) by (metis append_Cons list.sel(1))
  then show ?thesis using assms Cons by (metis append_Cons distinct.simps(2) heap_file_def in_set_conv_decomp)
qed (use assms in simp)

lemma heap_at_extend:
  "heap_at s (heapfile.extend h m) U B hdr xs x = heap_at s h U B hdr xs x"
  "filePtr (heapfile.extend h m) = filePtr h" "curRec (heapfile.extend h m) = curRec h"
  by (simp_all add: heap_at_def heapfile.defs)

text \<open>After a scan has moved on, the object is as good as before.\<close>

lemma scan_heap_at:
  assumes h: "heap_at s h U B hdr xs x" and at: "scan_at s' h' U (hold (filePtr h) (headerPageNo h) B) x' k' ys'"
    and ss: "same_scan h h'" and x': "x' \<in> set xs" and kp: "scan_kept (hold (filePtr h) (headerPageNo h) B) s h s' h'"
  shows "heap_at s' h' U B hdr xs x'" "heap_kept B s h s' h'"
proof -
  let ?f = "filePtr h" and ?hno = "headerPageNo h"
  note S = same_scanD [OF ss] and H = heap_atD [OF h]
  have P: "page_of s' = page_of s" and r: "pool_rest s' = pool_rest s" using kp by (simp_all add: scan_kept_def)
  have hx': "?hno \<noteq> x'" using H(5) x' by (auto simp: heap_file_def)
  have cur: "cur_pageNo h' = x'" using at by (simp add: scan_at_def)
  have "0 < hold ?f ?hno B ?f ?hno" using H(17) [of ?f ?hno] by simp
  moreover have "\<not> cur_dirty h' ?f ?hno" using hx' cur by (simp add: cur_dirty_def)
  ultimately have keep: "pool_frame s' ?f ?hno = pool_frame s ?f ?hno" "settled s ?f ?hno \<longrightarrow> settled s' ?f ?hno"
    using kp unfolding scan_kept_def by blast+
  show "heap_at s' h' U B hdr xs x'"
    unfolding heap_at_def S(1,3,4,5) P
    using at keep H(2-6,8,16-19) x' hx' r by (auto simp: scan_at_def S(1) pool_rest_def hold_def split: if_splits)
  show "heap_kept B s h s' h'"
    using kp hold_pos [of B] S(1,4,5) unfolding heap_kept_def scan_kept_def flagged_def by metis
qed

section \<open>Opening a heap file\<close>

definition disk_view :: "page list \<Rightarrow> int \<Rightarrow> page option" where
  "disk_view ps no = (if 1 \<le> no \<and> no < int (length ps) then Some (ps ! nat no) else None)"

lemma used_firstPage:
  assumes "pool_used s f U" "lay_used U \<noteq> {}"
  shows "File_getFirstPage s f = Some (OK, Some (lay_first U))"
proof -
  obtain ps fl where ok: "file_ok s f ps fl" and U: "U = layout_of ps fl"
    using assms(1) by (auto simp: pool_used_def)
  have fp: "file_pages s f = Some ps" using ok by (simp add: file_ok_def)
  have "1 < length ps" using assms(2) U by (auto simp: used_pages_def)
  then show ?thesis using intread_spec [OF fp, of 0] U by (auto simp: File_getFirstPage_def)
qed

lemma busy_take:
  assumes "db_inv s" "pin_of s' = hold f no (pin_of s)"
  shows "busy (pin_of s') = insert (f, no) (pinned s)" "card (busy (pin_of s')) \<le> card (pinned s) + 1"
proof -
  show b: "busy (pin_of s') = insert (f, no) (pinned s)"
    unfolding assms(2) by (rule busy_hold) (rule pool.pins_nonneg [OF assms(1)])
  show "card (busy (pin_of s')) \<le> card (pinned s) + 1"
    unfolding b using pool.busy_finite [OF assms(1)] by (simp add: card_insert_if)
qed

text \<open>The part of the constructor that follows the opening of the file.\<close>

lemma heap_open:
  assumes inv: "db_inv s" and u: "pool_used s f U" "lay_first U \<in> lay_used U" "set xs \<subseteq> lay_used U"
    and hf: "heap_file (page_of s f) (lay_first U) hdr xs" and room: "card (pinned s) + 2 \<le> numBufs s"
  obtains i s1 j s2 where "File_getFirstPage s f = Some (OK, Some (lay_first U))"
    "readPage s f (lay_first U) = Some (OK, Some i, s1)" "bufPool s1 ! i = hdr" "hdr_firstPage hdr = hd xs"
    "readPage s1 f (hd xs) = Some (OK, Some j, s2)" "page_of s2 = page_of s" "pool_rest s2 = pool_rest s"
    "\<And>h. filePtr h = f \<Longrightarrow> headerPage h = i \<Longrightarrow> headerPageNo h = lay_first U \<Longrightarrow> curPage h = Frame j \<Longrightarrow> cur_pageNo h = hd xs \<Longrightarrow>
       heap_at s2 (h :: 'h heapfile_scheme) U (pin_of s) hdr xs (hd xs)"
    "\<And>g q. 0 < pin_of s g q \<Longrightarrow> pool_frame s2 g q = pool_frame s g q \<and> (settled s g q \<longrightarrow> settled s2 g q)"
    "\<And>g V. g \<noteq> f \<Longrightarrow> pool_used s g V \<Longrightarrow> pool_used s2 g V"
proof -
  note nn = pool.pins_nonneg [OF inv]
  have H: "page_of s f (lay_first U) = Some hdr" and xs: "xs \<noteq> []" and hx: "lay_first U \<notin> set xs"
    and ch: "page_chain (page_of s f) (hdr_firstPage hdr) xs" using hf by (simp_all add: heap_file_def)
  have first: "hdr_firstPage hdr = hd xs" "\<exists>p. page_of s f (hd xs) = Some p" "hd xs \<in> lay_used U" "hd xs \<in> set xs"
    using ch xs u(3) by (cases xs; auto)+
  obtain p where p: "page_of s f (hd xs) = Some p" using first(2) by blast
  have gf: "File_getFirstPage s f = Some (OK, Some (lay_first U))" by (rule used_firstPage [OF u(1)]) (use u(2) in auto)
  have r0: "card (pinned s) < fst (pool_rest s)" using room by (simp add: pool_rest_def)
  obtain i s1 where A: "readPage s f (lay_first U) = Some (OK, Some i, s1)" "db_inv s1" "page_of s1 = page_of s"
    "pool_rest s1 = pool_rest s" "pool_frame s1 f (lay_first U) = Some i" "bufPool s1 ! i = hdr"
    "pin_of s1 = hold f (lay_first U) (pin_of s)" "settled s1 f (lay_first U) \<or> 0 < pin_of s f (lay_first U)"
    "\<And>g q. 0 < pin_of s g q \<Longrightarrow> pool_frame s1 g q = pool_frame s g q \<and> (settled s g q \<longrightarrow> settled s1 g q)" "pool_used s1 f U"
    "\<And>g V. g \<noteq> f \<Longrightarrow> pool_used s g V \<Longrightarrow> pool_used s1 g V"
    by (rule pool.take_page [OF inv H r0 u(1,2)]) (rule that)
  have n1: "numBufs s1 = numBufs s" using A(4) by (simp add: pool_rest_def)
  have c1: "card (pinned s1) < numBufs s" using busy_take(2) [OF inv A(7)] room by simp
  have p1: "page_of s1 f (hd xs) = Some p" and r1: "card (pinned s1) < fst (pool_rest s1)"
    using A(3,4) p c1 by (simp_all add: pool_rest_def)
  obtain j s2 where B: "readPage s1 f (hd xs) = Some (OK, Some j, s2)" "db_inv s2" "page_of s2 = page_of s1"
    "pool_rest s2 = pool_rest s1" "pool_frame s2 f (hd xs) = Some j" "bufPool s2 ! j = p"
    "pin_of s2 = hold f (hd xs) (pin_of s1)" "settled s2 f (hd xs) \<or> 0 < pin_of s1 f (hd xs)"
    "\<And>g q. 0 < pin_of s1 g q \<Longrightarrow> pool_frame s2 g q = pool_frame s1 g q \<and> (settled s1 g q \<longrightarrow> settled s2 g q)" "pool_used s2 f U"
    "\<And>g V. g \<noteq> f \<Longrightarrow> pool_used s1 g V \<Longrightarrow> pool_used s2 g V"
    by (rule pool.take_page [OF A(2) p1 r1 A(10) first(3)]) (rule that)
  have h1: "0 < pin_of s1 f (lay_first U)" using nn [of f "lay_first U"] by (simp add: A(7))
  have hdx: "lay_first U \<noteq> hd xs" using hx first(4) by auto
  have kept: "pool_frame s2 g q = pool_frame s g q \<and> (settled s g q \<longrightarrow> settled s2 g q)" if "0 < pin_of s g q" for g q
  proof -
    have "0 < pin_of s1 g q" unfolding A(7) by (rule hold_pos) (rule that)
    then show ?thesis using A(9) [OF that] B(9) by simp
  qed
  have cur: "settled s2 f (hd xs) \<or> 0 < pin_of s f (hd xs)" using B(8) hdx by (auto simp: A(7) hold_def)
  have hd: "pool_frame s2 f (lay_first U) = Some i" "settled s2 f (lay_first U) \<or> 0 < pin_of s f (lay_first U)"
    using B(9) [OF h1] A(5,8) by auto
  have n2: "numBufs s2 = numBufs s" using B(4) n1 by (simp add: pool_rest_def)
  have at: "heap_at s2 h U (pin_of s) hdr xs (hd xs)"
    if "filePtr h = f" "headerPage h = i" "headerPageNo h = lay_first U" "curPage h = Frame j" "cur_pageNo h = hd xs"
    for h :: "'h heapfile_scheme"
    unfolding heap_at_def that(1,3) B(3) A(3)
    using that B(2,5,10) u(2,3) hf hd cur first(4) nn c1 n2 by (auto simp: B(7) A(7))
  show thesis by (rule that [OF gf A(1,6) first(1) B(1) _ _ at kept]) (use A(3,4,11) B(3,4,11) in simp_all)
qed

text \<open>A file that was not open: its pages are the ones on disk.\<close>

lemma openFile_layout:
  assumes inv: "db_inv s" and name: "name \<noteq> []" "of_map (openFiles s) name = None" "disk s name = Some ps"
    and db: "db_file ps fl" and hf: "heap_file (disk_view ps) (db_firstPage (ps ! 0)) hdr xs"
  obtains s1 where "DB_openFile s name = Some (OK, Some (next_ptr s), s1)" "db_inv s1" "pool_used s1 (next_ptr s) (layout_of ps fl)"
    "lay_first (layout_of ps fl) \<in> lay_used (layout_of ps fl)" "page_of s1 (next_ptr s) = disk_view ps"
    "\<And>g q. g \<noteq> next_ptr s \<Longrightarrow> page_of s1 g q = page_of s g q" "pin_of s1 = pin_of s" "numBufs s1 = numBufs s"
    "of_map (openFiles s1) name = Some (next_ptr s)"
proof -
  let ?f = "next_ptr s" and ?U = "layout_of ps fl"
  obtain s1 where O: "DB_openFile s name = Some (OK, Some ?f, s1)" "db_inv s1"
    "\<And>g q. g \<noteq> ?f \<Longrightarrow> page_of s1 g q = page_of s g q" "file_pages s1 ?f = Some ps"
    "\<And>q. page_of s1 ?f q = disk_page s1 ?f q" "pin_of s1 = pin_of s" "cached s1 = cached s" "numBufs s1 = numBufs s"
    "of_map (openFiles s1) = (of_map (openFiles s))(name \<mapsto> ?f)"
    by (rule openFile_new [OF inv name]) (rule that)
  have po: "pool_ok {} s" using inv by (simp add: db_inv_def)
  have P1: "page_of s1 ?f = disk_view ps"
    using O(4,5) by (simp add: disk_view_def disk_page_def fun_eq_iff)
  have "files s ?f = None" using io_invD(5) pool_okD [OF po] by blast
  then have nc: "(?f, q) \<notin> cached s" for q
    using cached_disk [OF po, of ?f q] by (auto simp: disk_page_def file_pages_def file_name_def)
  have fok: "file_ok s1 ?f ps fl" using O(4,7) db nc by (simp add: file_ok_def)
  have u1: "pool_used s1 ?f ?U" using fok by (auto simp: pool_used_def)
  have H: "disk_view ps (lay_first ?U) = Some hdr" using hf by (simp add: heap_file_def)
  have hU: "lay_first ?U \<in> lay_used ?U" using H db by (auto simp: disk_view_def db_file_def used_pages_def split: if_splits)
  show thesis by (rule that [OF O(1,2) u1 hU P1 O(3,6,8)]) (use O(9) in simp_all)
qed

text \<open>The constructor for a file that was not open.\<close>

lemma HeapFile_new_spec:
  assumes inv: "db_inv s" and name: "name \<noteq> []" "of_map (openFiles s) name = None" "disk s name = Some ps"
    and db: "db_file ps fl" and hf: "heap_file (disk_view ps) (db_firstPage (ps ! 0)) hdr xs"
    and U: "set xs \<subseteq> used_pages ps fl" and room: "card (pinned s) + 2 \<le> numBufs s"
  obtains s' h where "HeapFile_new s name = Some (OK, Some h, s')"
    "heap_at s' h (layout_of ps fl) (pin_of s) hdr xs (hd xs)"
    "filePtr h = next_ptr s" "curRec h = NULLRID" "curDirtyFlag h = False" "hdrDirtyFlag h = False"
    "headerPageNo h = db_firstPage (ps ! 0)"
    "page_of s' (next_ptr s) = disk_view ps" "\<And>g q. g \<noteq> next_ptr s \<Longrightarrow> page_of s' g q = page_of s g q" "numBufs s' = numBufs s"
proof -
  let ?f = "next_ptr s" and ?U = "layout_of ps fl"
  obtain s1 where O: "DB_openFile s name = Some (OK, Some ?f, s1)" "db_inv s1" "pool_used s1 ?f ?U" "lay_first ?U \<in> lay_used ?U"
    "page_of s1 ?f = disk_view ps" "\<And>g q. g \<noteq> ?f \<Longrightarrow> page_of s1 g q = page_of s g q" "pin_of s1 = pin_of s" "numBufs s1 = numBufs s"
    by (rule openFile_layout [OF inv name db hf]) (rule that)
  have xU: "set xs \<subseteq> lay_used ?U" using U by simp
  have hf1: "heap_file (page_of s1 ?f) (lay_first ?U) hdr xs" using hf O(5) by simp
  have r1: "card (pinned s1) + 2 \<le> numBufs s1" using room O(7,8) by simp
  obtain i s2 j s3 where A: "File_getFirstPage s1 ?f = Some (OK, Some (lay_first ?U))"
    "readPage s1 ?f (lay_first ?U) = Some (OK, Some i, s2)" "bufPool s2 ! i = hdr" "hdr_firstPage hdr = hd xs"
    "readPage s2 ?f (hd xs) = Some (OK, Some j, s3)" "page_of s3 = page_of s1" "pool_rest s3 = pool_rest s1"
    "\<And>h. filePtr h = ?f \<Longrightarrow> headerPage h = i \<Longrightarrow> headerPageNo h = lay_first ?U \<Longrightarrow> curPage h = Frame j \<Longrightarrow> cur_pageNo h = hd xs \<Longrightarrow>
       heap_at s3 (h :: heapfile) ?U (pin_of s1) hdr xs (hd xs)"
    by (rule heap_open [OF O(2-4) xU hf1 r1]) (rule that)
  let ?h = "\<lparr>filePtr = ?f, headerPage = i, headerPageNo = lay_first ?U, hdrDirtyFlag = False, curPage = Frame j,
     cur_pageNo = hd xs, curDirtyFlag = False, curRec = NULLRID\<rparr>"
  have run: "HeapFile_new s name = Some (OK, Some ?h, s3)"
    using O(1) A(1-5) by (simp add: HeapFile_new_def)
  have "heap_at s3 ?h ?U (pin_of s1) hdr xs (hd xs)" by (rule A(8)) simp_all
  then show thesis using that [OF run] O(5-8) A(6,7) by (simp add: pool_rest_def)
qed

text \<open>An InsertFileScan object goes to the last page.\<close>

lemma heap_goto:
  assumes h: "heap_at s h U B hdr xs x" and y: "y \<in> set xs"
  obtains s1 j s2 where "unPinPage s (filePtr h) x (curDirtyFlag h) = (OK, s1)" "readPage s1 (filePtr h) y = Some (OK, Some j, s2)"
    "page_of s2 = page_of s" "bufPool s2 ! j = the (page_of s (filePtr h) y)"
    "\<And>h'. filePtr h' = filePtr h \<Longrightarrow> headerPage h' = headerPage h \<Longrightarrow> headerPageNo h' = headerPageNo h \<Longrightarrow>
       hdrDirtyFlag h' = hdrDirtyFlag h \<Longrightarrow> curPage h' = Frame j \<Longrightarrow> cur_pageNo h' = y \<Longrightarrow>
       heap_at s2 (h' :: 'h heapfile_scheme) U B hdr xs y \<and> heap_kept B s h s2 h'"
proof -
  let ?f = "filePtr h" and ?hno = "headerPageNo h"
  let ?B = "hold (filePtr h) (headerPageNo h) B"
  note H = heap_atD [OF h]
  obtain p where p: "page_of s ?f y = Some p" by (rule heap_fileD [OF H(5) y]) (rule that)
  have nn: "\<And>g q. 0 \<le> ?B g q" by (rule hold_nonneg [OF H(17)])
  have hno: "?hno \<noteq> x" "?hno \<noteq> y" using H(5,14) y by (auto simp: heap_file_def)
  have d: "curDirtyFlag h \<or> settled s ?f x \<or> 0 < ?B ?f x" using H(13) hold_pos [of B ?f x] by blast
  have room: "card (busy ?B) < fst (pool_rest s)" using H(18) by (simp add: pool_rest_def)
  have u: "y \<in> lay_used U" using H(4) y by blast
  obtain s1 j s2 where S: "unPinPage s ?f x (curDirtyFlag h) = (OK, s1)" "readPage s1 ?f y = Some (OK, Some j, s2)" "db_inv s2"
    "page_of s2 = page_of s" "pool_rest s2 = pool_rest s" "pool_frame s2 ?f y = Some j" "bufPool s2 ! j = p"
    "pin_of s2 = hold ?f y ?B" "settled s2 ?f y \<or> 0 < ?B ?f y"
    "\<And>g q. 0 < ?B g q \<Longrightarrow> pool_frame s2 g q = pool_frame s g q \<and>
       (settled s g q \<or> curDirtyFlag h \<and> g = ?f \<and> q = x \<longrightarrow> settled s2 g q)"
    "pool_used s2 ?f U" "\<And>g V. g \<noteq> ?f \<Longrightarrow> pool_used s g V \<Longrightarrow> pool_used s2 g V"
    by (rule pool.swap_page [OF H(1,16) nn room d p H(2) u]) (rule that)
  have "0 < ?B ?f ?hno" using H(17) [of ?f ?hno] by simp
  note K = S(10) [OF this]
  have at: "heap_at s2 h' U B hdr xs y \<and> heap_kept B s h s2 h'"
    if "filePtr h' = ?f" "headerPage h' = headerPage h" "headerPageNo h' = ?hno" "hdrDirtyFlag h' = hdrDirtyFlag h"
      "curPage h' = Frame j" "cur_pageNo h' = y" for h' :: "'h heapfile_scheme"
  proof
    show "heap_at s2 h' U B hdr xs y"
      unfolding heap_at_def that S(4)
      using S(3,5,6,9,11) H(3-6,8,17-19) K y hno by (auto simp: S(8) pool_rest_def hold_def split: if_splits)
    show "heap_kept B s h s2 h'"
      using S(10) [OF hold_pos [of B]] that H(10) S(12) unfolding heap_kept_def flagged_def cur_dirty_def S(5) by metis
  qed
  show thesis by (rule that [OF S(1,2,4) _ at]) (use S(7) p in simp_all)
qed

lemma InsertFileScan_new_spec:
  assumes new: "HeapFile_new s0 name = Some (OK, Some h, s)" and h: "heap_at s h U B hdr xs x"
  obtains s' h' where "InsertFileScan_new s0 name = Some (OK, Some h', s')" "heap_at s' h' U B hdr xs (last xs)"
    "page_of s' = page_of s" "filePtr h' = filePtr h" "numBufs s' = numBufs s" "heap_kept B s h s' h'"
proof -
  note H = heap_atD [OF h]
  obtain i where i: "curPage h = Frame i" using H(11) by blast
  have ne: "xs \<noteq> []" and lp: "hdr_lastPage hdr = last xs" using H(5) by (simp_all add: heap_file_def)
  have l: "last xs \<in> set xs" using ne by simp
  show thesis
  proof (cases "x = last xs")
    case True
    have "InsertFileScan_new s0 name = Some (OK, Some h, s)"
      using new i H(10,15) lp True by (simp add: InsertFileScan_new_def)
    then show thesis using that h True heap_kept_refl by blast
  next
    case False
    obtain s1 j s2 where S: "unPinPage s (filePtr h) x (curDirtyFlag h) = (OK, s1)"
      "readPage s1 (filePtr h) (last xs) = Some (OK, Some j, s2)" "page_of s2 = page_of s"
      "\<And>h' :: heapfile. filePtr h' = filePtr h \<Longrightarrow> headerPage h' = headerPage h \<Longrightarrow> headerPageNo h' = headerPageNo h \<Longrightarrow>
         hdrDirtyFlag h' = hdrDirtyFlag h \<Longrightarrow> curPage h' = Frame j \<Longrightarrow> cur_pageNo h' = last xs \<Longrightarrow>
         heap_at s2 h' U B hdr xs (last xs) \<and> heap_kept B s h s2 h'"
      by (rule heap_goto [OF h l]) (rule that)
    let ?h = "h\<lparr>cur_pageNo := last xs, curDirtyFlag := False, curPage := Frame j\<rparr>"
    have run: "InsertFileScan_new s0 name = Some (OK, Some ?h, s2)"
      using new i H(10,15) lp False S(1,2) by (simp add: InsertFileScan_new_def)
    have at: "heap_at s2 ?h U B hdr xs (last xs) \<and> heap_kept B s h s2 ?h" by (rule S(4)) simp_all
    then have "numBufs s2 = numBufs s" by (simp add: heap_kept_def pool_rest_def)
    then show thesis using that [OF run _ S(3)] at by simp
  qed
qed

section \<open>Changing a page of records\<close>

lemma used_from_update:
  assumes k: "k < length ss" and e: "ss ! k = None"
  shows "mset (map (\<lambda>j. (j, the (ss[k := Some r] ! j))) (used_from (ss[k := Some r]) 0)) =
    add_mset (k, r) (mset (map (\<lambda>j. (j, the (ss ! j))) (used_from ss 0)))"
proof -
  have split: "[0..<length ss] = [0..<k] @ k # [Suc k..<length ss]"
    using k upt_add_eq_append [of 0 k "length ss - k"] upt_conv_Cons [of k "length ss"] by simp
  let ?f = "\<lambda>ss j. (j, the (ss ! j)) :: nat \<times> byte list" and ?p = "\<lambda>ss :: byte list option list. \<lambda>j. ss ! j \<noteq> None"
  have eq: "map (?f (ss[k := Some r])) (filter (?p (ss[k := Some r])) js) = map (?f ss) (filter (?p ss) js)" if "k \<notin> set js" for js
    using that by (induction js) auto
  define A where "A = map (?f ss) (filter (?p ss) [0..<k])"
  define B where "B = map (?f ss) (filter (?p ss) [Suc k..<length ss])"
  have "map (?f (ss[k := Some r])) (used_from (ss[k := Some r]) 0) = A @ (k, r) # B"
    using k eq [of "[0..<k]"] eq [of "[Suc k..<length ss]"] by (simp add: used_from_def split A_def B_def)
  moreover have "map (?f ss) (used_from ss 0) = A @ B"
    using e by (simp add: used_from_def split A_def B_def)
  ultimately show ?thesis by simp
qed

text \<open>The records of a page as pairs of a slot number and the bytes.\<close>

definition slot_recs :: "byte list option list \<Rightarrow> (nat \<times> byte list) list" where
  "slot_recs ss = map (\<lambda>j. (j, the (ss ! j))) (used_from ss 0)"

lemma page_recs_slots: "page_recs x p = map (\<lambda>(j, r). (\<lparr>pageNo = x, slotNo = int j\<rparr>, r)) (slot_recs (page_slots p))"
  by (simp add: page_recs_from_def slot_recs_def comp_def)

lemma slot_recs_append: "slot_recs (ss @ [r]) = slot_recs ss @ (case r of None \<Rightarrow> [] | Some r \<Rightarrow> [(length ss, r)])"
proof -
  have "filter (\<lambda>j. (ss @ [r]) ! j \<noteq> None) [0..<length ss] = filter (\<lambda>j. ss ! j \<noteq> None) [0..<length ss]"
    by (rule filter_cong) (simp_all add: nth_append)
  then show ?thesis by (auto simp: slot_recs_def used_from_def nth_append split: option.split)
qed

lemma slot_recs_put: "mset (slot_recs (put_slot ss r)) = add_mset (first_empty ss, r) (mset (slot_recs ss))"
proof (cases "first_empty ss = length ss")
  case False
  then have "first_empty ss < length ss" using first_empty_le [of ss] by simp
  then show ?thesis
    using used_from_update [OF _ first_empty_None] False by (simp add: slot_recs_def put_slot_def)
qed (simp add: put_slot_def slot_recs_append)

lemma slot_recs_drop: "slot_recs (drop_empty_tail ss) = slot_recs ss"
  by (induction ss rule: rev_induct) (auto simp: drop_empty_tail_snoc slot_recs_append)

lemma slot_recs_free:
  assumes "k < length ss" "ss ! k = Some r"
  shows "add_mset (k, r) (mset (slot_recs (free_slot ss k))) = mset (slot_recs ss)"
proof -
  have "ss[k := None, k := Some r] = ss" using assms by (metis list_update_id list_update_overwrite)
  then show ?thesis using used_from_update [of k "ss[k := None]" r] assms
    by (simp add: slot_recs_def free_slot_def slot_recs_drop [unfolded slot_recs_def])
qed

lemma page_recs_put:
  assumes "page_slots q = put_slot (page_slots p) r"
  shows "mset (page_recs x q) = add_mset (\<lparr>pageNo = x, slotNo = int (first_empty (page_slots p))\<rparr>, r) (mset (page_recs x p))"
  using arg_cong [OF slot_recs_put [of "page_slots p" r], of "image_mset (\<lambda>(j, r). (\<lparr>pageNo = x, slotNo = int j\<rparr>, r))"]
  by (simp add: page_recs_slots assms)

lemma page_recs_free:
  assumes "page_slots q = free_slot (page_slots p) k" "k < num_slots p" "page_slots p ! k = Some r"
  shows "add_mset (\<lparr>pageNo = x, slotNo = int k\<rparr>, r) (mset (page_recs x q)) = mset (page_recs x p)"
  using arg_cong [OF slot_recs_free [of k "page_slots p" r], of "image_mset (\<lambda>(j, r). (\<lparr>pageNo = x, slotNo = int j\<rparr>, r))"]
  by (simp add: page_recs_slots assms)

lemma page_recs_mem:
  "(rid, r) \<in> set (page_recs x p) \<longleftrightarrow>
     (\<exists>k < num_slots p. rid = \<lparr>pageNo = x, slotNo = int k\<rparr> \<and> page_slots p ! k = Some r)"
  by (auto simp: page_recs_from_def used_from_def)

lemma chain_recs_update:
  assumes "xs = as @ x # bs" "distinct xs" "P' x = Some q" "\<And>y. y \<in> set xs \<Longrightarrow> y \<noteq> x \<Longrightarrow> P' y = P y"
  shows "chain_recs P' xs = chain_recs P as @ page_recs x q @ chain_recs P bs"
proof -
  have eq: "chain_recs P' zs = chain_recs P zs" if "set zs \<subseteq> set xs - {x}" for zs
    using that assms(4) by (induction zs) auto
  have "chain_recs P' as = chain_recs P as" "chain_recs P' bs = chain_recs P bs" by (rule eq; use assms(1,2) in auto)+
  then show ?thesis using assms(1,3) by simp
qed

lemma chain_recs_mem:
  "(rid, r) \<in> set (chain_recs P xs) \<longleftrightarrow> pageNo rid \<in> set xs \<and> (rid, r) \<in> set (page_recs (pageNo rid) (the (P (pageNo rid))))"
  by (auto simp: chain_recs_def page_recs_mem)

lemma chain_recs_distinct: "distinct xs \<Longrightarrow> distinct (map fst (chain_recs P xs))"
proof (induction xs)
  case (Cons x xs)
  have "distinct (map fst (page_recs x (the (P x))))"
    by (auto simp: page_recs_from_def used_from_def distinct_map inj_on_def)
  moreover have "pageNo ` fst ` set (chain_recs P xs) \<subseteq> set xs" by (auto simp: chain_recs_mem image_iff)
  moreover have "pageNo ` fst ` set (page_recs x (the (P x))) \<subseteq> {x}" by (auto simp: page_recs_from_def)
  ultimately show ?case using Cons by fastforce
qed simp

lemma page_chain_update:
  assumes "page_chain P no xs" "P x = Some p" "data_page x q" "nextPage q = nextPage p" "P' x = Some q"
    "\<And>y. y \<in> set xs \<Longrightarrow> y \<noteq> x \<Longrightarrow> P' y = P y"
  shows "page_chain P' no xs"
  using assms(1,6)
proof (induction xs arbitrary: no)
  case (Cons y ys)
  then show ?case using assms(2-5) by (cases "y = x") auto
qed simp

section \<open>Writing the header and the current page\<close>

lemma hdr_fields:
  "hdr_recCnt (set_hdr_recCnt p v) = wrap32 v" "hdr_firstPage (set_hdr_recCnt p v) = hdr_firstPage p"
  "hdr_lastPage (set_hdr_recCnt p v) = hdr_lastPage p" "hdr_pageCnt (set_hdr_recCnt p v) = hdr_pageCnt p"
  "hdr_recCnt (set_hdr_pageCnt p v) = hdr_recCnt p" "hdr_firstPage (set_hdr_pageCnt p v) = hdr_firstPage p"
  "hdr_lastPage (set_hdr_pageCnt p v) = hdr_lastPage p" "hdr_pageCnt (set_hdr_pageCnt p v) = wrap32 v"
  "hdr_recCnt (set_hdr_lastPage p v) = hdr_recCnt p" "hdr_firstPage (set_hdr_lastPage p v) = hdr_firstPage p"
  "hdr_lastPage (set_hdr_lastPage p v) = wrap32 v" "hdr_pageCnt (set_hdr_lastPage p v) = hdr_pageCnt p"
  "hdr_recCnt (set_hdr_firstPage p v) = hdr_recCnt p" "hdr_firstPage (set_hdr_firstPage p v) = wrap32 v"
  "hdr_lastPage (set_hdr_firstPage p v) = hdr_lastPage p" "hdr_pageCnt (set_hdr_firstPage p v) = hdr_pageCnt p"
  by (simp_all add: hdr_recCnt_def hdr_firstPage_def hdr_lastPage_def hdr_pageCnt_def set_hdr_recCnt_def
      set_hdr_firstPage_def set_hdr_lastPage_def set_hdr_pageCnt_def mem_simps)

lemma bufUpdate_spec:
  assumes inv: "db_inv s" and fr: "pool_frame s f no = Some i" and pos: "0 < pin_of s f no" and p: "page_of s f no = Some p"
  shows "db_inv (bufUpdate s i g)" "pool_frame (bufUpdate s i g) = pool_frame s" "pin_of (bufUpdate s i g) = pin_of s"
    "page_of (bufUpdate s i g) = (\<lambda>a b. if a = f \<and> b = no then Some (g p) else page_of s a b)"
    "(a, b) \<noteq> (f, no) \<Longrightarrow> settled s a b \<Longrightarrow> settled (bufUpdate s i g) a b"
    "pool_used s f' U \<Longrightarrow> pool_used (bufUpdate s i g) f' U" "bufPool (bufUpdate s i g) ! i = g p"
    "(a, b) \<noteq> (f, no) \<Longrightarrow> pool_frame s a b = Some j \<Longrightarrow> bufPool (bufUpdate s i g) ! j = bufPool s ! j"
    "numBufs (bufUpdate s i g) = numBufs s" "pool_rest (bufUpdate s i g) = pool_rest s"
proof -
  have e: "bufPool s ! i = p" using pool.view_frame [OF inv fr] p by simp
  note W = pool.write_pinned [OF inv fr pos, where pg = "g p"]
  show "db_inv (bufUpdate s i g)" "pool_frame (bufUpdate s i g) = pool_frame s" "pin_of (bufUpdate s i g) = pin_of s"
    "page_of (bufUpdate s i g) = (\<lambda>a b. if a = f \<and> b = no then Some (g p) else page_of s a b)"
    unfolding bufUpdate_def e using W by simp_all
  show "(a, b) \<noteq> (f, no) \<Longrightarrow> settled s a b \<Longrightarrow> settled (bufUpdate s i g) a b"
    unfolding bufUpdate_def e by (rule pool.write_pinned [OF inv fr pos])
  show "pool_used s f' U \<Longrightarrow> pool_used (bufUpdate s i g) f' U"
    unfolding bufUpdate_def e by (rule pool.write_pinned [OF inv fr pos])
  show "bufPool (bufUpdate s i g) ! i = g p"
    unfolding bufUpdate_def e by (rule pool.contents_write [OF inv fr pos])
  show "(a, b) \<noteq> (f, no) \<Longrightarrow> pool_frame s a b = Some j \<Longrightarrow> bufPool (bufUpdate s i g) ! j = bufPool s ! j"
    unfolding bufUpdate_def e using pool.contents_write_other [OF inv fr pos] by simp
  show "numBufs (bufUpdate s i g) = numBufs s" "pool_rest (bufUpdate s i g) = pool_rest s"
    by (simp_all add: bufUpdate_def pool_write_def pool_rest_def)
qed

text \<open>
  The current page is replaced by q, and the header by what g makes of it: the heap file stays
  one when q is a page of records with the same successor and the header counts the records of q.
\<close>

lemma heap_put:
  assumes h: "heap_at s h U B hdr xs x" and c: "curPage h = Frame i" and p: "page_of s (filePtr h) x = Some p"
    and q: "data_page x q" "nextPage q = nextPage p"
    and cnt: "hdr_recCnt hdr' = wrap32 (int (length (chain_recs (page_of s (filePtr h)) xs)) + int (length (page_recs x q)) - int (length (page_recs x p)))"
    and g: "hdr' = g hdr" "hdr_firstPage hdr' = hdr_firstPage hdr" "hdr_lastPage hdr' = hdr_lastPage hdr" "hdr_pageCnt hdr' = hdr_pageCnt hdr"
  defines "s' \<equiv> bufUpdate (bufUpdate s i (\<lambda>_. q)) (headerPage h) g"
  shows "heap_at s' (h\<lparr>curDirtyFlag := True, hdrDirtyFlag := True\<rparr>) U B hdr' xs x"
    "page_of s' = (\<lambda>a b. if a = filePtr h \<and> b = headerPageNo h then Some hdr' else if a = filePtr h \<and> b = x then Some q else page_of s a b)"
    "pin_of s' = pin_of s" "numBufs s' = numBufs s" "pool_frame s' = pool_frame s"
    "heap_kept B s h s' (h\<lparr>curDirtyFlag := True, hdrDirtyFlag := True\<rparr>)"
proof -
  let ?f = "filePtr h" and ?hno = "headerPageNo h" and ?s1 = "bufUpdate s i (\<lambda>_. q)"
  note H = heap_atD [OF h]
  have fx: "pool_frame s ?f x = Some i" and px: "0 < pin_of s ?f x" using H(11,12) c by auto
  note B = bufUpdate_spec [OF H(1) fx px p, where g = "\<lambda>_. q"]
  have hd: "page_of s ?f ?hno = Some hdr" using H(5) by (simp add: heap_file_def)
  have fh: "pool_frame ?s1 ?f ?hno = Some (headerPage h)" "0 < pin_of ?s1 ?f ?hno" "page_of ?s1 ?f ?hno = Some hdr"
    using B(2,3,4) H(6,7,14) hd by simp_all
  note C = bufUpdate_spec [OF B(1) fh, where g = g, folded s'_def]
  show P: "page_of s' = (\<lambda>a b. if a = ?f \<and> b = ?hno then Some hdr' else if a = ?f \<and> b = x then Some q else page_of s a b)"
    using C(4) B(4) g(1) by (auto simp: fun_eq_iff)
  show pins: "pin_of s' = pin_of s" and "numBufs s' = numBufs s" and fr: "pool_frame s' = pool_frame s"
    using C(2,3,9) B(2,3,9) by simp_all
  have hx: "?hno \<notin> set xs" and dx: "distinct xs" and ch: "page_chain (page_of s ?f) (hdr_firstPage hdr) xs"
    using H(5) by (simp_all add: heap_file_def)
  obtain as bs where xs: "xs = as @ x # bs" using H(9) by (meson split_list)
  have P': "page_of s' ?f x = Some q" "\<And>y. y \<in> set xs \<Longrightarrow> y \<noteq> x \<Longrightarrow> page_of s' ?f y = page_of s ?f y"
    "page_of s' ?f ?hno = Some hdr'"
    using P H(14) hx by auto
  have "page_chain (page_of s' ?f) (hdr_firstPage hdr) xs"
    by (rule page_chain_update [where P' = "page_of s' ?f", OF ch p q P'(1,2)])
  moreover have "chain_recs (page_of s' ?f) xs = chain_recs (page_of s ?f) as @ page_recs x q @ chain_recs (page_of s ?f) bs"
    by (rule chain_recs_update [where P' = "page_of s' ?f", OF xs dx P'(1,2)])
  moreover have "chain_recs (page_of s ?f) xs = chain_recs (page_of s ?f) as @ page_recs x p @ chain_recs (page_of s ?f) bs"
    by (rule chain_recs_update [where P' = "page_of s ?f", OF xs dx p]) simp
  ultimately have "heap_file (page_of s' ?f) ?hno hdr' xs"
    using H(5) P'(3) g(2-4) cnt by (simp add: heap_file_def ac_simps)
  moreover have "pool_used s' ?f U" by (rule C(6), rule B(6), rule H(2))
  ultimately show "heap_at s' (h\<lparr>curDirtyFlag := True, hdrDirtyFlag := True\<rparr>) U B hdr' xs x"
    unfolding heap_at_def using C(1,9) B(9) H(3,4,6,9-11,16-19) pins fr by simp
  have "settled s' g q \<or> flagged (h\<lparr>curDirtyFlag := True, hdrDirtyFlag := True\<rparr>) g q"
    if "settled s g q \<or> flagged h g q" for g q
    using that B(5) C(5) H(10) by (cases "(g, q) = (?f, x)"; cases "(g, q) = (?f, ?hno)") (auto simp: flagged_def cur_dirty_def)
  then show "heap_kept B s h s' (h\<lparr>curDirtyFlag := True, hdrDirtyFlag := True\<rparr>)"
    using fr B(6,10) C(6,10) by (auto simp: heap_kept_def)
qed

section \<open>Allocating a page\<close>

text \<open>No call takes a file off the disk.\<close>

definition disk_kept :: "'z io_scheme \<Rightarrow> 'z io_scheme \<Rightarrow> bool" where
  "disk_kept s s' \<longleftrightarrow> (\<forall>name. disk s name \<noteq> None \<longrightarrow> disk s' name \<noteq> None)"

lemma disk_kept_refl [simp]: "disk_kept s s"
  by (simp add: disk_kept_def)

lemma disk_kept_trans: "disk_kept s s' \<Longrightarrow> disk_kept s' s'' \<Longrightarrow> disk_kept s s''"
  by (simp add: disk_kept_def)

lemma disk_kept_upd [simp]:
  "disk_kept s (s' :: 'z pool_scheme) \<Longrightarrow> disk_kept s (s'\<lparr>hashTable := h\<rparr>)" "disk_kept s s' \<Longrightarrow> disk_kept s (s'\<lparr>bufTable := b\<rparr>)"
  "disk_kept s s' \<Longrightarrow> disk_kept s (s'\<lparr>bufStats := st\<rparr>)" "disk_kept s s' \<Longrightarrow> disk_kept s (s'\<lparr>clockHand := c\<rparr>)"
  "disk_kept s s' \<Longrightarrow> disk_kept s (advanceClock s')" "disk_kept (advanceClock s) s' = disk_kept s s'"
  "disk_kept (s\<lparr>bufStats := st\<rparr>) s' = disk_kept s s'" "disk_kept (s\<lparr>bufTable := b\<rparr>) s' = disk_kept s s'"
  "disk_kept (s\<lparr>hashTable := h\<rparr>) s' = disk_kept s s'" "disk_kept (s\<lparr>clockHand := c\<rparr>) s' = disk_kept s s'"
  by (simp_all add: disk_kept_def advanceClock_def)

lemma intwrite_kept: "File_intwrite s f no p = Some (st, s') \<Longrightarrow> disk_kept s s'"
proof (cases "files s f")
  case (Some fo)
  moreover assume "File_intwrite s f no p = Some (st, s')"
  ultimately show ?thesis
    by (cases "fds s (unixFile fo)"; cases "disk s (the (fds s (unixFile fo)))")
      (auto simp: File_intwrite_def disk_kept_def split: if_split_asm)
qed (simp add: File_intwrite_def)

lemma writePage_kept: "File_writePage s f no p = Some (st, s') \<Longrightarrow> disk_kept s s'"
  by (auto simp: File_writePage_def intwrite_kept split: if_split_asm)

lemma allocBuf_loop_kept: "allocBuf_loop n s = (b, m, s') \<Longrightarrow> disk_kept s s'"
  by (induction n s rule: allocBuf_loop.induct) (auto simp: Let_def split: if_split_asm)

lemma allocBuf_kept: "allocBuf s = Some (st, fr, s') \<Longrightarrow> disk_kept s s'"
  by (auto simp: allocBuf_def Let_def bind_eq_Some_conv all_conj_distrib split: prod.split_asm if_split_asm
      dest!: allocBuf_loop_kept writePage_kept intro: disk_kept_trans)

lemma allocatePage_kept: "File_allocatePage s f = Some (st, no, s') \<Longrightarrow> disk_kept s s'"
  by (auto simp: File_allocatePage_def Let_def bind_eq_Some_conv all_conj_distrib split: if_split_asm option.split_asm
      dest!: intwrite_kept intro: disk_kept_trans)

lemma allocPage_kept: "allocPage s f = Some (st, no, fr, s') \<Longrightarrow> disk_kept s s'"
  by (auto simp: allocPage_def Let_def bind_eq_Some_conv all_conj_distrib case_prod_unfold
      split: if_split_asm option.split_asm dest!: allocBuf_kept allocatePage_kept)
    (auto simp: disk_kept_def)

text \<open>A file has room for another page as long as page numbers are ints.\<close>

definition file_room :: "'z db_scheme \<Rightarrow> fptr \<Rightarrow> bool" where
  "file_room s f \<longleftrightarrow> (\<exists>ps. file_pages s f = Some ps \<and> length ps < 2147483647)"

lemma file_roomI:
  assumes "pool_used s f U" "page_of s f q = None" "1 \<le> q" "q < 2147483647"
  shows "file_room s f"
proof -
  obtain ps where ps: "file_pages s f = Some ps" using assms(1) by (auto simp: pool_used_def file_ok_def)
  have "disk_page s f q = None" using assms(2) by (simp add: page_of_def split: option.splits)
  then have "int (length ps) \<le> q" using ps assms(3) by (simp add: disk_page_def split: if_splits)
  then show ?thesis using ps assms(4) by (simp add: file_room_def)
qed

lemma allocPage_any:
  assumes inv: "db_inv s" and u: "pool_used s f U" and fr: "file_room s f" and room: "pool_room s"
  obtains no n i s' where "allocPage s f = Some (OK, Some no, Some i, s')" "db_inv s'" "pool_used s' f (grown no n (if lay_used U = {} then U\<lparr>lay_first := no\<rparr> else U))"
    "no \<notin> lay_used U" "1 \<le> no" "wrap32 no = no" "pool_frame s' f no = Some i"
    "\<And>g q. (g, q) \<noteq> (f, no) \<Longrightarrow> page_of s' g q = page_of s g q"
    "pin_of s' = hold f no (pin_of s)" "pinned_kept pin_of pool_frame settled s s'" "pool_rest s' = pool_rest s"
    "\<And>g V. g \<noteq> f \<Longrightarrow> pool_used s g V \<Longrightarrow> pool_used s' g V" "n \<le> Suc (lay_size U)"
proof -
  have po: "pool_ok {} s" "coherent {} s" and op: "open_ok s" using inv by (simp_all add: db_inv_def)
  obtain ps fl where ok: "file_ok s f ps fl" and U: "U = layout_of ps fl"
    using u by (auto simp: pool_used_def)
  have db: "db_file ps fl" using ok by (simp add: file_ok_def)
  have one: "lay_used U = {} \<longleftrightarrow> length ps = 1"
  proof
    assume e: "lay_used U = {}"
    show "length ps = 1"
    proof (rule ccontr)
      assume "length ps \<noteq> 1"
      then have "db_firstPage (ps ! 0) \<in> used_pages ps fl" using db by (auto simp: db_file_def used_pages_def)
      then show False using e U by simp
    qed
  qed (use U in \<open>auto simp: used_pages_def\<close>)
  have len: "length ps < 2147483647" using fr ok by (auto simp: file_room_def file_ok_def)
  from po ok len show thesis
  proof (cases rule: allocPage_pool_spec)
    case (1 no s' ps' fl')
    then show ?thesis using room by (auto simp: pool_room_def)
  next
    case (2 no h s' ps' fl')
    note st = allocPage_step [OF 2(1)] and kept = allocPage_kept [OF 2(1)]
    have eq: "fds s' = fds s" "files s' = files s" "openFiles s' = openFiles s"
      using st by (auto simp: pool_step_def dest: db_more)
    have "file_name s' = file_name s" "closed_disk s' = closed_disk s" using st eq by (simp_all add: pool_step_def file_name_def fun_eq_iff)
    note names = disk_names_kept [OF op this]
    have "open_ok s'"
      using op kept names unfolding open_ok_def eq by (auto simp: disk_kept_def)
    then have inv': "db_inv s'" using 2(2,3) by (simp add: db_inv_def)
    have used: "pool_used s' f (grown no (length ps') (if lay_used U = {} then U\<lparr>lay_first := no\<rparr> else U))"
      unfolding pool_used_def using 2(4,6,12) U one by (intro exI [of _ ps'] exI [of _ fl']) (simp add: layout_of_def grown_def)
    have "(f, no) \<notin> cached s" using pool_used_cached [OF u, of no] 2(5) U by auto
    then have "pin_of s f no = 0" by (auto simp: cached_def pin_of_def split: option.split)
    then have pins: "pin_of s' = hold f no (pin_of s)" using 2(11) by (auto simp: hold_def fun_eq_iff)
    have rest: "pool_rest s' = pool_rest s" using st by (simp add: pool_rest_step)
    have "no \<in> used_pages ps' fl'" using 2(6) by simp
    then have r: "1 \<le> no" "no < int (length ps')" by (auto simp: used_pages_def)
    then have w: "wrap32 no = no" using 2(13) len by (simp add: wrap32_def)
    have "pool_frame s' f no = Some h" using 2(8) by (simp add: pool_frame_def)
    moreover have "pinned_kept pin_of pool_frame settled s s'"
      using 2(14) by (simp add: pinned_kept_def pins_kept_def pool_frame_def)
    moreover have "pool_used s' g V" if g: "g \<noteq> f" and u: "pool_used s g V" for g V
    proof -
      obtain qs gl where V: "file_ok s g qs gl" "V = layout_of qs gl" using u by (auto simp: pool_used_def)
      obtain qs' where "file_ok s' g qs' gl" "length qs' = length qs" "qs' ! 0 = qs ! 0"
        using 2(15) [OF g] V(1) unfolding file_same_def by blast
      moreover from this have "V = layout_of qs' gl" using V(2) by (simp add: layout_of_def used_pages_def)
      ultimately show ?thesis unfolding pool_used_def by blast
    qed
    ultimately show ?thesis using that [OF 2(1) inv' used _ r(1) w] 2(5,7,13) U pins rest by simp
  qed
qed

lemma allocPage_db:
  assumes inv: "db_inv s" and u: "pool_used s f U" "lay_used U \<noteq> {}" and fr: "file_room s f" and room: "pool_room s"
  obtains no n i s' where "allocPage s f = Some (OK, Some no, Some i, s')" "db_inv s'" "pool_used s' f (grown no n U)"
    "no \<notin> lay_used U" "1 \<le> no" "wrap32 no = no" "pool_frame s' f no = Some i"
    "\<And>g q. (g, q) \<noteq> (f, no) \<Longrightarrow> page_of s' g q = page_of s g q"
    "pin_of s' = hold f no (pin_of s)" "pinned_kept pin_of pool_frame settled s s'" "pool_rest s' = pool_rest s"
    "\<And>g V. g \<noteq> f \<Longrightarrow> pool_used s g V \<Longrightarrow> pool_used s' g V" "n \<le> Suc (lay_size U)"
  by (rule allocPage_any [OF inv u(1) fr room]) (simp only: u(2) if_False, rule that)

section \<open>insertRecord\<close>

lemma wrap32_add: "wrap32 (wrap32 a + b) = wrap32 (a + b)"
  by (simp add: wrap32_def mod_simps algebra_simps)

lemma mset_chain_update:
  assumes "xs = as @ x # bs" "distinct xs" "P x = Some p" "P' x = Some q" "\<And>y. y \<in> set xs \<Longrightarrow> y \<noteq> x \<Longrightarrow> P' y = P y"
  shows "mset (chain_recs P' xs) + mset (page_recs x p) = mset (chain_recs P xs) + mset (page_recs x q)"
  using chain_recs_update [where P' = P' and P = P, OF assms(1,2,4,5)] assms(1,3) by simp

text \<open>The record fits on the current page.\<close>

lemma insert_fits:
  assumes h: "heap_at s h U B hdr xs x" and p: "page_of s (filePtr h) x = Some p" and r: "r \<noteq> []"
    and fits: "int (length r) + 4 \<le> freeSpace p"
  obtains s' hdr' rid P' where
    "InsertFileScan_insertRecord s h r = Some (OK, Some rid, s', h\<lparr>curDirtyFlag := True, hdrDirtyFlag := True\<rparr>)"
    "heap_at s' (h\<lparr>curDirtyFlag := True, hdrDirtyFlag := True\<rparr>) U B hdr' xs x" "pageNo rid = x"
    "P' = page_of s' (filePtr h)"
    "mset (chain_recs P' xs) = add_mset (rid, r) (mset (chain_recs (page_of s (filePtr h)) xs))"
    "\<And>g q. g \<noteq> filePtr h \<or> q \<notin> insert (headerPageNo h) (set xs) \<Longrightarrow> page_of s' g q = page_of s g q"
    "heap_kept B s h s' (h\<lparr>curDirtyFlag := True, hdrDirtyFlag := True\<rparr>)" "numBufs s' = numBufs s"
proof -
  let ?f = "filePtr h" and ?hno = "headerPageNo h"
  note H = heap_atD [OF h]
  obtain i where i: "curPage h = Frame i" "pool_frame s ?f x = Some i" using H(11) by blast
  obtain as bs p' where xs: "xs = as @ x # bs" and dp: "data_page x p"
    by (rule heap_fileD [OF H(5,9)]) (use p in auto)
  have e: "bufPool s ! i = p" using pool.view_frame [OF H(1) i(2)] p by simp
  have inv: "page_inv p" "curPageNo p = x" "1 \<le> x" "Some [] \<notin> set (page_slots p)" using dp by (simp_all add: data_page_def)
  let ?k = "first_empty (page_slots p)" and ?rid = "\<lparr>pageNo = x, slotNo = int (first_empty (page_slots p))\<rparr>"
  obtain q where q: "Page_insertRecord p r = (OK, q, Some ?rid)" "page_inv q" "page_slots q = put_slot (page_slots p) r"
    "nextPage q = nextPage p" "curPageNo q = x"
    using insertRecord_sound [OF inv(1), of r] fits inv(2) by auto
  have "Some [] \<notin> set (page_slots q)"
  proof -
    have "set (put_slot (page_slots p) r) \<subseteq> insert (Some r) (set (page_slots p))"
      by (auto simp: put_slot_def dest: set_update_subset_insert [THEN subsetD])
    then show ?thesis using inv(4) r q(3) by auto
  qed
  then have dq: "data_page x q" using q inv by (simp add: data_page_def)
  have pr: "mset (page_recs x q) = add_mset (?rid, r) (mset (page_recs x p))" by (rule page_recs_put [OF q(3)])
  then have len: "length (page_recs x q) = length (page_recs x p) + 1" by (metis size_mset size_add_mset Suc_eq_plus1)
  let ?g = "\<lambda>p. set_hdr_recCnt p (hdr_recCnt p + 1)"
  have cnt: "hdr_recCnt (?g hdr) = wrap32 (int (length (chain_recs (page_of s ?f) xs)) + int (length (page_recs x q)) - int (length (page_recs x p)))"
    using H(5) len by (simp add: hdr_fields heap_file_def wrap32_add)
  note W = heap_put [where g = ?g, OF h i(1) p dq q(4) cnt refl hdr_fields(2-4)]
  let ?s' = "bufUpdate (bufUpdate s i (\<lambda>_. q)) (headerPage h) ?g"
  have small: "int (length r) \<le> PAGESIZE - DPFIXED"
    using fits page_layout_bounds(3) [of p] inv(1) by (simp add: page_inv_def PAGESIZE_def DPFIXED_def)
  have run: "InsertFileScan_insertRecord s h r = Some (OK, Some ?rid, ?s', h\<lparr>curDirtyFlag := True, hdrDirtyFlag := True\<rparr>)"
    using small i(1) e q(1) by (simp add: InsertFileScan_insertRecord_def)
  have dx: "distinct xs" and hx: "?hno \<notin> set xs" using H(5) by (simp_all add: heap_file_def)
  have "mset (chain_recs (page_of ?s' ?f) xs) + mset (page_recs x p) = mset (chain_recs (page_of s ?f) xs) + mset (page_recs x q)"
    by (rule mset_chain_update [where P = "page_of s ?f", OF xs dx p]) (use W(2) H(14) hx in auto)
  then have "mset (chain_recs (page_of ?s' ?f) xs) = add_mset (?rid, r) (mset (chain_recs (page_of s ?f) xs))"
    using pr by simp
  moreover have "page_of ?s' g n = page_of s g n" if "g \<noteq> ?f \<or> n \<notin> insert ?hno (set xs)" for g n
    using that W(2) H(9) by auto
  ultimately show thesis using that [OF run W(1) _ refl] W(4,6) by simp
qed

text \<open>The forward pointer of a page is not part of its records.\<close>

lemma setNextPage_data:
  assumes p: "page_inv p"
  shows "page_slots (snd (Page_setNextPage p v)) = page_slots p" "nextPage (snd (Page_setNextPage p v)) = wrap32 v"
    "page_inv (snd (Page_setNextPage p v))" "freeSpace (snd (Page_setNextPage p v)) = freeSpace p"
    "curPageNo (snd (Page_setNextPage p v)) = curPageNo p" "page_recs_from x (snd (Page_setNextPage p v)) k = page_recs_from x p k"
proof -
  let ?q = "set_nextPage p v"
  have lay: "page_layout p" using p by (simp add: page_inv_def)
  have n: "num_slots ?q = num_slots p" by (simp add: num_slots_def page_simps)
  have s: "page_slot ?q k = page_slot p k" if "k < num_slots p" for k
  proof -
    have "slot_fits p k" using lay that by (simp add: page_layout_def)
    then show ?thesis using page_layout_bounds(2) [OF lay]
      by (auto simp: page_slot_def page_simps slot_fits_def)
  qed
  have ss: "page_slots ?q = page_slots p" by (simp add: page_slots_def s n)
  have "slot_fits ?q k = slot_fits p k" "slots_apart ?q j k = slots_apart p j k" for j k
    by (simp_all add: slot_fits_def slots_apart_def page_simps)
  then have "page_layout ?q = page_layout p" by (simp add: page_layout_def n page_simps)
  then have "page_inv ?q" using p by (simp add: page_inv_def ss page_simps)
  then show "page_slots (snd (Page_setNextPage p v)) = page_slots p" "nextPage (snd (Page_setNextPage p v)) = wrap32 v"
    "page_inv (snd (Page_setNextPage p v))" "freeSpace (snd (Page_setNextPage p v)) = freeSpace p"
    "curPageNo (snd (Page_setNextPage p v)) = curPageNo p" "page_recs_from x (snd (Page_setNextPage p v)) k = page_recs_from x p k"
    by (simp_all add: Page_setNextPage_def ss page_simps page_recs_from_def)
qed

lemma bufUpdate_id: "bufPool s ! i = p \<Longrightarrow> bufUpdate s i (\<lambda>_. p) = s"
  by (drule sym) (simp add: bufUpdate_def pool_write_def)

lemma bufUpdate_twice:
  "i < length (bufPool s) \<Longrightarrow> bufUpdate (bufUpdate s i g) i k = bufUpdate s i (\<lambda>p. k (g p))"
  by (simp add: bufUpdate_def pool_write_def)

text \<open>The new page at the end of the chain.\<close>

lemma page_chain_snoc:
  assumes "page_chain P no xs" "xs \<noteq> []" "P (last xs) = Some p" "data_page (last xs) q" "nextPage q = n" "distinct xs"
    "P' (last xs) = Some q" "\<And>y. y \<in> set xs \<Longrightarrow> y \<noteq> last xs \<Longrightarrow> P' y = P y"
    "P' n = Some r" "data_page n r" "nextPage r = -1"
  shows "page_chain P' no (xs @ [n])"
  using assms(1-8)
proof (induction xs arbitrary: no)
  case (Cons y ys)
  show ?case
  proof (cases "ys = []")
    case True
    then show ?thesis using Cons.prems assms(9-11) by simp
  next
    case False
    obtain p' where p': "P y = Some p'" "data_page y p'" "page_chain P (nextPage p') ys" "no = y"
      using Cons.prems(1) by auto
    have "last ys \<noteq> y" using Cons.prems(6) False by (metis distinct.simps(2) last_in_set)
    then have "P' y = P y" using Cons.prems(8) False by simp
    moreover have "page_chain P' (nextPage p') (ys @ [n])"
      by (rule Cons.IH [OF p'(3) False]) (use Cons.prems False in auto)
    ultimately show ?thesis using p' by simp
  qed
qed simp

lemma heap_grow:
  assumes h: "heap_at s h U B hdr xs (last xs)" and i: "curPage h = Frame i" and fr: "file_room s (filePtr h)" and room: "pool_room s"
  obtains no n j s0 s' hdr' p' where "allocPage s (filePtr h) = Some (OK, Some no, Some j, s0)"
    "unPinPage (bufUpdate (bufUpdate (bufUpdate (bufUpdate (bufUpdate s0 j (\<lambda>p. Page_init p no)) j (\<lambda>p. snd (Page_setNextPage p (-1))))
       (headerPage h) (\<lambda>p. set_hdr_lastPage p no)) (headerPage h) (\<lambda>p. set_hdr_pageCnt p (hdr_pageCnt p + 1)))
       i (\<lambda>p. snd (Page_setNextPage p no))) (filePtr h) (last xs) True = (OK, s')"
    "heap_at s' (h\<lparr>hdrDirtyFlag := True, curPage := Frame j, cur_pageNo := no, curDirtyFlag := True\<rparr>) (grown no n U) B hdr' (xs @ [no]) no"
    "page_of s' (filePtr h) no = Some p'" "page_slots p' = []" "freeSpace p' = 1004" "bufPool s' ! j = p'" "no \<notin> lay_used U"
    "chain_recs (page_of s' (filePtr h)) (xs @ [no]) = chain_recs (page_of s (filePtr h)) xs"
    "\<And>g q. g \<noteq> filePtr h \<or> q \<notin> insert no (insert (headerPageNo h) (set xs)) \<Longrightarrow> page_of s' g q = page_of s g q"
    "heap_kept B s h s' (h\<lparr>hdrDirtyFlag := True, curPage := Frame j, cur_pageNo := no, curDirtyFlag := True\<rparr>)" "n \<le> Suc (lay_size U)"
proof -
  let ?f = "filePtr h" and ?hno = "headerPageNo h" and ?x = "last xs"
  note H = heap_atD [OF h]
  have hf: "page_of s ?f ?hno = Some hdr" "?hno \<notin> set xs" "distinct xs" "xs \<noteq> []" and ch: "page_chain (page_of s ?f) (hdr_firstPage hdr) xs"
    and cnt: "hdr_pageCnt hdr = wrap32 (int (length xs))" "hdr_recCnt hdr = wrap32 (int (length (chain_recs (page_of s ?f) xs)))"
    using H(5) by (simp_all add: heap_file_def)
  obtain p where p: "page_of s ?f ?x = Some p" "data_page ?x p" by (rule heap_fileD [OF H(5,9)]) (rule that)
  have fi: "pool_frame s ?f ?x = Some i" using H(11) i by auto
  have Une: "lay_used U \<noteq> {}" using H(3) by auto
  obtain no n j s0 where A: "allocPage s ?f = Some (OK, Some no, Some j, s0)" "db_inv s0" "pool_used s0 ?f (grown no n U)"
    "no \<notin> lay_used U" "1 \<le> no" "wrap32 no = no" "pool_frame s0 ?f no = Some j"
    "\<And>g q. (g, q) \<noteq> (?f, no) \<Longrightarrow> page_of s0 g q = page_of s g q"
    "pin_of s0 = hold ?f no (pin_of s)" "pinned_kept pin_of pool_frame settled s s0" "pool_rest s0 = pool_rest s"
    "\<And>g V. g \<noteq> ?f \<Longrightarrow> pool_used s g V \<Longrightarrow> pool_used s0 g V" "n \<le> Suc (lay_size U)"
    by (rule allocPage_db [OF H(1,2) Une fr room]) (rule that)
  have no: "no \<noteq> ?hno" "no \<noteq> ?x" "no \<notin> set xs" using A(4) H(3,4,9) by auto
  have hx: "?hno \<noteq> ?x" by (rule H(14))
  have kept: "pool_frame s0 ?f ?x = Some i" "pool_frame s0 ?f ?hno = Some (headerPage h)"
    "settled s ?f ?hno \<longrightarrow> settled s0 ?f ?hno"
    using A(10) H(6,7,12) fi by (auto simp: pinned_kept_def)
  have po0: "pool_ok {} s0" using A(2) by (simp add: db_inv_def)
  have bound: "k < length (bufPool s0)" if "pool_frame s0 ?f q = Some k" for k q
    using pool_ok_map [OF po0, of ?f q "int k"] pool_frame_Some [OF po0, of ?f q k] pool_okD [OF po0] that by simp
  let ?new = "\<lambda>p. snd (Page_setNextPage (Page_init p no) (-1))"
  let ?hdr = "\<lambda>p. set_hdr_pageCnt (set_hdr_lastPage p no) (hdr_pageCnt (set_hdr_lastPage p no) + 1)"
  let ?next = "\<lambda>p. snd (Page_setNextPage p no)"
  let ?s2 = "bufUpdate s0 j ?new" let ?s4 = "bufUpdate ?s2 (headerPage h) ?hdr" let ?s5 = "bufUpdate ?s4 i ?next"
  have len: "length (bufPool (bufUpdate t k g)) = length (bufPool t)" for t :: "'a db_scheme" and k g
    by (simp add: bufUpdate_def pool_write_def)
  have eq: "bufUpdate (bufUpdate (bufUpdate (bufUpdate (bufUpdate s0 j (\<lambda>p. Page_init p no)) j (\<lambda>p. snd (Page_setNextPage p (-1))))
       (headerPage h) (\<lambda>p. set_hdr_lastPage p no)) (headerPage h) (\<lambda>p. set_hdr_pageCnt p (hdr_pageCnt p + 1)))
       i (\<lambda>p. snd (Page_setNextPage p no)) = ?s5"
    using bound [OF A(7)] bound [OF kept(2)] by (simp add: bufUpdate_twice len)
  have nn0: "\<And>g q. 0 \<le> pin_of s g q" by (rule pool.pins_nonneg [OF H(1)])
  have pos0: "0 < pin_of s g q \<Longrightarrow> 0 < pin_of s0 g q" for g q unfolding A(9) by (rule hold_pos)
  have pj: "0 < pin_of s0 ?f no" using nn0 [of ?f no] by (simp add: A(9))
  obtain p0 where p0: "page_of s0 ?f no = Some p0" using pool.view_frame [OF A(2,7)] by blast
  note B = bufUpdate_spec [where g = ?new, OF A(2,7) pj p0]
  have q2: "pool_frame ?s2 ?f ?hno = Some (headerPage h)" "0 < pin_of ?s2 ?f ?hno" "page_of ?s2 ?f ?hno = Some hdr"
    using B(2-4) kept A(8) pos0 [OF H(7)] no(1) hf(1) by auto
  note C = bufUpdate_spec [where g = ?hdr, OF B(1) q2]
  have q4: "pool_frame ?s4 ?f ?x = Some i" "0 < pin_of ?s4 ?f ?x" "page_of ?s4 ?f ?x = Some p"
    using C(2-4) B(2-4) kept A(8) pos0 [OF H(12)] no(2) hx p(1) by auto
  note D = bufUpdate_spec [where g = ?next, OF C(1) q4]
  have pin5: "pin_of ?s5 = pin_of s0" and fr5: "pool_frame ?s5 = pool_frame s0" using B(2,3) C(2,3) D(2,3) by simp_all
  let ?B = "hold ?f no (hold ?f ?hno B)"
  have pins5: "pin_of ?s5 = hold ?f ?x ?B" unfolding pin5 A(9) H(16) by (rule hold_swap)
  have nn: "\<And>g q. 0 \<le> ?B g q" by (intro hold_nonneg H(17))
  obtain s' where E: "unPinPage ?s5 ?f ?x True = (OK, s')" "db_inv s'"
    "page_of s' = page_of ?s5" "pool_frame s' = pool_frame ?s5" "pool_rest s' = pool_rest ?s5" "pin_of s' = ?B"
    "\<And>g q. settled ?s5 g q \<or> True \<and> g = ?f \<and> q = ?x \<Longrightarrow> settled s' g q" "\<And>g U. pool_used ?s5 g U \<Longrightarrow> pool_used s' g U"
    by (rule pool.release_page [OF D(1) pins5 nn, of True]) (simp, rule that)
  have P: "page_of s' = (\<lambda>a b. if a = ?f \<and> b = ?x then Some (?next p) else if a = ?f \<and> b = ?hno then Some (?hdr hdr)
      else if a = ?f \<and> b = no then Some (?new p0) else page_of s a b)"
    unfolding E(3) D(4) C(4) B(4) using A(8) by (auto simp: fun_eq_iff)
  let ?new0 = "?new p0" let ?h' = "h\<lparr>hdrDirtyFlag := True, curPage := Frame j, cur_pageNo := no, curDirtyFlag := True\<rparr>"
  have np: "page_slots ?new0 = []" "data_page no ?new0" "nextPage ?new0 = -1" "freeSpace ?new0 = 1004" "page_recs no ?new0 = []"
    using page_init_inv [of p0 no] A(5,6)
    by (simp_all add: setNextPage_data page_init_fields data_page_def page_recs_from_def used_from_def)
  have Px: "page_of s' ?f ?x = Some (?next p)" and Pn: "page_of s' ?f no = Some ?new0" and Ph: "page_of s' ?f ?hno = Some (?hdr hdr)"
    and Py: "\<And>y. y \<in> set xs \<Longrightarrow> y \<noteq> ?x \<Longrightarrow> page_of s' ?f y = page_of s ?f y"
    using P no hx hf(2) by auto
  have nx: "data_page ?x (?next p)" "nextPage (?next p) = no" "page_recs ?x (?next p) = page_recs ?x p"
    using p(2) A(6) by (simp_all add: setNextPage_data data_page_def)
  have chain: "page_chain (page_of s' ?f) (hdr_firstPage hdr) (xs @ [no])"
    by (rule page_chain_snoc [OF ch hf(4) p(1) nx(1,2) hf(3) Px Py Pn np(2,3)])
  obtain as bs where xs: "xs = as @ ?x # bs" using H(9) by (meson split_list)
  have "chain_recs (page_of s' ?f) xs = chain_recs (page_of s ?f) xs"
    using chain_recs_update [where P' = "page_of s' ?f", OF xs hf(3) Px Py]
      chain_recs_update [where P' = "page_of s ?f" and P = "page_of s ?f", OF xs hf(3) p(1)] nx(3) by simp
  then have recs: "chain_recs (page_of s' ?f) (xs @ [no]) = chain_recs (page_of s ?f) xs" using Pn np(5) by simp
  have w: "wrap32 (hdr_pageCnt hdr + 1) = wrap32 (int (length (xs @ [no])))"
    using cnt(1) wrap32_add [of "int (length xs)" 1] by (simp add: add.commute)
  have heap: "heap_file (page_of s' ?f) ?hno (?hdr hdr) (xs @ [no])"
    unfolding heap_file_def using Ph hf no chain recs cnt(2) A(6) w by (simp add: hdr_fields)
  have used: "pool_used s' ?f (grown no n U)" using E(8) D(6) C(6) B(6) A(3) by blast
  have rest: "pool_rest s' = pool_rest s" using E(5) D(10) C(10) B(10) A(11) by simp
  then have n: "numBufs s' = numBufs s" by (simp add: pool_rest_def)
  have at: "heap_at s' ?h' (grown no n U) B (?hdr hdr) (xs @ [no]) no"
    unfolding heap_at_def using E(2,4,6) used H(3,4,17-19) heap kept(2) A(7) fr5 n by (auto simp: hold_def)
  have pin0: "pinned_kept pin_of pool_frame settled s s0" by (rule A(10))
  have kp: "heap_kept B s h s' ?h'"
    unfolding heap_kept_def
  proof (intro conjI allI impI)
    show "pool_rest s' = pool_rest s" by (rule rest)
    show "filePtr ?h' = ?f" by simp
    show "pool_used s' g V" if "g \<noteq> ?f \<and> pool_used s g V" for g V using that A(12) B(6) C(6) D(6) E(8) by blast
    fix g q assume b: "0 < B g q"
    then have pos: "0 < pin_of s g q" unfolding H(16) by (intro hold_pos)
    then obtain k where "pool_frame s g q = Some k" using pool.pins_frame by blast
    then show "pool_frame s' g q = pool_frame s g q" using pin0 pos E(4) fr5 by (simp add: pinned_kept_def)
    assume d: "settled s g q \<or> flagged h g q"
    show "settled s' g q \<or> flagged ?h' g q"
    proof (cases "g = ?f \<and> q \<in> {no, ?hno, ?x}")
      case True
      then show ?thesis using E(7) [of g q] by (auto simp: flagged_def cur_dirty_def)
    next
      case False
      then have "settled s g q" using d H(10) by (auto simp: flagged_def cur_dirty_def)
      then have "settled s0 g q" using pin0 pos by (simp add: pinned_kept_def)
      then have "settled ?s5 g q" using False by (intro D(5) C(5) B(5)) auto
      then show ?thesis using E(7) by blast
    qed
  qed
  have bj: "bufPool s' ! j = ?new0" using pool.view_frame [OF E(2), of ?f no j] E(4) fr5 A(7) Pn by simp
  have "page_of s' g q = page_of s g q" if "g \<noteq> ?f \<or> q \<notin> insert no (insert ?hno (set xs))" for g q
    using that P H(9) by auto
  then show thesis
    using that [OF A(1) _ at Pn np(1,4) bj A(4) recs _ kp A(13)] E(1) by (simp add: eq)
qed

text \<open>
  The record does not fit on the last page: a new page is added, and the record goes there. A
  record of more than 1000 bytes does not fit there either, but the page stays.
\<close>

lemma insert_newPage_spec:
  assumes h: "heap_at s h U B hdr xs (last xs)" and i: "curPage h = Frame i" and r: "r \<noteq> []" and len: "length r \<le> 1004"
    and full: "freeSpace (bufPool s ! i) < int (length r) + 4" and fr: "file_room s (filePtr h)" and room: "pool_room s"
  obtains st s' h' U' hdr' no rid where "InsertFileScan_insertRecord s h r = Some (st, rid, s', h')"
    "st = (if length r \<le> 1000 then OK else NOSPACE)" "rid = (if st = OK then Some \<lparr>pageNo = no, slotNo = 0\<rparr> else None)"
    "heap_at s' (h'\<lparr>curDirtyFlag := True\<rparr>) U' B hdr' (xs @ [no]) no" "filePtr h' = filePtr h" "headerPageNo h' = headerPageNo h"
    "no \<notin> set xs" "hdrDirtyFlag h'" "curDirtyFlag h' = (st = OK \<or> curDirtyFlag h)"
    "mset (chain_recs (page_of s' (filePtr h)) (xs @ [no])) =
      (if st = OK then add_mset (\<lparr>pageNo = no, slotNo = 0\<rparr>, r) else id) (mset (chain_recs (page_of s (filePtr h)) xs))"
    "\<And>g q. g \<noteq> filePtr h \<Longrightarrow> page_of s' g q = page_of s g q" "heap_kept B s h s' (h'\<lparr>curDirtyFlag := True\<rparr>)"
    "lay_size U' \<le> Suc (lay_size U)"
proof -
  let ?f = "filePtr h" and ?hno = "headerPageNo h"
  note H = heap_atD [OF h]
  obtain p where p: "page_of s ?f (last xs) = Some p" "data_page (last xs) p" by (rule heap_fileD [OF H(5,9)]) (rule that)
  have fi: "pool_frame s ?f (last xs) = Some i" using H(11) i by auto
  have bp: "bufPool s ! i = p" using pool.view_frame [OF H(1) fi] p(1) by simp
  have no_fit: "Page_insertRecord p r = (NOSPACE, p, None)"
    using insertRecord_sound [of p r] full bp p(2) by (auto simp: data_page_def)
  note same = bufUpdate_id [OF bp]
  obtain no n j s0 s1 hdr1 p1 where G: "allocPage s ?f = Some (OK, Some no, Some j, s0)"
    "unPinPage (bufUpdate (bufUpdate (bufUpdate (bufUpdate (bufUpdate s0 j (\<lambda>p. Page_init p no)) j (\<lambda>p. snd (Page_setNextPage p (-1))))
       (headerPage h) (\<lambda>p. set_hdr_lastPage p no)) (headerPage h) (\<lambda>p. set_hdr_pageCnt p (hdr_pageCnt p + 1)))
       i (\<lambda>p. snd (Page_setNextPage p no))) ?f (last xs) True = (OK, s1)"
    "heap_at s1 (h\<lparr>hdrDirtyFlag := True, curPage := Frame j, cur_pageNo := no, curDirtyFlag := True\<rparr>) (grown no n U) B hdr1 (xs @ [no]) no"
    "page_of s1 ?f no = Some p1" "page_slots p1 = []" "freeSpace p1 = 1004" "bufPool s1 ! j = p1" "no \<notin> lay_used U"
    "chain_recs (page_of s1 ?f) (xs @ [no]) = chain_recs (page_of s ?f) xs"
    "\<And>g q. g \<noteq> ?f \<or> q \<notin> insert no (insert ?hno (set xs)) \<Longrightarrow> page_of s1 g q = page_of s g q"
    "heap_kept B s h s1 (h\<lparr>hdrDirtyFlag := True, curPage := Frame j, cur_pageNo := no, curDirtyFlag := True\<rparr>)" "n \<le> Suc (lay_size U)"
    by (rule heap_grow [OF h i fr room]) (rule that)
  let ?h1 = "h\<lparr>hdrDirtyFlag := True, curPage := Frame j, cur_pageNo := no, curDirtyFlag := True\<rparr>"
  let ?h2 = "h\<lparr>hdrDirtyFlag := True, curPage := Frame j, cur_pageNo := no\<rparr>"
  have go: "InsertFileScan_insertRecord s h r =
     (let (st, p, rid) = Page_insertRecord p1 r; s2 = bufUpdate s1 j (\<lambda>_. p)
      in if st = OK then Some (st, rid, bufUpdate s2 (headerPage h) (\<lambda>p. set_hdr_recCnt p (hdr_recCnt p + 1)),
             ?h2\<lparr>curDirtyFlag := True, hdrDirtyFlag := True\<rparr>)
         else Some (st, None, s2, ?h2))"
    using len i bp no_fit same G(1,2,7) H(10)
    by (simp add: InsertFileScan_insertRecord_def insert_newPage_def PAGESIZE_def DPFIXED_def Let_def split: prod.split)
  obtain p1' where dp: "data_page no p1" using heap_fileD [OF heap_atD(5,9) [OF G(3)]] G(4) by auto
  have inv1: "page_inv p1" "curPageNo p1 = no" using dp by (simp_all add: data_page_def)
  have nx: "no \<notin> set xs" using G(8) H(4) by auto
  have other: "page_of s1 g q = page_of s g q" if "g \<noteq> ?f" for g q using G(10) that by simp
  show thesis
  proof (cases "length r \<le> 1000")
    case True
    then have fits: "int (length r) + 4 \<le> freeSpace p1" using G(6) by simp
    obtain s2 hdr2 rid P' where I: "InsertFileScan_insertRecord s1 ?h1 r = Some (OK, Some rid, s2, ?h1\<lparr>curDirtyFlag := True, hdrDirtyFlag := True\<rparr>)"
      "heap_at s2 (?h1\<lparr>curDirtyFlag := True, hdrDirtyFlag := True\<rparr>) (grown no n U) B hdr2 (xs @ [no]) no" "pageNo rid = no"
      "P' = page_of s2 (filePtr ?h1)"
      "mset (chain_recs P' (xs @ [no])) = add_mset (rid, r) (mset (chain_recs (page_of s1 (filePtr ?h1)) (xs @ [no])))"
      "\<And>g q. g \<noteq> filePtr ?h1 \<or> q \<notin> insert (headerPageNo ?h1) (set (xs @ [no])) \<Longrightarrow> page_of s2 g q = page_of s1 g q"
      "heap_kept B s1 ?h1 s2 (?h1\<lparr>curDirtyFlag := True, hdrDirtyFlag := True\<rparr>)"
      by (rule insert_fits [OF G(3) _ r fits]) (use G(4) that in auto)
    obtain q where q: "Page_insertRecord p1 r = (OK, q, Some \<lparr>pageNo = no, slotNo = 0\<rparr>)"
      using insertRecord_sound [OF inv1(1), of r] fits inv1(2) G(5) by auto
    have e: "rid = \<lparr>pageNo = no, slotNo = 0\<rparr>"
      "s2 = bufUpdate (bufUpdate s1 j (\<lambda>_. q)) (headerPage h) (\<lambda>p. set_hdr_recCnt p (hdr_recCnt p + 1))"
      using I(1) len G(7) q by (simp_all add: InsertFileScan_insertRecord_def PAGESIZE_def DPFIXED_def)
    have run: "InsertFileScan_insertRecord s h r = Some (OK, Some \<lparr>pageNo = no, slotNo = 0\<rparr>, s2, ?h2\<lparr>curDirtyFlag := True, hdrDirtyFlag := True\<rparr>)"
      by (simp add: go q e(2))
    note rid = e(1)
    have at: "heap_at s2 ((?h2\<lparr>curDirtyFlag := True, hdrDirtyFlag := True\<rparr>)\<lparr>curDirtyFlag := True\<rparr>) (grown no n U) B hdr2 (xs @ [no]) no"
    proof -
      have "(?h2\<lparr>curDirtyFlag := True, hdrDirtyFlag := True\<rparr>)\<lparr>curDirtyFlag := True\<rparr> = ?h1\<lparr>curDirtyFlag := True, hdrDirtyFlag := True\<rparr>"
        by (cases h) simp
      then show ?thesis using I(2) by (simp only:)
    qed
    have "heap_kept B s h s2 (?h1\<lparr>curDirtyFlag := True, hdrDirtyFlag := True\<rparr>)"
      by (rule heap_kept_trans [OF G(11) I(7)])
    then have kp: "heap_kept B s h s2 ((?h2\<lparr>curDirtyFlag := True, hdrDirtyFlag := True\<rparr>)\<lparr>curDirtyFlag := True\<rparr>)"
      by (cases h) simp
    show thesis
      using that [OF run _ _ at] True rid I(4-7) G(9,12) other nx kp by (simp del: chain_recs_simps)
  next
    case False
    have q: "Page_insertRecord p1 r = (NOSPACE, p1, None)" using insertRecord_sound [OF inv1(1), of r] False G(6) by simp
    have run: "InsertFileScan_insertRecord s h r = Some (NOSPACE, None, s1, ?h2)"
      by (simp add: go q bufUpdate_id [OF G(7)])
    have at: "heap_at s1 (?h2\<lparr>curDirtyFlag := True\<rparr>) (grown no n U) B hdr1 (xs @ [no]) no" using G(3) by simp
    show thesis using that [OF run _ _ at] False G(9,11,12) other nx by (simp del: chain_recs_simps)
  qed
qed

text \<open>A record that is not too long is inserted in any case.\<close>

lemma heap_count:
  assumes "heap_file P hno hdr xs" "heap_file P' hno hdr' xs'" "mset (chain_recs P' xs') = add_mset (rid, r) (mset (chain_recs P xs))"
  shows "hdr_recCnt hdr' = wrap32 (hdr_recCnt hdr + 1)" "rid \<notin> fst ` set (chain_recs P xs)"
proof -
  show "hdr_recCnt hdr' = wrap32 (hdr_recCnt hdr + 1)"
    using assms(1,2) arg_cong [OF assms(3), of size] wrap32_add [of "int (length (chain_recs P xs))" 1]
    by (simp add: heap_file_def add.commute)
  have "mset (map fst (chain_recs P' xs')) = mset (map fst ((rid, r) # chain_recs P xs))" using assms(3) by simp
  moreover have "distinct (map fst (chain_recs P' xs'))"
    using assms(2) by (intro chain_recs_distinct) (simp add: heap_file_def)
  ultimately have "distinct (map fst ((rid, r) # chain_recs P xs))" by (metis mset_eq_imp_distinct_iff)
  then show "rid \<notin> fst ` set (chain_recs P xs)" by simp
qed

lemma insert_spec:
  assumes h: "heap_at s h U B hdr xs (last xs)" and r: "r \<noteq> []" "length r \<le> 1000" and fr: "file_room s (filePtr h)" "pool_room s"
  obtains rid s' h' U' hdr' xs' where "InsertFileScan_insertRecord s h r = Some (OK, Some rid, s', h')"
    "heap_at s' h' U' B hdr' xs' (last xs')" "filePtr h' = filePtr h" "headerPageNo h' = headerPageNo h" "curDirtyFlag h'"
    "xs' = xs \<or> xs' = xs @ [pageNo rid]"
    "mset (chain_recs (page_of s' (filePtr h)) xs') = add_mset (rid, r) (mset (chain_recs (page_of s (filePtr h)) xs))"
    "\<And>g q. g \<noteq> filePtr h \<Longrightarrow> page_of s' g q = page_of s g q" "heap_kept B s h s' h'" "lay_size U' \<le> Suc (lay_size U)"
proof -
  note H = heap_atD [OF h]
  obtain i where i: "curPage h = Frame i" "pool_frame s (filePtr h) (last xs) = Some i" using H(11) by blast
  obtain p where p: "page_of s (filePtr h) (last xs) = Some p" by (rule heap_fileD [OF H(5,9)]) (rule that)
  have bp: "bufPool s ! i = p" using pool.view_frame [OF H(1) i(2)] p by simp
  show thesis
  proof (cases "int (length r) + 4 \<le> freeSpace p")
    case True
    obtain s' hdr' rid P' where I: "InsertFileScan_insertRecord s h r = Some (OK, Some rid, s', h\<lparr>curDirtyFlag := True, hdrDirtyFlag := True\<rparr>)"
      "heap_at s' (h\<lparr>curDirtyFlag := True, hdrDirtyFlag := True\<rparr>) U B hdr' xs (last xs)" "pageNo rid = last xs" "P' = page_of s' (filePtr h)"
      "mset (chain_recs P' xs) = add_mset (rid, r) (mset (chain_recs (page_of s (filePtr h)) xs))"
      "\<And>g q. g \<noteq> filePtr h \<or> q \<notin> insert (headerPageNo h) (set xs) \<Longrightarrow> page_of s' g q = page_of s g q"
      "heap_kept B s h s' (h\<lparr>curDirtyFlag := True, hdrDirtyFlag := True\<rparr>)"
      by (rule insert_fits [OF h p r(1) True]) (rule that)
    show thesis by (rule that [OF I(1,2)]) (use I(4-7) in simp_all)
  next
    case False
    then have full: "freeSpace (bufPool s ! i) < int (length r) + 4" by (simp add: bp)
    have l: "length r \<le> 1004" using r(2) by simp
    obtain st s' h' U' hdr' no rid where I: "InsertFileScan_insertRecord s h r = Some (st, rid, s', h')"
      "st = (if length r \<le> 1000 then OK else NOSPACE)" "rid = (if st = OK then Some \<lparr>pageNo = no, slotNo = 0\<rparr> else None)"
      "heap_at s' (h'\<lparr>curDirtyFlag := True\<rparr>) U' B hdr' (xs @ [no]) no" "filePtr h' = filePtr h" "headerPageNo h' = headerPageNo h"
      "no \<notin> set xs" "hdrDirtyFlag h'" "curDirtyFlag h' = (st = OK \<or> curDirtyFlag h)"
      "mset (chain_recs (page_of s' (filePtr h)) (xs @ [no])) =
        (if st = OK then add_mset (\<lparr>pageNo = no, slotNo = 0\<rparr>, r) else id) (mset (chain_recs (page_of s (filePtr h)) xs))"
      "\<And>g q. g \<noteq> filePtr h \<Longrightarrow> page_of s' g q = page_of s g q" "heap_kept B s h s' (h'\<lparr>curDirtyFlag := True\<rparr>)"
      "lay_size U' \<le> Suc (lay_size U)"
      by (rule insert_newPage_spec [OF h i(1) r(1) l full fr]) (rule that)
    have st: "st = OK" using I(2) r(2) by simp
    have d: "curDirtyFlag h'" using I(9) st by simp
    then have hh: "h'\<lparr>curDirtyFlag := True\<rparr> = h'" by (cases h') simp
    show thesis
      by (rule that [of "\<lparr>pageNo = no, slotNo = 0\<rparr>" s' h' U' hdr' "xs @ [no]"])
        (use I d hh st in \<open>simp_all del: chain_recs_simps\<close>)
  qed
qed

section \<open>deleteRecord and getRecord\<close>

lemma deleteRecord_spec:
  assumes h: "heap_at s h U B hdr xs x" and r: "(curRec h, r) \<in> set (chain_recs (page_of s (filePtr h)) xs)" "pageNo (curRec h) = x"
  obtains s' hdr' where "HeapFileScan_deleteRecord s h = Some (OK, s', h\<lparr>curDirtyFlag := True, hdrDirtyFlag := True\<rparr>)"
    "heap_at s' (h\<lparr>curDirtyFlag := True, hdrDirtyFlag := True\<rparr>) U B hdr' xs x"
    "add_mset (curRec h, r) (mset (chain_recs (page_of s' (filePtr h)) xs)) = mset (chain_recs (page_of s (filePtr h)) xs)"
    "\<And>g q. g \<noteq> filePtr h \<or> q \<notin> insert (headerPageNo h) (set xs) \<Longrightarrow> page_of s' g q = page_of s g q"
    "heap_kept B s h s' (h\<lparr>curDirtyFlag := True, hdrDirtyFlag := True\<rparr>)" "numBufs s' = numBufs s"
    "\<And>y. y \<in> set xs \<Longrightarrow> y \<noteq> x \<Longrightarrow> page_of s' (filePtr h) y = page_of s (filePtr h) y"
    "page_slots (the (page_of s' (filePtr h) x)) = free_slot (page_slots (the (page_of s (filePtr h) x))) (nat (slotNo (curRec h)))"
proof -
  let ?f = "filePtr h" and ?hno = "headerPageNo h"
  note H = heap_atD [OF h]
  obtain i where i: "curPage h = Frame i" "pool_frame s ?f x = Some i" using H(11) by blast
  obtain as bs p where xs: "xs = as @ x # bs" and p: "page_of s ?f x = Some p" and dp: "data_page x p"
    by (rule heap_fileD [OF H(5,9)]) (rule that)
  have e: "bufPool s ! i = p" using pool.view_frame [OF H(1) i(2)] p by simp
  have inv: "page_inv p" "curPageNo p = x" "1 \<le> x" "Some [] \<notin> set (page_slots p)" using dp by (simp_all add: data_page_def)
  obtain k where k: "k < num_slots p" "curRec h = \<lparr>pageNo = x, slotNo = int k\<rparr>" "page_slots p ! k = Some r"
    using r p by (auto simp: chain_recs_mem page_recs_mem)
  have "Some r \<in> set (page_slots p)" using k by (metis nth_mem length_page_slots)
  then have rne: "r \<noteq> []" using inv(4) by auto
  obtain q where q: "Page_deleteRecord p (curRec h) = (OK, q)" "page_inv q" "page_slots q = free_slot (page_slots p) k"
    "nextPage q = nextPage p" "curPageNo q = x"
    using deleteRecord_sound [OF inv(1), of "curRec h" k] k rne inv(2) by auto
  have "set (page_slots q) \<subseteq> insert None (set (page_slots p))"
  proof -
    have "set (drop_empty_tail ss) \<subseteq> set ss" for ss :: "byte list option list"
      by (subst drop_empty_tail_take) (rule set_take_subset)
    then show ?thesis unfolding q(3) free_slot_def using set_update_subset_insert [of "page_slots p" k None] by blast
  qed
  then have dq: "data_page x q" using q inv by (auto simp: data_page_def)
  have pr: "add_mset (curRec h, r) (mset (page_recs x q)) = mset (page_recs x p)"
    unfolding k(2) by (rule page_recs_free [OF q(3) k(1,3)])
  then have len: "length (page_recs x q) + 1 = length (page_recs x p)" by (metis size_mset size_add_mset Suc_eq_plus1)
  let ?g = "\<lambda>p. set_hdr_recCnt p (hdr_recCnt p - 1)"
  have cnt: "hdr_recCnt (?g hdr) = wrap32 (int (length (chain_recs (page_of s ?f) xs)) + int (length (page_recs x q)) - int (length (page_recs x p)))"
    using H(5) wrap32_add [of "int (length (chain_recs (page_of s ?f) xs))" "-1"] by (simp add: hdr_fields heap_file_def flip: len)
  note W = heap_put [where g = ?g, OF h i(1) p dq q(4) cnt refl hdr_fields(2-4)]
  let ?s' = "bufUpdate (bufUpdate s i (\<lambda>_. q)) (headerPage h) ?g"
  have run: "HeapFileScan_deleteRecord s h = Some (OK, ?s', h\<lparr>curDirtyFlag := True, hdrDirtyFlag := True\<rparr>)"
    using i(1) e q(1) by (simp add: HeapFileScan_deleteRecord_def)
  have dx: "distinct xs" and hx: "?hno \<notin> set xs" using H(5) by (simp_all add: heap_file_def)
  have "mset (chain_recs (page_of ?s' ?f) xs) + mset (page_recs x p) = mset (chain_recs (page_of s ?f) xs) + mset (page_recs x q)"
    by (rule mset_chain_update [where P = "page_of s ?f", OF xs dx p]) (use W(2) H(14) hx in auto)
  then have "add_mset (curRec h, r) (mset (chain_recs (page_of ?s' ?f) xs)) = mset (chain_recs (page_of s ?f) xs)"
    using pr [symmetric] by simp
  moreover have "page_of ?s' g n = page_of s g n" if "g \<noteq> ?f \<or> n \<notin> insert ?hno (set xs)" for g n
    using that W(2) H(9) by auto
  moreover have "page_of ?s' ?f y = page_of s ?f y" if "y \<in> set xs" "y \<noteq> x" for y using that W(2) hx by auto
  moreover have "page_slots (the (page_of ?s' ?f x)) = free_slot (page_slots (the (page_of s ?f x))) (nat (slotNo (curRec h)))"
    using W(2) H(14) q(3) p k(2) by simp
  ultimately show thesis using that [OF run W(1)] W(4,6) by simp
qed

end
