(* ===== verification/HeapProps.thy ===== *)
theory HeapProps
  imports HeapOps
begin

text \<open>
  The properties of heap files: a scan finds every record once, insertRecord and deleteRecord add
  and remove one record, getRecord finds a record by its RID, and where the code departs from
  what a caller expects.
\<close>

section \<open>An example\<close>

text \<open>
  Heap files of two data pages: the page with number 2 is given, page 3 holds one record.
\<close>

definition example_hdr :: "int \<Rightarrow> page" where
  "example_hdr n = set_hdr_recCnt (set_hdr_pageCnt (set_hdr_lastPage (set_hdr_firstPage zero_mem 2) 3) 2) n"

definition example_last :: page where
  "example_last = after_insert (Page_init zero_mem 3) 0 [7, 7]"

definition example_heap :: "page \<Rightarrow> int \<Rightarrow> page list" where
  "example_heap p n = [set_db_numPages (set_db_firstPage (set_db_nextFree zero_mem (-1)) 1) 4, example_hdr n,
     snd (Page_setNextPage p 3), example_last]"

definition example_first :: page where
  "example_first = after_insert (Page_init zero_mem 2) 0 [1, 2, 3]"

lemma example_insert:
  fixes no :: int
  assumes no: "1 \<le> no" "wrap32 no = no" and r: "r \<noteq> []" "length r \<le> 1000"
  shows "data_page no (after_insert (Page_init zero_mem no) 0 r)"
    "page_slots (after_insert (Page_init zero_mem no) 0 r) = [Some r]"
    "nextPage (after_insert (Page_init zero_mem no) 0 r) = -1"
    "freeSpace (after_insert (Page_init zero_mem no) 0 r) = 1000 - int (length r)"
proof -
  let ?p = "Page_init zero_mem no"
  note I = page_init_inv [of zero_mem no] and F = page_init_fields [of zero_mem no]
  have L: "page_layout ?p" using I by (simp add: page_inv_def)
  have fits: "int (length r) + 4 \<le> freeSpace ?p" using r by (simp add: F)
  have 0: "first_empty (page_slots ?p) = 0" by (simp add: F first_empty_def)
  have n: "num_slots ?p = 0" using length_page_slots F(1) by (metis list.size(3))
  have inv: "page_inv (after_insert ?p 0 r)" using page_inv_after_insert [OF I fits] by (simp add: 0)
  show ss: "page_slots (after_insert ?p 0 r) = [Some r]"
    using page_slots_after_insert [OF L fits] by (simp add: 0 F put_slot_def)
  have f: "curPageNo (after_insert ?p 0 r) = no" "freeSpace (after_insert ?p 0 r) = 1000 - int (length r)"
    "nextPage (after_insert ?p 0 r) = -1"
    using after_insert_fields [OF L fits, of 0] no by (simp_all add: F n)
  then show "nextPage (after_insert ?p 0 r) = -1" "freeSpace (after_insert ?p 0 r) = 1000 - int (length r)" by simp_all
  show "data_page no (after_insert ?p 0 r)" using inv f(1) no r ss by (simp add: data_page_def)
qed

lemma example_heap_file:
  assumes p: "data_page 2 p" and n: "n = 1 + int (length (page_recs 2 p))" and small: "n < 100"
  shows "db_file (example_heap p n) []" "heap_file (disk_view (example_heap p n)) 1 (example_hdr n) [2, 3]"
    "db_firstPage (example_heap p n ! 0) = 1" "set [2, 3] \<subseteq> used_pages (example_heap p n) []"
    "chain_recs (disk_view (example_heap p n)) [2, 3] = page_recs 2 p @ [(\<lparr>pageNo = 3, slotNo = 0\<rparr>, [7, 7])]"
    "length (example_heap p n) = 4"
proof -
  let ?ps = "example_heap p n"
  have inv: "page_inv p" using p by (simp add: data_page_def)
  have V: "disk_view ?ps 1 = Some (example_hdr n)" "disk_view ?ps 2 = Some (snd (Page_setNextPage p 3))"
    "disk_view ?ps 3 = Some example_last"
    by (simp_all add: disk_view_def example_heap_def numeral_2_eq_2 numeral_3_eq_3)
  have L: "data_page 3 example_last" "page_slots example_last = [Some [7, 7]]" "nextPage example_last = -1"
    using example_insert [of 3 "[7, 7]"] by (simp_all add: example_last_def)
  have n3: "num_slots example_last = 1" using length_page_slots [of example_last] L(2) by simp
  have l: "page_recs 3 example_last = [(\<lparr>pageNo = 3, slotNo = 0\<rparr>, [7, 7])]"
    by (simp add: page_recs_from_def used_from_def L(2) n3)
  have d: "data_page 2 (snd (Page_setNextPage p 3))" using p by (simp add: data_page_def setNextPage_data)
  show "db_file ?ps []" "db_firstPage (?ps ! 0) = 1" "set [2, 3] \<subseteq> used_pages ?ps []" "length ?ps = 4"
    by (simp_all add: example_heap_def db_file_def used_pages_def mem_simps db_numPages_def db_nextFree_def db_firstPage_def
        set_db_nextFree_def set_db_firstPage_def set_db_numPages_def)
  show c: "chain_recs (disk_view ?ps) [2, 3] = page_recs 2 p @ [(\<lparr>pageNo = 3, slotNo = 0\<rparr>, [7, 7])]"
    using V l by (simp add: setNextPage_data [OF inv])
  show "heap_file (disk_view ?ps) 1 (example_hdr n) [2, 3]"
    using V L d n small c by (simp add: heap_file_def example_hdr_def hdr_fields setNextPage_data [OF inv] del: chain_recs_simps)
qed

lemma example_first:
  "data_page 2 example_first" "page_recs 2 example_first = [(\<lparr>pageNo = 2, slotNo = 0\<rparr>, [1, 2, 3])]"
proof -
  have e: "data_page 2 example_first" "page_slots example_first = [Some [1, 2, 3]]"
    using example_insert [of 2 "[1, 2, 3]"] by (simp_all add: example_first_def)
  then have "num_slots example_first = 1" using length_page_slots [of example_first] by simp
  then show "data_page 2 example_first" "page_recs 2 example_first = [(\<lparr>pageNo = 2, slotNo = 0\<rparr>, [1, 2, 3])]"
    using e by (simp_all add: page_recs_from_def used_from_def)
qed

lemma example_empty: "data_page 2 (Page_init zero_mem 2)" "page_recs 2 (Page_init zero_mem 2) = []"
  using page_init_inv [of zero_mem 2] by (simp_all add: data_page_def page_init_fields page_recs_from_def used_from_def)

text \<open>The file opened in a pool of three frames.\<close>

definition example_db :: "page \<Rightarrow> int \<Rightarrow> db" where
  "example_db p n = db_start [''r'' \<mapsto> example_heap p n] 3"

lemma example_HeapFile:
  assumes p: "data_page 2 p" and n: "n = 1 + int (length (page_recs 2 p))" and small: "n < 100"
  obtains s h U B where "HeapFile_new (example_db p n) ''r'' = Some (OK, Some h, s)"
    "heap_at s h U B (example_hdr n) [2, 3] 2" "page_of s (filePtr h) = disk_view (example_heap p n)" "curRec h = NULLRID"
    "numBufs s = 3" "B = (\<lambda>f no. 0)"
proof -
  note E = example_heap_file [OF p n small]
  have inv: "db_inv (example_db p n)" and pins: "pin_of (example_db p n) = (\<lambda>f no. 0)"
    by (simp_all add: example_db_def db_start_inv)
  have o: "of_map (openFiles (example_db p n)) ''r'' = None" "disk (example_db p n) ''r'' = Some (example_heap p n)"
    by (simp_all add: example_db_def db_start_fields of_new_map)
  have none: "pinned (example_db p n) = {}" by (simp add: busy_def pins)
  then have room: "card (pinned (example_db p n)) + 2 \<le> numBufs (example_db p n)" by (simp add: example_db_def db_start_fields)
  have h1: "heap_file (disk_view (example_heap p n)) (db_firstPage (example_heap p n ! 0)) (example_hdr n) [2, 3]"
    using E(2,3) by simp
  obtain s' h where R: "HeapFile_new (example_db p n) ''r'' = Some (OK, Some h, s')"
    "heap_at s' h (layout_of (example_heap p n) []) (pin_of (example_db p n)) (example_hdr n) [2, 3] (hd [2, 3])"
    "filePtr h = next_ptr (example_db p n)" "curRec h = NULLRID"
    "page_of s' (next_ptr (example_db p n)) = disk_view (example_heap p n)" "numBufs s' = numBufs (example_db p n)"
    by (rule HeapFile_new_spec [OF inv _ o E(1) h1 E(4) room]) (simp, rule that)
  show thesis
    by (rule that [OF R(1)]) (use R pins in \<open>auto simp: example_db_def db_start_fields\<close>)
qed

section \<open>Scans\<close>

text \<open>
  C27: A scan that has just been opened returns, when scanNext is called until it no longer answers
  OK, the RIDs of exactly the records that match the filter, each once and in the order of the
  file, and then FILEEOF. It changes no page, and it ends holding one page of the file.
\<close>
theorem HeapFileScan_complete:
  assumes "heap_at s (h :: 'h filescan_scheme) U B hdr xs (hd xs)" "curRec h = NULLRID"
    and "rs = filter (\<lambda>(rid, rec). HeapFileScan_matchRec h rec) (chain_recs (page_of s (filePtr h)) xs)"
  shows "\<exists>s' h' x'. scan_run (Suc (length rs)) s h = Some (map fst rs, FILEEOF, s', h') \<and>
    heap_at s' h' U B hdr xs x' \<and> page_of s' = page_of s"
proof -
  have k: "slotNo (curRec h) = int 0 - 1" by (simp add: assms(2) NULLRID_def)
  obtain as ys where xs: "xs = as @ hd xs # ys" and at: "scan_at s h U (hold (filePtr h) (headerPageNo h) B) (hd xs) 0 ys"
    by (rule heap_at_scan [OF assms(1) k]) (rule that)
  have e: "xs = hd xs # ys" using xs heap_atD(5) [OF assms(1)] by (rule heap_first)
  then have rest: "scan_rest s (filePtr h) (hd xs) 0 ys = chain_recs (page_of s (filePtr h)) xs"
    by (metis scan_rest_def chain_recs_simps(2))
  have n: "length (filter (\<lambda>(rid, rec). HeapFileScan_matchRec h rec) (scan_rest s (filePtr h) (hd xs) 0 ys)) < Suc (length rs)"
    by (simp add: rest assms(3))
  obtain s' h' x' k' where R: "scan_run (Suc (length rs)) s h = Some (map fst rs, FILEEOF, s', h')" "same_scan h h'"
    "scan_at s' h' U (hold (filePtr h) (headerPageNo h) B) x' k' []" "x' \<in> set (hd xs # ys)"
    "scan_kept (hold (filePtr h) (headerPageNo h) B) s h s' h'"
    using scan_run_spec [OF at n] unfolding rest assms(3) by blast
  have "x' \<in> set xs" using R(4) e by simp
  then have "heap_at s' h' U B hdr xs x'" by (rule scan_heap_at(1) [OF assms(1) R(3,2) _ R(5)])
  moreover have "page_of s' = page_of s" using R(5) by (simp add: scan_kept_def)
  ultimately show ?thesis using R(1) by blast
qed

lemma example_scan:
  assumes p: "data_page 2 p" and n: "n = 1 + int (length (page_recs 2 p))" and small: "n < 100"
  obtains s and h :: filescan and U B where "HeapFileScan_new (example_db p n) ''r'' = Some (OK, Some h, s)"
    "heap_at s h U B (example_hdr n) [2, 3] 2" "page_of s (filePtr h) = disk_view (example_heap p n)" "curRec h = NULLRID"
    "sc_filter h = None" "numBufs s = 3"
proof -
  obtain s h U B where A: "HeapFile_new (example_db p n) ''r'' = Some (OK, Some h, s)"
    "heap_at s h U B (example_hdr n) [2, 3] 2" "page_of s (filePtr h) = disk_view (example_heap p n)" "curRec h = NULLRID"
    "numBufs s = 3"
    by (rule example_HeapFile [OF assms]) (rule that)
  let ?h = "heapfile.extend h \<lparr>sc_offset = 0, sc_length = 0, sc_type = STRING, sc_filter = None, sc_op = LT,
        markedPageNo = 0, markedRec = NULLRID\<rparr>"
  have "HeapFileScan_new (example_db p n) ''r'' = Some (OK, Some ?h, s)" by (simp add: HeapFileScan_new_def A(1))
  moreover have "sc_filter ?h = None" by (simp add: heapfile.defs)
  ultimately show thesis using that A(2-5) by (simp add: heap_at_extend)
qed

lemma HeapFileScan_complete_witness:
  "\<exists>s (h :: filescan) s' h'. HeapFileScan_new (example_db example_first 2) ''r'' = Some (OK, Some h, s) \<and>
     scan_run 3 s h = Some ([\<lparr>pageNo = 2, slotNo = 0\<rparr>, \<lparr>pageNo = 3, slotNo = 0\<rparr>], FILEEOF, s', h')"
proof -
  have n: "(2 :: int) = 1 + int (length (page_recs 2 example_first))" by (simp add: example_first(2))
  obtain s and h :: filescan and U B where S: "HeapFileScan_new (example_db example_first 2) ''r'' = Some (OK, Some h, s)"
    "heap_at s h U B (example_hdr 2) [2, 3] 2" "page_of s (filePtr h) = disk_view (example_heap example_first 2)"
    "curRec h = NULLRID" "sc_filter h = None"
    by (rule example_scan [OF example_first(1) n]) (simp, rule that)
  let ?rs = "[(\<lparr>pageNo = 2, slotNo = 0\<rparr>, [1, 2, 3]), (\<lparr>pageNo = 3, slotNo = 0\<rparr>, [7, 7])]"
  have "chain_recs (page_of s (filePtr h)) [2, 3] = ?rs"
    using example_heap_file(5) [OF example_first(1) n] S(3) by (simp add: example_first(2))
  then have rs: "?rs = filter (\<lambda>(rid, rec). HeapFileScan_matchRec h rec) (chain_recs (page_of s (filePtr h)) [2, 3])"
    using S(5) by (simp add: HeapFileScan_matchRec_def)
  have at: "heap_at s h U B (example_hdr 2) [2, 3] (hd [2, 3])" using S(2) by simp
  show ?thesis using HeapFileScan_complete [OF at S(4) rs] S(1) by (auto simp: numeral_3_eq_3 simp del: scan_run.simps)
qed

text \<open>The first page is read again after endScan, and the scan stands before its first record.\<close>

lemma endScan_restart:
  fixes h :: "'h filescan_scheme"
  assumes h: "heap_at s h U B hdr xs x"
  obtains s1 j s2 s3 where
    "HeapFileScan_endScan s h = Some (OK, s1, h\<lparr>curPage := Null, cur_pageNo := 0, curDirtyFlag := False\<rparr>)"
    "hdr_firstPage (bufPool s1 ! headerPage h) = hd xs" "data_page (hd xs) (bufPool s2 ! j)"
    "bufPool s2 ! j = the (page_of s (filePtr h) (hd xs))" "readPage s1 (filePtr h) (hd xs) = Some (OK, Some j, s2)"
    "\<And>r. heap_at s2 (h\<lparr>curPage := Frame j, cur_pageNo := hd xs, curDirtyFlag := False, curRec := r\<rparr>) U B hdr xs (hd xs)"
    "pin_of s2 = hold (filePtr h) (hd xs) (pin_of s1)" "unPinPage s2 (filePtr h) (hd xs) False = (OK, s3)" "pin_of s3 = pin_of s1"
proof -
  let ?f = "filePtr h" and ?B = "hold (filePtr h) (headerPageNo h) B"
  note H = heap_atD [OF h]
  obtain i where i: "curPage h = Frame i" using H(11) by blast
  have nn: "\<And>g q. 0 \<le> ?B g q" by (rule hold_nonneg [OF H(17)])
  have d: "curDirtyFlag h \<or> settled s ?f x \<or> 0 < ?B ?f x" using H(13) hold_pos [of B ?f x] by blast
  have hd: "hdr_firstPage hdr = hd xs" and hx: "hd xs \<in> set xs" using H(5) by (cases xs; auto simp: heap_file_def)+
  obtain p where p: "page_of s ?f (hd xs) = Some p" "data_page (hd xs) p" by (rule heap_fileD [OF H(5) hx]) (rule that)
  obtain s1 where A: "unPinPage s ?f x (curDirtyFlag h) = (OK, s1)" "db_inv s1" "page_of s1 = page_of s" "pool_frame s1 = pool_frame s"
    "pin_of s1 = ?B"
    by (rule pool.release_page [OF H(1,16) nn d]) (rule that)
  obtain j s2 where S: "readPage s1 ?f (hd xs) = Some (OK, Some j, s2)" "bufPool s2 ! j = p"
    "\<And>h'. filePtr h' = ?f \<Longrightarrow> headerPage h' = headerPage h \<Longrightarrow> headerPageNo h' = headerPageNo h \<Longrightarrow>
       hdrDirtyFlag h' = hdrDirtyFlag h \<Longrightarrow> curPage h' = Frame j \<Longrightarrow> cur_pageNo h' = hd xs \<Longrightarrow>
       heap_at s2 (h' :: 'h filescan_scheme) U B hdr xs (hd xs)"
  proof (rule heap_goto [OF h hx])
    fix t j s2 assume T: "unPinPage s ?f x (curDirtyFlag h) = (OK, t)" "readPage t ?f (hd xs) = Some (OK, Some j, s2)"
      "bufPool s2 ! j = the (page_of s ?f (hd xs))"
      "\<And>h' :: 'h filescan_scheme. filePtr h' = ?f \<Longrightarrow> headerPage h' = headerPage h \<Longrightarrow> headerPageNo h' = headerPageNo h \<Longrightarrow>
         hdrDirtyFlag h' = hdrDirtyFlag h \<Longrightarrow> curPage h' = Frame j \<Longrightarrow> cur_pageNo h' = hd xs \<Longrightarrow>
         heap_at s2 h' U B hdr xs (hd xs) \<and> heap_kept B s h s2 h'"
    show thesis by (rule that [of j s2]) (use T A(1) p(1) in simp_all)
  qed
  have at: "heap_at s2 (h\<lparr>curPage := Frame j, cur_pageNo := hd xs, curDirtyFlag := False, curRec := r\<rparr>) U B hdr xs (hd xs)" for r
    by (rule S(3)) simp_all
  note T = heap_atD [OF at [of NULLRID]]
  have pin: "pin_of s2 = hold ?f (hd xs) ?B" using T(16) by simp
  have clean: "False \<or> settled s2 ?f (hd xs) \<or> 0 < ?B ?f (hd xs)" using T(13) hold_pos [of B ?f "hd xs"] by auto
  obtain s3 where R: "unPinPage s2 ?f (hd xs) False = (OK, s3)" "pin_of s3 = ?B"
    by (rule pool.release_page [OF T(1) pin nn clean]) (rule that)
  have "bufPool s1 ! headerPage h = hdr"
    using pool.view_frame [OF A(2), of ?f "headerPageNo h"] A(3,4) H(5,6) by (auto simp: heap_file_def)
  then have first: "hdr_firstPage (bufPool s1 ! headerPage h) = hd xs" using hd by simp
  have run: "HeapFileScan_endScan s h = Some (OK, s1, h\<lparr>curPage := Null, cur_pageNo := 0, curDirtyFlag := False\<rparr>)"
    using i A(1) H(10) by (simp add: HeapFileScan_endScan_def)
  have pg: "data_page (hd xs) (bufPool s2 ! j)" "bufPool s2 ! j = the (page_of s ?f (hd xs))" using p S(2) by simp_all
  have "pin_of s2 = hold ?f (hd xs) (pin_of s1)" "pin_of s3 = pin_of s1" using pin A(5) R(2) by simp_all
  from that [OF run first pg S(1) at this(1) R(1) this(2)] show thesis .
qed

text \<open>
  endScan makes the scan give up its page. The next call of scanNext starts again at the first
  page of the file, but when that page holds no record it answers FILEEOF without looking at the
  other pages, whatever they hold.
\<close>
theorem scanNext_after_endScan:
  assumes h: "heap_at s (h :: 'h filescan_scheme) U B hdr xs x" and e: "page_recs (hd xs) (the (page_of s (filePtr h) (hd xs))) = []"
  shows "\<exists>s1 h1 s2 h2. HeapFileScan_endScan s h = Some (OK, s1, h1) \<and> curPage h1 = Null \<and>
    HeapFileScan_scanNext s1 h1 = Some (FILEEOF, None, s2, h2)"
proof -
  obtain s1 j s2 s3 where E: "HeapFileScan_endScan s h = Some (OK, s1, h\<lparr>curPage := Null, cur_pageNo := 0, curDirtyFlag := False\<rparr>)"
    "hdr_firstPage (bufPool s1 ! headerPage h) = hd xs" "data_page (hd xs) (bufPool s2 ! j)"
    "bufPool s2 ! j = the (page_of s (filePtr h) (hd xs))" "readPage s1 (filePtr h) (hd xs) = Some (OK, Some j, s2)"
    "unPinPage s2 (filePtr h) (hd xs) False = (OK, s3)"
    by (rule endScan_restart [OF h]) (rule that)
  have "next_used (page_slots (bufPool s2 ! j)) 0 = None"
    using e E(4) page_recs_next [of "hd xs" "bufPool s2 ! j" 0] by (auto split: option.splits)
  then show ?thesis
    using E firstRecord_spec [of "bufPool s2 ! j"] by (simp add: HeapFileScan_scanNext_def data_page_def)
qed

lemma scanNext_after_endScan_witness:
  "\<exists>s (h :: filescan) s1 h1 s2 h2. HeapFileScan_new (example_db (Page_init zero_mem 2) 1) ''r'' = Some (OK, Some h, s) \<and>
     chain_recs (page_of s (filePtr h)) [2, 3] = [(\<lparr>pageNo = 3, slotNo = 0\<rparr>, [7, 7])] \<and>
     HeapFileScan_endScan s h = Some (OK, s1, h1) \<and> HeapFileScan_scanNext s1 h1 = Some (FILEEOF, None, s2, h2)"
proof -
  let ?p = "Page_init zero_mem 2"
  have n: "(1 :: int) = 1 + int (length (page_recs 2 ?p))" by (simp add: example_empty(2))
  obtain s and h :: filescan and U B where S: "HeapFileScan_new (example_db ?p 1) ''r'' = Some (OK, Some h, s)"
    "heap_at s h U B (example_hdr 1) [2, 3] 2" "page_of s (filePtr h) = disk_view (example_heap ?p 1)"
    by (rule example_scan [OF example_empty(1) n]) (simp, rule that)
  have c: "chain_recs (page_of s (filePtr h)) [2, 3] = [(\<lparr>pageNo = 3, slotNo = 0\<rparr>, [7, 7])]"
    using example_heap_file(5) [OF example_empty(1) n] S(3) by (simp add: example_empty(2))
  then have "page_recs (hd [2, 3]) (the (page_of s (filePtr h) (hd [2, 3]))) = []"
    by (auto simp: page_recs_from_def append_eq_Cons_conv)
  from scanNext_after_endScan [OF S(2) this] S(1) c show ?thesis by blast
qed

section \<open>Inserting and deleting\<close>

text \<open>
  C28: insertRecord on a heap file with room adds exactly the given record, under a RID that no
  other record has, to the last page or to a new one behind it; the record count goes up by one
  and no other file changes.
\<close>
theorem insertRecord_adds:
  assumes h: "heap_at s h U B hdr xs (last xs)" and r: "r \<noteq> []" "length r \<le> 1000" and fr: "file_room s (filePtr h)" "pool_room s"
  shows "\<exists>rid s' h' U' hdr' xs'. InsertFileScan_insertRecord s h r = Some (OK, Some rid, s', h') \<and>
    heap_at s' h' U' B hdr' xs' (last xs') \<and> filePtr h' = filePtr h \<and>
    rid \<notin> fst ` set (chain_recs (page_of s (filePtr h)) xs) \<and> (xs' = xs \<or> xs' = xs @ [pageNo rid]) \<and>
    mset (chain_recs (page_of s' (filePtr h)) xs') = add_mset (rid, r) (mset (chain_recs (page_of s (filePtr h)) xs)) \<and>
    hdr_recCnt hdr' = wrap32 (hdr_recCnt hdr + 1) \<and> (\<forall>g q. g \<noteq> filePtr h \<longrightarrow> page_of s' g q = page_of s g q)"
proof -
  obtain rid s' h' U' hdr' xs' where I: "InsertFileScan_insertRecord s h r = Some (OK, Some rid, s', h')"
    "heap_at s' h' U' B hdr' xs' (last xs')" "filePtr h' = filePtr h" "headerPageNo h' = headerPageNo h"
    "xs' = xs \<or> xs' = xs @ [pageNo rid]"
    "mset (chain_recs (page_of s' (filePtr h)) xs') = add_mset (rid, r) (mset (chain_recs (page_of s (filePtr h)) xs))"
    "\<And>g q. g \<noteq> filePtr h \<Longrightarrow> page_of s' g q = page_of s g q"
    by (rule insert_spec [OF h r fr]) (rule that)
  have "heap_file (page_of s' (filePtr h)) (headerPageNo h) hdr' xs'" using heap_atD(5) [OF I(2)] I(3,4) by simp
  note cnt = heap_count [OF heap_atD(5) [OF h] this I(6)]
  show ?thesis
    by (intro exI [of _ rid] exI [of _ s'] exI [of _ h'] exI [of _ U'] exI [of _ hdr'] exI [of _ xs'])
      (use I cnt in \<open>simp del: chain_recs_simps\<close>)
qed

lemma example_insertScan:
  assumes p: "data_page 2 p" and n: "n = 1 + int (length (page_recs 2 p))" and small: "n < 100"
  obtains s h U B where "InsertFileScan_new (example_db p n) ''r'' = Some (OK, Some h, s)"
    "heap_at s h U B (example_hdr n) [2, 3] (last [2, 3])" "page_of s (filePtr h) = disk_view (example_heap p n)"
    "file_room s (filePtr h)" "pool_room s"
proof -
  obtain s h U B where A: "HeapFile_new (example_db p n) ''r'' = Some (OK, Some h, s)"
    "heap_at s h U B (example_hdr n) [2, 3] 2" "page_of s (filePtr h) = disk_view (example_heap p n)"
    "numBufs s = 3" "B = (\<lambda>f no. 0)"
    by (rule example_HeapFile [OF assms]) (rule that)
  obtain s' h' where B: "InsertFileScan_new (example_db p n) ''r'' = Some (OK, Some h', s')"
    "heap_at s' h' U B (example_hdr n) [2, 3] (last [2, 3])" "page_of s' = page_of s" "filePtr h' = filePtr h"
    "numBufs s' = numBufs s"
    by (rule InsertFileScan_new_spec [OF A(1,2)]) (rule that)
  have "pinned s' \<subseteq> {(filePtr h', 3), (filePtr h', headerPageNo h')}"
    using heap_atD(16) [OF B(2)] by (auto simp: busy_def A(5) hold_def split: if_splits)
  from card_mono [OF _ this] have "card (pinned s') \<le> 2" by (simp add: card_insert_if split: if_splits)
  then have "pool_room s'"
    by (intro pool_room_count) (use heap_atD(1) [OF B(2)] B(5) A(4) in \<open>simp_all add: db_inv_def\<close>)
  moreover have "page_of s' (filePtr h') 4 = None"
    using A(3) B(3,4) example_heap_file(6) [OF p n small] by (simp add: disk_view_def)
  then have "file_room s' (filePtr h')" by (rule file_roomI [OF heap_atD(2) [OF B(2)]]) simp_all
  ultimately show thesis using that B A(3) by simp
qed

section \<open>Reading a record\<close>

lemma heap_at_curRec: "heap_at s (h\<lparr>curRec := r\<rparr>) U B hdr xs x = heap_at s h U B hdr xs x"
  by (simp add: heap_at_def)

lemma HeapFile_getRecord_spec:
  assumes h: "heap_at s h U B hdr xs x" and r: "(rid, r) \<in> set (chain_recs (page_of s (filePtr h)) xs)"
  shows "\<exists>s' h'. HeapFile_getRecord s h rid = Some (OK, Some r, s', h') \<and> heap_at s' h' U B hdr xs (pageNo rid) \<and>
    curRec h' = rid \<and> page_of s' = page_of s"
proof -
  let ?f = "filePtr h"
  note H = heap_atD [OF h]
  obtain i where i: "curPage h = Frame i" "pool_frame s ?f x = Some i" using H(11) by blast
  have y: "pageNo rid \<in> set xs" and m: "(rid, r) \<in> set (page_recs (pageNo rid) (the (page_of s ?f (pageNo rid))))"
    using r by (simp_all add: chain_recs_mem)
  obtain p where p: "page_of s ?f (pageNo rid) = Some p" "data_page (pageNo rid) p"
    by (rule heap_fileD [OF H(5) y]) (rule that)
  obtain k where k: "k < num_slots p" "rid = \<lparr>pageNo = pageNo rid, slotNo = int k\<rparr>" "page_slots p ! k = Some r"
    using m p(1) by (auto simp: page_recs_mem)
  have "Some r \<in> set (page_slots p)" using k(1,3) by (metis nth_mem length_page_slots)
  then have rne: "r \<noteq> []" using p(2) by (auto simp: data_page_def)
  have "slotNo rid = int k" by (subst k(2)) simp
  then have get: "Page_getRecord p rid = (OK, Some r)"
    using getRecord_spec [of p rid k] p(2) k(1,3) rne by (simp add: data_page_def)
  show ?thesis
  proof (cases "pageNo rid = x")
    case True
    have "bufPool s ! i = p" using pool.view_frame [OF H(1) i(2)] p(1) True by simp
    then have "HeapFile_getRecord s h rid = Some (OK, Some r, s, h\<lparr>curRec := rid\<rparr>)"
      using i(1) True H(10) get by (simp add: HeapFile_getRecord_def)
    moreover have "heap_at s (h\<lparr>curRec := rid\<rparr>) U B hdr xs (pageNo rid)" using h True by (simp only: heap_at_curRec)
    ultimately show ?thesis by simp
  next
    case False
    obtain s1 j s2 where S: "unPinPage s ?f x (curDirtyFlag h) = (OK, s1)" "readPage s1 ?f (pageNo rid) = Some (OK, Some j, s2)"
      "page_of s2 = page_of s" "bufPool s2 ! j = the (page_of s ?f (pageNo rid))"
      "\<And>h'. filePtr h' = ?f \<Longrightarrow> headerPage h' = headerPage h \<Longrightarrow> headerPageNo h' = headerPageNo h \<Longrightarrow>
         hdrDirtyFlag h' = hdrDirtyFlag h \<Longrightarrow> curPage h' = Frame j \<Longrightarrow> cur_pageNo h' = pageNo rid \<Longrightarrow>
         heap_at s2 h' U B hdr xs (pageNo rid) \<and> heap_kept B s h s2 h'"
      by (rule heap_goto [OF h y]) (rule that)
    let ?h = "h\<lparr>curPage := Frame j, cur_pageNo := pageNo rid, curDirtyFlag := False, curRec := rid\<rparr>"
    have bj: "bufPool s2 ! j = p" using S(4) p(1) by simp
    have run: "HeapFile_getRecord s h rid = Some (OK, Some r, s2, ?h)"
      using i(1) False H(10) S(1,2) bj get by (simp add: HeapFile_getRecord_def)
    have "heap_at s2 ?h U B hdr xs (pageNo rid)" using S(5) [of ?h] by simp
    then show ?thesis using run S(3) by (intro exI [of _ s2] exI [of _ ?h]) simp
  qed
qed

text \<open>
  getRecord finds every record of the file by its RID, whatever page the object stands on, and
  afterwards it stands on the page of that record; no page changes.
\<close>
theorem HeapFile_getRecord_finds:
  assumes h: "heap_at s h U B hdr xs x" and r: "(rid, r) \<in> set (chain_recs (page_of s (filePtr h)) xs)"
  shows "\<exists>s' h'. HeapFile_getRecord s h rid = Some (OK, Some r, s', h') \<and> heap_at s' h' U B hdr xs (pageNo rid) \<and>
    curRec h' = rid \<and> page_of s' = page_of s"
  by (rule HeapFile_getRecord_spec [OF assms])

section \<open>More of inserting and deleting\<close>

lemma insertRecord_adds_witness:
  "\<exists>s h rid s' h'. InsertFileScan_new (example_db example_first 2) ''r'' = Some (OK, Some h, s) \<and>
     InsertFileScan_insertRecord s h [5, 6] = Some (OK, Some rid, s', h') \<and> (hdr_recCnt (bufPool s' ! headerPage h') = 3)"
proof -
  have n: "(2 :: int) = 1 + int (length (page_recs 2 example_first))" by (simp add: example_first(2))
  obtain s h U B where S: "InsertFileScan_new (example_db example_first 2) ''r'' = Some (OK, Some h, s)"
    "heap_at s h U B (example_hdr 2) [2, 3] (last [2, 3])" "file_room s (filePtr h)" "pool_room s"
    by (rule example_insertScan [OF example_first(1) n]) (simp, rule that)
  have ne: "[5, 6 :: byte] \<noteq> []" "length [5, 6 :: byte] \<le> 1000" by simp_all
  obtain rid s' h' U' hdr' xs' where I: "InsertFileScan_insertRecord s h [5, 6] = Some (OK, Some rid, s', h')"
    "heap_at s' h' U' B hdr' xs' (last xs')" "hdr_recCnt hdr' = wrap32 (hdr_recCnt (example_hdr 2) + 1)"
    using insertRecord_adds [OF S(2) ne S(3,4)] by blast
  have "hdr_recCnt (bufPool s' ! headerPage h') = 3"
    using heap_atD(15) [OF I(2)] I(3) by (simp add: example_hdr_def hdr_fields)
  then show ?thesis using S(1) I(1) by blast
qed

lemma HeapFile_getRecord_finds_witness:
  "\<exists>s h s' h'. HeapFile_new (example_db example_first 2) ''r'' = Some (OK, Some h, s) \<and>
     HeapFile_getRecord s h \<lparr>pageNo = 3, slotNo = 0\<rparr> = Some (OK, Some [7, 7], s', h')"
proof -
  have n: "(2 :: int) = 1 + int (length (page_recs 2 example_first))" by (simp add: example_first(2))
  obtain s h U B where S: "HeapFile_new (example_db example_first 2) ''r'' = Some (OK, Some h, s)"
    "heap_at s h U B (example_hdr 2) [2, 3] 2" "page_of s (filePtr h) = disk_view (example_heap example_first 2)"
    by (rule example_HeapFile [OF example_first(1) n]) (simp, rule that)
  have "(\<lparr>pageNo = 3, slotNo = 0\<rparr>, [7, 7]) \<in> set (chain_recs (page_of s (filePtr h)) [2, 3])"
    unfolding S(3) using example_heap_file(5) [OF example_first(1) n] by simp
  from HeapFile_getRecord_finds [OF S(2) this] S(1) show ?thesis by blast
qed

text \<open>
  insertRecord rejects a record that is longer than the data area of a page, 1004 bytes, but a
  slot takes 4 of them: a record of 1001 to 1004 bytes is not rejected at once. The call fails
  with NOSPACE, and every such call leaves one more empty page at the end of the file. (The new
  page is not marked dirty; the destructor does that.)
\<close>
theorem insertRecord_oversize_grows:
  assumes h: "heap_at s h U B hdr xs (last xs)" and r: "1000 < length r" "length r \<le> 1004"
    and fr: "file_room s (filePtr h)" "pool_room s"
  shows "\<exists>no s' h' U' hdr'. InsertFileScan_insertRecord s h r = Some (NOSPACE, None, s', h') \<and> no \<notin> set xs \<and>
    heap_at s' (h'\<lparr>curDirtyFlag := True\<rparr>) U' B hdr' (xs @ [no]) no \<and> filePtr h' = filePtr h \<and>
    mset (chain_recs (page_of s' (filePtr h)) (xs @ [no])) = mset (chain_recs (page_of s (filePtr h)) xs)"
proof -
  note H = heap_atD [OF h]
  obtain i where i: "curPage h = Frame i" "pool_frame s (filePtr h) (last xs) = Some i" using H(11) by blast
  obtain p where p: "page_of s (filePtr h) (last xs) = Some p" "data_page (last xs) p" by (rule heap_fileD [OF H(5,9)]) (rule that)
  have bp: "bufPool s ! i = p" using pool.view_frame [OF H(1) i(2)] p by simp
  have "freeSpace p \<le> 1004" using p(2) page_layout_bounds(3) by (simp add: data_page_def page_inv_def)
  then have full: "freeSpace (bufPool s ! i) < int (length r) + 4" using r(1) bp by simp
  have ne: "r \<noteq> []" using r(1) by auto
  obtain st s' h' U' hdr' no rid where I: "InsertFileScan_insertRecord s h r = Some (st, rid, s', h')"
    "st = (if length r \<le> 1000 then OK else NOSPACE)" "rid = (if st = OK then Some \<lparr>pageNo = no, slotNo = 0\<rparr> else None)"
    "heap_at s' (h'\<lparr>curDirtyFlag := True\<rparr>) U' B hdr' (xs @ [no]) no" "filePtr h' = filePtr h" "headerPageNo h' = headerPageNo h"
    "no \<notin> set xs" "hdrDirtyFlag h'" "curDirtyFlag h' = (st = OK \<or> curDirtyFlag h)"
    "mset (chain_recs (page_of s' (filePtr h)) (xs @ [no])) =
      (if st = OK then add_mset (\<lparr>pageNo = no, slotNo = 0\<rparr>, r) else id) (mset (chain_recs (page_of s (filePtr h)) xs))"
    by (rule insert_newPage_spec [OF h i(1) ne r(2) full fr]) (rule that)
  have st: "st = NOSPACE" using I(2) r(1) by simp
  show ?thesis
    by (intro exI [of _ no] exI [of _ s'] exI [of _ h'] exI [of _ U'] exI [of _ hdr'])
      (use I st in \<open>simp del: chain_recs_simps\<close>)
qed

lemma insertRecord_oversize_grows_witness:
  "\<exists>s h s' h'. InsertFileScan_new (example_db example_first 2) ''r'' = Some (OK, Some h, s) \<and>
     InsertFileScan_insertRecord s h (replicate 1001 0) = Some (NOSPACE, None, s', h') \<and>
     hdr_pageCnt (bufPool s' ! headerPage h') = 3"
proof -
  have n: "(2 :: int) = 1 + int (length (page_recs 2 example_first))" by (simp add: example_first(2))
  obtain s h U B where S: "InsertFileScan_new (example_db example_first 2) ''r'' = Some (OK, Some h, s)"
    "heap_at s h U B (example_hdr 2) [2, 3] (last [2, 3])" "file_room s (filePtr h)" "pool_room s"
    by (rule example_insertScan [OF example_first(1) n]) (simp, rule that)
  obtain no s' h' U' hdr' where I: "InsertFileScan_insertRecord s h (replicate 1001 0) = Some (NOSPACE, None, s', h')"
    "heap_at s' (h'\<lparr>curDirtyFlag := True\<rparr>) U' B hdr' ([2, 3] @ [no]) no"
    using insertRecord_oversize_grows [OF S(2) _ _ S(3,4), of "replicate 1001 0"] by auto
  have "hdr_pageCnt (bufPool s' ! headerPage h') = 3"
    using heap_atD(5,15) [OF I(2)] by (simp add: heap_file_def)
  then show ?thesis using S(1) I(1) by blast
qed

text \<open>
  C29: deleteRecord at a record that a scan has returned removes exactly this record, on its page,
  and counts it; no other page changes, and the record can no longer be read.
\<close>
theorem deleteRecord_removes:
  assumes h: "heap_at s h U B hdr xs x" and r: "(curRec h, r) \<in> set (chain_recs (page_of s (filePtr h)) xs)" "pageNo (curRec h) = x"
  shows "\<exists>s' h' hdr'. HeapFileScan_deleteRecord s h = Some (OK, s', h') \<and> heap_at s' h' U B hdr' xs x \<and>
    filePtr h' = filePtr h \<and> curRec h' = curRec h \<and>
    add_mset (curRec h, r) (mset (chain_recs (page_of s' (filePtr h)) xs)) = mset (chain_recs (page_of s (filePtr h)) xs) \<and>
    curRec h \<notin> fst ` set (chain_recs (page_of s' (filePtr h)) xs) \<and> hdr_recCnt hdr' = wrap32 (hdr_recCnt hdr - 1) \<and>
    (\<forall>g q. g \<noteq> filePtr h \<or> q \<notin> insert (headerPageNo h) (set xs) \<longrightarrow> page_of s' g q = page_of s g q)"
proof -
  obtain s' hdr' where D: "HeapFileScan_deleteRecord s h = Some (OK, s', h\<lparr>curDirtyFlag := True, hdrDirtyFlag := True\<rparr>)"
    "heap_at s' (h\<lparr>curDirtyFlag := True, hdrDirtyFlag := True\<rparr>) U B hdr' xs x"
    "add_mset (curRec h, r) (mset (chain_recs (page_of s' (filePtr h)) xs)) = mset (chain_recs (page_of s (filePtr h)) xs)"
    "\<And>g q. g \<noteq> filePtr h \<or> q \<notin> insert (headerPageNo h) (set xs) \<Longrightarrow> page_of s' g q = page_of s g q"
    by (rule deleteRecord_spec [OF h r]) (rule that)
  let ?P = "page_of s (filePtr h)" and ?P' = "page_of s' (filePtr h)"
  have hf: "heap_file ?P (headerPageNo h) hdr xs" "heap_file ?P' (headerPageNo h) hdr' xs"
    using heap_atD(5) [OF h] heap_atD(5) [OF D(2)] by simp_all
  have "length (chain_recs ?P xs) = Suc (length (chain_recs ?P' xs))" using arg_cong [OF D(3), of size] by simp
  then have "hdr_recCnt hdr' = wrap32 (hdr_recCnt hdr - 1)"
    using hf wrap32_add [of "int (length (chain_recs ?P xs))" "-1"] by (simp add: heap_file_def)
  moreover have "curRec h \<notin> fst ` set (chain_recs ?P' xs)"
  proof -
    have "mset (map fst (chain_recs ?P xs)) = mset (map fst ((curRec h, r) # chain_recs ?P' xs))"
      using arg_cong [OF D(3), of "image_mset fst"] by simp
    moreover have "distinct (map fst (chain_recs ?P xs))" using hf(1) by (intro chain_recs_distinct) (simp add: heap_file_def)
    ultimately have "distinct (map fst ((curRec h, r) # chain_recs ?P' xs))" by (metis mset_eq_imp_distinct_iff)
    then show ?thesis by simp
  qed
  ultimately show ?thesis
    by (intro exI [of _ s'] exI [of _ "h\<lparr>curDirtyFlag := True, hdrDirtyFlag := True\<rparr>"] exI [of _ hdr']) (use D in simp)
qed

lemma example_at_record:
  obtains s :: db and h :: filescan and U B where "heap_at s h U B (example_hdr 2) [2, 3] 2" "curRec h = \<lparr>pageNo = 2, slotNo = 0\<rparr>"
    "(curRec h, [1, 2, 3]) \<in> set (chain_recs (page_of s (filePtr h)) [2, 3])"
proof -
  have n: "(2 :: int) = 1 + int (length (page_recs 2 example_first))" by (simp add: example_first(2))
  obtain s :: db and h :: filescan and U B where S: "heap_at s h U B (example_hdr 2) [2, 3] 2"
    "page_of s (filePtr h) = disk_view (example_heap example_first 2)"
    by (rule example_scan [OF example_first(1) n]) (simp, rule that)
  let ?h = "h\<lparr>curRec := \<lparr>pageNo = 2, slotNo = 0\<rparr>\<rparr>"
  have "(\<lparr>pageNo = 2, slotNo = 0\<rparr>, [1, 2, 3]) \<in> set (chain_recs (page_of s (filePtr h)) [2, 3])"
    unfolding S(2) using example_heap_file(5) [OF example_first(1) n] by (simp add: example_first(2))
  moreover have "heap_at s ?h U B (example_hdr 2) [2, 3] 2" using S(1) by (simp only: heap_at_curRec)
  ultimately show thesis using that [of s ?h U] by simp
qed

lemma deleteRecord_removes_witness:
  "\<exists>(s :: db) (h :: filescan) s' h'. curRec h = \<lparr>pageNo = 2, slotNo = 0\<rparr> \<and>
     HeapFileScan_deleteRecord s h = Some (OK, s', h') \<and> hdr_recCnt (bufPool s' ! headerPage h') = 1"
proof -
  obtain s :: db and h :: filescan and U B where S: "heap_at s h U B (example_hdr 2) [2, 3] 2" "curRec h = \<lparr>pageNo = 2, slotNo = 0\<rparr>"
    "(curRec h, [1, 2, 3]) \<in> set (chain_recs (page_of s (filePtr h)) [2, 3])"
    by (rule example_at_record) (rule that)
  obtain s' h' hdr' where D: "HeapFileScan_deleteRecord s h = Some (OK, s', h')" "heap_at s' h' U B hdr' [2, 3] 2"
    "hdr_recCnt hdr' = wrap32 (hdr_recCnt (example_hdr 2) - 1)"
    using deleteRecord_removes [OF S(1,3)] S(2) by auto
  have "hdr_recCnt (bufPool s' ! headerPage h') = 1"
    using heap_atD(15) [OF D(2)] D(3) by (simp add: example_hdr_def hdr_fields)
  then show ?thesis using S(2) D(1) by blast
qed

text \<open>
  A second deleteRecord at the same record fails, but takes one off the record count all the
  same: from then on the count is one less than the number of records.
\<close>
theorem deleteRecord_twice_miscounts:
  assumes h: "heap_at s h U B hdr xs x" and r: "(curRec h, r) \<in> set (chain_recs (page_of s (filePtr h)) xs)" "pageNo (curRec h) = x"
  shows "\<exists>s1 h1 s2 h2 n. HeapFileScan_deleteRecord s h = Some (OK, s1, h1) \<and>
    HeapFileScan_deleteRecord s1 h1 = Some (INVALIDSLOTNO, s2, h2) \<and>
    n = int (length (chain_recs (page_of s2 (filePtr h)) xs)) \<and> HeapFile_getRecCnt s1 h1 = wrap32 n \<and>
    HeapFile_getRecCnt s2 h2 = wrap32 (n - 1)"
proof -
  obtain s1 h1 hdr1 where D: "HeapFileScan_deleteRecord s h = Some (OK, s1, h1)" "heap_at s1 h1 U B hdr1 xs x"
    "filePtr h1 = filePtr h" "curRec h1 = curRec h" "curRec h \<notin> fst ` set (chain_recs (page_of s1 (filePtr h)) xs)"
    using deleteRecord_removes [OF assms] by blast
  let ?f = "filePtr h" and ?hno = "headerPageNo h1"
  note H = heap_atD [OF D(2), unfolded D(3)]
  obtain i where i: "curPage h1 = Frame i" "pool_frame s1 ?f x = Some i" using H(11) by blast
  obtain q where q: "page_of s1 ?f x = Some q" "data_page x q" by (rule heap_fileD [OF H(5,9)]) (rule that)
  have bq: "bufPool s1 ! i = q" using pool.view_frame [OF H(1) i(2)] q(1) by simp
  obtain k where k: "slotNo (curRec h) = int k" "curRec h = \<lparr>pageNo = x, slotNo = int k\<rparr>"
    using r by (auto simp: chain_recs_mem page_recs_mem)
  have none: "page_slots q ! k = None" if "k < num_slots q"
  proof (rule ccontr)
    assume "page_slots q ! k \<noteq> None"
    then obtain r' where "page_slots q ! k = Some r'" by blast
    then have "(curRec h, r') \<in> set (chain_recs (page_of s1 ?f) xs)"
      using that H(9) q(1) k(2) by (auto simp: chain_recs_mem page_recs_mem)
    then show False using D(5) by (auto simp: image_iff)
  qed
  have "Page_deleteRecord q (curRec h) = (INVALIDSLOTNO, q)"
    using deleteRecord_sound [of q "curRec h" k] q(2) k(1) none by (auto simp: data_page_def)
  then have run: "HeapFileScan_deleteRecord s1 h1 = Some (INVALIDSLOTNO, bufUpdate s1 (headerPage h1) (\<lambda>p. set_hdr_recCnt p (hdr_recCnt p - 1)),
      h1\<lparr>curDirtyFlag := True, hdrDirtyFlag := True\<rparr>)" (is "_ = Some (_, ?s2, ?h2)")
    using i(1) bq D(4) by (simp add: HeapFileScan_deleteRecord_def bufUpdate_id)
  have hp: "page_of s1 ?f ?hno = Some hdr1" and cnt: "hdr_recCnt hdr1 = wrap32 (int (length (chain_recs (page_of s1 ?f) xs)))"
    and hx: "?hno \<notin> set xs" using H(5) by (simp_all add: heap_file_def)
  have pos: "0 < pin_of s1 ?f ?hno" using H(7) by simp
  note B = bufUpdate_spec [where g = "\<lambda>p. set_hdr_recCnt p (hdr_recCnt p - 1)", OF H(1,6) pos hp]
  have "chain_recs (page_of ?s2 ?f) xs = chain_recs (page_of s1 ?f) xs"
    using hx by (auto simp: chain_recs_def B(4) intro!: arg_cong [of _ _ concat] map_cong)
  moreover have "HeapFile_getRecCnt s1 h1 = wrap32 (int (length (chain_recs (page_of s1 ?f) xs)))"
    using H(15) cnt by (simp add: HeapFile_getRecCnt_def)
  moreover have "HeapFile_getRecCnt ?s2 ?h2 = wrap32 (int (length (chain_recs (page_of s1 ?f) xs)) - 1)"
    using B(7) cnt wrap32_add [of "int (length (chain_recs (page_of s1 ?f) xs))" "-1"]
    by (simp add: HeapFile_getRecCnt_def hdr_fields)
  ultimately show ?thesis using D(1) run by (intro exI conjI) (assumption | simp)+
qed

lemma deleteRecord_twice_miscounts_witness:
  "\<exists>(s :: db) (h :: filescan) s1 h1 s2 h2. HeapFileScan_deleteRecord s h = Some (OK, s1, h1) \<and>
     HeapFileScan_deleteRecord s1 h1 = Some (INVALIDSLOTNO, s2, h2)"
proof -
  obtain s :: db and h :: filescan and U B where S: "heap_at s h U B (example_hdr 2) [2, 3] 2" "curRec h = \<lparr>pageNo = 2, slotNo = 0\<rparr>"
    "(curRec h, [1, 2, 3]) \<in> set (chain_recs (page_of s (filePtr h)) [2, 3])"
    by (rule example_at_record) (rule that)
  then have "pageNo (curRec h) = 2" by simp
  from deleteRecord_twice_miscounts [OF S(1,3) this] show ?thesis by blast
qed

section \<open>The filter\<close>

text \<open>What the operators mean on ints.\<close>

definition int_cmp :: "Operator \<Rightarrow> int \<Rightarrow> int \<Rightarrow> bool" where
  "int_cmp op a b = (case op of LT \<Rightarrow> a < b | LTE \<Rightarrow> a \<le> b | EQ \<Rightarrow> a = b | GTE \<Rightarrow> b \<le> a | GT \<Rightarrow> b < a | NE \<Rightarrow> a \<noteq> b)"

text \<open>
  C39: On an integer attribute that lies inside the record, the filter of a scan decides the
  comparison of the attribute with the filter's value, as long as their difference is an int.
\<close>
theorem matchRec_compares:
  assumes "sc_filter h = Some flt" "sc_type h = INTEGER" "sc_length h = 4" "sc_offset h + 4 \<le> int (length rec)"
    and "a = rd_int (bytes_mem rec) (sc_offset h)" "b = rd_int flt 0" "- 2147483648 \<le> a - b" "a - b < 2147483648"
  shows "HeapFileScan_matchRec h rec = int_cmp (sc_op h) a b"
  using assms by (auto simp: HeapFileScan_matchRec_def filter_diff_def op_holds_def int_cmp_def split: Operator.split)

text \<open>A scan object with a filter on the first four bytes.\<close>

definition example_filter :: "Operator \<Rightarrow> byte list \<Rightarrow> filescan" where
  "example_filter op flt = \<lparr>filePtr = 0, headerPage = 0, headerPageNo = 1, hdrDirtyFlag = False, curPage = Null,
     cur_pageNo = 0, curDirtyFlag = False, curRec = NULLRID, sc_offset = 0, sc_length = 4, sc_type = INTEGER,
     sc_filter = Some (bytes_mem flt), sc_op = op, markedPageNo = 0, markedRec = NULLRID\<rparr>"

lemma rd_int_bytes:
  "rd_int (bytes_mem [b0, b1, b2, b3]) 0 = wrap32 (uint b0 + 256 * (uint b1 + 256 * (uint b2 + 256 * uint b3)))"
  by (simp add: rd_int_def bytes_mem_def)

lemma matchRec_compares_witness:
  "HeapFileScan_matchRec (example_filter LT [5, 0, 0, 0]) [3, 0, 0, 0] \<and>
     \<not> HeapFileScan_matchRec (example_filter GTE [5, 0, 0, 0]) [3, 0, 0, 0]"
  using matchRec_compares [OF _ _ _ _ refl refl, of "example_filter LT [5, 0, 0, 0]" "bytes_mem [5, 0, 0, 0]" "[3, 0, 0, 0]"]
    matchRec_compares [OF _ _ _ _ refl refl, of "example_filter GTE [5, 0, 0, 0]" "bytes_mem [5, 0, 0, 0]" "[3, 0, 0, 0]"]
  by (simp_all add: example_filter_def rd_int_bytes int_cmp_def)

text \<open>
  C40: When the difference does not fit an int, it wraps around, and every ordering operator
  answers the opposite of the comparison.
\<close>
theorem matchRec_overflow:
  assumes "sc_filter h = Some flt" "sc_type h = INTEGER" "sc_length h = 4" "sc_offset h + 4 \<le> int (length rec)"
    and "a = rd_int (bytes_mem rec) (sc_offset h)" "b = rd_int flt 0" "a - b < - 2147483648 \<or> 2147483648 \<le> a - b"
    and "sc_op h \<notin> {EQ, NE}"
  shows "HeapFileScan_matchRec h rec \<longleftrightarrow> \<not> int_cmp (sc_op h) a b"
proof -
  have r: "- 2147483648 \<le> a" "a < 2147483648" "- 2147483648 \<le> b" "b < 2147483648"
    using assms(5,6) wrap32_bounds by (simp_all add: rd_int_def)
  have shift: "wrap32 (c + 4294967296) = wrap32 c" for c
    using wrap32_mod [of "c + 4294967296"] wrap32_mod [of c] by simp
  have w: "wrap32 (a - b) = (if a < b then a - b + 4294967296 else a - b - 4294967296)"
  proof (cases "a < b")
    case True
    then have "wrap32 (a - b + 4294967296) = a - b + 4294967296" using r assms(7) by (intro wrap32_id) linarith+
    then show ?thesis using True shift [of "a - b"] by simp
  next
    case False
    then have "wrap32 (a - b - 4294967296) = a - b - 4294967296" using r assms(7) by (intro wrap32_id) linarith+
    then show ?thesis using False shift [of "a - b - 4294967296"] by simp
  qed
  show ?thesis
    using assms r w by (auto simp: HeapFileScan_matchRec_def filter_diff_def op_holds_def int_cmp_def split: Operator.split)
qed

lemma matchRec_overflow_witness:
  "HeapFileScan_matchRec (example_filter LT [255, 255, 255, 255]) [255, 255, 255, 127]"
  using matchRec_overflow [OF _ _ _ _ refl refl, of "example_filter LT [255, 255, 255, 255]"
      "bytes_mem [255, 255, 255, 255]" "[255, 255, 255, 127]"]
  by (simp add: example_filter_def rd_int_bytes int_cmp_def wrap32_def)

end
