(* ===== verification/HeapSession.thy ===== *)
theory HeapSession
  imports HeapOps
begin

text \<open>
  The life of a heap file object on a file that is already open: the catalogs relcat and attrcat
  are kept open by the whole program, and every call on them opens the file once more, works and
  closes it again. rel_open describes the file between the calls, call_kept what such a call
  leaves as it was.
\<close>

section \<open>Counting the users of a file\<close>

definition opened :: "'z db_scheme \<Rightarrow> fptr \<Rightarrow> int \<Rightarrow> 'z db_scheme" where
  "opened s f n = s\<lparr>files := (files s)(f := map_option (\<lambda>fo. fo\<lparr>openCnt := openCnt fo + n\<rparr>) (files s f))\<rparr>"

lemma opened_simps [simp]:
  "bufTable (opened s f n) = bufTable s" "hashTable (opened s f n) = hashTable s" "numBufs (opened s f n) = numBufs s"
  "bufPool (opened s f n) = bufPool s" "openFiles (opened s f n) = openFiles s" "fds (opened s f n) = fds s"
  "next_fd (opened s f n) = next_fd s" "next_ptr (opened s f n) = next_ptr s" "pool.more (opened s f n) = pool.more s"
  "pin_of (opened s f n) = pin_of s" "pool_frame (opened s f n) = pool_frame s"
  by (simp_all add: opened_def pin_of_def pool_frame_def fun_eq_iff split: option.split)

lemma file_name_opened [simp]: "file_name (opened s f n) = file_name s"
proof
  fix g show "file_name (opened s f n) g = file_name s g" by (cases "files s f") (auto simp: opened_def file_name_def)
qed

lemma closed_disk_opened [simp]: "closed_disk (opened s f n) = closed_disk s"
  by (simp add: closed_disk_def fun_eq_iff) (simp add: opened_def)

lemma file_pages_opened [simp]: "file_pages (opened s f n) = file_pages s"
  by (simp add: file_pages_def fun_eq_iff) (simp add: opened_def)

lemma opened_pages [simp]:
  "disk_page (opened s f n) = disk_page s" "page_of (opened s f n) = page_of s" "cached (opened s f n) = cached s"
  "settled (opened s f n) = settled s" "pool_used (opened s f n) = pool_used s"
  by (simp_all add: disk_page_def page_of_def cached_def settled_def pool_used_def file_ok_def fun_eq_iff split: option.split)

lemma opened_Some: "files s f = Some fo \<Longrightarrow> opened s f n = s\<lparr>files := (files s)(f \<mapsto> fo\<lparr>openCnt := openCnt fo + n\<rparr>)\<rparr>"
  by (simp add: opened_def)

section \<open>An open heap file between two calls\<close>

definition rel_open :: "'z db_scheme \<Rightarrow> string \<Rightarrow> fptr \<Rightarrow> layout \<Rightarrow> page \<Rightarrow> int list \<Rightarrow> bool" where
  "rel_open s name f U hdr xs \<longleftrightarrow> db_inv s \<and> name \<noteq> [] \<and> of_map (openFiles s) name = Some f \<and> pool_used s f U \<and>
     lay_first U \<in> lay_used U \<and> set xs \<subseteq> lay_used U \<and> heap_file (page_of s f) (lay_first U) hdr xs"

lemma rel_open_new:
  assumes inv: "db_inv s" and name: "name \<noteq> []" "of_map (openFiles s) name = None" "disk s name = Some ps"
    and db: "db_file ps fl" and hf: "heap_file (disk_view ps) (db_firstPage (ps ! 0)) hdr xs" and U: "set xs \<subseteq> used_pages ps fl"
  obtains s1 where "DB_openFile s name = Some (OK, Some (next_ptr s), s1)" "rel_open s1 name (next_ptr s) (layout_of ps fl) hdr xs"
    "page_of s1 (next_ptr s) = disk_view ps" "pin_of s1 = pin_of s" "numBufs s1 = numBufs s"
proof -
  obtain s1 where O: "DB_openFile s name = Some (OK, Some (next_ptr s), s1)" "db_inv s1" "pool_used s1 (next_ptr s) (layout_of ps fl)"
    "lay_first (layout_of ps fl) \<in> lay_used (layout_of ps fl)" "page_of s1 (next_ptr s) = disk_view ps"
    "pin_of s1 = pin_of s" "numBufs s1 = numBufs s" "of_map (openFiles s1) name = Some (next_ptr s)"
    by (rule openFile_layout [OF inv name db hf]) (rule that)
  show thesis by (rule that [OF O(1) _ O(5-7)]) (use O hf U name in \<open>simp add: rel_open_def\<close>)
qed

definition call_kept :: "fptr \<Rightarrow> 'z db_scheme \<Rightarrow> 'z db_scheme \<Rightarrow> bool" where
  "call_kept f s s' \<longleftrightarrow> pool_rest s' = pool_rest s \<and> pin_of s' = pin_of s \<and>
     (\<forall>g V. g \<noteq> f \<and> pool_used s g V \<longrightarrow> pool_used s' g V) \<and>
     (\<forall>g q. 0 < pin_of s g q \<longrightarrow> pool_frame s' g q = pool_frame s g q \<and> (settled s g q \<longrightarrow> settled s' g q))"

lemma call_kept_refl: "call_kept f s s"
  by (simp add: call_kept_def)

lemma call_kept_trans: "call_kept f s s1 \<Longrightarrow> call_kept f s1 s2 \<Longrightarrow> call_kept f s s2"
  unfolding call_kept_def by (metis)

text \<open>A state in which the object h works on a file that was open before, in state s.\<close>

definition in_call :: "'z db_scheme \<Rightarrow> fptr \<Rightarrow> 'z db_scheme \<Rightarrow> 'h heapfile_scheme \<Rightarrow> bool" where
  "in_call s f s1 h \<longleftrightarrow> files s f \<noteq> None \<and> pool_rest s1 = pool_rest (opened s f 1) \<and> filePtr h = f \<and>
     (\<forall>g V. g \<noteq> f \<and> pool_used s g V \<longrightarrow> pool_used s1 g V) \<and>
     (\<forall>g q. 0 < pin_of s g q \<longrightarrow> pool_frame s1 g q = pool_frame s g q \<and>
        (settled s g q \<longrightarrow> settled s1 g q \<or> flagged h g q))"

lemma in_call_step: "in_call s f s1 h \<Longrightarrow> heap_kept (pin_of s) s1 h s2 h2 \<Longrightarrow> in_call s f s2 h2"
  unfolding in_call_def heap_kept_def by metis

lemma in_call_flags:
  "in_call s f s1 h \<Longrightarrow> filePtr h' = f \<Longrightarrow> (\<And>g q. flagged h g q \<Longrightarrow> flagged h' g q) \<Longrightarrow> in_call s f s1 h'"
  unfolding in_call_def by metis

text \<open>The same relative to the state b right after the file has been opened.\<close>

definition in_use :: "'z db_scheme \<Rightarrow> fptr \<Rightarrow> 'z db_scheme \<Rightarrow> 'h heapfile_scheme \<Rightarrow> bool" where
  "in_use b f s1 h \<longleftrightarrow> pool_rest s1 = pool_rest b \<and> filePtr h = f \<and>
     (\<forall>g V. g \<noteq> f \<and> pool_used b g V \<longrightarrow> pool_used s1 g V) \<and>
     (\<forall>g q. 0 < pin_of b g q \<longrightarrow> pool_frame s1 g q = pool_frame b g q \<and>
        (settled b g q \<longrightarrow> settled s1 g q \<or> flagged h g q))"

lemma in_use_call: "in_use (opened s f 1) f s1 h \<Longrightarrow> files s f \<noteq> None \<Longrightarrow> in_call s f s1 h"
  by (simp add: in_use_def in_call_def)

lemma in_use_step: "in_use b f s1 h \<Longrightarrow> heap_kept (pin_of b) s1 h s2 h2 \<Longrightarrow> in_use b f s2 h2"
  unfolding in_use_def heap_kept_def by metis

section \<open>The constructor\<close>

lemma HeapFile_new_after:
  assumes O: "DB_openFile s name = Some (OK, Some f, b)" and r: "rel_open b name f U hdr xs" and room: "card (pinned b) + 2 \<le> numBufs b"
  obtains s' h where "HeapFile_new s name = Some (OK, Some h, s')" "heap_at s' h U (pin_of b) hdr xs (hd xs)"
    "in_use b f s' h" "curRec h = NULLRID" "page_of s' = page_of b" "filePtr h = f"
proof -
  have R: "db_inv b" "pool_used b f U" "lay_first U \<in> lay_used U" "set xs \<subseteq> lay_used U" "heap_file (page_of b f) (lay_first U) hdr xs"
    using r by (simp_all add: rel_open_def)
  obtain i s1 j s2 where A: "File_getFirstPage b f = Some (OK, Some (lay_first U))"
    "readPage b f (lay_first U) = Some (OK, Some i, s1)" "bufPool s1 ! i = hdr" "hdr_firstPage hdr = hd xs"
    "readPage s1 f (hd xs) = Some (OK, Some j, s2)" "page_of s2 = page_of b" "pool_rest s2 = pool_rest b"
    "\<And>h. filePtr h = f \<Longrightarrow> headerPage h = i \<Longrightarrow> headerPageNo h = lay_first U \<Longrightarrow> curPage h = Frame j \<Longrightarrow> cur_pageNo h = hd xs \<Longrightarrow>
       heap_at s2 (h :: heapfile) U (pin_of b) hdr xs (hd xs)"
    "\<And>g q. 0 < pin_of b g q \<Longrightarrow> pool_frame s2 g q = pool_frame b g q \<and> (settled b g q \<longrightarrow> settled s2 g q)"
    "\<And>g V. g \<noteq> f \<Longrightarrow> pool_used b g V \<Longrightarrow> pool_used s2 g V"
    by (rule heap_open [OF R room]) (rule that)
  let ?h = "\<lparr>filePtr = f, headerPage = i, headerPageNo = lay_first U, hdrDirtyFlag = False, curPage = Frame j,
     cur_pageNo = hd xs, curDirtyFlag = False, curRec = NULLRID\<rparr>"
  have "HeapFile_new s name = Some (OK, Some ?h, s2)" using O A(1-5) by (simp add: HeapFile_new_def)
  moreover have "heap_at s2 ?h U (pin_of b) hdr xs (hd xs)" using A(8) [of ?h] by simp
  moreover have "in_use b f s2 ?h" using A(7,9,10) by (simp add: in_use_def)
  ultimately show thesis using that [of ?h s2] A(6) by simp
qed

lemma rel_open_opened: "rel_open s name f U hdr xs \<Longrightarrow> db_inv (opened s f 1) \<Longrightarrow> rel_open (opened s f 1) name f U hdr xs"
  by (simp add: rel_open_def)

lemma HeapFile_new_open:
  assumes r: "rel_open s name f U hdr xs" and room: "card (pinned s) + 2 \<le> numBufs s"
  obtains s' h where "HeapFile_new s name = Some (OK, Some h, s')" "heap_at s' h U (pin_of s) hdr xs (hd xs)"
    "in_call s f s' h" "curRec h = NULLRID" "page_of s' = page_of s" "filePtr h = f"
proof -
  have R: "db_inv s" "name \<noteq> []" "of_map (openFiles s) name = Some f" using r by (simp_all add: rel_open_def)
  obtain fo where O: "files s f = Some fo" "DB_openFile s name = Some (OK, Some f, opened s f 1)" "db_inv (opened s f 1)"
    by (rule openFile_again [OF R]) (simp add: opened_Some)
  have room1: "card (pinned (opened s f 1)) + 2 \<le> numBufs (opened s f 1)" using room by simp
  obtain s' h where A: "HeapFile_new s name = Some (OK, Some h, s')" "heap_at s' h U (pin_of (opened s f 1)) hdr xs (hd xs)"
    "in_use (opened s f 1) f s' h" "curRec h = NULLRID" "page_of s' = page_of (opened s f 1)" "filePtr h = f"
    by (rule HeapFile_new_after [OF O(2) rel_open_opened [OF r O(3)] room1]) (rule that)
  show thesis by (rule that [OF A(1) _ in_use_call [OF A(3)] A(4) _ A(6)]) (use A(2,5) O(1) in simp_all)
qed

section \<open>The destructors\<close>

text \<open>The current page is given back.\<close>

lemma release_current:
  assumes h: "heap_at s h U B hdr xs x" and d: "curDirtyFlag h \<longrightarrow> dirt"
  obtains s1 where "unPinPage s (filePtr h) (cur_pageNo h) dirt = (OK, s1)" "db_inv s1" "page_of s1 = page_of s"
    "pool_frame s1 = pool_frame s" "pool_rest s1 = pool_rest s" "pin_of s1 = hold (filePtr h) (headerPageNo h) B"
    "\<And>g q. settled s g q \<or> cur_dirty h g q \<Longrightarrow> settled s1 g q" "\<And>g V. pool_used s g V \<Longrightarrow> pool_used s1 g V"
proof -
  note H = heap_atD [OF h]
  have nn: "\<And>g q. 0 \<le> hold (filePtr h) (headerPageNo h) B g q" by (rule hold_nonneg [OF H(17)])
  have o: "dirt \<or> settled s (filePtr h) x \<or> 0 < hold (filePtr h) (headerPageNo h) B (filePtr h) x"
    using H(13) d hold_pos [of B "filePtr h" x] by blast
  obtain s1 where A: "unPinPage s (filePtr h) x dirt = (OK, s1)" "db_inv s1" "page_of s1 = page_of s" "pool_frame s1 = pool_frame s"
    "pool_rest s1 = pool_rest s" "pin_of s1 = hold (filePtr h) (headerPageNo h) B"
    "\<And>g q. settled s g q \<or> dirt \<and> g = filePtr h \<and> q = x \<Longrightarrow> settled s1 g q" "\<And>g V. pool_used s g V \<Longrightarrow> pool_used s1 g V"
    by (rule pool.release_page [OF H(1,16) nn o]) (rule that)
  have "settled s1 g q" if "settled s g q \<or> cur_dirty h g q" for g q
    using A(7) [of g q] that d H(10) by (auto simp: cur_dirty_def)
  then show thesis using that [of s1] A H(10) by simp
qed

text \<open>The end of the destructor of HeapFile: the header page is given back and the file closed.\<close>

lemma header_release:
  assumes h: "heap_at s0 h0 U B hdr xs x"
    and s1: "db_inv s1" "page_of s1 = page_of s0" "pool_frame s1 = pool_frame s0" "pool_rest s1 = pool_rest s0"
      "pin_of s1 = hold (filePtr h0) (headerPageNo h0) B"
      "\<And>g q. settled s0 g q \<or> cur_dirty h0 g q \<Longrightarrow> settled s1 g q" "\<And>g V. pool_used s0 g V \<Longrightarrow> pool_used s1 g V"
    and h': "curPage h = Null" "filePtr h = filePtr h0" "headerPageNo h = headerPageNo h0" "hdrDirtyFlag h = hdrDirtyFlag h0"
  obtains s2 where "HeapFile_delete s1 h = Option.bind (DB_closeFile s2 (filePtr h0)) (\<lambda>(st, s). Some s)" "db_inv s2"
    "page_of s2 = page_of s0" "pool_frame s2 = pool_frame s0" "pool_rest s2 = pool_rest s0" "pin_of s2 = B"
    "\<And>g q. settled s0 g q \<or> flagged h0 g q \<Longrightarrow> settled s2 g q" "\<And>g V. pool_used s0 g V \<Longrightarrow> pool_used s2 g V"
proof -
  note H = heap_atD [OF h]
  let ?f = "filePtr h0" and ?hno = "headerPageNo h0"
  have nn: "\<And>g q. 0 \<le> B g q" by (rule H(17))
  have d: "hdrDirtyFlag h0 \<or> settled s1 ?f ?hno \<or> 0 < B ?f ?hno" using H(8) s1(6) by blast
  obtain s2 where A: "unPinPage s1 ?f ?hno (hdrDirtyFlag h0) = (OK, s2)" "db_inv s2" "page_of s2 = page_of s1" "pool_frame s2 = pool_frame s1"
    "pool_rest s2 = pool_rest s1" "pin_of s2 = B"
    "\<And>g q. settled s1 g q \<or> hdrDirtyFlag h0 \<and> g = ?f \<and> q = ?hno \<Longrightarrow> settled s2 g q" "\<And>g V. pool_used s1 g V \<Longrightarrow> pool_used s2 g V"
    by (rule pool.release_page [OF s1(1,5) nn d]) (rule that)
  have run: "HeapFile_delete s1 h = Option.bind (DB_closeFile s2 ?f) (\<lambda>(st, s). Some s)" using h' A(1) by (simp add: HeapFile_delete_def)
  have set: "settled s2 g q" if "settled s0 g q \<or> flagged h0 g q" for g q
    using that s1(6) [of g q] A(7) [of g q] by (auto simp: flagged_def)
  show thesis by (rule that [OF run A(2) _ _ _ A(6) set]) (use A s1 in simp_all)
qed

lemma HeapFile_delete_header:
  assumes c: "in_call s f s0 h0" and h: "heap_at s0 h0 U (pin_of s) hdr xs x"
    and s1: "db_inv s1" "page_of s1 = page_of s0" "pool_frame s1 = pool_frame s0" "pool_rest s1 = pool_rest s0"
      "pin_of s1 = hold (filePtr h0) (headerPageNo h0) (pin_of s)"
      "\<And>g q. settled s0 g q \<or> cur_dirty h0 g q \<Longrightarrow> settled s1 g q" "\<And>g V. pool_used s0 g V \<Longrightarrow> pool_used s1 g V"
    and h': "curPage h = Null" "filePtr h = filePtr h0" "headerPageNo h = headerPageNo h0" "hdrDirtyFlag h = hdrDirtyFlag h0"
    and op: "of_map (openFiles s) name = Some f" "name \<noteq> []" "db_inv s"
  obtains s2 where "HeapFile_delete s1 h = Some s2" "call_kept f s s2" "page_of s2 = page_of s0" "rel_open s2 name f U hdr xs"
proof -
  note H = heap_atD [OF h]
  have f: "filePtr h0 = f" using c by (simp add: in_call_def)
  obtain s2 where A: "HeapFile_delete s1 h = Option.bind (DB_closeFile s2 (filePtr h0)) (\<lambda>(st, s). Some s)" "db_inv s2"
    "page_of s2 = page_of s0" "pool_frame s2 = pool_frame s0" "pool_rest s2 = pool_rest s0" "pin_of s2 = pin_of s"
    "\<And>g q. settled s0 g q \<or> flagged h0 g q \<Longrightarrow> settled s2 g q" "\<And>g V. pool_used s0 g V \<Longrightarrow> pool_used s2 g V"
    by (rule header_release [OF h s1(1-5) _ _ h']) (erule s1(6), erule s1(7), rule that)
  obtain fo where fo: "files s f = Some fo" using c by (auto simp: in_call_def)
  have cnt: "1 \<le> openCnt fo" using op(3) fo open_okD(1) [of s f fo] by (simp add: db_inv_def)
  have r2: "pool_rest s2 = pool_rest (opened s f 1)" using A(5) c by (simp add: in_call_def)
  then have fs: "files s2 = (files s)(f \<mapsto> fo\<lparr>openCnt := openCnt fo + 1\<rparr>)" using fo by (simp add: pool_rest_def opened_Some)
  then have fo2: "files s2 f = Some (fo\<lparr>openCnt := openCnt fo + 1\<rparr>)" by simp
  let ?s3 = "opened s2 f (-1)"
  have cl: "DB_closeFile s2 f = Some (OK, ?s3)" "db_inv ?s3"
    using closeFile_more(1,2) [OF A(2) fo2] cnt fo2 by (simp_all add: opened_Some)
  have run: "HeapFile_delete s1 h = Some ?s3" using A(1) cl(1) f by simp
  have "files ?s3 = files s" using fo by (auto simp: opened_def fs fun_eq_iff)
  then have rest3: "pool_rest ?s3 = pool_rest s" using r2 by (simp add: pool_rest_def)
  have "call_kept f s ?s3"
    using c A(4,6-8) rest3 unfolding call_kept_def in_call_def by simp
  moreover have "rel_open ?s3 name f U hdr xs"
    using cl(2) op H(2-5,19) A(3,8) db_more [of ?s3 s] rest3 f by (simp add: rel_open_def pool_rest_def)
  ultimately show thesis using that [OF run] A(3) by simp
qed

lemma HeapFileScan_delete_open:
  assumes c: "in_call s f s0 h" and h: "heap_at s0 h U (pin_of s) hdr xs x"
    and op: "of_map (openFiles s) name = Some f" "name \<noteq> []" "db_inv s"
  obtains s1 h1 s2 where "HeapFileScan_endScan s0 h = Some (OK, s1, h1)" "HeapFileScan_delete s1 h1 = Some s2"
    "HeapFileScan_delete s0 h = Some s2" "call_kept f s s2" "page_of s2 = page_of s0" "rel_open s2 name f U hdr xs"
proof -
  obtain i where i: "curPage h = Frame i" using heap_atD(11) [OF h] by blast
  obtain s1 where A: "unPinPage s0 (filePtr h) (cur_pageNo h) (curDirtyFlag h) = (OK, s1)" "db_inv s1" "page_of s1 = page_of s0"
    "pool_frame s1 = pool_frame s0" "pool_rest s1 = pool_rest s0" "pin_of s1 = hold (filePtr h) (headerPageNo h) (pin_of s)"
    "\<And>g q. settled s0 g q \<or> cur_dirty h g q \<Longrightarrow> settled s1 g q" "\<And>g V. pool_used s0 g V \<Longrightarrow> pool_used s1 g V"
    by (rule release_current [OF h, of "curDirtyFlag h"]) (simp, rule that)
  let ?h1 = "h\<lparr>curPage := Null, cur_pageNo := 0, curDirtyFlag := False\<rparr>"
  have e: "HeapFileScan_endScan s0 h = Some (OK, s1, ?h1)" using i A(1) by (simp add: HeapFileScan_endScan_def)
  obtain s2 where B: "HeapFile_delete s1 ?h1 = Some s2" "call_kept f s s2" "page_of s2 = page_of s0" "rel_open s2 name f U hdr xs"
    by (rule HeapFile_delete_header [OF c h A(2-6), of ?h1 name])
      (erule A(7), erule A(8), simp, simp, simp, simp, rule op, rule op, rule op, rule that)
  show thesis
    by (rule that [OF e _ _ B(2-4)]) (use B(1) e in \<open>simp_all add: HeapFileScan_delete_def HeapFileScan_endScan_def\<close>)
qed

lemma InsertFileScan_delete_open:
  assumes c: "in_call s f s0 (h\<lparr>curDirtyFlag := True\<rparr>)" and h: "heap_at s0 (h\<lparr>curDirtyFlag := True\<rparr>) U (pin_of s) hdr xs x"
    and op: "of_map (openFiles s) name = Some f" "name \<noteq> []" "db_inv s"
  obtains s2 where "InsertFileScan_delete s0 h = Some s2" "call_kept f s s2" "page_of s2 = page_of s0" "rel_open s2 name f U hdr xs"
proof -
  let ?h = "h\<lparr>curDirtyFlag := True\<rparr>"
  obtain i where i: "curPage h = Frame i" using heap_atD(11) [OF h] by auto
  obtain s1 where A: "unPinPage s0 (filePtr ?h) (cur_pageNo ?h) True = (OK, s1)" "db_inv s1" "page_of s1 = page_of s0"
    "pool_frame s1 = pool_frame s0" "pool_rest s1 = pool_rest s0" "pin_of s1 = hold (filePtr ?h) (headerPageNo ?h) (pin_of s)"
    "\<And>g q. settled s0 g q \<or> cur_dirty ?h g q \<Longrightarrow> settled s1 g q" "\<And>g V. pool_used s0 g V \<Longrightarrow> pool_used s1 g V"
    by (rule release_current [OF h, of True]) (simp, rule that)
  obtain s2 where B: "HeapFile_delete s1 (h\<lparr>curPage := Null, cur_pageNo := 0\<rparr>) = Some s2" "call_kept f s s2"
    "page_of s2 = page_of s0" "rel_open s2 name f U hdr xs"
    by (rule HeapFile_delete_header [OF c h A(2-6), of "h\<lparr>curPage := Null, cur_pageNo := 0\<rparr>" name])
      (erule A(7), erule A(8), simp, simp, simp, simp, rule op, rule op, rule op, rule that)
  show thesis
    by (rule that [OF _ B(2-4)]) (use i A(1) B(1) in \<open>simp add: InsertFileScan_delete_def\<close>)
qed

section \<open>Scanning the open file\<close>

text \<open>The scan h stands in front of the records rest of the file that s had open.\<close>

definition standing ::
  "'z db_scheme \<Rightarrow> fptr \<Rightarrow> layout \<Rightarrow> page \<Rightarrow> int list \<Rightarrow> 'z db_scheme \<Rightarrow> 'h filescan_scheme
     \<Rightarrow> (RID \<times> byte list) list \<Rightarrow> bool" where
  "standing s f U hdr xs s1 h rest \<longleftrightarrow> in_call s f s1 h \<and> page_of s1 = page_of s \<and>
     (\<exists>x k ys. heap_at s1 h U (pin_of s) hdr xs x \<and> scan_at s1 h U (hold f (headerPageNo h) (pin_of s)) x k ys \<and>
        set (x # ys) \<subseteq> set xs \<and> scan_rest s1 f x k ys = rest)"

lemma in_call_cong: "filePtr h' = filePtr h \<Longrightarrow> flagged h' = flagged h \<Longrightarrow> in_call s f s1 h' = in_call s f s1 h"
  by (simp add: in_call_def)

lemma HeapFileScan_new_open:
  assumes r: "rel_open s name f U hdr xs" and room: "card (pinned s) + 2 \<le> numBufs s"
  obtains s1 and h :: filescan where "HeapFileScan_new s name = Some (OK, Some h, s1)"
    "standing s f U hdr xs s1 h (chain_recs (page_of s f) xs)"
proof -
  obtain s1 h where A: "HeapFile_new s name = Some (OK, Some h, s1)" "heap_at s1 h U (pin_of s) hdr xs (hd xs)"
    "in_call s f s1 h" "curRec h = NULLRID" "page_of s1 = page_of s" "filePtr h = f"
    by (rule HeapFile_new_open [OF r room]) (rule that)
  let ?h = "heapfile.extend h \<lparr>sc_offset = 0, sc_length = 0, sc_type = STRING, sc_filter = None, sc_op = LT,
        markedPageNo = 0, markedRec = NULLRID\<rparr>"
  have run: "HeapFileScan_new s name = Some (OK, Some ?h, s1)" by (simp add: HeapFileScan_new_def A(1))
  have at: "heap_at s1 ?h U (pin_of s) hdr xs (hd xs)" using A(2) by (simp add: heap_at_extend)
  have ic: "in_call s f s1 ?h"
    using A(3) by (subst in_call_cong [of _ h]) (simp_all add: flagged_def cur_dirty_def heapfile.defs fun_eq_iff)
  have f: "filePtr ?h = f" using A(6) by (simp add: heapfile.defs)
  have k: "slotNo (curRec ?h) = int 0 - 1" using A(4) by (simp add: heapfile.defs NULLRID_def)
  obtain as ys where xs: "xs = as @ hd xs # ys" and sc: "scan_at s1 ?h U (hold (filePtr ?h) (headerPageNo ?h) (pin_of s)) (hd xs) 0 ys"
    by (rule heap_at_scan [OF at k]) (rule that)
  have e: "xs = hd xs # ys" using xs heap_atD(5) [OF at] by (rule heap_first)
  have "scan_rest s1 f (hd xs) 0 ys = chain_recs (page_of s f) xs"
    using A(5) e by (metis scan_rest_def chain_recs_simps(2))
  moreover have "set (hd xs # ys) \<subseteq> set xs" using e by simp
  ultimately show thesis using that [OF run] ic at sc A(5) f unfolding standing_def by blast
qed

text \<open>Parameters of the filter do not matter to the pages.\<close>

lemma standing_startScan:
  assumes "standing s f U hdr xs s1 h rest"
  shows "standing s f U hdr xs s1 (h\<lparr>sc_offset := a, sc_length := b, sc_type := c, sc_filter := d, sc_op := e\<rparr>) rest"
proof -
  let ?h = "h\<lparr>sc_offset := a, sc_length := b, sc_type := c, sc_filter := d, sc_op := e\<rparr>"
  have "in_call s f s1 ?h = in_call s f s1 h"
    by (rule in_call_cong) (simp_all add: flagged_def cur_dirty_def fun_eq_iff)
  moreover have "heap_at s1 ?h U B hdr xs x = heap_at s1 h U B hdr xs x" for B x by (simp add: heap_at_def)
  moreover have "scan_at s1 ?h U B x k ys = scan_at s1 h U B x k ys" for B x k ys by (simp add: scan_at_def)
  ultimately show ?thesis using assms by (simp add: standing_def)
qed

text \<open>scanNext goes to the next record that matches.\<close>

lemma standing_next:
  assumes "standing s f U hdr xs s1 h rest"
  obtains st out s2 h2 where "HeapFileScan_scanNext s1 h = Some (st, out, s2, h2)" "same_scan h h2"
    "case dropWhile (\<lambda>(rid, rec). \<not> HeapFileScan_matchRec h rec) rest of
       [] \<Rightarrow> st = FILEEOF \<and> out = None \<and> standing s f U hdr xs s2 h2 []
     | (rid, rec) # rs \<Rightarrow> st = OK \<and> out = Some rid \<and> curRec h2 = rid \<and> pageNo rid = cur_pageNo h2 \<and>
         HeapFileScan_getRecord s2 h2 = Some (OK, Some rec) \<and> standing s f U hdr xs s2 h2 rs"
proof -
  obtain x k ys where S: "in_call s f s1 h" "page_of s1 = page_of s" "heap_at s1 h U (pin_of s) hdr xs x"
    "scan_at s1 h U (hold f (headerPageNo h) (pin_of s)) x k ys" "set (x # ys) \<subseteq> set xs" "scan_rest s1 f x k ys = rest"
    using assms by (auto simp: standing_def)
  have f: "filePtr h = f" using S(1) by (simp add: in_call_def)
  obtain st out s2 h2 where L: "scan_loop s1 h = Some (st, out, s2, h2)"
    "scan_found s1 h U (hold f (headerPageNo h) (pin_of s)) x ys rest st out s2 h2"
    using scan_loop_spec [OF S(4)] S(6) f by blast
  have run: "HeapFileScan_scanNext s1 h = Some (st, out, s2, h2)" using scanNext_loop [OF S(4)] L(1) by simp
  have ss: "same_scan h h2" using L(2) by (simp add: scan_found_def)
  obtain x' k' ys' where N: "scan_at s2 h2 U (hold f (headerPageNo h) (pin_of s)) x' k' ys'" "set (x' # ys') \<subseteq> set (x # ys)"
    "scan_kept (hold f (headerPageNo h) (pin_of s)) s1 h s2 h2"
    "case dropWhile (\<lambda>(rid, rec). \<not> HeapFileScan_matchRec h rec) rest of
       [] \<Rightarrow> st = FILEEOF \<and> out = None \<and> ys' = [] \<and> scan_rest s2 (filePtr h) x' k' ys' = []
     | (rid, rec) # rs \<Rightarrow> st = OK \<and> out = Some rid \<and> curRec h2 = rid \<and> pageNo rid = x' \<and>
         HeapFileScan_getRecord s2 h2 = Some (OK, Some rec) \<and> scan_rest s2 (filePtr h) x' k' ys' = rs"
    using L(2) unfolding scan_found_def by blast
  have x': "x' \<in> set xs" using N(2) S(5) by auto
  have at: "heap_at s2 h2 U (pin_of s) hdr xs x'" and kp: "heap_kept (pin_of s) s1 h s2 h2"
    by (rule scan_heap_at [OF S(3) N(1) [folded f] ss x' N(3) [folded f]])+
  have P: "page_of s2 = page_of s" using N(3) S(2) by (simp add: scan_kept_def)
  have "standing s f U hdr xs s2 h2 (scan_rest s2 (filePtr h) x' k' ys')"
    unfolding standing_def f same_scanD(4) [OF ss]
    using in_call_step [OF S(1) kp] P at N(1,2) S(5) by blast
  moreover have "cur_pageNo h2 = x'" using N(1) by (simp add: scan_at_def)
  ultimately show thesis using that [OF run ss] N(4) by (auto split: list.splits)
qed

lemma standing_delete:
  assumes r: "rel_open s name f U hdr xs" and st: "standing s f U hdr xs s1 h rest"
  obtains s2 h2 s3 where "HeapFileScan_endScan s1 h = Some (OK, s2, h2)" "HeapFileScan_delete s2 h2 = Some s3"
    "HeapFileScan_delete s1 h = Some s3" "call_kept f s s3" "page_of s3 = page_of s" "rel_open s3 name f U hdr xs"
proof -
  obtain x where S: "in_call s f s1 h" "page_of s1 = page_of s" "heap_at s1 h U (pin_of s) hdr xs x"
    using st by (auto simp: standing_def)
  have op: "of_map (openFiles s) name = Some f" "name \<noteq> []" "db_inv s" using r by (simp_all add: rel_open_def)
  show thesis by (rule HeapFileScan_delete_open [OF S(1,3) op], rule that) (simp_all add: S(2))
qed

text \<open>The record the scan has just returned is deleted; then the object is deleted.\<close>

lemma standing_deleteRecord:
  assumes r: "rel_open s name f U hdr xs" and st: "standing s f U hdr xs s1 h rest"
    and m: "(curRec h, rec) \<in> set (chain_recs (page_of s f) xs)" "pageNo (curRec h) = cur_pageNo h"
  obtains s2 h2 s3 hdr' where "HeapFileScan_deleteRecord s1 h = Some (OK, s2, h2)" "HeapFileScan_delete s2 h2 = Some s3"
    "call_kept f s s3" "rel_open s3 name f U hdr' xs"
    "add_mset (curRec h, rec) (mset (chain_recs (page_of s3 f) xs)) = mset (chain_recs (page_of s f) xs)"
    "\<And>g q. g \<noteq> f \<Longrightarrow> page_of s3 g q = page_of s g q"
    "\<exists>t k. HeapFileScan_endScan s2 h2 = Some (OK, t, k) \<and> HeapFileScan_delete t k = Some s3"
proof -
  obtain x where S: "in_call s f s1 h" "page_of s1 = page_of s" "heap_at s1 h U (pin_of s) hdr xs x"
    using st by (auto simp: standing_def)
  have f: "filePtr h = f" and x: "cur_pageNo h = x" using S(1) heap_atD(10) [OF S(3)] by (simp_all add: in_call_def)
  have m1: "(curRec h, rec) \<in> set (chain_recs (page_of s1 (filePtr h)) xs)" "pageNo (curRec h) = x" using m S(2) f x by simp_all
  obtain s2 hdr' where D: "HeapFileScan_deleteRecord s1 h = Some (OK, s2, h\<lparr>curDirtyFlag := True, hdrDirtyFlag := True\<rparr>)"
    "heap_at s2 (h\<lparr>curDirtyFlag := True, hdrDirtyFlag := True\<rparr>) U (pin_of s) hdr' xs x"
    "add_mset (curRec h, rec) (mset (chain_recs (page_of s2 (filePtr h)) xs)) = mset (chain_recs (page_of s1 (filePtr h)) xs)"
    "\<And>g q. g \<noteq> filePtr h \<or> q \<notin> insert (headerPageNo h) (set xs) \<Longrightarrow> page_of s2 g q = page_of s1 g q"
    "heap_kept (pin_of s) s1 h s2 (h\<lparr>curDirtyFlag := True, hdrDirtyFlag := True\<rparr>)"
    by (rule deleteRecord_spec [OF S(3) m1]) (rule that)
  have op: "of_map (openFiles s) name = Some f" "name \<noteq> []" "db_inv s" using r by (simp_all add: rel_open_def)
  obtain t k s3 where E: "HeapFileScan_delete s2 (h\<lparr>curDirtyFlag := True, hdrDirtyFlag := True\<rparr>) = Some s3" "call_kept f s s3"
    "page_of s3 = page_of s2" "rel_open s3 name f U hdr' xs"
    "HeapFileScan_endScan s2 (h\<lparr>curDirtyFlag := True, hdrDirtyFlag := True\<rparr>) = Some (OK, t, k)" "HeapFileScan_delete t k = Some s3"
    by (rule HeapFileScan_delete_open [OF in_call_step [OF S(1) D(5)] D(2) op]) (rule that)
  show thesis by (rule that [OF D(1) E(1,2,4)]) (use D(3,4) E(3,5,6) S(2) f in simp_all)
qed

section \<open>Inserting into the open file\<close>

lemma size_room: "pool_used s f U \<Longrightarrow> lay_size U < 2147483647 \<Longrightarrow> file_room s f"
  by (auto simp: pool_used_def file_ok_def file_room_def)

lemma insert_call:
  assumes r: "rel_open s name f U hdr xs" and rec: "r \<noteq> []" "length r \<le> 1000"
    and room: "card (pinned s) + 3 \<le> numBufs s" "lay_size U < 2147483647"
  obtains s1 h1 s2 h2 s3 rid U' hdr' xs' where "InsertFileScan_new s name = Some (OK, Some h1, s1)"
    "InsertFileScan_insertRecord s1 h1 r = Some (OK, Some rid, s2, h2)" "InsertFileScan_delete s2 h2 = Some s3"
    "call_kept f s s3" "rel_open s3 name f U' hdr' xs'" "lay_size U' \<le> Suc (lay_size U)"
    "mset (chain_recs (page_of s3 f) xs') = add_mset (rid, r) (mset (chain_recs (page_of s f) xs))"
    "\<And>g q. g \<noteq> f \<Longrightarrow> page_of s3 g q = page_of s g q"
proof -
  have op: "of_map (openFiles s) name = Some f" "name \<noteq> []" "db_inv s" using r by (simp_all add: rel_open_def)
  have room2: "card (pinned s) + 2 \<le> numBufs s" using room by simp
  obtain s0 h where A: "HeapFile_new s name = Some (OK, Some h, s0)" "heap_at s0 h U (pin_of s) hdr xs (hd xs)"
    "in_call s f s0 h" "page_of s0 = page_of s" "filePtr h = f"
    by (rule HeapFile_new_open [OF r room2]) (rule that)
  obtain s1 h1 where I: "InsertFileScan_new s name = Some (OK, Some h1, s1)" "heap_at s1 h1 U (pin_of s) hdr xs (last xs)"
    "page_of s1 = page_of s0" "filePtr h1 = filePtr h" "numBufs s1 = numBufs s0" "heap_kept (pin_of s) s0 h s1 h1"
    by (rule InsertFileScan_new_spec [OF A(1,2)]) (rule that)
  have c1: "in_call s f s1 h1" by (rule in_call_step [OF A(3) I(6)])
  have n1: "numBufs s1 = numBufs s" using c1 by (simp add: in_call_def pool_rest_def)
  note H = heap_atD [OF I(2)]
  have fin: "finite (pinned s)" by (rule pool.busy_finite [OF op(3)])
  have "pinned s1 = insert (filePtr h1, last xs) (insert (filePtr h1, headerPageNo h1) (pinned s))"
    unfolding H(16) using busy_hold [OF hold_nonneg [OF H(17)]] busy_hold [OF H(17)] by simp
  also have "card \<dots> \<le> card (pinned s) + 2" using fin by (simp add: card_insert_if)
  finally have "card (pinned s1) \<le> card (pinned s) + 2" .
  then have pr: "pool_room s1" by (intro pool_room_count) (use H(1) n1 room in \<open>simp_all add: db_inv_def\<close>)
  have fr: "file_room s1 (filePtr h1)" by (rule size_room [OF H(2) room(2)])
  obtain rid s2 h2 U' hdr' xs' where R: "InsertFileScan_insertRecord s1 h1 r = Some (OK, Some rid, s2, h2)"
    "heap_at s2 h2 U' (pin_of s) hdr' xs' (last xs')" "filePtr h2 = filePtr h1" "curDirtyFlag h2"
    "mset (chain_recs (page_of s2 (filePtr h1)) xs') = add_mset (rid, r) (mset (chain_recs (page_of s1 (filePtr h1)) xs))"
    "\<And>g q. g \<noteq> filePtr h1 \<Longrightarrow> page_of s2 g q = page_of s1 g q" "heap_kept (pin_of s) s1 h1 s2 h2"
    "lay_size U' \<le> Suc (lay_size U)"
    by (rule insert_spec [OF I(2) rec fr pr]) (rule that)
  have d: "h2\<lparr>curDirtyFlag := True\<rparr> = h2" using R(4) by (cases h2) simp
  have c2: "in_call s f s2 (h2\<lparr>curDirtyFlag := True\<rparr>)" unfolding d by (rule in_call_step [OF c1 R(7)])
  have h2: "heap_at s2 (h2\<lparr>curDirtyFlag := True\<rparr>) U' (pin_of s) hdr' xs' (last xs')" unfolding d by (rule R(2))
  obtain s3 where E: "InsertFileScan_delete s2 h2 = Some s3" "call_kept f s s3" "page_of s3 = page_of s2" "rel_open s3 name f U' hdr' xs'"
    by (rule InsertFileScan_delete_open [OF c2 h2 op]) (rule that)
  show thesis
    by (rule that [OF I(1) R(1) E(1,2,4) R(8)]) (use R(5,6) E(3) I(3,4) A(4,5) in simp_all)
qed

end
