(* ===== verification/RelFile.thy ===== *)
theory RelFile
  imports HeapSession
begin

text \<open>
  Relations on disk. A relation that nobody has open is a closed file; a HeapFile, HeapFileScan or
  InsertFileScan object opens it, is its only user, and writes everything back when it is
  destroyed. stored describes the closed file, own the object that has it open, apart what work on
  one file leaves alone: all other files, open or closed, and the pages other users have pinned.
\<close>

section \<open>Closed files\<close>

definition stored :: "'z db_scheme \<Rightarrow> string \<Rightarrow> nat \<Rightarrow> (RID \<times> byte list) list \<Rightarrow> bool" where
  "stored s name n recs \<longleftrightarrow> name \<noteq> [] \<and> of_map (openFiles s) name = None \<and>
     (\<exists>ps fl hdr xs. disk s name = Some ps \<and> length ps = n \<and> db_file ps fl \<and> set xs \<subseteq> used_pages ps fl \<and>
        heap_file (disk_view ps) (db_firstPage (ps ! 0)) hdr xs \<and> chain_recs (disk_view ps) xs = recs)"

lemma stored_disk:
  "stored s name n recs \<Longrightarrow> of_map (openFiles s') name = None \<Longrightarrow> disk s' name = disk s name \<Longrightarrow> stored s' name n recs"
  by (simp add: stored_def)

lemma closed_disk_closed:
  assumes "db_inv s" "of_map (openFiles s) name = None"
  shows "closed_disk s name = disk s name"
proof -
  have op: "open_ok s" using assms(1) by (simp add: db_inv_def)
  have "file_name s f \<noteq> Some name" for f
  proof
    assume "file_name s f = Some name"
    then obtain fo where fo: "files s f = Some fo" by (auto simp: file_name_def bind_eq_Some_conv)
    then have "fileName fo = name" using open_okD(6) [OF op fo] \<open>file_name s f = Some name\<close> by simp
    then show False using open_okD(5) [OF op fo] assms(2) by simp
  qed
  then show ?thesis by (simp add: closed_disk_def)
qed

text \<open>The view of a file depends on its pages in use only.\<close>

lemma heap_file_cong:
  assumes "heap_file P hno hdr xs" "P' hno = P hno" "\<And>x. x \<in> set xs \<Longrightarrow> P' x = P x"
  shows "heap_file P' hno hdr xs" "chain_recs P' xs = chain_recs P xs"
proof -
  show "chain_recs P' xs = chain_recs P xs" using assms(3) by (auto simp: chain_recs_def intro!: arg_cong [where f = concat])
  then show "heap_file P' hno hdr xs" using assms page_chain_cong [of xs P' P] by (simp add: heap_file_def)
qed

section \<open>What work on one file leaves alone\<close>

definition apart :: "string \<Rightarrow> fptr \<Rightarrow> 'z db_scheme \<Rightarrow> 'z db_scheme \<Rightarrow> bool" where
  "apart name f s s' \<longleftrightarrow> numBufs s' = numBufs s \<and> db.more s' = db.more s \<and>
     (\<forall>n. n \<noteq> name \<longrightarrow> of_map (openFiles s') n = of_map (openFiles s) n \<and> (\<forall>k r. stored s n k r \<longrightarrow> stored s' n k r) \<and>
        (of_map (openFiles s) n = None \<longrightarrow> disk s' n = disk s n)) \<and>
     (\<forall>g. g \<noteq> f \<longrightarrow> files s' g = files s g \<and> page_of s' g = page_of s g \<and> (\<forall>V. pool_used s g V \<longrightarrow> pool_used s' g V) \<and>
        (\<forall>q. 0 < pin_of s g q \<longrightarrow> pool_frame s' g q = pool_frame s g q \<and> (settled s g q \<longrightarrow> settled s' g q)))"

lemma apart_refl: "apart name f s s"
  by (simp add: apart_def)

lemma apart_trans:
  assumes "apart name f s s1" "apart name f s1 s2" "\<And>g q. g \<noteq> f \<Longrightarrow> pin_of s1 g q = pin_of s g q"
  shows "apart name f s s2"
  using assms unfolding apart_def by (simp only: simp_thms) metis

lemma apartD:
  assumes "apart name f s s'"
  shows "numBufs s' = numBufs s" "db.more s' = db.more s" "n \<noteq> name \<Longrightarrow> of_map (openFiles s') n = of_map (openFiles s) n"
    "n \<noteq> name \<Longrightarrow> stored s n k r \<Longrightarrow> stored s' n k r" "g \<noteq> f \<Longrightarrow> files s' g = files s g"
    "g \<noteq> f \<Longrightarrow> page_of s' g = page_of s g" "g \<noteq> f \<Longrightarrow> pool_used s g V \<Longrightarrow> pool_used s' g V"
    "g \<noteq> f \<Longrightarrow> 0 < pin_of s g q \<Longrightarrow> pool_frame s' g q = pool_frame s g q"
    "g \<noteq> f \<Longrightarrow> 0 < pin_of s g q \<Longrightarrow> settled s g q \<Longrightarrow> settled s' g q"
    "n \<noteq> name \<Longrightarrow> of_map (openFiles s) n = None \<Longrightarrow> disk s' n = disk s n"
  using assms unfolding apart_def by blast+

text \<open>What matters to whoever works with the file g.\<close>

definition spared :: "fptr \<Rightarrow> 'z db_scheme \<Rightarrow> 'z db_scheme \<Rightarrow> bool" where
  "spared g s s' \<longleftrightarrow> numBufs s' = numBufs s \<and> files s' g = files s g \<and> page_of s' g = page_of s g \<and>
     (\<forall>V. pool_used s g V \<longrightarrow> pool_used s' g V) \<and>
     (\<forall>q. 0 < pin_of s g q \<longrightarrow> pool_frame s' g q = pool_frame s g q \<and> (settled s g q \<longrightarrow> settled s' g q))"

lemma apart_spared: "apart name f s s' \<Longrightarrow> g \<noteq> f \<Longrightarrow> spared g s s'"
  unfolding apart_def spared_def by blast

text \<open>A file that others work with stays open with what it holds.\<close>

lemma rel_open_apart:
  assumes r: "rel_open s n g U hdr xs" and a: "apart name f s s'" and ne: "n \<noteq> name" "g \<noteq> f" and inv: "db_inv s'"
  shows "rel_open s' n g U hdr xs" "page_of s' g = page_of s g"
  using r inv apartD [OF a] ne by (simp_all add: rel_open_def)

text \<open>Pool operations and heap operations on a file.\<close>

lemma rest_apart:
  assumes inv: "db_inv s" "db_inv s'" and rest: "pool_rest s' = pool_rest s" and P: "\<And>g. g \<noteq> f \<Longrightarrow> page_of s' g = page_of s g"
    and u: "\<And>g V. g \<noteq> f \<Longrightarrow> pool_used s g V \<Longrightarrow> pool_used s' g V"
    and k: "\<And>g q. g \<noteq> f \<Longrightarrow> 0 < pin_of s g q \<Longrightarrow> pool_frame s' g q = pool_frame s g q \<and> (settled s g q \<longrightarrow> settled s' g q)"
  shows "apart name f s s'"
proof -
  have m: "pool.more s' = pool.more s" "numBufs s' = numBufs s" "files s' = files s" "closed_disk s' = closed_disk s"
    using rest by (simp_all add: pool_rest_def)
  then have o: "openFiles s' = openFiles s" and dm: "db.more s' = db.more s" by (cases s; cases s'; simp)+
  have d: "disk s' n = disk s n" if "of_map (openFiles s) n = None" for n
    using closed_disk_closed [OF inv(1) that] closed_disk_closed [OF inv(2), of n] that o m(4) by simp
  then have "stored s' n j r" if st: "stored s n j r" for n j r
    using stored_disk [OF st, of s'] st o by (simp add: stored_def)
  then show ?thesis using m o dm P u k d by (simp add: apart_def)
qed

lemma heap_kept_apart:
  assumes h: "heap_at s h U B hdr xs x" and inv: "db_inv s'" and k: "heap_kept B s h s' h'"
    and P: "\<And>g q. g \<noteq> filePtr h \<Longrightarrow> page_of s' g q = page_of s g q"
  shows "apart name (filePtr h) s s'"
proof -
  note H = heap_atD [OF h]
  have pin: "pin_of s g q = B g q" if "g \<noteq> filePtr h" for g q using that by (simp add: H(16) hold_def)
  have fl: "\<not> flagged h' g q" if "g \<noteq> filePtr h" for g q
    using that k by (simp add: flagged_def cur_dirty_def heap_kept_def)
  have keep: "pool_frame s' g q = pool_frame s g q \<and> (settled s g q \<longrightarrow> settled s' g q)" if "g \<noteq> filePtr h" "0 < pin_of s g q" for g q
    using k fl [OF that(1), of q] pin [OF that(1), of q] that(2) unfolding heap_kept_def by metis
  show ?thesis
    by (rule rest_apart [OF H(1) inv _ _ _ keep]) (use k P in \<open>simp_all add: heap_kept_def fun_eq_iff\<close>)
qed

lemma call_kept_apart:
  assumes "db_inv s" "db_inv s'" "call_kept f s s'" "\<And>g. g \<noteq> f \<Longrightarrow> page_of s' g = page_of s g"
  shows "apart name f s s'"
  by (rule rest_apart [OF assms(1,2)]) (use assms(3,4) in \<open>auto simp: call_kept_def\<close>)

section \<open>An object on its own file\<close>

text \<open>The object h is the only user of the file of the name; B are the pins of the others, on other files.\<close>

definition sole_user :: "'z db_scheme \<Rightarrow> string \<Rightarrow> fptr \<Rightarrow> bool" where
  "sole_user s name f \<longleftrightarrow> (\<exists>fo. files s f = Some fo \<and> openCnt fo = 1 \<and> fileName fo = name)"

definition own ::
  "'z db_scheme \<Rightarrow> string \<Rightarrow> 'h heapfile_scheme \<Rightarrow> layout \<Rightarrow> (fptr \<Rightarrow> int \<Rightarrow> int) \<Rightarrow> page \<Rightarrow> int list \<Rightarrow> int \<Rightarrow> bool" where
  "own s name h U B hdr xs x \<longleftrightarrow> heap_at s h U B hdr xs x \<and> sole_user s name (filePtr h) \<and> (\<forall>q. B (filePtr h) q = 0)"

lemma own_rest:
  assumes o: "own s name h U B hdr xs x" and h: "heap_at s' h' U' B hdr' xs' x'" and k: "heap_kept B s h s' h'"
  shows "own s' name h' U' B hdr' xs' x'"
  using o h k by (simp add: own_def heap_kept_def pool_rest_def sole_user_def)

text \<open>Work on other files: the pins of the others change, the object stands where it stood.\<close>

lemma own_spared:
  assumes o: "own s name k V B hdr ys y" and a: "spared (filePtr k) s s'" and inv: "db_inv s'"
    and pins: "pin_of s' = hold (filePtr k) y (hold (filePtr k) (headerPageNo k) B')" "\<And>g q. 0 \<le> B' g q"
    and B': "\<And>q. B' (filePtr k) q = 0" and c: "card (busy (hold (filePtr k) (headerPageNo k) B')) < numBufs s"
  shows "own s' name k V B' hdr ys y"
proof -
  let ?g = "filePtr k"
  have k: "heap_at s k V B hdr ys y" and B: "\<And>q. B ?g q = 0" and u: "sole_user s name ?g" using o by (simp_all add: own_def)
  note H = heap_atD [OF k]
  have A: "numBufs s' = numBufs s" "files s' ?g = files s ?g" "page_of s' ?g = page_of s ?g" "pool_used s' ?g V"
    "\<And>q. 0 < pin_of s ?g q \<Longrightarrow> pool_frame s' ?g q = pool_frame s ?g q \<and> (settled s ?g q \<longrightarrow> settled s' ?g q)"
    using a H(2) unfolding spared_def by blast+
  note F = A(5) [OF H(7)] A(5) [OF H(12)]
  have "heap_at s' k V B' hdr ys y"
    unfolding heap_at_def A(3)
    using inv A(1,4) H(3-6,8-11,13,19) pins B' c B F by auto
  then show ?thesis using u A(2) B' by (simp add: own_def sole_user_def)
qed

section \<open>The constructor\<close>

text \<open>Creating or opening a file leaves the pool as it is, and the other files.\<close>

lemma same_pool_apart:
  assumes sp: "same_pool s b" and m: "db.more b = db.more s"
    and d: "\<And>n. n \<noteq> name \<Longrightarrow> of_map (openFiles b) n = of_map (openFiles s) n \<and> disk b n = disk s n"
    and g: "\<And>g. g \<noteq> f \<Longrightarrow> files b g = files s g \<and> file_pages b g = file_pages s g \<and> page_of b g = page_of s g"
  shows "apart name f s b"
proof -
  have h: "hashTable b = hashTable s" "bufTable b = bufTable s" "numBufs b = numBufs s" using sp by (simp_all add: same_pool_def)
  have "pool_used b g V" if "g \<noteq> f" "pool_used s g V" for g V
    using that(2) g [OF that(1)] h(1) by (simp add: pool_used_def file_ok_def cached_def)
  moreover have "settled b g q" if "g \<noteq> f" "settled s g q" for g q
    using that(2) g [OF that(1)] h by (simp add: settled_def disk_page_def)
  moreover have "stored b n k r" if "n \<noteq> name" "stored s n k r" for n k r
    by (rule stored_disk [OF that(2)]) (use that d [OF that(1)] in \<open>simp_all add: stored_def\<close>)
  ultimately show ?thesis
    unfolding apart_def using m d g h by (auto simp: pool_frame_def fun_eq_iff)
qed

text \<open>The first open: nobody had a page of the file.\<close>

lemma openFile_fresh:
  assumes inv: "db_inv s" and name: "name \<noteq> []" "of_map (openFiles s) name = None" "disk s name = Some ps"
  obtains b where "DB_openFile s name = Some (OK, Some (next_ptr s), b)" "db_inv b" "apart name (next_ptr s) s b" "pin_of b = pin_of s"
    "\<And>q. pin_of s (next_ptr s) q = 0" "files s (next_ptr s) = None" "sole_user b name (next_ptr s)"
    "file_pages b (next_ptr s) = Some ps" "\<And>q. (next_ptr s, q) \<notin> cached b"
proof -
  let ?f = "next_ptr s"
  obtain b where P: "DB_openFile s name = Some (OK, Some ?f, b)" "db_inv b" "\<And>g q. g \<noteq> ?f \<Longrightarrow> page_of b g q = page_of s g q"
    "file_pages b ?f = Some ps" "pin_of b = pin_of s"
    "disk b = disk s" "\<And>g. g \<noteq> ?f \<Longrightarrow> files b g = files s g \<and> file_pages b g = file_pages s g"
    "of_map (openFiles b) = (of_map (openFiles s))(name \<mapsto> ?f)" "cached b = cached s"
    "files b ?f = Some \<lparr>fileName = name, openCnt = 1, unixFile = next_fd s\<rparr>" "same_pool s b" "files s ?f = None"
    "db.more b = db.more s"
    by (rule openFile_new [OF inv name]) (rule that)
  have a: "apart name ?f s b" by (rule same_pool_apart [OF P(11,13)]) (use P(3,6-8) in \<open>simp_all add: fun_eq_iff\<close>)
  have nc: "(?f, q) \<notin> cached s" for q
    using cached_disk [of s ?f q] inv P(12) by (auto simp: db_inv_def disk_page_def file_pages_def file_name_def)
  then have "pin_of s ?f q = 0" for q by (auto simp: pin_of_def cached_def split: option.splits)
  moreover have "sole_user b name ?f" using P(10) by (simp add: sole_user_def)
  ultimately show thesis using that [OF P(1,2) a P(5)] P(4,9,12) nc by simp
qed

lemma openFile_stored:
  assumes inv: "db_inv s" and st: "stored s name n recs"
  obtains b f U hdr xs where "DB_openFile s name = Some (OK, Some f, b)" "rel_open b name f U hdr xs" "lay_size U = n"
    "chain_recs (page_of b f) xs = recs" "sole_user b name f" "apart name f s b" "pin_of b = pin_of s" "\<And>q. pin_of s f q = 0"
    "files s f = None"
proof -
  let ?f = "next_ptr s"
  obtain ps fl hdr xs where D: "disk s name = Some ps" "length ps = n" "db_file ps fl" "set xs \<subseteq> used_pages ps fl"
    "heap_file (disk_view ps) (db_firstPage (ps ! 0)) hdr xs" "chain_recs (disk_view ps) xs = recs"
    and N: "name \<noteq> []" "of_map (openFiles s) name = None" using st by (auto simp: stored_def)
  obtain b where O: "DB_openFile s name = Some (OK, Some ?f, b)" "rel_open b name ?f (layout_of ps fl) hdr xs" "page_of b ?f = disk_view ps"
    "pin_of b = pin_of s" "numBufs b = numBufs s"
    by (rule rel_open_new [OF inv N D(1,3,5,4)]) (rule that)
  obtain b' where P: "DB_openFile s name = Some (OK, Some ?f, b')" "apart name ?f s b'" "\<And>q. pin_of s ?f q = 0"
    "files s ?f = None" "sole_user b' name ?f"
    by (rule openFile_fresh [OF inv N D(1)]) (rule that)
  have b: "b' = b" using O(1) P(1) by simp
  show thesis using that [OF O(1,2)] D(2,6) O(3,4) P(2-5) b by simp
qed

lemma HeapFile_new_own:
  assumes inv: "db_inv s" and st: "stored s name n recs" and room: "card (pinned s) + 2 \<le> numBufs s"
  obtains s' h U hdr xs where "HeapFile_new s name = Some (OK, Some h, s')" "own s' name h U (pin_of s) hdr xs (hd xs)"
    "lay_size U = n" "chain_recs (page_of s' (filePtr h)) xs = recs" "apart name (filePtr h) s s'" "curRec h = NULLRID"
    "files s (filePtr h) = None"
proof -
  obtain b f U hdr xs where O: "DB_openFile s name = Some (OK, Some f, b)" "rel_open b name f U hdr xs" "lay_size U = n"
    "chain_recs (page_of b f) xs = recs" "sole_user b name f" "apart name f s b" "pin_of b = pin_of s" "\<And>q. pin_of s f q = 0"
    "files s f = None"
    by (rule openFile_stored [OF inv st]) (rule that)
  have r: "card (pinned b) + 2 \<le> numBufs b" using room O(7) apartD(1) [OF O(6)] by simp
  obtain s' h where A: "HeapFile_new s name = Some (OK, Some h, s')" "heap_at s' h U (pin_of b) hdr xs (hd xs)"
    "in_use b f s' h" "curRec h = NULLRID" "page_of s' = page_of b" "filePtr h = f"
    by (rule HeapFile_new_after [OF O(1,2) r]) (rule that)
  have rest: "pool_rest s' = pool_rest b" using A(3) by (simp add: in_use_def)
  have fl: "\<not> flagged h g q" if "g \<noteq> f" for g q using that A(6) by (simp add: flagged_def cur_dirty_def)
  have keep: "pool_frame s' g q = pool_frame b g q \<and> (settled b g q \<longrightarrow> settled s' g q)" if "g \<noteq> f" "0 < pin_of b g q" for g q
    using A(3) fl [OF that(1), of q] that(2) unfolding in_use_def by blast
  have bs: "apart name f b s'"
    by (rule rest_apart [OF _ _ _ _ _ keep]) (use O(2) heap_atD(1) [OF A(2)] A(3,5) in \<open>auto simp: rel_open_def in_use_def\<close>)
  have "apart name f s s'" by (rule apart_trans [OF O(6) bs]) (simp add: O(7))
  moreover have "own s' name h U (pin_of s) hdr xs (hd xs)"
    using A(2,6) O(5,7,8) rest by (simp add: own_def sole_user_def pool_rest_def)
  ultimately show thesis using that [OF A(1)] O(3,4,9) A(4-6) by simp
qed

section \<open>Closing\<close>

lemma db_file_pages:
  assumes "db_file ps fl" "no \<in> used_pages ps fl"
  shows "1 \<le> no" "no < int (length ps)"
  using assms by (auto simp: used_pages_def)

lemma closeFile_stored:
  assumes inv: "db_inv s" and u: "sole_user s name f" "\<And>q. pin_of s f q = 0" and r: "pool_used s f U" "lay_first U \<in> lay_used U"
    "set xs \<subseteq> lay_used U" "heap_file (page_of s f) (lay_first U) hdr xs"
  obtains s' where "DB_closeFile s f = Some (OK, s')" "db_inv s'" "apart name f s s'" "pin_of s' = pin_of s"
    "stored s' name (lay_size U) (chain_recs (page_of s f) xs)"
proof -
  obtain fo where fo: "files s f = Some fo" "openCnt fo = 1" "fileName fo = name" using u(1) by (auto simp: sole_user_def)
  have op: "open_ok s" using inv by (simp add: db_inv_def)
  note O = open_okD [OF op fo(1)]
  obtain s' ps ps' where C: "DB_closeFile s f = Some (OK, s')" "db_inv s'" "files s' = (files s)(f := None)"
    "\<And>g q. g \<noteq> f \<Longrightarrow> page_of s' g q = page_of s g q" "\<And>g q. pin_of s' g q = pin_of s g q"
    "disk s name = Some ps" "disk s' name = Some ps'" "length ps' = length ps"
    "\<And>no. 1 \<le> no \<Longrightarrow> no < int (length ps) \<Longrightarrow> page_of s f no = Some (ps' ! nat no)"
    "of_map (openFiles s') = (of_map (openFiles s))(name := None)" "numBufs s' = numBufs s"
    "\<And>n. n \<noteq> name \<Longrightarrow> disk s' n = disk s n" "\<And>g. g \<noteq> f \<Longrightarrow> file_pages s' g = file_pages s g"
    "\<And>g q. g \<noteq> f \<Longrightarrow> bht_map (hashTable s') (g, q) = bht_map (hashTable s) (g, q)"
    "\<And>g q. g \<noteq> f \<Longrightarrow> settled s g q \<Longrightarrow> settled s' g q" "db.more s' = db.more s"
    "\<And>i. i < length ps \<Longrightarrow> (f, int i) \<notin> cached s \<Longrightarrow> ps' ! i = ps ! i"
    by (rule closeFile_last [OF inv fo(1,2) u(2)]) (unfold fo(3), rule that)
  obtain fl where F: "file_pages s f = Some ps" "db_file ps fl" "\<And>no. (f, no) \<in> cached s \<Longrightarrow> no \<in> used_pages ps fl" "U = layout_of ps fl"
    using r(1) O(7) C(6) fo(3) by (auto simp: pool_used_def file_ok_def)
  have ch: "ps' ! i = ps ! i" if "i < length ps" "int i \<notin> used_pages ps fl" for i using C(17) [OF that(1)] F(3) that(2) by blast
  have ne: "ps \<noteq> []" and fc: "free_chain ps (db_nextFree (ps ! 0)) fl" using F(2) by (simp_all add: db_file_def)
  have zero: "ps' ! 0 = ps ! 0" using ch [of 0] ne by (simp add: used_pages_def)
  have "ps' ! nat x = ps ! nat x" if "x \<in> set fl" for x
  proof -
    have "1 \<le> x" "x < int (length ps)" using free_chain_range [OF fc that] by simp_all
    then show ?thesis using ch [of "nat x"] that by (simp add: used_pages_def nat_less_iff)
  qed
  then have db: "db_file ps' fl" by (rule db_file_cong [OF F(2) C(8) zero])
  have us: "used_pages ps' fl = used_pages ps fl" using C(8) by (simp add: used_pages_def)
  have pg: "disk_view ps' q = page_of s f q" if "q \<in> lay_used U" for q
    using C(9) [of q] db_file_pages [OF F(2), of q] that F(4) C(8) by (simp add: disk_view_def)
  have fst': "db_firstPage (ps' ! 0) = lay_first U" using zero F(4) by simp
  have pgx: "disk_view ps' x = page_of s f x" if "x \<in> set xs" for x using pg r(3) that by blast
  note cong = heap_file_cong [OF r(4) pg [OF r(2)] pgx]
  have "stored s' name (lay_size U) (chain_recs (page_of s f) xs)"
    unfolding stored_def using C(7,8,10) O(2) fo(3) db us r(3) cong F(4) fst'
    by (intro conjI exI [of _ ps'] exI [of _ fl] exI [of _ hdr] exI [of _ xs]) simp_all
  moreover have "apart name f s s'"
  proof -
    have cs: "(g, no) \<in> cached s' \<longleftrightarrow> (g, no) \<in> cached s" if "g \<noteq> f" for g no
      using C(14) [OF that] by (auto simp: cached_def)
    have "pool_used s' g V" if "g \<noteq> f" "pool_used s g V" for g V
      using that(2) C(13) [OF that(1)] cs [OF that(1)] by (simp add: pool_used_def file_ok_def)
    moreover have "stored s' m k r" if "m \<noteq> name" "stored s m k r" for m k r
      by (rule stored_disk [OF that(2)]) (use that C(10,12) in \<open>simp_all add: stored_def\<close>)
    ultimately show ?thesis
      unfolding apart_def using C(3,4,10-12,14-16) by (auto simp: pool_frame_def fun_eq_iff)
  qed
  moreover have "pin_of s' = pin_of s" using C(5) by (simp add: fun_eq_iff)
  ultimately show thesis using that [OF C(1,2)] by blast
qed

section \<open>The destructors\<close>

lemma release_apart:
  assumes inv: "db_inv s" "db_inv s2" and P: "page_of s2 = page_of s" and fr: "pool_frame s2 = pool_frame s" and rest: "pool_rest s2 = pool_rest s"
    and set: "\<And>g q. settled s g q \<Longrightarrow> settled s2 g q" and u: "\<And>g V. pool_used s g V \<Longrightarrow> pool_used s2 g V"
  shows "apart name f s s2"
  by (rule rest_apart [OF inv rest]) (use P fr set u in simp_all)

lemma HeapFile_delete_own:
  assumes o: "own s0 name h0 U B hdr xs x"
    and s1: "db_inv s1" "page_of s1 = page_of s0" "pool_frame s1 = pool_frame s0" "pool_rest s1 = pool_rest s0"
      "pin_of s1 = hold (filePtr h0) (headerPageNo h0) B"
      "\<And>g q. settled s0 g q \<or> cur_dirty h0 g q \<Longrightarrow> settled s1 g q" "\<And>g V. pool_used s0 g V \<Longrightarrow> pool_used s1 g V"
    and h': "curPage h = Null" "filePtr h = filePtr h0" "headerPageNo h = headerPageNo h0" "hdrDirtyFlag h = hdrDirtyFlag h0"
  obtains s2 where "HeapFile_delete s1 h = Some s2" "db_inv s2" "apart name (filePtr h0) s0 s2" "pin_of s2 = B"
    "stored s2 name (lay_size U) (chain_recs (page_of s0 (filePtr h0)) xs)"
proof -
  let ?f = "filePtr h0"
  have h0: "heap_at s0 h0 U B hdr xs x" and B0: "\<And>q. B ?f q = 0" and su: "sole_user s0 name ?f" using o by (simp_all add: own_def)
  note H = heap_atD [OF h0]
  obtain s2 where A: "HeapFile_delete s1 h = Option.bind (DB_closeFile s2 ?f) (\<lambda>(st, s). Some s)" "db_inv s2"
    "page_of s2 = page_of s0" "pool_frame s2 = pool_frame s0" "pool_rest s2 = pool_rest s0" "pin_of s2 = B"
    "\<And>g q. settled s0 g q \<or> flagged h0 g q \<Longrightarrow> settled s2 g q" "\<And>g V. pool_used s0 g V \<Longrightarrow> pool_used s2 g V"
    by (rule header_release [OF h0 s1(1-5) _ _ h']) (erule s1(6), erule s1(7), rule that)
  have a1: "apart name ?f s0 s2" by (rule release_apart [OF H(1) A(2-5)]) (simp_all add: A(7,8))
  have su2: "sole_user s2 name ?f" using su A(5) by (simp add: sole_user_def pool_rest_def)
  have pin2: "pin_of s2 ?f q = 0" for q by (simp add: A(6) B0)
  have u2: "pool_used s2 ?f U" "lay_first U \<in> lay_used U" "heap_file (page_of s2 ?f) (lay_first U) hdr xs"
    using A(3,8) H(2,3,5,19) by simp_all
  obtain s3 where C: "DB_closeFile s2 ?f = Some (OK, s3)" "db_inv s3" "apart name ?f s2 s3" "pin_of s3 = pin_of s2"
    "stored s3 name (lay_size U) (chain_recs (page_of s2 ?f) xs)"
    by (rule closeFile_stored [OF A(2) su2 pin2 u2(1,2) H(4) u2(3)]) (rule that)
  have pins: "pin_of s2 g q = pin_of s0 g q" if "g \<noteq> ?f" for g q using that by (simp add: A(6) H(16) hold_def)
  have "apart name ?f s0 s3" by (rule apart_trans [OF a1 C(3) pins])
  then show thesis using that [of s3] A(1,3,6) C by simp
qed

lemma HeapFileScan_delete_own:
  assumes o: "own s0 name h U B hdr xs x"
  obtains s1 h1 s2 where "HeapFileScan_endScan s0 h = Some (OK, s1, h1)" "HeapFileScan_delete s1 h1 = Some s2"
    "HeapFileScan_delete s0 h = Some s2" "db_inv s2" "apart name (filePtr h) s0 s2" "pin_of s2 = B"
    "stored s2 name (lay_size U) (chain_recs (page_of s0 (filePtr h)) xs)"
proof -
  have h: "heap_at s0 h U B hdr xs x" using o by (simp add: own_def)
  obtain i where i: "curPage h = Frame i" using heap_atD(11) [OF h] by blast
  obtain s1 where A: "unPinPage s0 (filePtr h) (cur_pageNo h) (curDirtyFlag h) = (OK, s1)" "db_inv s1" "page_of s1 = page_of s0"
    "pool_frame s1 = pool_frame s0" "pool_rest s1 = pool_rest s0" "pin_of s1 = hold (filePtr h) (headerPageNo h) B"
    "\<And>g q. settled s0 g q \<or> cur_dirty h g q \<Longrightarrow> settled s1 g q" "\<And>g V. pool_used s0 g V \<Longrightarrow> pool_used s1 g V"
    by (rule release_current [OF h, of "curDirtyFlag h"]) (simp, rule that)
  let ?h1 = "h\<lparr>curPage := Null, cur_pageNo := 0, curDirtyFlag := False\<rparr>"
  have e: "HeapFileScan_endScan s0 h = Some (OK, s1, ?h1)" using i A(1) by (simp add: HeapFileScan_endScan_def)
  obtain s2 where B: "HeapFile_delete s1 ?h1 = Some s2" "db_inv s2" "apart name (filePtr h) s0 s2" "pin_of s2 = B"
    "stored s2 name (lay_size U) (chain_recs (page_of s0 (filePtr h)) xs)"
    by (rule HeapFile_delete_own [OF o A(2-6), of ?h1])
      (erule A(7), erule A(8), simp, simp, simp, simp, rule that)
  show thesis
    by (rule that [OF e _ _ B(2-5)]) (use B(1) e in \<open>simp_all add: HeapFileScan_delete_def HeapFileScan_endScan_def\<close>)
qed

lemma InsertFileScan_delete_own:
  assumes o: "own s0 name h U B hdr xs x"
  obtains s2 where "InsertFileScan_delete s0 h = Some s2" "db_inv s2" "apart name (filePtr h) s0 s2" "pin_of s2 = B"
    "stored s2 name (lay_size U) (chain_recs (page_of s0 (filePtr h)) xs)"
proof -
  have h: "heap_at s0 h U B hdr xs x" using o by (simp add: own_def)
  obtain i where i: "curPage h = Frame i" using heap_atD(11) [OF h] by auto
  obtain s1 where A: "unPinPage s0 (filePtr h) (cur_pageNo h) True = (OK, s1)" "db_inv s1" "page_of s1 = page_of s0"
    "pool_frame s1 = pool_frame s0" "pool_rest s1 = pool_rest s0" "pin_of s1 = hold (filePtr h) (headerPageNo h) B"
    "\<And>g q. settled s0 g q \<or> cur_dirty h g q \<Longrightarrow> settled s1 g q" "\<And>g V. pool_used s0 g V \<Longrightarrow> pool_used s1 g V"
    by (rule release_current [OF h, of True]) (simp, rule that)
  obtain s2 where B: "HeapFile_delete s1 (h\<lparr>curPage := Null, cur_pageNo := 0\<rparr>) = Some s2" "db_inv s2" "apart name (filePtr h) s0 s2"
    "pin_of s2 = B" "stored s2 name (lay_size U) (chain_recs (page_of s0 (filePtr h)) xs)"
    by (rule HeapFile_delete_own [OF o A(2-6), of "h\<lparr>curPage := Null, cur_pageNo := 0\<rparr>"])
      (erule A(7), erule A(8), simp, simp, simp, simp, rule that)
  show thesis
    by (rule that [OF _ B(2-5)]) (use i A(1) B(1) in \<open>simp add: InsertFileScan_delete_def\<close>)
qed

section \<open>Scanning\<close>

lemma page_chain_unique: "page_chain P no xs \<Longrightarrow> page_chain P no ys \<Longrightarrow> xs = ys"
proof (induction xs arbitrary: no ys)
  case Nil
  then show ?case by (cases ys) (auto simp: data_page_def)
next
  case (Cons x xs)
  then show ?case by (cases ys) (auto simp: data_page_def)
qed

text \<open>The scan stands in front of the records rest of its file.\<close>

definition scan_own ::
  "'z db_scheme \<Rightarrow> string \<Rightarrow> 'h filescan_scheme \<Rightarrow> layout \<Rightarrow> (fptr \<Rightarrow> int \<Rightarrow> int) \<Rightarrow> page \<Rightarrow> int list
     \<Rightarrow> (RID \<times> byte list) list \<Rightarrow> bool" where
  "scan_own s name h U B hdr xs rest \<longleftrightarrow> (\<exists>x k ys. own s name h U B hdr xs x \<and>
     page_chain (page_of s (filePtr h)) x (x # ys) \<and> slotNo (curRec h) = int k - 1 \<and> scan_rest s (filePtr h) x k ys = rest)"

lemma scan_own_at:
  assumes "heap_at s h U B hdr xs x" "page_chain (page_of s (filePtr h)) x (x # ys)" "slotNo (curRec h) = int k - 1"
  shows "scan_at s h U (hold (filePtr h) (headerPageNo h) B) x k ys"
proof -
  obtain as zs where "xs = as @ x # zs" and sc: "scan_at s h U (hold (filePtr h) (headerPageNo h) B) x k zs"
    by (rule heap_at_scan [OF assms(1,3)]) (rule that)
  have c: "page_chain (page_of s (filePtr h)) x (x # zs)" using sc unfolding scan_at_def by blast
  have "zs = ys" using page_chain_unique [OF assms(2) c] by simp
  then show ?thesis using sc by simp
qed

lemma heap_at_cong:
  assumes "filePtr h' = filePtr h" "headerPage h' = headerPage h" "headerPageNo h' = headerPageNo h" "hdrDirtyFlag h' = hdrDirtyFlag h"
    "curPage h' = curPage h" "cur_pageNo h' = cur_pageNo h" "curDirtyFlag h' = curDirtyFlag h"
  shows "heap_at s h' U B hdr xs x = heap_at s h U B hdr xs x"
  by (simp add: heap_at_def assms)

lemma own_cong:
  assumes "filePtr h' = filePtr h" "headerPage h' = headerPage h" "headerPageNo h' = headerPageNo h" "hdrDirtyFlag h' = hdrDirtyFlag h"
    "curPage h' = curPage h" "cur_pageNo h' = cur_pageNo h" "curDirtyFlag h' = curDirtyFlag h"
  shows "own s name h' U B hdr xs x = own s name h U B hdr xs x"
  by (simp add: own_def heap_at_cong [OF assms] assms(1))

lemma HeapFileScan_new_own:
  assumes inv: "db_inv s" and st: "stored s name n recs" and room: "card (pinned s) + 2 \<le> numBufs s"
  obtains s' U hdr xs and h :: filescan where "HeapFileScan_new s name = Some (OK, Some h, s')"
    "scan_own s' name h U (pin_of s) hdr xs recs" "lay_size U = n" "apart name (filePtr h) s s'" "files s (filePtr h) = None"
    "chain_recs (page_of s' (filePtr h)) xs = recs"
    "\<And>r. HeapFileScan_matchRec h r"
proof -
  obtain s' h U hdr xs where A: "HeapFile_new s name = Some (OK, Some h, s')" "own s' name h U (pin_of s) hdr xs (hd xs)"
    "lay_size U = n" "chain_recs (page_of s' (filePtr h)) xs = recs" "apart name (filePtr h) s s'" "curRec h = NULLRID"
    "files s (filePtr h) = None"
    by (rule HeapFile_new_own [OF inv st room]) (rule that)
  let ?h = "heapfile.extend h \<lparr>sc_offset = 0, sc_length = 0, sc_type = STRING, sc_filter = None, sc_op = LT,
        markedPageNo = 0, markedRec = NULLRID\<rparr>"
  have run: "HeapFileScan_new s name = Some (OK, Some ?h, s')" by (simp add: HeapFileScan_new_def A(1))
  have h: "heap_at s' h U (pin_of s) hdr xs (hd xs)" using A(2) by (simp add: own_def)
  note H = heap_atD [OF h]
  have o: "own s' name ?h U (pin_of s) hdr xs (hd xs)" using A(2) by (simp add: own_def heap_at_extend)
  have x: "hd xs \<in> set xs" by (rule H(9))
  obtain ys where xs: "xs = hd xs # ys" using x by (cases xs) auto
  have "page_chain (page_of s' (filePtr h)) (hdr_firstPage hdr) xs" using H(5) by (simp add: heap_file_def)
  then have ch: "page_chain (page_of s' (filePtr h)) (hd xs) (hd xs # ys)" using xs by (metis page_chain.simps(2))
  have "scan_rest s' (filePtr h) (hd xs) 0 ys = recs" using A(4) xs by (metis scan_rest_def chain_recs_simps(2))
  then have "scan_own s' name ?h U (pin_of s) hdr xs recs"
    unfolding scan_own_def using o ch A(6) by (intro exI [of _ "hd xs"] exI [of _ 0] exI [of _ ys]) (simp add: heapfile.defs NULLRID_def)
  moreover have "HeapFileScan_matchRec ?h r" for r by (simp add: HeapFileScan_matchRec_def heapfile.defs)
  ultimately show thesis using that [OF run _ A(3)] A(4,5,7) by (simp add: heapfile.defs)
qed

lemma scan_own_startScan:
  assumes "scan_own s name h U B hdr xs rest"
  shows "scan_own s name (h\<lparr>sc_offset := a, sc_length := b, sc_type := c, sc_filter := d, sc_op := e\<rparr>) U B hdr xs rest"
proof -
  have "own s name (h\<lparr>sc_offset := a, sc_length := b, sc_type := c, sc_filter := d, sc_op := e\<rparr>) U B hdr xs x = own s name h U B hdr xs x" for x
    by (rule own_cong) simp_all
  then show ?thesis using assms by (simp add: scan_own_def)
qed

text \<open>scanNext goes to the next record that matches.\<close>

lemma scan_own_next:
  assumes "scan_own s name h U B hdr xs rest"
  obtains st out s2 h2 where "HeapFileScan_scanNext s h = Some (st, out, s2, h2)" "same_scan h h2" "apart name (filePtr h) s s2"
    "page_of s2 = page_of s" "db_inv s2"
    "case dropWhile (\<lambda>(rid, rec). \<not> HeapFileScan_matchRec h rec) rest of
       [] \<Rightarrow> st = FILEEOF \<and> scan_own s2 name h2 U B hdr xs []
     | (rid, rec) # rs \<Rightarrow> st = OK \<and> out = Some rid \<and> curRec h2 = rid \<and> pageNo rid = cur_pageNo h2 \<and>
         HeapFileScan_getRecord s2 h2 = Some (OK, Some rec) \<and> scan_own s2 name h2 U B hdr xs rs"
proof -
  let ?f = "filePtr h"
  obtain x k ys where S: "own s name h U B hdr xs x" "page_chain (page_of s ?f) x (x # ys)" "slotNo (curRec h) = int k - 1"
    "scan_rest s ?f x k ys = rest"
    using assms by (auto simp: scan_own_def)
  have at: "heap_at s h U B hdr xs x" using S(1) by (simp add: own_def)
  let ?B = "hold ?f (headerPageNo h) B"
  have sc: "scan_at s h U ?B x k ys" by (rule scan_own_at [OF at S(2,3)])
  obtain st out s2 h2 where L: "scan_loop s h = Some (st, out, s2, h2)"
    "scan_found s h U ?B x ys rest st out s2 h2"
    using scan_loop_spec [OF sc] S(4) by blast
  have run: "HeapFileScan_scanNext s h = Some (st, out, s2, h2)" using scanNext_loop [OF sc] L(1) by simp
  have ss: "same_scan h h2" using L(2) by (simp add: scan_found_def)
  obtain x' k' ys' where N: "scan_at s2 h2 U ?B x' k' ys'" "set (x' # ys') \<subseteq> set (x # ys)" "scan_kept ?B s h s2 h2"
    "case dropWhile (\<lambda>(rid, rec). \<not> HeapFileScan_matchRec h rec) rest of
       [] \<Rightarrow> st = FILEEOF \<and> out = None \<and> ys' = [] \<and> scan_rest s2 ?f x' k' ys' = []
     | (rid, rec) # rs \<Rightarrow> st = OK \<and> out = Some rid \<and> curRec h2 = rid \<and> pageNo rid = x' \<and>
         HeapFileScan_getRecord s2 h2 = Some (OK, Some rec) \<and> scan_rest s2 ?f x' k' ys' = rs"
    using L(2) unfolding scan_found_def by blast
  have f2: "filePtr h2 = ?f" using same_scanD [OF ss] by simp
  obtain as bs where "xs = as @ x # bs" "page_chain (page_of s ?f) x (x # bs)" by (rule heap_fileD [OF heap_atD(5,9) [OF at]]) (rule that)
  then have "set (x # ys) \<subseteq> set xs" using page_chain_unique [OF S(2)] by (metis set_append Un_upper2)
  then have x': "x' \<in> set xs" using N(2) by auto
  have at2: "heap_at s2 h2 U B hdr xs x'" and kp: "heap_kept B s h s2 h2"
    by (rule scan_heap_at [OF at N(1) ss x' N(3)])+
  have o2: "own s2 name h2 U B hdr xs x'" by (rule own_rest [OF S(1) at2 kp])
  have P: "page_of s2 = page_of s" using N(3) by (simp add: scan_kept_def)
  have inv2: "db_inv s2" by (rule heap_atD(1) [OF at2])
  have a: "apart name ?f s s2" by (rule heap_kept_apart [OF at inv2 kp]) (simp add: P)
  have ch: "page_chain (page_of s2 ?f) x' (x' # ys')" "slotNo (curRec h2) = int k' - 1" "cur_pageNo h2 = x'"
    using N(1) f2 unfolding scan_at_def by simp_all
  have "scan_own s2 name h2 U B hdr xs (scan_rest s2 ?f x' k' ys')"
    unfolding scan_own_def f2 using o2 ch by blast
  then show thesis using that [OF run ss a P inv2] N(4) ch(3) by (auto split: list.splits)
qed

lemma scan_own_subset:
  assumes "scan_own s name h U B hdr xs rest"
  shows "set rest \<subseteq> set (chain_recs (page_of s (filePtr h)) xs)"
proof -
  let ?P = "page_of s (filePtr h)"
  obtain x k ys where S: "own s name h U B hdr xs x" "page_chain ?P x (x # ys)" "scan_rest s (filePtr h) x k ys = rest"
    using assms by (auto simp: scan_own_def)
  have at: "heap_at s h U B hdr xs x" using S(1) by (simp add: own_def)
  obtain as bs where xs: "xs = as @ x # bs" "page_chain ?P x (x # bs)" by (rule heap_fileD [OF heap_atD(5,9) [OF at]]) (rule that)
  have "ys = bs" using page_chain_unique [OF S(2) xs(2)] by simp
  moreover have "set (page_recs_from x (the (?P x)) k) \<subseteq> set (page_recs x (the (?P x)))" by (auto simp: page_recs_from_def used_from_def)
  moreover have "set rest = set (page_recs_from x (the (?P x)) k) \<union> set (chain_recs ?P ys)" using S(3) by (auto simp: scan_rest_def)
  moreover have "set (chain_recs ?P xs) = set (chain_recs ?P as) \<union> set (page_recs x (the (?P x))) \<union> set (chain_recs ?P bs)"
    by (simp add: xs(1) Un_assoc)
  ultimately show ?thesis by blast
qed

text \<open>The record the scan stands on is deleted; what is still in front of the scan stays.\<close>

lemma filter_less_upt: "filter (\<lambda>j. j < n) [k..<m] = [k..<min n m]"
  by (induction m) (auto simp: min_def le_Suc_eq)

lemma used_from_take:
  assumes "\<And>j. n \<le> j \<Longrightarrow> j < length ss \<Longrightarrow> ss ! j = None"
  shows "used_from (take n ss) k = used_from ss k"
proof -
  have "used_from ss k = filter (\<lambda>j. ss ! j \<noteq> None) (filter (\<lambda>j. j < n) [k..<length ss])"
    unfolding used_from_def filter_filter using assms by (intro filter_cong) (auto, metis not_less option.distinct(1))
  also have "\<dots> = used_from (take n ss) k" by (auto simp: filter_less_upt used_from_def min.commute intro!: filter_cong)
  finally show ?thesis by simp
qed

lemma page_recs_from_free:
  assumes "page_slots q = free_slot (page_slots p) k"
  shows "page_recs_from x q (Suc k) = page_recs_from x p (Suc k)"
proof -
  let ?ss = "(page_slots p)[k := None]"
  let ?n = "length (drop_empty_tail ?ss)"
  have q: "page_slots q = take ?n ?ss" unfolding assms free_slot_def by (rule drop_empty_tail_take)
  have tail: "?ss ! j = None" if "?n \<le> j" "j < length ?ss" for j
  proof -
    have "length (takeWhile (\<lambda>s. s = None) (rev ?ss)) + length (dropWhile (\<lambda>s. s = None) (rev ?ss)) = length ?ss"
      by (metis takeWhile_dropWhile_id length_append length_rev)
    then have "length ?ss - 1 - j < length (takeWhile (\<lambda>s. s = None) (rev ?ss))"
      using that by (simp add: drop_empty_tail_def)
    then have "takeWhile (\<lambda>s. s = None) (rev ?ss) ! (length ?ss - 1 - j) \<in> set (takeWhile (\<lambda>s. s = None) (rev ?ss))" by (rule nth_mem)
    then have "rev ?ss ! (length ?ss - 1 - j) = None"
      using takeWhile_nth [of "length ?ss - 1 - j" "\<lambda>s. s = None" "rev ?ss"] \<open>_ < length (takeWhile _ _)\<close>
        set_takeWhileD by metis
    then show ?thesis using that(2) by (simp add: rev_nth)
  qed
  have u: "used_from (page_slots q) (Suc k) = used_from ?ss (Suc k)" unfolding q by (rule used_from_take) (rule tail)
  have "used_from ?ss (Suc k) = used_from (page_slots p) (Suc k)" by (auto simp: used_from_def intro!: filter_cong)
  moreover have "page_slots q ! j = page_slots p ! j" if "j \<in> set (used_from (page_slots q) (Suc k))" for j
    using that q by (auto simp: used_from_def)
  ultimately show ?thesis using u by (simp add: page_recs_from_def)
qed

lemma scan_own_deleteRecord:
  assumes o: "scan_own s name h U B hdr xs rest" and m: "(curRec h, r) \<in> set (chain_recs (page_of s (filePtr h)) xs)" "pageNo (curRec h) = cur_pageNo h"
  obtains s' hdr' where "HeapFileScan_deleteRecord s h = Some (OK, s', h\<lparr>curDirtyFlag := True, hdrDirtyFlag := True\<rparr>)"
    "scan_own s' name (h\<lparr>curDirtyFlag := True, hdrDirtyFlag := True\<rparr>) U B hdr' xs rest" "apart name (filePtr h) s s'" "db_inv s'"
    "add_mset (curRec h, r) (mset (chain_recs (page_of s' (filePtr h)) xs)) = mset (chain_recs (page_of s (filePtr h)) xs)"
proof -
  let ?f = "filePtr h" and ?h = "h\<lparr>curDirtyFlag := True, hdrDirtyFlag := True\<rparr>"
  obtain x k ys where S: "own s name h U B hdr xs x" "page_chain (page_of s ?f) x (x # ys)" "slotNo (curRec h) = int k - 1"
    "scan_rest s ?f x k ys = rest"
    using o by (auto simp: scan_own_def)
  have at: "heap_at s h U B hdr xs x" using S(1) by (simp add: own_def)
  note H = heap_atD [OF at]
  have mx: "pageNo (curRec h) = x" using m(2) H(10) by simp
  obtain s' hdr' where D: "HeapFileScan_deleteRecord s h = Some (OK, s', ?h)" "heap_at s' ?h U B hdr' xs x"
    "add_mset (curRec h, r) (mset (chain_recs (page_of s' ?f) xs)) = mset (chain_recs (page_of s ?f) xs)"
    "\<And>g q. g \<noteq> ?f \<or> q \<notin> insert (headerPageNo h) (set xs) \<Longrightarrow> page_of s' g q = page_of s g q" "heap_kept B s h s' ?h"
    "\<And>y. y \<in> set xs \<Longrightarrow> y \<noteq> x \<Longrightarrow> page_of s' ?f y = page_of s ?f y"
    "page_slots (the (page_of s' ?f x)) = free_slot (page_slots (the (page_of s ?f x))) (nat (slotNo (curRec h)))"
    by (rule deleteRecord_spec [OF at m(1) mx]) (rule that)
  have inv: "db_inv s'" by (rule heap_atD(1) [OF D(2)])
  have a: "apart name ?f s s'" by (rule heap_kept_apart [OF at inv D(5)]) (simp add: D(4))
  obtain as bs where xs: "xs = as @ x # bs" "page_chain (page_of s ?f) x (x # bs)" by (rule heap_fileD [OF H(5,9)]) (rule that)
  have ys: "ys = bs" using page_chain_unique [OF S(2) xs(2)] by simp
  have dx: "distinct xs" using H(5) by (simp add: heap_file_def)
  have H2: "heap_file (page_of s' ?f) (headerPageNo h) hdr' xs" using heap_atD(5) [OF D(2)] by simp
  obtain as' bs' where xs': "xs = as' @ x # bs'" "page_chain (page_of s' ?f) x (x # bs')"
    by (rule heap_fileD [OF H2 H(9)]) (rule that)
  have nx: "x \<notin> set as" "x \<notin> set bs" using dx xs(1) by auto
  have "as @ x # bs = as' @ x # bs'" using xs(1) xs'(1) by simp
  then have "bs' = bs" by (simp add: append_Cons_eq_iff [OF nx])
  then have ch: "page_chain (page_of s' ?f) x (x # ys)" using xs'(2) ys by simp
  obtain j where "curRec h = \<lparr>pageNo = pageNo (curRec h), slotNo = int j\<rparr>" using m(1) by (auto simp: chain_recs_mem page_recs_mem)
  then have "slotNo (curRec h) = int j" by (metis RID.select_convs(2))
  then obtain k' where k: "k = Suc k'" "nat (slotNo (curRec h)) = k'" using S(3) by (cases k) simp_all
  have "page_of s' ?f y = page_of s ?f y" if "y \<in> set ys" for y using D(6) [of y] that xs(1) ys dx by auto
  then have "chain_recs (page_of s' ?f) ys = chain_recs (page_of s ?f) ys" by (auto simp: chain_recs_def intro!: arg_cong [where f = concat])
  moreover have "page_recs_from x (the (page_of s' ?f x)) k = page_recs_from x (the (page_of s ?f x)) k"
    unfolding k(1) by (rule page_recs_from_free) (use D(7) k(2) in simp)
  ultimately have "scan_rest s' ?f x k ys = rest" using S(4) by (simp add: scan_rest_def)
  then have "scan_own s' name ?h U B hdr' xs rest"
    unfolding scan_own_def using own_rest [OF S(1) D(2,5)] ch S(3) by auto
  then show thesis by (rule that [OF D(1) _ a inv D(3)])
qed

section \<open>Inserting\<close>

lemma InsertFileScan_new_own:
  assumes inv: "db_inv s" and st: "stored s name n recs" and room: "card (pinned s) + 2 \<le> numBufs s"
  obtains s' h U hdr xs where "InsertFileScan_new s name = Some (OK, Some h, s')" "own s' name h U (pin_of s) hdr xs (last xs)"
    "lay_size U = n" "chain_recs (page_of s' (filePtr h)) xs = recs" "apart name (filePtr h) s s'" "files s (filePtr h) = None"
proof -
  obtain s1 h U hdr xs where A: "HeapFile_new s name = Some (OK, Some h, s1)" "own s1 name h U (pin_of s) hdr xs (hd xs)"
    "lay_size U = n" "chain_recs (page_of s1 (filePtr h)) xs = recs" "apart name (filePtr h) s s1" "curRec h = NULLRID"
    "files s (filePtr h) = None"
    by (rule HeapFile_new_own [OF inv st room]) (rule that)
  have at: "heap_at s1 h U (pin_of s) hdr xs (hd xs)" using A(2) by (simp add: own_def)
  obtain s2 h2 where I: "InsertFileScan_new s name = Some (OK, Some h2, s2)" "heap_at s2 h2 U (pin_of s) hdr xs (last xs)"
    "page_of s2 = page_of s1" "filePtr h2 = filePtr h" "numBufs s2 = numBufs s1" "heap_kept (pin_of s) s1 h s2 h2"
    by (rule InsertFileScan_new_spec [OF A(1) at]) (rule that)
  have a: "apart name (filePtr h) s1 s2" by (rule heap_kept_apart [OF at heap_atD(1) [OF I(2)] I(6)]) (simp add: I(3))
  have "apart name (filePtr h) s s2"
    by (rule apart_trans [OF A(5) a]) (simp add: heap_atD(16) [OF at] hold_def)
  then show thesis using that [OF I(1) own_rest [OF A(2) I(2,6)] A(3)] A(4,7) I(3,4) by simp
qed

lemma insert_own:
  assumes o: "own s name h U B hdr xs (last xs)" and r: "r \<noteq> []" "length r \<le> 1000" and room: "card (pinned s) < numBufs s" "lay_size U < 2147483647"
  obtains rid s' h' U' hdr' xs' where "InsertFileScan_insertRecord s h r = Some (OK, Some rid, s', h')"
    "own s' name h' U' B hdr' xs' (last xs')" "filePtr h' = filePtr h" "apart name (filePtr h) s s'" "db_inv s'"
    "mset (chain_recs (page_of s' (filePtr h)) xs') = add_mset (rid, r) (mset (chain_recs (page_of s (filePtr h)) xs))"
    "lay_size U' \<le> Suc (lay_size U)"
proof -
  have at: "heap_at s h U B hdr xs (last xs)" using o by (simp add: own_def)
  note H = heap_atD [OF at]
  have pr: "pool_room s" by (rule pool_room_count) (use H(1) room in \<open>simp_all add: db_inv_def\<close>)
  obtain rid s' h' U' hdr' xs' where I: "InsertFileScan_insertRecord s h r = Some (OK, Some rid, s', h')"
    "heap_at s' h' U' B hdr' xs' (last xs')" "filePtr h' = filePtr h"
    "mset (chain_recs (page_of s' (filePtr h)) xs') = add_mset (rid, r) (mset (chain_recs (page_of s (filePtr h)) xs))"
    "\<And>g q. g \<noteq> filePtr h \<Longrightarrow> page_of s' g q = page_of s g q" "heap_kept B s h s' h'" "lay_size U' \<le> Suc (lay_size U)"
    by (rule insert_spec [OF at r size_room [OF H(2) room(2)] pr]) (rule that)
  have a: "apart name (filePtr h) s s'" by (rule heap_kept_apart [OF at heap_atD(1) [OF I(2)] I(6,5)])
  show thesis by (rule that [OF I(1) own_rest [OF o I(2,6)] I(3) a heap_atD(1) [OF I(2)] I(4,7)])
qed

section \<open>Several objects at work\<close>

text \<open>The pins of an object on top of those of the others.\<close>

definition with_obj :: "'h heapfile_scheme \<Rightarrow> (fptr \<Rightarrow> int \<Rightarrow> int) \<Rightarrow> fptr \<Rightarrow> int \<Rightarrow> int" where
  "with_obj h B = hold (filePtr h) (cur_pageNo h) (hold (filePtr h) (headerPageNo h) B)"

lemma with_obj_swap: "with_obj h (with_obj k B) = with_obj k (with_obj h B)"
  by (auto simp: with_obj_def hold_def fun_eq_iff)

lemma with_obj_other: "g \<noteq> filePtr h \<Longrightarrow> with_obj h B g q = B g q"
  by (simp add: with_obj_def hold_def)

lemma with_obj_nonneg: "(\<And>g q. 0 \<le> B g q) \<Longrightarrow> 0 \<le> with_obj h B g q"
  by (simp add: with_obj_def hold_def)

lemma own_pins:
  assumes "own s name h U B hdr xs x"
  shows "pin_of s = with_obj h B" "cur_pageNo h = x" "\<And>g q. 0 \<le> B g q" "\<And>q. B (filePtr h) q = 0" "db_inv s" "finite (busy B)"
proof -
  have at: "heap_at s h U B hdr xs x" and B: "\<And>q. B (filePtr h) q = 0" using assms by (simp_all add: own_def)
  note H = heap_atD [OF at]
  show p: "pin_of s = with_obj h B" "cur_pageNo h = x" "\<And>g q. 0 \<le> B g q" "\<And>q. B (filePtr h) q = 0" "db_inv s"
    using H(1,10,16,17) B by (simp_all add: with_obj_def)
  have "busy B \<subseteq> pinned s" unfolding p(1) with_obj_def busy_def by (auto intro: hold_pos)
  then show "finite (busy B)" using pool.busy_finite [OF p(5)] finite_subset by blast
qed

lemma busy_hold_card:
  assumes "finite (busy B)" "\<And>g q. 0 \<le> B g q"
  shows "finite (busy (hold f no B))" "card (busy (hold f no B)) \<le> Suc (card (busy B))"
  using assms by (simp_all add: busy_hold card_insert_if)

lemma busy_with_obj:
  assumes "finite (busy B)" "\<And>g q. 0 \<le> B g q"
  shows "finite (busy (with_obj h B))" "card (busy (with_obj h B)) \<le> card (busy B) + 2"
proof -
  note A = busy_hold_card [OF assms, of "filePtr h" "headerPageNo h"]
  note C = busy_hold_card [OF A(1) hold_nonneg [OF assms(2)], of "filePtr h" "cur_pageNo h"]
  show "finite (busy (with_obj h B))" "card (busy (with_obj h B)) \<le> card (busy B) + 2"
    using A C by (simp_all add: with_obj_def)
qed

lemma own_beside:
  assumes o: "own s name k V B hdr ys y" and a: "spared (filePtr k) s s'" and inv: "db_inv s'"
    and pins: "pin_of s' = with_obj k B'" and nn: "\<And>g q. 0 \<le> B' g q" and B': "\<And>q. B' (filePtr k) q = 0" "finite (busy B')"
    and room: "card (busy B') + 2 \<le> numBufs s"
  shows "own s' name k V B' hdr ys y"
proof -
  have "card (busy (hold (filePtr k) (headerPageNo k) B')) < numBufs s"
    using busy_hold_card(2) [OF B'(2) nn, of "filePtr k" "headerPageNo k"] room by simp
  then show ?thesis
    using own_spared [where B' = B', OF o a inv _ nn B'(1)] pins own_pins(2) [OF o] by (simp add: with_obj_def)
qed

lemma scan_own_pins:
  assumes "scan_own s name h U B hdr xs rest"
  shows "pin_of s = with_obj h B" "\<And>g q. 0 \<le> B g q" "\<And>q. B (filePtr h) q = 0" "db_inv s" "finite (busy B)"
proof -
  obtain x where x: "own s name h U B hdr xs x" using assms by (auto simp: scan_own_def)
  show "pin_of s = with_obj h B" "\<And>g q. 0 \<le> B g q" "\<And>q. B (filePtr h) q = 0" "db_inv s" "finite (busy B)"
    by (rule own_pins [OF x])+
qed

lemma scan_own_beside:
  assumes o: "scan_own s name k V B hdr ys rest" and a: "spared (filePtr k) s s'" and inv: "db_inv s'"
    and pins: "pin_of s' = with_obj k B'" and nn: "\<And>g q. 0 \<le> B' g q" and B': "\<And>q. B' (filePtr k) q = 0" "finite (busy B')"
    and room: "card (busy B') + 2 \<le> numBufs s"
  shows "scan_own s' name k V B' hdr ys rest"
proof -
  obtain x k' zs where S: "own s name k V B hdr ys x" "page_chain (page_of s (filePtr k)) x (x # zs)" "slotNo (curRec k) = int k' - 1"
    "scan_rest s (filePtr k) x k' zs = rest"
    using o by (auto simp: scan_own_def)
  have "own s' name k V B' hdr ys x" by (rule own_beside [OF S(1) a inv pins nn B' room])
  moreover have "page_of s' (filePtr k) = page_of s (filePtr k)" using a by (simp add: spared_def)
  ultimately show ?thesis unfolding scan_own_def using S(2-4) unfolding scan_rest_def by auto
qed

section \<open>Inserting into a closed file\<close>

text \<open>The three calls of an insertion into a relation that nobody has open.\<close>

lemma insert_stored:
  assumes inv: "db_inv s" and st: "stored s name n recs" and r: "r \<noteq> []" "length r \<le> 1000"
    and room: "card (pinned s) + 3 \<le> numBufs s" "n < 2147483647"
  obtains s1 h1 s2 h2 s3 rid n' new where "InsertFileScan_new s name = Some (OK, Some h1, s1)"
    "InsertFileScan_insertRecord s1 h1 r = Some (OK, Some rid, s2, h2)" "InsertFileScan_delete s2 h2 = Some s3"
    "db_inv s3" "stored s3 name n' new" "mset new = add_mset (rid, r) (mset recs)" "n' \<le> Suc n"
    "apart name (filePtr h1) s s3" "pin_of s3 = pin_of s" "files s (filePtr h1) = None"
proof -
  have room2: "card (pinned s) + 2 \<le> numBufs s" using room by simp
  obtain s1 h U hdr xs where A: "InsertFileScan_new s name = Some (OK, Some h, s1)" "own s1 name h U (pin_of s) hdr xs (last xs)"
    "lay_size U = n" "chain_recs (page_of s1 (filePtr h)) xs = recs" "apart name (filePtr h) s s1" "files s (filePtr h) = None"
    by (rule InsertFileScan_new_own [OF inv st room2]) (rule that)
  note p1 = own_pins(1) [OF A(2)]
  have nn: "\<And>g q. 0 \<le> pin_of s g q" by (rule own_pins(3) [OF A(2)])
  have "card (pinned s1) \<le> card (pinned s) + 2"
    using busy_with_obj(2) [where h = h, OF pool.busy_finite [OF inv] nn] p1 by simp
  then have r1: "card (pinned s1) < numBufs s1" "lay_size U < 2147483647" using room apartD(1) [OF A(5)] A(3) by simp_all
  obtain rid s2 h2 U' hdr' xs' where I: "InsertFileScan_insertRecord s1 h r = Some (OK, Some rid, s2, h2)"
    "own s2 name h2 U' (pin_of s) hdr' xs' (last xs')" "filePtr h2 = filePtr h" "apart name (filePtr h) s1 s2" "db_inv s2"
    "mset (chain_recs (page_of s2 (filePtr h)) xs') = add_mset (rid, r) (mset (chain_recs (page_of s1 (filePtr h)) xs))"
    "lay_size U' \<le> Suc (lay_size U)"
    by (rule insert_own [OF A(2) r r1]) (rule that)
  obtain s3 where D: "InsertFileScan_delete s2 h2 = Some s3" "db_inv s3" "apart name (filePtr h2) s2 s3" "pin_of s3 = pin_of s"
    "stored s3 name (lay_size U') (chain_recs (page_of s2 (filePtr h2)) xs')"
    by (rule InsertFileScan_delete_own [OF I(2)]) (rule that)
  have p2: "pin_of s2 g q = pin_of s g q" "pin_of s1 g q = pin_of s g q" if "g \<noteq> filePtr h" for g q
    using that own_pins(1) [OF I(2)] p1 I(3) by (simp_all add: with_obj_other)
  have a13: "apart name (filePtr h) s1 s3"
    by (rule apart_trans [OF I(4) D(3) [unfolded I(3)]]) (simp add: p2)
  have a: "apart name (filePtr h) s s3" by (rule apart_trans [OF A(5) a13]) (rule p2(2))
  show thesis by (rule that [OF A(1) I(1) D(1,2,5) _ _ a D(4) A(6)]) (use A(3,4) I(3,6,7) in simp_all)
qed

end
