(* ===== verification/Cstring.thy ===== *)
theory Cstring
  imports HeapFile
begin

text \<open>
  What the upper layers use of the C library: strings in memory (NUL-terminated), the
  conversions atoi and atof, and the printf conversions %d, %s, %f with widths and precisions.
  A double or a float is a rational number m * 2^q, rounded to nearest with ties to even; a
  float is kept as its 32 bits. A NaN written with a payload is read as the default NaN.
\<close>

section \<open>Strings in memory\<close>

definition bytes_of :: "string \<Rightarrow> byte list" where
  "bytes_of s = map of_char s"

definition string_of :: "byte list \<Rightarrow> string" where
  "string_of bs = map (\<lambda>b. char_of (unat b)) bs"

text \<open>The string at the start of some bytes: up to the first NUL.\<close>

definition c_string :: "byte list \<Rightarrow> string" where
  "c_string bs = string_of (takeWhile (\<lambda>b. b \<noteq> 0) bs)"

text \<open>The memory behind c_str(); a filter and a value are passed as such pointers. What lies
  behind the terminator is \<open>junk\<close>.\<close>

definition c_mem :: "mem \<Rightarrow> string \<Rightarrow> mem" where
  "c_mem junk s = (\<lambda>x. if x = int (length s) then 0
                        else if 0 \<le> x \<and> x < int (length s) then of_char (s ! nat x) else junk x)"

definition int_bytes :: "int \<Rightarrow> byte list" where
  "int_bytes v = [word_of_int v, word_of_int (v div 256), word_of_int (v div 65536), word_of_int (v div 16777216)]"

definition int_mem :: "mem \<Rightarrow> int \<Rightarrow> mem" where
  "int_mem junk v = wr_int junk 0 v"

lemma rd_int_of_bytes: "rd_int (bytes_mem (int_bytes v @ bs)) 0 = wrap32 v"
proof -
  let ?m = "bytes_mem (int_bytes v @ bs)" and ?w = "wr_int zero_mem 0 v"
  have "?m 0 = ?w 0" "?m 1 = ?w 1" "?m 2 = ?w 2" "?m 3 = ?w 3"
    by (simp_all add: wr_int_def bytes_mem_def int_bytes_def)
  then have "rd_int ?m 0 = rd_int ?w 0" by (simp only: rd_int_def add_0)
  then show ?thesis by (simp add: mem_simps)
qed

lemma string_of_bytes [simp]: "string_of (bytes_of s) = s"
proof -
  have "char_of (unat (of_char c :: byte)) = c" for c
  proof -
    have "unat (of_char c :: byte) = of_char c"
      by (cases c) (simp add: of_char_def unat_word_ariths unat_of_nat Let_def)
    then show ?thesis by simp
  qed
  then show ?thesis by (simp add: string_of_def bytes_of_def comp_def)
qed

subsection \<open>Comparison\<close>

lemma rd_bytes_Suc: "rd_bytes m a (Suc n) = m a # rd_bytes m (a + 1) n"
  by (simp add: rd_bytes_def upt_rec [of 0] map_Suc_upt [symmetric] del: upt_Suc) (simp add: algebra_simps)

lemma strncmp_0:
  "strncmp m a m' b n = 0 \<longleftrightarrow>
     takeWhile (\<lambda>b. b \<noteq> 0) (rd_bytes m a n) = takeWhile (\<lambda>b. b \<noteq> 0) (rd_bytes m' b n)"
proof (induction n arbitrary: a b)
  case (Suc n)
  have "m a \<noteq> m' b \<Longrightarrow> uint (m a) - uint (m' b) \<noteq> 0" by (simp add: word_uint_eq_iff)
  then show ?case using Suc by (auto simp: rd_bytes_Suc)
qed (simp add: rd_bytes_def)

lemma rd_bytes_take: "n \<le> length bs \<Longrightarrow> rd_bytes (bytes_mem bs) 0 n = take n bs"
  by (rule nth_equalityI) (auto simp: rd_bytes_def bytes_mem_def)

lemma rd_bytes_mem: "length bs = n \<Longrightarrow> rd_bytes (bytes_mem bs) 0 n = bs"
  by (simp add: rd_bytes_take)

section \<open>Numbers as text\<close>

definition digit_char :: "nat \<Rightarrow> char" where
  "digit_char n = char_of (48 + n)"

definition is_digit :: "char \<Rightarrow> bool" where
  "is_digit c \<longleftrightarrow> 48 \<le> (of_char c :: nat) \<and> (of_char c :: nat) \<le> 57"

definition digit_val :: "char \<Rightarrow> nat" where
  "digit_val c = of_char c - 48"

function dec_nat :: "int \<Rightarrow> string" where
  "dec_nat n = (if n < 10 then [digit_char (nat n)] else dec_nat (n div 10) @ [digit_char (nat (n mod 10))])"
  by pat_completeness auto
termination by (relation "measure nat") auto

declare dec_nat.simps [simp del]

text \<open>The conversion %d.\<close>

definition dec_int :: "int \<Rightarrow> string" where
  "dec_int i = (if i < 0 then CHR ''-'' # dec_nat (- i) else dec_nat i)"

fun digits_val :: "int \<Rightarrow> string \<Rightarrow> int" where
  "digits_val acc [] = acc"
| "digits_val acc (c # cs) = digits_val (10 * acc + int (digit_val c)) cs"

definition is_space :: "char \<Rightarrow> bool" where
  "is_space c \<longleftrightarrow> c = CHR '' '' \<or> (9 \<le> (of_char c :: nat) \<and> (of_char c :: nat) \<le> 13)"

definition split_sign :: "string \<Rightarrow> int \<times> string" where
  "split_sign s = (case s of
      CHR ''-'' # r \<Rightarrow> (-1, r)
    | CHR ''+'' # r \<Rightarrow> (1, r)
    | _ \<Rightarrow> (1, s))"

text \<open>atoi is strtol, which saturates at the bounds of long, converted to int.\<close>

definition atoi :: "string \<Rightarrow> int" where
  "atoi s = (let (sign, r) = split_sign (dropWhile is_space s);
                 v = sign * (digits_val 0 (takeWhile is_digit r))
             in wrap32 (max (- (2 ^ 63)) (min (2 ^ 63 - 1) v)))"

lemma of_digit_char: "n < 10 \<Longrightarrow> (of_char (digit_char n) :: nat) = 48 + n"
  by (simp add: digit_char_def of_char_of)

lemma digit_char_simps [simp]:
  "n < 10 \<Longrightarrow> is_digit (digit_char n)" "n < 10 \<Longrightarrow> digit_val (digit_char n) = n"
  by (simp_all add: is_digit_def digit_val_def of_digit_char)

lemma digits_val_append: "digits_val acc (xs @ ys) = digits_val (digits_val acc xs) ys"
  by (induction acc xs rule: digits_val.induct) simp_all

lemma dec_nat_digits: "0 \<le> n \<Longrightarrow> list_all is_digit (dec_nat n) \<and> dec_nat n \<noteq> [] \<and> digits_val 0 (dec_nat n) = n"
proof (induction n rule: dec_nat.induct)
  case (1 n)
  show ?case
  proof (cases "n < 10")
    case True
    then have "nat n < 10" using 1 by simp
    then show ?thesis using True 1 by (simp add: dec_nat.simps [of n])
  next
    case False
    have "nat (n mod 10) < 10" by simp
    then show ?thesis using 1(1) [OF False] 1(2) False
      by (simp add: dec_nat.simps [of n] digits_val_append)
  qed
qed

lemma takeWhile_all: "list_all P xs \<Longrightarrow> takeWhile P xs = xs"
  by (induction xs) simp_all

lemma dec_nat_take [simp]: "0 \<le> n \<Longrightarrow> takeWhile is_digit (dec_nat n) = dec_nat n"
  by (rule takeWhile_all) (use dec_nat_digits in blast)

lemma digit_facts:
  assumes "is_digit c"
  shows "\<not> is_space c" "c \<noteq> CHR ''-''" "c \<noteq> CHR ''+''" "c \<noteq> CHR ''.''"
  using assms by (auto simp: is_digit_def is_space_def)

lemma dec_nat_hd:
  assumes "0 \<le> n"
  shows "dropWhile is_space (dec_nat n) = dec_nat n" "split_sign (dec_nat n) = (1, dec_nat n)"
proof -
  obtain c cs where c: "dec_nat n = c # cs" "is_digit c"
    using dec_nat_digits [OF assms] by (cases "dec_nat n") simp_all
  note D = digit_facts [OF c(2)]
  show "dropWhile is_space (dec_nat n) = dec_nat n" using c D by simp
  show "split_sign (dec_nat n) = (1, dec_nat n)"
    unfolding c(1) split_sign_def using D by (auto split: char.splits bool.splits)
qed

lemma atoi_dec:
  assumes "- (2 ^ 31) \<le> i" "i < 2 ^ 31"
  shows "atoi (dec_int i) = i"
proof -
  note D = dec_nat_digits dec_nat_hd
  have "is_space CHR ''-'' = False" by (simp add: is_space_def)
  moreover have "split_sign (CHR ''-'' # r) = (-1, r)" for r by (simp add: split_sign_def)
  ultimately show ?thesis using assms D by (simp add: atoi_def dec_int_def Let_def)
qed

section \<open>Binary rounding\<close>

text \<open>The quotient rounded to the nearest integer, ties to even.\<close>

definition round_even :: "int \<Rightarrow> int \<Rightarrow> int" where
  "round_even n d = (let q = n div d; r = n mod d
                     in if 2 * r < d \<or> 2 * r = d \<and> even q then q else q + 1)"

function bit_len :: "int \<Rightarrow> int" where
  "bit_len n = (if n \<le> 0 then 0 else 1 + bit_len (n div 2))"
  by pat_completeness auto
termination by (relation "measure nat") auto

declare bit_len.simps [simp del]

text \<open>n / d = m * 2^q with p bits of m, or as many as the least exponent emin leaves.\<close>

definition round_bin :: "int \<Rightarrow> int \<Rightarrow> int \<Rightarrow> int \<Rightarrow> int \<times> int" where
  "round_bin p emin n d =
     (let e0 = bit_len n - bit_len d;
          ge = (if e0 \<ge> 0 then n \<ge> d * 2 ^ nat e0 else n * 2 ^ nat (- e0) \<ge> d);
          e = (if ge then e0 else e0 - 1);
          q = max (e - p + 1) emin
      in (if q \<ge> 0 then round_even n (d * 2 ^ nat q) else round_even (n * 2 ^ nat (- q)) d, q))"

definition frac_of :: "int \<Rightarrow> int \<Rightarrow> int \<Rightarrow> int \<times> int" where
  "frac_of m q b = (if q \<ge> 0 then (m * b ^ nat q, 1) else (m, b ^ nat (- q)))"

text \<open>The bits of the float nearest to the double that is nearest to n / d.\<close>

definition float_bits :: "bool \<Rightarrow> int \<Rightarrow> int \<Rightarrow> int" where
  "float_bits neg n d =
     (let (m, q) = round_bin 53 (-1074) n d;
          (dn, dd) = frac_of m q 2;
          (fm, fq) = round_bin 24 (-149) dn dd;
          bits = (if dn = 0 then 0 else (fq + 149) * 2 ^ 23 + fm);
          bits = (if bits \<ge> 255 * 2 ^ 23 \<or> dn \<ge> dd * 2 ^ 1024 then 255 * 2 ^ 23 else bits)
      in wrap32 ((if neg then 2 ^ 31 else 0) + bits))"

text \<open>Arithmetic on floats in units of 2^-149: rounding to 24 bits, and the conversion to int, which
  is undefined for NaN, infinity and values out of range.\<close>

definition fl_round :: "int \<Rightarrow> fval" where
  "fl_round k =
     (let (m, q) = round_bin 24 (-149) \<bar>k\<bar> (2 ^ 149);
          v = m * 2 ^ nat (q + 149)
      in if v \<ge> 2 ^ 277 then Infinite (sgn k) else Finite (sgn k * v))"

definition fl_to_int :: "fval \<Rightarrow> int option" where
  "fl_to_int x =
     (case x of
        Finite k \<Rightarrow> (let v = sgn k * (\<bar>k\<bar> div 2 ^ 149) in if - (2 ^ 31) \<le> v \<and> v < 2 ^ 31 then Some v else None)
      | _ \<Rightarrow> None)"

definition fl_scale :: "fval \<Rightarrow> int \<Rightarrow> fval" where
  "fl_scale x n =
     (case fl_round (n * 2 ^ 149) of
        Finite k \<Rightarrow>
          (case x of
             Finite a \<Rightarrow> fl_round (a * (k div 2 ^ 149))
           | Infinite b \<Rightarrow> if k = 0 then NotANumber else Infinite (b * sgn k)
           | NotANumber \<Rightarrow> NotANumber)
      | _ \<Rightarrow> NotANumber)"

definition nan_bits :: "bool \<Rightarrow> int" where
  "nan_bits neg = wrap32 ((if neg then 2 ^ 31 else 0) + 255 * 2 ^ 23 + 2 ^ 22)"

definition inf_bits :: "bool \<Rightarrow> int" where
  "inf_bits neg = wrap32 ((if neg then 2 ^ 31 else 0) + 255 * 2 ^ 23)"

section \<open>atof\<close>

definition to_lower :: "char \<Rightarrow> char" where
  "to_lower c = (if 65 \<le> (of_char c :: nat) \<and> (of_char c :: nat) \<le> 90 then char_of ((of_char c :: nat) + 32) else c)"

definition has_prefix :: "string \<Rightarrow> string \<Rightarrow> bool" where
  "has_prefix p s \<longleftrightarrow> take (length p) (map to_lower s) = p"

definition is_hex :: "char \<Rightarrow> bool" where
  "is_hex c \<longleftrightarrow> is_digit c \<or> to_lower c \<in> set ''abcdef''"

definition hex_val :: "char \<Rightarrow> nat" where
  "hex_val c = (if is_digit c then digit_val c else of_char (to_lower c) - 87)"

text \<open>The digits of a number with an optional point: the digits, how many of them follow the
  point, and the rest.\<close>

definition point_digits :: "(char \<Rightarrow> bool) \<Rightarrow> string \<Rightarrow> string \<times> nat \<times> string" where
  "point_digits dig s =
     (let a = takeWhile dig s; r = dropWhile dig s
      in case r of
           CHR ''.'' # r' \<Rightarrow> (a @ takeWhile dig r', length (takeWhile dig r'), dropWhile dig r')
         | _ \<Rightarrow> (a, 0, r))"

text \<open>An exponent introduced by the given letter; 0 when there is none.\<close>

definition exponent :: "char \<Rightarrow> string \<Rightarrow> int" where
  "exponent e s =
     (case s of [] \<Rightarrow> 0
      | c # r \<Rightarrow> if to_lower c \<noteq> e then 0
                 else let (sign, r) = split_sign r in sign * (digits_val 0 (takeWhile is_digit r)))"

definition strtod_bits :: "bool \<Rightarrow> string \<Rightarrow> int" where
  "strtod_bits neg s =
     (if has_prefix ''inf'' s then inf_bits neg
      else if has_prefix ''nan'' s then nan_bits neg
      else
        let (hs, hn, hr) = point_digits is_hex (drop 2 s)
        in if has_prefix ''0x'' s \<and> hs \<noteq> [] then
             let m = foldl (\<lambda>a c. 16 * a + int (hex_val c)) 0 hs;
                 (n, d) = frac_of m (exponent (CHR ''p'') hr - 4 * int hn) 2
             in float_bits neg n d
           else
             let (ds, k, r) = point_digits is_digit s;
                 m = digits_val 0 ds;
                 (n, d) = frac_of m ((if ds = [] then 0 else exponent (CHR ''e'') r) - int k) 10
             in float_bits neg n d)"

text \<open>(float) atof(s): the bits of the float.\<close>

definition atof :: "string \<Rightarrow> int" where
  "atof s = (let (sign, r) = split_sign (dropWhile is_space s) in strtod_bits (sign < 0) r)"

section \<open>printf\<close>

text \<open>The conversion %.Pf of the float with the given bits, exact and rounded to even.\<close>

definition fixed :: "nat \<Rightarrow> int \<Rightarrow> string" where
  "fixed prec bits =
     (let neg = (bits < 0);
          body = (case rd_float (wr_int zero_mem 0 bits) 0 of
                    NotANumber \<Rightarrow> ''nan''
                  | Infinite _ \<Rightarrow> ''inf''
                  | Finite k \<Rightarrow>
                      let n = round_even (\<bar>k\<bar> * 10 ^ prec) (2 ^ 149);
                          f = dec_nat (n mod 10 ^ prec)
                      in dec_nat (n div 10 ^ prec) @
                         (if prec = 0 then [] else CHR ''.'' # replicate (prec - length f) (CHR ''0'') @ f))
      in (if neg then CHR ''-'' # body else body))"

definition pad_left :: "nat \<Rightarrow> string \<Rightarrow> string" where
  "pad_left w s = replicate (w - length s) (CHR '' '') @ s"

definition pad_right :: "nat \<Rightarrow> string \<Rightarrow> string" where
  "pad_right w s = s @ replicate (w - length s) (CHR '' '')"

text \<open>The conversion %.Ps of a pointer: at most P bytes, up to a NUL.\<close>

definition prec_string :: "nat \<Rightarrow> mem \<Rightarrow> int \<Rightarrow> string" where
  "prec_string p m a = c_string (rd_bytes m a p)"

definition newline :: string where "newline = [CHR 0x0A]"

definition quote_mark :: string where "quote_mark = [CHR 0x22]"

end
