(* ===== verification/ErrorText.thy ===== *)
theory ErrorText
  imports Cstring
begin

text \<open>
  The class Error (error.C): the message that print writes to cerr for a status, and the numbers
  of the status codes. OK is 0; the others count up from -999 in the order of the enum.
\<close>

definition status_list :: "Status list" where
  "status_list =
    [NOTUSED1, BADFILEPTR, BADFILE, FILETABFULL, FILEOPEN, FILENOTOPEN, UNIXERR, BADPAGEPTR, BADPAGENO,
     FILEEXISTS, HASHTBLERROR, HASHNOTFOUND, BUFFEREXCEEDED, PAGENOTPINNED, BADBUFFER, PAGEPINNED,
     NOSPACE, NORECORDS, ENDOFPAGE, INVALIDSLOTNO, INVALIDRECLEN, BADRID, BADRECPTR, BADSCANPARM,
     BADSCANID, SCANTABFULL, FILEEOF, FILEHDRFULL, BADINDEXPARM, RECNOTFOUND, BUCKETFULL, DIROVERFLOW,
     NONUNIQUEENTRY, NOMORERECS, BADSORTPARM, INSUFMEM, BADCATPARM, RELNOTFOUND, ATTRNOTFOUND,
     NAMETOOLONG, DUPLATTR, RELEXISTS, NOINDEX, INDEXEXISTS, ATTRTOOLONG, ATTRTYPEMISMATCH,
     TMP_RES_EXISTS, NOTUSED2]"

definition status_code :: "Status \<Rightarrow> int" where
  "status_code st = (if st = OK then 0 else -999 + int (length (takeWhile (\<lambda>x. x \<noteq> st) status_list)))"

definition error_text :: "Status \<Rightarrow> string option" where
  "error_text st = (case st of
      OK \<Rightarrow> Some ''no error''
    | BADFILEPTR \<Rightarrow> Some ''bad file pointer'' | BADFILE \<Rightarrow> Some ''bad filename''
    | FILETABFULL \<Rightarrow> Some ''open file table full'' | FILEOPEN \<Rightarrow> Some ''file open''
    | FILENOTOPEN \<Rightarrow> Some ''file not open'' | UNIXERR \<Rightarrow> Some ''Unix error''
    | BADPAGEPTR \<Rightarrow> Some ''bad page pointer'' | BADPAGENO \<Rightarrow> Some ''bad page number''
    | FILEEXISTS \<Rightarrow> Some ''file exists already''
    | HASHTBLERROR \<Rightarrow> Some ''hash table error'' | HASHNOTFOUND \<Rightarrow> Some ''hash entry not found''
    | BUFFEREXCEEDED \<Rightarrow> Some ''buffer pool full'' | PAGENOTPINNED \<Rightarrow> Some ''page not pinned''
    | BADBUFFER \<Rightarrow> Some ''buffer pool corrupted'' | PAGEPINNED \<Rightarrow> Some ''page still pinned''
    | NOSPACE \<Rightarrow> Some ''no space on page for record'' | NORECORDS \<Rightarrow> Some ''page is empty - no records''
    | ENDOFPAGE \<Rightarrow> Some ''last record on page'' | INVALIDSLOTNO \<Rightarrow> Some ''invalid slot number''
    | INVALIDRECLEN \<Rightarrow> Some ''specified record length <= 0''
    | BADRID \<Rightarrow> Some ''bad record id'' | BADRECPTR \<Rightarrow> Some ''bad record pointer''
    | BADSCANPARM \<Rightarrow> Some ''bad scan parameter'' | SCANTABFULL \<Rightarrow> Some ''scan table full''
    | FILEEOF \<Rightarrow> Some ''end of file encountered'' | FILEHDRFULL \<Rightarrow> Some ''heapfile hdear page is full''
    | BADINDEXPARM \<Rightarrow> Some ''bad index parameter'' | RECNOTFOUND \<Rightarrow> Some ''no such record''
    | BUCKETFULL \<Rightarrow> Some ''bucket full'' | DIROVERFLOW \<Rightarrow> Some ''directory is full''
    | NONUNIQUEENTRY \<Rightarrow> Some ''nonunique entry'' | NOMORERECS \<Rightarrow> Some ''no more records''
    | BADSORTPARM \<Rightarrow> Some ''bad sort parameter'' | INSUFMEM \<Rightarrow> Some ''insufficient memory''
    | BADCATPARM \<Rightarrow> Some ''bad catalog parameter'' | RELNOTFOUND \<Rightarrow> Some ''relation not in catalog''
    | ATTRNOTFOUND \<Rightarrow> Some ''attribute not in catalog'' | NAMETOOLONG \<Rightarrow> Some ''name too long''
    | ATTRTOOLONG \<Rightarrow> Some ''attributes too long'' | DUPLATTR \<Rightarrow> Some ''duplicate attribute names''
    | RELEXISTS \<Rightarrow> Some ''relation exists already'' | NOINDEX \<Rightarrow> Some ''no index exists''
    | ATTRTYPEMISMATCH \<Rightarrow> Some ''attribute type mismatch''
    | TMP_RES_EXISTS \<Rightarrow> Some ''temp result already exists'' | INDEXEXISTS \<Rightarrow> Some ''index exists already''
    | _ \<Rightarrow> None)"

definition Error_print :: "Status \<Rightarrow> string" where
  "Error_print st =
     ''Error: '' @
     (case error_text st of
        Some t \<Rightarrow> t
      | None \<Rightarrow> ''undefined error status: '' @ dec_int (status_code st)) @ newline"

end
