(* ===== verification/Catalog.thy ===== *)
theory Catalog
  imports ErrorText
begin

text \<open>
  The catalogs (catalog.h, catalog.C, create.C, destroy.C): the relation catalog relcat and the
  attribute catalog attrcat are heap files of fixed-size records, read through filtered scans
  and written through insert scans. The state of the program extends the open files by the two
  catalog objects and by what has been written to the terminal. None stands for undefined
  behaviour, a failed assert or a loop that does not end. Names are C strings, without NUL.
\<close>

section \<open>The state of the program\<close>

text \<open>\<open>junk\<close> is what memory holds behind an object, read when the code reads too far;
  \<open>data_files\<close> are the Unix files that are not database files.\<close>

record minirel = db +
  relCat :: heapfile
  attrCat :: heapfile
  out :: string
  err :: string
  junk :: mem
  data_files :: "string \<Rightarrow> byte list option"

definition put_out :: "'z minirel_scheme \<Rightarrow> string \<Rightarrow> 'z minirel_scheme" where
  "put_out s t = s\<lparr>out := out s @ t\<rparr>"

definition put_err :: "'z minirel_scheme \<Rightarrow> string \<Rightarrow> 'z minirel_scheme" where
  "put_err s t = s\<lparr>err := err s @ t\<rparr>"

section \<open>Descriptors\<close>

definition RELCATNAME :: string where "RELCATNAME = ''relcat''"
definition ATTRCATNAME :: string where "ATTRCATNAME = ''attrcat''"
definition MAXNAME :: nat where "MAXNAME = 32"

record RelDesc =
  rd_relName :: string
  rd_attrCnt :: int

record AttrDesc =
  ad_relName :: string
  ad_attrName :: string
  ad_attrOffset :: int
  ad_attrType :: int
  ad_attrLen :: int

record attrInfo =
  ai_relName :: string
  ai_attrName :: string
  ai_attrType :: int
  ai_attrLen :: int
  ai_attrValue :: "string option"

text \<open>The value of an attribute is the text that value_of has put into memory of its own. The integer
  values of the enums:\<close>

definition type_code :: "Datatype \<Rightarrow> int" where
  "type_code t = (case t of STRING \<Rightarrow> 0 | INTEGER \<Rightarrow> 1 | FLOAT \<Rightarrow> 2)"

definition type_of_code :: "int \<Rightarrow> Datatype option" where
  "type_of_code i = (if i = 0 then Some STRING else if i = 1 then Some INTEGER else if i = 2 then Some FLOAT else None)"

text \<open>A name field: the bytes behind the name are cleared by addInfo. A name that fills the
  field has no terminator; strlen would run on behind it: undefined.\<close>

definition name_bytes :: "string \<Rightarrow> byte list option" where
  "name_bytes n = (if length n < MAXNAME then Some (bytes_of n @ replicate (MAXNAME - length n) 0) else None)"

definition bytes_name :: "byte list \<Rightarrow> string option" where
  "bytes_name bs = (if 0 \<in> set bs then Some (c_string bs) else None)"

definition RelDesc_bytes :: "RelDesc \<Rightarrow> byte list option" where
  "RelDesc_bytes rd = do {
     n \<leftarrow> name_bytes (rd_relName rd);
     Some (n @ int_bytes (rd_attrCnt rd)) }"

definition bytes_RelDesc :: "byte list \<Rightarrow> RelDesc option" where
  "bytes_RelDesc bs =
     (if length bs \<noteq> 36 then None else do {
        n \<leftarrow> bytes_name (take 32 bs);
        Some \<lparr>rd_relName = n, rd_attrCnt = rd_int (bytes_mem bs) 32\<rparr> })"

definition AttrDesc_bytes :: "AttrDesc \<Rightarrow> byte list option" where
  "AttrDesc_bytes ad = do {
     r \<leftarrow> name_bytes (ad_relName ad);
     a \<leftarrow> name_bytes (ad_attrName ad);
     Some (r @ a @ int_bytes (ad_attrOffset ad) @ int_bytes (ad_attrType ad) @ int_bytes (ad_attrLen ad)) }"

definition bytes_AttrDesc :: "byte list \<Rightarrow> AttrDesc option" where
  "bytes_AttrDesc bs =
     (if length bs \<noteq> 76 then None else do {
        r \<leftarrow> bytes_name (take 32 bs);
        a \<leftarrow> bytes_name (take 32 (drop 32 bs));
        Some \<lparr>ad_relName = r, ad_attrName = a, ad_attrOffset = rd_int (bytes_mem bs) 64,
              ad_attrType = rd_int (bytes_mem bs) 68, ad_attrLen = rd_int (bytes_mem bs) 72\<rparr> })"

text \<open>The scan all lookups start with: the records whose relation name is the given one.\<close>

definition startScan_rel :: "filescan \<Rightarrow> string \<Rightarrow> Status \<times> filescan" where
  "startScan_rel hfs relation =
     HeapFileScan_startScan hfs 0 (int (length relation) + 1) STRING (Some (c_mem zero_mem relation)) EQ"

section \<open>RelCatalog\<close>

text \<open>The result holds the record that was copied to the out parameter, if one was.\<close>

definition RelCatalog_getInfo :: "'z db_scheme \<Rightarrow> string \<Rightarrow> (Status \<times> RelDesc option \<times> 'z db_scheme) option" where
  "RelCatalog_getInfo s relation =
     (if relation = [] then Some (BADCATPARM, None, s) else do {
      (st, hfs, s) \<leftarrow> HeapFileScan_new s RELCATNAME;
      if st \<noteq> OK then Some (st, None, s) else do {
      hfs \<leftarrow> hfs;
      let (st, hfs) = startScan_rel hfs relation;
      if st \<noteq> OK then do { s \<leftarrow> HeapFileScan_delete s hfs; Some (st, None, s) } else do {
      (st, rid, s, hfs) \<leftarrow> HeapFileScan_scanNext s hfs;
      (ret, st, rd) \<leftarrow>
        (if st = FILEEOF then Some (False, RELNOTFOUND, None)
         else if st = OK then do {
           (st, rec) \<leftarrow> HeapFileScan_getRecord s hfs;
           if st \<noteq> OK then Some (True, st, None) else do {
             rec \<leftarrow> rec;
             rd \<leftarrow> bytes_RelDesc rec;
             Some (False, OK, Some rd) } }
         else Some (False, st, None));
      if ret then Some (st, rd, s) else do {
      (nextStatus, s, hfs) \<leftarrow> HeapFileScan_endScan s hfs;
      s \<leftarrow> HeapFileScan_delete s hfs;
      Some (if st = OK then nextStatus else st, rd, s) }}}})"

definition RelCatalog_addInfo :: "'z db_scheme \<Rightarrow> RelDesc \<Rightarrow> (Status \<times> 'z db_scheme) option" where
  "RelCatalog_addInfo s rd = do {
     (st, ifs, s) \<leftarrow> InsertFileScan_new s RELCATNAME;
     if st \<noteq> OK then Some (st, s) else do {
     ifs \<leftarrow> ifs;
     rec \<leftarrow> RelDesc_bytes rd;
     (st, _, s, ifs) \<leftarrow> InsertFileScan_insertRecord s ifs rec;
     s \<leftarrow> InsertFileScan_delete s ifs;
     Some (st, s) }}"

text \<open>
  The scan is deleted before endScan is called on it. The destructor has left a null curPage in
  the object, so that the late call finds nothing to unpin as long as the memory is not reused.
\<close>

definition RelCatalog_removeInfo :: "'z db_scheme \<Rightarrow> string \<Rightarrow> (Status \<times> 'z db_scheme) option" where
  "RelCatalog_removeInfo s relation =
     (if relation = [] then Some (BADCATPARM, s) else do {
      (st, hfs, s) \<leftarrow> HeapFileScan_new s RELCATNAME;
      if st \<noteq> OK then Some (st, s) else do {
      hfs \<leftarrow> hfs;
      let (st, hfs) = startScan_rel hfs relation;
      if st \<noteq> OK then do { s \<leftarrow> HeapFileScan_delete s hfs; Some (st, s) } else do {
      (st, rid, s, hfs) \<leftarrow> HeapFileScan_scanNext s hfs;
      let st = (if st = FILEEOF then RELNOTFOUND else st);
      (st, s, hfs) \<leftarrow> (if st = OK then HeapFileScan_deleteRecord s hfs else Some (st, s, hfs));
      s \<leftarrow> HeapFileScan_delete s hfs;
      (_, s, _) \<leftarrow> HeapFileScan_endScan s (hfs\<lparr>curPage := Null\<rparr>);
      Some (if st = NORECORDS then OK else st, s) }}})"

section \<open>AttrCatalog\<close>

text \<open>
  The loop that looks for an attribute. The flag tells a return from inside the loop, which
  leaves the scan open, from the end of the loop; the record is the last one copied.
\<close>

partial_function (option) attr_find_loop ::
  "'z db_scheme \<Rightarrow> filescan \<Rightarrow> string \<Rightarrow> AttrDesc option
     \<Rightarrow> (bool \<times> Status \<times> AttrDesc option \<times> 'z db_scheme \<times> filescan) option" where
  "attr_find_loop s hfs attrName record =
     Option.bind (HeapFileScan_scanNext s hfs) (\<lambda>(st, rid, s, hfs).
       if st \<noteq> OK then Some (False, st, record, s, hfs)
       else Option.bind (HeapFileScan_getRecord s hfs) (\<lambda>(st, rec).
         if st \<noteq> OK then Some (True, st, record, s, hfs)
         else Option.bind rec (\<lambda>rec. Option.bind (bytes_AttrDesc rec) (\<lambda>ad.
           if ad_attrName ad = attrName then Some (False, OK, Some ad, s, hfs)
           else attr_find_loop s hfs attrName (Some ad)))))"

definition AttrCatalog_getInfo ::
  "'z db_scheme \<Rightarrow> string \<Rightarrow> string \<Rightarrow> (Status \<times> AttrDesc option \<times> 'z db_scheme) option" where
  "AttrCatalog_getInfo s relation attrName =
     (if relation = [] \<or> attrName = [] then Some (BADCATPARM, None, s) else do {
      (st, hfs, s) \<leftarrow> HeapFileScan_new s ATTRCATNAME;
      if st \<noteq> OK then Some (st, None, s) else do {
      hfs \<leftarrow> hfs;
      let (st, hfs) = startScan_rel hfs relation;
      if st \<noteq> OK then do { s \<leftarrow> HeapFileScan_delete s hfs; Some (st, None, s) } else do {
      (ret, st, record, s, hfs) \<leftarrow> attr_find_loop s hfs attrName None;
      if ret then Some (st, record, s) else do {
      let st = (if st = FILEEOF then ATTRNOTFOUND else st);
      (nextStatus, s, hfs) \<leftarrow> HeapFileScan_endScan s hfs;
      s \<leftarrow> HeapFileScan_delete s hfs;
      Some (if st = OK then nextStatus else st, record, s) }}}})"

definition AttrCatalog_addInfo :: "'z minirel_scheme \<Rightarrow> AttrDesc \<Rightarrow> (Status \<times> 'z minirel_scheme) option" where
  "AttrCatalog_addInfo s ad = do {
     (st, ifs, s) \<leftarrow> InsertFileScan_new s ATTRCATNAME;
     if st \<noteq> OK then Some (st, s) else do {
     ifs \<leftarrow> ifs;
     rec \<leftarrow> AttrDesc_bytes ad;
     (st, _, s, ifs) \<leftarrow> InsertFileScan_insertRecord s ifs rec;
     let s = (if st \<noteq> OK then put_out s (''got error return from insertrecord'' @ newline) else s);
     s \<leftarrow> InsertFileScan_delete s ifs;
     Some (st, s) }}"

definition AttrCatalog_removeInfo :: "'z db_scheme \<Rightarrow> string \<Rightarrow> string \<Rightarrow> (Status \<times> 'z db_scheme) option" where
  "AttrCatalog_removeInfo s relation attrName =
     (if relation = [] \<or> attrName = [] then Some (BADCATPARM, s) else do {
      (st, hfs, s) \<leftarrow> HeapFileScan_new s ATTRCATNAME;
      if st \<noteq> OK then Some (st, s) else do {
      hfs \<leftarrow> hfs;
      let (st, hfs) = startScan_rel hfs relation;
      if st \<noteq> OK then do { s \<leftarrow> HeapFileScan_delete s hfs; Some (st, s) } else do {
      (ret, st, record, s, hfs) \<leftarrow> attr_find_loop s hfs attrName None;
      if ret then Some (st, s) else do {
      let st = (if st = FILEEOF then RELNOTFOUND else st);
      (st, s, hfs) \<leftarrow> (if st = OK then HeapFileScan_deleteRecord s hfs else Some (st, s, hfs));
      (_, s, hfs) \<leftarrow> HeapFileScan_endScan s hfs;
      s \<leftarrow> HeapFileScan_delete s hfs;
      Some (if st = NORECORDS then OK else st, s) }}}})"

text \<open>The loop that collects the descriptors; malloc is taken to succeed.\<close>

partial_function (option) attr_collect_loop ::
  "'z db_scheme \<Rightarrow> filescan \<Rightarrow> AttrDesc list \<Rightarrow> (bool \<times> Status \<times> AttrDesc list \<times> 'z db_scheme \<times> filescan) option" where
  "attr_collect_loop s hfs attrs =
     Option.bind (HeapFileScan_scanNext s hfs) (\<lambda>(st, rid, s, hfs).
       if st \<noteq> OK then Some (False, st, attrs, s, hfs)
       else Option.bind (HeapFileScan_getRecord s hfs) (\<lambda>(st, rec).
         if st \<noteq> OK then Some (True, st, attrs, s, hfs)
         else Option.bind rec (\<lambda>rec. Option.bind (bytes_AttrDesc rec) (\<lambda>ad.
           attr_collect_loop s hfs (attrs @ [ad])))))"

text \<open>The count is the length of the list.\<close>

definition AttrCatalog_getRelInfo ::
  "'z db_scheme \<Rightarrow> string \<Rightarrow> (Status \<times> AttrDesc list \<times> 'z db_scheme) option" where
  "AttrCatalog_getRelInfo s relation =
     (if relation = [] then Some (BADCATPARM, [], s) else do {
      (st, hfs, s) \<leftarrow> HeapFileScan_new s ATTRCATNAME;
      if st \<noteq> OK then Some (st, [], s) else do {
      hfs \<leftarrow> hfs;
      let (st, hfs) = startScan_rel hfs relation;
      if st \<noteq> OK then do { s \<leftarrow> HeapFileScan_delete s hfs; Some (st, [], s) } else do {
      (ret, st, attrs, s, hfs) \<leftarrow> attr_collect_loop s hfs [];
      if ret then Some (st, attrs, s) else do {
      let st = (if st = FILEEOF then if attrs = [] then RELNOTFOUND else OK else st);
      (nextStatus, s, hfs) \<leftarrow> HeapFileScan_endScan s hfs;
      s \<leftarrow> HeapFileScan_delete s hfs;
      Some (if st = OK then nextStatus else st, attrs, s) }}}})"

section \<open>Creating a relation\<close>

text \<open>
  The check for duplicate names, and the width of a tuple, an unsigned int that wraps. The first
  argument holds the attributes already seen.
\<close>

fun check_attrs :: "attrInfo list \<Rightarrow> attrInfo list \<Rightarrow> int \<Rightarrow> Status + int" where
  "check_attrs seen [] width = Inr width"
| "check_attrs seen (a # as) width =
     (if \<exists>b \<in> set seen. ai_attrName a = ai_attrName b then Inl DUPLATTR
      else check_attrs (seen @ [a]) as ((width + ai_attrLen a) mod 2 ^ 32))"

fun create_attrs :: "string \<Rightarrow> attrInfo list \<Rightarrow> int \<Rightarrow> 'z minirel_scheme \<Rightarrow> (Status \<times> 'z minirel_scheme) option" where
  "create_attrs relation [] offset s = Some (OK, s)"
| "create_attrs relation (a # as) offset s =
     (if length (ai_attrName a) \<ge> MAXNAME then Some (NAMETOOLONG, s) else do {
      (st, s) \<leftarrow> AttrCatalog_addInfo s
        \<lparr>ad_relName = relation, ad_attrName = ai_attrName a, ad_attrOffset = offset,
         ad_attrType = ai_attrType a, ad_attrLen = ai_attrLen a\<rparr>;
      if st \<noteq> OK then Some (st, put_out s (''got error return'' @ dec_int (status_code st) @ newline))
      else create_attrs relation as (wrap32 (offset + ai_attrLen a)) s })"

definition createRel :: "'z minirel_scheme \<Rightarrow> string \<Rightarrow> attrInfo list \<Rightarrow> (Status \<times> 'z minirel_scheme) option" where
  "createRel s relation attrList =
     (if relation = [] \<or> attrList = [] then Some (BADCATPARM, s)
      else if length relation \<ge> MAXNAME then Some (NAMETOOLONG, s)
      else do {
        (st, _, s) \<leftarrow> RelCatalog_getInfo s relation;
        if st = OK then Some (RELEXISTS, s)
        else if st \<noteq> RELNOTFOUND then Some (st, s)
        else case check_attrs [] attrList 0 of
          Inl st \<Rightarrow> Some (st, s)
        | Inr tupleWidth \<Rightarrow>
            if tupleWidth > PAGESIZE then Some (ATTRTOOLONG, s)
            else do {
              let s = put_out s (''Creating relation '' @ relation @ newline);
              (st, s) \<leftarrow> RelCatalog_addInfo s \<lparr>rd_relName = relation, rd_attrCnt = int (length attrList)\<rparr>;
              if st \<noteq> OK then Some (st, s) else do {
              (st, s) \<leftarrow> create_attrs relation attrList 0 s;
              if st \<noteq> OK then Some (st, s) else createHeapFile s relation } } })"

section \<open>Destroying a relation\<close>

fun drop_attrs :: "string \<Rightarrow> AttrDesc list \<Rightarrow> 'z db_scheme \<Rightarrow> (Status \<times> 'z db_scheme) option" where
  "drop_attrs relation [] s = Some (OK, s)"
| "drop_attrs relation (a # as) s = do {
     (st, s) \<leftarrow> AttrCatalog_removeInfo s relation (ad_attrName a);
     if st \<noteq> OK then Some (st, s) else drop_attrs relation as s }"

definition dropRelation :: "'z db_scheme \<Rightarrow> string \<Rightarrow> (Status \<times> 'z db_scheme) option" where
  "dropRelation s relation =
     (if relation = [] then Some (BADCATPARM, s) else do {
      (st, attrs, s) \<leftarrow> AttrCatalog_getRelInfo s relation;
      if st \<noteq> OK then Some (st, s) else drop_attrs relation attrs s })"

definition destroyRel :: "'z db_scheme \<Rightarrow> string \<Rightarrow> (Status \<times> 'z db_scheme) option" where
  "destroyRel s relation =
     (if relation = [] \<or> relation = RELCATNAME \<or> relation = ATTRCATNAME then Some (BADCATPARM, s) else do {
      (st, s) \<leftarrow> dropRelation s relation;
      if st \<noteq> OK then Some (st, s) else do {
      (st, s) \<leftarrow> RelCatalog_removeInfo s relation;
      if st \<noteq> OK then Some (st, s) else
      Some (destroyHeapFile s relation) }})"

section \<open>The records of the catalogs\<close>

text \<open>Names hold no NUL.\<close>

definition c_name :: "string \<Rightarrow> bool" where
  "c_name n \<longleftrightarrow> CHR 0x00 \<notin> set n"

lemma of_char_byte: "(of_char c :: byte) = 0 \<longleftrightarrow> c = CHR 0x00"
proof -
  have "string_of (bytes_of [c]) = [c]" by simp
  moreover have "char_of (0 :: nat) = CHR 0x00" by (simp add: char_of_def)
  ultimately show ?thesis by (auto simp: string_of_def bytes_of_def)
qed

lemma bytes_of_nonzero: "c_name n \<Longrightarrow> b \<in> set (bytes_of n) \<Longrightarrow> b \<noteq> 0"
  by (auto simp: bytes_of_def c_name_def of_char_byte)

lemma takeWhile_name: "c_name n \<Longrightarrow> takeWhile (\<lambda>b. b \<noteq> 0) (bytes_of n @ 0 # bs) = bytes_of n"
  by (subst takeWhile_append2) (auto dest: bytes_of_nonzero)

lemma length_bytes_of [simp]: "length (bytes_of n) = length n"
  by (simp add: bytes_of_def)

lemma name_bytesD:
  assumes "name_bytes n = Some bs"
  obtains k where "bs = bytes_of n @ 0 # replicate k 0" "length bs = 32" "length n < 32"
proof -
  have n: "length n < 32" and bs: "bs = bytes_of n @ replicate (32 - length n) 0"
    using assms by (auto simp: name_bytes_def MAXNAME_def split: if_splits)
  have "replicate (32 - length n) 0 = (0 :: byte) # replicate (31 - length n) 0"
    using n by (simp add: Suc_diff_Suc [symmetric] replicate_Suc [symmetric] del: replicate_Suc) 
  then show ?thesis using that [of "31 - length n"] bs n by simp
qed

lemma name_bytes_length: "name_bytes n = Some bs \<Longrightarrow> length bs = 32"
  by (rule name_bytesD)

lemma name_roundtrip:
  assumes "name_bytes n = Some bs" "c_name n"
  shows "bytes_name bs = Some n"
proof -
  obtain k where k: "bs = bytes_of n @ 0 # replicate k 0" using name_bytesD [OF assms(1)] by blast
  then have "takeWhile (\<lambda>b. b \<noteq> 0) bs = bytes_of n" using takeWhile_name [OF assms(2)] by simp
  then have "c_string bs = n" by (simp add: c_string_def)
  then show ?thesis using k by (simp add: bytes_name_def)
qed

lemma bytes_mem_append: "0 \<le> x \<Longrightarrow> bytes_mem (xs @ ys) (int (length xs) + x) = bytes_mem ys x"
  by (auto simp: bytes_mem_def nth_append nat_add_distrib)

lemma rd_int_at: "off = int (length pre) \<Longrightarrow> rd_int (bytes_mem (pre @ int_bytes v @ post)) off = wrap32 v"
  using rd_int_of_bytes [of v post] bytes_mem_append [of 0 pre] bytes_mem_append [of 1 pre]
    bytes_mem_append [of 2 pre] bytes_mem_append [of 3 pre]
  by (simp add: rd_int_def)

definition int_range :: "int \<Rightarrow> bool" where
  "int_range v \<longleftrightarrow> - (2 ^ 31) \<le> v \<and> v < 2 ^ 31"

lemma int_range_wrap: "int_range v \<Longrightarrow> wrap32 v = v"
  by (simp add: int_range_def)

lemma length_int_bytes [simp]: "length (int_bytes v) = 4"
  by (simp add: int_bytes_def)

text \<open>The filter of a lookup selects the records that start with the name.\<close>

lemma name_filter:
  assumes "name_bytes n = Some ns" "c_name n" "c_name rel" "length ns + length bs \<ge> 32"
  shows "HeapFileScan_matchRec (snd (startScan_rel hfs rel)) (ns @ bs) \<longleftrightarrow> n = rel"
proof -
  obtain k where k: "ns = bytes_of n @ 0 # replicate k 0" "length ns = 32" "length n < 32"
    using name_bytesD [OF assms(1)] by blast
  let ?rec = "ns @ bs" and ?len = "Suc (length rel)"
  have "HeapFileScan_matchRec (snd (startScan_rel hfs rel)) ?rec \<longleftrightarrow>
      length rel < length ?rec \<and> strncmp (bytes_mem ?rec) 0 (c_mem zero_mem rel) 0 ?len = 0"
    by (simp add: startScan_rel_def HeapFileScan_startScan_def HeapFileScan_matchRec_def filter_diff_def
        op_holds_def nat_add_distrib del: strncmp.simps)
  note match = this [unfolded strncmp_0]
  have "takeWhile (\<lambda>b. b \<noteq> 0) (rd_bytes (c_mem zero_mem rel) 0 ?len) = bytes_of rel"
  proof -
    have "rd_bytes (c_mem zero_mem rel) 0 ?len = bytes_of rel @ [0]"
      by (auto simp: rd_bytes_def c_mem_def bytes_of_def nth_append intro!: nth_equalityI)
    then show ?thesis using takeWhile_name [OF assms(3), of "[]"] by simp
  qed
  moreover have "takeWhile (\<lambda>b. b \<noteq> 0) (rd_bytes (bytes_mem ?rec) 0 ?len) = take ?len (bytes_of n)"
    if "length rel < length ?rec"
  proof -
    have "rd_bytes (bytes_mem ?rec) 0 ?len = take ?len ?rec"
      by (rule rd_bytes_take) (use that in simp)
    also have "takeWhile (\<lambda>b. b \<noteq> 0) (take ?len ?rec) = take ?len (bytes_of n)"
    proof (cases "?len \<le> length n")
      case True
      then have "take ?len ?rec = take ?len (bytes_of n)" by (simp add: k(1))
      then show ?thesis using bytes_of_nonzero [OF assms(2)] by (auto intro: takeWhile_eq_all_conv [THEN iffD2] dest: in_set_takeD)
    next
      case False
      then have "take ?len ?rec = bytes_of n @ 0 # take (?len - Suc (length n)) (replicate k 0 @ bs)"
        by (simp add: k(1) take_Cons')
      then show ?thesis using takeWhile_name [OF assms(2)] False by simp
    qed
    finally show ?thesis .
  qed
  moreover have "take ?len (bytes_of n) = bytes_of rel \<longleftrightarrow> n = rel"
  proof
    assume eq: "take ?len (bytes_of n) = bytes_of rel"
    then have "length (take ?len (bytes_of n)) = length rel" by simp
    then have "length n \<le> length rel" by simp
    then have "bytes_of n = bytes_of rel" using eq by simp
    then show "n = rel" using string_of_bytes by metis
  qed simp
  moreover have "n = rel \<Longrightarrow> length rel < length ?rec" using k by simp
  ultimately show ?thesis unfolding match by metis
qed

text \<open>A descriptor whose numbers fit an int and whose names are C strings.\<close>

definition attr_desc_ok :: "AttrDesc \<Rightarrow> bool" where
  "attr_desc_ok ad \<longleftrightarrow> c_name (ad_relName ad) \<and> c_name (ad_attrName ad) \<and>
     int_range (ad_attrOffset ad) \<and> int_range (ad_attrType ad) \<and> int_range (ad_attrLen ad)"

lemma AttrDesc_bytesD:
  assumes "AttrDesc_bytes ad = Some bs"
  obtains r a where "name_bytes (ad_relName ad) = Some r" "name_bytes (ad_attrName ad) = Some a"
    "length r = 32" "length a = 32"
    "bs = r @ a @ int_bytes (ad_attrOffset ad) @ int_bytes (ad_attrType ad) @ int_bytes (ad_attrLen ad)"
  using assms by (auto simp: AttrDesc_bytes_def bind_eq_Some_conv dest: name_bytes_length)

lemma AttrDesc_decode:
  assumes "AttrDesc_bytes ad = Some bs" "attr_desc_ok ad"
  shows "bytes_AttrDesc bs = Some ad"
proof -
  obtain r a where ra: "name_bytes (ad_relName ad) = Some r" "name_bytes (ad_attrName ad) = Some a"
    "length r = 32" "length a = 32"
    and bs: "bs = r @ a @ int_bytes (ad_attrOffset ad) @ int_bytes (ad_attrType ad) @ int_bytes (ad_attrLen ad)"
    using AttrDesc_bytesD [OF assms(1)] by blast
  note ok = assms(2) [unfolded attr_desc_ok_def]
  have n: "bytes_name r = Some (ad_relName ad)" "bytes_name a = Some (ad_attrName ad)"
    using name_roundtrip ra ok by blast+
  have l: "length bs = 76" "take 32 bs = r" "take 32 (drop 32 bs) = a" using ra by (simp_all add: bs)
  have "rd_int (bytes_mem bs) 64 = ad_attrOffset ad"
    using rd_int_at [of 64 "r @ a" "ad_attrOffset ad"] ra ok by (simp add: bs int_range_wrap)
  moreover have "rd_int (bytes_mem bs) 68 = ad_attrType ad"
    using rd_int_at [of 68 "r @ a @ int_bytes (ad_attrOffset ad)" "ad_attrType ad"] ra ok by (simp add: bs int_range_wrap)
  moreover have "rd_int (bytes_mem bs) 72 = ad_attrLen ad"
    using rd_int_at [of 72 "r @ a @ int_bytes (ad_attrOffset ad) @ int_bytes (ad_attrType ad)" "ad_attrLen ad" "[]"] ra ok
    by (simp add: bs int_range_wrap)
  ultimately show ?thesis using n l by (simp add: bytes_AttrDesc_def)
qed

lemma RelDesc_decode:
  assumes "RelDesc_bytes rd = Some bs" "c_name (rd_relName rd)" "int_range (rd_attrCnt rd)"
  shows "bytes_RelDesc bs = Some rd"
proof -
  obtain n where n: "name_bytes (rd_relName rd) = Some n" and bs: "bs = n @ int_bytes (rd_attrCnt rd)"
    using assms(1) by (auto simp: RelDesc_bytes_def bind_eq_Some_conv)
  have l: "length n = 32" using name_bytesD [OF n] by blast
  have "rd_int (bytes_mem bs) 32 = rd_attrCnt rd"
    using rd_int_at [of 32 n "rd_attrCnt rd" "[]"] l assms(3) by (simp add: bs int_range_wrap)
  then show ?thesis using name_roundtrip [OF n assms(2)] l by (simp add: bytes_RelDesc_def bs)
qed

lemma RelDesc_match:
  assumes "RelDesc_bytes rd = Some bs" "c_name (rd_relName rd)" "c_name relation"
  shows "HeapFileScan_matchRec (snd (startScan_rel hfs relation)) bs \<longleftrightarrow> rd_relName rd = relation" "length bs = 36"
proof -
  obtain n where n: "name_bytes (rd_relName rd) = Some n" "bs = n @ int_bytes (rd_attrCnt rd)" "length n = 32"
    using assms(1) by (auto simp: RelDesc_bytes_def bind_eq_Some_conv dest: name_bytes_length)
  show "HeapFileScan_matchRec (snd (startScan_rel hfs relation)) bs \<longleftrightarrow> rd_relName rd = relation"
    unfolding n(2) by (rule name_filter [OF n(1) assms(2,3)]) (simp add: n(3))
  show "length bs = 36" using n by simp
qed

lemma AttrDesc_match:
  assumes "AttrDesc_bytes ad = Some bs" "attr_desc_ok ad" "c_name relation"
  shows "HeapFileScan_matchRec (snd (startScan_rel hfs relation)) bs \<longleftrightarrow> ad_relName ad = relation" "length bs = 76"
proof -
  obtain r a where a: "name_bytes (ad_relName ad) = Some r" "length r = 32" "length a = 32"
    "bs = r @ a @ int_bytes (ad_attrOffset ad) @ int_bytes (ad_attrType ad) @ int_bytes (ad_attrLen ad)"
    using AttrDesc_bytesD [OF assms(1)] by blast
  show "HeapFileScan_matchRec (snd (startScan_rel hfs relation)) bs \<longleftrightarrow> ad_relName ad = relation"
    unfolding a(4) by (rule name_filter [OF a(1) _ assms(3)]) (use assms(2) a(2) in \<open>simp_all add: attr_desc_ok_def\<close>)
  show "length bs = 76" using a by simp
qed

section \<open>Properties\<close>

text \<open>
  What addInfo writes is what getInfo looks for and reads. For names without NUL that fit their
  fields and numbers that fit an int, the record of a relation and the record of an attribute
  have 36 and 76 bytes and are decoded to the very descriptor they were made from; and the filter
  that every lookup of a relation scans with selects either record exactly when its relation
  name is the one looked up, for every name, longer or shorter.
\<close>

theorem catalog_records_roundtrip:
  assumes "RelDesc_bytes rd = Some rbs" "c_name (rd_relName rd)" "int_range (rd_attrCnt rd)"
    "AttrDesc_bytes ad = Some bs" "attr_desc_ok ad" "c_name relation"
  shows "bytes_RelDesc rbs = Some rd \<and> length rbs = 36 \<and> bytes_AttrDesc bs = Some ad \<and> length bs = 76 \<and>
    HeapFileScan_matchRec (snd (startScan_rel hfs relation)) rbs = (rd_relName rd = relation) \<and>
    HeapFileScan_matchRec (snd (startScan_rel hfs relation)) bs = (ad_relName ad = relation)"
  using RelDesc_decode [OF assms(1-3)] AttrDesc_decode [OF assms(4,5)] RelDesc_match [OF assms(1,2,6)]
    AttrDesc_match [OF assms(4-6)] by simp

lemma catalog_records_roundtrip_witness:
  "\<exists>rbs bs. RelDesc_bytes \<lparr>rd_relName = ''emp'', rd_attrCnt = 2\<rparr> = Some rbs \<and>
     AttrDesc_bytes \<lparr>ad_relName = ''emp'', ad_attrName = ''age'', ad_attrOffset = 20, ad_attrType = 1, ad_attrLen = 4\<rparr> = Some bs \<and>
     bytes_AttrDesc bs =
       Some \<lparr>ad_relName = ''emp'', ad_attrName = ''age'', ad_attrOffset = 20, ad_attrType = 1, ad_attrLen = 4\<rparr> \<and>
     (\<forall>hfs. HeapFileScan_matchRec (snd (startScan_rel hfs ''emp'')) bs \<and>
            \<not> HeapFileScan_matchRec (snd (startScan_rel hfs ''employee'')) rbs)"
proof -
  let ?rd = "\<lparr>rd_relName = ''emp'', rd_attrCnt = 2\<rparr>"
    and ?ad = "\<lparr>ad_relName = ''emp'', ad_attrName = ''age'', ad_attrOffset = 20, ad_attrType = 1, ad_attrLen = 4\<rparr>"
  obtain rbs where rbs: "RelDesc_bytes ?rd = Some rbs"
    by (simp add: RelDesc_bytes_def name_bytes_def MAXNAME_def)
  obtain bs where bs: "AttrDesc_bytes ?ad = Some bs"
    by (simp add: AttrDesc_bytes_def name_bytes_def MAXNAME_def)
  have ok: "c_name (rd_relName ?rd)" "int_range (rd_attrCnt ?rd)" "attr_desc_ok ?ad" "c_name ''emp''" "c_name ''employee''"
    by (simp_all add: c_name_def int_range_def attr_desc_ok_def)
  show ?thesis
    using catalog_records_roundtrip [OF rbs ok(1,2) bs ok(3,4)] catalog_records_roundtrip [OF rbs ok(1,2) bs ok(3,5)] rbs bs
    by auto
qed

end
