(* ===== verification/CatalogMap.thy ===== *)
theory CatalogMap
  imports Catalog HeapSession
begin

text \<open>
  The relation catalog is a map. Its abstract state is a map from names to descriptors; getInfo
  looks a name up, addInfo adds one, removeInfo deletes one. The theorem at the end is about whole
  sequences of calls on the open file relcat, as the running program makes them.
\<close>

section \<open>The records of the catalog\<close>

definition rel_rec :: "byte list \<Rightarrow> RelDesc \<Rightarrow> bool" where
  "rel_rec r rd \<longleftrightarrow> RelDesc_bytes rd = Some r \<and> c_name (rd_relName rd) \<and> int_range (rd_attrCnt rd)"

definition rel_recs :: "(RID \<times> byte list) list \<Rightarrow> bool" where
  "rel_recs recs \<longleftrightarrow> (\<forall>r \<in> snd ` set recs. \<exists>rd. rel_rec r rd)"

definition cat_assoc :: "(RID \<times> byte list) list \<Rightarrow> (string \<times> RelDesc) list" where
  "cat_assoc recs = map (\<lambda>(rid, r). (rd_relName (the (bytes_RelDesc r)), the (bytes_RelDesc r))) recs"

lemma rel_recD:
  assumes "rel_rec r rd"
  shows "bytes_RelDesc r = Some rd" "length r = 36"
    "c_name n \<Longrightarrow> HeapFileScan_matchRec (snd (startScan_rel hfs n)) r \<longleftrightarrow> rd_relName rd = n"
  using assms RelDesc_decode [of rd r] RelDesc_match(1) [where hfs = hfs and rd = rd and bs = r and relation = n] RelDesc_match(2) [of rd r "rd_relName rd"]
  by (simp_all add: rel_rec_def)

lemma rel_rec_match:
  assumes "rel_recs recs" "(rid, r) \<in> set recs" "c_name n"
  shows "HeapFileScan_matchRec (snd (startScan_rel hfs n)) r \<longleftrightarrow> rd_relName (the (bytes_RelDesc r)) = n"
proof -
  obtain rd where "rel_rec r rd" using assms(1,2) by (force simp: rel_recs_def)
  then show ?thesis using rel_recD(1) [of r rd] rel_recD(3) [where hfs = hfs and r = r and rd = rd and n = n] assms(3) by simp
qed

text \<open>The first record that the filter selects is the one the map has for the name.\<close>

lemma cat_first:
  assumes "rel_recs recs" "c_name n"
  shows "map_of (cat_assoc recs) n =
    (case dropWhile (\<lambda>(rid, r). \<not> HeapFileScan_matchRec (snd (startScan_rel hfs n)) r) recs of
       [] \<Rightarrow> None | (rid, r) # _ \<Rightarrow> bytes_RelDesc r)"
  using assms(1)
proof (induction recs)
  case (Cons a recs)
  obtain rid r where a: "a = (rid, r)" by (cases a)
  obtain rd where rd: "rel_rec r rd" using Cons.prems a by (auto simp: rel_recs_def)
  have "rel_recs recs" using Cons.prems by (simp add: rel_recs_def)
  then show ?case using Cons.IH rel_recD(1) [OF rd] rel_recD(3) [OF rd, where hfs = hfs and n = n] assms(2) by (auto simp: a cat_assoc_def)
qed (simp add: cat_assoc_def)

text \<open>With distinct names, the order of the records does not matter.\<close>

lemma cat_assoc_mset: "mset recs' = add_mset (rid, r) (mset recs) \<Longrightarrow>
  mset (cat_assoc recs') = add_mset (rd_relName (the (bytes_RelDesc r)), the (bytes_RelDesc r)) (mset (cat_assoc recs))"
  by (simp add: cat_assoc_def)

lemma map_of_mset:
  assumes "distinct (map fst xs)" "mset ys = mset xs"
  shows "distinct (map fst ys)" "map_of ys = map_of xs"
proof -
  have "mset (map fst ys) = mset (map fst xs)" using assms(2) by simp
  then show d: "distinct (map fst ys)" using assms(1) by (metis mset_eq_imp_distinct_iff)
  show "map_of ys = map_of xs"
    by (rule map_of_inject_set [THEN iffD2, OF d assms(1)]) (use assms(2) in \<open>metis set_mset_mset\<close>)
qed

lemma map_of_add:
  assumes "distinct (map fst xs)" "map_of xs k = None" "mset ys = add_mset (k, v) (mset xs)"
  shows "distinct (map fst ys)" "map_of ys = (map_of xs)(k \<mapsto> v)"
  using map_of_mset [of "(k, v) # xs" ys] assms by (simp_all add: map_of_eq_None_iff)

lemma map_of_del:
  assumes "distinct (map fst xs)" "add_mset (k, v) (mset ys) = mset xs"
  shows "distinct (map fst ys)" "map_of ys = (map_of xs)(k := None)"
proof -
  have D: "distinct (map fst ((k, v) # ys))" "map_of ((k, v) # ys) = map_of xs"
    by (rule map_of_mset [OF assms(1)], simp add: assms(2))+
  then show "distinct (map fst ys)" by simp
  have "map_of ys k = None" using D(1) by (simp add: map_of_eq_None_iff)
  then show "map_of ys = (map_of xs)(k := None)" unfolding D(2) [symmetric] by (auto simp: fun_eq_iff)
qed

section \<open>The calls on the open catalog\<close>

definition rel_cat :: "'z db_scheme \<Rightarrow> fptr \<Rightarrow> layout \<Rightarrow> (string \<Rightarrow> RelDesc option) \<Rightarrow> bool" where
  "rel_cat s f U m \<longleftrightarrow> (\<exists>hdr xs. rel_open s RELCATNAME f U hdr xs \<and> rel_recs (chain_recs (page_of s f) xs) \<and>
     distinct (map fst (cat_assoc (chain_recs (page_of s f) xs))) \<and> m = map_of (cat_assoc (chain_recs (page_of s f) xs)))"

lemma startScan_rel_OK: "fst (startScan_rel hfs n) = OK"
  by (simp add: startScan_rel_def HeapFileScan_startScan_def)

lemma standing_rel: "standing s f U hdr xs s1 hfs rest \<Longrightarrow> standing s f U hdr xs s1 (snd (startScan_rel hfs n)) rest"
  by (simp add: startScan_rel_def HeapFileScan_startScan_def standing_startScan)

text \<open>What all lookups start with: the file is opened and the first record of the relation found.\<close>

lemma lookup_start:
  assumes r: "rel_open s name f U hdr xs" and room: "card (pinned s) + 2 \<le> numBufs s"
  obtains s1 hfs h where "HeapFileScan_new s name = Some (OK, Some hfs, s1)" "startScan_rel hfs n = (OK, h)"
    "snd (startScan_rel hfs n) = h" "standing s f U hdr xs s1 h (chain_recs (page_of s f) xs)"
proof -
  obtain s1 hfs where A: "HeapFileScan_new s name = Some (OK, Some hfs, s1)"
    "standing s f U hdr xs s1 hfs (chain_recs (page_of s f) xs)"
    by (rule HeapFileScan_new_open [OF r room]) (rule that)
  obtain h where h: "startScan_rel hfs n = (OK, h)" using startScan_rel_OK [of hfs n] by (cases "startScan_rel hfs n") simp
  show thesis by (rule that [OF A(1) h]) (use standing_rel [OF A(2), of n] h in simp_all)
qed

lemma dropWhile_mem: "dropWhile P xs = y # ys \<Longrightarrow> y \<in> set xs"
  by (metis list.set_intros(1) set_dropWhileD)

lemma getInfo_lookup:
  assumes c: "rel_cat s f U m" and room: "card (pinned s) + 2 \<le> numBufs s" and n: "n \<noteq> []" "c_name n"
  obtains s' where "RelCatalog_getInfo s n = Some (if m n = None then RELNOTFOUND else OK, m n, s')"
    "rel_cat s' f U m" "call_kept f s s'" "page_of s' = page_of s"
proof -
  obtain hdr xs where C: "rel_open s RELCATNAME f U hdr xs" "rel_recs (chain_recs (page_of s f) xs)"
    "distinct (map fst (cat_assoc (chain_recs (page_of s f) xs)))" "m = map_of (cat_assoc (chain_recs (page_of s f) xs))"
    using c by (auto simp: rel_cat_def)
  obtain s1 hfs h where O: "HeapFileScan_new s RELCATNAME = Some (OK, Some hfs, s1)" "startScan_rel hfs n = (OK, h)"
    "snd (startScan_rel hfs n) = h" "standing s f U hdr xs s1 h (chain_recs (page_of s f) xs)"
    by (rule lookup_start [OF C(1) room]) (rule that)
  obtain st out s2 h2 where N: "HeapFileScan_scanNext s1 h = Some (st, out, s2, h2)"
    "case dropWhile (\<lambda>(rid, rec). \<not> HeapFileScan_matchRec h rec) (chain_recs (page_of s f) xs) of
       [] \<Rightarrow> st = FILEEOF \<and> out = None \<and> standing s f U hdr xs s2 h2 []
     | (rid, rec) # rs \<Rightarrow> st = OK \<and> out = Some rid \<and> curRec h2 = rid \<and> pageNo rid = cur_pageNo h2 \<and>
         HeapFileScan_getRecord s2 h2 = Some (OK, Some rec) \<and> standing s f U hdr xs s2 h2 rs"
    by (rule standing_next [OF O(4)]) (rule that)
  obtain rest where st2: "standing s f U hdr xs s2 h2 rest" using N(2) by (auto split: list.splits)
  obtain s3 h3 s4 where D: "HeapFileScan_endScan s2 h2 = Some (OK, s3, h3)" "HeapFileScan_delete s3 h3 = Some s4"
    "call_kept f s s4" "page_of s4 = page_of s" "rel_open s4 RELCATNAME f U hdr xs"
    by (rule standing_delete [OF C(1) st2]) (rule that)
  note first = cat_first [OF C(2) n(2), where hfs = hfs, folded C(4), unfolded O(3)]
  have run: "RelCatalog_getInfo s n = Some (if m n = None then RELNOTFOUND else OK, m n, s4)"
  proof (cases "dropWhile (\<lambda>(rid, rec). \<not> HeapFileScan_matchRec h rec) (chain_recs (page_of s f) xs)")
    case Nil
    have "st = FILEEOF" "m n = None" using N(2) first unfolding Nil by simp_all
    then show ?thesis using n(1) O(1,2) N(1) D(1,2) by (simp add: RelCatalog_getInfo_def)
  next
    case (Cons a rs)
    obtain rid r where a: "a = (rid, r)" by (cases a)
    have "(rid, r) \<in> set (chain_recs (page_of s f) xs)" using dropWhile_mem [OF Cons] a by simp
    then obtain rd where "rel_rec r rd" using C(2) by (force simp: rel_recs_def)
    then have dec: "bytes_RelDesc r = Some rd" by (rule rel_recD)
    have "st = OK" "HeapFileScan_getRecord s2 h2 = Some (OK, Some r)" "m n = Some rd"
      using N(2) first dec unfolding Cons a by simp_all
    then show ?thesis using n(1) O(1,2) N(1) D(1,2) dec by (simp add: RelCatalog_getInfo_def)
  qed
  have "rel_cat s4 f U m" unfolding rel_cat_def using D(4,5) C(2-4) by (intro exI [of _ hdr] exI [of _ xs]) simp
  then show thesis using that [OF run] D(3,4) by blast
qed

lemma addInfo_update:
  assumes c: "rel_cat s f U m" and room: "card (pinned s) + 3 \<le> numBufs s" "lay_size U < 2147483647"
    and rd: "rel_rec r rd" "m (rd_relName rd) = None"
  obtains s' U' where "RelCatalog_addInfo s rd = Some (OK, s')" "rel_cat s' f U' (m(rd_relName rd \<mapsto> rd))" "call_kept f s s'"
    "lay_size U' \<le> Suc (lay_size U)" "\<And>g q. g \<noteq> f \<Longrightarrow> page_of s' g q = page_of s g q"
proof -
  obtain hdr xs where C: "rel_open s RELCATNAME f U hdr xs" "rel_recs (chain_recs (page_of s f) xs)"
    "distinct (map fst (cat_assoc (chain_recs (page_of s f) xs)))" "m = map_of (cat_assoc (chain_recs (page_of s f) xs))"
    using c by (auto simp: rel_cat_def)
  have l: "r \<noteq> []" "length r \<le> 1000" using rel_recD(2) [OF rd(1)] by auto
  obtain s1 h1 s2 h2 s3 rid U' hdr' xs' where I: "InsertFileScan_new s RELCATNAME = Some (OK, Some h1, s1)"
    "InsertFileScan_insertRecord s1 h1 r = Some (OK, Some rid, s2, h2)" "InsertFileScan_delete s2 h2 = Some s3"
    "call_kept f s s3" "rel_open s3 RELCATNAME f U' hdr' xs'" "lay_size U' \<le> Suc (lay_size U)"
    "mset (chain_recs (page_of s3 f) xs') = add_mset (rid, r) (mset (chain_recs (page_of s f) xs))"
    "\<And>g q. g \<noteq> f \<Longrightarrow> page_of s3 g q = page_of s g q"
    by (rule insert_call [OF C(1) l room]) (rule that)
  have run: "RelCatalog_addInfo s rd = Some (OK, s3)"
    using I(1-3) rd(1) by (simp add: RelCatalog_addInfo_def rel_rec_def)
  have "set (chain_recs (page_of s3 f) xs') = insert (rid, r) (set (chain_recs (page_of s f) xs))"
    using I(7) by (metis set_mset_add_mset_insert set_mset_mset)
  then have ok: "rel_recs (chain_recs (page_of s3 f) xs')" using C(2) rd(1) by (auto simp: rel_recs_def)
  have "mset (cat_assoc (chain_recs (page_of s3 f) xs')) =
      add_mset (rd_relName rd, rd) (mset (cat_assoc (chain_recs (page_of s f) xs)))"
    using cat_assoc_mset [OF I(7)] rel_recD(1) [OF rd(1)] by simp
  note M = map_of_add [OF C(3) _ this]
  have "rel_cat s3 f U' (m(rd_relName rd \<mapsto> rd))"
    unfolding rel_cat_def using I(5) ok M rd(2) C(4) by (intro exI [of _ hdr'] exI [of _ xs']) simp
  then show thesis using that [OF run] I(4,6,8) by blast
qed

lemma removeInfo_delete:
  assumes c: "rel_cat s f U m" and room: "card (pinned s) + 2 \<le> numBufs s" and n: "n \<noteq> []" "c_name n"
  obtains s' where "RelCatalog_removeInfo s n = Some (if m n = None then RELNOTFOUND else OK, s')"
    "rel_cat s' f U (m(n := None))" "call_kept f s s'" "\<And>g q. g \<noteq> f \<Longrightarrow> page_of s' g q = page_of s g q"
proof -
  obtain hdr xs where C: "rel_open s RELCATNAME f U hdr xs" "rel_recs (chain_recs (page_of s f) xs)"
    "distinct (map fst (cat_assoc (chain_recs (page_of s f) xs)))" "m = map_of (cat_assoc (chain_recs (page_of s f) xs))"
    using c by (auto simp: rel_cat_def)
  obtain s1 hfs h where O: "HeapFileScan_new s RELCATNAME = Some (OK, Some hfs, s1)" "startScan_rel hfs n = (OK, h)"
    "snd (startScan_rel hfs n) = h" "standing s f U hdr xs s1 h (chain_recs (page_of s f) xs)"
    by (rule lookup_start [OF C(1) room]) (rule that)
  let ?recs = "chain_recs (page_of s f) xs"
  have late: "HeapFileScan_endScan t (h\<lparr>curPage := Null\<rparr>) = Some (OK, t, h\<lparr>curPage := Null\<rparr>)" for t :: "'a db_scheme" and h :: filescan
    by (simp add: HeapFileScan_endScan_def)
  obtain st out s2 h2 where N: "HeapFileScan_scanNext s1 h = Some (st, out, s2, h2)"
    "case dropWhile (\<lambda>(rid, rec). \<not> HeapFileScan_matchRec h rec) ?recs of
       [] \<Rightarrow> st = FILEEOF \<and> out = None \<and> standing s f U hdr xs s2 h2 []
     | (rid, rec) # rs \<Rightarrow> st = OK \<and> out = Some rid \<and> curRec h2 = rid \<and> pageNo rid = cur_pageNo h2 \<and>
         HeapFileScan_getRecord s2 h2 = Some (OK, Some rec) \<and> standing s f U hdr xs s2 h2 rs"
    by (rule standing_next [OF O(4)]) (rule that)
  note first = cat_first [OF C(2) n(2), where hfs = hfs, folded C(4), unfolded O(3)]
  show thesis
  proof (cases "dropWhile (\<lambda>(rid, rec). \<not> HeapFileScan_matchRec h rec) ?recs")
    case Nil
    have st: "st = FILEEOF" "standing s f U hdr xs s2 h2 []" and none: "m n = None"
      using N(2) first unfolding Nil by simp_all
    obtain s4 where D: "HeapFileScan_delete s2 h2 = Some s4" "call_kept f s s4" "page_of s4 = page_of s"
      "rel_open s4 RELCATNAME f U hdr xs"
      by (rule standing_delete [OF C(1) st(2)]) (rule that)
    have "RelCatalog_removeInfo s n = Some (RELNOTFOUND, s4)"
      using n(1) O(1,2) N(1) st(1) D(1) late by (simp add: RelCatalog_removeInfo_def Let_def)
    moreover have "m(n := None) = m" using none by (simp add: fun_upd_idem)
    moreover have "rel_cat s4 f U m" unfolding rel_cat_def using D(3,4) C(2-4) by (intro exI [of _ hdr] exI [of _ xs]) simp
    ultimately show thesis using that none D(2,3) by simp
  next
    case (Cons a rs)
    obtain rid r where a: "a = (rid, r)" by (cases a)
    have S: "st = OK" "curRec h2 = rid" "pageNo (curRec h2) = cur_pageNo h2" "standing s f U hdr xs s2 h2 rs"
      using N(2) unfolding Cons a by simp_all
    have mem: "(curRec h2, r) \<in> set ?recs" using dropWhile_mem [OF Cons] a S(2) by simp
    obtain rd where rd: "rel_rec r rd" using C(2) mem by (force simp: rel_recs_def)
    have dec: "bytes_RelDesc r = Some rd" by (rule rel_recD [OF rd])
    have "HeapFileScan_matchRec h r" using Cons a by (auto dest!: dropWhile_eq_Cons_conv [THEN iffD1])
    then have nm: "rd_relName rd = n" using rel_recD(3) [OF rd n(2), where hfs = hfs, unfolded O(3)] by simp
    have some: "m n = Some rd" using first dec unfolding Cons a by simp
    obtain s3 h3 s4 hdr' where D: "HeapFileScan_deleteRecord s2 h2 = Some (OK, s3, h3)" "HeapFileScan_delete s3 h3 = Some s4"
      "call_kept f s s4" "rel_open s4 RELCATNAME f U hdr' xs"
      "add_mset (curRec h2, r) (mset (chain_recs (page_of s4 f) xs)) = mset ?recs"
      "\<And>g q. g \<noteq> f \<Longrightarrow> page_of s4 g q = page_of s g q"
      by (rule standing_deleteRecord [OF C(1) S(4) mem S(3)]) (rule that)
    have "RelCatalog_removeInfo s n = Some (OK, s4)"
      using n(1) O(1,2) N(1) S(1) D(1,2) late by (simp add: RelCatalog_removeInfo_def Let_def)
    moreover have "rel_cat s4 f U (m(n := None))"
    proof -
      have "set ?recs = insert (curRec h2, r) (set (chain_recs (page_of s4 f) xs))"
        using D(5) by (metis set_mset_add_mset_insert set_mset_mset)
      then have ok: "rel_recs (chain_recs (page_of s4 f) xs)" using C(2) by (auto simp: rel_recs_def)
      have "add_mset (n, rd) (mset (cat_assoc (chain_recs (page_of s4 f) xs))) = mset (cat_assoc ?recs)"
        using cat_assoc_mset [OF D(5) [symmetric]] dec nm by simp
      note M = map_of_del [OF C(3) this]
      show ?thesis unfolding rel_cat_def using D(4) ok M C(4) by (intro exI [of _ hdr'] exI [of _ xs]) simp
    qed
    ultimately show thesis using that some D(3,6) by simp
  qed
qed

section \<open>Sequences of calls\<close>

datatype rel_op = Get string | Add RelDesc | Remove string

text \<open>The calls of the code, and what they mean on a map.\<close>

fun rel_step :: "rel_op \<Rightarrow> 'z db_scheme \<Rightarrow> ((Status \<times> RelDesc option) \<times> 'z db_scheme) option" where
  "rel_step (Get n) s = do { (st, rd, s) \<leftarrow> RelCatalog_getInfo s n; Some ((st, rd), s) }"
| "rel_step (Add rd) s = do { (st, s) \<leftarrow> RelCatalog_addInfo s rd; Some ((st, None), s) }"
| "rel_step (Remove n) s = do { (st, s) \<leftarrow> RelCatalog_removeInfo s n; Some ((st, None), s) }"

fun rel_run :: "rel_op list \<Rightarrow> 'z db_scheme \<Rightarrow> ((Status \<times> RelDesc option) list \<times> 'z db_scheme) option" where
  "rel_run [] s = Some ([], s)"
| "rel_run (op # ops) s = do { (a, s) \<leftarrow> rel_step op s; (as, s) \<leftarrow> rel_run ops s; Some (a # as, s) }"

fun map_step :: "rel_op \<Rightarrow> (string \<Rightarrow> RelDesc option) \<Rightarrow> (Status \<times> RelDesc option) \<times> (string \<Rightarrow> RelDesc option)" where
  "map_step (Get n) m = ((if n = [] then BADCATPARM else if m n = None then RELNOTFOUND else OK, if n = [] then None else m n), m)"
| "map_step (Add rd) m = ((OK, None), m(rd_relName rd \<mapsto> rd))"
| "map_step (Remove n) m = ((if n = [] then BADCATPARM else if m n = None then RELNOTFOUND else OK, None),
     if n = [] then m else m(n := None))"

fun map_run :: "rel_op list \<Rightarrow> (string \<Rightarrow> RelDesc option) \<Rightarrow> (Status \<times> RelDesc option) list \<times> (string \<Rightarrow> RelDesc option)" where
  "map_run [] m = ([], m)"
| "map_run (op # ops) m = (let (a, m) = map_step op m; (as, m) = map_run ops m in (a # as, m))"

text \<open>What createRel checks before it adds a relation: the name fits and is new. Names are C strings.\<close>

definition rel_desc_ok :: "RelDesc \<Rightarrow> bool" where
  "rel_desc_ok rd \<longleftrightarrow> length (rd_relName rd) < MAXNAME \<and> c_name (rd_relName rd) \<and> int_range (rd_attrCnt rd)"

fun rel_op_ok :: "rel_op \<Rightarrow> (string \<Rightarrow> RelDesc option) \<Rightarrow> bool" where
  "rel_op_ok (Get n) m = c_name n"
| "rel_op_ok (Add rd) m = (rel_desc_ok rd \<and> m (rd_relName rd) = None)"
| "rel_op_ok (Remove n) m = c_name n"

fun rel_ops_ok :: "rel_op list \<Rightarrow> (string \<Rightarrow> RelDesc option) \<Rightarrow> bool" where
  "rel_ops_ok [] m = True"
| "rel_ops_ok (op # ops) m = (rel_op_ok op m \<and> rel_ops_ok ops (snd (map_step op m)))"

lemma rel_desc_rec: "rel_desc_ok rd \<Longrightarrow> \<exists>r. rel_rec r rd"
  by (simp add: rel_desc_ok_def rel_rec_def RelDesc_bytes_def name_bytes_def)

lemma rel_step_map:
  assumes c: "rel_cat s f U m" and room: "card (pinned s) + 3 \<le> numBufs s" "lay_size U < 2147483647" and ok: "rel_op_ok op m"
  obtains s' U' where "rel_step op s = Some (fst (map_step op m), s')" "rel_cat s' f U' (snd (map_step op m))" "call_kept f s s'"
    "lay_size U' \<le> Suc (lay_size U)" "\<And>g q. g \<noteq> f \<Longrightarrow> page_of s' g q = page_of s g q"
proof (cases op)
  case (Get n)
  show thesis
  proof (cases "n = []")
    case False
    have room2: "card (pinned s) + 2 \<le> numBufs s" and n: "c_name n" using room ok Get by simp_all
    obtain s' where "RelCatalog_getInfo s n = Some (if m n = None then RELNOTFOUND else OK, m n, s')"
      "rel_cat s' f U m" "call_kept f s s'" "page_of s' = page_of s"
      by (rule getInfo_lookup [OF c room2 False n]) (rule that)
    then show thesis using False by (intro that [of s' U]) (simp_all add: Get)
  qed (use c in \<open>auto simp: Get RelCatalog_getInfo_def intro!: that [of s U] call_kept_refl\<close>)
next
  case (Add rd)
  then obtain r where r: "rel_rec r rd" "m (rd_relName rd) = None" using ok rel_desc_rec by auto
  obtain s' U' where "RelCatalog_addInfo s rd = Some (OK, s')" "rel_cat s' f U' (m(rd_relName rd \<mapsto> rd))" "call_kept f s s'"
    "lay_size U' \<le> Suc (lay_size U)" "\<And>g q. g \<noteq> f \<Longrightarrow> page_of s' g q = page_of s g q"
    by (rule addInfo_update [OF c room r]) (rule that)
  then show thesis by (intro that [of s' U']) (simp_all add: Add)
next
  case (Remove n)
  show thesis
  proof (cases "n = []")
    case False
    have room2: "card (pinned s) + 2 \<le> numBufs s" and n: "c_name n" using room ok Remove by simp_all
    obtain s' where "RelCatalog_removeInfo s n = Some (if m n = None then RELNOTFOUND else OK, s')"
      "rel_cat s' f U (m(n := None))" "call_kept f s s'" "\<And>g q. g \<noteq> f \<Longrightarrow> page_of s' g q = page_of s g q"
      by (rule removeInfo_delete [OF c room2 False n]) (rule that)
    then show thesis using False by (intro that [of s' U]) (simp_all add: Remove)
  qed (use c in \<open>auto simp: Remove RelCatalog_removeInfo_def intro!: that [of s U] call_kept_refl\<close>)
qed

lemma call_kept_room: "call_kept f s s' \<Longrightarrow> pinned s' = pinned s \<and> numBufs s' = numBufs s"
  by (simp add: call_kept_def pool_rest_def)

lemma rel_run_map:
  assumes "rel_cat s f U m" "card (pinned s) + 3 \<le> numBufs s" "lay_size U + length ops \<le> 2147483647" "rel_ops_ok ops m"
  shows "\<exists>s' U'. rel_run ops s = Some (fst (map_run ops m), s') \<and> rel_cat s' f U' (snd (map_run ops m)) \<and>
    call_kept f s s' \<and> (\<forall>g q. g \<noteq> f \<longrightarrow> page_of s' g q = page_of s g q)"
  using assms
proof (induction ops arbitrary: s U m)
  case (Cons op ops)
  have sz: "lay_size U < 2147483647" and ok: "rel_op_ok op m" using Cons.prems by simp_all
  obtain s1 U1 where A: "rel_step op s = Some (fst (map_step op m), s1)" "rel_cat s1 f U1 (snd (map_step op m))" "call_kept f s s1"
    "lay_size U1 \<le> Suc (lay_size U)" "\<And>g q. g \<noteq> f \<Longrightarrow> page_of s1 g q = page_of s g q"
    by (rule rel_step_map [OF Cons.prems(1,2) sz ok]) (rule that)
  have "\<exists>s' U'. rel_run ops s1 = Some (fst (map_run ops (snd (map_step op m))), s') \<and>
      rel_cat s' f U' (snd (map_run ops (snd (map_step op m)))) \<and> call_kept f s1 s' \<and>
      (\<forall>g q. g \<noteq> f \<longrightarrow> page_of s' g q = page_of s1 g q)"
    by (rule Cons.IH [OF A(2)]) (use Cons.prems A(4) call_kept_room [OF A(3)] in simp_all)
  then obtain s' U' where B: "rel_run ops s1 = Some (fst (map_run ops (snd (map_step op m))), s')"
    "rel_cat s' f U' (snd (map_run ops (snd (map_step op m))))" "call_kept f s1 s'"
    "\<forall>g q. g \<noteq> f \<longrightarrow> page_of s' g q = page_of s1 g q" by blast
  have "call_kept f s s'" by (rule call_kept_trans [OF A(3) B(3)])
  then show ?case using A(1,5) B(1,2,4)
    by (intro exI [of _ s'] exI [of _ U']) (simp add: case_prod_beta Let_def)
qed (auto simp: call_kept_refl)

text \<open>
  C12: The relation catalog is a finite map from names to descriptors. In any sequence of calls of
  getInfo, addInfo and removeInfo on the open catalog that adds only names that are not there yet
  (addInfo itself does not check; createRel does), in a pool with three free frames, every call answers what it answers on the map: getInfo and removeInfo fail exactly on the names
  that are not there, getInfo returns the descriptor added last under the name. Afterwards no call
  holds a page or the file any longer, the frames and unsaved changes of the other users of the
  pool are as they were, and no page of any other file has changed.
\<close>
theorem RelCatalog_refines_map:
  assumes "rel_cat s f U m" "card (pinned s) + 3 \<le> numBufs s" "lay_size U + length ops \<le> 2147483647" "rel_ops_ok ops m"
  shows "\<exists>s' U'. rel_run ops s = Some (fst (map_run ops m), s') \<and> rel_cat s' f U' (snd (map_run ops m)) \<and>
    call_kept f s s' \<and> (\<forall>g q. g \<noteq> f \<longrightarrow> page_of s' g q = page_of s g q)"
  by (rule rel_run_map [OF assms])

text \<open>An empty heap file, and a program that has just opened it.\<close>

definition empty_hdr :: page where
  "empty_hdr = set_hdr_recCnt (set_hdr_pageCnt (set_hdr_lastPage (set_hdr_firstPage zero_mem 2) 2) 1) 0"

definition empty_heap :: "page list" where
  "empty_heap = [set_db_numPages (set_db_firstPage (set_db_nextFree zero_mem (-1)) 1) 3, empty_hdr, Page_init zero_mem 2]"

lemma empty_heap_file:
  "db_file empty_heap []" "db_firstPage (empty_heap ! 0) = 1" "heap_file (disk_view empty_heap) 1 empty_hdr [2]"
  "set [2] \<subseteq> used_pages empty_heap []" "chain_recs (disk_view empty_heap) [2] = []" "length empty_heap = 3"
proof -
  have V: "disk_view empty_heap 1 = Some empty_hdr" "disk_view empty_heap 2 = Some (Page_init zero_mem 2)"
    by (simp_all add: disk_view_def empty_heap_def numeral_2_eq_2)
  have d: "data_page 2 (Page_init zero_mem 2)" "page_recs 2 (Page_init zero_mem 2) = []" "nextPage (Page_init zero_mem 2) = -1"
    using page_init_inv [of zero_mem 2] by (simp_all add: data_page_def page_init_fields page_recs_from_def used_from_def)
  show "db_file empty_heap []" "db_firstPage (empty_heap ! 0) = 1" "set [2] \<subseteq> used_pages empty_heap []" "length empty_heap = 3"
    by (simp_all add: empty_heap_def db_file_def used_pages_def mem_simps db_numPages_def db_nextFree_def db_firstPage_def
        set_db_nextFree_def set_db_firstPage_def set_db_numPages_def)
  show c: "chain_recs (disk_view empty_heap) [2] = []" using V(2) d(2) by simp
  show "heap_file (disk_view empty_heap) 1 empty_hdr [2]"
    using V d c by (simp add: heap_file_def empty_hdr_def hdr_fields del: chain_recs_simps)
qed

lemma empty_rel_open:
  assumes "name \<noteq> []" "0 < k" "k \<le> 100" "c_str name = name"
  obtains s1 f where "DB_openFile (db_start [name \<mapsto> empty_heap] k) name = Some (OK, Some f, s1)"
    "rel_open s1 name f (layout_of empty_heap []) empty_hdr [2]" "chain_recs (page_of s1 f) [2] = []" "pinned s1 = {}" "numBufs s1 = k"
proof -
  let ?s = "db_start [name \<mapsto> empty_heap] k"
  have k: "int (k * 6 div 5) < 1073741824" using assms(3) by linarith
  have n: "\<forall>x \<in> dom [name \<mapsto> empty_heap]. c_str x = x" using assms(4) by simp
  note I = db_start_inv [OF assms(2) k n]
  have inv: "db_inv ?s" and o: "of_map (openFiles ?s) name = None" "disk ?s name = Some empty_heap"
    using I(1) by (simp_all add: db_start_fields of_new_map)
  have h: "heap_file (disk_view empty_heap) (db_firstPage (empty_heap ! 0)) empty_hdr [2]" using empty_heap_file(2,3) by simp
  obtain s1 where R: "DB_openFile ?s name = Some (OK, Some (next_ptr ?s), s1)"
    "rel_open s1 name (next_ptr ?s) (layout_of empty_heap []) empty_hdr [2]" "page_of s1 (next_ptr ?s) = disk_view empty_heap"
    "pin_of s1 = pin_of ?s" "numBufs s1 = numBufs ?s"
    by (rule rel_open_new [OF inv assms(1) o empty_heap_file(1) h empty_heap_file(4)]) (rule that)
  have "chain_recs (page_of s1 (next_ptr ?s)) [2] = []" unfolding R(3) by (rule empty_heap_file(5))
  moreover have "pinned s1 = {}" using R(4) I(3) by (simp add: busy_def)
  ultimately show thesis using that [OF R(1,2)] R(5) by (simp add: db_start_fields)
qed

lemma RelCatalog_refines_map_witness:
  "\<exists>f s1 s2. DB_openFile (db_start [RELCATNAME \<mapsto> empty_heap] 3) RELCATNAME = Some (OK, Some f, s1) \<and>
     rel_run [Add \<lparr>rd_relName = ''emp'', rd_attrCnt = 2\<rparr>, Get ''emp'', Remove ''emp'', Get ''emp'', Get []] s1 =
       Some ([(OK, None), (OK, Some \<lparr>rd_relName = ''emp'', rd_attrCnt = 2\<rparr>), (OK, None), (RELNOTFOUND, None), (BADCATPARM, None)], s2)"
proof -
  let ?ops = "[Add \<lparr>rd_relName = ''emp'', rd_attrCnt = 2\<rparr>, Get ''emp'', Remove ''emp'', Get ''emp'', Get []]"
  have ne: "RELCATNAME \<noteq> []" "(0 :: nat) < 3" "(3 :: nat) \<le> 100" "c_str RELCATNAME = RELCATNAME" by (simp_all add: RELCATNAME_def)
  obtain s1 f where O: "DB_openFile (db_start [RELCATNAME \<mapsto> empty_heap] 3) RELCATNAME = Some (OK, Some f, s1)"
    "rel_open s1 RELCATNAME f (layout_of empty_heap []) empty_hdr [2]" "chain_recs (page_of s1 f) [2] = []" "pinned s1 = {}" "numBufs s1 = 3"
    by (rule empty_rel_open [OF ne]) (rule that)
  have c: "rel_cat s1 f (layout_of empty_heap []) Map.empty"
    unfolding rel_cat_def by (intro exI [of _ empty_hdr] exI [of _ "[2]"]) (use O(2,3) in \<open>simp add: rel_recs_def cat_assoc_def\<close>)
  have ok: "rel_ops_ok ?ops Map.empty" by (simp add: rel_desc_ok_def MAXNAME_def c_name_def int_range_def)
  have room: "card (pinned s1) + 3 \<le> numBufs s1" "lay_size (layout_of empty_heap []) + length ?ops \<le> 2147483647"
    using O(4,5) empty_heap_file(6) by simp_all
  obtain s2 where "rel_run ?ops s1 = Some (fst (map_run ?ops Map.empty), s2)"
    using RelCatalog_refines_map [OF c room ok] by blast
  then show ?thesis using O(1) by (intro exI [of _ f] exI [of _ s1] exI [of _ s2]) simp
qed

end
