(* ===== verification/CatalogAttrs.thy ===== *)
theory CatalogAttrs
  imports CatalogMap
begin

text \<open>
  Lookups in the attribute catalog: getRelInfo returns the descriptors of a relation in the order
  of the file, getInfo the first one with a given attribute name. Both run on the open file
  attrcat and leave it as it was.
\<close>

section \<open>The records of the catalog\<close>

definition attr_rec :: "byte list \<Rightarrow> AttrDesc \<Rightarrow> bool" where
  "attr_rec r ad \<longleftrightarrow> AttrDesc_bytes ad = Some r \<and> attr_desc_ok ad"

definition attr_recs :: "(RID \<times> byte list) list \<Rightarrow> bool" where
  "attr_recs recs \<longleftrightarrow> (\<forall>r \<in> snd ` set recs. \<exists>ad. attr_rec r ad)"

definition attr_list :: "(RID \<times> byte list) list \<Rightarrow> AttrDesc list" where
  "attr_list recs = map (\<lambda>(rid, r). the (bytes_AttrDesc r)) recs"

definition rel_attrs :: "(RID \<times> byte list) list \<Rightarrow> string \<Rightarrow> AttrDesc list" where
  "rel_attrs recs n = filter (\<lambda>ad. ad_relName ad = n) (attr_list recs)"

lemma rel_attrs_simps [simp]:
  "rel_attrs [] n = []"
  "rel_attrs ((rid, r) # recs) n =
     (if ad_relName (the (bytes_AttrDesc r)) = n then the (bytes_AttrDesc r) # rel_attrs recs n else rel_attrs recs n)"
  by (simp_all add: rel_attrs_def attr_list_def)

lemma attr_recD:
  assumes "attr_rec r ad"
  shows "bytes_AttrDesc r = Some ad" "c_name n \<Longrightarrow> HeapFileScan_matchRec (snd (startScan_rel hfs n)) r \<longleftrightarrow> ad_relName ad = n"
  using assms AttrDesc_decode [of ad r] AttrDesc_match(1) [where hfs = hfs and ad = ad and bs = r and relation = n]
  by (simp_all add: attr_rec_def)

text \<open>The filter of the scan skips the descriptors of the other relations.\<close>

lemma attr_skip:
  assumes ok: "attr_recs recs" and m: "\<And>r. HeapFileScan_matchRec h r = HeapFileScan_matchRec (snd (startScan_rel hfs n)) r" and n: "c_name n"
  shows "case dropWhile (\<lambda>(rid, r). \<not> HeapFileScan_matchRec h r) recs of
      [] \<Rightarrow> rel_attrs recs n = []
    | (rid, r) # rs \<Rightarrow> \<exists>ad. bytes_AttrDesc r = Some ad \<and> rel_attrs recs n = ad # rel_attrs rs n \<and> attr_recs rs \<and>
        length rs < length recs"
  using ok
proof (induction recs)
  case (Cons a recs)
  obtain rid r where a: "a = (rid, r)" by (cases a)
  have ok: "attr_recs recs" using Cons.prems by (simp add: attr_recs_def)
  obtain ad where ad: "attr_rec r ad" using Cons.prems a by (auto simp: attr_recs_def)
  note dec = attr_recD(1) [OF ad] and mt = attr_recD(2) [OF ad n, where hfs = hfs, folded m]
  show ?case
  proof (cases "ad_relName ad = n")
    case True
    then show ?thesis using dec mt ok by (simp add: a)
  next
    case False
    then show ?thesis using Cons.IH [OF ok] dec mt
      by (auto simp: a simp del: dropWhile_eq_Nil_conv dropWhile_eq_Cons_conv split: list.splits)
  qed
qed simp

section \<open>The loops\<close>

definition rel_filter :: "filescan \<Rightarrow> string \<Rightarrow> bool" where
  "rel_filter h n \<longleftrightarrow> (\<exists>hfs. \<forall>r. HeapFileScan_matchRec h r = HeapFileScan_matchRec (snd (startScan_rel hfs n)) r)"

lemma rel_filter_same: "rel_filter h n \<Longrightarrow> same_scan h h2 \<Longrightarrow> rel_filter h2 n"
  by (simp add: rel_filter_def same_scanD(2))

lemma attr_next:
  assumes st: "standing s f U hdr xs s1 h recs" and ok: "attr_recs recs" and m: "rel_filter h n" and n: "c_name n"
  obtains out s2 h2 where "HeapFileScan_scanNext s1 h = Some (FILEEOF, out, s2, h2)" "rel_attrs recs n = []"
    "standing s f U hdr xs s2 h2 []"
  | out s2 h2 r ad rs where "HeapFileScan_scanNext s1 h = Some (OK, out, s2, h2)" "HeapFileScan_getRecord s2 h2 = Some (OK, Some r)"
    "bytes_AttrDesc r = Some ad" "rel_attrs recs n = ad # rel_attrs rs n" "attr_recs rs" "length rs < length recs"
    "standing s f U hdr xs s2 h2 rs" "rel_filter h2 n" "(curRec h2, r) \<in> set recs" "pageNo (curRec h2) = cur_pageNo h2"
    "set rs \<subseteq> set recs"
proof -
  obtain hfs where hfs: "\<And>r. HeapFileScan_matchRec h r = HeapFileScan_matchRec (snd (startScan_rel hfs n)) r"
    using m by (auto simp: rel_filter_def)
  obtain st' out s2 h2 where N: "HeapFileScan_scanNext s1 h = Some (st', out, s2, h2)" "same_scan h h2"
    "case dropWhile (\<lambda>(rid, rec). \<not> HeapFileScan_matchRec h rec) recs of
       [] \<Rightarrow> st' = FILEEOF \<and> out = None \<and> standing s f U hdr xs s2 h2 []
     | (rid, rec) # rs \<Rightarrow> st' = OK \<and> out = Some rid \<and> curRec h2 = rid \<and> pageNo rid = cur_pageNo h2 \<and>
         HeapFileScan_getRecord s2 h2 = Some (OK, Some rec) \<and> standing s f U hdr xs s2 h2 rs"
    by (rule standing_next [OF st]) (rule that)
  note skip = attr_skip [OF ok hfs n]
  show thesis
  proof (cases "dropWhile (\<lambda>(rid, rec). \<not> HeapFileScan_matchRec h rec) recs")
    case Nil
    have "st' = FILEEOF" "standing s f U hdr xs s2 h2 []" "rel_attrs recs n = []" using N(3) skip unfolding Nil by simp_all
    then show thesis using that(1) N(1) by simp
  next
    case (Cons a rs)
    obtain rid r where a: "a = (rid, r)" by (cases a)
    have S: "st' = OK" "HeapFileScan_getRecord s2 h2 = Some (OK, Some r)" "standing s f U hdr xs s2 h2 rs"
      "curRec h2 = rid" "pageNo rid = cur_pageNo h2"
      using N(3) unfolding Cons a by simp_all
    have "set ((rid, r) # rs) \<subseteq> set recs" using Cons a by (metis set_dropWhileD subsetI)
    then have sub: "(rid, r) \<in> set recs" "set rs \<subseteq> set recs" by simp_all
    obtain ad where ad: "bytes_AttrDesc r = Some ad" "rel_attrs recs n = ad # rel_attrs rs n" "attr_recs rs" "length rs < length recs"
      using skip unfolding Cons a by auto
    show thesis using that(2) [OF _ S(2) ad S(3) rel_filter_same [OF m N(2)]] N(1) S(1,4,5) sub by simp
  qed
qed

lemma attr_collect_spec:
  assumes "standing s f U hdr xs s1 h recs" "attr_recs recs" "rel_filter h n" "c_name n"
  shows "\<exists>s2 h2. attr_collect_loop s1 h acc = Some (False, FILEEOF, acc @ rel_attrs recs n, s2, h2) \<and> standing s f U hdr xs s2 h2 []"
  using assms
proof (induction recs arbitrary: s1 h acc rule: length_induct)
  case (1 recs)
  show ?case
  proof (cases rule: attr_next [OF 1(2-5)])
    case (1 out s2 h2)
    then show ?thesis by (subst attr_collect_loop.simps) simp
  next
    case (2 out s2 h2 r ad rs)
    obtain s3 h3 where L: "attr_collect_loop s2 h2 (acc @ [ad]) = Some (False, FILEEOF, (acc @ [ad]) @ rel_attrs rs n, s3, h3)"
      "standing s f U hdr xs s3 h3 []"
      using 1(1) 2(5-8) 1(5) by blast
    then show ?thesis using 2(1-4) by (subst attr_collect_loop.simps) simp
  qed
qed

lemma attr_find_spec:
  assumes "standing s f U hdr xs s1 h recs" "attr_recs recs" "rel_filter h n" "c_name n"
  shows "\<exists>st r s2 h2 rest. attr_find_loop s1 h a acc = Some (False, st, r, s2, h2) \<and> standing s f U hdr xs s2 h2 rest \<and>
    (case find (\<lambda>ad. ad_attrName ad = a) (rel_attrs recs n) of None \<Rightarrow> st = FILEEOF | Some ad \<Rightarrow> st = OK \<and> r = Some ad \<and>
       (\<exists>rec. bytes_AttrDesc rec = Some ad \<and> (curRec h2, rec) \<in> set recs) \<and> pageNo (curRec h2) = cur_pageNo h2)"
  using assms
proof (induction recs arbitrary: s1 h acc rule: length_induct)
  case (1 recs)
  show ?case
  proof (cases rule: attr_next [OF 1(2-5)])
    case (1 out s2 h2)
    then show ?thesis by (subst attr_find_loop.simps) auto
  next
    case (2 out s2 h2 r ad rs)
    show ?thesis
    proof (cases "ad_attrName ad = a")
      case True
      then show ?thesis using 2(1-4,7,9,10) by (subst attr_find_loop.simps) auto
    next
      case False
      obtain st r' s3 h3 rest where L: "attr_find_loop s2 h2 a (Some ad) = Some (False, st, r', s3, h3)"
        "standing s f U hdr xs s3 h3 rest"
        "case find (\<lambda>ad. ad_attrName ad = a) (rel_attrs rs n) of None \<Rightarrow> st = FILEEOF | Some ad \<Rightarrow> st = OK \<and> r' = Some ad \<and>
          (\<exists>rec. bytes_AttrDesc rec = Some ad \<and> (curRec h3, rec) \<in> set rs) \<and> pageNo (curRec h3) = cur_pageNo h3"
        using 1(1) 2(5-8) 1(5) by blast
      have "attr_find_loop s1 h a acc = attr_find_loop s2 h2 a (Some ad)"
        using 2(1-3) False by (subst attr_find_loop.simps) simp
      then show ?thesis using L 2(4,11) False
        by (intro exI [of _ st] exI [of _ r'] exI [of _ s3] exI [of _ h3] exI [of _ rest]) (auto split: option.splits)
    qed
  qed
qed

section \<open>The lookups\<close>

lemma attr_lookup_start:
  assumes r: "rel_open s ATTRCATNAME f U hdr xs" and room: "card (pinned s) + 2 \<le> numBufs s"
  obtains s1 hfs h where "HeapFileScan_new s ATTRCATNAME = Some (OK, Some hfs, s1)" "startScan_rel hfs n = (OK, h)"
    "standing s f U hdr xs s1 h (chain_recs (page_of s f) xs)" "rel_filter h n"
proof -
  obtain s1 hfs h where O: "HeapFileScan_new s ATTRCATNAME = Some (OK, Some hfs, s1)" "startScan_rel hfs n = (OK, h)"
    "snd (startScan_rel hfs n) = h" "standing s f U hdr xs s1 h (chain_recs (page_of s f) xs)"
    by (rule lookup_start [OF r room]) (rule that)
  have "rel_filter h n" using O(3) unfolding rel_filter_def by (intro exI [of _ hfs]) simp
  then show thesis using that O by blast
qed

lemma getRelInfo_spec:
  assumes r: "rel_open s ATTRCATNAME f U hdr xs" and room: "card (pinned s) + 2 \<le> numBufs s"
    and ok: "attr_recs (chain_recs (page_of s f) xs)" and n: "n \<noteq> []" "c_name n"
  shows "\<exists>s'. AttrCatalog_getRelInfo s n =
      Some (if rel_attrs (chain_recs (page_of s f) xs) n = [] then RELNOTFOUND else OK, rel_attrs (chain_recs (page_of s f) xs) n, s') \<and>
    call_kept f s s' \<and> page_of s' = page_of s \<and> rel_open s' ATTRCATNAME f U hdr xs"
proof -
  obtain s1 hfs h where O: "HeapFileScan_new s ATTRCATNAME = Some (OK, Some hfs, s1)" "startScan_rel hfs n = (OK, h)"
    "standing s f U hdr xs s1 h (chain_recs (page_of s f) xs)" "rel_filter h n"
    by (rule attr_lookup_start [OF r room]) (rule that)
  obtain s2 h2 where L: "attr_collect_loop s1 h [] = Some (False, FILEEOF, rel_attrs (chain_recs (page_of s f) xs) n, s2, h2)"
    "standing s f U hdr xs s2 h2 []"
    using attr_collect_spec [OF O(3) ok O(4) n(2), of "[]"] by auto
  obtain s3 h3 s4 where D: "HeapFileScan_endScan s2 h2 = Some (OK, s3, h3)" "HeapFileScan_delete s3 h3 = Some s4"
    "call_kept f s s4" "page_of s4 = page_of s" "rel_open s4 ATTRCATNAME f U hdr xs"
    by (rule standing_delete [OF r L(2)]) (rule that)
  show ?thesis using n(1) O(1,2) L(1) D by (intro exI [of _ s4]) (simp add: AttrCatalog_getRelInfo_def Let_def)
qed

lemma attrInfo_spec:
  assumes r: "rel_open s ATTRCATNAME f U hdr xs" and room: "card (pinned s) + 2 \<le> numBufs s"
    and ok: "attr_recs (chain_recs (page_of s f) xs)" and n: "n \<noteq> []" "c_name n" "a \<noteq> []"
  shows "\<exists>s' st d. AttrCatalog_getInfo s n a = Some (st, d, s') \<and>
    (case find (\<lambda>ad. ad_attrName ad = a) (rel_attrs (chain_recs (page_of s f) xs) n) of
       None \<Rightarrow> st = ATTRNOTFOUND | Some ad \<Rightarrow> st = OK \<and> d = Some ad) \<and>
    call_kept f s s' \<and> page_of s' = page_of s \<and> rel_open s' ATTRCATNAME f U hdr xs"
proof -
  obtain s1 hfs h where O: "HeapFileScan_new s ATTRCATNAME = Some (OK, Some hfs, s1)" "startScan_rel hfs n = (OK, h)"
    "standing s f U hdr xs s1 h (chain_recs (page_of s f) xs)" "rel_filter h n"
    by (rule attr_lookup_start [OF r room]) (rule that)
  let ?found = "find (\<lambda>ad. ad_attrName ad = a) (rel_attrs (chain_recs (page_of s f) xs) n)"
  obtain st d s2 h2 rest where L: "attr_find_loop s1 h a None = Some (False, st, d, s2, h2)" "standing s f U hdr xs s2 h2 rest"
    "case ?found of None \<Rightarrow> st = FILEEOF | Some ad \<Rightarrow> st = OK \<and> d = Some ad"
    using attr_find_spec [OF O(3) ok O(4) n(2), of a None] by (fastforce split: option.splits)
  obtain s3 h3 s4 where D: "HeapFileScan_endScan s2 h2 = Some (OK, s3, h3)" "HeapFileScan_delete s3 h3 = Some s4"
    "call_kept f s s4" "page_of s4 = page_of s" "rel_open s4 ATTRCATNAME f U hdr xs"
    by (rule standing_delete [OF r L(2)]) (rule that)
  have "AttrCatalog_getInfo s n a = Some (if st = FILEEOF then ATTRNOTFOUND else OK, d, s4)"
    using n O(1,2) L(1,3) D(1,2) by (auto simp: AttrCatalog_getInfo_def Let_def split: option.splits)
  then show ?thesis using L(3) D(3-5)
    by (intro exI [of _ s4] exI [of _ "if st = FILEEOF then ATTRNOTFOUND else OK"] exI [of _ d]) (auto split: option.splits)
qed

text \<open>
  C13: On the open attribute catalog getRelInfo returns exactly the descriptors of the relation, in
  the order of the file, or RELNOTFOUND when there are none; getInfo returns the first of them with
  the given attribute name, or ATTRNOTFOUND. Neither changes a page, and both give back the pages
  they held and the use of the file.
\<close>
theorem AttrCatalog_lookups:
  assumes "rel_open s ATTRCATNAME f U hdr xs" "card (pinned s) + 2 \<le> numBufs s" "attr_recs (chain_recs (page_of s f) xs)"
    "n \<noteq> []" "c_name n" "a \<noteq> []" "as = rel_attrs (chain_recs (page_of s f) xs) n"
  shows "(\<exists>s'. AttrCatalog_getRelInfo s n = Some (if as = [] then RELNOTFOUND else OK, as, s') \<and>
      call_kept f s s' \<and> page_of s' = page_of s) \<and>
    (\<exists>s' st d. AttrCatalog_getInfo s n a = Some (st, d, s') \<and>
      (case find (\<lambda>ad. ad_attrName ad = a) as of None \<Rightarrow> st = ATTRNOTFOUND | Some ad \<Rightarrow> st = OK \<and> d = Some ad) \<and>
      call_kept f s s' \<and> page_of s' = page_of s)"
  using getRelInfo_spec [OF assms(1-5)] attrInfo_spec [OF assms(1-6)] assms(7) by blast

text \<open>A catalog with one descriptor: addInfo has written it.\<close>

definition example_attr :: AttrDesc where
  "example_attr = \<lparr>ad_relName = ''emp'', ad_attrName = ''age'', ad_attrOffset = 20, ad_attrType = 1, ad_attrLen = 4\<rparr>"

lemma example_attrcat:
  obtains s f U hdr xs where "rel_open (s :: db) ATTRCATNAME f U hdr xs" "card (pinned s) + 2 \<le> numBufs s"
    "attr_recs (chain_recs (page_of s f) xs)" "attr_list (chain_recs (page_of s f) xs) = [example_attr]"
proof -
  obtain r where r: "AttrDesc_bytes example_attr = Some r"
    by (simp add: example_attr_def AttrDesc_bytes_def name_bytes_def MAXNAME_def)
  have ok: "attr_rec r example_attr" using r by (simp add: attr_rec_def attr_desc_ok_def example_attr_def c_name_def int_range_def)
  have dec: "bytes_AttrDesc r = Some example_attr" by (rule attr_recD [OF ok])
  have l: "r \<noteq> []" "length r \<le> 1000" using dec by (auto simp: bytes_AttrDesc_def split: if_splits)
  have ne: "ATTRCATNAME \<noteq> []" "(0 :: nat) < 3" "(3 :: nat) \<le> 100" "c_str ATTRCATNAME = ATTRCATNAME" by (simp_all add: ATTRCATNAME_def)
  obtain s1 :: db and f where O: "rel_open s1 ATTRCATNAME f (layout_of empty_heap []) empty_hdr [2]" "chain_recs (page_of s1 f) [2] = []"
    "pinned s1 = {}" "numBufs s1 = 3"
    by (rule empty_rel_open [OF ne]) (rule that, assumption+)
  have room: "card (pinned s1) + 3 \<le> numBufs s1" "lay_size (layout_of empty_heap []) < 2147483647"
    using O(3,4) empty_heap_file(6) by simp_all
  obtain s3 rid U' hdr' xs' where I: "call_kept f s1 s3" "rel_open s3 ATTRCATNAME f U' hdr' xs'"
    "mset (chain_recs (page_of s3 f) xs') = add_mset (rid, r) (mset (chain_recs (page_of s1 f) [2]))"
    by (rule insert_call [OF O(1) l room]) (rule that, assumption+)
  have "chain_recs (page_of s3 f) xs' = [(rid, r)]" using I(3) O(2) by simp
  then show thesis
    using that [OF I(2)] call_kept_room [OF I(1)] O(3,4) ok dec by (auto simp: attr_recs_def attr_list_def)
qed

lemma AttrCatalog_lookups_witness:
  "\<exists>(s :: db) s1 s2 s3 d. AttrCatalog_getRelInfo s ''emp'' = Some (OK, [example_attr], s1) \<and>
     AttrCatalog_getInfo s ''emp'' ''age'' = Some (OK, Some example_attr, s2) \<and>
     AttrCatalog_getInfo s ''emp'' ''name'' = Some (ATTRNOTFOUND, d, s3)"
proof -
  obtain s :: db and f U hdr xs where S: "rel_open s ATTRCATNAME f U hdr xs" "card (pinned s) + 2 \<le> numBufs s"
    "attr_recs (chain_recs (page_of s f) xs)" "attr_list (chain_recs (page_of s f) xs) = [example_attr]"
    by (rule example_attrcat) (rule that)
  have as: "[example_attr] = rel_attrs (chain_recs (page_of s f) xs) ''emp''" using S(4) by (simp add: rel_attrs_def example_attr_def)
  have n: "''emp'' \<noteq> []" "c_name ''emp''" "''age'' \<noteq> []" "''name'' \<noteq> []" by (simp_all add: c_name_def)
  from AttrCatalog_lookups [OF S(1-3) n(1-3) as] AttrCatalog_lookups [OF S(1-3) n(1,2,4) as]
  show ?thesis by (auto simp: example_attr_def)
qed

end
