(* ===== verification/Utility.thy ===== *)
theory Utility
  imports Catalog
begin

text \<open>
  The utilities (help.C, print.C, load.C, quit.C) and the main programs that create a database
  and open one (dbcreate.C, minirel.C). What they print goes to the output of the state.
\<close>

section \<open>Records in the buffer pool\<close>

text \<open>The data pointer of the record a scan is on: a frame and an address in its page. It is
  followed when the bytes are used.\<close>

definition scan_rec_ptr :: "'z db_scheme \<Rightarrow> 'h filescan_scheme \<Rightarrow> (nat \<times> int) option" where
  "scan_rec_ptr s h =
     (case curPage h of Frame i \<Rightarrow> Some (i, slot_offset (bufPool s ! i) (- slotNo (curRec h))) | _ \<Rightarrow> None)"

definition ptr_mem :: "'z db_scheme \<Rightarrow> nat \<times> int \<Rightarrow> mem" where
  "ptr_mem s p = (\<lambda>x. (bufPool s ! fst p) (snd p + x))"

section \<open>print\<close>

text \<open>A column whose type is no Datatype leaves its width uninitialised.\<close>

definition column_width :: "AttrDesc \<Rightarrow> nat option" where
  "column_width ad =
     (let namelen = length (ad_attrName ad)
      in case type_of_code (ad_attrType ad) of
           Some STRING \<Rightarrow> Some (nat (min (max (int namelen) (ad_attrLen ad)) 20))
         | Some _ \<Rightarrow> Some (min (max namelen 5) 7)
         | None \<Rightarrow> None)"

fun UT_computeWidth :: "AttrDesc list \<Rightarrow> nat option list" where
  "UT_computeWidth [] = []"
| "UT_computeWidth (a # as) = column_width a # UT_computeWidth as"

definition print_field :: "AttrDesc \<Rightarrow> nat \<Rightarrow> mem \<Rightarrow> string" where
  "print_field ad w rec =
     (let a = ad_attrOffset ad
      in pad_right w (case type_of_code (ad_attrType ad) of
             Some INTEGER \<Rightarrow> dec_int (rd_int rec a)
           | Some FLOAT \<Rightarrow> fixed 2 (rd_int rec a)
           | _ \<Rightarrow> prec_string w rec a) @ ''  '')"

fun UT_printRec :: "AttrDesc list \<Rightarrow> nat option list \<Rightarrow> mem \<Rightarrow> string option" where
  "UT_printRec (a # as) (w # ws) rec = do {
     w \<leftarrow> w;
     t \<leftarrow> UT_printRec as ws rec;
     Some (print_field a w rec @ t) }"
| "UT_printRec _ _ rec = Some newline"

fun print_header :: "AttrDesc list \<Rightarrow> nat option list \<Rightarrow> string option" where
  "print_header (a # as) (w # ws) = do {
     w \<leftarrow> w;
     t \<leftarrow> print_header as ws;
     Some (pad_right w (take w (ad_attrName a)) @ '' '' @ t) }"
| "print_header _ _ = Some newline"

fun print_rule :: "nat option list \<Rightarrow> string option" where
  "print_rule (w # ws) = do {
     w \<leftarrow> w;
     t \<leftarrow> print_rule ws;
     Some (replicate w (CHR ''-'') @ ''  '' @ t) }"
| "print_rule [] = Some newline"

text \<open>The flag tells a return from inside the loop from its end.\<close>

partial_function (option) print_loop ::
  "'z minirel_scheme \<Rightarrow> filescan \<Rightarrow> AttrDesc list \<Rightarrow> nat option list \<Rightarrow> int
     \<Rightarrow> (bool \<times> Status \<times> int \<times> 'z minirel_scheme \<times> filescan) option" where
  "print_loop s h attrs ws records =
     Option.bind (HeapFileScan_scanNext s h) (\<lambda>(st, rid, s, h).
       if st \<noteq> OK then Some (False, st, records, s, h)
       else Option.bind (HeapFileScan_getRecord s h) (\<lambda>(st, rec).
         if st \<noteq> OK then Some (True, st, records, s, h)
         else Option.bind (scan_rec_ptr s h) (\<lambda>p.
           Option.bind (UT_printRec attrs ws (ptr_mem s p)) (\<lambda>line.
             print_loop (put_out s line) h attrs ws (records + 1)))))"

definition UT_Print :: "'z minirel_scheme \<Rightarrow> string \<Rightarrow> (Status \<times> 'z minirel_scheme) option" where
  "UT_Print s relation = do {
     let relation = (if relation = [] then RELCATNAME else relation);
     (st, rd, s) \<leftarrow> RelCatalog_getInfo s relation;
     if st \<noteq> OK then Some (st, s) else do {
     rd \<leftarrow> rd;
     (st, attrs, s) \<leftarrow> AttrCatalog_getRelInfo s (rd_relName rd);
     if st \<noteq> OK then Some (st, s) else do {
     let ws = UT_computeWidth attrs;
     (st, hfile, s) \<leftarrow> HeapFileScan_new s (rd_relName rd);
     if st \<noteq> OK then Some (st, s) else do {
     hfile \<leftarrow> hfile;
     let s = put_out s (''Relation name: '' @ rd_relName rd @ newline @ newline);
     head \<leftarrow> print_header attrs ws;
     rule \<leftarrow> print_rule ws;
     let s = put_out s (head @ rule);
     let (st, hfile) = HeapFileScan_startScan hfile 0 0 INTEGER None EQ;
     if st \<noteq> OK then Some (st, s) else do {
     (ret, st, records, s, hfile) \<leftarrow> print_loop s hfile attrs ws 0;
     if ret \<or> st \<noteq> FILEEOF then Some (st, s) else do {
     let s = put_out s (newline @ ''Number of records: '' @ dec_int records @ newline);
     (st, s, hfile) \<leftarrow> HeapFileScan_endScan s hfile;
     if st \<noteq> OK then Some (st, s) else do {
     s \<leftarrow> HeapFileScan_delete s hfile;
     Some (OK, s) }}}}}}}"

section \<open>help\<close>

definition help_line :: "AttrDesc \<Rightarrow> string" where
  "help_line ad =
     pad_left 16 (take 16 (ad_attrName ad)) @ ''   '' @ pad_left 3 (dec_int (ad_attrOffset ad)) @ ''   '' @
     (case type_of_code (ad_attrType ad) of Some INTEGER \<Rightarrow> ''i'' | Some FLOAT \<Rightarrow> ''f'' | _ \<Rightarrow> ''s'') @ ''   '' @
     pad_left 3 (dec_int (ad_attrLen ad)) @ newline"

definition RelCatalog_help :: "'z minirel_scheme \<Rightarrow> string \<Rightarrow> (Status \<times> 'z minirel_scheme) option" where
  "RelCatalog_help s relation =
     (if relation = [] then UT_Print s RELCATNAME else do {
      (st, rd, s) \<leftarrow> RelCatalog_getInfo s relation;
      if st \<noteq> OK then Some (st, s) else do {
      rd \<leftarrow> rd;
      (st, attrs, s) \<leftarrow> AttrCatalog_getRelInfo s relation;
      if st \<noteq> OK then Some (st, s) else do {
      let s = put_out s (''Relation name: '' @ rd_relName rd @ '' ('' @ dec_int (rd_attrCnt rd) @ '' attributes)'' @ newline);
      let s = put_out s (pad_left 16 ''Attribute name'' @ ''   Off   T   Len   I'' @ newline @ newline);
      Some (OK, put_out s (concat (map help_line attrs))) }}})"

section \<open>load\<close>

text \<open>A Unix file as bytes: a database file or another one. The name is cut to a C string.\<close>

definition unix_bytes :: "'z minirel_scheme \<Rightarrow> string \<Rightarrow> byte list option" where
  "unix_bytes s name =
     (case disk s name of
        Some ps \<Rightarrow> Some (concat (map (\<lambda>p. rd_bytes p 0 1024) ps))
      | None \<Rightarrow> data_files s name)"

definition data_open :: "'z minirel_scheme \<Rightarrow> string \<Rightarrow> (int \<times> 'z minirel_scheme) option" where
  "data_open s name =
     (if unix_bytes s (c_str name) = None then None
      else Some (next_fd s, s\<lparr>fds := (fds s)(next_fd s \<mapsto> c_str name), next_fd := next_fd s + 1\<rparr>))"

definition tuple_width :: "AttrDesc list \<Rightarrow> int" where
  "tuple_width attrs = foldl (\<lambda>w a. wrap32 (w + ad_attrLen a)) 0 attrs"

text \<open>The loop reads a tuple at the current position of the descriptor as long as a full one
  is there, and inserts it. A width of 0 reads forever.\<close>

partial_function (option) load_loop ::
  "'z minirel_scheme \<Rightarrow> heapfile \<Rightarrow> string \<Rightarrow> nat \<Rightarrow> nat \<Rightarrow> int \<Rightarrow> (bool \<times> Status \<times> int \<times> 'z minirel_scheme \<times> heapfile) option" where
  "load_loop s iFile name pos width records =
     Option.bind (unix_bytes s name) (\<lambda>bs.
       let rec = take width (drop pos bs)
       in if length rec \<noteq> width then Some (False, OK, records, s, iFile)
          else Option.bind (InsertFileScan_insertRecord s iFile rec) (\<lambda>(st, rid, s, iFile).
            if st \<noteq> OK then Some (True, st, records, s, iFile)
            else load_loop s iFile name (pos + width) width (records + 1)))"

text \<open>The returns before the end leave the descriptor open. An array of negative size cannot be
  allocated (an exception).\<close>

definition UT_Load :: "'z minirel_scheme \<Rightarrow> string \<Rightarrow> string \<Rightarrow> (Status \<times> 'z minirel_scheme) option" where
  "UT_Load s relation unixName =
     (if relation = [] \<or> unixName = [] \<or> relation = RELCATNAME \<or> relation = ATTRCATNAME then Some (BADCATPARM, s)
      else case data_open s unixName of None \<Rightarrow> Some (UNIXERR, s)
      | Some (fd, s) \<Rightarrow> do {
        (st, rd, s) \<leftarrow> RelCatalog_getInfo s relation;
        if st \<noteq> OK then Some (st, s) else do {
        rd \<leftarrow> rd;
        (st, attrs, s) \<leftarrow> AttrCatalog_getRelInfo s (rd_relName rd);
        if st \<noteq> OK then Some (st, s) else do {
        (st, iFile, s) \<leftarrow> InsertFileScan_new s (rd_relName rd);
        if st \<noteq> OK then Some (st, s) else do {
        iFile \<leftarrow> iFile;
        let width = tuple_width attrs;
        if width < 0 then None else do {
        (ret, st, records, s, iFile) \<leftarrow> load_loop s iFile (c_str unixName) 0 (nat width) 0;
        if ret then Some (st, s) else do {
        let s = put_out s (''Number of records inserted: '' @ dec_int records @ newline);
        s \<leftarrow> InsertFileScan_delete s iFile;
        Some (OK, s\<lparr>fds := (fds s)(fd := None)\<rparr>) }}}}}})"

section \<open>The main programs\<close>

text \<open>Inr is the exit status; Inl carries on. The macro CALL ends the program on an error.\<close>

definition check_call :: "(Status \<times> 'z minirel_scheme) option \<Rightarrow> ('z minirel_scheme \<Rightarrow> (int \<times> 'z minirel_scheme) option)
    \<Rightarrow> (int \<times> 'z minirel_scheme) option" where
  "check_call r k = Option.bind r (\<lambda>(st, s). if st \<noteq> OK then Some (1, put_err s (Error_print st)) else k s)"

definition call_rel :: "'z minirel_scheme \<Rightarrow> string \<Rightarrow> int \<Rightarrow> (Status \<times> 'z minirel_scheme) option" where
  "call_rel s rel cnt = RelCatalog_addInfo s \<lparr>rd_relName = rel, rd_attrCnt = cnt\<rparr>"

definition call_attr :: "'z minirel_scheme \<Rightarrow> string \<Rightarrow> string \<Rightarrow> int \<Rightarrow> Datatype \<Rightarrow> int \<Rightarrow> (Status \<times> 'z minirel_scheme) option" where
  "call_attr s rel attr offset type len =
     AttrCatalog_addInfo s \<lparr>ad_relName = rel, ad_attrName = attr, ad_attrOffset = offset,
       ad_attrType = type_code type, ad_attrLen = len\<rparr>"

definition open_catalogs :: "'z minirel_scheme \<Rightarrow> (Status \<times> 'z minirel_scheme) option" where
  "open_catalogs s = do {
     (st, rc, s) \<leftarrow> HeapFile_new s RELCATNAME;
     if st \<noteq> OK then Some (st, s) else do {
     rc \<leftarrow> rc;
     (st, ac, s) \<leftarrow> HeapFile_new s ATTRCATNAME;
     if st \<noteq> OK then Some (st, s\<lparr>relCat := rc\<rparr>) else do {
     ac \<leftarrow> ac;
     Some (OK, s\<lparr>relCat := rc, attrCat := ac\<rparr>) }}}"

definition close_catalogs :: "'z minirel_scheme \<Rightarrow> 'z minirel_scheme option" where
  "close_catalogs s = do {
     s \<leftarrow> HeapFile_delete s (relCat s);
     s \<leftarrow> HeapFile_delete s (attrCat s);
     BufMgr_delete s }"

text \<open>
  The body of dbcreate, from the state in the new empty directory with the buffer manager of 100
  frames, which is also where the directory has been made and entered.
\<close>

definition dbcreate_run :: "'z minirel_scheme \<Rightarrow> string \<Rightarrow> (int \<times> 'z minirel_scheme) option" where
  "dbcreate_run s dbname =
     check_call (createHeapFile s ''relcat'') (\<lambda>s.
     check_call (createHeapFile s ''attrcat'') (\<lambda>s.
     check_call (open_catalogs s) (\<lambda>s.
     check_call (call_rel s RELCATNAME 2) (\<lambda>s.
     check_call (call_attr s RELCATNAME ''relName'' 0 STRING 32) (\<lambda>s.
     check_call (call_attr s RELCATNAME ''attrCnt'' 32 INTEGER 4) (\<lambda>s.
     check_call (call_rel s ATTRCATNAME 5) (\<lambda>s.
     check_call (call_attr s ATTRCATNAME ''relName'' 0 STRING 32) (\<lambda>s.
     check_call (call_attr s ATTRCATNAME ''attrName'' 32 STRING 32) (\<lambda>s.
     check_call (call_attr s ATTRCATNAME ''attrOffset'' 64 INTEGER 4) (\<lambda>s.
     check_call (call_attr s ATTRCATNAME ''attrType'' 68 INTEGER 4) (\<lambda>s.
     check_call (call_attr s ATTRCATNAME ''attrLen'' 72 INTEGER 4) (\<lambda>s. do {
       s \<leftarrow> close_catalogs s;
       Some (0, put_out s (''Database '' @ dbname @ '' created'' @ newline)) }))))))))))))"

text \<open>The program: the results of mkdir and chdir are inputs, None for success and the message
  of perror otherwise.\<close>

definition dbcreate_main ::
  "string list \<Rightarrow> string option \<Rightarrow> string option \<Rightarrow> 'z minirel_scheme \<Rightarrow> (int \<times> 'z minirel_scheme) option" where
  "dbcreate_main argv mkdir chdir s =
     (case argv of
        prog # dbname # _ \<Rightarrow>
          (case mkdir of Some msg \<Rightarrow> Some (1, put_err s msg)
           | None \<Rightarrow> (case chdir of Some msg \<Rightarrow> Some (1, put_err s msg) | None \<Rightarrow> dbcreate_run s dbname))
      | prog # [] \<Rightarrow> Some (1, put_err s (''Usage: '' @ prog @ '' dbname'' @ newline))
      | [] \<Rightarrow> None)"

datatype JoinType = NLJoin | SMJoin | HashJoin

definition join_method :: "string list \<Rightarrow> JoinType" where
  "join_method argv =
     (case argv of [_, _, m] \<Rightarrow> if m = ''SM'' then SMJoin else if m = ''HJ'' then HashJoin else NLJoin
      | _ \<Rightarrow> NLJoin)"

text \<open>The program minirel up to the call of the parser: Inl is the exit, Inr the start of the parser.\<close>

definition minirel_main ::
  "string list \<Rightarrow> string option \<Rightarrow> 'z minirel_scheme \<Rightarrow> (int \<times> 'z minirel_scheme + JoinType \<times> 'z minirel_scheme) option" where
  "minirel_main argv chdir s =
     (case argv of
        prog # dbname # _ \<Rightarrow>
          (case chdir of Some msg \<Rightarrow> Some (Inl (1, put_err s msg))
           | None \<Rightarrow> do {
               (st, s) \<leftarrow> open_catalogs s;
               if st \<noteq> OK then Some (Inl (1, put_err s (Error_print st)))
               else
                 let s = put_out s (''Welcome to Minirel'' @ newline @ ''    Using '');
                     s = put_out s ((case join_method argv of NLJoin \<Rightarrow> ''Nested Loops Join Method''
                            | HashJoin \<Rightarrow> ''Hash Join Method'' | SMJoin \<Rightarrow> ''Sort Merge Join Method'') @ newline)
                 in Some (Inr (join_method argv, s)) })
      | prog # [] \<Rightarrow> Some (Inl (1, put_err s (''Usage: '' @ prog @ '' dbname'' @ newline)))
      | [] \<Rightarrow> None)"

text \<open>quit ends the program with status 1.\<close>

definition UT_Quit :: "'z minirel_scheme \<Rightarrow> (int \<times> 'z minirel_scheme) option" where
  "UT_Quit s = do {
     s \<leftarrow> close_catalogs s;
     Some (1, s) }"

end
