(* ===== verification/Query.thy ===== *)
theory Query
  imports Utility
begin

text \<open>
  The query operators (insert.C, delete.C, select.C, join.C). They look attributes up in the
  catalog, scan heap files and write result records. Scans and insert scans that are local
  objects are destroyed at every return, in the reverse order of their declaration. A local
  object whose file could not be opened is never initialised: its destructor is undefined.
\<close>

section \<open>Insert\<close>

text \<open>The first attribute of the list with the name of the descriptor, or the position itself.\<close>

definition insert_index :: "attrInfo list \<Rightarrow> string \<Rightarrow> nat \<Rightarrow> nat" where
  "insert_index as name i =
     (let j = length (takeWhile (\<lambda>a. ai_attrName a \<noteq> name) as) in if j < length as then j else i)"

text \<open>The memory val points to; a type that is no Datatype leaves it uninitialised.\<close>

definition insert_value :: "mem \<Rightarrow> attrInfo \<Rightarrow> mem option" where
  "insert_value jk a = do {
     text \<leftarrow> ai_attrValue a;
     type \<leftarrow> type_of_code (ai_attrType a);
     Some (case type of
        STRING \<Rightarrow> c_mem jk text
      | INTEGER \<Rightarrow> int_mem jk (atoi text)
      | FLOAT \<Rightarrow> int_mem jk (atof text)) }"

text \<open>memcpy to the given offset of a buffer: undefined outside of it. The source may be shorter
  than the length: then the bytes behind it are copied too.\<close>

definition buf_write :: "byte list \<Rightarrow> int \<Rightarrow> mem \<Rightarrow> int \<Rightarrow> byte list option" where
  "buf_write data offset val len =
     (if offset < 0 \<or> len < 0 \<or> offset + len > int (length data) then None
      else Some (take (nat offset) data @ rd_bytes val 0 (nat len) @ drop (nat (offset + len)) data))"

fun insert_fields :: "mem \<Rightarrow> attrInfo list \<Rightarrow> nat \<Rightarrow> AttrDesc list \<Rightarrow> byte list \<Rightarrow> byte list option" where
  "insert_fields jk as i [] data = Some data"
| "insert_fields jk as i (desc # ds) data = do {
     val \<leftarrow> insert_value jk (as ! insert_index as (ad_attrName desc) i);
     data \<leftarrow> buf_write data (ad_attrOffset desc) val (ad_attrLen desc);
     insert_fields jk as (i + 1) ds data }"

definition QU_Insert :: "'z minirel_scheme \<Rightarrow> string \<Rightarrow> attrInfo list \<Rightarrow> (Status \<times> 'z minirel_scheme) option" where
  "QU_Insert s relation attrList = do {
     (st, rel, s) \<leftarrow> InsertFileScan_new s relation;
     rel \<leftarrow> rel;
     (st, s, rel) \<leftarrow>
       (if st \<noteq> OK then Some (RELNOTFOUND, s, rel) else do {
        (st, attrs, s) \<leftarrow> AttrCatalog_getRelInfo s relation;
        if st \<noteq> OK then Some (st, s, rel)
        else if length attrList \<noteq> length attrs then Some (BADCATPARM, s, rel)
        else do {
          let size = tuple_width attrs;
          if size < 0 then None
          else if \<exists>a \<in> set attrList. ai_attrValue a = None then Some (ATTRNOTFOUND, s, rel)
          else do {
            data \<leftarrow> insert_fields (junk s) attrList 0 attrs (rd_bytes (junk s) 0 (nat size));
            (st, rid, s, rel) \<leftarrow> InsertFileScan_insertRecord s rel data;
            Some (st, s, rel) } } });
     s \<leftarrow> InsertFileScan_delete s rel;
     Some (st, s) }"

section \<open>Delete\<close>

text \<open>The flag tells the return from inside the loop.\<close>

partial_function (option) delete_loop ::
  "'z db_scheme \<Rightarrow> filescan \<Rightarrow> (bool \<times> Status \<times> 'z db_scheme \<times> filescan) option" where
  "delete_loop s hfs =
     Option.bind (HeapFileScan_scanNext s hfs) (\<lambda>(st, rid, s, hfs).
       if st \<noteq> OK then Some (False, st, s, hfs)
       else Option.bind (HeapFileScan_deleteRecord s hfs) (\<lambda>(st, s, hfs).
         if st \<noteq> OK then Some (True, st, s, hfs)
         else delete_loop s hfs))"

text \<open>The filter in memory for a value given as text.\<close>

definition filter_mem :: "mem \<Rightarrow> Datatype \<Rightarrow> string \<Rightarrow> mem" where
  "filter_mem jk type text =
     (case type of STRING \<Rightarrow> c_mem jk text | INTEGER \<Rightarrow> int_mem jk (atoi text) | FLOAT \<Rightarrow> int_mem jk (atof text))"

text \<open>The status of getInfo is ignored: the descriptor is the last one that was copied, or
  uninitialised when there was none.\<close>

definition QU_Delete ::
  "'z minirel_scheme \<Rightarrow> string \<Rightarrow> string \<Rightarrow> Operator \<Rightarrow> Datatype \<Rightarrow> string option \<Rightarrow> (Status \<times> 'z minirel_scheme) option" where
  "QU_Delete s relation attrName op type attrValue = do {
     (st, hfs, s) \<leftarrow> HeapFileScan_new s relation;
     if st \<noteq> OK then Some (st, s) else do {
     hfs \<leftarrow> hfs;
     (_, attrDesc, s) \<leftarrow> AttrCatalog_getInfo s relation attrName;
     (st, hfs) \<leftarrow>
       (if attrName = [] then Some (HeapFileScan_startScan hfs 0 0 STRING None EQ)
        else do {
          ad \<leftarrow> attrDesc;
          flt \<leftarrow> (case attrValue of
                   Some text \<Rightarrow> Some (Some (filter_mem (junk s) type text))
                 | None \<Rightarrow> if type = STRING then Some None else None);
          Some (HeapFileScan_startScan hfs (ad_attrOffset ad) (ad_attrLen ad) type flt op) });
     if st \<noteq> OK then do { s \<leftarrow> HeapFileScan_delete s hfs; Some (st, s) } else do {
     (ret, st, s, hfs) \<leftarrow> delete_loop s hfs;
     if ret then Some (st, s) else do {
     (_, s, hfs) \<leftarrow> HeapFileScan_endScan s hfs;
     s \<leftarrow> HeapFileScan_delete s hfs;
     Some (OK, s) }}}}"

section \<open>Select\<close>

text \<open>The fields of a record that are copied to the output, and the length of the output: the sum
  of the lengths, which must be the size of the output buffer.\<close>

definition project :: "mem \<Rightarrow> AttrDesc \<Rightarrow> byte list" where
  "project m ad = rd_bytes m (ad_attrOffset ad) (nat (ad_attrLen ad))"

definition proj_ok :: "AttrDesc list \<Rightarrow> bool" where
  "proj_ok ads \<longleftrightarrow> list_all (\<lambda>a. 0 \<le> ad_attrLen a) ads \<and> sum_list (map ad_attrLen ads) < 2 ^ 31"

partial_function (option) select_loop ::
  "'z db_scheme \<Rightarrow> filescan \<Rightarrow> heapfile \<Rightarrow> AttrDesc list \<Rightarrow> Status \<Rightarrow> (Status \<times> 'z db_scheme \<times> filescan \<times> heapfile) option" where
  "select_loop s hfs rel projNames status =
     Option.bind (HeapFileScan_scanNext s hfs) (\<lambda>(nextStatus, rid, s, hfs).
       if nextStatus \<noteq> OK then Some (status, s, hfs, rel)
       else Option.bind (HeapFileScan_getRecord s hfs) (\<lambda>(st, rec).
         if st \<noteq> OK then Some (st, s, hfs, rel)
         else Option.bind (scan_rec_ptr s hfs) (\<lambda>p.
           let data = concat (map (project (ptr_mem s p)) projNames)
           in Option.bind (InsertFileScan_insertRecord s rel data) (\<lambda>(st, rid, s, rel).
             if st \<noteq> OK then Some (st, s, hfs, rel)
             else select_loop s hfs rel projNames st))))"

text \<open>An attribute type that is none of the three starts no scan: the constructor has left the
  scan unfiltered.\<close>

definition select_start ::
  "mem \<Rightarrow> filescan \<Rightarrow> AttrDesc option \<Rightarrow> Operator \<Rightarrow> string option \<Rightarrow> (Status \<times> filescan) option" where
  "select_start jk hfs attrDesc op flt =
     (case attrDesc of
        None \<Rightarrow> Some (HeapFileScan_startScan hfs 0 0 STRING None EQ)
      | Some ad \<Rightarrow>
          (case type_of_code (ad_attrType ad) of
             None \<Rightarrow> Some (OK, hfs)
           | Some type \<Rightarrow> do {
               m \<leftarrow> (case flt of Some text \<Rightarrow> Some (Some (filter_mem jk type text))
                             | None \<Rightarrow> if type = STRING then Some None else None);
               Some (HeapFileScan_startScan hfs (ad_attrOffset ad) (ad_attrLen ad) type m op) }))"

definition ScanSelect ::
  "'z minirel_scheme \<Rightarrow> string \<Rightarrow> AttrDesc list \<Rightarrow> AttrDesc option \<Rightarrow> Operator \<Rightarrow> string option
     \<Rightarrow> (Status \<times> 'z minirel_scheme) option" where
  "ScanSelect s result projNames attrDesc op flt = do {
     let s = put_out s (''Doing HeapFileScan Selection using ScanSelect()'' @ newline);
     if projNames = [] then None else do {
     (st, hfs, s) \<leftarrow> HeapFileScan_new s (ad_relName (hd projNames));
     if st \<noteq> OK then Some (st, s) else do {
     hfs \<leftarrow> hfs;
     (st, rel, s) \<leftarrow> InsertFileScan_new s result;
     rel \<leftarrow> rel;
     (st, s, hfs, rel) \<leftarrow>
       (if st \<noteq> OK then Some (st, s, hfs, rel) else do {
        (st, hfs) \<leftarrow> select_start (junk s) hfs attrDesc op flt;
        if st \<noteq> OK then Some (st, s, hfs, rel)
        else if \<not> proj_ok projNames then None
        else do {
          (st, s, hfs, rel) \<leftarrow> select_loop s hfs rel projNames st;
          (_, s, hfs) \<leftarrow> HeapFileScan_endScan s hfs;
          Some (st, s, hfs, rel) } });
     s \<leftarrow> HeapFileScan_delete s hfs;
     s \<leftarrow> InsertFileScan_delete s rel;
     Some (st, s) }}}"

text \<open>The descriptors of the projected attributes.\<close>

fun lookup_attrs :: "'z db_scheme \<Rightarrow> attrInfo list \<Rightarrow> (Status \<times> AttrDesc list \<times> 'z db_scheme) option" where
  "lookup_attrs s [] = Some (OK, [], s)"
| "lookup_attrs s (a # as) = do {
     (st, ad, s) \<leftarrow> AttrCatalog_getInfo s (ai_relName a) (ai_attrName a);
     if st \<noteq> OK then Some (st, [], s) else do {
     ad \<leftarrow> ad;
     (st, ads, s) \<leftarrow> lookup_attrs s as;
     Some (st, ad # ads, s) }}"

definition QU_Select ::
  "'z minirel_scheme \<Rightarrow> string \<Rightarrow> attrInfo list \<Rightarrow> attrInfo option \<Rightarrow> Operator \<Rightarrow> string option
     \<Rightarrow> (Status \<times> 'z minirel_scheme) option" where
  "QU_Select s result projNames attr op attrValue = do {
     let s = put_out s (''Doing QU_Select '' @ newline);
     (st, projDescs, s) \<leftarrow> lookup_attrs s projNames;
     if st \<noteq> OK then Some (st, s) else
     case attr of
       None \<Rightarrow> ScanSelect s result projDescs None EQ None
     | Some a \<Rightarrow> do {
         (st, ad, s) \<leftarrow> AttrCatalog_getInfo s (ai_relName a) (ai_attrName a);
         if st \<noteq> OK then Some (st, s) else do {
         ad \<leftarrow> ad;
         ScanSelect s result projDescs (Some ad) op attrValue }} }"

section \<open>Join\<close>

text \<open>The operator of the scan of the inner relation, whose attribute is on the left.\<close>

definition flip_op :: "Operator \<Rightarrow> Operator" where
  "flip_op op = (case op of EQ \<Rightarrow> EQ | GT \<Rightarrow> LT | GTE \<Rightarrow> LTE | LT \<Rightarrow> GT | LTE \<Rightarrow> GTE | NE \<Rightarrow> NE)"

text \<open>An attribute of the relation of the first join attribute is taken from the outer record, any
  other one from the inner record.\<close>

definition join_field :: "string \<Rightarrow> mem \<Rightarrow> mem \<Rightarrow> AttrDesc \<Rightarrow> byte list" where
  "join_field rel1 outer inner ad = (if ad_relName ad = rel1 then project outer ad else project inner ad)"

partial_function (option) join_inner_loop ::
  "'z db_scheme \<Rightarrow> filescan \<Rightarrow> heapfile \<Rightarrow> nat \<times> int \<Rightarrow> string \<Rightarrow> AttrDesc list \<Rightarrow> int
     \<Rightarrow> ('z db_scheme \<times> filescan \<times> heapfile \<times> int) option" where
  "join_inner_loop s inner res op rel1 ads cnt =
     Option.bind (HeapFileScan_scanNext s inner) (\<lambda>(st, rid, s, inner).
       if st \<noteq> OK then Some (s, inner, res, cnt)
       else Option.bind (HeapFileScan_getRecord s inner) (\<lambda>(st, rec).
         if st \<noteq> OK then None
         else Option.bind (scan_rec_ptr s inner) (\<lambda>ip.
           let data = concat (map (join_field rel1 (ptr_mem s op) (ptr_mem s ip)) ads)
           in Option.bind (InsertFileScan_insertRecord s res data) (\<lambda>(st, rid, s, res).
             if st \<noteq> OK then None
             else join_inner_loop s inner res op rel1 ads (cnt + 1)))))"

text \<open>The scan of the inner relation for one outer record.\<close>

definition join_inner ::
  "'z db_scheme \<Rightarrow> heapfile \<Rightarrow> nat \<times> int \<Rightarrow> AttrDesc \<Rightarrow> AttrDesc \<Rightarrow> Operator \<Rightarrow> AttrDesc list \<Rightarrow> int
     \<Rightarrow> (Status \<times> 'z db_scheme \<times> heapfile \<times> int) option" where
  "join_inner s res op d1 d2 myop ads cnt = do {
     (st, inner, s) \<leftarrow> HeapFileScan_new s (ad_relName d2);
     inner \<leftarrow> inner;
     let (st, inner) = (case type_of_code (ad_attrType d2) of
           None \<Rightarrow> (BADSCANPARM, inner)
         | Some type \<Rightarrow> HeapFileScan_startScan inner (ad_attrOffset d2) (ad_attrLen d2) type
                          (Some (\<lambda>x. ptr_mem s op (ad_attrOffset d1 + x))) myop);
     (s, inner, res, cnt) \<leftarrow>
       (if st \<noteq> OK then Some (s, inner, res, cnt) else join_inner_loop s inner res op (ad_relName d1) ads cnt);
     s \<leftarrow> HeapFileScan_delete s inner;
     Some (st, s, res, cnt) }"

text \<open>The status is OK at the end of the outer scan.\<close>

partial_function (option) join_outer_loop ::
  "'z db_scheme \<Rightarrow> filescan \<Rightarrow> heapfile \<Rightarrow> AttrDesc \<Rightarrow> AttrDesc \<Rightarrow> Operator \<Rightarrow> AttrDesc list \<Rightarrow> int
     \<Rightarrow> (Status \<times> 'z db_scheme \<times> filescan \<times> heapfile \<times> int) option" where
  "join_outer_loop s outer res d1 d2 myop ads cnt =
     Option.bind (HeapFileScan_scanNext s outer) (\<lambda>(st, rid, s, outer).
       if st \<noteq> OK then Some (OK, s, outer, res, cnt)
       else Option.bind (HeapFileScan_getRecord s outer) (\<lambda>(st, rec).
         if st \<noteq> OK then None
         else Option.bind (scan_rec_ptr s outer) (\<lambda>op.
           Option.bind (join_inner s res op d1 d2 myop ads cnt) (\<lambda>(st, s, res, cnt).
             if st \<noteq> OK then Some (st, s, outer, res, cnt)
             else join_outer_loop s outer res d1 d2 myop ads cnt))))"

definition attr_mismatch :: "attrInfo \<Rightarrow> attrInfo \<Rightarrow> bool" where
  "attr_mismatch attr1 attr2 \<longleftrightarrow> ai_attrType attr1 \<noteq> ai_attrType attr2 \<or> ai_attrLen attr1 \<noteq> ai_attrLen attr2"

text \<open>A failed insertion or getRecord ends the program through ASSERT: None.\<close>

definition QU_NL_Join ::
  "'z minirel_scheme \<Rightarrow> string \<Rightarrow> attrInfo list \<Rightarrow> attrInfo \<Rightarrow> Operator \<Rightarrow> attrInfo \<Rightarrow> (Status \<times> 'z minirel_scheme) option" where
  "QU_NL_Join s result projNames attr1 op attr2 =
     (if attr_mismatch attr1 attr2 then Some (ATTRTYPEMISMATCH, s) else do {
      (st, ads, s) \<leftarrow> lookup_attrs s projNames;
      if st \<noteq> OK then Some (st, s) else do {
      (st, d1, s) \<leftarrow> AttrCatalog_getInfo s (ai_relName attr1) (ai_attrName attr1);
      if st \<noteq> OK then Some (st, s) else do {
      d1 \<leftarrow> d1;
      (st, d2, s) \<leftarrow> AttrCatalog_getInfo s (ai_relName attr2) (ai_attrName attr2);
      if st \<noteq> OK then Some (st, s) else do {
      d2 \<leftarrow> d2;
      (st, res, s) \<leftarrow> InsertFileScan_new s result;
      res \<leftarrow> res;
      if st \<noteq> OK then do { s \<leftarrow> InsertFileScan_delete s res; Some (st, s) }
      else if \<not> proj_ok ads then None
      else do {
        (st, outer, s) \<leftarrow> HeapFileScan_new s (ad_relName d1);
        outer \<leftarrow> outer;
        let (st, outer) = HeapFileScan_startScan outer 0 0 STRING None EQ;
        (st, s, outer, res, cnt) \<leftarrow>
          (if st \<noteq> OK then Some (st, s, outer, res, 0)
           else join_outer_loop s outer res d1 d2 (flip_op op) ads 0);
        let s = (if st = OK
                 then put_out s (''tuple nested join produced '' @ dec_int cnt @ '' result tuples '' @ newline) else s);
        s \<leftarrow> HeapFileScan_delete s outer;
        s \<leftarrow> InsertFileScan_delete s res;
        Some (st, s) } }}}})"

text \<open>The other two methods are not implemented: they report an empty result.\<close>

definition QU_SM_Join ::
  "'z minirel_scheme \<Rightarrow> string \<Rightarrow> attrInfo list \<Rightarrow> attrInfo \<Rightarrow> Operator \<Rightarrow> attrInfo \<Rightarrow> (Status \<times> 'z minirel_scheme) option" where
  "QU_SM_Join s result projNames attr1 op attr2 =
     (if attr_mismatch attr1 attr2 then Some (ATTRTYPEMISMATCH, s)
      else Some (OK, put_out s (''sm join produced '' @ dec_int 0 @ '' result tuples '' @ newline)))"

definition QU_Hash_Join ::
  "'z minirel_scheme \<Rightarrow> string \<Rightarrow> attrInfo list \<Rightarrow> attrInfo \<Rightarrow> Operator \<Rightarrow> attrInfo \<Rightarrow> (Status \<times> 'z minirel_scheme) option" where
  "QU_Hash_Join s result projNames attr1 op attr2 =
     (if attr_mismatch attr1 attr2 then Some (ATTRTYPEMISMATCH, s)
      else Some (OK, put_out s (''blockNL Hash join produced '' @ dec_int 0 @ '' result tuples '' @ newline)))"

definition QU_Join ::
  "JoinType \<Rightarrow> 'z minirel_scheme \<Rightarrow> string \<Rightarrow> attrInfo list \<Rightarrow> attrInfo \<Rightarrow> Operator \<Rightarrow> attrInfo
     \<Rightarrow> (Status \<times> 'z minirel_scheme) option" where
  "QU_Join JoinMethod s result projNames attr1 op attr2 =
     (if JoinMethod = NLJoin \<or> JoinMethod = HashJoin \<and> op \<noteq> EQ then QU_NL_Join s result projNames attr1 op attr2
      else if JoinMethod = SMJoin then QU_SM_Join s result projNames attr1 op attr2
      else QU_Hash_Join s result projNames attr1 op attr2)"

subsection \<open>matchRec\<close>

partial_function (option) strcmp :: "mem \<Rightarrow> int \<Rightarrow> mem \<Rightarrow> int \<Rightarrow> int option" where
  "strcmp m a m' b =
     (if m a \<noteq> m' b then Some (uint (m a) - uint (m' b))
      else if m a = 0 then Some 0
      else strcmp m (a + 1) m' (b + 1))"

text \<open>The difference of two floats, rounded to a float and converted to an int.\<close>

definition float_sub_int :: "fval \<Rightarrow> fval \<Rightarrow> int option" where
  "float_sub_int x y =
     (case (x, y) of (Finite a, Finite b) \<Rightarrow> fl_to_int (fl_round (a - b)) | _ \<Rightarrow> None)"

definition join_matchRec :: "mem \<Rightarrow> mem \<Rightarrow> AttrDesc \<Rightarrow> AttrDesc \<Rightarrow> int option" where
  "join_matchRec outer inner d1 d2 =
     (case type_of_code (ad_attrType d1) of
        Some INTEGER \<Rightarrow> Some (wrap32 (rd_int outer (ad_attrOffset d1) - rd_int inner (ad_attrOffset d2)))
      | Some FLOAT \<Rightarrow> float_sub_int (rd_float outer (ad_attrOffset d1)) (rd_float inner (ad_attrOffset d2))
      | Some STRING \<Rightarrow> strcmp outer (ad_attrOffset d1) inner (ad_attrOffset d2)
      | None \<Rightarrow> Some 0)"

section \<open>The join condition\<close>

text \<open>The condition of the query: the attribute of the outer record, the operator, the attribute of
  the inner record.\<close>

definition join_cond :: "Operator \<Rightarrow> Datatype \<Rightarrow> mem \<Rightarrow> int \<Rightarrow> mem \<Rightarrow> int \<Rightarrow> int \<Rightarrow> bool" where
  "join_cond op type outer off1 inner off2 len =
     op_holds op (filter_diff type outer off1 (\<lambda>x. inner (off2 + x)) len)"

lemma rd_shift [simp]: "rd_int (\<lambda>x. m (k + x)) 0 = rd_int m k" "rd_float (\<lambda>x. m (k + x)) 0 = rd_float m k"
  by (simp_all add: rd_int_def rd_float_def)

lemma wrap32_neg: "wrap32 (- x) = (if wrap32 x = - 2147483648 then - 2147483648 else - wrap32 x)"
proof -
  let ?z = "x + 2147483648"
  have "(- x + 2147483648) mod 4294967296 = (- ?z + 4294967296) mod 4294967296" by simp
  also have "\<dots> = (- ?z) mod 4294967296" by (rule mod_add_self2)
  also have "\<dots> = (if ?z mod 4294967296 = 0 then 0 else 4294967296 - ?z mod 4294967296)"
    by (rule zmod_zminus1_eq_if)
  finally show ?thesis by (simp add: wrap32_def)
qed

lemma rd_float_infinite: "rd_float m a = Infinite s \<Longrightarrow> s = 1 \<or> s = -1"
  by (auto simp: rd_float_def Let_def split: if_splits)

lemma float_diff_swap: "float_diff (rd_float m a) (rd_float m' b) = map_option uminus (float_diff (rd_float m' b) (rd_float m a))"
proof (cases "rd_float m a")
  case (Infinite s)
  then show ?thesis
    using rd_float_infinite [of m a s] by (cases "rd_float m' b") (auto dest: rd_float_infinite)
next
  case (Finite x)
  then show ?thesis by (cases "rd_float m' b") (auto simp: sgn_if)
next
  case NotANumber
  then show ?thesis by (cases "rd_float m' b") auto
qed

lemma strncmp_swap: "strncmp m' b m a n = - strncmp m a m' b n"
  by (induction n arbitrary: a b) auto

lemma strncmp_shift: "strncmp m (k + a) m' b n = strncmp (\<lambda>x. m (k + x)) a m' b n"
proof (induction n arbitrary: a b)
  case (Suc n)
  have "k + a + 1 = k + (a + 1)" by simp
  then show ?case using Suc by (simp only: strncmp.simps)
qed simp

lemma op_holds_flip: "op_holds (flip_op op) (map_option uminus d) = op_holds op d"
  by (cases op; cases d) (auto simp: op_holds_def flip_op_def)

lemma filter_diff_swap:
  assumes "type = INTEGER \<Longrightarrow> wrap32 (rd_int m a - rd_int m' b) \<noteq> - (2 ^ 31)"
  shows "filter_diff type m' b (\<lambda>x. m (a + x)) len = map_option uminus (filter_diff type m a (\<lambda>x. m' (b + x)) len)"
proof (cases type)
  case INTEGER
  have "wrap32 (rd_int m' b - rd_int m a) = - wrap32 (rd_int m a - rd_int m' b)"
    using wrap32_neg [of "rd_int m a - rd_int m' b"] assms [OF INTEGER] by simp
  then show ?thesis by (simp add: filter_diff_def INTEGER)
next
  case FLOAT
  then show ?thesis using float_diff_swap [of m' b m a] by (simp add: filter_diff_def)
next
  case STRING
  have "strncmp m' b (\<lambda>x. m (a + x)) 0 n = strncmp (\<lambda>x. m' (b + x)) 0 (\<lambda>x. m (a + x)) 0 n" for n
    using strncmp_shift [of m' b 0] by simp
  moreover have "strncmp m a (\<lambda>x. m' (b + x)) 0 n = strncmp (\<lambda>x. m (a + x)) 0 (\<lambda>x. m' (b + x)) 0 n" for n
    using strncmp_shift [of m a 0] by simp
  moreover note strncmp_swap [of "\<lambda>x. m' (b + x)" 0 "\<lambda>x. m (a + x)" 0]
  ultimately show ?thesis by (simp only: filter_diff_def STRING Datatype.case option.map)
qed

text \<open>
  The inner scan of the nested loops join filters by the condition of the query. The scan is
  started with the inner attribute on the left, the value in the outer record as its filter and
  the mirrored operator; for every operator and every type, NaN and unterminated strings
  included, an inner record that holds the attribute matches exactly when attr1 op attr2 holds.
  For integers this needs that the difference, as it wraps, is not the least int.
\<close>

lemma inner_scan_is_join_cond:
  assumes "HeapFileScan_startScan h off2 len type (Some (\<lambda>x. outer (off1 + x))) (flip_op op) = (OK, h')"
    and "off2 + len \<le> int (length rec)"
    and "type = INTEGER \<Longrightarrow> wrap32 (rd_int outer off1 - rd_int (bytes_mem rec) off2) \<noteq> - (2 ^ 31)"
  shows "HeapFileScan_matchRec h' rec = join_cond op type outer off1 (bytes_mem rec) off2 len"
proof -
  have "sc_offset h' = off2" "sc_length h' = len" "sc_type h' = type" "sc_op h' = flip_op op"
    "sc_filter h' = Some (\<lambda>x. outer (off1 + x))"
    using assms(1) by (auto simp: HeapFileScan_startScan_def split: if_splits)
  then show ?thesis
    using assms(2) filter_diff_swap [of type outer off1 "bytes_mem rec" off2 len, OF assms(3)]
    by (simp add: HeapFileScan_matchRec_def join_cond_def op_holds_flip)
qed

lemma inner_scan_is_join_cond_witness:
  "\<forall>h :: filescan. HeapFileScan_matchRec (snd (HeapFileScan_startScan h 4 4 INTEGER
       (Some (\<lambda>x. wr_int zero_mem 8 3 (8 + x))) (flip_op LT))) [0, 0, 0, 0, 5, 0, 0, 0] \<and>
   \<not> HeapFileScan_matchRec (snd (HeapFileScan_startScan h 4 4 INTEGER
       (Some (\<lambda>x. wr_int zero_mem 8 3 (8 + x))) (flip_op GT))) [0, 0, 0, 0, 5, 0, 0, 0]"
proof
  fix h :: filescan
  let ?rec = "[0, 0, 0, 0, 5, 0, 0, 0] :: byte list"
  have v: "rd_int (wr_int zero_mem 8 3) 8 = 3" "rd_int (bytes_mem ?rec) 4 = 5"
    by (simp_all add: mem_simps) (simp add: rd_int_def bytes_mem_def)
  have "HeapFileScan_matchRec (snd (HeapFileScan_startScan h 4 4 INTEGER (Some (\<lambda>x. wr_int zero_mem 8 3 (8 + x))) (flip_op op))) ?rec
      = join_cond op INTEGER (wr_int zero_mem 8 3) 8 (bytes_mem ?rec) 4 4" for op
    by (rule inner_scan_is_join_cond [of h]) (simp_all add: HeapFileScan_startScan_def v)
  then show "HeapFileScan_matchRec (snd (HeapFileScan_startScan h 4 4 INTEGER
       (Some (\<lambda>x. wr_int zero_mem 8 3 (8 + x))) (flip_op LT))) ?rec \<and>
     \<not> HeapFileScan_matchRec (snd (HeapFileScan_startScan h 4 4 INTEGER
       (Some (\<lambda>x. wr_int zero_mem 8 3 (8 + x))) (flip_op GT))) ?rec"
    by (simp add: join_cond_def filter_diff_def v op_holds_def)
qed

section \<open>The record that is inserted\<close>

text \<open>Descriptors as createRel writes them: each attribute follows the one before.\<close>

fun laid_out :: "int \<Rightarrow> AttrDesc list \<Rightarrow> bool" where
  "laid_out offset [] = True"
| "laid_out offset (d # ds) = (ad_attrOffset d = offset \<and> 0 \<le> ad_attrLen d \<and> laid_out (offset + ad_attrLen d) ds)"

lemma laid_out_sum: "laid_out offset ds \<Longrightarrow> 0 \<le> sum_list (map ad_attrLen ds)"
  by (induction offset ds rule: laid_out.induct) auto

lemma buf_write_append:
  assumes "0 \<le> len" "offset = int (length pre)" "nat len = length mid"
  shows "buf_write (pre @ mid @ post) offset val len = Some (pre @ rd_bytes val 0 (nat len) @ post)"
  using assms by (auto simp: buf_write_def)

text \<open>The values that the fields get.\<close>

definition field_value :: "mem \<Rightarrow> attrInfo list \<Rightarrow> nat \<Rightarrow> AttrDesc \<Rightarrow> byte list" where
  "field_value jk as i d = rd_bytes (the (insert_value jk (as ! insert_index as (ad_attrName d) i))) 0 (nat (ad_attrLen d))"

fun fields :: "mem \<Rightarrow> attrInfo list \<Rightarrow> nat \<Rightarrow> AttrDesc list \<Rightarrow> byte list" where
  "fields jk as i [] = []"
| "fields jk as i (d # ds) = field_value jk as i d @ fields jk as (i + 1) ds"

lemma insert_fields_run:
  assumes "laid_out (int (length pre)) ds" "int (length data) = sum_list (map ad_attrLen ds)"
    "\<And>k. k < length ds \<Longrightarrow> insert_value jk (as ! insert_index as (ad_attrName (ds ! k)) (i + k)) \<noteq> None"
  shows "insert_fields jk as i ds (pre @ data) = Some (pre @ fields jk as i ds)"
  using assms
proof (induction ds arbitrary: pre data i)
  case (Cons d ds)
  let ?len = "nat (ad_attrLen d)"
  have len: "0 \<le> ad_attrLen d" "ad_attrOffset d = int (length pre)" "laid_out (int (length pre) + ad_attrLen d) ds"
    using Cons(2) by simp_all
  have "?len \<le> length data" using Cons(3) len(1) laid_out_sum [OF len(3)] by simp
  then have data: "data = take ?len data @ drop ?len data" "length (take ?len data) = ?len" by simp_all
  obtain v where v: "insert_value jk (as ! insert_index as (ad_attrName d) i) = Some v" using Cons(4) [of 0] by auto
  have fv: "field_value jk as i d = rd_bytes v 0 ?len" "length (field_value jk as i d) = ?len"
    by (simp_all add: field_value_def v rd_bytes_def)
  have "buf_write (pre @ take ?len data @ drop ?len data) (ad_attrOffset d) v (ad_attrLen d)
      = Some (pre @ rd_bytes v 0 ?len @ drop ?len data)"
    by (rule buf_write_append) (use len data in simp_all)
  then have step: "buf_write (pre @ data) (ad_attrOffset d) v (ad_attrLen d)
      = Some ((pre @ field_value jk as i d) @ drop ?len data)"
    using data(1) fv by simp
  have "insert_fields jk as (i + 1) ds ((pre @ field_value jk as i d) @ drop ?len data)
      = Some ((pre @ field_value jk as i d) @ fields jk as (i + 1) ds)"
  proof (rule Cons(1))
    show "laid_out (int (length (pre @ field_value jk as i d))) ds" using len fv by simp
    show "int (length (drop ?len data)) = sum_list (map ad_attrLen ds)"
      using Cons(3) len(1) laid_out_sum [OF len(3)] by simp
    show "insert_value jk (as ! insert_index as (ad_attrName (ds ! k)) (i + 1 + k)) \<noteq> None" if "k < length ds" for k
      using Cons(4) [of "Suc k"] that by simp
  qed
  then show ?case using v step by simp
qed simp

lemma fields_at:
  assumes "laid_out offset ds" "k < length ds"
  shows "length (field_value jk as (i + k) (ds ! k)) = nat (ad_attrLen (ds ! k)) \<and>
    (\<exists>pre post. fields jk as i ds = pre @ field_value jk as (i + k) (ds ! k) @ post \<and>
       int (length pre) = ad_attrOffset (ds ! k) - offset)"
  using assms
proof (induction ds arbitrary: offset i k)
  case (Cons d ds)
  have l: "length (field_value jk as j e) = nat (ad_attrLen e)" for j e by (simp add: field_value_def rd_bytes_def)
  show ?case
  proof (cases k)
    case 0
    have "fields jk as i (d # ds) = [] @ field_value jk as (i + k) ((d # ds) ! k) @ fields jk as (i + 1) ds" by (simp add: 0)
    then show ?thesis using Cons(2) l 0 by fastforce
  next
    case (Suc k')
    obtain pre post where P: "fields jk as (i + 1) ds = pre @ field_value jk as (i + 1 + k') (ds ! k') @ post"
      "int (length pre) = ad_attrOffset (ds ! k') - (offset + ad_attrLen d)"
      using Cons(1) [of "offset + ad_attrLen d" k' "i + 1"] Cons(2,3) Suc by auto
    have "fields jk as i (d # ds) = (field_value jk as i d @ pre) @ field_value jk as (i + k) ((d # ds) ! k) @ post"
      using P(1) by (simp add: Suc)
    moreover have "int (length (field_value jk as i d @ pre)) = ad_attrOffset ((d # ds) ! k) - offset"
      using P(2) l Cons(2) by (simp add: Suc)
    ultimately show ?thesis using l by blast
  qed
qed simp


lemma wrap32_plus: "wrap32 (wrap32 x + y) = wrap32 (x + y)"
proof -
  have "(wrap32 x + y + 2147483648) mod 4294967296 = ((x + 2147483648) mod 4294967296 + y) mod 4294967296"
    by (simp add: wrap32_def)
  also have "\<dots> = (x + 2147483648 + y) mod 4294967296" by (rule mod_add_left_eq)
  also have "\<dots> = (x + y + 2147483648) mod 4294967296" by (simp add: ac_simps)
  finally show ?thesis by (simp add: wrap32_def [of "x + y"] wrap32_def [of "wrap32 x + y"])
qed

lemma tuple_width_sum: "tuple_width ds = wrap32 (sum_list (map ad_attrLen ds))"
proof -
  have "foldl (\<lambda>w a. wrap32 (w + ad_attrLen a)) (wrap32 x) ds = wrap32 (x + sum_list (map ad_attrLen ds))" for x
    by (induction ds arbitrary: x) (simp_all add: wrap32_plus add.assoc)
  from this [of 0] show ?thesis by (simp add: tuple_width_def)
qed

lemma insert_index_less: "k < length as \<Longrightarrow> insert_index as name k < length as"
  by (simp add: insert_index_def Let_def)

lemma insert_index_named:
  assumes "distinct (map ai_attrName as)" "a \<in> set as" "ai_attrName a = name"
  shows "as ! insert_index as name i = a"
proof -
  let ?p = "\<lambda>a. ai_attrName a \<noteq> name"
  have j: "length (takeWhile ?p as) < length as" 
  proof -
    have "takeWhile ?p as \<noteq> as" using assms(2,3) by (auto simp: takeWhile_eq_all_conv)
    then have "length (takeWhile ?p as) \<noteq> length as" by (metis takeWhile_eq_take take_all order_refl)
    then show ?thesis using length_takeWhile_le [of ?p as] by simp
  qed
  from nth_length_takeWhile [OF j] have "ai_attrName (as ! length (takeWhile ?p as)) = ai_attrName a" using assms(3) by simp
  moreover obtain i where "i < length as" "as ! i = a" using assms(2) by (auto simp: in_set_conv_nth)
  ultimately have "as ! length (takeWhile ?p as) = a"
    using nth_eq_iff_index_eq [OF assms(1), of i "length (takeWhile ?p as)"] j by simp
  then show ?thesis using j by (simp add: insert_index_def Let_def)
qed

lemma insert_index_unnamed: "\<forall>a \<in> set as. ai_attrName a \<noteq> name \<Longrightarrow> insert_index as name i = i"
  by (simp add: insert_index_def takeWhile_eq_all_conv [THEN iffD2])

lemma laid_out_bounds: "laid_out offset ds \<Longrightarrow> k < length ds \<Longrightarrow> offset \<le> ad_attrOffset (ds ! k) \<and> 0 \<le> ad_attrLen (ds ! k)"
  by (induction offset ds arbitrary: k rule: laid_out.induct) (fastforce simp: nth_Cons split: nat.splits)+

lemma project_middle:
  assumes "int (length pre) = ad_attrOffset d" "length mid = nat (ad_attrLen d)"
  shows "project (bytes_mem (pre @ mid @ post)) d = mid"
proof (rule nth_equalityI)
  fix i assume "i < length (project (bytes_mem (pre @ mid @ post)) d)"
  then have i: "i < nat (ad_attrLen d)" by (simp add: project_def)
  then have "project (bytes_mem (pre @ mid @ post)) d ! i = bytes_mem (pre @ mid @ post) (int (length pre + i))"
    by (simp add: project_def assms(1))
  also have "\<dots> = (pre @ mid @ post) ! (length pre + i)"
  proof -
    have "0 \<le> int (length pre + i) \<and> int (length pre + i) < int (length (pre @ mid @ post))"
      using i unfolding assms(2) [symmetric] by simp
    then show ?thesis unfolding bytes_mem_def by (simp only: if_True nat_int simp_thms)
  qed
  also have "\<dots> = mid ! i" using i assms(2) by (simp add: nth_append)
  finally show "project (bytes_mem (pre @ mid @ post)) d ! i = mid ! i" .
qed (simp add: project_def assms(2))

text \<open>
  The record that insert writes. For descriptors that are laid out one behind the other, as
  createRel makes them, and a list of as many attributes with values and types, the buffer of
  the width of the tuple is filled without an access outside of it, and the projection of the
  record on every attribute is the value that the list has under its name, whatever the order of
  the list; an attribute that the list does not name gets the value at its own position.
\<close>

lemma insert_fields_layout:
  assumes "laid_out 0 ds" "sum_list (map ad_attrLen ds) < 2 ^ 31" "length as = length ds"
    and "\<forall>a \<in> set as. ai_attrValue a \<noteq> None \<and> type_of_code (ai_attrType a) \<noteq> None"
  shows "\<exists>data. insert_fields jk as 0 ds (rd_bytes jk 0 (nat (tuple_width ds))) = Some data \<and>
    int (length data) = tuple_width ds \<and>
    (\<forall>k < length ds. \<exists>v. project (bytes_mem data) (ds ! k) = rd_bytes v 0 (nat (ad_attrLen (ds ! k))) \<and>
       (\<forall>a \<in> set as. distinct (map ai_attrName as) \<and> ai_attrName a = ad_attrName (ds ! k) \<longrightarrow> insert_value jk a = Some v) \<and>
       ((\<forall>a \<in> set as. ai_attrName a \<noteq> ad_attrName (ds ! k)) \<longrightarrow> insert_value jk (as ! k) = Some v))"
proof -
  have w: "tuple_width ds = sum_list (map ad_attrLen ds)" "0 \<le> tuple_width ds"
    using assms(2) laid_out_sum [OF assms(1)] by (simp_all add: tuple_width_sum)
  have v: "insert_value jk (as ! insert_index as (ad_attrName (ds ! k)) k) \<noteq> None" if "k < length ds" for k
  proof -
    have "as ! insert_index as (ad_attrName (ds ! k)) k \<in> set as"
      using insert_index_less [of k as] that assms(3) by simp
    then show ?thesis using assms(4) by (auto simp: insert_value_def)
  qed
  have run: "insert_fields jk as 0 ds (rd_bytes jk 0 (nat (tuple_width ds))) = Some (fields jk as 0 ds)"
    using insert_fields_run [of "[]" ds _ jk as 0] assms(1) w v by simp
  have len: "laid_out b es \<Longrightarrow> int (length (fields jk as i es)) = sum_list (map ad_attrLen es)" for b es i
    by (induction b es arbitrary: i rule: laid_out.induct) (auto simp: field_value_def)
  have "project (bytes_mem (fields jk as 0 ds)) (ds ! k) = field_value jk as k (ds ! k)" if k: "k < length ds" for k
    using fields_at [OF assms(1) k, of jk as 0] project_middle by (auto simp del: fields.simps)
  then have "\<exists>v. project (bytes_mem (fields jk as 0 ds)) (ds ! k) = rd_bytes v 0 (nat (ad_attrLen (ds ! k))) \<and>
       (\<forall>a \<in> set as. distinct (map ai_attrName as) \<and> ai_attrName a = ad_attrName (ds ! k) \<longrightarrow> insert_value jk a = Some v) \<and>
       ((\<forall>a \<in> set as. ai_attrName a \<noteq> ad_attrName (ds ! k)) \<longrightarrow> insert_value jk (as ! k) = Some v)" if k: "k < length ds" for k
    using k v [OF k] insert_index_named [of as _ "ad_attrName (ds ! k)" k] insert_index_unnamed [of as "ad_attrName (ds ! k)" k]
    by (intro exI [of _ "the (insert_value jk (as ! insert_index as (ad_attrName (ds ! k)) k))"]) (auto simp: field_value_def)
  then show ?thesis using run len [OF assms(1)] w by auto
qed

end
