(* ===== verification/Select.thy ===== *)
theory Select
  imports RelFile CatalogAttrs Query
begin

text \<open>
  What a selection computes. ScanSelect runs two objects at the same time, a scan of the source
  relation and an InsertFileScan on the result; each leaves the other as it was. The result
  relation gains exactly the projections of the records of the source that satisfy the condition.
\<close>

section \<open>Two objects at work\<close>

text \<open>What work on some files leaves alone.\<close>

definition aside :: "string set \<Rightarrow> fptr set \<Rightarrow> 'z db_scheme \<Rightarrow> 'z db_scheme \<Rightarrow> bool" where
  "aside N F s s' \<longleftrightarrow> numBufs s' = numBufs s \<and> db.more s' = db.more s \<and>
     (\<forall>n. n \<notin> N \<longrightarrow> of_map (openFiles s') n = of_map (openFiles s) n \<and> (\<forall>k r. stored s n k r \<longrightarrow> stored s' n k r)) \<and>
     (\<forall>g. g \<notin> F \<longrightarrow> pin_of s' g = pin_of s g \<and> spared g s s')"

lemma aside_refl: "aside N F s s"
  by (simp add: aside_def spared_def)

lemma spared_trans: "spared g s s1 \<Longrightarrow> spared g s1 s2 \<Longrightarrow> pin_of s1 g = pin_of s g \<Longrightarrow> spared g s s2"
  by (simp add: spared_def)

lemma aside_trans: "aside N F s s1 \<Longrightarrow> aside N F s1 s2 \<Longrightarrow> aside N F s s2"
  unfolding aside_def using spared_trans [of _ s s1 s2] by (simp only: simp_thms) metis

lemma apart_aside:
  assumes "apart n f s s'" "n \<in> N" "f \<in> F" "\<And>g. g \<notin> F \<Longrightarrow> pin_of s' g = pin_of s g"
  shows "aside N F s s'"
  using assms apartD(1-4) [OF assms(1)] apart_spared [OF assms(1)] unfolding aside_def by metis

lemma aside_mono: "aside N F s s' \<Longrightarrow> N \<subseteq> N' \<Longrightarrow> F \<subseteq> F' \<Longrightarrow> aside N' F' s s'"
  unfolding aside_def by blast

lemma rel_open_aside:
  assumes "rel_open s n g U hdr xs" "aside N F s s'" "n \<notin> N" "g \<notin> F" "db_inv s'"
  shows "rel_open s' n g U hdr xs" "page_of s' g = page_of s g"
  using assms by (simp_all add: rel_open_def aside_def spared_def)

text \<open>A scan of the file of src and an insertion into the file of dst; B are the pins of the others.\<close>

definition selecting ::
  "'z db_scheme \<Rightarrow> string \<Rightarrow> filescan \<Rightarrow> layout \<Rightarrow> page \<Rightarrow> int list \<Rightarrow> (RID \<times> byte list) list \<Rightarrow> string \<Rightarrow> heapfile \<Rightarrow> layout
     \<Rightarrow> page \<Rightarrow> int list \<Rightarrow> (fptr \<Rightarrow> int \<Rightarrow> int) \<Rightarrow> bool" where
  "selecting s src hfs U hdr xs rest dst rel V hdr' ys B \<longleftrightarrow> src \<noteq> dst \<and> filePtr hfs \<noteq> filePtr rel \<and>
     scan_own s src hfs U (with_obj rel B) hdr xs rest \<and> own s dst rel V (with_obj hfs B) hdr' ys (last ys) \<and>
     (\<forall>g q. 0 \<le> B g q) \<and> finite (busy B) \<and> (\<forall>q. B (filePtr hfs) q = 0 \<and> B (filePtr rel) q = 0) \<and> card (busy B) + 5 \<le> numBufs s"

lemma with_obj_same: "g \<noteq> filePtr h \<Longrightarrow> with_obj h B g = B g"
  by (simp add: with_obj_other fun_eq_iff)

lemma selecting_next:
  assumes "selecting s src hfs U hdr xs rest dst rel V hdr' ys B"
  obtains st out s2 h2 where "HeapFileScan_scanNext s hfs = Some (st, out, s2, h2)" "same_scan hfs h2" "filePtr h2 = filePtr hfs"
    "page_of s2 = page_of s" "aside {src, dst} {filePtr hfs, filePtr rel} s s2"
    "case dropWhile (\<lambda>(rid, rec). \<not> HeapFileScan_matchRec hfs rec) rest of
       [] \<Rightarrow> st = FILEEOF \<and> selecting s2 src h2 U hdr xs [] dst rel V hdr' ys B
     | (rid, rec) # rs \<Rightarrow> st = OK \<and> HeapFileScan_getRecord s2 h2 = Some (OK, Some rec) \<and>
         selecting s2 src h2 U hdr xs rs dst rel V hdr' ys B"
proof -
  have A: "src \<noteq> dst" "filePtr hfs \<noteq> filePtr rel" "scan_own s src hfs U (with_obj rel B) hdr xs rest"
    "own s dst rel V (with_obj hfs B) hdr' ys (last ys)" "\<And>g q. 0 \<le> B g q" "finite (busy B)"
    "\<And>q. B (filePtr hfs) q = 0" "\<And>q. B (filePtr rel) q = 0" "card (busy B) + 5 \<le> numBufs s"
    using assms by (simp_all add: selecting_def)
  obtain st out s2 h2 where N: "HeapFileScan_scanNext s hfs = Some (st, out, s2, h2)" "same_scan hfs h2" "apart src (filePtr hfs) s s2"
    "page_of s2 = page_of s" "db_inv s2"
    "case dropWhile (\<lambda>(rid, rec). \<not> HeapFileScan_matchRec hfs rec) rest of
       [] \<Rightarrow> st = FILEEOF \<and> scan_own s2 src h2 U (with_obj rel B) hdr xs []
     | (rid, rec) # rs \<Rightarrow> st = OK \<and> out = Some rid \<and> curRec h2 = rid \<and> pageNo rid = cur_pageNo h2 \<and>
         HeapFileScan_getRecord s2 h2 = Some (OK, Some rec) \<and> scan_own s2 src h2 U (with_obj rel B) hdr xs rs"
    by (rule scan_own_next [OF A(3)]) (rule that)
  have f2: "filePtr h2 = filePtr hfs" using same_scanD [OF N(2)] by simp
  have sel: "selecting s2 src h2 U hdr xs rs dst rel V hdr' ys B \<and> pin_of s2 = with_obj h2 (with_obj rel B)"
    if o: "scan_own s2 src h2 U (with_obj rel B) hdr xs rs" for rs
  proof -
    have p: "pin_of s2 = with_obj rel (with_obj h2 B)" using scan_own_pins(1) [OF o] with_obj_swap by metis
    note W = busy_with_obj [where h = h2, OF A(6,5)]
    have nn: "\<And>g q. 0 \<le> with_obj h2 B g q" by (rule with_obj_nonneg) (rule A(5))
    have z: "\<And>q. with_obj h2 B (filePtr rel) q = 0" using A(2,8) f2 by (simp add: with_obj_other)
    have c: "card (busy (with_obj h2 B)) + 2 \<le> numBufs s" using W(2) A(9) by linarith
    have "own s2 dst rel V (with_obj h2 B) hdr' ys (last ys)"
      by (rule own_beside [OF A(4) apart_spared [OF N(3) A(2) [symmetric]] N(5) p nn z W(1) c])
    then show ?thesis using A o f2 apartD(1) [OF N(3)] scan_own_pins(1) [OF o] by (simp add: selecting_def)
  qed
  have pins: "pin_of s2 g = pin_of s g" if "g \<noteq> filePtr hfs" "g \<noteq> filePtr rel" for g
  proof -
    obtain rs where o: "scan_own s2 src h2 U (with_obj rel B) hdr xs rs"
      using N(6) by (cases "dropWhile (\<lambda>(rid, rec). \<not> HeapFileScan_matchRec hfs rec) rest") auto
    show ?thesis unfolding scan_own_pins(1) [OF o] scan_own_pins(1) [OF A(3)] using that f2 by (simp add: with_obj_same)
  qed
  have a: "aside {src, dst} {filePtr hfs, filePtr rel} s s2"
    by (rule apart_aside [OF N(3)]) (use pins in simp_all)
  show thesis
    by (rule that [OF N(1,2) f2 N(4) a]) (use N(6) sel in \<open>auto simp del: dropWhile_eq_Nil_conv dropWhile_eq_Cons_conv split: list.splits\<close>)
qed

lemma selecting_insert:
  assumes sel: "selecting s src hfs U hdr xs rest dst rel V hdr' ys B" and r: "r \<noteq> []" "length r \<le> 1000" and sz: "lay_size V < 2147483647"
  obtains rid s2 rel2 V2 hdr2 ys2 where "InsertFileScan_insertRecord s rel r = Some (OK, Some rid, s2, rel2)" "filePtr rel2 = filePtr rel"
    "selecting s2 src hfs U hdr xs rest dst rel2 V2 hdr2 ys2 B" "lay_size V2 \<le> Suc (lay_size V)"
    "page_of s2 (filePtr hfs) = page_of s (filePtr hfs)" "aside {src, dst} {filePtr hfs, filePtr rel} s s2"
    "mset (chain_recs (page_of s2 (filePtr rel)) ys2) = add_mset (rid, r) (mset (chain_recs (page_of s (filePtr rel)) ys))"
proof -
  have A: "src \<noteq> dst" "filePtr hfs \<noteq> filePtr rel" "scan_own s src hfs U (with_obj rel B) hdr xs rest"
    "own s dst rel V (with_obj hfs B) hdr' ys (last ys)" "\<And>g q. 0 \<le> B g q" "finite (busy B)"
    "\<And>q. B (filePtr hfs) q = 0" "\<And>q. B (filePtr rel) q = 0" "card (busy B) + 5 \<le> numBufs s"
    using sel by (simp_all add: selecting_def)
  note W = busy_with_obj [where h = hfs, OF A(6,5)]
  have nn': "\<And>g q. 0 \<le> with_obj hfs B g q" by (rule with_obj_nonneg) (rule A(5))
  note W' = busy_with_obj [where h = rel, OF W(1) nn']
  have room: "card (pinned s) < numBufs s" unfolding own_pins(1) [OF A(4)] using W(2) W'(2) A(9) by simp
  obtain rid s2 rel2 V2 hdr2 ys2 where I: "InsertFileScan_insertRecord s rel r = Some (OK, Some rid, s2, rel2)"
    "own s2 dst rel2 V2 (with_obj hfs B) hdr2 ys2 (last ys2)" "filePtr rel2 = filePtr rel" "apart dst (filePtr rel) s s2" "db_inv s2"
    "mset (chain_recs (page_of s2 (filePtr rel)) ys2) = add_mset (rid, r) (mset (chain_recs (page_of s (filePtr rel)) ys))"
    "lay_size V2 \<le> Suc (lay_size V)"
    by (rule insert_own [OF A(4) r room sz]) (rule that)
  have p: "pin_of s2 = with_obj hfs (with_obj rel2 B)" using own_pins(1) [OF I(2)] with_obj_swap by metis
  note W2 = busy_with_obj [where h = rel2, OF A(6,5)]
  have nn: "\<And>g q. 0 \<le> with_obj rel2 B g q" by (rule with_obj_nonneg) (rule A(5))
  have z: "\<And>q. with_obj rel2 B (filePtr hfs) q = 0" using A(2,7) I(3) by (simp add: with_obj_other)
  have c: "card (busy (with_obj rel2 B)) + 2 \<le> numBufs s" using W2(2) A(9) by linarith
  have "scan_own s2 src hfs U (with_obj rel2 B) hdr xs rest"
    by (rule scan_own_beside [OF A(3) apart_spared [OF I(4) A(2)] I(5) p nn z W2(1) c])
  then have s2: "selecting s2 src hfs U hdr xs rest dst rel2 V2 hdr2 ys2 B"
    using A I(2,3) apartD(1) [OF I(4)] by (simp add: selecting_def)
  have a: "aside {src, dst} {filePtr hfs, filePtr rel} s s2"
    by (rule apart_aside [OF I(4)]) (use I(3) in \<open>simp_all add: own_pins(1) [OF I(2)] own_pins(1) [OF A(4)] with_obj_same\<close>)
  show thesis by (rule that [OF I(1,3) s2 I(7) _ a I(6)]) (rule apartD(6) [OF I(4) A(2)])
qed

text \<open>Both objects closed.\<close>

lemma selecting_close:
  assumes sel: "selecting s src h U hdr xs rest dst rel V hdr' ys B"
  obtains s1 h1 s2 s3 where "HeapFileScan_endScan s h = Some (OK, s1, h1)" "HeapFileScan_delete s1 h1 = Some s2"
    "HeapFileScan_delete s h = Some s2" "InsertFileScan_delete s2 rel = Some s3" "db_inv s3" "pin_of s3 = B"
    "stored s3 src (lay_size U) (chain_recs (page_of s (filePtr h)) xs)" "stored s3 dst (lay_size V) (chain_recs (page_of s (filePtr rel)) ys)"
    "aside {src, dst} {filePtr h, filePtr rel} s s3"
proof -
  have A: "src \<noteq> dst" "filePtr h \<noteq> filePtr rel" "scan_own s src h U (with_obj rel B) hdr xs rest" "own s dst rel V (with_obj h B) hdr' ys (last ys)"
    "\<And>g q. 0 \<le> B g q" "finite (busy B)" "\<And>q. B (filePtr rel) q = 0" "card (busy B) + 2 \<le> numBufs s"
    using sel by (simp_all add: selecting_def)
  obtain x where x: "own s src h U (with_obj rel B) hdr xs x" using A(3) by (auto simp: scan_own_def)
  obtain s1 h1 s2 where E: "HeapFileScan_endScan s h = Some (OK, s1, h1)" "HeapFileScan_delete s1 h1 = Some s2"
    "HeapFileScan_delete s h = Some s2" "db_inv s2" "apart src (filePtr h) s s2" "pin_of s2 = with_obj rel B"
    "stored s2 src (lay_size U) (chain_recs (page_of s (filePtr h)) xs)"
    by (rule HeapFileScan_delete_own [OF x]) (rule that)
  have o: "own s2 dst rel V B hdr' ys (last ys)"
    by (rule own_beside [OF A(4) apart_spared [OF E(5) A(2) [symmetric]] E(4,6) A(5,7,6,8)])
  obtain s3 where G: "InsertFileScan_delete s2 rel = Some s3" "db_inv s3" "apart dst (filePtr rel) s2 s3" "pin_of s3 = B"
    "stored s3 dst (lay_size V) (chain_recs (page_of s2 (filePtr rel)) ys)"
    by (rule InsertFileScan_delete_own [OF o]) (rule that)
  have a: "aside {src, dst} {filePtr h, filePtr rel} s s2"
    by (rule apart_aside [OF E(5)]) (use E(6) own_pins(1) [OF x] in \<open>simp_all add: with_obj_same\<close>)
  have a': "aside {src, dst} {filePtr h, filePtr rel} s2 s3"
    by (rule apart_aside [OF G(3)]) (use G(4) E(6) in \<open>simp_all add: with_obj_same\<close>)
  show thesis
    by (rule that [OF E(1-3) G(1,2,4) apartD(4) [OF G(3) A(1) E(7)] _ aside_trans [OF a a']])
      (use G(5) apartD(6) [OF E(5) A(2) [symmetric]] in simp)
qed

section \<open>The loop\<close>

text \<open>The fields of a record that the result gets.\<close>

definition in_rec :: "AttrDesc \<Rightarrow> byte list \<Rightarrow> bool" where
  "in_rec ad r \<longleftrightarrow> 0 \<le> ad_attrOffset ad \<and> 0 \<le> ad_attrLen ad \<and> ad_attrOffset ad + ad_attrLen ad \<le> int (length r)"

definition all_in_rec :: "AttrDesc list \<Rightarrow> (RID \<times> byte list) list \<Rightarrow> bool" where
  "all_in_rec ads recs \<longleftrightarrow> (\<forall>r \<in> snd ` set recs. \<forall>ad \<in> set ads. in_rec ad r)"

definition proj_rec :: "AttrDesc list \<Rightarrow> byte list \<Rightarrow> byte list" where
  "proj_rec ads r = concat (map (project (bytes_mem r)) ads)"

lemma length_proj_rec: "length (proj_rec ads r) = sum_list (map (\<lambda>ad. nat (ad_attrLen ad)) ads)"
  by (induction ads) (simp_all add: proj_rec_def project_def)

lemma scan_rec_mem:
  assumes "HeapFileScan_getRecord s h = Some (OK, Some r)"
  obtains p where "scan_rec_ptr s h = Some p" "\<And>x. 0 \<le> x \<Longrightarrow> x < int (length r) \<Longrightarrow> ptr_mem s p x = bytes_mem r x"
proof -
  obtain i where i: "curPage h = Frame i" and g: "Page_getRecord (bufPool s ! i) (curRec h) = (OK, Some r)"
    using assms by (auto simp: HeapFileScan_getRecord_def split: pptr.splits)
  let ?p = "bufPool s ! i"
  let ?o = "slot_offset ?p (- slotNo (curRec h))"
  have r: "r = rd_bytes ?p ?o (length r)" using g by (auto simp: Page_getRecord_def Let_def split: if_splits)
  have ptr: "scan_rec_ptr s h = Some (i, ?o)" using i by (simp add: scan_rec_ptr_def)
  have "ptr_mem s (i, ?o) x = bytes_mem r x" if x: "0 \<le> x" "x < int (length r)" for x
  proof -
    have "r ! nat x = rd_bytes ?p ?o (length r) ! nat x" using r by simp
    also have "\<dots> = ?p (?o + x)" using x by (simp add: nat_less_iff)
    finally show ?thesis using x by (simp add: bytes_mem_def ptr_mem_def)
  qed
  then show thesis by (rule that [OF ptr])
qed

lemma project_cong:
  assumes "\<And>x. 0 \<le> x \<Longrightarrow> x < int (length r) \<Longrightarrow> m x = bytes_mem r x" "in_rec ad r"
  shows "project m ad = project (bytes_mem r) ad"
  unfolding project_def by (rule rd_bytes_cong) (use assms in \<open>auto simp: in_rec_def\<close>)

lemma scan_rec_project:
  assumes "HeapFileScan_getRecord s h = Some (OK, Some r)"
  obtains p where "scan_rec_ptr s h = Some p" "\<And>ads. \<forall>ad \<in> set ads. in_rec ad r \<Longrightarrow> concat (map (project (ptr_mem s p)) ads) = proj_rec ads r"
proof -
  obtain p where p: "scan_rec_ptr s h = Some p" "\<And>x. 0 \<le> x \<Longrightarrow> x < int (length r) \<Longrightarrow> ptr_mem s p x = bytes_mem r x"
    by (rule scan_rec_mem [OF assms]) (rule that)
  show thesis by (rule that [OF p(1)]) (use project_cong [OF p(2)] in \<open>simp add: proj_rec_def cong: map_cong\<close>)
qed

text \<open>The projections of the records that satisfy the condition.\<close>

definition selected :: "AttrDesc list \<Rightarrow> (byte list \<Rightarrow> bool) \<Rightarrow> (RID \<times> byte list) list \<Rightarrow> byte list list" where
  "selected ads P recs = map (proj_rec ads) (filter P (map snd recs))"

lemma selected_dropWhile:
  "selected ads P recs = (case dropWhile (\<lambda>(rid, r). \<not> P r) recs of [] \<Rightarrow> [] | (rid, r) # rs \<Rightarrow> proj_rec ads r # selected ads P rs)"
proof (induction recs)
  case (Cons a recs)
  then show ?case by (cases a) (auto simp: selected_def simp del: dropWhile_eq_Nil_conv dropWhile_eq_Cons_conv split: list.splits)
qed (simp add: selected_def)

abbreviation contents_of :: "'z db_scheme \<Rightarrow> fptr \<Rightarrow> int list \<Rightarrow> byte list multiset" where
  "contents_of s f xs \<equiv> mset (map snd (chain_recs (page_of s f) xs))"

lemma select_loop_spec:
  assumes "selecting s src hfs U hdr xs rest dst rel V hdr' ys B" "all_in_rec ads rest"
    "0 < sum_list (map (\<lambda>ad. nat (ad_attrLen ad)) ads)" "sum_list (map (\<lambda>ad. nat (ad_attrLen ad)) ads) \<le> 1000"
    "lay_size V + length rest \<le> 2147483647"
  shows "\<exists>s' h' rel' V' hdr2 ys'. select_loop s hfs rel ads OK = Some (OK, s', h', rel') \<and>
    selecting s' src h' U hdr xs [] dst rel' V' hdr2 ys' B \<and> filePtr h' = filePtr hfs \<and> filePtr rel' = filePtr rel \<and>
    page_of s' (filePtr hfs) = page_of s (filePtr hfs) \<and> aside {src, dst} {filePtr hfs, filePtr rel} s s' \<and>
    contents_of s' (filePtr rel) ys' = mset (selected ads (HeapFileScan_matchRec hfs) rest) + contents_of s (filePtr rel) ys \<and>
    lay_size V' \<le> lay_size V + length rest"
  using assms
proof (induction rest arbitrary: s hfs rel V hdr' ys rule: length_induct)
  case (1 rest)
  let ?P = "HeapFileScan_matchRec hfs"
  obtain st out s2 h2 where N: "HeapFileScan_scanNext s hfs = Some (st, out, s2, h2)" "same_scan hfs h2" "filePtr h2 = filePtr hfs"
    "page_of s2 = page_of s" "aside {src, dst} {filePtr hfs, filePtr rel} s s2"
    "case dropWhile (\<lambda>(rid, rec). \<not> ?P rec) rest of
       [] \<Rightarrow> st = FILEEOF \<and> selecting s2 src h2 U hdr xs [] dst rel V hdr' ys B
     | (rid, rec) # rs \<Rightarrow> st = OK \<and> HeapFileScan_getRecord s2 h2 = Some (OK, Some rec) \<and>
         selecting s2 src h2 U hdr xs rs dst rel V hdr' ys B"
    by (rule selecting_next [OF 1(2)]) (rule that)
  show ?case
  proof (cases "dropWhile (\<lambda>(rid, rec). \<not> ?P rec) rest")
    case Nil
    have "st = FILEEOF" "selecting s2 src h2 U hdr xs [] dst rel V hdr' ys B" "selected ads ?P rest = []"
      using N(6) unfolding selected_dropWhile [of ads ?P rest] Nil by simp_all
    moreover have "select_loop s hfs rel ads OK = Some (OK, s2, h2, rel)"
      using N(1) calculation(1) by (subst select_loop.simps) simp
    ultimately show ?thesis using N(3-5) by (intro exI [of _ s2] exI [of _ h2] exI [of _ rel] exI [of _ V] exI [of _ hdr'] exI [of _ ys]) simp
  next
    case (Cons a rs)
    obtain rid r where a: "a = (rid, r)" by (cases a)
    have S: "st = OK" "HeapFileScan_getRecord s2 h2 = Some (OK, Some r)" "selecting s2 src h2 U hdr xs rs dst rel V hdr' ys B"
      "selected ads ?P rest = proj_rec ads r # selected ads ?P rs"
      using N(6) unfolding selected_dropWhile [of ads ?P rest] Cons a by simp_all
    have sub: "set ((rid, r) # rs) \<subseteq> set rest" "length rs < length rest"
      using Cons a set_dropWhileD [of _ "\<lambda>(rid, rec). \<not> ?P rec" rest] length_dropWhile_le [of "\<lambda>(rid, rec). \<not> ?P rec" rest] by auto
    have inr: "\<forall>ad \<in> set ads. in_rec ad r" "all_in_rec ads rs" using 1(3) sub(1) by (force simp: all_in_rec_def)+
    obtain p where p: "scan_rec_ptr s2 h2 = Some p" "\<And>ads. \<forall>ad \<in> set ads. in_rec ad r \<Longrightarrow> concat (map (project (ptr_mem s2 p)) ads) = proj_rec ads r"
      by (rule scan_rec_project [OF S(2)]) (rule that)
    have len: "proj_rec ads r \<noteq> []" "length (proj_rec ads r) \<le> 1000"
      using 1(4,5) unfolding length_proj_rec [of ads r, symmetric] by simp_all
    have sz: "lay_size V < 2147483647" using 1(6) sub(2) by simp
    obtain rid' s3 rel3 V3 hdr3 ys3 where I: "InsertFileScan_insertRecord s2 rel (proj_rec ads r) = Some (OK, Some rid', s3, rel3)"
      "filePtr rel3 = filePtr rel" "selecting s3 src h2 U hdr xs rs dst rel3 V3 hdr3 ys3 B" "lay_size V3 \<le> Suc (lay_size V)"
      "page_of s3 (filePtr h2) = page_of s2 (filePtr h2)" "aside {src, dst} {filePtr h2, filePtr rel} s2 s3"
      "mset (chain_recs (page_of s3 (filePtr rel)) ys3) = add_mset (rid', proj_rec ads r) (mset (chain_recs (page_of s2 (filePtr rel)) ys))"
      by (rule selecting_insert [OF S(3) len sz]) (rule that)
    have step: "select_loop s hfs rel ads OK = select_loop s3 h2 rel3 ads OK"
      using N(1) S(1,2) p(1) p(2) [OF inr(1)] I(1) by (subst select_loop.simps) simp
    have size: "lay_size V3 + length rs \<le> 2147483647" using I(4) 1(6) sub(2) by simp
    obtain s' h' rel' V' hdr2 ys' where R: "select_loop s3 h2 rel3 ads OK = Some (OK, s', h', rel')"
      "selecting s' src h' U hdr xs [] dst rel' V' hdr2 ys' B" "filePtr h' = filePtr h2" "filePtr rel' = filePtr rel3"
      "page_of s' (filePtr h2) = page_of s3 (filePtr h2)" "aside {src, dst} {filePtr h2, filePtr rel3} s3 s'"
      "contents_of s' (filePtr rel3) ys' = mset (selected ads (HeapFileScan_matchRec h2) rs) + contents_of s3 (filePtr rel3) ys3"
      "lay_size V' \<le> lay_size V3 + length rs"
      using 1(1) [rule_format, OF sub(2) I(3) inr(2) 1(4,5) size] by blast
    have m: "HeapFileScan_matchRec h2 = ?P" using same_scanD(2) [OF N(2)] by (simp add: fun_eq_iff)
    have "contents_of s3 (filePtr rel) ys3 = add_mset (proj_rec ads r) (contents_of s (filePtr rel) ys)"
      using arg_cong [OF I(7), of "image_mset snd"] N(4) by simp
    then have "contents_of s' (filePtr rel) ys' = mset (selected ads ?P rest) + contents_of s (filePtr rel) ys"
      using R(7) I(2) S(4) m by simp
    moreover have "aside {src, dst} {filePtr hfs, filePtr rel} s s'"
      using aside_trans [OF N(5) aside_trans [OF I(6) [unfolded N(3)] R(6) [unfolded N(3) I(2)]]] .
    ultimately show ?thesis using step R(1-5,8) I(2,4,5) N(3,4) sub(2)
      by (intro exI [of _ s'] exI [of _ h'] exI [of _ rel'] exI [of _ V'] exI [of _ hdr2] exI [of _ ys']) simp
  qed
qed

section \<open>The condition\<close>

definition cond_holds :: "mem \<Rightarrow> AttrDesc option \<Rightarrow> Operator \<Rightarrow> string option \<Rightarrow> byte list \<Rightarrow> bool" where
  "cond_holds jk d op flt r = (case d of None \<Rightarrow> True
     | Some ad \<Rightarrow> (let type = the (type_of_code (ad_attrType ad)) in
         op_holds op (filter_diff type (bytes_mem r) (ad_attrOffset ad) (filter_mem jk type (the flt)) (ad_attrLen ad))))"

definition cond_ok :: "AttrDesc option \<Rightarrow> string option \<Rightarrow> (RID \<times> byte list) list \<Rightarrow> bool" where
  "cond_ok d flt recs = (case d of None \<Rightarrow> True
     | Some ad \<Rightarrow> flt \<noteq> None \<and> type_of_code (ad_attrType ad) \<noteq> None \<and> 0 \<le> ad_attrOffset ad \<and> 1 \<le> ad_attrLen ad \<and>
         (type_of_code (ad_attrType ad) \<noteq> Some STRING \<longrightarrow> ad_attrLen ad = 4) \<and> all_in_rec [ad] recs)"

lemma select_start_cond:
  assumes sc: "scan_own s name h U B hdr xs recs" and all: "\<And>r. HeapFileScan_matchRec h r" and ok: "cond_ok d flt recs"
  obtains h' where "select_start jk h d op flt = Some (OK, h')" "scan_own s name h' U B hdr xs recs" "filePtr h' = filePtr h"
    "\<And>B. with_obj h' B = with_obj h B" "\<And>ads. selected ads (HeapFileScan_matchRec h') recs = selected ads (cond_holds jk d op flt) recs"
    "\<And>r. r \<in> snd ` set recs \<Longrightarrow> HeapFileScan_matchRec h' r = cond_holds jk d op flt r"
proof (cases d)
  case None
  let ?h = "h\<lparr>sc_filter := None\<rparr>"
  have e: "?h = h\<lparr>sc_offset := sc_offset h, sc_length := sc_length h, sc_type := sc_type h, sc_filter := None, sc_op := sc_op h\<rparr>" by simp
  have "scan_own s name ?h U B hdr xs recs" using scan_own_startScan [OF sc] by (subst e)
  moreover have "HeapFileScan_matchRec ?h = cond_holds jk d op flt" by (simp add: HeapFileScan_matchRec_def cond_holds_def None fun_eq_iff)
  moreover have "select_start jk h d op flt = Some (OK, ?h)" by (simp add: select_start_def None HeapFileScan_startScan_def)
  ultimately show thesis using that [of ?h] by (simp add: with_obj_def)
next
  case (Some ad)
  obtain type v where t: "type_of_code (ad_attrType ad) = Some type" "flt = Some v" using ok Some by (auto simp: cond_ok_def)
  let ?h = "h\<lparr>sc_offset := ad_attrOffset ad, sc_length := ad_attrLen ad, sc_type := type, sc_filter := Some (filter_mem jk type v), sc_op := op\<rparr>"
  have "select_start jk h d op flt = Some (OK, ?h)"
    using ok t by (auto simp: select_start_def Some HeapFileScan_startScan_def cond_ok_def)
  moreover have m: "HeapFileScan_matchRec ?h r = cond_holds jk d op flt r" if "r \<in> snd ` set recs" for r
  proof -
    have "in_rec ad r" using ok that by (auto simp: cond_ok_def Some all_in_rec_def)
    then show ?thesis using t by (simp add: HeapFileScan_matchRec_def cond_holds_def Some in_rec_def)
  qed
  moreover have "selected ads (HeapFileScan_matchRec ?h) recs = selected ads (cond_holds jk d op flt) recs" for ads
    unfolding selected_def by (intro arg_cong [where f = "map (proj_rec ads)"] filter_cong) (auto simp: m)
  ultimately show thesis using that [of ?h] scan_own_startScan [OF sc] by (simp add: with_obj_def)
qed

section \<open>ScanSelect\<close>

lemma put_out_simps [simp]:
  "numBufs (put_out s t) = numBufs s" "openFiles (put_out s t) = openFiles s" "disk (put_out s t) = disk s"
  "junk (put_out s t) = junk s" "out (put_out s t) = out s @ t" "page_of (put_out s t) = page_of s" "pin_of (put_out s t) = pin_of s"
  "stored (put_out s t) = stored s"
  by (simp_all add: put_out_def page_of_def pin_of_def stored_def disk_page_def file_pages_def file_name_def fun_eq_iff split: option.split)

lemma put_out_inv [simp]: "db_inv (put_out s t) = db_inv s"
  by (simp add: put_out_def db_inv_def pool_ok_def coherent_def open_ok_def io_inv_def file_name_def desc_ok_def desc_coherent_def
      disk_page_def file_pages_def)

lemma put_out_open [simp]: "rel_open (put_out s t) n f U hdr xs = rel_open s n f U hdr xs"
  by (simp add: rel_open_def pool_used_def file_ok_def cached_def) (simp add: put_out_def file_pages_def file_name_def)

lemma put_out_heap_at [simp]: "heap_at (put_out s t) h U B hdr xs x = heap_at s h U B hdr xs x"
  by (simp add: heap_at_def pool_used_def file_ok_def cached_def settled_def) (simp add: put_out_def pool_frame_def file_pages_def file_name_def disk_page_def)

lemma put_out_own [simp]: "own (put_out s t) n h U B hdr xs x = own s n h U B hdr xs x"
  by (simp add: own_def sole_user_def) (simp add: put_out_def)

lemma aside_minirel:
  fixes s s' :: "'z minirel_scheme"
  assumes "aside N F s s'"
  shows "minirel.more s' = minirel.more s" "out s' = out s" "junk s' = junk s"
  using assms unfolding aside_def by (cases s; cases s'; simp)+

lemma ScanSelect_spec:
  fixes s :: "'z minirel_scheme"
  assumes inv: "db_inv s" and src: "stored s src n recs" and dst: "stored s dst m old" and ne: "src \<noteq> dst"
    and ads: "ads \<noteq> []" "ad_relName (hd ads) = src" "\<forall>ad \<in> set ads. 0 \<le> ad_attrLen ad" "all_in_rec ads recs"
    and width: "0 < sum_list (map ad_attrLen ads)" "sum_list (map ad_attrLen ads) \<le> 1000" and cond: "cond_ok d flt recs"
    and room: "card (pinned s) + 5 \<le> numBufs s" "m + length recs \<le> 2147483647"
  obtains s' F m' new where "ScanSelect s dst ads d op flt = Some (OK, s')" "db_inv s'" "stored s' src n recs" "stored s' dst m' new"
    "mset (map snd new) = mset (selected ads (cond_holds (junk s) d op flt) recs) + mset (map snd old)"
    "pin_of s' = pin_of s" "aside {src, dst} F (put_out s (''Doing HeapFileScan Selection using ScanSelect()'' @ newline)) s'"
    "\<And>f. f \<in> F \<Longrightarrow> files s f = None"
proof -
  let ?s = "put_out s (''Doing HeapFileScan Selection using ScanSelect()'' @ newline)"
  let ?B = "pin_of s"
  have fs: "files ?s = files s" by (simp add: put_out_def)
  have i0: "db_inv ?s" "stored ?s src n recs" "card (pinned ?s) + 2 \<le> numBufs ?s" using inv src room by simp_all
  obtain s1 U hdr xs and h :: filescan where A: "HeapFileScan_new ?s src = Some (OK, Some h, s1)"
    "scan_own s1 src h U (pin_of ?s) hdr xs recs" "lay_size U = n" "apart src (filePtr h) ?s s1" "files ?s (filePtr h) = None"
    "chain_recs (page_of s1 (filePtr h)) xs = recs" "\<And>r. HeapFileScan_matchRec h r"
    by (rule HeapFileScan_new_own [OF i0]) (rule that)
  have p0: "pin_of ?s = ?B" by simp
  note P1 = scan_own_pins [OF A(2) [unfolded p0]]
  have dst1: "stored s1 dst m old" using apartD(4) [OF A(4), of dst m old] ne dst by simp
  note W1 = busy_with_obj [where h = h, OF P1(5,2)]
  have n1: "numBufs s1 = numBufs s" using apartD(1) [OF A(4)] by simp
  have room1: "card (pinned s1) + 2 \<le> numBufs s1" using W1(2) room n1 unfolding P1(1) by linarith
  obtain s2 rel V hdr2 ys where C: "InsertFileScan_new s1 dst = Some (OK, Some rel, s2)" "own s2 dst rel V (pin_of s1) hdr2 ys (last ys)"
    "lay_size V = m" "chain_recs (page_of s2 (filePtr rel)) ys = old" "apart dst (filePtr rel) s1 s2" "files s1 (filePtr rel) = None"
    by (rule InsertFileScan_new_own [OF P1(4) dst1 room1]) (rule that)
  have su: "sole_user s1 src (filePtr h)" using A(2) by (auto simp: scan_own_def own_def)
  then have fne: "filePtr h \<noteq> filePtr rel" using C(6) by (auto simp: sole_user_def)
  have inv2: "db_inv s2" by (rule own_pins(5) [OF C(2)])
  have p2: "pin_of s2 = with_obj h (with_obj rel ?B)" using own_pins(1) [OF C(2)] P1(1) with_obj_swap by metis
  have nn2: "\<And>g q. 0 \<le> with_obj rel ?B g q" by (rule with_obj_nonneg) (rule P1(2))
  have z2: "\<And>q. with_obj rel ?B (filePtr h) q = 0" using fne P1(3) by (simp add: with_obj_other)
  note W2 = busy_with_obj [where h = rel, OF P1(5,2)]
  have c2: "card (busy (with_obj rel ?B)) + 2 \<le> numBufs s1" using W2(2) room n1 by linarith
  have sc2: "scan_own s2 src h U (with_obj rel ?B) hdr xs recs"
    by (rule scan_own_beside [OF A(2) apart_spared [OF C(5) fne] inv2 p2 nn2 z2 W2(1) c2])
  obtain h' where D: "select_start (junk s) h d op flt = Some (OK, h')" "scan_own s2 src h' U (with_obj rel ?B) hdr xs recs"
    "filePtr h' = filePtr h" "\<And>B. with_obj h' B = with_obj h B"
    "\<And>ads. selected ads (HeapFileScan_matchRec h') recs = selected ads (cond_holds (junk s) d op flt) recs"
    by (rule select_start_cond [OF sc2 A(7) cond]) (rule that)
  have zr: "\<And>q. ?B (filePtr rel) q = 0" using own_pins(4) [OF C(2)] fne unfolding P1(1) by (simp add: with_obj_other)
  have sel: "selecting s2 src h' U hdr xs recs dst rel V hdr2 ys ?B"
    using ne fne D(2-4) C(2) P1 zr room n1 apartD(1) [OF C(5)] by (simp add: selecting_def)
  have w: "int (sum_list (map (\<lambda>ad. nat (ad_attrLen ad)) ads)) = sum_list (map ad_attrLen ads)" using ads(3) by (induction ads) auto
  have width': "0 < sum_list (map (\<lambda>ad. nat (ad_attrLen ad)) ads)" "sum_list (map (\<lambda>ad. nat (ad_attrLen ad)) ads) \<le> 1000"
    using w width by linarith+
  have size: "lay_size V + length recs \<le> 2147483647" using C(3) room by simp
  obtain s3 h3 rel3 V3 hdr3 ys3 where L: "select_loop s2 h' rel ads OK = Some (OK, s3, h3, rel3)"
    "selecting s3 src h3 U hdr xs [] dst rel3 V3 hdr3 ys3 ?B" "filePtr h3 = filePtr h'" "filePtr rel3 = filePtr rel"
    "page_of s3 (filePtr h') = page_of s2 (filePtr h')" "aside {src, dst} {filePtr h', filePtr rel} s2 s3"
    "contents_of s3 (filePtr rel) ys3 = mset (selected ads (HeapFileScan_matchRec h') recs) + contents_of s2 (filePtr rel) ys"
    using select_loop_spec [OF sel ads(4) width' size] by blast
  obtain s4 h4 s5 s6 where E: "HeapFileScan_endScan s3 h3 = Some (OK, s4, h4)" "HeapFileScan_delete s4 h4 = Some s5"
    "InsertFileScan_delete s5 rel3 = Some s6" "db_inv s6" "pin_of s6 = ?B"
    "stored s6 src (lay_size U) (chain_recs (page_of s3 (filePtr h3)) xs)"
    "stored s6 dst (lay_size V3) (chain_recs (page_of s3 (filePtr rel3)) ys3)" "aside {src, dst} {filePtr h3, filePtr rel3} s3 s6"
    by (rule selecting_close [OF L(2)]) (rule that)
  let ?F = "{filePtr h, filePtr rel}"
  have jk: "junk s2 = junk s" 
  proof -
    have "db.more s2 = db.more ?s" using apartD(2) [OF C(5)] apartD(2) [OF A(4)] by simp
    then have "junk s2 = junk ?s" by (cases s2; cases ?s) simp
    then show ?thesis by simp
  qed
  have pok: "proj_ok ads" using ads(3) width by (simp add: proj_ok_def list_all_iff)
  have run: "ScanSelect s dst ads d op flt = Some (OK, s6)"
    using ads(1,2) A(1) C(1) D(1) L(1) E(1-3) pok jk by (simp add: ScanSelect_def Let_def)
  have "chain_recs (page_of s3 (filePtr h3)) xs = recs" using L(3,5) D(3) apartD(6) [OF C(5) fne] A(6) by simp
  then have src6: "stored s6 src n recs" using E(6) A(3) by simp
  have new: "mset (map snd (chain_recs (page_of s3 (filePtr rel3)) ys3))
    = mset (selected ads (cond_holds (junk s) d op flt) recs) + mset (map snd old)"
    using L(4,7) D(5) C(4) by simp
  have a01: "aside {src, dst} ?F ?s s1" by (rule apart_aside [OF A(4)]) (use P1(1) in \<open>simp_all add: with_obj_same\<close>)
  have a12: "aside {src, dst} ?F s1 s2"
    by (rule apart_aside [OF C(5)]) (use own_pins(1) [OF C(2)] in \<open>simp_all add: with_obj_same\<close>)
  have a23: "aside {src, dst} ?F s2 s3" using L(6) D(3) by simp
  have a36: "aside {src, dst} ?F s3 s6" using E(8) L(3,4) D(3) by simp
  have a: "aside {src, dst} ?F ?s s6" by (rule aside_trans [OF a01 aside_trans [OF a12 aside_trans [OF a23 a36]]])
  have fF: "files s f = None" if f: "f \<in> ?F" for f
    using f A(5) C(6) apartD(5) [OF A(4), of "filePtr rel"] fne fs by auto
  show thesis by (rule that [OF run E(4) src6 E(7) new E(5) a fF])
qed

section \<open>QU_Select\<close>

text \<open>What a lookup in the open attribute catalog leaves as it is.\<close>

definition cat_read :: "'z db_scheme \<Rightarrow> 'z db_scheme \<Rightarrow> bool" where
  "cat_read s s' \<longleftrightarrow> page_of s' = page_of s \<and> pin_of s' = pin_of s \<and> numBufs s' = numBufs s \<and> db.more s' = db.more s \<and>
     files s' = files s \<and> (\<forall>n k r. stored s n k r \<longrightarrow> stored s' n k r)"

lemma cat_read_refl: "cat_read s s"
  by (simp add: cat_read_def)

lemma cat_read_trans: "cat_read s s1 \<Longrightarrow> cat_read s1 s2 \<Longrightarrow> cat_read s s2"
  by (simp add: cat_read_def)

lemma call_cat_read:
  assumes inv: "db_inv s" "db_inv s'" and k: "call_kept f s s'" and P: "page_of s' = page_of s"
  shows "cat_read s s'"
proof -
  have a: "apart name f s s'" for name by (rule call_kept_apart [OF inv k]) (simp add: P)
  have "stored s' n j r" if "stored s n j r" for n j r
    using apartD(4) [OF a [of "CHR ''x'' # n"] _ that] by simp
  then show ?thesis using k P apartD(1,2) [OF a] by (simp add: cat_read_def call_kept_def pool_rest_def)
qed

text \<open>The descriptor of an attribute of a query.\<close>

definition cat_attr :: "(RID \<times> byte list) list \<Rightarrow> attrInfo \<Rightarrow> AttrDesc option" where
  "cat_attr cat a = find (\<lambda>ad. ad_attrName ad = ai_attrName a) (rel_attrs cat (ai_relName a))"

definition attr_named :: "attrInfo \<Rightarrow> bool" where
  "attr_named a \<longleftrightarrow> ai_relName a \<noteq> [] \<and> c_name (ai_relName a) \<and> ai_attrName a \<noteq> []"

lemma find_SomeD: "find P xs = Some x \<Longrightarrow> x \<in> set xs"
  by (induction xs) (auto split: if_splits)

lemma cat_attr_rel: "cat_attr cat a = Some ad \<Longrightarrow> ad_relName ad = ai_relName a"
  unfolding cat_attr_def rel_attrs_def by (drule find_SomeD) auto

lemma getInfo_found:
  assumes r: "rel_open s ATTRCATNAME f U hdr xs" and room: "card (pinned s) + 2 \<le> numBufs s"
    and ok: "attr_recs (chain_recs (page_of s f) xs)" and n: "attr_named a" and d: "cat_attr (chain_recs (page_of s f) xs) a = Some ad"
  obtains s' where "AttrCatalog_getInfo s (ai_relName a) (ai_attrName a) = Some (OK, Some ad, s')"
    "rel_open s' ATTRCATNAME f U hdr xs" "cat_read s s'"
proof -
  have nn: "ai_relName a \<noteq> []" "c_name (ai_relName a)" "ai_attrName a \<noteq> []" using n by (simp_all add: attr_named_def)
  obtain s' st d' where A: "AttrCatalog_getInfo s (ai_relName a) (ai_attrName a) = Some (st, d', s')"
    "case cat_attr (chain_recs (page_of s f) xs) a of None \<Rightarrow> st = ATTRNOTFOUND | Some ad \<Rightarrow> st = OK \<and> d' = Some ad"
    "call_kept f s s'" "page_of s' = page_of s" "rel_open s' ATTRCATNAME f U hdr xs"
    using attrInfo_spec [OF r room ok nn] unfolding cat_attr_def by blast
  have "cat_read s s'" using A(5) r by (intro call_cat_read [OF _ _ A(3,4)]) (simp_all add: rel_open_def)
  then show thesis using that [of s'] A(1,2,5) d by simp
qed

lemma lookup_attrs_found:
  assumes "rel_open s ATTRCATNAME f U hdr xs" "card (pinned s) + 2 \<le> numBufs s" "attr_recs (chain_recs (page_of s f) xs)"
    "list_all2 (\<lambda>a ad. attr_named a \<and> cat_attr (chain_recs (page_of s f) xs) a = Some ad) as ads"
  shows "\<exists>s'. lookup_attrs s as = Some (OK, ads, s') \<and> rel_open s' ATTRCATNAME f U hdr xs \<and> cat_read s s'"
  using assms
proof (induction "as" arbitrary: s ads)
  case Nil
  then show ?case by (intro exI [of _ s]) (simp add: cat_read_refl)
next
  case (Cons a as')
  obtain ad ads' where ads: "ads = ad # ads'" "attr_named a" "cat_attr (chain_recs (page_of s f) xs) a = Some ad"
    "list_all2 (\<lambda>a ad. attr_named a \<and> cat_attr (chain_recs (page_of s f) xs) a = Some ad) as' ads'"
    using Cons.prems(4) by (auto simp: list_all2_Cons1)
  obtain s1 where A: "AttrCatalog_getInfo s (ai_relName a) (ai_attrName a) = Some (OK, Some ad, s1)"
    "rel_open s1 ATTRCATNAME f U hdr xs" "cat_read s s1"
    by (rule getInfo_found [OF Cons.prems(1-3) ads(2,3)]) (rule that)
  have k: "page_of s1 = page_of s" "pin_of s1 = pin_of s" "numBufs s1 = numBufs s" using A(3) by (simp_all add: cat_read_def)
  obtain s2 where B: "lookup_attrs s1 as' = Some (OK, ads', s2)" "rel_open s2 ATTRCATNAME f U hdr xs" "cat_read s1 s2"
    using Cons.IH [OF A(2), of ads'] Cons.prems(2,3) ads(4) k by auto
  show ?case
    using A(1) B(1,2) cat_read_trans [OF A(3) B(3)] ads(1) by (intro exI [of _ s2]) simp
qed

lemma cat_read_junk:
  fixes s s' :: "'z minirel_scheme"
  assumes "cat_read s s'"
  shows "junk s' = junk s"
  using assms unfolding cat_read_def by (cases s; cases s'; simp)

text \<open>QU_Select finds the descriptors and calls ScanSelect.\<close>

lemma QU_Select_lookup:
  fixes s :: "'z minirel_scheme"
  assumes "rel_open s ATTRCATNAME fa Ua hdra xsa" "cat = chain_recs (page_of s fa) xsa" "attr_recs cat"
    and "list_all2 (\<lambda>a ad. attr_named a \<and> cat_attr cat a = Some ad) projNames ads"
    and "rel_option (\<lambda>a ad. attr_named a \<and> cat_attr cat a = Some ad) attr d"
    and "cond_ok d val recs" "card (pinned s) + 2 \<le> numBufs s"
  obtains s2 op' val' where "QU_Select s dst projNames attr op val = ScanSelect s2 dst ads d op' val'"
    "rel_open s2 ATTRCATNAME fa Ua hdra xsa" "cat_read (put_out s (''Doing QU_Select '' @ newline)) s2"
    "\<And>jk. cond_holds jk d op' val' = cond_holds jk d op val" "cond_ok d val' recs"
proof -
  let ?s = "put_out s (''Doing QU_Select '' @ newline)"
  have r0: "rel_open ?s ATTRCATNAME fa Ua hdra xsa" "card (pinned ?s) + 2 \<le> numBufs ?s"
    "attr_recs (chain_recs (page_of ?s fa) xsa)"
    "list_all2 (\<lambda>a ad. attr_named a \<and> cat_attr (chain_recs (page_of ?s fa) xsa) a = Some ad) projNames ads"
    using assms(1-4,7) by simp_all
  obtain s1 where A: "lookup_attrs ?s projNames = Some (OK, ads, s1)" "rel_open s1 ATTRCATNAME fa Ua hdra xsa" "cat_read ?s s1"
    using lookup_attrs_found [OF r0] by blast
  have k1: "page_of s1 = page_of s" "pin_of s1 = pin_of s" "numBufs s1 = numBufs s" using A(3) by (simp_all add: cat_read_def)
  show thesis
  proof (cases attr)
    case None
    then have d: "d = None" using assms(5) by simp
    show thesis by (rule that [of s1 EQ None]) (use None d A assms(6) in \<open>simp_all add: QU_Select_def cond_holds_def cond_ok_def fun_eq_iff\<close>)
  next
    case (Some a)
    then obtain ad where d: "d = Some ad" "attr_named a" "cat_attr (chain_recs (page_of s1 fa) xsa) a = Some ad"
      using assms(2,5) k1 by (cases d) auto
    have r1: "card (pinned s1) + 2 \<le> numBufs s1" "attr_recs (chain_recs (page_of s1 fa) xsa)" using assms(2,3,7) k1 by simp_all
    obtain s2 where C: "AttrCatalog_getInfo s1 (ai_relName a) (ai_attrName a) = Some (OK, Some ad, s2)"
      "rel_open s2 ATTRCATNAME fa Ua hdra xsa" "cat_read s1 s2"
      by (rule getInfo_found [OF A(2) r1 d(2,3)]) (rule that)
    show thesis
      by (rule that [of s2 op val]) (use Some d(1) A(1) C cat_read_trans [OF A(3) C(3)] assms(6) in \<open>simp_all add: QU_Select_def\<close>)
  qed
qed

text \<open>
  C3: A selection yields the relation it describes. With the attribute catalog open, the
  projected attributes (and the one of the condition, if there is one) found in it, all of them
  inside the records of the source relation, and a result relation other than the source, QU_Select
  answers OK; afterwards the result relation holds, besides what it held before, exactly the
  projections of the source records that satisfy the condition, each as often as it occurs. The
  source, every other closed relation and the catalog are unchanged, no page stays pinned and both
  files are closed again. Five free frames are enough.
\<close>
theorem QU_Select_selects:
  fixes s :: "'z minirel_scheme"
  assumes "rel_open s ATTRCATNAME fa Ua hdra xsa" "cat = chain_recs (page_of s fa) xsa" "attr_recs cat"
    and "stored s src n recs" "stored s dst m old" "src \<noteq> dst"
    and "list_all2 (\<lambda>a ad. attr_named a \<and> cat_attr cat a = Some ad) projNames ads" "projNames \<noteq> []" "ai_relName (hd projNames) = src"
    and "rel_option (\<lambda>a ad. attr_named a \<and> cat_attr cat a = Some ad) attr d"
    and "\<forall>ad \<in> set ads. 0 \<le> ad_attrLen ad" "all_in_rec ads recs" "0 < sum_list (map ad_attrLen ads)"
      "sum_list (map ad_attrLen ads) \<le> 1000" "cond_ok d val recs"
    and "card (pinned s) + 5 \<le> numBufs s" "m + length recs \<le> 2147483647"
  shows "\<exists>s' m' new. QU_Select s dst projNames attr op val = Some (OK, s') \<and> stored s' src n recs \<and> stored s' dst m' new \<and>
    mset (map snd new) = mset (selected ads (cond_holds (junk s) d op val) recs) + mset (map snd old) \<and>
    (\<forall>name k r. name \<notin> {src, dst} \<and> stored s name k r \<longrightarrow> stored s' name k r) \<and>
    rel_open s' ATTRCATNAME fa Ua hdra xsa \<and> page_of s' fa = page_of s fa \<and> pin_of s' = pin_of s"
proof -
  let ?t = "''Doing HeapFileScan Selection using ScanSelect()'' @ newline"
  obtain a0 as' ad0 ads' where hd: "projNames = a0 # as'" "ads = ad0 # ads'" "cat_attr cat a0 = Some ad0"
    using assms(7,8) by (cases projNames; cases ads) auto
  have ads: "ads \<noteq> []" "ad_relName (hd ads) = src" using hd cat_attr_rel [OF hd(3)] assms(9) by simp_all
  have room0: "card (pinned s) + 2 \<le> numBufs s" using assms(16) by simp
  obtain s2 op' val' where B: "QU_Select s dst projNames attr op val = ScanSelect s2 dst ads d op' val'" "rel_open s2 ATTRCATNAME fa Ua hdra xsa"
    "cat_read (put_out s (''Doing QU_Select '' @ newline)) s2" "\<And>jk. cond_holds jk d op' val' = cond_holds jk d op val" "cond_ok d val' recs"
    by (rule QU_Select_lookup [OF assms(1-3,7,10,15) room0]) (rule that)
  have k2: "page_of s2 = page_of s" "pin_of s2 = pin_of s" "numBufs s2 = numBufs s" "files s2 = files s"
    "\<And>n k r. stored s n k r \<Longrightarrow> stored s2 n k r"
    using B(3) by (simp_all add: cat_read_def) (simp add: put_out_def)
  have jk: "junk s2 = junk s" using cat_read_junk [OF B(3)] by simp
  have inv2: "db_inv s2" using B(2) by (simp add: rel_open_def)
  have room: "card (pinned s2) + 5 \<le> numBufs s2" using assms(16) k2 by simp
  obtain s' F m' new where S: "ScanSelect s2 dst ads d op' val' = Some (OK, s')" "db_inv s'" "stored s' src n recs" "stored s' dst m' new"
    "mset (map snd new) = mset (selected ads (cond_holds (junk s2) d op' val') recs) + mset (map snd old)"
    "pin_of s' = pin_of s2" "aside {src, dst} F (put_out s2 ?t) s'"
    "\<And>f. f \<in> F \<Longrightarrow> files s2 f = None"
    by (rule ScanSelect_spec [OF inv2 k2(5) [OF assms(4)] k2(5) [OF assms(5)] assms(6) ads assms(11-14) B(5) room assms(17)]) (rule that)
  have "of_map (openFiles s) ATTRCATNAME = Some fa" "db_inv s" using assms(1) by (simp_all add: rel_open_def)
  then have "files s fa \<noteq> None" using open_ok_map [of s ATTRCATNAME fa] by (auto simp: db_inv_def)
  then have fa: "fa \<notin> F" using S(8) k2(4) by auto
  have cn: "ATTRCATNAME \<notin> {src, dst}" using assms(1,4,5) by (auto simp: rel_open_def stored_def)
  have r2: "rel_open (put_out s2 ?t) ATTRCATNAME fa Ua hdra xsa" using B(2) by simp
  note R = rel_open_aside [OF r2 S(7) cn fa S(2)]
  have "stored s' name k r" if "name \<notin> {src, dst} \<and> stored s name k r" for name k r
    using S(7) that k2(5) [of name k r] by (simp add: aside_def)
  then show ?thesis
    using S(1,3-6) R k2(1,2) B(1,4) jk by (intro exI [of _ s'] exI [of _ m'] exI [of _ new]) simp
qed

section \<open>An example\<close>

text \<open>A database of three relations: attrcat describes the attribute age of emp; proj and res are empty.\<close>

definition example_dir :: "string \<Rightarrow> page list option" where
  "example_dir = [RELCATNAME \<mapsto> empty_heap, ATTRCATNAME \<mapsto> empty_heap, ''emp'' \<mapsto> empty_heap, ''proj'' \<mapsto> empty_heap, ''res'' \<mapsto> empty_heap]"

definition example_minirel :: minirel where
  "example_minirel = db.extend (db_start example_dir 8) (minirel.fields
     \<lparr>filePtr = 0, headerPage = 0, headerPageNo = 0, hdrDirtyFlag = False, curPage = Null, cur_pageNo = 0, curDirtyFlag = False,
       curRec = NULLRID\<rparr>
     \<lparr>filePtr = 0, headerPage = 0, headerPageNo = 0, hdrDirtyFlag = False, curPage = Null, cur_pageNo = 0, curDirtyFlag = False,
       curRec = NULLRID\<rparr> [] [] zero_mem Map.empty)"

lemma example_minirel_fields:
  "disk example_minirel = example_dir" "numBufs example_minirel = 8" "files example_minirel = Map.empty"
  "openFiles example_minirel = OpenFileHashTbl_new" "page_of example_minirel = (\<lambda>f no. None)" "pin_of example_minirel = (\<lambda>f no. 0)"
  "db_inv example_minirel"
proof -
  let ?s = "db_start example_dir 8"
  have "\<forall>x \<in> dom example_dir. c_str x = x" by (simp add: example_dir_def RELCATNAME_def ATTRCATNAME_def)
  then have I: "db_inv ?s" "page_of ?s = (\<lambda>f no. None)" "pin_of ?s = (\<lambda>f no. 0)" by (simp_all add: db_start_inv)
  have t: "disk example_minirel = disk ?s" "numBufs example_minirel = numBufs ?s" "files example_minirel = files ?s"
    "openFiles example_minirel = openFiles ?s" "hashTable example_minirel = hashTable ?s" "bufTable example_minirel = bufTable ?s"
    "bufPool example_minirel = bufPool ?s" "clockHand example_minirel = clockHand ?s" "fds example_minirel = fds ?s"
    "next_fd example_minirel = next_fd ?s" "next_ptr example_minirel = next_ptr ?s"
    by (simp_all add: example_minirel_def db.defs)
  have f: "file_name example_minirel = file_name ?s" "file_pages example_minirel = file_pages ?s"
    "disk_page example_minirel = disk_page ?s"
    by (simp_all add: fun_eq_iff file_name_def file_pages_def disk_page_def t)
  have p: "page_of example_minirel = page_of ?s" "pin_of example_minirel = pin_of ?s"
    by (simp_all add: fun_eq_iff page_of_def pin_of_def t f split: option.split)
  show "disk example_minirel = example_dir" "numBufs example_minirel = 8" "files example_minirel = Map.empty"
    "openFiles example_minirel = OpenFileHashTbl_new" "page_of example_minirel = (\<lambda>f no. None)" "pin_of example_minirel = (\<lambda>f no. 0)"
    using I(2,3) p by (simp_all add: t db_start_fields)
  show "db_inv example_minirel"
    using I(1) by (simp add: db_inv_def pool_ok_def coherent_def open_ok_def io_inv_def desc_ok_def desc_coherent_def t f)
qed

lemma example_stored: "name \<noteq> [] \<Longrightarrow> example_dir name = Some empty_heap \<Longrightarrow> stored example_minirel name 3 []"
  unfolding stored_def using empty_heap_file
  by (simp add: example_minirel_fields of_new_map) (intro exI [of _ "[] :: int list"] exI [of _ empty_hdr] exI [of _ "[2]"] conjI, simp_all)

lemma example_relation:
  assumes rec: "rec \<noteq> []" "length rec \<le> 1000" and d: "AttrDesc_bytes ad = Some r" "attr_desc_ok ad"
  obtains s :: minirel and fa U hdr xs n rid where "rel_open s ATTRCATNAME fa U hdr xs" "attr_recs (chain_recs (page_of s fa) xs)"
    "attr_list (chain_recs (page_of s fa) xs) = [ad]" "stored s ''emp'' n [(rid, rec)]" "n \<le> 4" "stored s ''res'' 3 []"
    "card (pinned s) + 7 \<le> numBufs s" "stored s ''proj'' 3 []" "lay_size U \<le> 4"
proof -
  let ?s = example_minirel
  note F = example_minirel_fields
  have st: "stored ?s ''emp'' 3 []" "stored ?s ''res'' 3 []" "stored ?s ATTRCATNAME 3 []" "stored ?s ''proj'' 3 []"
    by (rule example_stored; simp add: example_dir_def ATTRCATNAME_def)+
  have p0: "pinned ?s = {}" by (simp add: busy_def F(6))
  have room0: "card (pinned ?s) + 3 \<le> numBufs ?s" "(3 :: nat) < 2147483647" using p0 F(2) by simp_all
  obtain s1 rid n' new f1 where A: "db_inv s1" "stored s1 ''emp'' n' new" "mset new = add_mset (rid, rec) (mset [])"
    "n' \<le> Suc 3" "apart ''emp'' f1 ?s s1" "pin_of s1 = pin_of ?s"
    by (rule insert_stored [OF F(7) st(1) rec room0]) (rule that)
  have new: "new = [(rid, rec)]" using A(3) by simp
  note A1 = apartD [OF A(5)]
  have st1: "stored s1 ''res'' 3 []" "stored s1 ATTRCATNAME 3 []" "stored s1 ''proj'' 3 []"
    using A1(4) [OF _ st(2)] A1(4) [OF _ st(3)] A1(4) [OF _ st(4)] by (simp_all add: ATTRCATNAME_def)
  obtain s2 f U hdr xs where B: "rel_open s2 ATTRCATNAME f U hdr xs" "lay_size U = 3" "chain_recs (page_of s2 f) xs = []"
    "apart ATTRCATNAME f s1 s2" "pin_of s2 = pin_of s1"
    by (rule openFile_stored [OF A(1) st1(2)]) (rule that)
  note B1 = apartD [OF B(4)]
  have st2: "stored s2 ''emp'' n' [(rid, rec)]" "stored s2 ''res'' 3 []" "stored s2 ''proj'' 3 []"
    using B1(4) [OF _ A(2)] B1(4) [OF _ st1(1)] B1(4) [OF _ st1(3)] new by (simp_all add: ATTRCATNAME_def)
  have ok: "attr_rec r ad" using d by (simp add: attr_rec_def)
  have dec: "bytes_AttrDesc r = Some ad" by (rule attr_recD [OF ok])
  have l: "r \<noteq> []" "length r \<le> 1000" using dec by (auto simp: bytes_AttrDesc_def split: if_splits)
  have p2: "pinned s2 = {}" using p0 A(6) B(5) by simp
  have n2: "numBufs s2 = 8" using A1(1) B1(1) F(2) by simp
  have room2: "card (pinned s2) + 3 \<le> numBufs s2" "lay_size U < 2147483647" using p2 n2 B(2) by simp_all
  obtain s3 rid' U' hdr' xs' where C: "call_kept f s2 s3" "rel_open s3 ATTRCATNAME f U' hdr' xs'"
    "lay_size U' \<le> Suc (lay_size U)" "mset (chain_recs (page_of s3 f) xs') = add_mset (rid', r) (mset (chain_recs (page_of s2 f) xs))"
    "\<And>g q. g \<noteq> f \<Longrightarrow> page_of s3 g q = page_of s2 g q"
    by (rule insert_call [OF B(1) l room2]) (rule that)
  have inv: "db_inv s2" "db_inv s3" using B(1) C(2) by (simp_all add: rel_open_def)
  have a: "apart ATTRCATNAME f s2 s3" by (rule call_kept_apart [OF inv C(1)]) (simp add: C(5) fun_eq_iff)
  note C1 = apartD [OF a]
  have "chain_recs (page_of s3 f) xs' = [(rid', r)]" using C(4) B(3) by simp
  then show thesis
    using that [OF C(2), of n' rid] C1(4) [OF _ st2(1)] C1(4) [OF _ st2(2)] C1(4) [OF _ st2(3)] call_kept_room [OF C(1)] p2 n2 ok dec A(4) B(2) C(3)
    by (auto simp: attr_recs_def attr_list_def ATTRCATNAME_def)
qed

definition age :: "string option \<Rightarrow> attrInfo" where
  "age v = \<lparr>ai_relName = ''emp'', ai_attrName = ''age'', ai_attrType = 1, ai_attrLen = 4, ai_attrValue = v\<rparr>"

lemma QU_Select_selects_witness:
  "\<exists>(s :: minirel) n rid s' m rid'. stored s ''emp'' n [(rid, replicate 20 0 @ [7, 0, 0, 0])] \<and> stored s ''res'' 3 [] \<and>
     QU_Select s ''res'' [age None] (Some (age None)) EQ (Some ''7'') = Some (OK, s') \<and> stored s' ''res'' m [(rid', [7, 0, 0, 0])]"
proof -
  let ?rec = "replicate 20 0 @ [7, 0, 0, 0] :: byte list"
  obtain r where r: "AttrDesc_bytes example_attr = Some r"
    by (simp add: example_attr_def AttrDesc_bytes_def name_bytes_def MAXNAME_def)
  have d: "attr_desc_ok example_attr" by (simp add: attr_desc_ok_def example_attr_def c_name_def int_range_def)
  have rec: "?rec \<noteq> []" "length ?rec \<le> 1000" by simp_all
  obtain s :: minirel and fa U hdr xs n rid where S: "rel_open s ATTRCATNAME fa U hdr xs" "attr_recs (chain_recs (page_of s fa) xs)"
    "attr_list (chain_recs (page_of s fa) xs) = [example_attr]" "stored s ''emp'' n [(rid, ?rec)]" "n \<le> 4" "stored s ''res'' 3 []"
    "card (pinned s) + 7 \<le> numBufs s"
    by (rule example_relation [OF rec r d]) (rule that)
  let ?cat = "chain_recs (page_of s fa) xs"
  have cat: "attr_named (age None) \<and> cat_attr ?cat (age None) = Some example_attr"
    using S(3) by (simp add: attr_named_def cat_attr_def rel_attrs_def age_def example_attr_def c_name_def)
  have p: "project (bytes_mem (replicate 20 0 @ [7, 0, 0, 0] @ [])) example_attr = [7, 0, 0, 0]"
    by (rule project_middle) (simp_all add: example_attr_def)
  have i: "in_rec example_attr ?rec" by (simp add: in_rec_def example_attr_def)
  have v: "atoi ''7'' = 7" "rd_int (bytes_mem ?rec) 20 = 7"
    by code_simp (simp add: rd_int_def bytes_mem_def nth_append)
  have c: "cond_holds (junk s) (Some example_attr) EQ (Some ''7'') ?rec"
    using v by (simp add: cond_holds_def example_attr_def type_of_code_def filter_diff_def filter_mem_def op_holds_def int_mem_def
        mem_simps wrap32_def)
  have sel: "selected [example_attr] (cond_holds (junk s) (Some example_attr) EQ (Some ''7'')) [(rid, ?rec)] = [[7, 0, 0, 0]]"
    using c p by (simp add: selected_def proj_rec_def)
  obtain s' m new where Q: "QU_Select s ''res'' [age None] (Some (age None)) EQ (Some ''7'') = Some (OK, s')" "stored s' ''res'' m new"
    "mset (map snd new) = mset [[7, 0, 0, 0]] + mset (map snd ([] :: (RID \<times> byte list) list))"
    using QU_Select_selects [where s = s and ads = "[example_attr]" and d = "Some example_attr" and src = "''emp''" and val = "Some ''7''"
        and attr = "Some (age None)" and projNames = "[age None]" and op = EQ, OF S(1) refl S(2,4,6)] cat i S(5,7) sel
    by (auto simp: all_in_rec_def cond_ok_def age_def example_attr_def type_of_code_def)
  have "map snd new = [[7, 0, 0, 0]]" using Q(3) by (simp del: mset_map)
  then obtain rid' where "new = [(rid', [7, 0, 0, 0])]" by auto
  then show ?thesis using S(4,6) Q(1,2) by blast
qed

end
