(* ===== verification/Modify.thy ===== *)
theory Modify
  imports Select
begin

text \<open>
  What an insertion does. QU_Insert holds an InsertFileScan on the relation while it scans the open
  attribute catalog; on every path after the relation has been found, errors included, the scan is
  destroyed, which closes the file.
\<close>

section \<open>QU_Insert\<close>

lemma more_junk:
  fixes s s' :: "'z minirel_scheme"
  assumes "db.more s' = db.more s"
  shows "junk s' = junk s"
  using assms by (cases s; cases s'; simp)

text \<open>What insert wants of its list: as many attributes as the relation has, each with a value and a type.\<close>

definition insert_list_ok :: "attrInfo list \<Rightarrow> AttrDesc list \<Rightarrow> bool" where
  "insert_list_ok as ds \<longleftrightarrow> length as = length ds \<and> (\<forall>a \<in> set as. ai_attrValue a \<noteq> None \<and> type_of_code (ai_attrType a) \<noteq> None)"

text \<open>The field of a descriptor: the value given under its name, or at its position.\<close>

definition given_field :: "mem \<Rightarrow> attrInfo list \<Rightarrow> AttrDesc list \<Rightarrow> nat \<Rightarrow> byte list \<Rightarrow> bool" where
  "given_field jk as ds k fld \<longleftrightarrow> (\<exists>v. fld = rd_bytes v 0 (nat (ad_attrLen (ds ! k))) \<and>
     (\<forall>a \<in> set as. distinct (map ai_attrName as) \<and> ai_attrName a = ad_attrName (ds ! k) \<longrightarrow> insert_value jk a = Some v) \<and>
     ((\<forall>a \<in> set as. ai_attrName a \<noteq> ad_attrName (ds ! k)) \<longrightarrow> insert_value jk (as ! k) = Some v))"

text \<open>The relation open for insertion, after the lookup of its descriptors.\<close>

lemma insert_lookup:
  assumes r: "rel_open s ATTRCATNAME fa Ua hdra xsa" "attr_recs (chain_recs (page_of s fa) xsa)" and st: "stored s rel n recs"
    and nm: "c_name rel" and room: "card (pinned s) + 4 \<le> numBufs s"
  obtains s1 h s2 U hdr xs where "InsertFileScan_new s rel = Some (OK, Some h, s1)"
    "AttrCatalog_getRelInfo s1 rel = Some (if rel_attrs (chain_recs (page_of s fa) xsa) rel = [] then RELNOTFOUND else OK,
       rel_attrs (chain_recs (page_of s fa) xsa) rel, s2)"
    "own s2 rel h U (pin_of s) hdr xs (last xs)" "lay_size U = n" "chain_recs (page_of s2 (filePtr h)) xs = recs"
    "rel_open s2 ATTRCATNAME fa Ua hdra xsa" "page_of s2 fa = page_of s fa" "filePtr h \<noteq> fa"
    "numBufs s2 = numBufs s" "db.more s2 = db.more s"
    "\<forall>name k j. name \<noteq> rel \<and> stored s name k j \<longrightarrow> stored s2 name k j" "card (pinned s2) \<le> card (pinned s) + 2"
proof -
  have inv: "db_inv s" and nr: "rel \<noteq> []" "rel \<noteq> ATTRCATNAME" using r(1) st by (auto simp: rel_open_def stored_def)
  have room2: "card (pinned s) + 2 \<le> numBufs s" using room by simp
  obtain s1 h U hdr xs where A: "InsertFileScan_new s rel = Some (OK, Some h, s1)" "own s1 rel h U (pin_of s) hdr xs (last xs)"
    "lay_size U = n" "chain_recs (page_of s1 (filePtr h)) xs = recs" "apart rel (filePtr h) s s1" "files s (filePtr h) = None"
    by (rule InsertFileScan_new_own [OF inv st room2]) (rule that)
  have fa: "files s fa \<noteq> None" using r(1) open_ok_map [of s ATTRCATNAME fa] by (auto simp: rel_open_def db_inv_def)
  then have ne': "filePtr h \<noteq> fa" using A(6) by auto
  note P1 = own_pins [OF A(2)]
  have r1: "rel_open s1 ATTRCATNAME fa Ua hdra xsa" "page_of s1 fa = page_of s fa"
    using rel_open_apart [OF r(1) A(5) nr(2) [symmetric] ne' [symmetric] P1(5)] by simp_all
  have c1: "card (pinned s1) \<le> card (pinned s) + 2"
    using busy_with_obj(2) [where h = h, OF P1(6) P1(3)] P1(1) by simp
  have room1: "card (pinned s1) + 2 \<le> numBufs s1" using c1 room apartD(1) [OF A(5)] by simp
  obtain s2 where B: "AttrCatalog_getRelInfo s1 rel = Some (if rel_attrs (chain_recs (page_of s fa) xsa) rel = [] then RELNOTFOUND else OK,
       rel_attrs (chain_recs (page_of s fa) xsa) rel, s2)"
    "call_kept fa s1 s2" "page_of s2 = page_of s1" "rel_open s2 ATTRCATNAME fa Ua hdra xsa"
    using getRelInfo_spec [OF r1(1) room1 _ nr(1) nm] r(2) r1(2) by auto
  have inv2: "db_inv s2" using B(4) by (simp add: rel_open_def)
  have a: "apart m fa s1 s2" for m by (rule call_kept_apart [OF P1(5) inv2 B(2)]) (simp add: B(3))
  have st2: "stored s2 m k j" if "stored s1 m k j" for m k j using apartD(4) [OF a [of "CHR ''x'' # m"] _ that] by simp
  have p2: "pin_of s2 = pin_of s1" using B(2) by (simp add: call_kept_def)
  have room3: "card (pinned s) + 2 \<le> numBufs s1" using room2 apartD(1) [OF A(5)] by simp
  have own2: "own s2 rel h U (pin_of s) hdr xs (last xs)"
    by (rule own_beside [OF A(2) apart_spared [OF a ne'] inv2 _ P1(3,4,6) room3]) (simp add: p2 P1(1))
  show thesis
    by (rule that [OF A(1) B(1) own2 A(3) _ B(4) _ ne'])
      (use A(4) B(3) r1(2) c1 p2 apartD(1,2) [OF a] apartD(1,2,4) [OF A(5)] st2 in simp_all)
qed

text \<open>The end of an insertion: the file is closed again.\<close>

lemma insert_close:
  assumes o: "own s2 rel h U B hdr xs x" and r: "rel_open s2 ATTRCATNAME fa Ua hdra xsa" and ne: "filePtr h \<noteq> fa" "rel \<noteq> ATTRCATNAME"
    and st: "\<forall>name k j. name \<noteq> rel \<and> stored s name k j \<longrightarrow> stored s2 name k j"
  obtains s3 where "InsertFileScan_delete s2 h = Some s3" "stored s3 rel (lay_size U) (chain_recs (page_of s2 (filePtr h)) xs)"
    "pin_of s3 = B" "rel_open s3 ATTRCATNAME fa Ua hdra xsa" "page_of s3 fa = page_of s2 fa"
    "\<forall>name k j. name \<noteq> rel \<and> stored s name k j \<longrightarrow> stored s3 name k j"
proof -
  obtain s3 where D: "InsertFileScan_delete s2 h = Some s3" "db_inv s3" "apart rel (filePtr h) s2 s3" "pin_of s3 = B"
    "stored s3 rel (lay_size U) (chain_recs (page_of s2 (filePtr h)) xs)"
    by (rule InsertFileScan_delete_own [OF o]) (rule that)
  note R = rel_open_apart [OF r D(3) ne(2) [symmetric] ne(1) [symmetric] D(2)]
  show thesis by (rule that [OF D(1,5,4) R]) (use apartD(4) [OF D(3)] st in blast)
qed

text \<open>The record is inserted and the file is closed.\<close>

lemma insert_record:
  assumes o: "own s2 rel h U B hdr xs (last xs)" and r: "rel_open s2 ATTRCATNAME fa Ua hdra xsa" and ne: "filePtr h \<noteq> fa" "rel \<noteq> ATTRCATNAME"
    and st: "\<forall>name k j. name \<noteq> rel \<and> stored s name k j \<longrightarrow> stored s2 name k j"
    and data: "data \<noteq> []" "length data \<le> 1000" and room: "card (pinned s2) < numBufs s2" "lay_size U < 2147483647"
  obtains rid s3 h3 s4 n' new where "InsertFileScan_insertRecord s2 h data = Some (OK, Some rid, s3, h3)" "InsertFileScan_delete s3 h3 = Some s4"
    "stored s4 rel n' new" "mset new = add_mset (rid, data) (mset (chain_recs (page_of s2 (filePtr h)) xs))" "pin_of s4 = B"
    "rel_open s4 ATTRCATNAME fa Ua hdra xsa" "page_of s4 fa = page_of s2 fa"
    "\<forall>name k j. name \<noteq> rel \<and> stored s name k j \<longrightarrow> stored s4 name k j"
proof -
  obtain rid s3 h3 U' hdr' xs' where I: "InsertFileScan_insertRecord s2 h data = Some (OK, Some rid, s3, h3)"
    "own s3 rel h3 U' B hdr' xs' (last xs')" "filePtr h3 = filePtr h" "apart rel (filePtr h) s2 s3" "db_inv s3"
    "mset (chain_recs (page_of s3 (filePtr h)) xs') = add_mset (rid, data) (mset (chain_recs (page_of s2 (filePtr h)) xs))"
    by (rule insert_own [OF o data room]) (rule that)
  note R = rel_open_apart [OF r I(4) ne(2) [symmetric] ne(1) [symmetric] I(5)]
  have st3: "\<forall>name k j. name \<noteq> rel \<and> stored s name k j \<longrightarrow> stored s3 name k j" using apartD(4) [OF I(4)] st by blast
  have ne3: "filePtr h3 \<noteq> fa" using ne(1) I(3) by simp
  obtain s4 where D: "InsertFileScan_delete s3 h3 = Some s4" "stored s4 rel (lay_size U') (chain_recs (page_of s3 (filePtr h3)) xs')"
    "pin_of s4 = B" "rel_open s4 ATTRCATNAME fa Ua hdra xsa" "page_of s4 fa = page_of s3 fa"
    "\<forall>name k j. name \<noteq> rel \<and> stored s name k j \<longrightarrow> stored s4 name k j"
    by (rule insert_close [OF I(2) R(1) ne3 ne(2) st3]) (rule that)
  show thesis by (rule that [OF I(1) D(1,2) _ D(3,4) _ D(6)]) (use I(3,6) D(5) R(2) in simp_all)
qed

text \<open>
  C6: An insertion adds one record or nothing. With the attribute catalog open and the relation in
  it, QU_Insert answers RELNOTFOUND when the catalog has no attribute of the relation, BADCATPARM
  when the list has another number of attributes, ATTRNOTFOUND when a value is missing, and on
  these errors the relation keeps its records; otherwise it answers OK and the relation has exactly
  one record more, as long as the tuple, whose projection on each attribute is the value that the
  list gives under its name, or at its position for a name that is not in the list. In every case
  the other closed relations and the catalog are unchanged, no page stays pinned and the file of
  the relation is closed.
\<close>
theorem QU_Insert_inserts:
  fixes s :: "'z minirel_scheme"
  assumes "rel_open s ATTRCATNAME fa Ua hdra xsa" "attr_recs (chain_recs (page_of s fa) xsa)" "stored s rel n recs" "c_name rel"
    and "ds = rel_attrs (chain_recs (page_of s fa) xsa) rel" "laid_out 0 ds" "ds \<noteq> [] \<longrightarrow> 0 < sum_list (map ad_attrLen ds)"
      "sum_list (map ad_attrLen ds) \<le> 1000"
    and "\<forall>a \<in> set as. type_of_code (ai_attrType a) \<noteq> None"
    and "card (pinned s) + 4 \<le> numBufs s" "n < 2147483647"
  shows "\<exists>st s' n' new. QU_Insert s rel as = Some (st, s') \<and> stored s' rel n' new \<and>
    st = (if ds = [] then RELNOTFOUND else if length as \<noteq> length ds then BADCATPARM
          else if \<exists>a \<in> set as. ai_attrValue a = None then ATTRNOTFOUND else OK) \<and>
    (if st = OK then \<exists>rid data. mset new = add_mset (rid, data) (mset recs) \<and> int (length data) = tuple_width ds \<and>
           (\<forall>k < length ds. given_field (junk s) as ds k (project (bytes_mem data) (ds ! k)))
     else n' = n \<and> new = recs) \<and>
    (\<forall>name k j. name \<noteq> rel \<and> stored s name k j \<longrightarrow> stored s' name k j) \<and>
    rel_open s' ATTRCATNAME fa Ua hdra xsa \<and> page_of s' fa = page_of s fa \<and> pin_of s' = pin_of s"
proof -
  obtain s1 h s2 U hdr xs where L: "InsertFileScan_new s rel = Some (OK, Some h, s1)"
    "AttrCatalog_getRelInfo s1 rel = Some (if ds = [] then RELNOTFOUND else OK, ds, s2)"
    "own s2 rel h U (pin_of s) hdr xs (last xs)" "lay_size U = n" "chain_recs (page_of s2 (filePtr h)) xs = recs"
    "rel_open s2 ATTRCATNAME fa Ua hdra xsa" "page_of s2 fa = page_of s fa" "filePtr h \<noteq> fa"
    "numBufs s2 = numBufs s" "db.more s2 = db.more s"
    "\<forall>name k j. name \<noteq> rel \<and> stored s name k j \<longrightarrow> stored s2 name k j" "card (pinned s2) \<le> card (pinned s) + 2"
    by (rule insert_lookup [OF assms(1-4,10)]) (rule that [unfolded assms(5)])
  have nr: "rel \<noteq> ATTRCATNAME" using assms(1,3) by (auto simp: rel_open_def stored_def)
  have w: "tuple_width ds = sum_list (map ad_attrLen ds)" "0 \<le> tuple_width ds"
    using assms(8) laid_out_sum [OF assms(6)] by (simp_all add: tuple_width_sum)
  have jk: "junk s2 = junk s" by (rule more_junk [OF L(10)])
  let ?err = "if ds = [] then RELNOTFOUND else if length as \<noteq> length ds then BADCATPARM
          else if \<exists>a \<in> set as. ai_attrValue a = None then ATTRNOTFOUND else OK"
  show ?thesis
  proof (cases "?err = OK")
    case False
    obtain s3 where D: "InsertFileScan_delete s2 h = Some s3" "stored s3 rel (lay_size U) (chain_recs (page_of s2 (filePtr h)) xs)"
      "pin_of s3 = pin_of s" "rel_open s3 ATTRCATNAME fa Ua hdra xsa" "page_of s3 fa = page_of s2 fa"
      "\<forall>name k j. name \<noteq> rel \<and> stored s name k j \<longrightarrow> stored s3 name k j"
      by (rule insert_close [OF L(3,6,8) nr L(11)]) (rule that)
    have "QU_Insert s rel as = Some (?err, s3)"
      using False L(1,2) D(1) w(2) by (auto simp: QU_Insert_def Let_def split: if_splits)
    then show ?thesis using False D L(4,5,7) by (intro exI [of _ ?err] exI [of _ s3] exI [of _ n] exI [of _ recs]) simp
  next
    case True
    then have e: "ds \<noteq> []" "length as = length ds" "\<forall>a \<in> set as. ai_attrValue a \<noteq> None \<and> type_of_code (ai_attrType a) \<noteq> None"
      using assms(9) by (auto split: if_splits)
    have big: "sum_list (map ad_attrLen ds) < 2 ^ 31" using assms(8) by simp
    obtain data where F: "insert_fields (junk s) as 0 ds (rd_bytes (junk s) 0 (nat (tuple_width ds))) = Some data"
      "int (length data) = tuple_width ds" "\<forall>k < length ds. given_field (junk s) as ds k (project (bytes_mem data) (ds ! k))"
      using insert_fields_layout [OF assms(6) big e(2,3), of "junk s"] unfolding given_field_def by blast
    have l: "data \<noteq> []" "length data \<le> 1000" using F(2) w assms(7,8) e(1) by auto
    have room: "card (pinned s2) < numBufs s2" "lay_size U < 2147483647" using L(4,9,12) assms(10,11) by simp_all
    obtain rid s3 h3 s4 n' new where I: "InsertFileScan_insertRecord s2 h data = Some (OK, Some rid, s3, h3)" "InsertFileScan_delete s3 h3 = Some s4"
      "stored s4 rel n' new" "mset new = add_mset (rid, data) (mset (chain_recs (page_of s2 (filePtr h)) xs))" "pin_of s4 = pin_of s"
      "rel_open s4 ATTRCATNAME fa Ua hdra xsa" "page_of s4 fa = page_of s2 fa"
      "\<forall>name k j. name \<noteq> rel \<and> stored s name k j \<longrightarrow> stored s4 name k j"
      by (rule insert_record [OF L(3,6,8) nr L(11) l room]) (rule that)
    have "QU_Insert s rel as = Some (OK, s4)"
      using e L(1,2) F(1) I(1,2) w(2) jk by (auto simp: QU_Insert_def Let_def)
    then show ?thesis using True I L(5,7) F(2,3) by (intro exI [of _ OK] exI [of _ s4] exI [of _ n'] exI [of _ new]) auto
  qed
qed

lemma QU_Insert_inserts_witness:
  "\<exists>(s :: minirel) n rid s' n' new s''. stored s ''emp'' n [(rid, [3, 0, 0, 0])] \<and>
     QU_Insert s ''emp'' [age (Some ''7'')] = Some (OK, s') \<and> stored s' ''emp'' n' new \<and>
     mset (map snd new) = {#[7, 0, 0, 0], [3, 0, 0, 0]#} \<and>
     QU_Insert s ''emp'' [age None] = Some (ATTRNOTFOUND, s'') \<and> stored s'' ''emp'' n [(rid, [3, 0, 0, 0])]"
proof -
  let ?ad = "\<lparr>ad_relName = ''emp'', ad_attrName = ''age'', ad_attrOffset = 0, ad_attrType = 1, ad_attrLen = 4\<rparr>"
  let ?rec = "[3, 0, 0, 0] :: byte list"
  obtain r where r: "AttrDesc_bytes ?ad = Some r"
    by (simp add: AttrDesc_bytes_def name_bytes_def MAXNAME_def)
  have d: "attr_desc_ok ?ad" by (simp add: attr_desc_ok_def c_name_def int_range_def)
  have rec: "?rec \<noteq> []" "length ?rec \<le> 1000" by simp_all
  obtain s :: minirel and fa U hdr xs n rid where S: "rel_open s ATTRCATNAME fa U hdr xs" "attr_recs (chain_recs (page_of s fa) xs)"
    "attr_list (chain_recs (page_of s fa) xs) = [?ad]" "stored s ''emp'' n [(rid, ?rec)]" "n \<le> 4" "card (pinned s) + 7 \<le> numBufs s"
    by (rule example_relation [OF rec r d]) (rule that)
  have ds: "[?ad] = rel_attrs (chain_recs (page_of s fa) xs) ''emp''" using S(3) by (simp add: rel_attrs_def)
  have nm: "c_name ''emp''" by (simp add: c_name_def)
  have lay: "laid_out 0 [?ad]" "[?ad] \<noteq> [] \<longrightarrow> 0 < sum_list (map ad_attrLen [?ad])" "sum_list (map ad_attrLen [?ad]) \<le> 1000" by simp_all
  have ty: "\<forall>a \<in> set [age v]. type_of_code (ai_attrType a) \<noteq> None" for v by (simp add: age_def type_of_code_def)
  have room: "card (pinned s) + 4 \<le> numBufs s" "n < 2147483647" using S(5,6) by simp_all
  note T = QU_Insert_inserts [OF S(1,2,4) nm ds lay ty room]
  obtain s'' where E: "QU_Insert s ''emp'' [age None] = Some (ATTRNOTFOUND, s'')" "stored s'' ''emp'' n [(rid, ?rec)]"
    using T [of None] by (auto simp: age_def)
  obtain s' n' new rid' data where Q: "QU_Insert s ''emp'' [age (Some ''7'')] = Some (OK, s')" "stored s' ''emp'' n' new"
    "mset new = add_mset (rid', data) (mset [(rid, ?rec)])" "int (length data) = tuple_width [?ad]"
    "given_field (junk s) [age (Some ''7'')] [?ad] 0 (project (bytes_mem data) ?ad)"
    using T [of "Some ''7''"] by (auto simp: age_def)
  have v: "atoi ''7'' = 7" by code_simp
  have "rd_bytes (int_mem (junk s) 7) 0 4 = [7, 0, 0, 0]" by (simp add: rd_bytes_def upt_rec int_mem_def wr_int_def)
  then have p: "project (bytes_mem data) ?ad = [7, 0, 0, 0]"
    using Q(5) v by (auto simp: given_field_def age_def insert_value_def type_of_code_def)
  have "length data = 4" using Q(4) by (simp add: tuple_width_def)
  then have "project (bytes_mem ([] @ data @ [])) ?ad = data" by (intro project_middle) simp_all
  then have "mset (map snd new) = {#[7, 0, 0, 0], [3, 0, 0, 0]#}" using p Q(3) by simp
  then show ?thesis using S(4) Q(1,2) E by blast
qed

section \<open>QU_Delete\<close>

text \<open>The loop deletes every record in front of the scan that its filter accepts.\<close>

lemma matchRec_flags [simp]: "HeapFileScan_matchRec (h\<lparr>curDirtyFlag := a, hdrDirtyFlag := b\<rparr>) r = HeapFileScan_matchRec h r"
  by (simp add: HeapFileScan_matchRec_def split: option.split)

lemma delete_loop_spec:
  assumes "scan_own s name h U B hdr xs rest"
  shows "\<exists>s' h' hdr'. delete_loop s h = Some (False, FILEEOF, s', h') \<and> scan_own s' name h' U B hdr' xs [] \<and> filePtr h' = filePtr h \<and>
    apart name (filePtr h) s s' \<and>
    mset (chain_recs (page_of s' (filePtr h)) xs) + mset (filter (HeapFileScan_matchRec h \<circ> snd) rest) = mset (chain_recs (page_of s (filePtr h)) xs)"
  using assms
proof (induction "length rest" arbitrary: s h hdr rest rule: less_induct)
  case less
  let ?f = "filePtr h" and ?P = "\<lambda>(rid, r). \<not> HeapFileScan_matchRec h r"
  obtain st rid2 s2 h2 where N: "HeapFileScan_scanNext s h = Some (st, rid2, s2, h2)" "same_scan h h2" "apart name ?f s s2"
    "page_of s2 = page_of s"
    "case dropWhile ?P rest of [] \<Rightarrow> st = FILEEOF \<and> scan_own s2 name h2 U B hdr xs []
     | (rid, r) # rs \<Rightarrow> st = OK \<and> rid2 = Some rid \<and> curRec h2 = rid \<and> pageNo rid = cur_pageNo h2 \<and>
         HeapFileScan_getRecord s2 h2 = Some (OK, Some r) \<and> scan_own s2 name h2 U B hdr xs rs"
    by (rule scan_own_next [OF less.prems]) (rule that)
  have f2: "filePtr h2 = ?f" and m2: "\<And>r. HeapFileScan_matchRec h2 r = HeapFileScan_matchRec h r" using same_scanD(1,2) [OF N(2)] by simp_all
  have split: "filter (HeapFileScan_matchRec h \<circ> snd) rest = filter (HeapFileScan_matchRec h \<circ> snd) (dropWhile ?P rest)"
    by (induction rest) (auto simp del: dropWhile_eq_Nil_conv dropWhile_eq_Cons_conv)
  show ?case
  proof (cases "dropWhile ?P rest")
    case Nil
    then have e: "st = FILEEOF" "scan_own s2 name h2 U B hdr xs []" using N(5) [unfolded Nil] by simp_all
    have "delete_loop s h = Some (False, FILEEOF, s2, h2)" using N(1) e(1) by (simp add: delete_loop.simps)
    then show ?thesis using e(2) f2 N(3,4) split [unfolded Nil] by (intro exI [of _ s2] exI [of _ h2] exI [of _ hdr]) simp
  next
    case (Cons z rs)
    obtain rid r where z: "z = (rid, r)" by (cases z)
    have C: "st = OK" "curRec h2 = rid" "pageNo rid = cur_pageNo h2" "scan_own s2 name h2 U B hdr xs rs" using N(5) [unfolded Cons z] by simp_all
    have mt: "HeapFileScan_matchRec h r" using hd_dropWhile [of ?P rest] unfolding Cons z by simp
    have "(rid, r) \<in> set rest" using Cons z set_dropWhileD [of "(rid, r)" ?P rest] by simp
    then have mem: "(curRec h2, r) \<in> set (chain_recs (page_of s2 (filePtr h2)) xs)"
      using scan_own_subset [OF less.prems] C(2) N(4) f2 by auto
    have pn: "pageNo (curRec h2) = cur_pageNo h2" using C(2,3) by simp
    obtain s3 hdr3 where D: "HeapFileScan_deleteRecord s2 h2 = Some (OK, s3, h2\<lparr>curDirtyFlag := True, hdrDirtyFlag := True\<rparr>)"
      "scan_own s3 name (h2\<lparr>curDirtyFlag := True, hdrDirtyFlag := True\<rparr>) U B hdr3 xs rs" "apart name (filePtr h2) s2 s3" "db_inv s3"
      "add_mset (curRec h2, r) (mset (chain_recs (page_of s3 (filePtr h2)) xs)) = mset (chain_recs (page_of s2 (filePtr h2)) xs)"
      by (rule scan_own_deleteRecord [OF C(4) mem pn]) (rule that)
    let ?h3 = "h2\<lparr>curDirtyFlag := True, hdrDirtyFlag := True\<rparr>"
    have l: "length rs < length rest" using length_dropWhile_le [of ?P rest] Cons by simp
    obtain s4 h4 hdr4 where L: "delete_loop s3 ?h3 = Some (False, FILEEOF, s4, h4)" "scan_own s4 name h4 U B hdr4 xs []"
      "filePtr h4 = ?f" "apart name ?f s3 s4"
      "mset (chain_recs (page_of s4 ?f) xs) + mset (filter (HeapFileScan_matchRec ?h3 \<circ> snd) rs) = mset (chain_recs (page_of s3 ?f) xs)"
      using less.hyps [OF l D(2)] f2 by auto
    have p: "pin_of s2 g q = pin_of s g q" "pin_of s3 g q = pin_of s2 g q" if "g \<noteq> ?f" for g q
      using that scan_own_pins(1) [OF less.prems] scan_own_pins(1) [OF C(4)] scan_own_pins(1) [OF D(2)] f2 by (simp_all add: with_obj_other)
    have a23: "apart name ?f s2 s3" using D(3) f2 by simp
    have a24: "apart name ?f s2 s4" by (rule apart_trans [OF a23 L(4)]) (rule p(2))
    have a: "apart name ?f s s4" by (rule apart_trans [OF N(3) a24]) (rule p(1))
    have "filter (HeapFileScan_matchRec h \<circ> snd) rest = (rid, r) # filter (HeapFileScan_matchRec ?h3 \<circ> snd) rs"
      using split [unfolded Cons z] mt m2 by (simp add: comp_def)
    then have "mset (chain_recs (page_of s4 ?f) xs) + mset (filter (HeapFileScan_matchRec h \<circ> snd) rest) = mset (chain_recs (page_of s ?f) xs)"
      using L(5) D(5) C(2) N(4) f2 by (simp add: comp_def)
    moreover have "delete_loop s h = Some (False, FILEEOF, s4, h4)" using N(1) C(1) D(1) L(1) by (simp add: delete_loop.simps)
    ultimately show ?thesis using L(2,3) a by blast
  qed
qed

text \<open>The scan of the relation and the lookup of the attribute.\<close>

lemma delete_lookup:
  assumes r: "rel_open s ATTRCATNAME fa Ua hdra xsa" "attr_recs (chain_recs (page_of s fa) xsa)" and st: "stored s rel n recs"
    and nm: "c_name rel" and room: "card (pinned s) + 4 \<le> numBufs s"
  obtains s1 s2 st2 d2 U hdr xs and h :: filescan where "HeapFileScan_new s rel = Some (OK, Some h, s1)"
    "AttrCatalog_getInfo s1 rel a = Some (st2, d2, s2)"
    "\<And>ad. a \<noteq> [] \<Longrightarrow> find (\<lambda>ad. ad_attrName ad = a) (rel_attrs (chain_recs (page_of s fa) xsa) rel) = Some ad \<Longrightarrow> d2 = Some ad"
    "scan_own s2 rel h U (pin_of s) hdr xs recs" "lay_size U = n" "chain_recs (page_of s2 (filePtr h)) xs = recs"
    "\<And>r. HeapFileScan_matchRec h r"
    "rel_open s2 ATTRCATNAME fa Ua hdra xsa" "page_of s2 fa = page_of s fa" "filePtr h \<noteq> fa" "db.more s2 = db.more s"
    "\<forall>name k j. name \<noteq> rel \<and> stored s name k j \<longrightarrow> stored s2 name k j"
proof -
  have inv: "db_inv s" and nr: "rel \<noteq> []" "rel \<noteq> ATTRCATNAME" using r(1) st by (auto simp: rel_open_def stored_def)
  have room2: "card (pinned s) + 2 \<le> numBufs s" using room by simp
  obtain s1 U hdr xs and h :: filescan where A: "HeapFileScan_new s rel = Some (OK, Some h, s1)"
    "scan_own s1 rel h U (pin_of s) hdr xs recs" "lay_size U = n" "apart rel (filePtr h) s s1" "files s (filePtr h) = None"
    "chain_recs (page_of s1 (filePtr h)) xs = recs" "\<And>r. HeapFileScan_matchRec h r"
    by (rule HeapFileScan_new_own [OF inv st room2]) (rule that)
  have fa: "files s fa \<noteq> None" using r(1) open_ok_map [of s ATTRCATNAME fa] by (auto simp: rel_open_def db_inv_def)
  then have ne': "filePtr h \<noteq> fa" using A(5) by auto
  note P1 = scan_own_pins [OF A(2)]
  have r1: "rel_open s1 ATTRCATNAME fa Ua hdra xsa" "page_of s1 fa = page_of s fa"
    using rel_open_apart [OF r(1) A(4) nr(2) [symmetric] ne' [symmetric] P1(4)] by simp_all
  have c1: "card (pinned s1) \<le> card (pinned s) + 2"
    using busy_with_obj(2) [where h = h, OF P1(5) P1(2)] P1(1) by simp
  have room1: "card (pinned s1) + 2 \<le> numBufs s1" using c1 room apartD(1) [OF A(4)] by simp
  obtain s2 st2 d2 where B: "AttrCatalog_getInfo s1 rel a = Some (st2, d2, s2)" "call_kept fa s1 s2" "page_of s2 = page_of s1"
    "rel_open s2 ATTRCATNAME fa Ua hdra xsa"
    "\<And>ad. a \<noteq> [] \<Longrightarrow> find (\<lambda>ad. ad_attrName ad = a) (rel_attrs (chain_recs (page_of s fa) xsa) rel) = Some ad \<Longrightarrow> d2 = Some ad"
  proof (cases "a = []")
    case True
    then show thesis using that [of BADCATPARM None s1] call_kept_refl [of fa s1] r1(1) by (simp add: AttrCatalog_getInfo_def)
  next
    case False
    have cat: "attr_recs (chain_recs (page_of s1 fa) xsa)" using r(2) r1(2) by simp
    from attrInfo_spec [OF r1(1) room1 cat nr(1) nm False] obtain s2 st2 d2 where I:
      "AttrCatalog_getInfo s1 rel a = Some (st2, d2, s2)" "call_kept fa s1 s2" "page_of s2 = page_of s1"
      "rel_open s2 ATTRCATNAME fa Ua hdra xsa"
      "case find (\<lambda>ad. ad_attrName ad = a) (rel_attrs (chain_recs (page_of s1 fa) xsa) rel) of
         None \<Rightarrow> st2 = ATTRNOTFOUND | Some ad \<Rightarrow> st2 = OK \<and> d2 = Some ad"
      by blast
    have "d2 = Some ad" if "find (\<lambda>ad. ad_attrName ad = a) (rel_attrs (chain_recs (page_of s fa) xsa) rel) = Some ad" for ad
      using I(5) that r1(2) by simp
    then show thesis by (rule that [OF I(1-4)])
  qed
  have inv2: "db_inv s2" using B(4) by (simp add: rel_open_def)
  have ap: "apart m fa s1 s2" for m by (rule call_kept_apart [OF P1(4) inv2 B(2)]) (simp add: B(3))
  have st2': "stored s2 m k j" if "stored s1 m k j" for m k j using apartD(4) [OF ap [of "CHR ''x'' # m"] _ that] by simp
  have p2: "pin_of s2 = pin_of s1" using B(2) by (simp add: call_kept_def)
  have room3: "card (pinned s) + 2 \<le> numBufs s1" using room2 apartD(1) [OF A(4)] by simp
  have own2: "scan_own s2 rel h U (pin_of s) hdr xs recs"
    by (rule scan_own_beside [OF A(2) apart_spared [OF ap ne'] inv2 _ P1(2,3,5) room3]) (simp add: p2 P1(1))
  show thesis
    by (rule that [OF A(1) B(1,5) own2 A(3) _ A(7) B(4) _ ne'])
      (use A(6) B(3) r1(2) apartD(2) [OF ap] apartD(2,4) [OF A(4)] st2' in simp_all)
qed

text \<open>The end of the deletion: what the loop has left is what the condition rejects, and the file is closed.\<close>

lemma delete_remaining:
  assumes "mset left + mset (filter (P' \<circ> snd) recs) = mset recs" "\<And>r. r \<in> snd ` set recs \<Longrightarrow> P' r = P r"
  shows "mset left = filter_mset (\<lambda>(rid, r). \<not> P r) (mset recs)"
proof -
  have "filter (P' \<circ> snd) recs = filter (\<lambda>(rid, r). P r) recs" by (rule filter_cong) (use assms(2) in force)+
  then have "mset (filter (P' \<circ> snd) recs) + filter_mset (\<lambda>(rid, r). \<not> P r) (mset recs) = mset recs"
    using multiset_partition [of "mset recs" "\<lambda>(rid, r). P r"] by (simp add: case_prod_unfold)
  then show ?thesis using assms(1) by (metis add.commute add_right_imp_eq)
qed

lemma delete_close:
  assumes o: "scan_own s3 rel h U B hdr xs []" and r: "rel_open s3 ATTRCATNAME fa Ua hdra xsa" and ne: "filePtr h \<noteq> fa" "rel \<noteq> ATTRCATNAME"
  obtains s4 h4 s5 where "HeapFileScan_endScan s3 h = Some (OK, s4, h4)" "HeapFileScan_delete s4 h4 = Some s5"
    "stored s5 rel (lay_size U) (chain_recs (page_of s3 (filePtr h)) xs)" "pin_of s5 = B"
    "rel_open s5 ATTRCATNAME fa Ua hdra xsa" "page_of s5 fa = page_of s3 fa" "apart rel (filePtr h) s3 s5"
proof -
  obtain x where o3: "own s3 rel h U B hdr xs x" using o by (auto simp: scan_own_def)
  obtain s4 h4 s5 where D: "HeapFileScan_endScan s3 h = Some (OK, s4, h4)" "HeapFileScan_delete s4 h4 = Some s5" "db_inv s5"
    "apart rel (filePtr h) s3 s5" "pin_of s5 = B" "stored s5 rel (lay_size U) (chain_recs (page_of s3 (filePtr h)) xs)"
    by (rule HeapFileScan_delete_own [OF o3]) (rule that)
  note R = rel_open_apart [OF r D(4) ne(2) [symmetric] ne(1) [symmetric] D(3)]
  show thesis by (rule that [OF D(1,2,6,5) R D(4)])
qed

text \<open>
  C5: A deletion removes exactly the records that satisfy the condition, whatever their number and
  however many of them stand next to each other: with the attribute catalog open and the attribute
  found in it with the type that is given (or the empty attribute name, which stands for all
  records), QU_Delete answers OK and the relation holds the other records, under the RIDs they had,
  in as many pages as before. The other closed relations and the catalog are unchanged, no page
  stays pinned and the file of the relation is closed.
\<close>
theorem QU_Delete_deletes:
  fixes s :: "'z minirel_scheme"
  assumes "rel_open s ATTRCATNAME fa Ua hdra xsa" "attr_recs (chain_recs (page_of s fa) xsa)" "stored s rel n recs" "c_name rel"
    and "case d of None \<Rightarrow> a = []
         | Some ad \<Rightarrow> a \<noteq> [] \<and> find (\<lambda>ad. ad_attrName ad = a) (rel_attrs (chain_recs (page_of s fa) xsa) rel) = Some ad \<and>
             type_of_code (ad_attrType ad) = Some type"
    and "cond_ok d val recs" "card (pinned s) + 4 \<le> numBufs s"
  shows "\<exists>s' new. QU_Delete s rel a op type val = Some (OK, s') \<and> stored s' rel n new \<and>
    mset new = filter_mset (\<lambda>(rid, r). \<not> cond_holds (junk s) d op val r) (mset recs) \<and>
    (\<forall>name k j. name \<noteq> rel \<and> stored s name k j \<longrightarrow> stored s' name k j) \<and>
    rel_open s' ATTRCATNAME fa Ua hdra xsa \<and> page_of s' fa = page_of s fa \<and> pin_of s' = pin_of s"
proof -
  obtain s1 s2 st2 d2 U hdr xs and h :: filescan where A: "HeapFileScan_new s rel = Some (OK, Some h, s1)"
    "AttrCatalog_getInfo s1 rel a = Some (st2, d2, s2)"
    "\<And>ad. a \<noteq> [] \<Longrightarrow> find (\<lambda>ad. ad_attrName ad = a) (rel_attrs (chain_recs (page_of s fa) xsa) rel) = Some ad \<Longrightarrow> d2 = Some ad"
    "scan_own s2 rel h U (pin_of s) hdr xs recs" "lay_size U = n" "chain_recs (page_of s2 (filePtr h)) xs = recs"
    "\<And>r. HeapFileScan_matchRec h r"
    "rel_open s2 ATTRCATNAME fa Ua hdra xsa" "page_of s2 fa = page_of s fa" "filePtr h \<noteq> fa" "db.more s2 = db.more s"
    "\<forall>name k j. name \<noteq> rel \<and> stored s name k j \<longrightarrow> stored s2 name k j"
    by (rule delete_lookup [OF assms(1-4,7), where a = a]) (rule that)
  have nr: "rel \<noteq> ATTRCATNAME" using assms(1,3) by (auto simp: rel_open_def stored_def)
  have jk: "junk s2 = junk s" by (rule more_junk [OF A(11)])
  obtain h' where S: "select_start (junk s) h d op val = Some (OK, h')" "scan_own s2 rel h' U (pin_of s) hdr xs recs" "filePtr h' = filePtr h"
    "\<And>r. r \<in> snd ` set recs \<Longrightarrow> HeapFileScan_matchRec h' r = cond_holds (junk s) d op val r"
    by (rule select_start_cond [OF A(4,7) assms(6)]) (rule that)
  obtain s3 h3 hdr3 where L: "delete_loop s2 h' = Some (False, FILEEOF, s3, h3)" "scan_own s3 rel h3 U (pin_of s) hdr3 xs []"
    "filePtr h3 = filePtr h" "apart rel (filePtr h) s2 s3"
    "mset (chain_recs (page_of s3 (filePtr h)) xs) + mset (filter (HeapFileScan_matchRec h' \<circ> snd) recs) = mset recs"
    using delete_loop_spec [OF S(2)] S(3) A(6) by auto
  have inv3: "db_inv s3" by (rule scan_own_pins(4) [OF L(2)])
  note R3 = rel_open_apart [OF A(8) L(4) nr [symmetric] A(10) [symmetric] inv3]
  have ne3: "filePtr h3 \<noteq> fa" using A(10) L(3) by simp
  obtain s4 h4 s5 where D: "HeapFileScan_endScan s3 h3 = Some (OK, s4, h4)" "HeapFileScan_delete s4 h4 = Some s5"
    "stored s5 rel (lay_size U) (chain_recs (page_of s3 (filePtr h3)) xs)" "pin_of s5 = pin_of s"
    "rel_open s5 ATTRCATNAME fa Ua hdra xsa" "page_of s5 fa = page_of s3 fa" "apart rel (filePtr h3) s3 s5"
    by (rule delete_close [OF L(2) R3(1) ne3 nr]) (rule that)
  note new = delete_remaining [OF L(5) S(4)]
  have run: "QU_Delete s rel a op type val = Some (OK, s5)"
  proof (cases d)
    case None
    then show ?thesis using assms(5) A(1,2) S(1) L(1) D(1,2) by (simp add: QU_Delete_def select_start_def)
  next
    case (Some ad)
    then show ?thesis using assms(5) A(1,2) A(3) [of ad] S(1) L(1) D(1,2) jk
      by (auto simp: QU_Delete_def select_start_def split: option.splits if_splits)
  qed
  have "\<forall>name k j. name \<noteq> rel \<and> stored s name k j \<longrightarrow> stored s5 name k j"
    using A(12) apartD(4) [OF L(4)] apartD(4) [OF D(7)] by blast
  then show ?thesis using run D(3-6) L(3) A(5,9) R3(2) new by (intro exI [of _ s5] exI) auto
qed

lemma QU_Delete_deletes_witness:
  "\<exists>(s :: minirel) n recs s' new s''. stored s ''emp'' n recs \<and> mset (map snd recs) = {#[7, 0, 0, 0], [3, 0, 0, 0]#} \<and>
     QU_Delete s ''emp'' ''age'' EQ INTEGER (Some ''7'') = Some (OK, s') \<and> stored s' ''emp'' n new \<and> mset (map snd new) = {#[3, 0, 0, 0]#} \<and>
     QU_Delete s ''emp'' [] EQ STRING None = Some (OK, s'') \<and> stored s'' ''emp'' n []"
proof -
  let ?ad = "\<lparr>ad_relName = ''emp'', ad_attrName = ''age'', ad_attrOffset = 0, ad_attrType = 1, ad_attrLen = 4\<rparr>"
  let ?rec = "[3, 0, 0, 0] :: byte list" and ?rec2 = "[7, 0, 0, 0] :: byte list"
  obtain r where r: "AttrDesc_bytes ?ad = Some r"
    by (simp add: AttrDesc_bytes_def name_bytes_def MAXNAME_def)
  have d: "attr_desc_ok ?ad" by (simp add: attr_desc_ok_def c_name_def int_range_def)
  have rec: "?rec \<noteq> []" "length ?rec \<le> 1000" by simp_all
  obtain s0 :: minirel and fa U hdr xs n rid where S: "rel_open s0 ATTRCATNAME fa U hdr xs" "attr_recs (chain_recs (page_of s0 fa) xs)"
    "attr_list (chain_recs (page_of s0 fa) xs) = [?ad]" "stored s0 ''emp'' n [(rid, ?rec)]" "n \<le> 4" "card (pinned s0) + 7 \<le> numBufs s0"
    by (rule example_relation [OF rec r d]) (rule that)
  have inv: "db_inv s0" using S(1) by (simp add: rel_open_def)
  have rec2: "?rec2 \<noteq> []" "length ?rec2 \<le> 1000" by simp_all
  have room0: "card (pinned s0) + 3 \<le> numBufs s0" "n < 2147483647" using S(5,6) by simp_all
  obtain s rid2 n' recs f where I: "db_inv s" "stored s ''emp'' n' recs" "mset recs = add_mset (rid2, ?rec2) (mset [(rid, ?rec)])"
    "apart ''emp'' f s0 s" "pin_of s = pin_of s0" "files s0 f = None"
    by (rule insert_stored [OF inv S(4) rec2 room0]) (rule that)
  have "files s0 fa \<noteq> None" using S(1) open_ok_map [of s0 ATTRCATNAME fa] by (auto simp: rel_open_def db_inv_def)
  then have ne: "fa \<noteq> f" "ATTRCATNAME \<noteq> ''emp''" using I(6) by (auto simp: ATTRCATNAME_def)
  note R = rel_open_apart [OF S(1) I(4) ne(2,1) I(1)]
  have cat: "attr_recs (chain_recs (page_of s fa) xs)" "rel_attrs (chain_recs (page_of s fa) xs) ''emp'' = [?ad]"
    using R(2) S(2,3) by (simp_all add: rel_attrs_def)
  have room: "card (pinned s) + 4 \<le> numBufs s" using apartD(1) [OF I(4)] I(5) S(6) by simp
  have nm: "c_name ''emp''" by (simp add: c_name_def)
  have recs: "set recs = {(rid2, ?rec2), (rid, ?rec)}" using I(3) by (metis set_mset_mset set_mset_add_mset_insert list.set)
  have ok: "cond_ok (Some ?ad) (Some ''7'') recs" "cond_ok None None recs"
    using recs by (simp_all add: cond_ok_def type_of_code_def all_in_rec_def in_rec_def)
  have v: "atoi ''7'' = 7" "rd_int (bytes_mem ?rec) 0 = 3" "rd_int (bytes_mem ?rec2) 0 = 7"
    by code_simp (simp_all add: rd_int_def bytes_mem_def)
  have c: "cond_holds (junk s) (Some ?ad) EQ (Some ''7'') ?rec2" "\<not> cond_holds (junk s) (Some ?ad) EQ (Some ''7'') ?rec"
    using v by (simp_all add: cond_holds_def type_of_code_def filter_diff_def filter_mem_def op_holds_def int_mem_def mem_simps wrap32_def)
  obtain s' new where D: "QU_Delete s ''emp'' ''age'' EQ INTEGER (Some ''7'') = Some (OK, s')" "stored s' ''emp'' n' new"
    "mset new = filter_mset (\<lambda>(rid, r). \<not> cond_holds (junk s) (Some ?ad) EQ (Some ''7'') r) (mset recs)"
    using QU_Delete_deletes [where d = "Some ?ad" and a = "''age''" and val = "Some ''7''" and type = INTEGER and op = EQ,
        OF R(1) cat(1) I(2) nm _ ok(1) room] cat(2) by (auto simp: type_of_code_def)
  have D2: "mset (map snd new) = {#?rec#}" using D(3) c unfolding I(3) by simp
  obtain s'' new' where E: "QU_Delete s ''emp'' [] EQ STRING None = Some (OK, s'')" "stored s'' ''emp'' n' new'"
    "mset new' = filter_mset (\<lambda>(rid, r). \<not> cond_holds (junk s) None EQ None r) (mset recs)"
    using QU_Delete_deletes [where d = None and a = "[]" and val = None and type = STRING and op = EQ,
        OF R(1) cat(1) I(2) nm _ ok(2) room] by auto
  have "mset new' = {#}" using E(3) unfolding I(3) by (simp add: cond_holds_def)
  then have "stored s'' ''emp'' n' []" using E(2) by simp
  moreover have "mset (map snd recs) = {#[7, 0, 0, 0], [3, 0, 0, 0]#}" using I(3) by simp
  ultimately show ?thesis using I(2) D(1,2) D2 E(1)
    by - (rule exI [of _ s], rule exI [of _ n'], rule exI [of _ recs], rule exI [of _ s'], rule exI [of _ new], rule exI [of _ s''], simp)
qed

end
