(* ===== verification/HeapCreate.thy ===== *)
theory HeapCreate
  imports RelFile
begin

text \<open>
  Creating a heap file: createHeapFile makes a file with a header page and one empty data page,
  writes it to disk and closes it. Everything else, on disk and in the pool, stays as it was.
\<close>

section \<open>The file on disk\<close>

text \<open>The open that finds no file uses up the address of a File object and leaves nothing else.\<close>

definition missed :: "'z db_scheme \<Rightarrow> 'z db_scheme" where
  "missed s = s\<lparr>next_ptr := next_ptr s + 1\<rparr>"

definition new_header :: page where
  "new_header = set_db_numPages (set_db_firstPage (set_db_nextFree zero_mem (-1)) (-1)) 1"

lemma openFile_missing:
  assumes "db_inv s" "name \<noteq> []" "of_map (openFiles s) name = None" "disk s (c_str name) = None"
  shows "DB_openFile s name = Some (UNIXERR, Some (next_ptr s), missed s)"
proof -
  have "io_inv s" using assms(1) pool_okD [of "{}" s] by (simp add: db_inv_def)
  then have "files s (next_ptr s) = None" by (rule io_invD)
  then have "(files s)(next_ptr s := None) = files s" by (simp add: fun_upd_idem)
  then show ?thesis using assms(2-4)
    by (cases s) (simp add: DB_openFile_def find_of_map File_new_def File_open_def File_delete_def missed_def)
qed

lemma createFile_new:
  assumes inv: "db_inv s" and name: "name \<noteq> []" "of_map (openFiles s) name = None" "disk s name = None" "c_str name = name"
  obtains b where "DB_createFile (missed s) name = (OK, b)" "db_inv b" "\<And>f. apart name f s b" "pin_of b = pin_of s" "page_of b = page_of s"
    "files b = files s" "openFiles b = openFiles s" "disk b name = Some [new_header]" "next_ptr b = next_ptr s + 1"
    "db.more b = db.more s"
proof -
  have op: "open_ok s" and po: "pool_ok {} s" and co: "coherent {} s" using inv by (simp_all add: db_inv_def)
  have io: "io_inv s" using pool_okD [OF po] by simp
  define b where "b = (missed s)\<lparr>disk := (disk s)(name \<mapsto> [new_header])\<rparr>"
  have f: "files b = files s" "fds b = fds s" "next_fd b = next_fd s" "next_ptr b = next_ptr s + 1" "openFiles b = openFiles s"
    "disk b = (disk s)(name \<mapsto> [new_header])" "db.more b = db.more s"
    by (simp_all add: b_def missed_def)
  have run: "DB_createFile (missed s) name = (OK, b)"
    using name by (simp add: DB_createFile_def find_of_map File_create_def b_def missed_def new_header_def Let_def)
  have fn: "file_name b = file_name s" using f by (simp add: file_name_def fun_eq_iff)
  have ne: "file_name s g \<noteq> Some name" for g
  proof
    assume a: "file_name s g = Some name"
    then obtain fo where fo: "files s g = Some fo" by (auto simp: file_name_def bind_eq_Some_conv)
    then show False using open_okD(4,6) [OF op fo] a name(3) by simp
  qed
  have fp: "file_pages b = file_pages s" unfolding file_pages_def fn f(6) using ne by (auto simp: fun_eq_iff split: bind_split)
  then have dp: "disk_page b = disk_page s" by (simp add: disk_page_def fun_eq_iff)
  have sp: "same_pool s b" by (simp add: same_pool_def b_def missed_def)
  have op': "open_ok b" using op name(3,4) unfolding open_ok_def f by auto
  have io': "io_inv b" by (rule io_invI [OF _ _ _ _ op']) (use io_invD [OF io] f in \<open>force+\<close>)
  note S = same_pool_ok [OF po sp io']
  have "db_inv b" using S(1,2) dp co op' by (simp add: db_inv_def)
  moreover have pg: "page_of b = page_of s" using sp dp by (simp add: page_of_def same_pool_def fun_eq_iff split: option.split)
  moreover have "apart name f s b" for f by (rule same_pool_apart [OF sp f(7)]) (use f(1,5,6) fp pg in simp_all)
  moreover have "pin_of b = pin_of s" using S(3) dp by simp
  ultimately show thesis using that [OF run] f by simp
qed

section \<open>Flushing\<close>

lemma flushFile_apart:
  assumes inv: "db_inv s" and u: "sole_user s name f" "\<And>q. pin_of s f q = 0"
  obtains s' where "flushFile s f = Some (OK, s')" "db_inv s'" "page_of s' = page_of s" "pin_of s' = pin_of s"
    "\<And>g V. pool_used s g V \<Longrightarrow> pool_used s' g V" "apart name f s s'" "sole_user s' name f"
proof -
  have po: "pool_ok {} s" and co: "coherent {} s" using inv by (simp_all add: db_inv_def)
  obtain fo where fo: "files s f = Some fo" using u(1) by (auto simp: sole_user_def)
  have f0: "f \<noteq> 0" using io_invD(1) [of s f fo] pool_okD [OF po] fo by simp
  obtain st s' where F: "flushFile s f = Some (st, s')" "pool_ok {} s'" "coherent {} s'" "page_of s' = page_of s" "pin_of s' = pin_of s"
    "disk_changes (cached s) s s'" "numBufs s' = numBufs s" "cached s' \<subseteq> cached s"
    "st = (if \<forall>no. pin_of s f no = 0 then OK else PAGEPINNED)"
    by (rule flushFile_spec [OF po co f0]) (rule that)
  have st: "st = OK" using F(9) u(2) by simp
  note step = flushFile_step [OF F(1)]
  have inv': "db_inv s'" by (rule db_inv_step [OF inv step F(2,3,6)])
  have pu: "pool_used s' g V" if "pool_used s g V" for g V
    by (rule pool_used_step [OF that F(6,8)]) (rule pool_used_cached [OF that])
  have rest: "pool_rest s' = pool_rest s" using step by (simp add: pool_rest_step)
  note others = flushFile_others [OF F(1) po F(2,7)]
  have fr: "pool_frame s' g q = pool_frame s g q" if "g \<noteq> f" for g q using others(1) [OF that] by (simp add: pool_frame_def)
  have set: "settled s' g q" if g: "g \<noteq> f" and p: "0 < pin_of s g q" and s: "settled s g q" for g q
  proof -
    obtain i where i: "bht_map (hashTable s) (g, q) = Some i" using pinned_cached [OF p] by blast
    obtain n m where n: "file_name s f = Some n" "file_name s g = Some m"
      using open_okD(6) inv fo cached_disk [OF po, of g q] i
      by (fastforce simp: db_inv_def cached_def disk_page_def file_pages_def bind_eq_Some_conv split: bind_split_asm)
    then have "m \<noteq> n" using open_ok_name_inj inv g by (auto simp: db_inv_def)
    then have "disk s' m = disk s m" using flushFile_loop_other F(1) n(1) by (auto simp: flushFile_def)
    moreover have "file_name s' g = file_name s g" using step by (simp add: pool_step_def file_name_def)
    ultimately have "disk_page s' g q = disk_page s g q" using n(2) by (simp add: disk_page_def file_pages_def)
    then show ?thesis using s F(4) others [OF g] i by (auto simp: settled_def)
  qed
  have "apart name f s s'" by (rule rest_apart [OF inv inv' rest]) (use F(4) pu fr set in simp_all)
  moreover have "sole_user s' name f" using u(1) rest by (simp add: sole_user_def pool_rest_def)
  ultimately show thesis using that F(1) st inv' F(4,5) pu by blast
qed

section \<open>The two pages\<close>

lemma new_file_used:
  assumes "file_pages s f = Some [new_header]" "\<And>q. (f, q) \<notin> cached s"
  shows "pool_used s f (layout_of [new_header] [])" "lay_used (layout_of [new_header] []) = {}" "lay_size (layout_of [new_header] []) = 1"
    "file_room s f"
  using assms db_file_create by (auto simp: pool_used_def file_ok_def new_header_def used_pages_def file_room_def)

lemma create_pages:
  assumes inv: "db_inv s" and new: "file_pages s f = Some [new_header]" "\<And>q. (f, q) \<notin> cached s" and room: "card (pinned s) + 2 \<le> numBufs s"
  obtains hno i s1 no j s2 s3 s4 U hdr where
    "allocPage s f = Some (OK, Some hno, Some i, s1)"
    "allocPage (bufUpdate s1 i (\<lambda>p. set_hdr_fileName p name)) f = Some (OK, Some no, Some j, s2)"
    "unPinPage (bufUpdate (bufUpdate (bufUpdate (bufUpdate (bufUpdate s2 j (\<lambda>p. Page_init p no)) j (\<lambda>p. snd (Page_setNextPage p (-1))))
       i (\<lambda>p. set_hdr_recCnt p 0)) i (\<lambda>p. set_hdr_pageCnt p 1)) i (\<lambda>p. set_hdr_firstPage (set_hdr_lastPage p no) no)) f no True = (OK, s3)"
    "unPinPage s3 f hno True = (OK, s4)" "db_inv s4" "apart n f s s4" "pin_of s4 = pin_of s" "pool_rest s4 = pool_rest s"
    "pool_used s4 f U" "lay_first U = hno" "hno \<in> lay_used U" "set [no] \<subseteq> lay_used U" "lay_size U \<le> 3"
    "heap_file (page_of s4 f) hno hdr [no]" "chain_recs (page_of s4 f) [no] = []"
proof -
  note N = new_file_used [OF new]
  have fin: "finite (pinned s)" and nn: "\<And>g q. 0 \<le> pin_of s g q" by (rule pool.busy_finite [OF inv], rule pool.pins_nonneg [OF inv])
  have r0: "pool_room s" by (rule pool_room_count) (use inv room in \<open>simp_all add: db_inv_def\<close>)
  let ?U0 = "layout_of [new_header] []"
  obtain hno k i s1 where A: "allocPage s f = Some (OK, Some hno, Some i, s1)" "db_inv s1"
    "pool_used s1 f (grown hno k (if lay_used ?U0 = {} then ?U0\<lparr>lay_first := hno\<rparr> else ?U0))" "1 \<le> hno"
    "pool_frame s1 f hno = Some i" "\<And>g q. (g, q) \<noteq> (f, hno) \<Longrightarrow> page_of s1 g q = page_of s g q" "pin_of s1 = hold f hno (pin_of s)"
    "pinned_kept pin_of pool_frame settled s s1" "pool_rest s1 = pool_rest s" "\<And>g V. g \<noteq> f \<Longrightarrow> pool_used s g V \<Longrightarrow> pool_used s1 g V"
    "k \<le> Suc (lay_size ?U0)"
    by (rule allocPage_any [OF inv N(1,4) r0]) (rule that)
  let ?U1 = "grown hno k (?U0\<lparr>lay_first := hno\<rparr>)"
  have u1: "pool_used s1 f ?U1" using A(3) N(2) by simp
  have ph: "0 < pin_of s1 f hno" using nn [of f hno] by (simp add: A(7))
  obtain p1 where p1: "page_of s1 f hno = Some p1" using pool.view_frame [OF A(2,5)] by blast
  note B = bufUpdate_spec [where g = "\<lambda>p. set_hdr_fileName p name", OF A(2,5) ph p1]
  let ?t = "bufUpdate s1 i (\<lambda>p. set_hdr_fileName p name)"
  have u2: "pool_used ?t f ?U1" "lay_used ?U1 \<noteq> {}" using B(6) [OF u1] by simp_all
  have fr2: "file_room ?t f" by (rule size_room [OF u2(1)]) (use A(11) N(3) in simp)
  have r2: "pool_room ?t"
  proof (rule pool_room_count)
    have "pinned ?t = insert (f, hno) (pinned s)" unfolding B(3) A(7) by (rule busy_hold [OF nn])
    then show "card (pinned ?t) < numBufs ?t" using fin room B(9) A(9) by (simp add: card_insert_if pool_rest_def)
  qed (use B(1) in \<open>simp add: db_inv_def\<close>)
  obtain no m j s2 where C: "allocPage ?t f = Some (OK, Some no, Some j, s2)" "db_inv s2" "pool_used s2 f (grown no m ?U1)"
    "no \<notin> lay_used ?U1" "1 \<le> no" "wrap32 no = no" "pool_frame s2 f no = Some j"
    "\<And>g q. (g, q) \<noteq> (f, no) \<Longrightarrow> page_of s2 g q = page_of ?t g q" "pin_of s2 = hold f no (pin_of ?t)"
    "pinned_kept pin_of pool_frame settled ?t s2" "pool_rest s2 = pool_rest ?t" "\<And>g V. g \<noteq> f \<Longrightarrow> pool_used ?t g V \<Longrightarrow> pool_used s2 g V"
    "m \<le> Suc (lay_size ?U1)"
    by (rule allocPage_db [OF B(1) u2 fr2 r2]) (rule that)
  have ne: "no \<noteq> hno" using C(4) by simp
  have pins2: "pin_of s2 = hold f no (hold f hno (pin_of s))" unfolding C(9) B(3) A(7) ..
  have pn: "0 < pin_of s2 f no" "0 < pin_of s2 f hno" using nn [of f no] nn [of f hno] ne by (simp_all add: pins2 hold_def)
  have fh: "pool_frame s2 f hno = Some i" using C(10) B(2,3) A(5) ph by (simp add: pinned_kept_def)
  have po2: "pool_ok {} s2" using C(2) by (simp add: db_inv_def)
  have bound: "a < length (bufPool s2)" if "pool_frame s2 f q = Some a" for a q
    using pool_ok_map [OF po2, of f q "int a"] pool_frame_Some [OF po2, of f q a] pool_okD [OF po2] that by simp
  let ?new = "\<lambda>p. snd (Page_setNextPage (Page_init p no) (-1))"
  let ?hdr = "\<lambda>p. set_hdr_firstPage (set_hdr_lastPage (set_hdr_pageCnt (set_hdr_recCnt p 0) 1) no) no"
  let ?s3 = "bufUpdate s2 j ?new" let ?s4 = "bufUpdate ?s3 i ?hdr"
  have len: "length (bufPool (bufUpdate t a g)) = length (bufPool t)" for t :: "'a db_scheme" and a g
    by (simp add: bufUpdate_def pool_write_def)
  have eq: "bufUpdate (bufUpdate (bufUpdate (bufUpdate (bufUpdate s2 j (\<lambda>p. Page_init p no)) j (\<lambda>p. snd (Page_setNextPage p (-1))))
       i (\<lambda>p. set_hdr_recCnt p 0)) i (\<lambda>p. set_hdr_pageCnt p 1)) i (\<lambda>p. set_hdr_firstPage (set_hdr_lastPage p no) no) = ?s4"
    using bound [OF C(7)] bound [OF fh] by (simp add: bufUpdate_twice len)
  obtain p2 where p2: "page_of s2 f no = Some p2" using pool.view_frame [OF C(2,7)] by blast
  note D = bufUpdate_spec [where g = ?new, OF C(2,7) pn(1) p2]
  obtain p3 where p3: "page_of s2 f hno = Some p3" using pool.view_frame [OF C(2) fh] by blast
  have q3: "pool_frame ?s3 f hno = Some i" "0 < pin_of ?s3 f hno" "page_of ?s3 f hno = Some p3" using D(2-4) fh pn(2) p3 ne by simp_all
  note E = bufUpdate_spec [where g = ?hdr, OF D(1) q3]
  have pins4: "pin_of ?s4 = hold f no (hold f hno (pin_of s))" using E(3) D(3) pins2 by simp
  obtain s3 where F: "unPinPage ?s4 f no True = (OK, s3)" "db_inv s3" "page_of s3 = page_of ?s4" "pool_frame s3 = pool_frame ?s4"
    "pool_rest s3 = pool_rest ?s4" "pin_of s3 = hold f hno (pin_of s)"
    "\<And>g q. settled ?s4 g q \<or> True \<and> g = f \<and> q = no \<Longrightarrow> settled s3 g q" "\<And>g U. pool_used ?s4 g U \<Longrightarrow> pool_used s3 g U"
    by (rule pool.release_page [OF E(1) pins4 hold_nonneg [OF nn], of True]) (simp, rule that)
  obtain s4 where G: "unPinPage s3 f hno True = (OK, s4)" "db_inv s4" "page_of s4 = page_of s3" "pool_frame s4 = pool_frame s3"
    "pool_rest s4 = pool_rest s3" "pin_of s4 = pin_of s"
    "\<And>g q. settled s3 g q \<or> True \<and> g = f \<and> q = hno \<Longrightarrow> settled s4 g q" "\<And>g U. pool_used s3 g U \<Longrightarrow> pool_used s4 g U"
    by (rule pool.release_page [OF F(2,6) nn, of True]) (simp, rule that)
  have P: "page_of s4 g q = (if g = f \<and> q = hno then Some (?hdr p3) else if g = f \<and> q = no then Some (?new p2) else page_of s g q)" for g q
    unfolding G(3) F(3) E(4) D(4) using C(8) B(4) A(6) by auto
  have np: "data_page no (?new p2)" "nextPage (?new p2) = -1" "page_recs no (?new p2) = []"
    using page_init_inv [of p2 no] C(5,6)
    by (simp_all add: setNextPage_data page_init_fields data_page_def page_recs_from_def used_from_def)
  have Ph: "page_of s4 f hno = Some (?hdr p3)" and Pn: "page_of s4 f no = Some (?new p2)" using P ne by auto
  have recs: "chain_recs (page_of s4 f) [no] = []" using Pn np(3) by simp
  have heap: "heap_file (page_of s4 f) hno (?hdr p3) [no]"
    unfolding heap_file_def recs using Ph Pn np(1,2) ne C(6) by (simp add: hdr_fields)
  have rest: "pool_rest s4 = pool_rest s" using G(5) F(5) E(10) D(10) C(11) B(10) A(9) by simp
  have used: "pool_used s4 f (grown no m ?U1)" using G(8) F(8) E(6) D(6) C(3) by blast
  have usedo: "pool_used s4 g V" if "g \<noteq> f" "pool_used s g V" for g V
    using that A(10) B(6) C(12) D(6) E(6) F(8) G(8) by blast
  have keep: "pool_frame s4 g q = pool_frame s g q \<and> (settled s g q \<longrightarrow> settled s4 g q)" if g: "g \<noteq> f" and p: "0 < pin_of s g q" for g q
  proof -
    have 1: "pool_frame ?t g q = pool_frame s g q" "settled s g q \<longrightarrow> settled ?t g q" "0 < pin_of ?t g q"
      using A(8) p g B(2,3,5) by (auto simp: pinned_kept_def A(7) hold_def)
    then have 2: "pool_frame s2 g q = pool_frame s g q" "settled s g q \<longrightarrow> settled s2 g q" using C(10) by (auto simp: pinned_kept_def)
    then have "settled s g q \<longrightarrow> settled ?s4 g q" using D(5) E(5) g by auto
    then show ?thesis using 2 D(2) E(2) F(4,7) G(4,7) by simp
  qed
  have "apart n f s s4" by (rule rest_apart [OF inv G(2) rest _ usedo keep]) (use P in \<open>auto simp: fun_eq_iff\<close>)
  moreover have "m \<le> 3" using C(13) A(11) N(3) by simp
  ultimately show thesis
    using that [OF A(1) C(1) _ G(1,2) _ G(6) rest used _ _ _ _ heap recs] F(1) unfolding eq by simp
qed

section \<open>createHeapFile\<close>

lemma createHeapFile_stored:
  assumes inv: "db_inv s" and name: "name \<noteq> []" "of_map (openFiles s) name = None" "disk s name = None" "c_str name = name"
    and room: "card (pinned s) + 2 \<le> numBufs s"
  obtains s' f k where "createHeapFile s name = Some (OK, s')" "db_inv s'" "apart name f s s'" "pin_of s' = pin_of s"
    "stored s' name k []" "k \<le> 3" "files s f = None"
proof -
  obtain b where C: "DB_createFile (missed s) name = (OK, b)" "db_inv b" "\<And>f. apart name f s b" "pin_of b = pin_of s"
    "files b = files s" "openFiles b = openFiles s" "disk b name = Some [new_header]"
    by (rule createFile_new [OF inv name]) (rule that)
  let ?f = "next_ptr b"
  have cl: "of_map (openFiles b) name = None" using C(6) name(2) by simp
  obtain s1 where O: "DB_openFile b name = Some (OK, Some ?f, s1)" "db_inv s1" "apart name ?f b s1" "pin_of s1 = pin_of b"
    "\<And>q. pin_of b ?f q = 0" "files b ?f = None" "sole_user s1 name ?f" "file_pages s1 ?f = Some [new_header]" "\<And>q. (?f, q) \<notin> cached s1"
    by (rule openFile_fresh [OF C(2) name(1) cl C(7)]) (rule that)
  have r1: "card (pinned s1) + 2 \<le> numBufs s1" using room O(4) C(4) apartD(1) [OF O(3)] apartD(1) [OF C(3)] by simp
  obtain hno i s2 no j s3 s4 s5 U hdr where A: "allocPage s1 ?f = Some (OK, Some hno, Some i, s2)"
    "allocPage (bufUpdate s2 i (\<lambda>p. set_hdr_fileName p name)) ?f = Some (OK, Some no, Some j, s3)"
    "unPinPage (bufUpdate (bufUpdate (bufUpdate (bufUpdate (bufUpdate s3 j (\<lambda>p. Page_init p no)) j (\<lambda>p. snd (Page_setNextPage p (-1))))
       i (\<lambda>p. set_hdr_recCnt p 0)) i (\<lambda>p. set_hdr_pageCnt p 1)) i (\<lambda>p. set_hdr_firstPage (set_hdr_lastPage p no) no)) ?f no True = (OK, s4)"
    "unPinPage s4 ?f hno True = (OK, s5)" "db_inv s5" "apart name ?f s1 s5" "pin_of s5 = pin_of s1" "pool_rest s5 = pool_rest s1"
    "pool_used s5 ?f U" "lay_first U = hno" "hno \<in> lay_used U" "set [no] \<subseteq> lay_used U" "lay_size U \<le> 3"
    "heap_file (page_of s5 ?f) hno hdr [no]" "chain_recs (page_of s5 ?f) [no] = []"
    by (rule create_pages [OF O(2,8,9) r1]) (rule that)
  have u5: "sole_user s5 name ?f" using O(7) A(8) by (simp add: sole_user_def pool_rest_def)
  have p5: "pin_of s5 ?f q = 0" for q using A(7) O(4,5) by simp
  obtain s6 where F: "flushFile s5 ?f = Some (OK, s6)" "db_inv s6" "page_of s6 = page_of s5" "pin_of s6 = pin_of s5"
    "\<And>g V. pool_used s5 g V \<Longrightarrow> pool_used s6 g V" "apart name ?f s5 s6" "sole_user s6 name ?f"
    by (rule flushFile_apart [OF A(5) u5 p5]) (rule that)
  have p6: "pin_of s6 ?f q = 0" for q using F(4) p5 by simp
  have h6: "lay_first U \<in> lay_used U" "heap_file (page_of s6 ?f) (lay_first U) hdr [no]" using A(10,11,14) F(3) by simp_all
  obtain s7 where G: "DB_closeFile s6 ?f = Some (OK, s7)" "db_inv s7" "apart name ?f s6 s7" "pin_of s7 = pin_of s6"
    "stored s7 name (lay_size U) (chain_recs (page_of s6 ?f) [no])"
    by (rule closeFile_stored [OF F(2,7) p6 F(5) [OF A(9)] h6(1) A(12) h6(2)]) (rule that)
  have run: "createHeapFile s name = Some (OK, s7)"
    by (simp add: createHeapFile_def openFile_missing [OF inv name(1,2)] name(3,4) C(1) O(1) A(1-4) F(1) G(1) Let_def)
  have "apart name ?f s s7"
    by (rule apart_trans [OF apart_trans [OF apart_trans [OF apart_trans [OF C(3) O(3)] A(6)] F(6)] G(3)])
      (simp_all add: F(4) A(7) O(4) C(4))
  then show thesis using that [OF run G(2)] G(4,5) F(3,4) A(7,13,15) O(4,6) C(4,5) by simp
qed

end
