(* ===== verification/DDL.thy ===== *)
theory DDL
  imports Select HeapCreate
begin

text \<open>
  Creating and destroying relations (create.C, destroy.C), from the catalogs down to the disk. The
  state that matters is the map of relcat, the multiset of the descriptors in attrcat, and the
  closed files; createRel and destroyRel change all three together. The theorems say what they
  answer and leave on every path, and that destroyRel undoes createRel.
\<close>

section \<open>Destroying a file\<close>

lemma destroyFile_closed:
  assumes inv: "db_inv s" and st: "stored s name k recs"
  obtains b where "destroyHeapFile s name = (OK, b)" "db_inv b" "\<And>f. apart name f s b" "pin_of b = pin_of s" "page_of b = page_of s"
    "files b = files s" "openFiles b = openFiles s" "disk b name = None" "db.more b = db.more s"
proof -
  have op: "open_ok s" and po: "pool_ok {} s" and co: "coherent {} s" using inv by (simp_all add: db_inv_def)
  have io: "io_inv s" using pool_okD [OF po] by simp
  have name: "name \<noteq> []" "of_map (openFiles s) name = None" "disk s name \<noteq> None" using st by (auto simp: stored_def)
  define b where "b = s\<lparr>disk := (disk s)(name := None)\<rparr>"
  have f: "files b = files s" "fds b = fds s" "next_fd b = next_fd s" "next_ptr b = next_ptr s" "openFiles b = openFiles s"
    "disk b = (disk s)(name := None)" "db.more b = db.more s"
    by (simp_all add: b_def)
  have run: "destroyHeapFile s name = (OK, b)"
    using name open_ok_c_str [OF op name(3)] by (simp add: destroyHeapFile_def DB_destroyFile_def find_of_map File_destroy_def b_def)
  have fn: "file_name b = file_name s" using f by (simp add: file_name_def fun_eq_iff)
  have fne: "fileName fo \<noteq> name" if "files s g = Some fo" for g fo using open_okD(5) [OF op that] name(2) by auto
  have ne: "file_name s g \<noteq> Some name" for g
  proof
    assume a: "file_name s g = Some name"
    then obtain fo where fo: "files s g = Some fo" by (auto simp: file_name_def bind_eq_Some_conv)
    then show False using open_okD(6) [OF op fo] fne [OF fo] a by simp
  qed
  have fp: "file_pages b = file_pages s" unfolding file_pages_def fn f(6) using ne by (auto simp: fun_eq_iff split: bind_split)
  then have dp: "disk_page b = disk_page s" by (simp add: disk_page_def fun_eq_iff)
  have sp: "same_pool s b" by (simp add: same_pool_def b_def)
  have op': "open_ok b" using op fne unfolding open_ok_def f by auto
  have io': "io_inv b" by (rule io_invI [OF _ _ _ _ op']) (use io_invD [OF io] f in \<open>force+\<close>)
  note S = same_pool_ok [OF po sp io']
  have "db_inv b" using S(1,2) dp co op' by (simp add: db_inv_def)
  moreover have pg: "page_of b = page_of s" using sp dp by (simp add: page_of_def same_pool_def fun_eq_iff split: option.split)
  moreover have "apart name f s b" for f by (rule same_pool_apart [OF sp f(7)]) (use f(1,5,6) fp pg in simp_all)
  moreover have "pin_of b = pin_of s" using S(3) dp by simp
  ultimately show thesis using that [OF run] f by simp
qed

section \<open>The catalogs\<close>

definition attr_cat :: "'z db_scheme \<Rightarrow> fptr \<Rightarrow> layout \<Rightarrow> AttrDesc multiset \<Rightarrow> bool" where
  "attr_cat s f U A \<longleftrightarrow> (\<exists>hdr xs. rel_open s ATTRCATNAME f U hdr xs \<and> attr_recs (chain_recs (page_of s f) xs) \<and>
     mset (attr_list (chain_recs (page_of s f) xs)) = A)"

definition catalogs ::
  "'z db_scheme \<Rightarrow> fptr \<Rightarrow> fptr \<Rightarrow> layout \<Rightarrow> layout \<Rightarrow> (string \<Rightarrow> RelDesc option) \<Rightarrow> AttrDesc multiset \<Rightarrow> bool" where
  "catalogs s r a Ur Ua m A \<longleftrightarrow> rel_cat s r Ur m \<and> attr_cat s a Ua A"

lemma cat_open:
  "rel_cat s f U m \<Longrightarrow> db_inv s \<and> of_map (openFiles s) RELCATNAME = Some f"
  "attr_cat s f U A \<Longrightarrow> db_inv s \<and> of_map (openFiles s) ATTRCATNAME = Some f"
  by (auto simp: rel_cat_def attr_cat_def rel_open_def)

lemma open_name_inj:
  "db_inv s \<Longrightarrow> of_map (openFiles s) n = Some f \<Longrightarrow> of_map (openFiles s) n' = Some f \<Longrightarrow> n = n'"
  using open_ok_map [of s] by (auto simp: db_inv_def)

lemma cat_names [simp]: "RELCATNAME \<noteq> ATTRCATNAME" "ATTRCATNAME \<noteq> RELCATNAME" "RELCATNAME \<noteq> []" "ATTRCATNAME \<noteq> []"
  by (simp_all add: RELCATNAME_def ATTRCATNAME_def)

lemma catalogsD:
  assumes "catalogs s r a Ur Ua m A"
  shows "rel_cat s r Ur m" "attr_cat s a Ua A" "db_inv s" "r \<noteq> a" "of_map (openFiles s) RELCATNAME = Some r"
    "of_map (openFiles s) ATTRCATNAME = Some a"
  using assms cat_open [of s] open_name_inj [of s RELCATNAME r ATTRCATNAME] by (auto simp: catalogs_def)

text \<open>Work on other files leaves the catalogs as they are.\<close>

lemma rel_cat_apart:
  assumes "rel_cat s r U m" "apart name f s s'" "name \<noteq> RELCATNAME" "f \<noteq> r" "db_inv s'"
  shows "rel_cat s' r U m"
  using assms(1) rel_open_apart [OF _ assms(2) _ _ assms(5)] assms(3,4) unfolding rel_cat_def by metis

lemma attr_cat_apart:
  assumes "attr_cat s a U A" "apart name f s s'" "name \<noteq> ATTRCATNAME" "f \<noteq> a" "db_inv s'"
  shows "attr_cat s' a U A"
  using assms(1) rel_open_apart [OF _ assms(2) _ _ assms(5)] assms(3,4) unfolding attr_cat_def by metis

lemma catalogs_out [simp]: "catalogs (put_out s t) r a Ur Ua m A = catalogs s r a Ur Ua m A"
  by (simp add: catalogs_def rel_cat_def attr_cat_def)

text \<open>What defining a relation leaves alone: all pins, all files that are open, and the other closed files.\<close>

definition ddl_kept :: "string \<Rightarrow> fptr \<Rightarrow> fptr \<Rightarrow> 'z db_scheme \<Rightarrow> 'z db_scheme \<Rightarrow> bool" where
  "ddl_kept name r a s s' \<longleftrightarrow> pin_of s' = pin_of s \<and> numBufs s' = numBufs s \<and>
     (\<forall>g. files s g \<noteq> None \<longrightarrow> files s' g = files s g \<and> (g \<noteq> r \<and> g \<noteq> a \<longrightarrow> page_of s' g = page_of s g)) \<and>
     (\<forall>n k recs. n \<noteq> name \<and> stored s n k recs \<longrightarrow> stored s' n k recs)"

lemma ddl_kept_refl: "ddl_kept name r a s s"
  by (simp add: ddl_kept_def)

lemma ddl_kept_trans: "ddl_kept name r a s s1 \<Longrightarrow> ddl_kept name r a s1 s2 \<Longrightarrow> ddl_kept name r a s s2"
  unfolding ddl_kept_def by (simp only: simp_thms) metis

lemma ddl_kept_out [simp]: "ddl_kept name r a s (put_out s1 t) = ddl_kept name r a s s1"
  by (simp add: ddl_kept_def) (simp add: put_out_def)

lemma call_kept_all:
  assumes "db_inv s" "db_inv s'" "call_kept f s s'" "\<And>g. g \<noteq> f \<Longrightarrow> page_of s' g = page_of s g"
  shows "stored s n k recs \<Longrightarrow> stored s' n k recs"
  using apartD(4) [OF call_kept_apart [OF assms, where name = "CHR ''x'' # n"]] by simp

lemma call_ddl_kept:
  assumes "db_inv s" "db_inv s'" "call_kept f s s'" "\<And>g. g \<noteq> f \<Longrightarrow> page_of s' g = page_of s g" "f = r \<or> f = a"
  shows "ddl_kept name r a s s'"
  using call_kept_all [OF assms(1-4)] assms(3-5) by (auto simp: ddl_kept_def call_kept_def pool_rest_def)

lemma apart_ddl_kept:
  assumes "apart name f s s'" "pin_of s' = pin_of s" "files s f = None"
  shows "ddl_kept name r a s s'"
  using assms apartD [OF assms(1)] unfolding ddl_kept_def by metis

lemma apart_out_ddl_kept:
  assumes "apart name f s s1" "apart name f (put_out s1 t) s2" "pin_of s2 = pin_of s" "files s f = None"
  shows "ddl_kept name r a s s2"
proof -
  have f: "files (put_out s1 t) = files s1" by (simp add: put_out_def)
  have "files s2 g = files s g \<and> page_of s2 g = page_of s g" if "files s g \<noteq> None" for g
  proof -
    have g: "g \<noteq> f" using that assms(4) by auto
    show ?thesis using apartD(5,6) [OF assms(1) g] apartD(5,6) [OF assms(2) g] f by simp
  qed
  moreover have "stored s2 n k recs" if "n \<noteq> name" "stored s n k recs" for n k recs
    using apartD(4) [OF assms(1) that] apartD(4) [OF assms(2) that(1)] by simp
  ultimately show ?thesis using assms(3) apartD(1) [OF assms(1)] apartD(1) [OF assms(2)] by (simp add: ddl_kept_def)
qed

section \<open>Adding and removing descriptors\<close>

lemma attr_list_mset: "mset recs' = add_mset (rid, r) (mset recs) \<Longrightarrow>
  mset (attr_list recs') = add_mset (the (bytes_AttrDesc r)) (mset (attr_list recs))"
  by (simp add: attr_list_def)

lemma attr_recs_mset: "mset recs' = add_mset (rid, r) (mset recs) \<Longrightarrow> attr_recs recs' \<longleftrightarrow> (\<exists>ad. attr_rec r ad) \<and> attr_recs recs"
proof -
  assume "mset recs' = add_mset (rid, r) (mset recs)"
  then have "set recs' = insert (rid, r) (set recs)" by (metis set_mset_add_mset_insert set_mset_mset)
  then show ?thesis by (simp add: attr_recs_def)
qed

lemma attr_add:
  fixes s :: "'z minirel_scheme"
  assumes c: "attr_cat s a U A" and room: "card (pinned s) + 3 \<le> numBufs s" "lay_size U < 2147483647" and ad: "attr_rec rec ad"
  obtains s' U' where "AttrCatalog_addInfo s ad = Some (OK, s')" "attr_cat s' a U' (add_mset ad A)" "call_kept a s s'"
    "lay_size U' \<le> Suc (lay_size U)" "\<And>g. g \<noteq> a \<Longrightarrow> page_of s' g = page_of s g"
proof -
  obtain hdr xs where C: "rel_open s ATTRCATNAME a U hdr xs" "attr_recs (chain_recs (page_of s a) xs)"
    "mset (attr_list (chain_recs (page_of s a) xs)) = A" using c by (auto simp: attr_cat_def)
  have dec: "bytes_AttrDesc rec = Some ad" by (rule attr_recD [OF ad])
  have l: "rec \<noteq> []" "length rec \<le> 1000" using dec by (auto simp: bytes_AttrDesc_def split: if_splits)
  obtain s1 h1 s2 h2 s3 rid U' hdr' xs' where I: "InsertFileScan_new s ATTRCATNAME = Some (OK, Some h1, s1)"
    "InsertFileScan_insertRecord s1 h1 rec = Some (OK, Some rid, s2, h2)" "InsertFileScan_delete s2 h2 = Some s3"
    "call_kept a s s3" "rel_open s3 ATTRCATNAME a U' hdr' xs'" "lay_size U' \<le> Suc (lay_size U)"
    "mset (chain_recs (page_of s3 a) xs') = add_mset (rid, rec) (mset (chain_recs (page_of s a) xs))"
    "\<And>g q. g \<noteq> a \<Longrightarrow> page_of s3 g q = page_of s g q"
    by (rule insert_call [OF C(1) l room]) (rule that)
  have run: "AttrCatalog_addInfo s ad = Some (OK, s3)"
    using I(1-3) ad by (simp add: AttrCatalog_addInfo_def attr_rec_def)
  have "attr_cat s3 a U' (add_mset ad A)"
    unfolding attr_cat_def using I(5) attr_list_mset [OF I(7)] attr_recs_mset [OF I(7)] C(2,3) dec ad
    by (intro exI [of _ hdr'] exI [of _ xs']) auto
  then show thesis using that [OF run] I(4,6,8) by (simp add: fun_eq_iff)
qed

lemma attr_remove:
  assumes c: "attr_cat s a U A" and room: "card (pinned s) + 2 \<le> numBufs s" and n: "n \<noteq> []" "c_name n" "x \<noteq> []"
    and ex: "\<exists>ad \<in># A. ad_relName ad = n \<and> ad_attrName ad = x"
  obtains s' ad where "AttrCatalog_removeInfo s n x = Some (OK, s')" "ad \<in># A" "ad_relName ad = n" "ad_attrName ad = x"
    "attr_cat s' a U (A - {#ad#})" "call_kept a s s'" "\<And>g. g \<noteq> a \<Longrightarrow> page_of s' g = page_of s g"
proof -
  obtain hdr xs where C: "rel_open s ATTRCATNAME a U hdr xs" "attr_recs (chain_recs (page_of s a) xs)"
    "mset (attr_list (chain_recs (page_of s a) xs)) = A" using c by (auto simp: attr_cat_def)
  let ?recs = "chain_recs (page_of s a) xs"
  obtain s1 hfs h where O: "HeapFileScan_new s ATTRCATNAME = Some (OK, Some hfs, s1)" "startScan_rel hfs n = (OK, h)"
    "standing s a U hdr xs s1 h ?recs" "rel_filter h n"
    by (rule attr_lookup_start [OF C(1) room]) (rule that)
  obtain ad where ad: "find (\<lambda>ad. ad_attrName ad = x) (rel_attrs ?recs n) = Some ad"
  proof (cases "find (\<lambda>ad. ad_attrName ad = x) (rel_attrs ?recs n)")
    case None
    then show ?thesis using ex unfolding C(3) [symmetric] by (auto simp: find_None_iff rel_attrs_def)
  qed (rule that)
  have nm: "ad_relName ad = n" "ad_attrName ad = x"
    using ad find_SomeD [OF ad] by (auto simp: rel_attrs_def find_Some_iff)
  obtain r s2 h2 rest rec where L: "attr_find_loop s1 h x None = Some (False, OK, r, s2, h2)" "standing s a U hdr xs s2 h2 rest"
    "bytes_AttrDesc rec = Some ad" "(curRec h2, rec) \<in> set ?recs" "pageNo (curRec h2) = cur_pageNo h2"
    using attr_find_spec [OF O(3) C(2) O(4) n(2), of x None] ad by auto
  obtain s3 h3 s4 hdr' t k where D: "HeapFileScan_deleteRecord s2 h2 = Some (OK, s3, h3)" "HeapFileScan_endScan s3 h3 = Some (OK, t, k)"
    "HeapFileScan_delete t k = Some s4" "call_kept a s s4" "rel_open s4 ATTRCATNAME a U hdr' xs"
    "add_mset (curRec h2, rec) (mset (chain_recs (page_of s4 a) xs)) = mset ?recs"
    "\<And>g q. g \<noteq> a \<Longrightarrow> page_of s4 g q = page_of s g q"
    using standing_deleteRecord [OF C(1) L(2,4,5)] by metis
  have run: "AttrCatalog_removeInfo s n x = Some (OK, s4)"
    using n(1,3) O(1,2) L(1) D(1-3) by (simp add: AttrCatalog_removeInfo_def Let_def)
  have A: "A = add_mset ad (mset (attr_list (chain_recs (page_of s4 a) xs)))"
    using attr_list_mset [OF D(6) [symmetric]] C(3) L(3) by simp
  have "attr_cat s4 a U (A - {#ad#})"
    unfolding attr_cat_def using D(5) attr_recs_mset [OF D(6) [symmetric]] C(2) A by (intro exI [of _ hdr'] exI [of _ xs]) simp
  then show thesis using that [OF run _ nm] A D(4,7) by (simp add: fun_eq_iff)
qed

text \<open>The descriptors of a new relation.\<close>

fun rel_descs :: "string \<Rightarrow> attrInfo list \<Rightarrow> int \<Rightarrow> AttrDesc list" where
  "rel_descs n [] offset = []"
| "rel_descs n (x # xs) offset =
     \<lparr>ad_relName = n, ad_attrName = ai_attrName x, ad_attrOffset = offset, ad_attrType = ai_attrType x, ad_attrLen = ai_attrLen x\<rparr>
       # rel_descs n xs (wrap32 (offset + ai_attrLen x))"

definition attr_info_ok :: "attrInfo \<Rightarrow> bool" where
  "attr_info_ok x \<longleftrightarrow> c_name (ai_attrName x) \<and> length (ai_attrName x) < MAXNAME \<and> int_range (ai_attrType x) \<and> int_range (ai_attrLen x)"

lemma rel_descs_names: "map ad_attrName (rel_descs n xs i) = map ai_attrName xs" "ad \<in> set (rel_descs n xs i) \<Longrightarrow> ad_relName ad = n"
  by (induction xs arbitrary: i) auto

lemma create_attrs_spec:
  fixes s :: "'z minirel_scheme"
  assumes "attr_cat s a U A" "card (pinned s) + 3 \<le> numBufs s" "lay_size U + length xs \<le> 2147483647"
    "c_name n" "length n < MAXNAME" "\<forall>x \<in> set xs. attr_info_ok x" "int_range i"
  shows "\<exists>s' U' j. create_attrs n (xs @ ys) i s = create_attrs n ys j s' \<and> attr_cat s' a U' (A + mset (rel_descs n xs i)) \<and>
    call_kept a s s' \<and> (\<forall>g. g \<noteq> a \<longrightarrow> page_of s' g = page_of s g) \<and> lay_size U' \<le> lay_size U + length xs"
  using assms
proof (induction xs arbitrary: s U A i)
  case Nil
  then show ?case by (intro exI [of _ s] exI [of _ U] exI [of _ i]) (simp add: call_kept_refl)
next
  case (Cons x xs)
  let ?ad = "\<lparr>ad_relName = n, ad_attrName = ai_attrName x, ad_attrOffset = i, ad_attrType = ai_attrType x, ad_attrLen = ai_attrLen x\<rparr>"
  let ?i = "wrap32 (i + ai_attrLen x)"
  have ok: "attr_info_ok x" "\<forall>x \<in> set xs. attr_info_ok x" using Cons.prems(6) by simp_all
  obtain rec where rec: "AttrDesc_bytes ?ad = Some rec"
    using Cons.prems(5) ok(1) by (simp add: AttrDesc_bytes_def name_bytes_def attr_info_ok_def)
  have ar: "attr_rec rec ?ad" using rec Cons.prems(4,7) ok(1) by (simp add: attr_rec_def attr_desc_ok_def attr_info_ok_def)
  have sz: "lay_size U < 2147483647" using Cons.prems(3) by simp
  obtain s1 U1 where S: "AttrCatalog_addInfo s ?ad = Some (OK, s1)" "attr_cat s1 a U1 (add_mset ?ad A)" "call_kept a s s1"
    "lay_size U1 \<le> Suc (lay_size U)" "\<And>g. g \<noteq> a \<Longrightarrow> page_of s1 g = page_of s g"
    by (rule attr_add [OF Cons.prems(1,2) sz ar]) (rule that)
  have r1: "card (pinned s1) + 3 \<le> numBufs s1" "lay_size U1 + length xs \<le> 2147483647"
    using Cons.prems(2,3) S(4) call_kept_room [OF S(3)] by simp_all
  have ir: "int_range ?i" by (simp add: int_range_def wrap32_bounds)
  obtain s' U' j where T: "create_attrs n (xs @ ys) ?i s1 = create_attrs n ys j s'"
    "attr_cat s' a U' (add_mset ?ad A + mset (rel_descs n xs ?i))" "call_kept a s1 s'"
    "\<And>g. g \<noteq> a \<Longrightarrow> page_of s' g = page_of s1 g" "lay_size U' \<le> lay_size U1 + length xs"
    using Cons.IH [OF S(2) r1 Cons.prems(4,5) ok(2) ir] by blast
  have "create_attrs n ((x # xs) @ ys) i s = create_attrs n ys j s'"
    using ok(1) S(1) T(1) by (simp add: attr_info_ok_def)
  moreover have "call_kept a s s'" by (rule call_kept_trans [OF S(3) T(3)])
  ultimately show ?case using T(2,4,5) S(4,5) by (intro exI [of _ s'] exI [of _ U'] exI [of _ j]) (simp del: create_attrs.simps)
qed

lemma drop_attrs_spec:
  assumes "attr_cat s a U A" "card (pinned s) + 2 \<le> numBufs s" "n \<noteq> []" "c_name n"
    "image_mset ad_attrName {#ad \<in># A. ad_relName ad = n#} = mset (map ad_attrName as)" "\<forall>ad \<in> set as. ad_attrName ad \<noteq> []"
  shows "\<exists>s'. drop_attrs n as s = Some (OK, s') \<and> attr_cat s' a U {#ad \<in># A. ad_relName ad \<noteq> n#} \<and> call_kept a s s' \<and>
    (\<forall>g. g \<noteq> a \<longrightarrow> page_of s' g = page_of s g)"
  using assms
proof (induction "as" arbitrary: s A)
  case Nil
  then have "{#ad \<in># A. ad_relName ad \<noteq> n#} = {#ad \<in># A. True#}" by (intro filter_mset_cong) auto
  then have "{#ad \<in># A. ad_relName ad \<noteq> n#} = A" by simp
  then show ?case using Nil.prems(1) by (intro exI [of _ s]) (simp add: call_kept_refl)
next
  case (Cons d ds)
  have x: "ad_attrName d \<noteq> []" using Cons.prems(6) by simp
  have "ad_attrName d \<in># image_mset ad_attrName {#ad \<in># A. ad_relName ad = n#}" unfolding Cons.prems(5) by simp
  then have ex: "\<exists>ad \<in># A. ad_relName ad = n \<and> ad_attrName ad = ad_attrName d" by auto
  obtain s1 ad where R: "AttrCatalog_removeInfo s n (ad_attrName d) = Some (OK, s1)" "ad \<in># A" "ad_relName ad = n"
    "ad_attrName ad = ad_attrName d" "attr_cat s1 a U (A - {#ad#})" "call_kept a s s1" "\<And>g. g \<noteq> a \<Longrightarrow> page_of s1 g = page_of s g"
    by (rule attr_remove [OF Cons.prems(1-4) x ex]) (rule that)
  obtain B where B: "A = add_mset ad B" using R(2) by (auto dest: multi_member_split)
  have m: "image_mset ad_attrName {#ad \<in># A - {#ad#}. ad_relName ad = n#} = mset (map ad_attrName ds)"
    using Cons.prems(5) R(3,4) B by simp
  have r1: "card (pinned s1) + 2 \<le> numBufs s1" using Cons.prems(2) call_kept_room [OF R(6)] by simp
  have ds: "\<forall>ad \<in> set ds. ad_attrName ad \<noteq> []" using Cons.prems(6) by simp
  obtain s' where S: "drop_attrs n ds s1 = Some (OK, s')" "attr_cat s' a U {#ad \<in># A - {#ad#}. ad_relName ad \<noteq> n#}" "call_kept a s1 s'"
    "\<And>g. g \<noteq> a \<Longrightarrow> page_of s' g = page_of s1 g"
    using Cons.IH [OF R(5) r1 Cons.prems(3,4) m ds] by blast
  have "{#ad \<in># A - {#ad#}. ad_relName ad \<noteq> n#} = {#ad \<in># A. ad_relName ad \<noteq> n#}" using R(3) B by simp
  moreover have "call_kept a s s'" by (rule call_kept_trans [OF R(6) S(3)])
  ultimately show ?case using R(1,7) S(1,2,4) by (intro exI [of _ s']) simp
qed

section \<open>createRel\<close>

lemma check_attrs_spec:
  "check_attrs seen xs w = (if distinct (map ai_attrName xs) \<and> ai_attrName ` set seen \<inter> ai_attrName ` set xs = {}
     then Inr (if xs = [] then w else (w + sum_list (map ai_attrLen xs)) mod 2 ^ 32) else Inl DUPLATTR)"
proof (induction xs arbitrary: seen w)
  case (Cons x xs)
  have dup: "(\<exists>b \<in> set seen. ai_attrName x = ai_attrName b) \<longleftrightarrow> ai_attrName x \<in> ai_attrName ` set seen" by auto
  show ?case unfolding check_attrs.simps dup Cons.IH by (auto simp: mod_simps ac_simps)
qed simp

definition row_width :: "attrInfo list \<Rightarrow> int" where
  "row_width xs = sum_list (map ai_attrLen xs) mod 2 ^ 32"

lemma check_attrs_all:
  "xs \<noteq> [] \<Longrightarrow> check_attrs [] xs 0 = (if distinct (map ai_attrName xs) then Inr (row_width xs) else Inl DUPLATTR)"
  by (simp add: check_attrs_spec row_width_def)

definition closed_free :: "'z db_scheme \<Rightarrow> string \<Rightarrow> bool" where
  "closed_free s n \<longleftrightarrow> of_map (openFiles s) n = None \<and> disk s n = None"

lemma no_file_closed:
  assumes "db_inv s" "disk s n = None"
  shows "closed_free s n"
proof (cases "of_map (openFiles s) n")
  case (Some g)
  then obtain fo where "files s g = Some fo" "fileName fo = n" using open_ok_map [of s n g] assms(1) by (auto simp: db_inv_def)
  then show ?thesis using open_okD(4) [of s g fo] assms by (simp add: db_inv_def)
qed (simp add: closed_free_def assms(2))

lemma closed_free_call:
  assumes "closed_free s n" "call_kept f s s'" "db_inv s" "db_inv s'"
  shows "closed_free s' n"
proof -
  have "openFiles s' = openFiles s" "closed_disk s' = closed_disk s" using assms(2) db_more [of s' s] by (auto simp: call_kept_def pool_rest_def)
  then show ?thesis using assms(1,3,4) closed_disk_closed [of s n] closed_disk_closed [of s' n] by (simp add: closed_free_def)
qed

definition creating :: "string \<Rightarrow> string" where
  "creating n = ''Creating relation '' @ n @ newline"

lemma call_out:
  fixes s s' :: "'z minirel_scheme"
  assumes "call_kept f s s'"
  shows "out s' = out s"
  using assms by (cases s; cases s') (simp add: call_kept_def pool_rest_def)

text \<open>The checks pass: the entry of the relation and those of the attributes up to ys are written.\<close>

lemma createRel_start:
  fixes s :: "'z minirel_scheme"
  assumes c: "catalogs s r a Ur Ua m A" and room: "card (pinned s) + 3 \<le> numBufs s"
    and sz: "lay_size Ur < 2147483647" "lay_size Ua + length (xs @ ys) \<le> 2147483647"
    and n: "n \<noteq> []" "c_name n" "length n < MAXNAME" "m n = None" and x: "xs @ ys \<noteq> []" "\<forall>x \<in> set xs. attr_info_ok x"
    and ok: "distinct (map ai_attrName (xs @ ys))" "row_width (xs @ ys) \<le> PAGESIZE"
  obtains s' Ur' Ua' j where "createRel s n (xs @ ys) = Option.bind (create_attrs n ys j s') (\<lambda>(st, s). if st \<noteq> OK then Some (st, s) else createHeapFile s n)"
    "catalogs s' r a Ur' Ua' (m(n \<mapsto> \<lparr>rd_relName = n, rd_attrCnt = int (length (xs @ ys))\<rparr>)) (A + mset (rel_descs n xs 0))"
    "ddl_kept n r a s s'" "out s' = out s @ creating n" "closed_free s n \<Longrightarrow> closed_free s' n"
    "lay_size Ur' \<le> Suc (lay_size Ur)" "lay_size Ua' \<le> lay_size Ua + length xs"
proof -
  note C = catalogsD [OF c]
  let ?rd = "\<lparr>rd_relName = n, rd_attrCnt = int (length (xs @ ys))\<rparr>"
  have room2: "card (pinned s) + 2 \<le> numBufs s" using room by simp
  obtain s1 where L: "RelCatalog_getInfo s n = Some (RELNOTFOUND, None, s1)" "rel_cat s1 r Ur m" "call_kept r s s1" "page_of s1 = page_of s"
    by (rule getInfo_lookup [OF C(1) room2 n(1,2)]) (simp add: n(4))
  have inv1: "db_inv s1" using cat_open(1) [OF L(2)] by simp
  have r1: "card (pinned s1) + 3 \<le> numBufs s1" using room call_kept_room [OF L(3)] by simp
  have a1: "attr_cat s1 a Ua A"
    by (rule attr_cat_apart [OF C(2) call_kept_apart [OF C(3) inv1 L(3), where name = RELCATNAME]]) (use C(4) L(4) inv1 in simp_all)
  let ?t = "put_out s1 (creating n)"
  have c2: "catalogs ?t r a Ur Ua m A" unfolding catalogs_out using L(2) a1 by (simp add: catalogs_def)
  note T = catalogsD [OF c2]
  obtain rec where rec: "rel_rec rec ?rd"
    using rel_desc_rec [of ?rd] n(2,3) sz(2) by (auto simp: rel_desc_ok_def int_range_def)
  have mn: "m (rd_relName ?rd) = None" using n(4) by simp
  have rt: "card (pinned ?t) + 3 \<le> numBufs ?t" using r1 by simp
  obtain s2 Ur' where D: "RelCatalog_addInfo ?t ?rd = Some (OK, s2)" "rel_cat s2 r Ur' (m(n \<mapsto> ?rd))" "call_kept r ?t s2"
    "lay_size Ur' \<le> Suc (lay_size Ur)" "\<And>g q. g \<noteq> r \<Longrightarrow> page_of s2 g q = page_of ?t g q"
    by (rule addInfo_update [OF T(1) rt sz(1) rec mn, unfolded RelDesc.select_convs]) (rule that)
  have P2: "page_of s2 g = page_of ?t g" if "g \<noteq> r" for g using D(5) [OF that] by (simp add: fun_eq_iff)
  have inv2: "db_inv s2" using cat_open(1) [OF D(2)] by simp
  have a2: "attr_cat s2 a Ua A"
    by (rule attr_cat_apart [OF T(2) call_kept_apart [OF T(3) inv2 D(3) P2, where name = RELCATNAME]]) (use C(4) inv2 in simp_all)
  have r2: "card (pinned s2) + 3 \<le> numBufs s2" using rt call_kept_room [OF D(3)] by simp
  have sz2: "lay_size Ua + length xs \<le> 2147483647" and i0: "int_range 0" using sz(2) by (simp_all add: int_range_def)
  obtain s3 Ua' j where E: "create_attrs n (xs @ ys) 0 s2 = create_attrs n ys j s3" "attr_cat s3 a Ua' (A + mset (rel_descs n xs 0))"
    "call_kept a s2 s3" "\<And>g. g \<noteq> a \<Longrightarrow> page_of s3 g = page_of s2 g" "lay_size Ua' \<le> lay_size Ua + length xs"
    using create_attrs_spec [where ys = ys and i = 0, OF a2 r2 sz2 n(2,3) x(2)] i0 by blast
  have inv3: "db_inv s3" using cat_open(2) [OF E(2)] by simp
  have rc3: "rel_cat s3 r Ur' (m(n \<mapsto> ?rd))"
    by (rule rel_cat_apart [OF D(2) call_kept_apart [OF inv2 inv3 E(3,4), where name = ATTRCATNAME]]) (use C(4) inv3 in simp_all)
  have run: "createRel s n (xs @ ys) = Option.bind (create_attrs n ys j s3) (\<lambda>(st, s). if st \<noteq> OK then Some (st, s) else createHeapFile s n)"
    using n(1,3) x(1) L(1) ok D(1) E(1) check_attrs_all [OF x(1)] by (auto simp: createRel_def creating_def)
  have k1: "ddl_kept n r a s ?t" using call_ddl_kept [OF C(3) inv1 L(3)] L(4) by simp
  have "ddl_kept n r a ?t s2" by (rule call_ddl_kept [OF T(3) inv2 D(3) P2]) simp_all
  moreover have "ddl_kept n r a s2 s3" by (rule call_ddl_kept [OF inv2 inv3 E(3,4)]) simp_all
  ultimately have "ddl_kept n r a s s3" using k1 ddl_kept_trans by blast
  moreover have "out s3 = out s @ creating n" using call_out [OF E(3)] call_out [OF D(3)] call_out [OF L(3)] by simp
  moreover have "closed_free s3 n" if "closed_free s n"
  proof -
    have "closed_free s1 n" by (rule closed_free_call [OF that L(3) C(3) inv1])
    then have "closed_free ?t n" by (simp add: closed_free_def)
    then show ?thesis using closed_free_call [OF _ D(3) T(3) inv2] closed_free_call [OF _ E(3) inv2 inv3] by blast
  qed
  moreover have "catalogs s3 r a Ur' Ua' (m(n \<mapsto> ?rd)) (A + mset (rel_descs n xs 0))" using rc3 E(2) by (simp add: catalogs_def)
  ultimately show thesis using that [OF run] D(4) E(5) by blast
qed

lemma createRel_spec:
  fixes s :: "'z minirel_scheme"
  assumes c: "catalogs s r a Ur Ua m A" and room: "card (pinned s) + 3 \<le> numBufs s"
    and sz: "lay_size Ur < 2147483647" "lay_size Ua + length xs \<le> 2147483647"
    and n: "n \<noteq> []" "c_name n" "length n < MAXNAME" "m n = None" "disk s n = None" and x: "xs \<noteq> []" "\<forall>x \<in> set xs. attr_info_ok x"
    and ok: "distinct (map ai_attrName xs)" "row_width xs \<le> PAGESIZE"
  obtains s' Ur' Ua' k where "createRel s n xs = Some (OK, s')"
    "catalogs s' r a Ur' Ua' (m(n \<mapsto> \<lparr>rd_relName = n, rd_attrCnt = int (length xs)\<rparr>)) (A + mset (rel_descs n xs 0))"
    "stored s' n k []" "k \<le> 3" "ddl_kept n r a s s'" "out s' = out s @ creating n"
proof -
  note C = catalogsD [OF c]
  obtain s1 Ur' Ua' j where S: "createRel s n xs = Option.bind (create_attrs n [] j s1) (\<lambda>(st, s). if st \<noteq> OK then Some (st, s) else createHeapFile s n)"
    "catalogs s1 r a Ur' Ua' (m(n \<mapsto> \<lparr>rd_relName = n, rd_attrCnt = int (length xs)\<rparr>)) (A + mset (rel_descs n xs 0))"
    "ddl_kept n r a s s1" "out s1 = out s @ creating n" "closed_free s n \<Longrightarrow> closed_free s1 n"
    "lay_size Ur' \<le> Suc (lay_size Ur)" "lay_size Ua' \<le> lay_size Ua + length xs"
    by (rule createRel_start [where ys = "[]", unfolded append_Nil2, OF c room sz n(1-4) x ok]) (rule that)
  note D = catalogsD [OF S(2)]
  have "closed_free s n" by (rule no_file_closed [OF C(3) n(5)])
  then have free: "of_map (openFiles s1) n = None" "disk s1 n = None" using S(5) by (simp_all add: closed_free_def)
  have cs: "c_str n = n" using n(2) by (simp add: c_name_def c_str_id)
  have r1: "card (pinned s1) + 2 \<le> numBufs s1" using room S(3) by (simp add: ddl_kept_def)
  obtain s2 f k where H: "createHeapFile s1 n = Some (OK, s2)" "db_inv s2" "apart n f s1 s2" "pin_of s2 = pin_of s1"
    "stored s2 n k []" "k \<le> 3" "files s1 f = None"
    by (rule createHeapFile_stored [OF D(3) n(1) free cs r1]) (rule that)
  have run: "createRel s n xs = Some (OK, s2)" using S(1) H(1) by simp
  have ne: "n \<noteq> RELCATNAME" "n \<noteq> ATTRCATNAME" using free D(5,6) by auto
  have "files s1 r \<noteq> None" "files s1 a \<noteq> None" using D(3,5,6) open_ok_map [of s1] by (auto simp: db_inv_def)
  then have fr: "f \<noteq> r" "f \<noteq> a" using H(7) by auto
  have "catalogs s2 r a Ur' Ua' (m(n \<mapsto> \<lparr>rd_relName = n, rd_attrCnt = int (length xs)\<rparr>)) (A + mset (rel_descs n xs 0))"
    unfolding catalogs_def using rel_cat_apart [OF D(1) H(3) ne(1) fr(1) H(2)] attr_cat_apart [OF D(2) H(3) ne(2) fr(2) H(2)] ..
  moreover have "ddl_kept n r a s s2" by (rule ddl_kept_trans [OF S(3) apart_ddl_kept [OF H(3,4,7)]])
  moreover have "out s2 = out s1" using apartD(2) [OF H(3)] by (cases s1; cases s2) simp
  ultimately show thesis using that [OF run] H(5,6) S(4) by simp
qed

text \<open>What createRel answers before it has written anything.\<close>

definition createRel_refusal :: "(string \<Rightarrow> RelDesc option) \<Rightarrow> string \<Rightarrow> attrInfo list \<Rightarrow> Status" where
  "createRel_refusal m n xs =
     (if n = [] \<or> xs = [] then BADCATPARM else if length n \<ge> MAXNAME then NAMETOOLONG
      else if m n \<noteq> None then RELEXISTS else if \<not> distinct (map ai_attrName xs) then DUPLATTR
      else if row_width xs > PAGESIZE then ATTRTOOLONG else OK)"

lemma createRel_refuses:
  fixes s :: "'z minirel_scheme"
  assumes c: "catalogs s r a Ur Ua m A" and room: "card (pinned s) + 2 \<le> numBufs s" and n: "c_name n"
    and st: "createRel_refusal m n xs \<noteq> OK"
  obtains s' where "createRel s n xs = Some (createRel_refusal m n xs, s')" "catalogs s' r a Ur Ua m A" "ddl_kept n r a s s'"
    "out s' = out s"
proof (cases "n = [] \<or> xs = [] \<or> length n \<ge> MAXNAME")
  case True
  have "createRel s n xs = Some (createRel_refusal m n xs, s)" using True by (auto simp: createRel_def createRel_refusal_def)
  then show thesis using that [OF _ c ddl_kept_refl] by blast
next
  case False
  then have ne: "n \<noteq> []" "xs \<noteq> []" "length n < MAXNAME" by simp_all
  note C = catalogsD [OF c]
  obtain s1 where L: "RelCatalog_getInfo s n = Some (if m n = None then RELNOTFOUND else OK, m n, s1)" "rel_cat s1 r Ur m"
    "call_kept r s s1" "page_of s1 = page_of s"
    by (rule getInfo_lookup [OF C(1) room ne(1) n]) (rule that)
  have inv1: "db_inv s1" using cat_open(1) [OF L(2)] by simp
  have "attr_cat s1 a Ua A"
    by (rule attr_cat_apart [OF C(2) call_kept_apart [OF C(3) inv1 L(3), where name = RELCATNAME]]) (use C(4) L(4) inv1 in simp_all)
  then have c1: "catalogs s1 r a Ur Ua m A" using L(2) by (simp add: catalogs_def)
  have k: "ddl_kept n r a s s1" using call_ddl_kept [OF C(3) inv1 L(3)] L(4) by simp
  have "createRel s n xs = Some (createRel_refusal m n xs, s1)"
    using ne L(1) st check_attrs_all [OF ne(2)] by (auto simp: createRel_def createRel_refusal_def split: if_splits)
  then show thesis using that [OF _ c1 k call_out [OF L(3)]] by blast
qed

section \<open>destroyRel\<close>

lemma destroyRel_spec:
  assumes c: "catalogs s r a Ur Ua m A" and room: "card (pinned s) + 2 \<le> numBufs s" and n: "c_name n" "m n \<noteq> None"
    and A: "\<exists>ad \<in># A. ad_relName ad = n" "\<forall>ad \<in># A. ad_relName ad = n \<longrightarrow> ad_attrName ad \<noteq> []" and st: "stored s n k recs"
  obtains s' where "destroyRel s n = Some (OK, s')" "catalogs s' r a Ur Ua (m(n := None)) {#ad \<in># A. ad_relName ad \<noteq> n#}"
    "disk s' n = None" "of_map (openFiles s') n = None" "ddl_kept n r a s s'" "db.more s' = db.more s"
proof -
  note C = catalogsD [OF c]
  have n0: "n \<noteq> []" and cl: "of_map (openFiles s) n = None" using st by (simp_all add: stored_def)
  have ne: "n \<noteq> RELCATNAME" "n \<noteq> ATTRCATNAME" using C(5,6) cl by auto
  obtain hdr xs where T: "rel_open s ATTRCATNAME a Ua hdr xs" "attr_recs (chain_recs (page_of s a) xs)"
    "mset (attr_list (chain_recs (page_of s a) xs)) = A" using C(2) by (auto simp: attr_cat_def)
  let ?as = "rel_attrs (chain_recs (page_of s a) xs) n"
  have as: "mset ?as = {#ad \<in># A. ad_relName ad = n#}" unfolding T(3) [symmetric] by (simp add: rel_attrs_def)
  have "set ?as = {ad. ad \<in># A \<and> ad_relName ad = n}" using arg_cong [OF as, of set_mset] by simp
  then have asne: "set ?as \<noteq> {}" "\<forall>ad \<in> set ?as. ad_attrName ad \<noteq> []" using A by auto
  obtain s1 where L: "AttrCatalog_getRelInfo s n = Some (OK, ?as, s1)" "call_kept a s s1" "page_of s1 = page_of s"
    "rel_open s1 ATTRCATNAME a Ua hdr xs"
    using getRelInfo_spec [OF T(1) room T(2) n0 n(1)] asne(1) by auto
  have inv1: "db_inv s1" using L(4) by (simp add: rel_open_def)
  have P1: "\<And>g. g \<noteq> a \<Longrightarrow> page_of s1 g = page_of s g" using L(3) by simp
  have a1: "attr_cat s1 a Ua A" unfolding attr_cat_def using L(3,4) T(2,3) by (intro exI [of _ hdr] exI [of _ xs]) simp
  have r1: "card (pinned s1) + 2 \<le> numBufs s1" using room call_kept_room [OF L(2)] by simp
  have im: "image_mset ad_attrName {#ad \<in># A. ad_relName ad = n#} = mset (map ad_attrName ?as)" using as by simp
  obtain s2 where D: "drop_attrs n ?as s1 = Some (OK, s2)" "attr_cat s2 a Ua {#ad \<in># A. ad_relName ad \<noteq> n#}" "call_kept a s1 s2"
    "\<And>g. g \<noteq> a \<Longrightarrow> page_of s2 g = page_of s1 g"
    using drop_attrs_spec [OF a1 r1 n0 n(1) im asne(2)] by blast
  have inv2: "db_inv s2" using cat_open(2) [OF D(2)] by simp
  have ck2: "call_kept a s s2" by (rule call_kept_trans [OF L(2) D(3)])
  have P2: "\<And>g. g \<noteq> a \<Longrightarrow> page_of s2 g = page_of s g" using D(4) P1 by simp
  have ap2: "apart ATTRCATNAME a s s2" by (rule call_kept_apart [OF C(3) inv2 ck2 P2])
  have rc2: "rel_cat s2 r Ur m" by (rule rel_cat_apart [OF C(1) ap2 _ _ inv2]) (use C(4) in simp_all)
  have r2: "card (pinned s2) + 2 \<le> numBufs s2" using room call_kept_room [OF ck2] by simp
  obtain s3 where R: "RelCatalog_removeInfo s2 n = Some (OK, s3)" "rel_cat s3 r Ur (m(n := None))" "call_kept r s2 s3"
    "\<And>g q. g \<noteq> r \<Longrightarrow> page_of s3 g q = page_of s2 g q"
    by (rule removeInfo_delete [OF rc2 r2 n0 n(1)]) (use n(2) that in auto)
  have P3: "\<And>g. g \<noteq> r \<Longrightarrow> page_of s3 g = page_of s2 g" using R(4) by (simp add: fun_eq_iff)
  have inv3: "db_inv s3" using cat_open(1) [OF R(2)] by simp
  have ap3: "apart RELCATNAME r s2 s3" by (rule call_kept_apart [OF inv2 inv3 R(3) P3])
  have a3: "attr_cat s3 a Ua {#ad \<in># A. ad_relName ad \<noteq> n#}" by (rule attr_cat_apart [OF D(2) ap3 _ _ inv3]) (use C(4) in simp_all)
  have st3: "stored s3 n k recs" using apartD(4) [OF ap3 ne(1) apartD(4) [OF ap2 ne(2) st]] .
  obtain s4 where F: "destroyHeapFile s3 n = (OK, s4)" "db_inv s4" "\<And>f. apart n f s3 s4" "pin_of s4 = pin_of s3"
    "page_of s4 = page_of s3" "files s4 = files s3" "openFiles s4 = openFiles s3" "disk s4 n = None" "db.more s4 = db.more s3"
    by (rule destroyFile_closed [OF inv3 st3]) (rule that)
  have run: "destroyRel s n = Some (OK, s4)"
    using n0 ne L(1) D(1) R(1) F(1) by (simp add: destroyRel_def dropRelation_def)
  obtain g where g: "g \<noteq> r" "g \<noteq> a" using ex_new_if_finite [of "{r, a}"] infinite_UNIV_int by auto
  have "catalogs s4 r a Ur Ua (m(n := None)) {#ad \<in># A. ad_relName ad \<noteq> n#}"
    unfolding catalogs_def using rel_cat_apart [OF R(2) F(3) ne(1) g(1) F(2)] attr_cat_apart [OF a3 F(3) ne(2) g(2) F(2)] ..
  moreover have "ddl_kept n r a s3 s4"
    using F(4-6) apartD(1,4) [OF F(3)] by (simp add: ddl_kept_def)
  moreover have "ddl_kept n r a s s2" by (rule call_ddl_kept [OF C(3) inv2 ck2 P2]) simp_all
  moreover have "ddl_kept n r a s2 s3" by (rule call_ddl_kept [OF inv2 inv3 R(3) P3]) simp_all
  ultimately show thesis
    using that [OF run] F(7-9) ddl_kept_trans cl apartD(2,3) [OF ap2] apartD(2,3) [OF ap3] ne by metis
qed

section \<open>Properties\<close>

text \<open>
  C1: createRel on a new name, with distinct attribute names that fit their fields and a tuple no
  wider than a page, answers OK: relcat gains exactly the entry of the relation, attrcat exactly one
  descriptor per attribute, with the offsets the code adds up, and an empty heap file of at most
  three pages lies on disk, closed. No pin is left, no other relation changes, and no file that was
  open changes except the two catalogs.
\<close>
theorem createRel_creates:
  fixes s :: "'z minirel_scheme"
  assumes "catalogs s r a Ur Ua m A" "card (pinned s) + 3 \<le> numBufs s"
    and "lay_size Ur < 2147483647" "lay_size Ua + length xs \<le> 2147483647"
    and "c_name n" "createRel_refusal m n xs = OK" "disk s n = None" "\<forall>x \<in> set xs. attr_info_ok x"
  shows "\<exists>s' Ur' Ua' k. createRel s n xs = Some (OK, s') \<and>
    catalogs s' r a Ur' Ua' (m(n \<mapsto> \<lparr>rd_relName = n, rd_attrCnt = int (length xs)\<rparr>)) (A + mset (rel_descs n xs 0)) \<and>
    stored s' n k [] \<and> k \<le> 3 \<and> ddl_kept n r a s s' \<and> out s' = out s @ creating n"
proof -
  have ok: "n \<noteq> []" "length n < MAXNAME" "m n = None" "xs \<noteq> []" "distinct (map ai_attrName xs)" "row_width xs \<le> PAGESIZE"
    using assms(6) by (auto simp: createRel_refusal_def split: if_splits)
  show ?thesis by (rule createRel_spec [OF assms(1-4) ok(1) assms(5) ok(2,3) assms(7) ok(4) assms(8) ok(5,6)]) blast
qed

text \<open>
  C8: When createRel refuses a relation before it writes, it answers the status of the first check
  that fails, in the order of the code: no name or no attributes, a name too long, a relation that
  exists, an attribute name twice, a tuple wider than a page. The catalogs, all other relations, all
  pins and the terminal are as they were.
\<close>
theorem createRel_rejects:
  fixes s :: "'z minirel_scheme"
  assumes "catalogs s r a Ur Ua m A" "card (pinned s) + 2 \<le> numBufs s" "c_name n" "createRel_refusal m n xs \<noteq> OK"
  shows "\<exists>s'. createRel s n xs = Some (createRel_refusal m n xs, s') \<and> catalogs s' r a Ur Ua m A \<and>
    ddl_kept n r a s s' \<and> out s' = out s"
  by (rule createRel_refuses [OF assms]) blast

text \<open>
  C9: The length of an attribute name is checked too late. When the attribute y is the first whose
  name does not fit, createRel answers NAMETOOLONG, but relcat has the entry of the relation, attrcat
  the descriptors of the attributes in front of y, and the creation was announced; there is no file
  for the relation, and a second attempt answers RELEXISTS.
\<close>
theorem createRel_late_NAMETOOLONG:
  fixes s :: "'z minirel_scheme"
  assumes "catalogs s r a Ur Ua m A" "card (pinned s) + 3 \<le> numBufs s"
    and "lay_size Ur < 2147483647" "lay_size Ua + length (xs @ y # ys) \<le> 2147483647"
    and "c_name n" "createRel_refusal m n (xs @ y # ys) = OK" "\<forall>x \<in> set xs. attr_info_ok x" "length (ai_attrName y) \<ge> MAXNAME"
    and "disk s n = None"
  shows "\<exists>s' s'' Ur' Ua'. createRel s n (xs @ y # ys) = Some (NAMETOOLONG, s') \<and>
    catalogs s' r a Ur' Ua' (m(n \<mapsto> \<lparr>rd_relName = n, rd_attrCnt = int (length (xs @ y # ys))\<rparr>)) (A + mset (rel_descs n xs 0)) \<and>
    disk s' n = None \<and> out s' = out s @ creating n \<and> createRel s' n (xs @ y # ys) = Some (RELEXISTS, s'')"
proof -
  let ?xs = "xs @ y # ys" let ?m = "m(n \<mapsto> \<lparr>rd_relName = n, rd_attrCnt = int (length ?xs)\<rparr>)"
  have ok: "n \<noteq> []" "length n < MAXNAME" "m n = None" "?xs \<noteq> []" "distinct (map ai_attrName ?xs)" "row_width ?xs \<le> PAGESIZE"
    using assms(6) by (auto simp: createRel_refusal_def split: if_splits)
  obtain s' Ur' Ua' j where S: "createRel s n ?xs = Option.bind (create_attrs n (y # ys) j s') (\<lambda>(st, s). if st \<noteq> OK then Some (st, s) else createHeapFile s n)"
    "catalogs s' r a Ur' Ua' ?m (A + mset (rel_descs n xs 0))" "ddl_kept n r a s s'" "out s' = out s @ creating n"
    "closed_free s n \<Longrightarrow> closed_free s' n"
    by (rule createRel_start [OF assms(1-4) ok(1) assms(5) ok(2-4) assms(7) ok(5,6)]) (rule that)
  have room: "card (pinned s') + 2 \<le> numBufs s'" using assms(2) S(3) by (simp add: ddl_kept_def)
  have rf: "createRel_refusal ?m n ?xs = RELEXISTS" using ok by (simp add: createRel_refusal_def)
  obtain s'' where "createRel s' n ?xs = Some (RELEXISTS, s'')"
    by (rule createRel_refuses [OF S(2) room assms(5), where xs = ?xs]) (use rf in auto)
  then show ?thesis using S(1,2,4,5) assms(8) no_file_closed [OF catalogsD(3) [OF assms(1)] assms(9)]
    by (intro exI [of _ s'] exI [of _ s''] exI [of _ Ur'] exI [of _ Ua']) (simp add: closed_free_def)
qed

text \<open>
  C2: destroyRel on a closed relation answers OK: relcat loses exactly its entry, attrcat exactly its
  descriptors, and its file is gone from the disk. No pin is left, no other relation changes, and no
  file that was open changes except the two catalogs.
\<close>
theorem destroyRel_destroys:
  assumes "catalogs s r a Ur Ua m A" "card (pinned s) + 2 \<le> numBufs s" "c_name n" "m n \<noteq> None"
    and "\<exists>ad \<in># A. ad_relName ad = n" "\<forall>ad \<in># A. ad_relName ad = n \<longrightarrow> ad_attrName ad \<noteq> []" "stored s n k recs"
  shows "\<exists>s'. destroyRel s n = Some (OK, s') \<and> catalogs s' r a Ur Ua (m(n := None)) {#ad \<in># A. ad_relName ad \<noteq> n#} \<and>
    disk s' n = None \<and> ddl_kept n r a s s'"
  by (rule destroyRel_spec [OF assms]) blast

text \<open>
  C7: destroyRel undoes createRel: after both, relcat holds the same map and attrcat the same
  descriptors as before, and the name is free on disk again.
\<close>
theorem createRel_destroyRel:
  fixes s :: "'z minirel_scheme"
  assumes "catalogs s r a Ur Ua m A" "card (pinned s) + 3 \<le> numBufs s"
    and "lay_size Ur < 2147483647" "lay_size Ua + length xs \<le> 2147483647"
    and "c_name n" "createRel_refusal m n xs = OK" "disk s n = None" "\<forall>x \<in> set xs. attr_info_ok x \<and> ai_attrName x \<noteq> []"
    and "\<forall>ad \<in># A. ad_relName ad \<noteq> n"
  shows "\<exists>s1 s2 Ur' Ua'. createRel s n xs = Some (OK, s1) \<and> destroyRel s1 n = Some (OK, s2) \<and>
    catalogs s2 r a Ur' Ua' m A \<and> disk s2 n = None \<and> ddl_kept n r a s s2"
proof -
  have ok: "n \<noteq> []" "length n < MAXNAME" "m n = None" "xs \<noteq> []" "distinct (map ai_attrName xs)" "row_width xs \<le> PAGESIZE"
    using assms(6) by (auto simp: createRel_refusal_def split: if_splits)
  have x: "\<forall>x \<in> set xs. attr_info_ok x" using assms(8) by simp
  let ?m = "m(n \<mapsto> \<lparr>rd_relName = n, rd_attrCnt = int (length xs)\<rparr>)" and ?A = "A + mset (rel_descs n xs 0)"
  obtain s1 Ur' Ua' k where C: "createRel s n xs = Some (OK, s1)" "catalogs s1 r a Ur' Ua' ?m ?A" "stored s1 n k []" "ddl_kept n r a s s1"
    by (rule createRel_spec [OF assms(1-4) ok(1) assms(5) ok(2,3) assms(7) ok(4) x ok(5,6)]) (rule that)
  have "rel_descs n xs 0 \<noteq> []" using ok(4) by (cases xs) simp_all
  then obtain d0 where d0: "d0 \<in> set (rel_descs n xs 0)" by fastforce
  have d: "ad_relName ad = n \<and> ad_attrName ad \<noteq> []" if "ad \<in> set (rel_descs n xs 0)" for ad
    using rel_descs_names(2) [OF that] rel_descs_names(1) [of n xs 0] that assms(8) by (metis image_eqI list.set_map imageE)
  have A: "\<exists>ad \<in># ?A. ad_relName ad = n" "\<forall>ad \<in># ?A. ad_relName ad = n \<longrightarrow> ad_attrName ad \<noteq> []"
    using d0 d assms(9) by (auto intro: bexI [of _ d0])
  have "{#ad \<in># mset (rel_descs n xs 0). ad_relName ad \<noteq> n#} = {#}" using d by auto
  moreover have "{#ad \<in># A. ad_relName ad \<noteq> n#} = {#ad \<in># A. True#}" using assms(9) by (intro filter_mset_cong) auto
  ultimately have f: "{#ad \<in># ?A. ad_relName ad \<noteq> n#} = A" by simp
  have m: "?m(n := None) = m" using ok(3) by (simp add: fun_upd_idem)
  have room: "card (pinned s1) + 2 \<le> numBufs s1" using assms(2) C(4) by (simp add: ddl_kept_def)
  obtain s2 where D: "destroyRel s1 n = Some (OK, s2)" "catalogs s2 r a Ur' Ua' (?m(n := None)) {#ad \<in># ?A. ad_relName ad \<noteq> n#}"
    "disk s2 n = None" "ddl_kept n r a s1 s2"
    by (rule destroyRel_spec [OF C(2) room assms(5) _ A C(3)]) (simp, rule that)
  show ?thesis using C(1) D(1-3) ddl_kept_trans [OF C(4) D(4)] unfolding f m by blast
qed

section \<open>Witnesses\<close>

text \<open>A database whose catalogs are open and empty.\<close>

lemma openFile_disk: "DB_openFile s n = Some (OK, x, b) \<Longrightarrow> disk b = disk s"
  by (cases "of_map (openFiles s) n")
    (auto simp: DB_openFile_def find_of_map File_open_def File_new_def Let_def bind_eq_Some_conv split: if_splits prod.splits)

lemma example_catalogs:
  obtains s :: minirel and r a Ur Ua where "catalogs s r a Ur Ua Map.empty {#}" "card (pinned s) + 3 \<le> numBufs s"
    "lay_size Ur = 3" "lay_size Ua = 3" "disk s ''dept'' = None" "disk s ''data'' = None" "stored s ''emp'' 3 []"
proof -
  let ?s = example_minirel
  note F = example_minirel_fields
  have st: "stored ?s RELCATNAME 3 []" "stored ?s ATTRCATNAME 3 []" "stored ?s ''emp'' 3 []"
    by (rule example_stored; simp add: example_dir_def RELCATNAME_def ATTRCATNAME_def)+
  obtain s1 r Ur hdr xs where A: "DB_openFile ?s RELCATNAME = Some (OK, Some r, s1)" "rel_open s1 RELCATNAME r Ur hdr xs" "lay_size Ur = 3"
    "chain_recs (page_of s1 r) xs = []" "apart RELCATNAME r ?s s1" "pin_of s1 = pin_of ?s"
    by (rule openFile_stored [OF F(7) st(1)]) (rule that)
  have st1: "stored s1 ATTRCATNAME 3 []" using apartD(4) [OF A(5) _ st(2)] by simp
  have inv1: "db_inv s1" using A(2) by (simp add: rel_open_def)
  obtain s2 a Ua hdr' ys where B: "DB_openFile s1 ATTRCATNAME = Some (OK, Some a, s2)" "rel_open s2 ATTRCATNAME a Ua hdr' ys" "lay_size Ua = 3"
    "chain_recs (page_of s2 a) ys = []" "apart ATTRCATNAME a s1 s2" "pin_of s2 = pin_of s1" "files s1 a = None"
    by (rule openFile_stored [OF inv1 st1]) (rule that)
  have inv2: "db_inv s2" using B(2) by (simp add: rel_open_def)
  have rc: "rel_cat s1 r Ur Map.empty" unfolding rel_cat_def using A(2,4) by (intro exI [of _ hdr] exI [of _ xs]) (simp add: rel_recs_def cat_assoc_def)
  have "files s1 r \<noteq> None" using A(2) open_ok_map [of s1 RELCATNAME r] by (auto simp: rel_open_def db_inv_def)
  then have "a \<noteq> r" using B(7) by auto
  then have "rel_cat s2 r Ur Map.empty" by (intro rel_cat_apart [OF rc B(5) _ _ inv2]) simp_all
  moreover have "attr_cat s2 a Ua {#}"
    unfolding attr_cat_def using B(2,4) by (intro exI [of _ hdr'] exI [of _ ys]) (simp add: attr_recs_def attr_list_def)
  ultimately have "catalogs s2 r a Ur Ua Map.empty {#}" by (simp add: catalogs_def)
  moreover have "card (pinned s2) + 3 \<le> numBufs s2"
    using A(6) B(6) F(2,6) apartD(1) [OF A(5)] apartD(1) [OF B(5)] by (simp add: busy_def)
  moreover have "stored s2 ''emp'' 3 []"
    using apartD(4) [OF B(5)] apartD(4) [OF A(5)] st(3) by (simp add: RELCATNAME_def ATTRCATNAME_def)
  moreover have "disk s2 ''dept'' = None" "disk s2 ''data'' = None"
    using openFile_disk [OF A(1)] openFile_disk [OF B(1)] F(1) by (simp_all add: example_dir_def RELCATNAME_def ATTRCATNAME_def)
  ultimately show thesis using that A(3) B(3) by blast
qed

definition dept_attrs :: "attrInfo list" where
  "dept_attrs = [\<lparr>ai_relName = ''dept'', ai_attrName = ''dno'', ai_attrType = 1, ai_attrLen = 4, ai_attrValue = None\<rparr>,
     \<lparr>ai_relName = ''dept'', ai_attrName = ''dname'', ai_attrType = 0, ai_attrLen = 20, ai_attrValue = None\<rparr>]"

lemma dept_ok:
  "c_name ''dept''" "createRel_refusal Map.empty ''dept'' dept_attrs = OK" "\<forall>x \<in> set dept_attrs. attr_info_ok x \<and> ai_attrName x \<noteq> []"
  "length dept_attrs = 2" "rel_descs ''dept'' dept_attrs 0 =
     [\<lparr>ad_relName = ''dept'', ad_attrName = ''dno'', ad_attrOffset = 0, ad_attrType = 1, ad_attrLen = 4\<rparr>,
      \<lparr>ad_relName = ''dept'', ad_attrName = ''dname'', ad_attrOffset = 4, ad_attrType = 0, ad_attrLen = 20\<rparr>]"
  by (simp_all add: c_name_def createRel_refusal_def dept_attrs_def row_width_def MAXNAME_def PAGESIZE_def attr_info_ok_def int_range_def
      wrap32_def)

lemma createRel_creates_witness:
  "\<exists>(s :: minirel) s' r a U V m A k. createRel s ''dept'' dept_attrs = Some (OK, s') \<and> catalogs s' r a U V m A \<and> stored s' ''dept'' k [] \<and>
     m = [''dept'' \<mapsto> \<lparr>rd_relName = ''dept'', rd_attrCnt = 2\<rparr>] \<and> size A = 2"
proof -
  obtain s :: minirel and r a Ur Ua where S: "catalogs s r a Ur Ua Map.empty {#}" "card (pinned s) + 3 \<le> numBufs s"
    "lay_size Ur = 3" "lay_size Ua = 3" "disk s ''dept'' = None" by (rule example_catalogs) (rule that)
  show ?thesis
    using createRel_creates [OF S(1,2), where n = "''dept''" and xs = dept_attrs] S(3-5) dept_ok by fastforce
qed

lemma createRel_rejects_witness:
  "\<exists>(s :: minirel) s'. createRel s ''dept'' (dept_attrs @ dept_attrs) = Some (DUPLATTR, s') \<and> out s' = out s"
proof -
  obtain s :: minirel and r a Ur Ua where S: "catalogs s r a Ur Ua Map.empty {#}" "card (pinned s) + 3 \<le> numBufs s"
    by (rule example_catalogs) (rule that)
  have "createRel_refusal Map.empty ''dept'' (dept_attrs @ dept_attrs) = DUPLATTR"
    by (simp add: createRel_refusal_def dept_attrs_def MAXNAME_def)
  then show ?thesis
    using createRel_rejects [OF S(1) _ dept_ok(1), where xs = "dept_attrs @ dept_attrs"] S(2) by fastforce
qed

lemma createRel_late_NAMETOOLONG_witness:
  "\<exists>(s :: minirel) s' s'' long r a U V m A. createRel s ''dept'' (dept_attrs @ [long]) = Some (NAMETOOLONG, s') \<and>
     catalogs s' r a U V m A \<and> m ''dept'' = Some \<lparr>rd_relName = ''dept'', rd_attrCnt = 3\<rparr> \<and> size A = 2 \<and>
     createRel s' ''dept'' (dept_attrs @ [long]) = Some (RELEXISTS, s'')"
proof -
  obtain s :: minirel and r a Ur Ua where S: "catalogs s r a Ur Ua Map.empty {#}" "card (pinned s) + 3 \<le> numBufs s"
    "lay_size Ur = 3" "lay_size Ua = 3" "disk s ''dept'' = None" by (rule example_catalogs) (rule that)
  let ?y = "\<lparr>ai_relName = ''dept'', ai_attrName = replicate 40 CHR ''x'', ai_attrType = 1, ai_attrLen = 4, ai_attrValue = None\<rparr>"
  have rf: "createRel_refusal Map.empty ''dept'' (dept_attrs @ [?y]) = OK"
    by (simp add: createRel_refusal_def dept_attrs_def MAXNAME_def row_width_def PAGESIZE_def) (simp add: numeral_eq_Suc)
  obtain s' s'' U V where "createRel s ''dept'' (dept_attrs @ [?y]) = Some (NAMETOOLONG, s')"
    "catalogs s' r a U V (Map.empty(''dept'' \<mapsto> \<lparr>rd_relName = ''dept'', rd_attrCnt = int (length (dept_attrs @ [?y]))\<rparr>))
       ({#} + mset (rel_descs ''dept'' dept_attrs 0))"
    "createRel s' ''dept'' (dept_attrs @ [?y]) = Some (RELEXISTS, s'')"
    using createRel_late_NAMETOOLONG [OF S(1,2), where n = "''dept''" and xs = dept_attrs and y = ?y and ys = "[]"] S(3-5) dept_ok(1,3,4) rf
    by (auto simp: MAXNAME_def)
  then show ?thesis using dept_ok(4,5)
    by (intro exI [of _ s] exI [of _ s'] exI [of _ s''] exI [of _ ?y] exI [of _ r] exI [of _ a] exI [of _ U] exI [of _ V]
        exI [of _ "[''dept'' \<mapsto> \<lparr>rd_relName = ''dept'', rd_attrCnt = 3\<rparr>]"] exI [of _ "mset (rel_descs ''dept'' dept_attrs 0)"]) simp
qed

lemma destroyRel_destroys_witness:
  "\<exists>(s :: minirel) s' r a U V. catalogs s r a U V [''dept'' \<mapsto> \<lparr>rd_relName = ''dept'', rd_attrCnt = 2\<rparr>] (mset (rel_descs ''dept'' dept_attrs 0)) \<and>
     destroyRel s ''dept'' = Some (OK, s') \<and> catalogs s' r a U V Map.empty {#} \<and> disk s' ''dept'' = None"
proof -
  obtain s :: minirel and r a Ur Ua where S: "catalogs s r a Ur Ua Map.empty {#}" "card (pinned s) + 3 \<le> numBufs s"
    "lay_size Ur = 3" "lay_size Ua = 3" "disk s ''dept'' = None" by (rule example_catalogs) (rule that)
  let ?m = "[''dept'' \<mapsto> \<lparr>rd_relName = ''dept'', rd_attrCnt = 2\<rparr>]" and ?A = "mset (rel_descs ''dept'' dept_attrs 0)"
  have rf: "''dept'' \<noteq> []" "length ''dept'' < MAXNAME" "dept_attrs \<noteq> []" "distinct (map ai_attrName dept_attrs)" "row_width dept_attrs \<le> PAGESIZE"
    "\<forall>x \<in> set dept_attrs. attr_info_ok x"
    using dept_ok(2,3) by (auto simp: createRel_refusal_def split: if_splits)
  obtain t U V k where T: "catalogs t r a U V ?m ?A" "stored t ''dept'' k []" "ddl_kept ''dept'' r a s t"
    by (rule createRel_spec [OF S(1,2) _ _ rf(1) dept_ok(1) rf(2) _ S(5) rf(3,6,4,5)]) (use S(3,4) dept_ok(4) that in auto)
  have room: "card (pinned t) + 2 \<le> numBufs t" using S(2) T(3) by (simp add: ddl_kept_def)
  have "?m(''dept'' := None) = Map.empty" "{#ad \<in># ?A. ad_relName ad \<noteq> ''dept''#} = {#}" using dept_ok(5) by simp_all
  then show ?thesis
    using destroyRel_destroys [OF T(1) room dept_ok(1) _ _ _ T(2)] T(1) dept_ok(5) by fastforce
qed

lemma createRel_destroyRel_witness:
  "\<exists>(s :: minirel) s1 s2 r a U V. createRel s ''dept'' dept_attrs = Some (OK, s1) \<and> destroyRel s1 ''dept'' = Some (OK, s2) \<and>
     catalogs s2 r a U V Map.empty {#} \<and> disk s2 ''dept'' = None"
proof -
  obtain s :: minirel and r a Ur Ua where S: "catalogs s r a Ur Ua Map.empty {#}" "card (pinned s) + 3 \<le> numBufs s"
    "lay_size Ur = 3" "lay_size Ua = 3" "disk s ''dept'' = None" by (rule example_catalogs) (rule that)
  show ?thesis
    using createRel_destroyRel [OF S(1,2), where n = "''dept''" and xs = dept_attrs] S(3-5) dept_ok by fastforce
qed

end
