(* ===== verification/JoinLoops.thy ===== *)
theory JoinLoops
  imports Select
begin

text \<open>
  What the nested loops join computes. For every record of the outer relation a scan of the inner
  relation is opened, filtered by the value in the outer record, and closed again, while the
  object that fills the result relation stays open: three objects share the pool. The result
  relation gains exactly the joined projections of the pairs of records that satisfy the join
  condition.
\<close>

section \<open>The outer record\<close>

text \<open>While the page of the outer record stays pinned, the pointer to it stays good.\<close>

definition rec_held :: "'z db_scheme \<Rightarrow> fptr \<Rightarrow> nat \<times> int \<Rightarrow> byte list \<Rightarrow> bool" where
  "rec_held s f p r \<longleftrightarrow> (\<exists>x pg. 0 < pin_of s f x \<and> pool_frame s f x = Some (fst p) \<and> page_of s f x = Some pg \<and>
     (\<forall>y. 0 \<le> y \<and> y < int (length r) \<longrightarrow> pg (snd p + y) = bytes_mem r y))"

lemma rec_held_mem:
  assumes "db_inv s" "rec_held s f p r" "0 \<le> y" "y < int (length r)"
  shows "ptr_mem s p y = bytes_mem r y"
  using assms pool.view_frame [OF assms(1)] unfolding rec_held_def ptr_mem_def by fastforce

lemma rec_held_aside: "rec_held s f p r \<Longrightarrow> aside N F s s' \<Longrightarrow> f \<notin> F \<Longrightarrow> rec_held s' f p r"
  unfolding rec_held_def aside_def spared_def by metis

lemma rec_held_own:
  assumes o: "own s name h U B hdr xs x" and g: "HeapFileScan_getRecord s h = Some (OK, Some r)"
  obtains p where "scan_rec_ptr s h = Some p" "rec_held s (filePtr h) p r"
proof -
  have at: "heap_at s h U B hdr xs x" using o by (simp add: own_def)
  note H = heap_atD [OF at]
  obtain i where i: "curPage h = Frame i" "pool_frame s (filePtr h) x = Some i" using H(11) by blast
  obtain p where p: "scan_rec_ptr s h = Some p" "\<And>y. 0 \<le> y \<Longrightarrow> y < int (length r) \<Longrightarrow> ptr_mem s p y = bytes_mem r y"
    by (rule scan_rec_mem [OF g]) (rule that)
  have "fst p = i" using p(1) i(1) by (auto simp: scan_rec_ptr_def)
  then have "rec_held s (filePtr h) p r"
    unfolding rec_held_def using i(2) H(12) pool.view_frame [OF H(1) i(2)] p(2)
    by (intro exI [of _ x] exI [of _ "bufPool s ! i"]) (simp add: ptr_mem_def)
  then show thesis by (rule that [OF p(1)])
qed

section \<open>The joined records\<close>

definition join_rec :: "string \<Rightarrow> AttrDesc list \<Rightarrow> byte list \<Rightarrow> byte list \<Rightarrow> byte list" where
  "join_rec rel1 ads r1 r2 = concat (map (join_field rel1 (bytes_mem r1) (bytes_mem r2)) ads)"

definition fields_in :: "string \<Rightarrow> AttrDesc list \<Rightarrow> byte list \<Rightarrow> byte list \<Rightarrow> bool" where
  "fields_in rel1 ads r1 r2 \<longleftrightarrow> (\<forall>ad \<in> set ads. in_rec ad (if ad_relName ad = rel1 then r1 else r2))"

lemma length_join_rec: "length (join_rec rel1 ads r1 r2) = sum_list (map (\<lambda>ad. nat (ad_attrLen ad)) ads)"
  by (induction ads) (simp_all add: join_rec_def join_field_def project_def)

lemma join_rec_mem:
  assumes "fields_in rel1 ads r1 r2" "\<And>y. 0 \<le> y \<Longrightarrow> y < int (length r1) \<Longrightarrow> m1 y = bytes_mem r1 y"
    "\<And>y. 0 \<le> y \<Longrightarrow> y < int (length r2) \<Longrightarrow> m2 y = bytes_mem r2 y"
  shows "concat (map (join_field rel1 m1 m2) ads) = join_rec rel1 ads r1 r2"
proof -
  have "join_field rel1 m1 m2 ad = join_field rel1 (bytes_mem r1) (bytes_mem r2) ad" if "ad \<in> set ads" for ad
    using assms(1) that project_cong [OF assms(2)] project_cong [OF assms(3)] by (auto simp: fields_in_def join_field_def)
  then show ?thesis by (simp add: join_rec_def cong: map_cong)
qed

text \<open>The pairs that satisfy the condition, outer records first.\<close>

definition joined ::
  "string \<Rightarrow> AttrDesc list \<Rightarrow> (byte list \<Rightarrow> byte list \<Rightarrow> bool) \<Rightarrow> (RID \<times> byte list) list \<Rightarrow> (RID \<times> byte list) list \<Rightarrow> byte list list" where
  "joined rel1 ads P recs1 recs2 =
     concat (map (\<lambda>r1. map (join_rec rel1 ads r1) (filter (P r1) (map snd recs2))) (map snd recs1))"

lemma length_joined: "length (joined rel1 ads P recs1 recs2) \<le> length recs1 * length recs2"
proof (induction recs1)
  case (Cons a recs1)
  then show ?case using add_mono [OF length_filter_le [of "P (snd a) \<circ> snd" recs2] Cons]
    by (simp add: joined_def filter_map del: length_filter_le)
qed (simp add: joined_def)

section \<open>The inner loop\<close>

lemma inner_loop_spec:
  assumes "selecting s src inner U hdr xs rest dst res V hdr' ys B" "rec_held s f p r1" "f \<noteq> filePtr inner" "f \<noteq> filePtr res"
    "\<forall>r \<in> snd ` set rest. fields_in rel1 ads r1 r"
    "0 < sum_list (map (\<lambda>ad. nat (ad_attrLen ad)) ads)" "sum_list (map (\<lambda>ad. nat (ad_attrLen ad)) ads) \<le> 1000"
    "lay_size V + length rest \<le> 2147483647"
  shows "\<exists>s' h' res' V' hdr2 ys'. join_inner_loop s inner res p rel1 ads cnt =
      Some (s', h', res', cnt + int (length (filter (HeapFileScan_matchRec inner) (map snd rest)))) \<and>
    selecting s' src h' U hdr xs [] dst res' V' hdr2 ys' B \<and> filePtr h' = filePtr inner \<and> filePtr res' = filePtr res \<and>
    page_of s' (filePtr inner) = page_of s (filePtr inner) \<and> aside {src, dst} {filePtr inner, filePtr res} s s' \<and>
    contents_of s' (filePtr res) ys' =
      mset (map (join_rec rel1 ads r1) (filter (HeapFileScan_matchRec inner) (map snd rest))) + contents_of s (filePtr res) ys \<and>
    lay_size V' \<le> lay_size V + length (filter (HeapFileScan_matchRec inner) (map snd rest))"
  using assms
proof (induction rest arbitrary: s inner res V hdr' ys cnt rule: length_induct)
  case (1 rest)
  let ?P = "HeapFileScan_matchRec inner"
  obtain st out s2 h2 where N: "HeapFileScan_scanNext s inner = Some (st, out, s2, h2)" "same_scan inner h2" "filePtr h2 = filePtr inner"
    "page_of s2 = page_of s" "aside {src, dst} {filePtr inner, filePtr res} s s2"
    "case dropWhile (\<lambda>(rid, rec). \<not> ?P rec) rest of
       [] \<Rightarrow> st = FILEEOF \<and> selecting s2 src h2 U hdr xs [] dst res V hdr' ys B
     | (rid, rec) # rs \<Rightarrow> st = OK \<and> HeapFileScan_getRecord s2 h2 = Some (OK, Some rec) \<and>
         selecting s2 src h2 U hdr xs rs dst res V hdr' ys B"
    by (rule selecting_next [OF 1(2)]) (rule that)
  have drop: "filter ?P (map snd rest) =
      (case dropWhile (\<lambda>(rid, rec). \<not> ?P rec) rest of [] \<Rightarrow> [] | (rid, rec) # rs \<Rightarrow> rec # filter ?P (map snd rs))"
    by (induction rest) (auto simp del: dropWhile_eq_Nil_conv dropWhile_eq_Cons_conv split: list.splits)
  show ?case
  proof (cases "dropWhile (\<lambda>(rid, rec). \<not> ?P rec) rest")
    case Nil
    have "st = FILEEOF" "selecting s2 src h2 U hdr xs [] dst res V hdr' ys B" "filter ?P (map snd rest) = []"
      using N(6) drop unfolding Nil by simp_all
    moreover have "join_inner_loop s inner res p rel1 ads cnt = Some (s2, h2, res, cnt)"
      using N(1) calculation(1) by (subst join_inner_loop.simps) simp
    ultimately show ?thesis using N(3-5) by (intro exI [of _ s2] exI [of _ h2] exI [of _ res] exI [of _ V] exI [of _ hdr'] exI [of _ ys]) simp
  next
    case (Cons a rs)
    obtain rid r where a: "a = (rid, r)" by (cases a)
    have S: "st = OK" "HeapFileScan_getRecord s2 h2 = Some (OK, Some r)" "selecting s2 src h2 U hdr xs rs dst res V hdr' ys B"
      "filter ?P (map snd rest) = r # filter ?P (map snd rs)"
      using N(6) drop unfolding Cons a by simp_all
    have sub: "set ((rid, r) # rs) \<subseteq> set rest" "length rs < length rest"
      using Cons a set_dropWhileD [of _ "\<lambda>(rid, rec). \<not> ?P rec" rest] length_dropWhile_le [of "\<lambda>(rid, rec). \<not> ?P rec" rest] by auto
    have fi: "fields_in rel1 ads r1 r" "\<forall>r \<in> snd ` set rs. fields_in rel1 ads r1 r" using 1(6) sub(1) by force+
    have h2: "rec_held s2 f p r1" by (rule rec_held_aside [OF 1(3) N(5)]) (use 1(4,5) in simp)
    have inv2: "db_inv s2" using S(3) scan_own_pins(4) by (auto simp: selecting_def)
    obtain q where q: "scan_rec_ptr s2 h2 = Some q" "\<And>y. 0 \<le> y \<Longrightarrow> y < int (length r) \<Longrightarrow> ptr_mem s2 q y = bytes_mem r y"
      by (rule scan_rec_mem [OF S(2)]) (rule that)
    have data: "concat (map (join_field rel1 (ptr_mem s2 p) (ptr_mem s2 q)) ads) = join_rec rel1 ads r1 r"
      by (rule join_rec_mem [OF fi(1) rec_held_mem [OF inv2 h2] q(2)])
    have len: "join_rec rel1 ads r1 r \<noteq> []" "length (join_rec rel1 ads r1 r) \<le> 1000"
      using 1(7,8) unfolding length_join_rec [of rel1 ads r1 r, symmetric] by simp_all
    have sz: "lay_size V < 2147483647" using 1(9) sub(2) by simp
    obtain rid' s3 res3 V3 hdr3 ys3 where I: "InsertFileScan_insertRecord s2 res (join_rec rel1 ads r1 r) = Some (OK, Some rid', s3, res3)"
      "filePtr res3 = filePtr res" "selecting s3 src h2 U hdr xs rs dst res3 V3 hdr3 ys3 B" "lay_size V3 \<le> Suc (lay_size V)"
      "page_of s3 (filePtr h2) = page_of s2 (filePtr h2)" "aside {src, dst} {filePtr h2, filePtr res} s2 s3"
      "mset (chain_recs (page_of s3 (filePtr res)) ys3) = add_mset (rid', join_rec rel1 ads r1 r) (mset (chain_recs (page_of s2 (filePtr res)) ys))"
      by (rule selecting_insert [OF S(3) len sz]) (rule that)
    have step: "join_inner_loop s inner res p rel1 ads cnt = join_inner_loop s3 h2 res3 p rel1 ads (cnt + 1)"
      using N(1) S(1,2) q(1) data I(1) by (subst join_inner_loop.simps) simp
    have size: "lay_size V3 + length rs \<le> 2147483647" using I(4) 1(9) sub(2) by simp
    have h3: "rec_held s3 f p r1" "f \<noteq> filePtr h2" "f \<noteq> filePtr res3"
      using rec_held_aside [OF h2 I(6)] 1(4,5) N(3) I(2) by simp_all
    have m: "HeapFileScan_matchRec h2 = ?P" using same_scanD(2) [OF N(2)] by (simp add: fun_eq_iff)
    obtain s' h' res' V' hdr2 ys' where R: "join_inner_loop s3 h2 res3 p rel1 ads (cnt + 1) =
        Some (s', h', res', cnt + 1 + int (length (filter ?P (map snd rs))))"
      "selecting s' src h' U hdr xs [] dst res' V' hdr2 ys' B" "filePtr h' = filePtr h2" "filePtr res' = filePtr res3"
      "page_of s' (filePtr h2) = page_of s3 (filePtr h2)" "aside {src, dst} {filePtr h2, filePtr res3} s3 s'"
      "contents_of s' (filePtr res3) ys' = mset (map (join_rec rel1 ads r1) (filter ?P (map snd rs))) + contents_of s3 (filePtr res3) ys3"
      "lay_size V' \<le> lay_size V3 + length (filter ?P (map snd rs))"
      using 1(1) [rule_format, OF sub(2) I(3) h3 bspec [OF fi(2)] 1(7,8) size, of "cnt + 1"] unfolding m by blast
    have "contents_of s3 (filePtr res) ys3 = add_mset (join_rec rel1 ads r1 r) (contents_of s (filePtr res) ys)"
      using arg_cong [OF I(7), of "image_mset snd"] N(4) by simp
    then have "contents_of s' (filePtr res) ys' =
        mset (map (join_rec rel1 ads r1) (filter ?P (map snd rest))) + contents_of s (filePtr res) ys"
      using R(7) I(2) S(4) by simp
    moreover have "aside {src, dst} {filePtr inner, filePtr res} s s'"
      using aside_trans [OF N(5) aside_trans [OF I(6) [unfolded N(3)] R(6) [unfolded N(3) I(2)]]] .
    ultimately show ?thesis using step R(1-5,8) I(2,4,5) N(3,4) S(4)
      by (intro exI [of _ s'] exI [of _ h'] exI [of _ res'] exI [of _ V'] exI [of _ hdr2] exI [of _ ys']) simp
  qed
qed

section \<open>The join condition\<close>

text \<open>The two join attributes have the same type and length and lie inside the records; the
  difference of two integers is not the least int, where the mirrored comparison goes wrong.\<close>

definition join_ok :: "AttrDesc \<Rightarrow> AttrDesc \<Rightarrow> Datatype \<Rightarrow> (RID \<times> byte list) list \<Rightarrow> (RID \<times> byte list) list \<Rightarrow> bool" where
  "join_ok d1 d2 type recs1 recs2 \<longleftrightarrow> type_of_code (ad_attrType d2) = Some type \<and> ad_attrLen d1 = ad_attrLen d2 \<and>
     1 \<le> ad_attrLen d2 \<and> (type \<noteq> STRING \<longrightarrow> ad_attrLen d2 = 4) \<and> 0 \<le> ad_attrOffset d2 \<and> all_in_rec [d1] recs1 \<and> all_in_rec [d2] recs2 \<and>
     (type = INTEGER \<longrightarrow> (\<forall>r1 \<in> snd ` set recs1. \<forall>r2 \<in> snd ` set recs2.
        wrap32 (rd_int (bytes_mem r1) (ad_attrOffset d1) - rd_int (bytes_mem r2) (ad_attrOffset d2)) \<noteq> - (2 ^ 31)))"

definition join_holds :: "Operator \<Rightarrow> Datatype \<Rightarrow> AttrDesc \<Rightarrow> AttrDesc \<Rightarrow> byte list \<Rightarrow> byte list \<Rightarrow> bool" where
  "join_holds op type d1 d2 r1 r2 \<longleftrightarrow>
     join_cond op type (bytes_mem r1) (ad_attrOffset d1) (bytes_mem r2) (ad_attrOffset d2) (ad_attrLen d2)"

lemma strncmp_cong: "(\<And>i. i < n \<Longrightarrow> m (a + int i) = m2 (a + int i)) \<Longrightarrow> strncmp m a m' b n = strncmp m2 a m' b n"
proof (induction n arbitrary: a b)
  case (Suc n)
  have "m a = m2 a" using Suc.prems [of 0] by simp
  moreover have "strncmp m (a + 1) m' (b + 1) n = strncmp m2 (a + 1) m' (b + 1) n"
    by (rule Suc.IH) (use Suc.prems [of "Suc i" for i] in \<open>simp add: ac_simps\<close>)
  ultimately show ?case by simp
qed simp

lemma field_cong:
  assumes "\<And>y. 0 \<le> y \<Longrightarrow> y < int (length r) \<Longrightarrow> m y = bytes_mem r y" "in_rec d r"
  shows "ad_attrLen d = 4 \<Longrightarrow> rd_int m (ad_attrOffset d) = rd_int (bytes_mem r) (ad_attrOffset d)"
    "strncmp m (ad_attrOffset d) m' b (nat (ad_attrLen d)) = strncmp (bytes_mem r) (ad_attrOffset d) m' b (nat (ad_attrLen d))"
proof -
  have e: "m (ad_attrOffset d + i) = bytes_mem r (ad_attrOffset d + i)" if "0 \<le> i" "i < ad_attrLen d" for i
    using assms that by (simp add: in_rec_def)
  show "rd_int m (ad_attrOffset d) = rd_int (bytes_mem r) (ad_attrOffset d)" if "ad_attrLen d = 4"
    using e [of 0] e [of 1] e [of 2] e [of 3] that by (simp add: rd_int_def)
  show "strncmp m (ad_attrOffset d) m' b (nat (ad_attrLen d)) = strncmp (bytes_mem r) (ad_attrOffset d) m' b (nat (ad_attrLen d))"
    by (rule strncmp_cong) (use e in simp)
qed

lemma inner_filter:
  fixes h :: filescan
  assumes ok: "join_ok d1 d2 type recs1 recs2" and r1: "r1 \<in> snd ` set recs1"
    and m: "\<And>y. 0 \<le> y \<Longrightarrow> y < int (length r1) \<Longrightarrow> m y = bytes_mem r1 y"
  obtains h' where "HeapFileScan_startScan h (ad_attrOffset d2) (ad_attrLen d2) type (Some (\<lambda>x. m (ad_attrOffset d1 + x))) (flip_op op) = (OK, h')"
    "h' = h\<lparr>sc_offset := ad_attrOffset d2, sc_length := ad_attrLen d2, sc_type := type,
            sc_filter := Some (\<lambda>x. m (ad_attrOffset d1 + x)), sc_op := flip_op op\<rparr>"
    "\<And>r2. r2 \<in> snd ` set recs2 \<Longrightarrow> HeapFileScan_matchRec h' r2 = join_holds op type d1 d2 r1 r2"
proof -
  let ?h = "h\<lparr>sc_offset := ad_attrOffset d2, sc_length := ad_attrLen d2, sc_type := type,
     sc_filter := Some (\<lambda>x. m (ad_attrOffset d1 + x)), sc_op := flip_op op\<rparr>"
  have st: "HeapFileScan_startScan h (ad_attrOffset d2) (ad_attrLen d2) type (Some (\<lambda>x. m (ad_attrOffset d1 + x))) (flip_op op) = (OK, ?h)"
    using ok by (auto simp: HeapFileScan_startScan_def join_ok_def)
  have i1: "in_rec d1 r1" using ok r1 by (auto simp: join_ok_def all_in_rec_def)
  have C: "rd_int m (ad_attrOffset d1) = rd_int (bytes_mem r1) (ad_attrOffset d1)" if "ad_attrLen d1 = 4"
    by (rule field_cong(1) [OF m i1 that])
  have C2: "strncmp m (ad_attrOffset d1) m' b (nat (ad_attrLen d1)) = strncmp (bytes_mem r1) (ad_attrOffset d1) m' b (nat (ad_attrLen d1))" for m' b
    by (rule field_cong(2) [OF m i1])
  have "HeapFileScan_matchRec ?h r2 = join_holds op type d1 d2 r1 r2" if r2: "r2 \<in> snd ` set recs2" for r2
  proof -
    have i2: "ad_attrOffset d2 + ad_attrLen d2 \<le> int (length r2)" using ok r2 by (auto simp: join_ok_def all_in_rec_def in_rec_def)
    have l: "type \<noteq> STRING \<Longrightarrow> ad_attrLen d1 = 4" "ad_attrLen d1 = ad_attrLen d2" using ok by (auto simp: join_ok_def)
    have ov: "type = INTEGER \<Longrightarrow> wrap32 (rd_int m (ad_attrOffset d1) - rd_int (bytes_mem r2) (ad_attrOffset d2)) \<noteq> - (2 ^ 31)"
      using ok r1 r2 C [OF l(1)] unfolding join_ok_def by auto
    have "filter_diff type m (ad_attrOffset d1) (\<lambda>x. bytes_mem r2 (ad_attrOffset d2 + x)) (ad_attrLen d2)
        = filter_diff type (bytes_mem r1) (ad_attrOffset d1) (\<lambda>x. bytes_mem r2 (ad_attrOffset d2 + x)) (ad_attrLen d2)"
      using C C2 l by (cases type) (simp_all add: filter_diff_def rd_float_def)
    then show ?thesis using inner_scan_is_join_cond [OF st i2 ov] by (simp add: join_holds_def join_cond_def)
  qed
  then show thesis by (rule that [OF st refl])
qed

section \<open>One outer record\<close>

lemma selecting_beside:
  assumes sel: "selecting s src h U hdr xs rest dst res V hdr' ys B" and a: "aside N F s s'"
    and F: "filePtr h \<notin> F" "filePtr res \<notin> F" and inv: "db_inv s'" and B': "pin_of s' = with_obj h (with_obj res B')"
      "\<And>g q. 0 \<le> B' g q" "finite (busy B')" "\<And>q. B' (filePtr h) q = 0" "\<And>q. B' (filePtr res) q = 0" "card (busy B') + 5 \<le> numBufs s"
  shows "selecting s' src h U hdr xs rest dst res V hdr' ys B'"
proof -
  have A: "src \<noteq> dst" "filePtr h \<noteq> filePtr res" "scan_own s src h U (with_obj res B) hdr xs rest"
    "own s dst res V (with_obj h B) hdr' ys (last ys)"
    using sel by (simp_all add: selecting_def)
  have sp: "spared (filePtr h) s s'" "spared (filePtr res) s s'" using a F by (simp_all add: aside_def)
  note W = busy_with_obj [where h = h, OF B'(3,2)] and W' = busy_with_obj [where h = res, OF B'(3,2)]
  have "scan_own s' src h U (with_obj res B') hdr xs rest"
    by (rule scan_own_beside [OF A(3) sp(1) inv B'(1) with_obj_nonneg [OF B'(2)] _ W'(1)])
      (use A(2) B'(4,6) W'(2) in \<open>simp_all add: with_obj_other\<close>)
  moreover have "own s' dst res V (with_obj h B') hdr' ys (last ys)"
    by (rule own_beside [OF A(4) sp(2) inv _ with_obj_nonneg [OF B'(2)] _ W(1)])
      (use A(2) B'(1,5,6) W(2) with_obj_swap in \<open>simp_all add: with_obj_other\<close>)
  moreover have "numBufs s' = numBufs s" using a by (simp add: aside_def)
  ultimately show ?thesis using A B' by (simp add: selecting_def)
qed

text \<open>The scan of the inner relation for one record of the outer relation.\<close>

lemma join_inner_spec:
  fixes outer :: filescan and s :: "'z db_scheme"
  assumes sel: "selecting s src outer U hdr xs rest dst res V hdr' ys B" and st: "stored s (ad_relName d2) n irecs" and ne: "ad_relName d2 \<noteq> dst"
    and held: "rec_held s (filePtr outer) p r1" and ok: "join_ok d1 d2 type recs1 irecs" and r1: "r1 \<in> snd ` set recs1"
    and fi: "\<forall>r \<in> snd ` set irecs. fields_in (ad_relName d1) ads r1 r"
    and w: "0 < sum_list (map (\<lambda>ad. nat (ad_attrLen ad)) ads)" "sum_list (map (\<lambda>ad. nat (ad_attrLen ad)) ads) \<le> 1000"
    and room: "card (busy B) + 7 \<le> numBufs s" "lay_size V + length irecs \<le> 2147483647"
  obtains s' res' V' hdr2 ys' F where "join_inner s res p d1 d2 (flip_op op) ads cnt =
      Some (OK, s', res', cnt + int (length (filter (join_holds op type d1 d2 r1) (map snd irecs))))"
    "selecting s' src outer U hdr xs rest dst res' V' hdr2 ys' B" "filePtr res' = filePtr res"
    "page_of s' (filePtr outer) = page_of s (filePtr outer)" "stored s' (ad_relName d2) n irecs" "aside {ad_relName d2, dst} F s s'"
    "\<And>f. f \<in> F \<Longrightarrow> f = filePtr res \<or> files s f = None" "filePtr outer \<notin> F"
    "contents_of s' (filePtr res) ys' = mset (map (join_rec (ad_relName d1) ads r1) (filter (join_holds op type d1 d2 r1) (map snd irecs)))
       + contents_of s (filePtr res) ys"
    "lay_size V' \<le> lay_size V + length (filter (join_holds op type d1 d2 r1) (map snd irecs))"
proof -
  let ?src2 = "ad_relName d2" and ?P = "join_holds op type d1 d2 r1" and ?o = "filePtr outer" and ?r = "filePtr res"
  have S: "?o \<noteq> ?r" "scan_own s src outer U (with_obj res B) hdr xs rest" "own s dst res V (with_obj outer B) hdr' ys (last ys)"
    "\<And>g q. 0 \<le> B g q" "finite (busy B)" "\<And>q. B ?o q = 0" "\<And>q. B ?r q = 0" "src \<noteq> dst"
    using sel by (simp_all add: selecting_def)
  have inv: "db_inv s" by (rule own_pins(5) [OF S(3)])
  have p0: "pin_of s = with_obj res (with_obj outer B)" by (rule own_pins(1) [OF S(3)])
  note Wo = busy_with_obj [where h = outer, OF S(5,4)]
  have nno: "\<And>g q. 0 \<le> with_obj outer B g q" by (rule with_obj_nonneg) (rule S(4))
  note Wr = busy_with_obj [where h = res, OF Wo(1) nno]
  have room0: "card (pinned s) + 2 \<le> numBufs s" using Wo(2) Wr(2) room(1) unfolding p0 by linarith
  obtain s1 U2 hdr2 zs and h :: filescan where A: "HeapFileScan_new s ?src2 = Some (OK, Some h, s1)"
    "scan_own s1 ?src2 h U2 (pin_of s) hdr2 zs irecs" "lay_size U2 = n" "apart ?src2 (filePtr h) s s1" "files s (filePtr h) = None"
    "chain_recs (page_of s1 (filePtr h)) zs = irecs"
    by (rule HeapFileScan_new_own [OF inv st room0]) (rule that)
  note P1 = scan_own_pins [OF A(2)]
  have open0: "files s ?o \<noteq> None" "files s ?r \<noteq> None" using S(2,3) by (auto simp: scan_own_def own_def sole_user_def)
  have fne: "?o \<noteq> filePtr h" "?r \<noteq> filePtr h" using A(5) open0 by auto
  note Wh = busy_with_obj [where h = h, OF S(5,4)]
  have a1: "aside {?src2} {filePtr h} s s1" by (rule apart_aside [OF A(4)]) (simp_all add: P1(1) with_obj_same)
  have nn1: "\<And>g q. 0 \<le> with_obj h B g q" by (rule with_obj_nonneg) (rule S(4))
  have p1: "pin_of s1 = with_obj outer (with_obj res (with_obj h B))" unfolding P1(1) p0 using with_obj_swap by metis
  have z1: "\<And>q. with_obj h B ?o q = 0" "\<And>q. with_obj h B ?r q = 0" using fne S(6,7) by (simp_all add: with_obj_other)
  have c1: "card (busy (with_obj h B)) + 5 \<le> numBufs s" using Wh(2) room(1) by linarith
  have f1: "?o \<notin> {filePtr h}" "?r \<notin> {filePtr h}" using fne by simp_all
  have sel1: "selecting s1 src outer U hdr xs rest dst res V hdr' ys (with_obj h B)"
    by (rule selecting_beside [OF sel a1 f1 P1(4) p1 nn1 Wh(1) z1 c1])
  have held1: "rec_held s1 ?o p r1" by (rule rec_held_aside [OF held a1 f1(1)])
  obtain h1 :: filescan where D: "HeapFileScan_startScan h (ad_attrOffset d2) (ad_attrLen d2) type
      (Some (\<lambda>x. ptr_mem s1 p (ad_attrOffset d1 + x))) (flip_op op) = (OK, h1)"
    "h1 = h\<lparr>sc_offset := ad_attrOffset d2, sc_length := ad_attrLen d2, sc_type := type,
            sc_filter := Some (\<lambda>x. ptr_mem s1 p (ad_attrOffset d1 + x)), sc_op := flip_op op\<rparr>"
    "\<And>r2. r2 \<in> snd ` set irecs \<Longrightarrow> HeapFileScan_matchRec h1 r2 = ?P r2"
    by (rule inner_filter [OF ok r1 rec_held_mem [OF P1(4) held1]]) (assumption, assumption, rule that)
  have e1: "filePtr h1 = filePtr h" "\<And>B. with_obj h1 B = with_obj h B" by (simp_all add: D(2) with_obj_def)
  have n1: "numBufs s1 = numBufs s" using a1 by (simp add: aside_def)
  have zo: "\<And>q. with_obj outer B (filePtr h) q = 0" "\<And>q. with_obj outer B ?r q = 0"
    using P1(3) fne S(1,7) unfolding p0 by (auto simp: with_obj_other)
  have sel2: "selecting s1 ?src2 h1 U2 hdr2 zs irecs dst res V hdr' ys (with_obj outer B)"
    using scan_own_startScan [OF A(2)] sel1 ne fne e1 nno Wo room(1) n1 zo p0 with_obj_swap [of h outer B]
    unfolding selecting_def D(2) by simp
  have hl: "rec_held s1 ?o p r1" "?o \<noteq> filePtr h1" "?o \<noteq> ?r" using held1 fne e1 S(1) by simp_all
  have flt: "filter (HeapFileScan_matchRec h1) (map snd irecs) = filter ?P (map snd irecs)" by (rule filter_cong) (use D(3) in auto)
  obtain s2 h2 res2 V2 hdr3 ys2 where L: "join_inner_loop s1 h1 res p (ad_relName d1) ads cnt = Some (s2, h2, res2, cnt + int (length (filter ?P (map snd irecs))))"
    "selecting s2 ?src2 h2 U2 hdr2 zs [] dst res2 V2 hdr3 ys2 (with_obj outer B)" "filePtr h2 = filePtr h1" "filePtr res2 = ?r"
    "page_of s2 (filePtr h1) = page_of s1 (filePtr h1)" "aside {?src2, dst} {filePtr h1, ?r} s1 s2"
    "contents_of s2 ?r ys2 = mset (map (join_rec (ad_relName d1) ads r1) (filter ?P (map snd irecs))) + contents_of s1 ?r ys"
    "lay_size V2 \<le> lay_size V + length (filter ?P (map snd irecs))"
    using inner_loop_spec [OF sel2 hl fi w room(2), of cnt] unfolding flt by blast
  have sc2: "scan_own s2 ?src2 h2 U2 (with_obj res2 (with_obj outer B)) hdr2 zs []"
    and o2: "own s2 dst res2 V2 (with_obj h2 (with_obj outer B)) hdr3 ys2 (last ys2)"
    using L(2) by (simp_all add: selecting_def)
  obtain x where x: "own s2 ?src2 h2 U2 (with_obj res2 (with_obj outer B)) hdr2 zs x" using sc2 by (auto simp: scan_own_def)
  obtain s3 where E: "HeapFileScan_delete s2 h2 = Some s3" "db_inv s3" "apart ?src2 (filePtr h2) s2 s3"
    "pin_of s3 = with_obj res2 (with_obj outer B)" "stored s3 ?src2 (lay_size U2) (chain_recs (page_of s2 (filePtr h2)) zs)"
    by (rule HeapFileScan_delete_own [OF x]) (rule that)
  let ?F = "{filePtr h, ?r}"
  have a3: "aside {?src2, dst} ?F s2 s3"
    by (rule apart_aside [OF E(3)]) (use E(4) own_pins(1) [OF x] L(3) e1 in \<open>simp_all add: with_obj_same\<close>)
  have a: "aside {?src2, dst} ?F s s3"
    using aside_trans [OF aside_mono [OF a1, of "{?src2, dst}" ?F] aside_trans [OF L(6) [unfolded e1] a3]] by simp
  have n2: "numBufs s2 = numBufs s" using a a3 by (simp add: aside_def)
  have fne2: "filePtr res2 \<noteq> filePtr h2" using L(3,4) e1 fne by simp
  have z2: "\<And>q. with_obj outer B (filePtr res2) q = 0" using zo(2) L(4) by simp
  have c2: "card (busy (with_obj outer B)) + 2 \<le> numBufs s2" using Wo(2) room(1) n2 by linarith
  have o3: "own s3 dst res2 V2 (with_obj outer B) hdr3 ys2 (last ys2)"
    by (rule own_beside [OF o2 apart_spared [OF E(3) fne2] E(2,4) nno z2 Wo(1) c2])
  have sp: "spared ?o s s3" using a fne S(1) by (auto simp: aside_def)
  have nr: "\<And>g q. 0 \<le> with_obj res2 B g q" by (rule with_obj_nonneg) (rule S(4))
  note Wr2 = busy_with_obj [where h = res2, OF S(5,4)]
  have p3: "pin_of s3 = with_obj outer (with_obj res2 B)" using E(4) with_obj_swap by metis
  have z3: "\<And>q. with_obj res2 B ?o q = 0" using S(1,6) L(4) by (simp add: with_obj_other)
  have c3: "card (busy (with_obj res2 B)) + 2 \<le> numBufs s" using Wr2(2) room(1) by linarith
  have sc3: "scan_own s3 src outer U (with_obj res2 B) hdr xs rest"
    by (rule scan_own_beside [OF S(2) sp E(2) p3 nr z3 Wr2(1) c3])
  have sel3: "selecting s3 src outer U hdr xs rest dst res2 V2 hdr3 ys2 B"
    using S sc3 o3 L(4) room(1) a by (simp add: selecting_def aside_def)
  have t: "type_of_code (ad_attrType d2) = Some type" using ok by (simp add: join_ok_def)
  have run: "join_inner s res p d1 d2 (flip_op op) ads cnt = Some (OK, s3, res2, cnt + int (length (filter ?P (map snd irecs))))"
    using A(1) t D(1) L(1) E(1) by (simp add: join_inner_def)
  have recs: "chain_recs (page_of s2 (filePtr h2)) zs = irecs" using L(3,5) e1 A(6) by simp
  have st3: "stored s3 ?src2 n irecs" using E(5) recs A(3) by simp
  have cont: "contents_of s3 ?r ys2 = mset (map (join_rec (ad_relName d1) ads r1) (filter ?P (map snd irecs))) + contents_of s ?r ys"
    using L(7) apartD(6) [OF E(3) fne2] apartD(6) [OF A(4) fne(2)] L(4) by simp
  have pg: "page_of s3 ?o = page_of s ?o" using sp by (simp add: spared_def)
  have F: "f = ?r \<or> files s f = None" if "f \<in> ?F" for f using that A(5) by auto
  have Fo: "?o \<notin> ?F" using fne S(1) by simp
  show thesis by (rule that [OF run sel3 L(4) pg st3 a F Fo cont L(8)])
qed

section \<open>The outer loop\<close>

lemma joined_Cons: "joined rel1 ads P ((rid, r) # recs1) recs2 =
    map (join_rec rel1 ads r) (filter (P r) (map snd recs2)) @ joined rel1 ads P recs1 recs2"
  by (simp add: joined_def)

lemma length_joined_Cons:
  "length (joined rel1 ads P ((rid, r) # recs1) recs2) = length (filter (P r) (map snd recs2)) + length (joined rel1 ads P recs1 recs2)"
  by (simp add: joined_Cons)

lemma join_outer_spec:
  assumes "selecting s src outer U hdr xs rest dst res V hdr' ys B" "\<forall>r. HeapFileScan_matchRec outer r"
    "stored s (ad_relName d2) n irecs" "ad_relName d2 \<notin> {src, dst}" "join_ok d1 d2 type recs1 irecs" "snd ` set rest \<subseteq> snd ` set recs1"
    "\<forall>r1 \<in> snd ` set rest. \<forall>r \<in> snd ` set irecs. fields_in (ad_relName d1) ads r1 r"
    "0 < sum_list (map (\<lambda>ad. nat (ad_attrLen ad)) ads)" "sum_list (map (\<lambda>ad. nat (ad_attrLen ad)) ads) \<le> 1000"
    "card (busy B) + 7 \<le> numBufs s" "lay_size V + length rest * length irecs \<le> 2147483647"
  shows "\<exists>s' o' res' V' hdr2 ys' F. join_outer_loop s outer res d1 d2 (flip_op op) ads cnt =
      Some (OK, s', o', res', cnt + int (length (joined (ad_relName d1) ads (join_holds op type d1 d2) rest irecs))) \<and>
    selecting s' src o' U hdr xs [] dst res' V' hdr2 ys' B \<and> filePtr o' = filePtr outer \<and> filePtr res' = filePtr res \<and>
    page_of s' (filePtr outer) = page_of s (filePtr outer) \<and> stored s' (ad_relName d2) n irecs \<and> aside {src, ad_relName d2, dst} F s s' \<and>
    (\<forall>f \<in> F. f = filePtr outer \<or> f = filePtr res \<or> files s f = None) \<and>
    contents_of s' (filePtr res) ys' =
      mset (joined (ad_relName d1) ads (join_holds op type d1 d2) rest irecs) + contents_of s (filePtr res) ys"
  using assms
proof (induction rest arbitrary: s outer res V hdr' ys cnt)
  case Nil
  obtain st out s2 h2 where N: "HeapFileScan_scanNext s outer = Some (st, out, s2, h2)" "same_scan outer h2" "filePtr h2 = filePtr outer"
    "page_of s2 = page_of s" "aside {src, dst} {filePtr outer, filePtr res} s s2"
    "case dropWhile (\<lambda>(rid, rec). \<not> HeapFileScan_matchRec outer rec) [] of
       [] \<Rightarrow> st = FILEEOF \<and> selecting s2 src h2 U hdr xs [] dst res V hdr' ys B
     | (rid, rec) # rs \<Rightarrow> st = OK \<and> HeapFileScan_getRecord s2 h2 = Some (OK, Some rec) \<and>
         selecting s2 src h2 U hdr xs rs dst res V hdr' ys B"
    by (rule selecting_next [OF Nil(1)]) (rule that)
  have st2: "stored s2 (ad_relName d2) n irecs" using N(5) Nil(3,4) by (simp add: aside_def)
  have a: "aside {src, ad_relName d2, dst} {filePtr outer, filePtr res} s s2" by (rule aside_mono [OF N(5)]) auto
  have "join_outer_loop s outer res d1 d2 (flip_op op) ads cnt = Some (OK, s2, h2, res, cnt)"
    using N(1,6) by (subst join_outer_loop.simps) simp
  then show ?case using N(3,4,6) st2 a
    by (intro exI [of _ s2] exI [of _ h2] exI [of _ res] exI [of _ V] exI [of _ hdr'] exI [of _ ys]
        exI [of _ "{filePtr outer, filePtr res}"]) (simp add: joined_def)
next
  case (Cons a rest)
  obtain rid r1 where a: "a = (rid, r1)" by (cases a)
  let ?rel = "ad_relName d1" and ?src2 = "ad_relName d2" and ?P = "join_holds op type d1 d2"
  let ?new = "map (join_rec ?rel ads r1) (filter (?P r1) (map snd irecs))"
  obtain st out s2 h2 where N: "HeapFileScan_scanNext s outer = Some (st, out, s2, h2)" "same_scan outer h2" "filePtr h2 = filePtr outer"
    "page_of s2 = page_of s" "aside {src, dst} {filePtr outer, filePtr res} s s2"
    "case dropWhile (\<lambda>(rid, rec). \<not> HeapFileScan_matchRec outer rec) (a # rest) of
       [] \<Rightarrow> st = FILEEOF \<and> selecting s2 src h2 U hdr xs [] dst res V hdr' ys B
     | (rid, rec) # rs \<Rightarrow> st = OK \<and> HeapFileScan_getRecord s2 h2 = Some (OK, Some rec) \<and>
         selecting s2 src h2 U hdr xs rs dst res V hdr' ys B"
    by (rule selecting_next [OF Cons(2)]) (rule that)
  have S: "st = OK" "HeapFileScan_getRecord s2 h2 = Some (OK, Some r1)" "selecting s2 src h2 U hdr xs rest dst res V hdr' ys B"
    using N(6) Cons(3) a by simp_all
  obtain x where x: "own s2 src h2 U (with_obj res B) hdr xs x" using S(3) by (auto simp: selecting_def scan_own_def)
  obtain p where p: "scan_rec_ptr s2 h2 = Some p" "rec_held s2 (filePtr h2) p r1"
    by (rule rec_held_own [OF x S(2)]) (rule that)
  have st2: "stored s2 ?src2 n irecs" using N(5) Cons(4,5) by (simp add: aside_def)
  have n2: "numBufs s2 = numBufs s" using N(5) by (simp add: aside_def)
  have r1: "r1 \<in> snd ` set recs1" "?src2 \<noteq> dst" using Cons(5,7) a by auto
  have fi: "\<forall>r \<in> snd ` set irecs. fields_in ?rel ads r1 r" "\<forall>r1 \<in> snd ` set rest. \<forall>r \<in> snd ` set irecs. fields_in ?rel ads r1 r"
    using Cons(8) a by auto
  have sz: "lay_size V + length irecs \<le> 2147483647" using Cons(12) by simp
  obtain s3 res3 V3 hdr3 ys3 F3 where I: "join_inner s2 res p d1 d2 (flip_op op) ads cnt =
      Some (OK, s3, res3, cnt + int (length (filter (?P r1) (map snd irecs))))"
    "selecting s3 src h2 U hdr xs rest dst res3 V3 hdr3 ys3 B" "filePtr res3 = filePtr res"
    "page_of s3 (filePtr h2) = page_of s2 (filePtr h2)" "stored s3 ?src2 n irecs" "aside {?src2, dst} F3 s2 s3"
    "\<And>f. f \<in> F3 \<Longrightarrow> f = filePtr res \<or> files s2 f = None" "filePtr h2 \<notin> F3"
    "contents_of s3 (filePtr res) ys3 = mset ?new + contents_of s2 (filePtr res) ys"
    "lay_size V3 \<le> lay_size V + length (filter (?P r1) (map snd irecs))"
    by (rule join_inner_spec [OF S(3) st2 r1(2) p(2) Cons(6) r1(1) fi(1) Cons(9,10) Cons(11) [folded n2] sz, of op cnt]) (rule that)
  have step: "join_outer_loop s outer res d1 d2 (flip_op op) ads cnt =
      join_outer_loop s3 h2 res3 d1 d2 (flip_op op) ads (cnt + int (length (filter (?P r1) (map snd irecs))))"
    using N(1) S(1,2) p(1) I(1) by (subst join_outer_loop.simps) simp
  have m: "\<forall>r. HeapFileScan_matchRec h2 r" using same_scanD(2) [OF N(2)] Cons(3) by simp
  have n3: "card (busy B) + 7 \<le> numBufs s3" using I(6) n2 Cons(11) by (simp add: aside_def)
  have "length (filter (?P r1) (map snd irecs)) \<le> length irecs" using length_filter_le [of "?P r1" "map snd irecs"] by simp
  moreover have "lay_size V + (length irecs + length rest * length irecs) \<le> 2147483647" using Cons(12) by simp
  ultimately have size: "lay_size V3 + length rest * length irecs \<le> 2147483647" using I(10) by linarith
  have sub: "snd ` set rest \<subseteq> snd ` set recs1" using Cons(7) by auto
  obtain s' o' res' V' hdr2 ys' F where R: "join_outer_loop s3 h2 res3 d1 d2 (flip_op op) ads (cnt + int (length (filter (?P r1) (map snd irecs)))) =
      Some (OK, s', o', res', cnt + int (length (filter (?P r1) (map snd irecs))) + int (length (joined ?rel ads ?P rest irecs)))"
    "selecting s' src o' U hdr xs [] dst res' V' hdr2 ys' B" "filePtr o' = filePtr h2" "filePtr res' = filePtr res3"
    "page_of s' (filePtr h2) = page_of s3 (filePtr h2)" "stored s' ?src2 n irecs" "aside {src, ?src2, dst} F s3 s'"
    "\<forall>f \<in> F. f = filePtr h2 \<or> f = filePtr res3 \<or> files s3 f = None"
    "contents_of s' (filePtr res3) ys' = mset (joined ?rel ads ?P rest irecs) + contents_of s3 (filePtr res3) ys3"
    using Cons.IH [OF I(2) m I(5) Cons(5,6) sub fi(2) Cons(9,10) n3 size, of "cnt + int (length (filter (?P r1) (map snd irecs)))"] by blast
  let ?F = "{filePtr outer, filePtr res} \<union> F3 \<union> F"
  have a13: "aside {src, ?src2, dst} ?F s s'"
    by (rule aside_trans [OF aside_mono [OF N(5)] aside_trans [OF aside_mono [OF I(6)] aside_mono [OF R(7)]]]) auto
  have k2: "files s2 f = files s f" if "f \<notin> {filePtr outer, filePtr res}" for f using N(5) that by (simp add: aside_def spared_def)
  have k3: "files s3 f = files s2 f" if "f \<notin> F3" for f using I(6) that by (simp add: aside_def spared_def)
  have F: "f = filePtr outer \<or> f = filePtr res \<or> files s f = None" if "f \<in> ?F" for f
  proof (cases "f = filePtr outer \<or> f = filePtr res")
    case False
    then have "files s2 f = files s f" "f \<in> F3 \<Longrightarrow> files s2 f = None" "f \<notin> F3 \<Longrightarrow> files s3 f = None"
      using k2 I(7) [of f] R(8) that N(3) I(3) by auto
    then show ?thesis using k3 by (cases "f \<in> F3") auto
  qed auto
  have c: "contents_of s' (filePtr res) ys' = mset (joined ?rel ads ?P (a # rest) irecs) + contents_of s (filePtr res) ys"
    using R(9) I(3,9) N(4) a by (simp add: joined_Cons)
  have run: "join_outer_loop s outer res d1 d2 (flip_op op) ads cnt =
      Some (OK, s', o', res', cnt + int (length (joined ?rel ads ?P (a # rest) irecs)))"
    using step R(1) a by (simp add: length_joined_Cons)
  have pg: "page_of s' (filePtr outer) = page_of s (filePtr outer)" using R(5) I(4) N(3,4) by simp
  show ?case
    using run R(2,3,4,6) N(3) I(3) pg a13 F c
    by (intro exI [of _ s'] exI [of _ o'] exI [of _ res'] exI [of _ V'] exI [of _ hdr2] exI [of _ ys'] exI [of _ ?F]) simp
qed

section \<open>QU_NL_Join\<close>

lemma put_out_selecting [simp]:
  "selecting (put_out s t) src h U hdr xs rest dst res V hdr' ys B = selecting s src h U hdr xs rest dst res V hdr' ys B"
  by (simp add: selecting_def scan_own_def scan_rest_def)

text \<open>The result relation is opened first.\<close>

lemma join_open:
  assumes inv: "db_inv s" and o: "stored s src k recs" and t: "stored s dst m old" and ne: "src \<noteq> dst" and room: "card (pinned s) + 5 \<le> numBufs s"
  obtains s1 res V hdr ys s2 U hdr2 xs and h :: filescan where "InsertFileScan_new s dst = Some (OK, Some res, s1)"
    "HeapFileScan_new s1 src = Some (OK, Some h, s2)" "selecting s2 src h U hdr2 xs recs dst res V hdr ys (pin_of s)" "lay_size U = k" "lay_size V = m"
    "chain_recs (page_of s2 (filePtr h)) xs = recs" "chain_recs (page_of s2 (filePtr res)) ys = old" "\<And>r. HeapFileScan_matchRec h r"
    "aside {src, dst} {filePtr h, filePtr res} s s2" "files s (filePtr h) = None" "files s (filePtr res) = None"
proof -
  let ?B = "pin_of s"
  have room0: "card (pinned s) + 2 \<le> numBufs s" using room by simp
  obtain s1 res V hdr ys where A: "InsertFileScan_new s dst = Some (OK, Some res, s1)" "own s1 dst res V ?B hdr ys (last ys)"
    "lay_size V = m" "chain_recs (page_of s1 (filePtr res)) ys = old" "apart dst (filePtr res) s s1" "files s (filePtr res) = None"
    by (rule InsertFileScan_new_own [OF inv t room0]) (rule that)
  note P1 = own_pins [OF A(2)]
  have n1: "numBufs s1 = numBufs s" using apartD(1) [OF A(5)] by simp
  have o1: "stored s1 src k recs" using apartD(4) [OF A(5) ne o] .
  note W1 = busy_with_obj [where h = res, OF P1(6,3)]
  have room1: "card (pinned s1) + 2 \<le> numBufs s1" using W1(2) room n1 unfolding P1(1) by linarith
  obtain s2 U hdr2 xs and h :: filescan where C: "HeapFileScan_new s1 src = Some (OK, Some h, s2)"
    "scan_own s2 src h U (pin_of s1) hdr2 xs recs" "lay_size U = k" "apart src (filePtr h) s1 s2" "files s1 (filePtr h) = None"
    "chain_recs (page_of s2 (filePtr h)) xs = recs" "\<And>r. HeapFileScan_matchRec h r"
    by (rule HeapFileScan_new_own [OF P1(5) o1 room1]) (rule that)
  have "files s1 (filePtr res) \<noteq> None" using A(2) by (auto simp: own_def sole_user_def)
  then have fne: "filePtr res \<noteq> filePtr h" using C(5) by auto
  note P2 = scan_own_pins [OF C(2)]
  note Wh = busy_with_obj [where h = h, OF P1(6,3)]
  have nnh: "\<And>g q. 0 \<le> with_obj h ?B g q" by (rule with_obj_nonneg) (rule P1(3))
  have p2: "pin_of s2 = with_obj res (with_obj h ?B)" unfolding P2(1) P1(1) using with_obj_swap by metis
  have zr: "\<And>q. with_obj h ?B (filePtr res) q = 0" using fne P1(4) by (simp add: with_obj_other)
  have zh: "\<And>q. ?B (filePtr h) q = 0" using P2(3) fne unfolding P1(1) by (simp add: with_obj_other)
  have c2: "card (busy (with_obj h ?B)) + 2 \<le> numBufs s1" using Wh(2) room n1 by linarith
  have o2: "own s2 dst res V (with_obj h ?B) hdr ys (last ys)"
    by (rule own_beside [OF A(2) apart_spared [OF C(4) fne] P2(4) p2 nnh zr Wh(1) c2])
  have sel: "selecting s2 src h U hdr2 xs recs dst res V hdr ys ?B"
    using ne fne C(2) o2 P1 zh room n1 apartD(1) [OF C(4)] by (simp add: selecting_def)
  have a1: "aside {src, dst} {filePtr h, filePtr res} s s1"
    by (rule apart_aside [OF A(5)]) (use P1(1) in \<open>simp_all add: with_obj_same\<close>)
  have a2: "aside {src, dst} {filePtr h, filePtr res} s1 s2"
    by (rule apart_aside [OF C(4)]) (use P2(1) in \<open>simp_all add: with_obj_same\<close>)
  have old: "chain_recs (page_of s2 (filePtr res)) ys = old" using A(4) apartD(6) [OF C(4) fne] by simp
  have h0: "files s (filePtr h) = None" using C(5) apartD(5) [OF A(5), of "filePtr h"] fne by simp
  show thesis by (rule that [OF A(1) C(1) sel C(3) A(3) C(6) old C(7) aside_trans [OF a1 a2] h0 A(6)])
qed

lemma cat_read_out:
  fixes s s' :: "'z minirel_scheme"
  assumes "cat_read s s'"
  shows "out s' = out s"
  using assms unfolding cat_read_def by (cases s; cases s'; simp)

lemma join_run:
  fixes s :: "'z minirel_scheme"
  assumes inv: "db_inv s" and o: "stored s (ad_relName d1) k orecs" and i: "stored s (ad_relName d2) n irecs" and dst: "stored s dst m old"
    and ne: "distinct [ad_relName d1, ad_relName d2, dst]" and ok: "join_ok d1 d2 type orecs irecs"
    and fi: "\<forall>r1 \<in> snd ` set orecs. \<forall>r \<in> snd ` set irecs. fields_in (ad_relName d1) ads r1 r"
    and w: "0 < sum_list (map (\<lambda>ad. nat (ad_attrLen ad)) ads)" "sum_list (map (\<lambda>ad. nat (ad_attrLen ad)) ads) \<le> 1000"
    and room: "card (pinned s) + 7 \<le> numBufs s" "m + length orecs * length irecs \<le> 2147483647"
  obtains s1 res s2 s3 outer res3 cnt s4 s5 h2 h3 m' new F where "InsertFileScan_new s dst = Some (OK, Some res, s1)"
    "HeapFileScan_new s1 (ad_relName d1) = Some (OK, Some h2, s2)" "HeapFileScan_startScan h2 0 0 STRING None EQ = (OK, h3)"
    "join_outer_loop s2 h3 res d1 d2 (flip_op op) ads 0 = Some (OK, s3, outer, res3, cnt)"
    "cnt = int (length (joined (ad_relName d1) ads (join_holds op type d1 d2) orecs irecs))"
    "HeapFileScan_delete (put_out s3 t) outer = Some s4" "InsertFileScan_delete s4 res3 = Some s5" "db_inv s3" "db_inv s5"
    "stored s5 (ad_relName d1) k orecs" "stored s5 (ad_relName d2) n irecs" "stored s5 dst m' new"
    "mset (map snd new) = mset (joined (ad_relName d1) ads (join_holds op type d1 d2) orecs irecs) + mset (map snd old)"
    "pin_of s5 = pin_of s" "aside {ad_relName d1, ad_relName d2, dst} F s s3" "aside {ad_relName d1, ad_relName d2, dst} F (put_out s3 t) s5"
    "\<And>f. f \<in> F \<Longrightarrow> files s f = None"
proof -
  let ?src = "ad_relName d1" and ?src2 = "ad_relName d2" and ?B = "pin_of s" and ?J = "joined (ad_relName d1) ads (join_holds op type d1 d2) orecs irecs"
  have ne': "?src \<noteq> dst" "?src2 \<notin> {?src, dst}" "?src2 \<noteq> dst" using ne by auto
  have room0: "card (pinned s) + 5 \<le> numBufs s" using room by simp
  obtain s1 res V hdr ys s2 U hdr2 xs and h :: filescan where A: "InsertFileScan_new s dst = Some (OK, Some res, s1)"
    "HeapFileScan_new s1 ?src = Some (OK, Some h, s2)" "selecting s2 ?src h U hdr2 xs orecs dst res V hdr ys ?B" "lay_size U = k" "lay_size V = m"
    "chain_recs (page_of s2 (filePtr h)) xs = orecs" "chain_recs (page_of s2 (filePtr res)) ys = old" "\<And>r. HeapFileScan_matchRec h r"
    "aside {?src, dst} {filePtr h, filePtr res} s s2" "files s (filePtr h) = None" "files s (filePtr res) = None"
    by (rule join_open [OF inv o dst ne'(1) room0]) (rule that)
  let ?h = "h\<lparr>sc_filter := None\<rparr>"
  have e: "?h = h\<lparr>sc_offset := sc_offset h, sc_length := sc_length h, sc_type := sc_type h, sc_filter := None, sc_op := sc_op h\<rparr>" by simp
  have start: "HeapFileScan_startScan h 0 0 STRING None EQ = (OK, ?h)" by (simp add: HeapFileScan_startScan_def)
  have all: "\<forall>r. HeapFileScan_matchRec ?h r" by (simp add: HeapFileScan_matchRec_def)
  have wh: "with_obj ?h B = with_obj h B" for B by (simp add: with_obj_def)
  have "scan_own s2 ?src h U (with_obj res ?B) hdr2 xs orecs" using A(3) by (simp add: selecting_def)
  then have "scan_own s2 ?src ?h U (with_obj res ?B) hdr2 xs orecs" by (subst e) (rule scan_own_startScan)
  then have sel: "selecting s2 ?src ?h U hdr2 xs orecs dst res V hdr ys ?B" using A(3) by (simp add: selecting_def wh)
  have i2: "stored s2 ?src2 n irecs" using A(9) ne' i by (simp add: aside_def)
  have n2: "numBufs s2 = numBufs s" using A(9) by (simp add: aside_def)
  have r2: "card (busy ?B) + 7 \<le> numBufs s2" "lay_size V + length orecs * length irecs \<le> 2147483647" using room n2 A(5) by simp_all
  obtain s3 o3 res3 V3 hdr3 ys3 F where L: "join_outer_loop s2 ?h res d1 d2 (flip_op op) ads 0 = Some (OK, s3, o3, res3, 0 + int (length ?J))"
    "selecting s3 ?src o3 U hdr2 xs [] dst res3 V3 hdr3 ys3 ?B" "filePtr o3 = filePtr ?h" "filePtr res3 = filePtr res"
    "page_of s3 (filePtr ?h) = page_of s2 (filePtr ?h)" "stored s3 ?src2 n irecs" "aside {?src, ?src2, dst} F s2 s3"
    "\<forall>f \<in> F. f = filePtr ?h \<or> f = filePtr res \<or> files s2 f = None"
    "contents_of s3 (filePtr res) ys3 = mset ?J + contents_of s2 (filePtr res) ys"
    using join_outer_spec [OF sel all i2 ne'(2) ok order.refl fi w r2, of op 0] by blast
  have selt: "selecting (put_out s3 t) ?src o3 U hdr2 xs [] dst res3 V3 hdr3 ys3 ?B" using L(2) by simp
  obtain s4 s5 where E: "HeapFileScan_delete (put_out s3 t) o3 = Some s4" "InsertFileScan_delete s4 res3 = Some s5" "db_inv s5" "pin_of s5 = ?B"
    "stored s5 ?src (lay_size U) (chain_recs (page_of (put_out s3 t) (filePtr o3)) xs)"
    "stored s5 dst (lay_size V3) (chain_recs (page_of (put_out s3 t) (filePtr res3)) ys3)"
    "aside {?src, dst} {filePtr o3, filePtr res3} (put_out s3 t) s5"
    by (rule selecting_close [OF selt]) (rule that)
  have "chain_recs (page_of (put_out s3 t) (filePtr o3)) xs = orecs" using L(3,5) A(6) by simp
  then have src5: "stored s5 ?src k orecs" using E(5) A(4) by simp
  have i5: "stored s5 ?src2 n irecs" using E(7) ne' L(6) by (simp add: aside_def)
  have new: "mset (map snd (chain_recs (page_of (put_out s3 t) (filePtr res3)) ys3)) = mset ?J + mset (map snd old)" using L(4,9) A(7) by simp
  let ?N = "{?src, ?src2, dst}" and ?F = "{filePtr h, filePtr res} \<union> F"
  have a: "aside ?N ?F s s3" by (rule aside_trans [OF aside_mono [OF A(9)] aside_mono [OF L(7)]]) auto
  have a': "aside ?N ?F (put_out s3 t) s5" by (rule aside_mono [OF E(7)]) (use L(3,4) in auto)
  have inv3: "db_inv s3" using L(2) scan_own_pins(4) by (auto simp: selecting_def)
  have k2: "files s2 f = files s f" if "f \<notin> {filePtr h, filePtr res}" for f using A(9) that by (simp add: aside_def spared_def)
  have fF: "files s f = None" if "f \<in> ?F" for f
    using that L(8) k2 [of f] A(10,11) by (cases "f = filePtr h \<or> f = filePtr res") auto
  show thesis by (rule that [OF A(1,2) start _ _ E(1,2) inv3 E(3) src5 i5 E(6) new E(4) a a' fF]) (use L(1) in simp_all)
qed

text \<open>The descriptors are looked up.\<close>

lemma join_lookup:
  fixes s :: "'z minirel_scheme"
  assumes r: "rel_open s ATTRCATNAME fa Ua hdra xsa" and cat: "cat = chain_recs (page_of s fa) xsa" "attr_recs cat"
    and as: "list_all2 (\<lambda>a ad. attr_named a \<and> cat_attr cat a = Some ad) projNames ads"
    and d1: "attr_named attr1" "cat_attr cat attr1 = Some d1" and d2: "attr_named attr2" "cat_attr cat attr2 = Some d2"
    and room: "card (pinned s) + 2 \<le> numBufs s"
  obtains sa sb sc where "lookup_attrs s projNames = Some (OK, ads, sa)"
    "AttrCatalog_getInfo sa (ai_relName attr1) (ai_attrName attr1) = Some (OK, Some d1, sb)"
    "AttrCatalog_getInfo sb (ai_relName attr2) (ai_attrName attr2) = Some (OK, Some d2, sc)"
    "rel_open sc ATTRCATNAME fa Ua hdra xsa" "cat_read s sc"
proof -
  have c: "attr_recs (chain_recs (page_of s fa) xsa)"
    "list_all2 (\<lambda>a ad. attr_named a \<and> cat_attr (chain_recs (page_of s fa) xsa) a = Some ad) projNames ads"
    using cat(1,2) as by simp_all
  obtain sa where A: "lookup_attrs s projNames = Some (OK, ads, sa)" "rel_open sa ATTRCATNAME fa Ua hdra xsa" "cat_read s sa"
    using lookup_attrs_found [OF r room c] by blast
  have ka: "page_of sa = page_of s" "pin_of sa = pin_of s" "numBufs sa = numBufs s" using A(3) by (simp_all add: cat_read_def)
  have ra: "card (pinned sa) + 2 \<le> numBufs sa" "attr_recs (chain_recs (page_of sa fa) xsa)"
    "cat_attr (chain_recs (page_of sa fa) xsa) attr1 = Some d1" using room ka cat d1(2) by simp_all
  obtain sb where B: "AttrCatalog_getInfo sa (ai_relName attr1) (ai_attrName attr1) = Some (OK, Some d1, sb)"
    "rel_open sb ATTRCATNAME fa Ua hdra xsa" "cat_read sa sb"
    by (rule getInfo_found [OF A(2) ra(1,2) d1(1) ra(3)]) (rule that)
  have kb: "page_of sb = page_of s" "pin_of sb = pin_of s" "numBufs sb = numBufs s" using B(3) ka by (simp_all add: cat_read_def)
  have rb: "card (pinned sb) + 2 \<le> numBufs sb" "attr_recs (chain_recs (page_of sb fa) xsa)"
    "cat_attr (chain_recs (page_of sb fa) xsa) attr2 = Some d2" using room kb cat d2(2) by simp_all
  obtain sc where C: "AttrCatalog_getInfo sb (ai_relName attr2) (ai_attrName attr2) = Some (OK, Some d2, sc)"
    "rel_open sc ATTRCATNAME fa Ua hdra xsa" "cat_read sb sc"
    by (rule getInfo_found [OF B(2) rb(1,2) d2(1) rb(3)]) (rule that)
  have cr: "cat_read s sc" by (rule cat_read_trans [OF A(3) cat_read_trans [OF B(3) C(3)]])
  show thesis by (rule that [OF A(1) B(1) C(1,2) cr])
qed

text \<open>
  C4: The nested loops join yields the relation it describes. With the attribute catalog open, the
  projected attributes and the two join attributes found in it and inside the records of their
  relations, and a result relation other than the two sources, QU_NL_Join answers OK: the result
  relation holds, besides what it held before, exactly the joined projections of the pairs of an
  outer and an inner record that satisfy the join condition, each as often as it occurs, and the
  message reports their number. Both sources, every other closed relation and the catalog are
  unchanged and no page stays pinned. Seven free frames are enough for the three objects that
  are open at the same time.
\<close>
theorem QU_NL_Join_joins:
  fixes s :: "'z minirel_scheme"
  assumes "rel_open s ATTRCATNAME fa Ua hdra xsa" "cat = chain_recs (page_of s fa) xsa" "attr_recs cat"
    and "list_all2 (\<lambda>a ad. attr_named a \<and> cat_attr cat a = Some ad) projNames ads"
    and "attr_named attr1" "cat_attr cat attr1 = Some d1" "attr_named attr2" "cat_attr cat attr2 = Some d2" "\<not> attr_mismatch attr1 attr2"
    and "stored s src1 k orecs" "stored s src2 n irecs" "stored s dst m old" "distinct [src1, src2, dst]"
    and "ai_relName attr1 = src1" "ai_relName attr2 = src2" "join_ok d1 d2 type orecs irecs"
    and "\<forall>r1 \<in> snd ` set orecs. \<forall>r2 \<in> snd ` set irecs. fields_in src1 ads r1 r2"
    and "\<forall>ad \<in> set ads. 0 \<le> ad_attrLen ad" "0 < sum_list (map ad_attrLen ads)" "sum_list (map ad_attrLen ads) \<le> 1000"
    and "card (pinned s) + 7 \<le> numBufs s" "m + length orecs * length irecs \<le> 2147483647"
  shows "\<exists>s' m' new pairs. QU_NL_Join s dst projNames attr1 op attr2 = Some (OK, s') \<and>
    pairs = joined src1 ads (join_holds op type d1 d2) orecs irecs \<and>
    stored s' src1 k orecs \<and> stored s' src2 n irecs \<and> stored s' dst m' new \<and> mset (map snd new) = mset pairs + mset (map snd old) \<and>
    out s' = out s @ ''tuple nested join produced '' @ dec_int (int (length pairs)) @ '' result tuples '' @ newline \<and>
    (\<forall>name j r. name \<notin> {src1, src2, dst} \<and> stored s name j r \<longrightarrow> stored s' name j r) \<and>
    rel_open s' ATTRCATNAME fa Ua hdra xsa \<and> page_of s' fa = page_of s fa \<and> pin_of s' = pin_of s"
proof -
  have room0: "card (pinned s) + 2 \<le> numBufs s" using assms(21) by simp
  obtain sa sb sc where A: "lookup_attrs s projNames = Some (OK, ads, sa)"
    "AttrCatalog_getInfo sa (ai_relName attr1) (ai_attrName attr1) = Some (OK, Some d1, sb)"
    "AttrCatalog_getInfo sb (ai_relName attr2) (ai_attrName attr2) = Some (OK, Some d2, sc)"
    "rel_open sc ATTRCATNAME fa Ua hdra xsa" "cat_read s sc"
    by (rule join_lookup [OF assms(1-8) room0]) (rule that)
  have k: "page_of sc = page_of s" "pin_of sc = pin_of s" "numBufs sc = numBufs s" "files sc = files s"
    "\<And>n k r. stored s n k r \<Longrightarrow> stored sc n k r"
    using A(5) by (simp_all add: cat_read_def)
  have rel: "ad_relName d1 = src1" "ad_relName d2 = src2" using cat_attr_rel [OF assms(6)] cat_attr_rel [OF assms(8)] assms(14,15) by simp_all
  have w: "int (sum_list (map (\<lambda>ad. nat (ad_attrLen ad)) ads)) = sum_list (map ad_attrLen ads)" using assms(18) by (induction ads) auto
  have w': "0 < sum_list (map (\<lambda>ad. nat (ad_attrLen ad)) ads)" "sum_list (map (\<lambda>ad. nat (ad_attrLen ad)) ads) \<le> 1000"
    using w assms(19,20) by linarith+
  have pok: "proj_ok ads" using assms(18-20) by (simp add: proj_ok_def list_all_iff)
  have inv: "db_inv sc" using A(4) by (simp add: rel_open_def)
  have room: "card (pinned sc) + 7 \<le> numBufs sc" using assms(21) k by simp
  let ?J = "joined src1 ads (join_holds op type d1 d2) orecs irecs"
  let ?t = "''tuple nested join produced '' @ dec_int (int (length ?J)) @ '' result tuples '' @ newline" and ?N = "{src1, src2, dst}"
  have st: "stored sc (ad_relName d1) k orecs" "stored sc (ad_relName d2) n irecs" "stored sc dst m old" "distinct [ad_relName d1, ad_relName d2, dst]"
    "\<forall>r1 \<in> snd ` set orecs. \<forall>r \<in> snd ` set irecs. fields_in (ad_relName d1) ads r1 r"
    using k(5) assms(10-13,17) rel by simp_all
  obtain s1 res s2 s3 outer res3 cnt s4 s5 h2 h3 m' new F where R: "InsertFileScan_new sc dst = Some (OK, Some res, s1)"
    "HeapFileScan_new s1 src1 = Some (OK, Some h2, s2)" "HeapFileScan_startScan h2 0 0 STRING None EQ = (OK, h3)"
    "join_outer_loop s2 h3 res d1 d2 (flip_op op) ads 0 = Some (OK, s3, outer, res3, cnt)" "cnt = int (length ?J)"
    "HeapFileScan_delete (put_out s3 ?t) outer = Some s4" "InsertFileScan_delete s4 res3 = Some s5" "db_inv s3" "db_inv s5"
    "stored s5 src1 k orecs" "stored s5 src2 n irecs" "stored s5 dst m' new" "mset (map snd new) = mset ?J + mset (map snd old)"
    "pin_of s5 = pin_of sc" "aside ?N F sc s3" "aside ?N F (put_out s3 ?t) s5" "\<And>f. f \<in> F \<Longrightarrow> files sc f = None"
    by (rule join_run [OF inv st(1-4) assms(16) st(5) w' room assms(22), of op ?t]) (unfold rel, rule that)
  have run: "QU_NL_Join s dst projNames attr1 op attr2 = Some (OK, s5)"
    using assms(9) A(1-3) R(1-7) pok rel by (simp add: QU_NL_Join_def)
  have "of_map (openFiles s) ATTRCATNAME = Some fa" "db_inv s" using assms(1) by (simp_all add: rel_open_def)
  then have "files s fa \<noteq> None" using open_ok_map [of s ATTRCATNAME fa] by (auto simp: db_inv_def)
  then have fa: "fa \<notin> F" using R(17) k(4) by auto
  have cn: "ATTRCATNAME \<notin> ?N" using assms(1,10-12) by (auto simp: rel_open_def stored_def)
  note R3 = rel_open_aside [OF A(4) R(15) cn fa R(8)]
  have r3: "rel_open (put_out s3 ?t) ATTRCATNAME fa Ua hdra xsa" using R3(1) by simp
  note R5 = rel_open_aside [OF r3 R(16) cn fa R(9)]
  have out: "out s5 = out s @ ?t"
    using aside_minirel(2) [OF R(16)] aside_minirel(2) [OF R(15)] cat_read_out [OF A(5)] by simp
  have others: "stored s5 name j r" if "name \<notin> ?N" "stored s name j r" for name j r
    using R(15,16) that k(5) by (simp add: aside_def)
  show ?thesis
    using run R(10-14) out others R5 R3(2) k(1,2) by (intro exI [of _ s5] exI [of _ m'] exI [of _ new] exI [of _ ?J]) simp
qed

section \<open>An example\<close>

text \<open>Two relations of one attribute each, with one record each.\<close>

lemma example_join_relations:
  fixes r1 r2 :: "byte list"
  assumes rec: "r1 \<noteq> []" "length r1 \<le> 1000" "r2 \<noteq> []" "length r2 \<le> 1000"
    and ok: "attr_rec b1 d1" "attr_rec b2 d2" and d: "ad_relName d1 = ''emp''" "ad_relName d2 = ''proj''"
  obtains s :: minirel and fa U hdr xs k n rid1 rid2 where "rel_open s ATTRCATNAME fa U hdr xs" "attr_recs (chain_recs (page_of s fa) xs)"
    "rel_attrs (chain_recs (page_of s fa) xs) ''emp'' = [d1]" "rel_attrs (chain_recs (page_of s fa) xs) ''proj'' = [d2]"
    "stored s ''emp'' k [(rid1, r1)]" "stored s ''proj'' n [(rid2, r2)]" "stored s ''res'' 3 []" "card (pinned s) + 7 \<le> numBufs s"
proof -
  have b: "AttrDesc_bytes d1 = Some b1" "attr_desc_ok d1" using ok(1) by (simp_all add: attr_rec_def)
  have dec: "bytes_AttrDesc b2 = Some d2" by (rule attr_recD [OF ok(2)])
  have l: "b2 \<noteq> []" "length b2 \<le> 1000" using dec by (auto simp: bytes_AttrDesc_def split: if_splits)
  obtain s :: minirel and f U hdr xs k rid1 where S: "rel_open s ATTRCATNAME f U hdr xs" "attr_recs (chain_recs (page_of s f) xs)"
    "attr_list (chain_recs (page_of s f) xs) = [d1]" "stored s ''emp'' k [(rid1, r1)]" "stored s ''res'' 3 []"
    "card (pinned s) + 7 \<le> numBufs s" "stored s ''proj'' 3 []" "lay_size U \<le> 4"
    by (rule example_relation [OF rec(1,2) b]) (rule that)
  have room: "card (pinned s) + 3 \<le> numBufs s" "lay_size U < 2147483647" "(3 :: nat) < 2147483647" using S(6,8) by simp_all
  obtain s1 rid U1 hdr1 xs1 where A: "call_kept f s s1" "rel_open s1 ATTRCATNAME f U1 hdr1 xs1"
    "mset (chain_recs (page_of s1 f) xs1) = add_mset (rid, b2) (mset (chain_recs (page_of s f) xs))"
    "\<And>g q. g \<noteq> f \<Longrightarrow> page_of s1 g q = page_of s g q"
    by (rule insert_call [OF S(1) l room(1,2)]) (rule that)
  have inv: "db_inv s" "db_inv s1" using S(1) A(2) by (simp_all add: rel_open_def)
  have a: "apart ATTRCATNAME f s s1" by (rule call_kept_apart [OF inv A(1)]) (simp add: A(4) fun_eq_iff)
  have st1: "stored s1 ''emp'' k [(rid1, r1)]" "stored s1 ''res'' 3 []" "stored s1 ''proj'' 3 []"
    using apartD(4) [OF a] S(4,5,7) by (simp_all add: ATTRCATNAME_def)
  have room1: "card (pinned s1) + 3 \<le> numBufs s1" using call_kept_room [OF A(1)] room(1) by simp
  obtain s2 f2 rid2 n new where B: "db_inv s2" "stored s2 ''proj'' n new" "mset new = add_mset (rid2, r2) (mset [])"
    "apart ''proj'' f2 s1 s2" "pin_of s2 = pin_of s1" "files s1 f2 = None"
    by (rule insert_stored [OF inv(2) st1(3) rec(3,4) room1 room(3)]) (rule that)
  have f: "f \<noteq> f2" using A(2) B(6) open_ok_map [of s1 ATTRCATNAME f] by (auto simp: rel_open_def db_inv_def)
  have cn: "ATTRCATNAME \<noteq> ''proj''" by (simp add: ATTRCATNAME_def)
  note R = rel_open_apart [OF A(2) B(4) cn f B(1)]
  have new: "new = [(rid2, r2)]" using B(3) by simp
  let ?cat = "chain_recs (page_of s2 f) xs1"
  obtain rid0 b where one: "chain_recs (page_of s f) xs = [(rid0, b)]" "the (bytes_AttrDesc b) = d1" "\<exists>ad. attr_rec b ad"
    using S(2,3) by (auto simp: attr_list_def attr_recs_def split: prod.splits)
  have "mset ?cat = {#(rid, b2), (rid0, b)#}" using A(3) one(1) R(2) by simp
  then have "?cat = [(rid, b2), (rid0, b)] \<or> ?cat = [(rid0, b), (rid, b2)]"
    by (cases ?cat rule: remdups_adj.cases) (auto simp: add_eq_conv_ex)
  then have "attr_recs ?cat" "rel_attrs ?cat ''emp'' = [d1]" "rel_attrs ?cat ''proj'' = [d2]"
    using one(2,3) ok(2) dec d by (auto simp: attr_recs_def)
  moreover have "stored s2 ''emp'' k [(rid1, r1)]" "stored s2 ''res'' 3 []" using apartD(4) [OF B(4)] st1 by simp_all
  ultimately show thesis
    using that [OF R(1)] B(2,5) new S(6) call_kept_room [OF A(1)] apartD(1) [OF B(4)] by simp
qed

definition int_attr :: "string \<Rightarrow> string \<Rightarrow> attrInfo" where
  "int_attr r a = \<lparr>ai_relName = r, ai_attrName = a, ai_attrType = 1, ai_attrLen = 4, ai_attrValue = None\<rparr>"

lemma QU_NL_Join_joins_witness:
  "\<exists>(s :: minirel) k n rid1 rid2 s' m rid. stored s ''emp'' k [(rid1, [7, 0, 0, 0])] \<and> stored s ''proj'' n [(rid2, [5, 0, 0, 0])] \<and>
     stored s ''res'' 3 [] \<and>
     QU_NL_Join s ''res'' [int_attr ''emp'' ''age'', int_attr ''proj'' ''cost''] (int_attr ''emp'' ''age'') GT (int_attr ''proj'' ''cost'')
       = Some (OK, s') \<and> stored s' ''res'' m [(rid, [7, 0, 0, 0, 5, 0, 0, 0])]"
proof -
  let ?d1 = "\<lparr>ad_relName = ''emp'', ad_attrName = ''age'', ad_attrOffset = 0, ad_attrType = 1, ad_attrLen = 4\<rparr>"
  let ?d2 = "\<lparr>ad_relName = ''proj'', ad_attrName = ''cost'', ad_attrOffset = 0, ad_attrType = 1, ad_attrLen = 4\<rparr>"
  let ?r1 = "[7, 0, 0, 0] :: byte list" and ?r2 = "[5, 0, 0, 0] :: byte list"
  let ?a1 = "int_attr ''emp'' ''age''" and ?a2 = "int_attr ''proj'' ''cost''"
  obtain b1 b2 where b: "attr_rec b1 ?d1" "attr_rec b2 ?d2"
    by (simp add: attr_rec_def attr_desc_ok_def AttrDesc_bytes_def name_bytes_def MAXNAME_def c_name_def int_range_def)
  have l: "?r1 \<noteq> []" "length ?r1 \<le> 1000" "?r2 \<noteq> []" "length ?r2 \<le> 1000" "ad_relName ?d1 = ''emp''" "ad_relName ?d2 = ''proj''" by simp_all
  obtain s :: minirel and fa U hdr xs k n rid1 rid2 where S: "rel_open s ATTRCATNAME fa U hdr xs" "attr_recs (chain_recs (page_of s fa) xs)"
    "rel_attrs (chain_recs (page_of s fa) xs) ''emp'' = [?d1]" "rel_attrs (chain_recs (page_of s fa) xs) ''proj'' = [?d2]"
    "stored s ''emp'' k [(rid1, ?r1)]" "stored s ''proj'' n [(rid2, ?r2)]" "stored s ''res'' 3 []" "card (pinned s) + 7 \<le> numBufs s"
    by (rule example_join_relations [OF l(1-4) b l(5,6)]) (rule that)
  let ?cat = "chain_recs (page_of s fa) xs"
  have cat: "attr_named ?a1" "cat_attr ?cat ?a1 = Some ?d1" "attr_named ?a2" "cat_attr ?cat ?a2 = Some ?d2"
    using S(3,4) by (simp_all add: attr_named_def cat_attr_def int_attr_def c_name_def)
  have v: "rd_int (bytes_mem ?r1) 0 = 7" "rd_int (bytes_mem ?r2) 0 = 5" by (simp_all add: rd_int_def bytes_mem_def)
  have p: "project (bytes_mem ?r1) ?d1 = ?r1" "project (bytes_mem ?r2) ?d2 = ?r2"
    by (simp_all add: project_def rd_bytes_def bytes_mem_def upt_rec)
  have ok: "join_ok ?d1 ?d2 INTEGER [(rid1, ?r1)] [(rid2, ?r2)]"
    using v by (simp add: join_ok_def all_in_rec_def in_rec_def type_of_code_def wrap32_def)
  have fi: "fields_in ''emp'' [?d1, ?d2] ?r1 ?r2" by (simp add: fields_in_def in_rec_def)
  have h: "join_holds GT INTEGER ?d1 ?d2 ?r1 ?r2"
    using v by (simp add: join_holds_def join_cond_def filter_diff_def op_holds_def wrap32_def)
  have j: "joined ''emp'' [?d1, ?d2] (join_holds GT INTEGER ?d1 ?d2) [(rid1, ?r1)] [(rid2, ?r2)] = [[7, 0, 0, 0, 5, 0, 0, 0]]"
    using h p by (simp add: joined_def join_rec_def join_field_def)
  obtain s' m new where Q: "QU_NL_Join s ''res'' [?a1, ?a2] ?a1 GT ?a2 = Some (OK, s')" "stored s' ''res'' m new"
    "mset (map snd new) = mset [[7, 0, 0, 0, 5, 0, 0, 0]] + mset (map snd ([] :: (RID \<times> byte list) list))"
    using QU_NL_Join_joins [where s = s and ads = "[?d1, ?d2]" and projNames = "[?a1, ?a2]" and op = GT and type = INTEGER,
        OF S(1) refl S(2) _ cat _ S(5,6,7)] cat ok fi S(8) j
    by (auto simp: attr_mismatch_def int_attr_def)
  have "map snd new = [[7, 0, 0, 0, 5, 0, 0, 0]]" using Q(3) by (simp del: mset_map)
  then obtain rid where "new = [(rid, [7, 0, 0, 0, 5, 0, 0, 0])]" by auto
  then show ?thesis using S(5-7) Q(1,2) by blast
qed

end
