(* ===== verification/Load.thy ===== *)
theory Load
  imports DDL
begin

text \<open>
  Loading a relation (load.C). UT_Load cuts a Unix file into tuples of the width of the relation and
  inserts them one by one; the theorem says that the relation gains exactly these tuples.
\<close>

section \<open>The tuples in a file\<close>

definition tuples :: "nat \<Rightarrow> byte list \<Rightarrow> byte list list" where
  "tuples w bs = map (\<lambda>i. take w (drop (i * w) bs)) [0..<length bs div w]"

lemma length_tuples: "length (tuples w bs) = length bs div w"
  by (simp add: tuples_def)

lemma tuples_short: "length bs < w \<Longrightarrow> tuples w bs = []"
  by (simp add: tuples_def)

lemma tuples_step:
  assumes "0 < w" "w \<le> length bs"
  shows "tuples w bs = take w bs # tuples w (drop w bs)"
proof -
  have d: "length bs div w = Suc (length (drop w bs) div w)" using assms by (simp add: le_div_geq)
  have "[0..<Suc k] = 0 # map Suc [0..<k]" for k by (simp add: map_Suc_upt upt_conv_Cons del: upt_Suc)
  then show ?thesis unfolding tuples_def d by (simp add: ac_simps del: upt_Suc length_drop)
qed

section \<open>The descriptor of the data file\<close>

text \<open>The table of the descriptors changes at places no File object uses.\<close>

lemma fds_change:
  fixes s :: "'z db_scheme"
  assumes inv: "db_inv s" and u: "\<And>g fo. files s g = Some fo \<Longrightarrow> F (unixFile fo) = fds s (unixFile fo)"
    and F: "\<And>fd. F fd \<noteq> None \<Longrightarrow> 0 \<le> fd \<and> fd < N" "0 \<le> N"
  shows "db_inv (s\<lparr>fds := F, next_fd := N\<rparr>)" "apart name f s (s\<lparr>fds := F, next_fd := N\<rparr>)" "pin_of (s\<lparr>fds := F, next_fd := N\<rparr>) = pin_of s"
    "page_of (s\<lparr>fds := F, next_fd := N\<rparr>) = page_of s"
proof -
  define b where "b = s\<lparr>fds := F, next_fd := N\<rparr>"
  have f: "files b = files s" "fds b = F" "next_fd b = N" "next_ptr b = next_ptr s" "openFiles b = openFiles s" "disk b = disk s" "db.more b = db.more s"
    by (simp_all add: b_def)
  have op: "open_ok s" and po: "pool_ok {} s" and co: "coherent {} s" using inv by (simp_all add: db_inv_def)
  have io: "io_inv s" using pool_okD [OF po] by simp
  have fn: "file_name b = file_name s" using u f by (auto simp: file_name_def fun_eq_iff bind_eq_Some_conv split: bind_split)
  then have fp: "file_pages b = file_pages s" by (simp add: file_pages_def fun_eq_iff f)
  then have dp: "disk_page b = disk_page s" by (simp add: disk_page_def fun_eq_iff)
  have sp: "same_pool s b" by (simp add: same_pool_def b_def)
  have op': "open_ok b" using op u unfolding open_ok_def f by simp
  have io': "io_inv b" by (rule io_invI [OF _ _ _ _ op']) (use io_invD [OF io] f F in \<open>force+\<close>)
  note S = same_pool_ok [OF po sp io']
  have pg: "page_of b = page_of s" using sp dp by (simp add: page_of_def same_pool_def fun_eq_iff split: option.split)
  have "apart name f s b" by (rule same_pool_apart [OF sp f(7)]) (use f(1,5,6) fp pg in simp_all)
  then show "db_inv (s\<lparr>fds := F, next_fd := N\<rparr>)" "apart name f s (s\<lparr>fds := F, next_fd := N\<rparr>)"
    "pin_of (s\<lparr>fds := F, next_fd := N\<rparr>) = pin_of s" "page_of (s\<lparr>fds := F, next_fd := N\<rparr>) = page_of s"
    using S(1,2,3) dp co op' pg by (simp_all add: db_inv_def b_def [symmetric])
qed

lemma open_below:
  assumes "db_inv s" "files s g = Some fo"
  shows "0 \<le> unixFile fo" "unixFile fo < next_fd s"
proof -
  have "open_ok s" "io_inv s" using assms(1) pool_okD [of "{}" s] by (simp_all add: db_inv_def)
  then show "0 \<le> unixFile fo" "unixFile fo < next_fd s" using open_okD(3) [of s g fo] io_invD [of s] assms(2) by force+
qed

lemma data_open_spec:
  fixes s :: "'z minirel_scheme"
  assumes inv: "db_inv s" and bs: "unix_bytes s (c_str data) \<noteq> None"
  obtains s0 where "data_open s data = Some (next_fd s, s0)" "db_inv s0" "\<And>name f. apart name f s s0" "pin_of s0 = pin_of s"
    "files s0 = files s" "openFiles s0 = openFiles s" "disk s0 = disk s"
proof -
  let ?F = "(fds s)(next_fd s \<mapsto> c_str data)" and ?N = "next_fd s + 1"
  have "io_inv s" using inv pool_okD [of "{}" s] by (simp add: db_inv_def)
  note io = io_invD [OF this]
  have u: "?F (unixFile fo) = fds s (unixFile fo)" if "files s g = Some fo" for g fo using open_below [OF inv that] by simp
  have F: "0 \<le> fd \<and> fd < ?N" if "?F fd \<noteq> None" for fd using io(3,4) that by (cases "fd = next_fd s") (auto dest: io(3) simp: less_imp_le)
  have N: "0 \<le> ?N" using io(4) by simp
  note B = fds_change [where s = s and F = ?F and N = ?N, OF inv u F N]
  show thesis by (rule that [of "s\<lparr>fds := ?F, next_fd := ?N\<rparr>"]) (use bs B in \<open>simp_all add: data_open_def\<close>)
qed

lemma data_close_spec:
  fixes s :: "'z minirel_scheme"
  assumes inv: "db_inv s" and u: "\<And>g fo. files s g = Some fo \<Longrightarrow> unixFile fo \<noteq> fd"
  obtains s' where "s' = s\<lparr>fds := (fds s)(fd := None)\<rparr>" "db_inv s'" "\<And>name f. apart name f s s'" "pin_of s' = pin_of s" "files s' = files s"
proof -
  let ?F = "(fds s)(fd := None)"
  have "io_inv s" using inv pool_okD [of "{}" s] by (simp add: db_inv_def)
  note io = io_invD [OF this]
  have e: "s\<lparr>fds := ?F, next_fd := next_fd s\<rparr> = s\<lparr>fds := ?F\<rparr>" by simp
  have F: "0 \<le> x \<and> x < next_fd s" if "?F x \<noteq> None" for x using io(3) that by (auto split: if_splits)
  note B = fds_change [where s = s and F = ?F and N = "next_fd s", OF inv _ F io(4), unfolded e]
  show thesis by (rule that [OF refl]) (use B u in simp_all)
qed

section \<open>The loop\<close>

lemma apart_data:
  fixes s s' :: "'z minirel_scheme"
  assumes "apart name f s s'"
  shows "data_files s' = data_files s" "out s' = out s"
  using apartD(2) [OF assms] by (cases s; cases s'; simp)+

lemma load_loop_spec:
  fixes s :: "'z minirel_scheme"
  assumes "own s n h U B hdr xs (last xs)" "of_map (openFiles s) data = None" "disk s data = None" "data_files s data = Some bs" "n \<noteq> data"
    "0 < w" "w \<le> 1000" "card (busy B) + 3 \<le> numBufs s" "lay_size U + length (drop pos bs) div w \<le> 2147483647"
  shows "\<exists>s' h' U' hdr' xs'. load_loop s h data pos w cnt = Some (False, OK, cnt + int (length (drop pos bs) div w), s', h') \<and>
    own s' n h' U' B hdr' xs' (last xs') \<and> filePtr h' = filePtr h \<and> apart n (filePtr h) s s' \<and>
    contents_of s' (filePtr h) xs' = mset (tuples w (drop pos bs)) + contents_of s (filePtr h) xs"
  using assms
proof (induction "length (drop pos bs)" arbitrary: s h U hdr xs pos cnt rule: less_induct)
  case less
  let ?f = "filePtr h" and ?rec = "take w (drop pos bs)"
  have ub: "unix_bytes s data = Some bs" using less.prems(3,4) by (simp add: unix_bytes_def)
  show ?case
  proof (cases "w \<le> length (drop pos bs)")
    case False
    then have "length ?rec \<noteq> w" by simp
    then have run: "load_loop s h data pos w cnt = Some (False, OK, cnt, s, h)"
      using ub by (subst load_loop.simps) (simp add: Let_def del: length_take)
    then show ?thesis using less.prems(1) False apart_refl tuples_short [of "drop pos bs" w]
      by (intro exI [of _ s] exI [of _ h] exI [of _ U] exI [of _ hdr] exI [of _ xs]) simp
  next
    case True
    have l: "length ?rec = w" "?rec \<noteq> []" "length ?rec \<le> 1000" using True less.prems(6,7) by auto
    have d: "length (drop pos bs) div w = Suc (length (drop (pos + w) bs) div w)"
      using True less.prems(6) by (simp add: le_div_geq algebra_simps)
    note P = own_pins [OF less.prems(1)]
    have room: "card (pinned s) < numBufs s"
      using busy_with_obj(2) [where h = h, OF P(6,3)] less.prems(8) unfolding P(1) by linarith
    have sz: "lay_size U < 2147483647" using less.prems(9) d by simp
    obtain rid s1 h1 U1 hdr1 xs1 where I: "InsertFileScan_insertRecord s h ?rec = Some (OK, Some rid, s1, h1)"
      "own s1 n h1 U1 B hdr1 xs1 (last xs1)" "filePtr h1 = ?f" "apart n ?f s s1" "db_inv s1"
      "mset (chain_recs (page_of s1 ?f) xs1) = add_mset (rid, ?rec) (mset (chain_recs (page_of s ?f) xs))" "lay_size U1 \<le> Suc (lay_size U)"
      by (rule insert_own [OF less.prems(1) l(2,3) room sz]) (rule that)
    have step: "load_loop s h data pos w cnt = load_loop s1 h1 data (pos + w) w (cnt + 1)"
      using ub l(1) I(1) by (subst load_loop.simps) (simp add: Let_def)
    note A = apartD [OF I(4)]
    have s1: "of_map (openFiles s1) data = None" "disk s1 data = None" "data_files s1 data = Some bs" "card (busy B) + 3 \<le> numBufs s1"
      using A(1,3,10) less.prems(2-5,8) apart_data(1) [OF I(4)] by auto
    have sz1: "lay_size U1 + length (drop (pos + w) bs) div w \<le> 2147483647" using I(7) less.prems(9) d by simp
    have dec: "length (drop (pos + w) bs) < length (drop pos bs)" using True less.prems(6) by simp
    obtain s' h' U' hdr' xs' where R: "load_loop s1 h1 data (pos + w) w (cnt + 1) = Some (False, OK, cnt + 1 + int (length (drop (pos + w) bs) div w), s', h')"
      "own s' n h' U' B hdr' xs' (last xs')" "filePtr h' = filePtr h1" "apart n (filePtr h1) s1 s'"
      "contents_of s' (filePtr h1) xs' = mset (tuples w (drop (pos + w) bs)) + contents_of s1 (filePtr h1) xs1"
      using less.hyps [OF dec I(2) s1(1-3) less.prems(5-7) s1(4) sz1, of "cnt + 1"] by blast
    have c1: "contents_of s1 ?f xs1 = add_mset ?rec (contents_of s ?f xs)" using arg_cong [OF I(6), of "image_mset snd"] by simp
    have t: "tuples w (drop pos bs) = ?rec # tuples w (drop (pos + w) bs)"
      using tuples_step [OF less.prems(6) True] by (simp add: add.commute)
    have "apart n ?f s s'"
      by (rule apart_trans [OF I(4) R(4) [unfolded I(3)]]) (use own_pins(1) [OF I(2)] P(1) I(3) in \<open>simp add: with_obj_same\<close>)
    moreover have "contents_of s' ?f xs' = mset (tuples w (drop pos bs)) + contents_of s ?f xs" using R(5) c1 t I(3) by simp
    ultimately show ?thesis using step R(1-3) I(3) d
      by (intro exI [of _ s'] exI [of _ h'] exI [of _ U'] exI [of _ hdr'] exI [of _ xs']) simp
  qed
qed

section \<open>UT_Load\<close>

lemma rel_cat_name: "rel_cat s f U m \<Longrightarrow> m n = Some rd \<Longrightarrow> rd_relName rd = n"
  by (auto simp: rel_cat_def cat_assoc_def dest!: map_of_SomeD)

text \<open>What the lookups of the load leave.\<close>

lemma catalogs_apart:
  assumes "catalogs s r a Ur Ua m A" "apart name f s s'" "name \<noteq> RELCATNAME" "name \<noteq> ATTRCATNAME" "f \<noteq> r" "f \<noteq> a" "db_inv s'"
  shows "catalogs s' r a Ur Ua m A"
  using assms rel_cat_apart [OF _ assms(2)] attr_cat_apart [OF _ assms(2)] by (simp add: catalogs_def)

lemma catalogs_all_apart:
  assumes "catalogs s r a Ur Ua m A" "\<And>name f. apart name f s s'" "db_inv s'"
  shows "catalogs s' r a Ur Ua m A"
  using rel_cat_apart [OF catalogsD(1) [OF assms(1)] assms(2) _ _ assms(3), of ATTRCATNAME "r + 1"]
    attr_cat_apart [OF catalogsD(2) [OF assms(1)] assms(2) _ _ assms(3), of RELCATNAME "a + 1"]
  by (simp add: catalogs_def)

lemma open_files: "db_inv s \<Longrightarrow> of_map (openFiles s) n = Some f \<Longrightarrow> files s f \<noteq> None"
  using open_ok_map [of s] by (auto simp: db_inv_def)

lemma catalogs_files:
  assumes "catalogs s r a Ur Ua m A"
  shows "files s r \<noteq> None" "files s a \<noteq> None"
  using catalogsD(3,5,6) [OF assms] open_files by blast+

lemma all_apart_ddl_kept:
  assumes "db_inv s" "\<And>name f. apart name f s s'" "pin_of s' = pin_of s"
  shows "ddl_kept n r a s s'"
proof -
  have "io_inv s" using assms(1) pool_okD [of "{}" s] by (simp add: db_inv_def)
  then have "files s 0 = None" using io_invD(1) [of s 0] by (cases "files s 0") auto
  then show ?thesis by (rule apart_ddl_kept [OF assms(2,3)])
qed

text \<open>A file that has been opened and closed again leaves the File objects as they were.\<close>

lemma files_restored:
  assumes "db_inv s" "db_inv s'" "apart n f s s1" "apart n f (put_out s1 t) s'" "files s f = None" "of_map (openFiles s') n = None"
    "files s' g = Some fo"
  shows "files s g = Some fo"
proof -
  have o: "of_map (openFiles s') (fileName fo) = Some g" using open_okD(5) [of s' g fo] assms(2,7) by (simp add: db_inv_def)
  then have "fileName fo \<noteq> n" using assms(6) by auto
  then have "of_map (openFiles s) (fileName fo) = Some g"
    using o apartD(3) [OF assms(3), of "fileName fo"] apartD(3) [OF assms(4), of "fileName fo"] by simp
  then have "files s g \<noteq> None" using open_ok_map [of s "fileName fo" g] assms(1) by (auto simp: db_inv_def)
  then have "g \<noteq> f" using assms(5) by auto
  then show ?thesis using assms(7) apartD(5) [OF assms(3)] apartD(5) [OF assms(4)] by (simp add: put_out_def)
qed

lemma rel_lookup:
  fixes s :: "'z minirel_scheme"
  assumes rc: "rel_cat s r Ur m" and at: "rel_open s ATTRCATNAME a Ua hdr xs" and cat: "cat = chain_recs (page_of s a) xs" "attr_recs cat"
    and room: "card (pinned s) + 2 \<le> numBufs s" and n: "n \<noteq> []" "c_name n" "m n = Some rd" and as: "rel_attrs cat n \<noteq> []"
  obtains s1 s2 where "RelCatalog_getInfo s n = Some (OK, Some rd, s1)" "rd_relName rd = n"
    "AttrCatalog_getRelInfo s1 n = Some (OK, rel_attrs cat n, s2)" "rel_cat s2 r Ur m" "rel_open s2 ATTRCATNAME a Ua hdr xs"
    "page_of s2 = page_of s" "pin_of s2 = pin_of s" "\<And>x. ddl_kept x r a s s2" "files s2 = files s"
    "\<And>x k recs. stored s x k recs \<Longrightarrow> stored s2 x k recs" "\<And>x. of_map (openFiles s2) x = of_map (openFiles s) x"
    "\<And>x. of_map (openFiles s) x = None \<Longrightarrow> disk s2 x = disk s x" "db.more s2 = db.more s"
proof -
  have inv: "db_inv s" using at by (simp add: rel_open_def)
  have ne: "r \<noteq> a"
    using open_name_inj [OF inv, of RELCATNAME r ATTRCATNAME] cat_open(1) [OF rc] at by (auto simp: rel_open_def)
  obtain s1 where L: "RelCatalog_getInfo s n = Some (if m n = None then RELNOTFOUND else OK, m n, s1)"
    "rel_cat s1 r Ur m" "call_kept r s s1" "page_of s1 = page_of s"
    by (rule getInfo_lookup [OF rc room n(1,2)]) (rule that)
  have inv1: "db_inv s1" using L(2) cat_open by blast
  have a1: "apart x r s s1" for x by (rule call_kept_apart [OF inv inv1 L(3)]) (simp add: L(4))
  have T: "rel_open s1 ATTRCATNAME a Ua hdr xs" by (rule rel_open_apart [OF at a1 [of RELCATNAME] _ ne [symmetric] inv1]) simp
  have T2: "attr_recs (chain_recs (page_of s1 a) xs)" "rel_attrs (chain_recs (page_of s1 a) xs) n = rel_attrs cat n" using cat L(4) by simp_all
  have room1: "card (pinned s1) + 2 \<le> numBufs s1" using room call_kept_room [OF L(3)] by simp
  obtain s2 where G: "AttrCatalog_getRelInfo s1 n = Some (OK, rel_attrs cat n, s2)" "call_kept a s1 s2" "page_of s2 = page_of s1"
    "rel_open s2 ATTRCATNAME a Ua hdr xs"
    using getRelInfo_spec [OF T room1 T2(1) n(1,2)] as unfolding T2(2) by auto
  have inv2: "db_inv s2" using G(4) by (simp add: rel_open_def)
  have a2: "apart x a s1 s2" for x by (rule call_kept_apart [OF inv1 inv2 G(2)]) (simp add: G(3))
  have rc2: "rel_cat s2 r Ur m" by (rule rel_cat_apart [OF L(2) a2 [of ATTRCATNAME] _ ne [symmetric] inv2]) simp
  have k: "pin_of s1 = pin_of s" "files s1 = files s" "pin_of s2 = pin_of s1" "files s2 = files s1"
    using L(3) G(2) by (simp_all add: call_kept_def pool_rest_def)
  have st: "stored s x j recs \<Longrightarrow> stored s2 x j recs" for x j recs
    using apartD(4) [OF a2 [of "CHR ''x'' # x"]] apartD(4) [OF a1 [of "CHR ''x'' # x"]] by simp
  have o: "of_map (openFiles s2) x = of_map (openFiles s) x" for x
    using apartD(3) [OF a2 [of "CHR ''x'' # x"]] apartD(3) [OF a1 [of "CHR ''x'' # x"]] by simp
  have d: "disk s2 x = disk s x" if "of_map (openFiles s) x = None" for x
    using apartD(3,10) [OF a1 [of "CHR ''x'' # x"], of x] apartD(10) [OF a2 [of "CHR ''x'' # x"], of x] that by simp
  have dk: "ddl_kept x r a s s2" for x
    by (rule ddl_kept_trans [OF call_ddl_kept [OF inv inv1 L(3)] call_ddl_kept [OF inv1 inv2 G(2)]]) (simp_all add: L(4) G(3))
  have rd: "rd_relName rd = n" by (rule rel_cat_name [OF rc n(3)])
  have L': "RelCatalog_getInfo s n = Some (OK, Some rd, s1)" using L(1) n(3) by simp
  have m: "db.more s2 = db.more s" using apartD(2) [OF a2] apartD(2) [OF a1] by simp
  show thesis by (rule that [OF L' rd G(1) rc2 G(4) _ _ dk _ st o d m]) (simp_all add: k L(4) G(3))
qed

text \<open>From the opened data file to the closed relation.\<close>

lemma load_body:
  fixes s :: "'z minirel_scheme"
  assumes inv: "db_inv s" and st: "stored s n k recs" and fl: "disk s data = None" "data_files s data = Some bs" and w: "0 < w" "w \<le> 1000"
    and room: "card (pinned s) + 3 \<le> numBufs s" "k + length bs div w \<le> 2147483647"
  obtains h s1 s2 h2 s3 k' new where "InsertFileScan_new s n = Some (OK, Some h, s1)"
    "load_loop s1 h data 0 w 0 = Some (False, OK, int (length bs div w), s2, h2)" "InsertFileScan_delete (put_out s2 t) h2 = Some s3"
    "db_inv s3" "stored s3 n k' new" "mset (map snd new) = mset (tuples w bs) + mset (map snd recs)" "pin_of s3 = pin_of s"
    "apart n (filePtr h) s s2" "apart n (filePtr h) (put_out s2 t) s3" "files s (filePtr h) = None" "db_inv s2"
proof -
  have ofn: "of_map (openFiles s) data = None" using no_file_closed [OF inv fl(1)] by (simp add: closed_free_def)
  have nf: "n \<noteq> data" using st fl(1) by (auto simp: stored_def)
  have room0: "card (pinned s) + 2 \<le> numBufs s" using room by simp
  obtain s1 h U hdr xs where A: "InsertFileScan_new s n = Some (OK, Some h, s1)" "own s1 n h U (pin_of s) hdr xs (last xs)"
    "lay_size U = k" "chain_recs (page_of s1 (filePtr h)) xs = recs" "apart n (filePtr h) s s1" "files s (filePtr h) = None"
    by (rule InsertFileScan_new_own [OF inv st room0]) (rule that)
  note P = own_pins [OF A(2)] and AD = apartD [OF A(5)]
  have f1: "of_map (openFiles s1) data = None" "disk s1 data = None" "data_files s1 data = Some bs" "card (pinned s) + 3 \<le> numBufs s1"
    using AD(1,3,10) ofn fl nf room(1) apart_data(1) [OF A(5)] by auto
  have sz: "lay_size U + length (drop 0 bs) div w \<le> 2147483647" using A(3) room(2) by simp
  obtain s2 h2 U2 hdr2 xs2 where L: "load_loop s1 h data 0 w 0 = Some (False, OK, int (length bs div w), s2, h2)"
    "own s2 n h2 U2 (pin_of s) hdr2 xs2 (last xs2)" "filePtr h2 = filePtr h" "apart n (filePtr h) s1 s2"
    "contents_of s2 (filePtr h) xs2 = mset (tuples w bs) + contents_of s1 (filePtr h) xs"
    using load_loop_spec [OF A(2) f1(1-3) nf w f1(4) sz, of 0] by auto
  have o: "own (put_out s2 t) n h2 U2 (pin_of s) hdr2 xs2 (last xs2)" using L(2) by simp
  obtain s3 where D: "InsertFileScan_delete (put_out s2 t) h2 = Some s3" "db_inv s3" "apart n (filePtr h2) (put_out s2 t) s3" "pin_of s3 = pin_of s"
    "stored s3 n (lay_size U2) (chain_recs (page_of (put_out s2 t) (filePtr h2)) xs2)"
    by (rule InsertFileScan_delete_own [OF o]) (rule that)
  have "apart n (filePtr h) s s2" by (rule apart_trans [OF A(5) L(4)]) (simp add: P(1) with_obj_same)
  moreover have "mset (map snd (chain_recs (page_of (put_out s2 t) (filePtr h2)) xs2)) = mset (tuples w bs) + mset (map snd recs)"
    using L(3,5) A(4) by simp
  ultimately show thesis by (rule that [OF A(1) L(1) D(1,2,5) _ D(4) _ D(3) [unfolded L(3)] A(6) own_pins(5) [OF L(2)], rotated])
qed

text \<open>The data file is opened and the relation looked up.\<close>

lemma load_lookup:
  fixes s :: "'z minirel_scheme"
  assumes c: "catalogs s r a Ur Ua m A" and n: "m n = Some rd" "n \<noteq> []" "c_name n" and st: "stored s n k recs"
    and d: "disk s (c_str data) = None" "data_files s (c_str data) = Some bs"
    and w: "int w = sum_mset (image_mset ad_attrLen {#ad \<in># A. ad_relName ad = n#})" "0 < w" "w \<le> 1000" and room: "card (pinned s) + 3 \<le> numBufs s"
  obtains s0 s1 s2 ads where "data_open s data = Some (next_fd s, s0)" "RelCatalog_getInfo s0 n = Some (OK, Some rd, s1)" "rd_relName rd = n"
    "AttrCatalog_getRelInfo s1 n = Some (OK, ads, s2)" "tuple_width ads = int w" "catalogs s2 r a Ur Ua m A" "pin_of s2 = pin_of s"
    "files s2 = files s" "ddl_kept n r a s s2" "stored s2 n k recs" "disk s2 (c_str data) = None" "data_files s2 (c_str data) = Some bs" "out s2 = out s"
proof -
  note C = catalogsD [OF c]
  have ub: "unix_bytes s (c_str data) \<noteq> None" using d by (simp add: unix_bytes_def)
  obtain s0 where O: "data_open s data = Some (next_fd s, s0)" "db_inv s0" "\<And>name f. apart name f s s0" "pin_of s0 = pin_of s"
    "files s0 = files s" "openFiles s0 = openFiles s" "disk s0 = disk s"
    by (rule data_open_spec [OF C(3) ub]) (rule that)
  have c0: "catalogs s0 r a Ur Ua m A" by (rule catalogs_all_apart [OF c O(3,2)])
  have n0: "numBufs s0 = numBufs s" using apartD(1) [OF O(3)] .
  have room0: "card (pinned s0) + 2 \<le> numBufs s0" using room O(4) n0 by simp
  obtain hdr xs where T: "rel_open s0 ATTRCATNAME a Ua hdr xs" "attr_recs (chain_recs (page_of s0 a) xs)"
    "mset (attr_list (chain_recs (page_of s0 a) xs)) = A" using catalogsD(2) [OF c0] by (auto simp: attr_cat_def)
  let ?ads = "rel_attrs (chain_recs (page_of s0 a) xs) n"
  have ads: "mset ?ads = {#ad \<in># A. ad_relName ad = n#}" using T(3) by (simp add: rel_attrs_def)
  have sum: "sum_list (map ad_attrLen ?ads) = int w" using w(1) ads by (metis mset_map sum_mset_sum_list)
  then have nads: "?ads \<noteq> []" using w(2) by auto
  obtain s1 s2 where L: "RelCatalog_getInfo s0 n = Some (OK, Some rd, s1)" "rd_relName rd = n"
    "AttrCatalog_getRelInfo s1 n = Some (OK, ?ads, s2)" "rel_cat s2 r Ur m" "rel_open s2 ATTRCATNAME a Ua hdr xs" "page_of s2 = page_of s0"
    "pin_of s2 = pin_of s0" "\<And>x. ddl_kept x r a s0 s2" "files s2 = files s0" "\<And>x k recs. stored s0 x k recs \<Longrightarrow> stored s2 x k recs"
    "\<And>x. of_map (openFiles s2) x = of_map (openFiles s0) x" "\<And>x. of_map (openFiles s0) x = None \<Longrightarrow> disk s2 x = disk s0 x"
    "db.more s2 = db.more s0"
    by (rule rel_lookup [OF catalogsD(1) [OF c0] T(1) refl T(2) room0 n(2,3,1) nads]) (rule that)
  have at2: "attr_cat s2 a Ua A" unfolding attr_cat_def using L(5,6) T(2,3) by (intro exI [of _ hdr] exI [of _ xs]) simp
  have c2: "catalogs s2 r a Ur Ua m A" using L(4) at2 by (simp add: catalogs_def)
  have st2: "stored s2 n k recs" by (rule L(10)) (use st O(6,7) in \<open>simp add: stored_def\<close>)
  have cf: "of_map (openFiles s0) (c_str data) = None" using no_file_closed [OF C(3) d(1)] O(6) by (simp add: closed_free_def)
  have m2: "data_files s2 = data_files s" "out s2 = out s"
    using L(13) apartD(2) [OF O(3)] by (cases s; cases s2; simp)+
  have f2: "disk s2 (c_str data) = None" "data_files s2 (c_str data) = Some bs" using L(12) [OF cf] O(7) d m2 by simp_all
  have k2: "ddl_kept n r a s s2" by (rule ddl_kept_trans [OF all_apart_ddl_kept [OF C(3) O(3,4)] L(8)])
  have width: "tuple_width ?ads = int w" using sum w(3) by (simp add: tuple_width_sum wrap32_def)
  show thesis by (rule that [OF O(1) L(1-3) width c2 _ _ k2 st2 f2 m2(2)]) (simp_all add: L(7,9) O(4,5))
qed

text \<open>
  C10: Loading a file adds exactly its tuples to the relation. The width of a tuple is the sum of the
  lengths of the attributes; UT_Load inserts the first, the second, ... width bytes of the file as
  a record each and drops an incomplete rest. The answer is OK, the message has their number; the
  catalogs, the other relations and all pins are as before and the descriptor of the file is closed.
\<close>
theorem UT_Load_loads:
  fixes s :: "'z minirel_scheme"
  assumes "catalogs s r a Ur Ua m A" "m n = Some rd" "n \<notin> {[], RELCATNAME, ATTRCATNAME}" "c_name n" "stored s n k recs"
    and "data \<noteq> []" "disk s (c_str data) = None" "data_files s (c_str data) = Some bs"
    and "int w = sum_mset (image_mset ad_attrLen {#ad \<in># A. ad_relName ad = n#})" "0 < w" "w \<le> 1000"
    and "card (pinned s) + 3 \<le> numBufs s" "k + length bs div w \<le> 2147483647"
  shows "\<exists>s' k' new. UT_Load s n data = Some (OK, s') \<and> stored s' n k' new \<and>
    mset (map snd new) = mset (tuples w bs) + mset (map snd recs) \<and> catalogs s' r a Ur Ua m A \<and> ddl_kept n r a s s' \<and>
    out s' = out s @ ''Number of records inserted: '' @ dec_int (int (length (tuples w bs))) @ newline \<and> fds s' (next_fd s) = None"
proof -
  let ?t = "''Number of records inserted: '' @ dec_int (int (length bs div w)) @ newline"
  have inv: "db_inv s" by (rule catalogsD(3) [OF assms(1)])
  have ne: "n \<noteq> []" and cn: "n \<noteq> RELCATNAME" "n \<noteq> ATTRCATNAME" using assms(3) by simp_all
  obtain s0 s1 s2 ads where L: "data_open s data = Some (next_fd s, s0)" "RelCatalog_getInfo s0 n = Some (OK, Some rd, s1)" "rd_relName rd = n"
    "AttrCatalog_getRelInfo s1 n = Some (OK, ads, s2)" "tuple_width ads = int w" "catalogs s2 r a Ur Ua m A" "pin_of s2 = pin_of s"
    "files s2 = files s" "ddl_kept n r a s s2" "stored s2 n k recs" "disk s2 (c_str data) = None" "data_files s2 (c_str data) = Some bs" "out s2 = out s"
    by (rule load_lookup [OF assms(1,2) ne assms(4,5,7-12)]) (rule that)
  have inv2: "db_inv s2" by (rule catalogsD(3) [OF L(6)])
  have room2: "card (pinned s2) + 3 \<le> numBufs s2" using assms(12) L(7,9) by (simp add: ddl_kept_def)
  obtain h s3 s4 h2 s5 k' new where B: "InsertFileScan_new s2 n = Some (OK, Some h, s3)"
    "load_loop s3 h (c_str data) 0 w 0 = Some (False, OK, int (length bs div w), s4, h2)" "InsertFileScan_delete (put_out s4 ?t) h2 = Some s5"
    "db_inv s5" "stored s5 n k' new" "mset (map snd new) = mset (tuples w bs) + mset (map snd recs)" "pin_of s5 = pin_of s2"
    "apart n (filePtr h) s2 s4" "apart n (filePtr h) (put_out s4 ?t) s5" "files s2 (filePtr h) = None" "db_inv s4"
    by (rule load_body [OF inv2 L(10-12) assms(10,11) room2 assms(13), of ?t]) (rule that)
  have fh: "filePtr h \<noteq> r" "filePtr h \<noteq> a" using B(10) catalogs_files [OF L(6)] by auto
  have "catalogs (put_out s4 ?t) r a Ur Ua m A" using catalogs_apart [OF L(6) B(8) cn fh B(11)] by simp
  then have c5: "catalogs s5 r a Ur Ua m A" by (rule catalogs_apart [OF _ B(9) cn fh B(4)])
  have k5: "ddl_kept n r a s s5" by (rule ddl_kept_trans [OF L(9) apart_out_ddl_kept [OF B(8,9,7,10)]])
  have of5: "of_map (openFiles s5) n = None" using B(5) by (simp add: stored_def)
  have u: "unixFile fo \<noteq> next_fd s" if "files s5 g = Some fo" for g fo
    using files_restored [OF inv2 B(4,8,9,10) of5 that] open_below(2) [OF inv, of g fo] L(8) by auto
  obtain s6 where F: "s6 = s5\<lparr>fds := (fds s5)(next_fd s := None)\<rparr>" "db_inv s6" "\<And>name f. apart name f s5 s6" "pin_of s6 = pin_of s5"
    "files s6 = files s5"
    by (rule data_close_spec [OF B(4) u]) (assumption, rule that)
  have run: "UT_Load s n data = Some (OK, s6)" using assms(3,6) L(1-5) B(1-3) F(1) by (simp add: UT_Load_def Let_def)
  have st6: "stored s6 n k' new" using apartD(4) [OF F(3) [of "CHR ''x'' # n"] _ B(5)] by simp
  have k6: "ddl_kept n r a s s6" by (rule ddl_kept_trans [OF k5 all_apart_ddl_kept [OF B(4) F(3,4)]])
  have out: "out s6 = out s @ ?t" using apart_data(2) [OF F(3)] apart_data(2) [OF B(9)] apart_data(2) [OF B(8)] L(13) by simp
  show ?thesis
    using run st6 B(6) catalogs_all_apart [OF c5 F(3,2)] k6 out F(1)
    by (intro exI [of _ s6] exI [of _ k'] exI [of _ new]) (simp add: length_tuples)
qed

section \<open>An example\<close>

lemma data_files_simps:
  fixes s :: "'z minirel_scheme"
  shows "numBufs (s\<lparr>data_files := d\<rparr>) = numBufs s" "disk (s\<lparr>data_files := d\<rparr>) = disk s" "pin_of (s\<lparr>data_files := d\<rparr>) = pin_of s"
    "page_of (s\<lparr>data_files := d\<rparr>) = page_of s" "stored (s\<lparr>data_files := d\<rparr>) = stored s" "db_inv (s\<lparr>data_files := d\<rparr>) = db_inv s"
  by (simp_all add: page_of_def pin_of_def stored_def db_inv_def pool_ok_def coherent_def open_ok_def io_inv_def desc_ok_def
      desc_coherent_def disk_page_def file_pages_def file_name_def fun_eq_iff split: option.split)

lemma data_files_catalogs:
  fixes s :: "'z minirel_scheme"
  shows "catalogs (s\<lparr>data_files := d\<rparr>) r a Ur Ua m A = catalogs s r a Ur Ua m A"
  by (simp add: catalogs_def rel_cat_def attr_cat_def rel_open_def pool_used_def file_ok_def cached_def file_pages_def file_name_def
      data_files_simps)

lemma example_loaded:
  obtains s :: minirel and r a Ur Ua and A :: "AttrDesc multiset" and rd where "catalogs s r a Ur Ua [''emp'' \<mapsto> rd] A" "card (pinned s) + 3 \<le> numBufs s"
    "A = {#\<lparr>ad_relName = ''emp'', ad_attrName = ''age'', ad_attrOffset = 0, ad_attrType = 1, ad_attrLen = 4\<rparr>#}"
    "disk s ''data'' = None" "stored s ''emp'' 3 []"
proof -
  let ?ad = "\<lparr>ad_relName = ''emp'', ad_attrName = ''age'', ad_attrOffset = 0, ad_attrType = 1, ad_attrLen = 4\<rparr>"
  let ?rd = "\<lparr>rd_relName = ''emp'', rd_attrCnt = 1\<rparr>"
  obtain s :: minirel and r a Ur Ua where S: "catalogs s r a Ur Ua Map.empty {#}" "card (pinned s) + 3 \<le> numBufs s"
    "lay_size Ur = 3" "lay_size Ua = 3" "disk s ''data'' = None" "stored s ''emp'' 3 []" by (rule example_catalogs) (rule that)
  note C = catalogsD [OF S(1)]
  have "rel_desc_ok ?rd" by (simp add: rel_desc_ok_def c_name_def int_range_def MAXNAME_def)
  then obtain b where b: "rel_rec b ?rd" using rel_desc_rec by blast
  obtain b2 where b2: "attr_rec b2 ?ad"
    by (simp add: attr_rec_def attr_desc_ok_def AttrDesc_bytes_def name_bytes_def MAXNAME_def c_name_def int_range_def)
  have sz: "lay_size Ur < 2147483647" "lay_size Ua < 2147483647" using S(3,4) by simp_all
  obtain s1 Ur' where R: "rel_cat s1 r Ur' [''emp'' \<mapsto> ?rd]" "call_kept r s s1" "\<And>g q. g \<noteq> r \<Longrightarrow> page_of s1 g q = page_of s g q"
    by (rule addInfo_update [OF C(1) S(2) sz(1) b]) (simp, unfold RelDesc.simps, rule that)
  have inv1: "db_inv s1" using R(1) cat_open by blast
  have a1: "apart x r s s1" for x by (rule call_kept_apart [OF C(3) inv1 R(2)]) (simp add: R(3) fun_eq_iff)
  have at1: "attr_cat s1 a Ua {#}" by (rule attr_cat_apart [OF C(2) a1 [of RELCATNAME] _ C(4) inv1]) simp
  have room1: "card (pinned s1) + 3 \<le> numBufs s1" using S(2) call_kept_room [OF R(2)] by simp
  obtain s2 Ua' where T: "attr_cat s2 a Ua' (add_mset ?ad {#})" "call_kept a s1 s2" "\<And>g. g \<noteq> a \<Longrightarrow> page_of s2 g = page_of s1 g"
    by (rule attr_add [OF at1 room1 sz(2) b2]) (rule that)
  have inv2: "db_inv s2" using T(1) cat_open by blast
  have a2: "apart x a s1 s2" for x by (rule call_kept_apart [OF inv1 inv2 T(2)]) (simp add: T(3))
  have "rel_cat s2 r Ur' [''emp'' \<mapsto> ?rd]" by (rule rel_cat_apart [OF R(1) a2 [of ATTRCATNAME] _ C(4) [symmetric] inv2]) simp
  then have c: "catalogs s2 r a Ur' Ua' [''emp'' \<mapsto> ?rd] {#?ad#}" using T(1) by (simp add: catalogs_def)
  have cf: "of_map (openFiles s) ''data'' = None" using no_file_closed [OF C(3) S(5)] by (simp add: closed_free_def)
  have "disk s2 ''data'' = None" "stored s2 ''emp'' 3 []"
    using apartD(3,4,10) [OF a1 [of "[]"]] apartD(4,10) [OF a2 [of "[]"]] cf S(5,6) by simp_all
  moreover have "card (pinned s2) + 3 \<le> numBufs s2" using room1 call_kept_room [OF T(2)] by simp
  ultimately show thesis using that [OF c] by simp
qed

lemma UT_Load_loads_witness:
  "\<exists>(s :: minirel) s' k' new. stored s ''emp'' 3 [] \<and> data_files s ''data'' = Some [1, 0, 0, 0, 2, 0, 0, 0, 9] \<and>
     UT_Load s ''emp'' ''data'' = Some (OK, s') \<and> stored s' ''emp'' k' new \<and> mset (map snd new) = {#[1, 0, 0, 0], [2, 0, 0, 0]#}"
proof -
  let ?bs = "[1, 0, 0, 0, 2, 0, 0, 0, 9] :: byte list"
  obtain s0 :: minirel and r a Ur Ua and A :: "AttrDesc multiset" and rd where S: "catalogs s0 r a Ur Ua [''emp'' \<mapsto> rd] A" "card (pinned s0) + 3 \<le> numBufs s0"
    "A = {#\<lparr>ad_relName = ''emp'', ad_attrName = ''age'', ad_attrOffset = 0, ad_attrType = 1, ad_attrLen = 4\<rparr>#}"
    "disk s0 ''data'' = None" "stored s0 ''emp'' 3 []" by (rule example_loaded) (rule that)
  let ?s = "s0\<lparr>data_files := [''data'' \<mapsto> ?bs]\<rparr>"
  have st: "stored ?s ''emp'' 3 []" using S(5) by (simp add: data_files_simps)
  have c: "catalogs ?s r a Ur Ua [''emp'' \<mapsto> rd] A" using S(1) by (simp add: data_files_catalogs)
  have t: "tuples 4 ?bs = [[1, 0, 0, 0], [2, 0, 0, 0]]" by (simp add: tuples_def upt_rec)
  obtain s' k' new where "UT_Load ?s ''emp'' ''data'' = Some (OK, s')" "stored s' ''emp'' k' new"
    "mset (map snd new) = mset (tuples 4 ?bs) + mset (map snd ([] :: (RID \<times> byte list) list))"
    using UT_Load_loads [where s = ?s and w = 4 and bs = ?bs and n = "''emp''" and data = "''data''", OF c _ _ _ st] S(2-4)
    by (auto simp: data_files_simps c_name_def RELCATNAME_def ATTRCATNAME_def)
  then show ?thesis using st t by (intro exI [of _ ?s] exI [of _ s'] exI [of _ k'] exI [of _ new]) simp
qed

end
