(* ===== verification/Print.thy ===== *)
theory Print
  imports Load
begin

text \<open>
  Printing a relation (print.C). UT_Print scans the relation and writes a line for every record; the
  theorem gives the whole output: the header, the rows in the order of the file, and the count.
\<close>

section \<open>The output\<close>

definition col_width :: "AttrDesc \<Rightarrow> nat" where
  "col_width ad = the (column_width ad)"

definition header_text :: "AttrDesc list \<Rightarrow> string" where
  "header_text ads = concat (map (\<lambda>ad. pad_right (col_width ad) (take (col_width ad) (ad_attrName ad)) @ '' '') ads) @ newline @
     concat (map (\<lambda>ad. replicate (col_width ad) (CHR ''-'') @ ''  '') ads) @ newline"

definition row_text :: "AttrDesc list \<Rightarrow> byte list \<Rightarrow> string" where
  "row_text ads r = concat (map (\<lambda>ad. print_field ad (col_width ad) (bytes_mem r)) ads) @ newline"

text \<open>The value is inside the record; a string ends there or fills its column.\<close>

definition printable :: "AttrDesc \<Rightarrow> byte list \<Rightarrow> bool" where
  "printable ad r \<longleftrightarrow> 0 \<le> ad_attrOffset ad \<and> (case type_of_code (ad_attrType ad) of
     None \<Rightarrow> False
   | Some STRING \<Rightarrow> ad_attrOffset ad + int (col_width ad) \<le> int (length r) \<or>
       (\<exists>j < col_width ad. ad_attrOffset ad + int j < int (length r) \<and> r ! nat (ad_attrOffset ad + int j) = 0)
   | Some _ \<Rightarrow> ad_attrOffset ad + 4 \<le> int (length r))"

lemma c_string_cong:
  assumes "\<And>i. i \<le> j \<Longrightarrow> m (a + int i) = m' (a + int i)" "m' (a + int j) = 0" "j < p"
  shows "c_string (rd_bytes m a p) = c_string (rd_bytes m' a p)"
proof -
  have split: "[0..<p] = [0..<Suc j] @ [Suc j..<p]" using assms(3) by (metis Suc_leI le_add_diff_inverse upt_add_eq_append zero_le)
  have z: "takeWhile (\<lambda>b. b \<noteq> 0) (rd_bytes m'' a p) = takeWhile (\<lambda>b. b \<noteq> 0) (rd_bytes m'' a (Suc j))" if "m'' (a + int j) = 0" for m'' :: mem
    unfolding rd_bytes_def split map_append by (rule takeWhile_append1 [of "m'' (a + int j)"]) (use that in auto)
  have "rd_bytes m a (Suc j) = rd_bytes m' a (Suc j)" by (rule rd_bytes_cong) (simp add: assms(1))
  then show ?thesis using z [of m] z [of m'] assms(1) [of j] assms(2) by (simp add: c_string_def)
qed

lemma print_field_cong:
  assumes m: "\<And>x. 0 \<le> x \<Longrightarrow> x < int (length r) \<Longrightarrow> m x = bytes_mem r x" and p: "printable ad r"
  shows "print_field ad (col_width ad) m = print_field ad (col_width ad) (bytes_mem r)"
proof -
  let ?a = "ad_attrOffset ad" and ?w = "col_width ad"
  obtain t where t: "type_of_code (ad_attrType ad) = Some t" using p by (cases "type_of_code (ad_attrType ad)") (simp_all add: printable_def)
  show ?thesis
  proof (cases "t = STRING")
    case True
    then consider "?a + int ?w \<le> int (length r)" | j where "j < ?w" "?a + int j < int (length r)" "r ! nat (?a + int j) = 0"
      using p t by (auto simp: printable_def)
    then have "prec_string ?w m ?a = prec_string ?w (bytes_mem r) ?a"
    proof cases
      case 1
      have "rd_bytes m ?a ?w = rd_bytes (bytes_mem r) ?a ?w" by (rule rd_bytes_cong) (use m 1 p in \<open>simp add: printable_def\<close>)
      then show ?thesis by (simp add: prec_string_def)
    next
      case 2
      show ?thesis unfolding prec_string_def
        by (rule c_string_cong [OF _ _ 2(1)]) (use m 2(2,3) p in \<open>simp_all add: printable_def bytes_mem_def\<close>)
    qed
    then show ?thesis using t True by (simp add: print_field_def Let_def)
  next
    case False
    then have "?a + 4 \<le> int (length r)" "0 \<le> ?a" using p t by (cases t; simp add: printable_def)+
    then have "rd_int m ?a = rd_int (bytes_mem r) ?a" using m by (simp add: rd_int_def)
    then show ?thesis using t False by (cases t) (simp_all add: print_field_def Let_def)
  qed
qed

lemma printable_width: "printable ad r \<Longrightarrow> column_width ad = Some (col_width ad)"
  by (cases "type_of_code (ad_attrType ad)") (auto simp: printable_def col_width_def column_width_def Let_def split: Datatype.splits)

lemma printRec_text:
  assumes "\<And>x. 0 \<le> x \<Longrightarrow> x < int (length r) \<Longrightarrow> m x = bytes_mem r x" "\<forall>ad \<in> set ads. printable ad r"
  shows "UT_printRec ads (UT_computeWidth ads) m = Some (row_text ads r)"
  using assms(2) by (induction ads) (simp_all add: row_text_def printable_width [of _ r] print_field_cong [OF assms(1)])

lemma header_text:
  assumes "\<forall>ad \<in> set ads. column_width ad = Some (col_width ad)"
  obtains h l where "print_header ads (UT_computeWidth ads) = Some h" "print_rule (UT_computeWidth ads) = Some l" "h @ l = header_text ads"
proof -
  have "print_header ads (UT_computeWidth ads) =
      Some (concat (map (\<lambda>ad. pad_right (col_width ad) (take (col_width ad) (ad_attrName ad)) @ '' '') ads) @ newline)"
    using assms by (induction ads) simp_all
  moreover have "print_rule (UT_computeWidth ads) = Some (concat (map (\<lambda>ad. replicate (col_width ad) (CHR ''-'') @ ''  '') ads) @ newline)"
    using assms by (induction ads) simp_all
  ultimately show thesis by (rule that) (simp add: header_text_def)
qed

section \<open>Work between outputs\<close>

text \<open>States up to what has been printed.\<close>

definition mute :: "'z minirel_scheme \<Rightarrow> 'z minirel_scheme" where
  "mute s = s\<lparr>out := []\<rparr>"

lemma mute_simps [simp]:
  "numBufs (mute s) = numBufs s" "openFiles (mute s) = openFiles s" "disk (mute s) = disk s" "files (mute s) = files s"
  "page_of (mute s) = page_of s" "pin_of (mute s) = pin_of s" "stored (mute s) = stored s" "mute (put_out s t) = mute s"
  by (simp_all add: mute_def put_out_def page_of_def pin_of_def stored_def disk_page_def file_pages_def file_name_def fun_eq_iff split: option.split)

lemma mute_inv [simp]: "db_inv (mute s) = db_inv s"
  by (simp add: mute_def db_inv_def pool_ok_def coherent_def open_ok_def io_inv_def file_name_def desc_ok_def desc_coherent_def
      disk_page_def file_pages_def)

lemma mute_open [simp]: "rel_open (mute s) n f U hdr xs = rel_open s n f U hdr xs"
  by (simp add: rel_open_def pool_used_def file_ok_def cached_def) (simp add: mute_def file_pages_def file_name_def)

lemma mute_rel_cat [simp]: "rel_cat (mute s) f U m = rel_cat s f U m"
  by (simp add: rel_cat_def)

lemma apart_mute:
  fixes s s' :: "'z minirel_scheme"
  assumes "apart n f s s'"
  shows "apart n f (mute s) (mute s')"
proof -
  have "db.more s' = db.more s" by (rule apartD(2) [OF assms])
  then have m: "db.more (mute s') = db.more (mute s)" by (cases s; cases s') (simp add: mute_def)
  have u: "pool_used (mute s) g V = pool_used s g V" "pool_frame (mute s) g q = pool_frame s g q" "settled (mute s) g q = settled s g q"
    for s :: "'z minirel_scheme" and g V q
    by (simp_all add: settled_def) (simp_all add: mute_def pool_used_def pool_frame_def file_ok_def cached_def file_pages_def file_name_def disk_page_def)
  show ?thesis using assms m unfolding apart_def u by simp
qed

section \<open>The loop\<close>

lemma put_out_scan_own [simp]: "scan_own (put_out s t) n h U B hdr xs rest = scan_own s n h U B hdr xs rest"
  by (simp add: scan_own_def scan_rest_def)

lemma print_loop_spec:
  fixes s :: "'z minirel_scheme"
  assumes "scan_own s n h U B hdr xs rest" "\<forall>r. HeapFileScan_matchRec h r" "\<forall>r \<in> snd ` set rest. \<forall>ad \<in> set ads. printable ad r"
  shows "\<exists>s' h'. print_loop s h ads (UT_computeWidth ads) cnt = Some (False, FILEEOF, cnt + int (length rest), s', h') \<and>
    scan_own s' n h' U B hdr xs [] \<and> filePtr h' = filePtr h \<and> apart n (filePtr h) (mute s) (mute s') \<and>
    page_of s' = page_of s \<and> out s' = out s @ concat (map (row_text ads \<circ> snd) rest)"
  using assms
proof (induction rest arbitrary: s h cnt)
  case Nil
  obtain st o2 s2 h2 where N: "HeapFileScan_scanNext s h = Some (st, o2, s2, h2)" "same_scan h h2" "apart n (filePtr h) s s2"
    "page_of s2 = page_of s" "db_inv s2" "st = FILEEOF" "scan_own s2 n h2 U B hdr xs []"
    by (rule scan_own_next [OF Nil(1)]) (rule that, simp_all)
  have "print_loop s h ads (UT_computeWidth ads) cnt = Some (False, FILEEOF, cnt, s2, h2)" using N(1,6) by (subst print_loop.simps) simp
  then show ?case using N(3,4,7) apart_mute [OF N(3)] apart_data(2) [OF N(3)] same_scanD [OF N(2)] by (intro exI [of _ s2] exI [of _ h2]) simp
next
  case (Cons x rest)
  obtain rid r where x: "x = (rid, r)" by (cases x)
  obtain st o2 s2 h2 where M: "HeapFileScan_scanNext s h = Some (st, o2, s2, h2)" "same_scan h h2" "apart n (filePtr h) s s2"
    "page_of s2 = page_of s" "case dropWhile (\<lambda>(rid, rec). \<not> HeapFileScan_matchRec h rec) (x # rest) of
       [] \<Rightarrow> st = FILEEOF \<and> scan_own s2 n h2 U B hdr xs []
     | (rid, rec) # rs \<Rightarrow> st = OK \<and> o2 = Some rid \<and> curRec h2 = rid \<and> pageNo rid = cur_pageNo h2 \<and>
         HeapFileScan_getRecord s2 h2 = Some (OK, Some rec) \<and> scan_own s2 n h2 U B hdr xs rs"
    by (rule scan_own_next [OF Cons.prems(1)]) (rule that)
  have N: "HeapFileScan_scanNext s h = Some (st, o2, s2, h2)" "same_scan h h2" "apart n (filePtr h) s s2" "page_of s2 = page_of s"
    "st = OK" "HeapFileScan_getRecord s2 h2 = Some (OK, Some r)" "scan_own s2 n h2 U B hdr xs rest"
    using M Cons.prems(2) x by simp_all
  have f: "filePtr h2 = filePtr h" "\<forall>r. HeapFileScan_matchRec h2 r" using same_scanD [OF N(2)] Cons.prems(2) by simp_all
  obtain p where p: "scan_rec_ptr s2 h2 = Some p" "\<And>x. 0 \<le> x \<Longrightarrow> x < int (length r) \<Longrightarrow> ptr_mem s2 p x = bytes_mem r x"
    by (rule scan_rec_mem [OF N(6)]) (rule that)
  have pr: "\<forall>ad \<in> set ads. printable ad r" "\<forall>r \<in> snd ` set rest. \<forall>ad \<in> set ads. printable ad r" using Cons.prems(3) x by auto
  let ?s = "put_out s2 (row_text ads r)"
  have step: "print_loop s h ads (UT_computeWidth ads) cnt = print_loop ?s h2 ads (UT_computeWidth ads) (cnt + 1)"
    using N(1,5,6) p(1) printRec_text [OF p(2) pr(1)] by (subst print_loop.simps) simp
  have so: "scan_own ?s n h2 U B hdr xs rest" using N(7) by simp
  obtain s' h' where R: "print_loop ?s h2 ads (UT_computeWidth ads) (cnt + 1) = Some (False, FILEEOF, cnt + 1 + int (length rest), s', h')"
    "scan_own s' n h' U B hdr xs []" "filePtr h' = filePtr h2" "apart n (filePtr h2) (mute ?s) (mute s')" "page_of s' = page_of ?s"
    "out s' = out ?s @ concat (map (row_text ads \<circ> snd) rest)"
    using Cons.IH [OF so f(2) pr(2), of "cnt + 1"] by blast
  have "apart n (filePtr h) (mute s) (mute s')"
    by (rule apart_trans [OF apart_mute [OF N(3)] R(4) [unfolded f(1) mute_simps]])
      (use scan_own_pins(1) [OF N(7)] scan_own_pins(1) [OF Cons.prems(1)] f(1) in \<open>simp add: with_obj_same\<close>)
  then show ?case
    using step R(1-3,5,6) f(1) N(4) x apart_data(2) [OF N(3)] by (intro exI [of _ s'] exI [of _ h']) (simp add: comp_def)
qed

section \<open>UT_Print\<close>

lemma header_out: "put_out (put_out s t) u = put_out s (t @ u)"
  by (simp add: put_out_def)

text \<open>From the opened relation to the closed one.\<close>

lemma print_body:
  fixes s :: "'z minirel_scheme"
  assumes inv: "db_inv s" and st: "stored s n k recs" and pr: "\<forall>r \<in> snd ` set recs. \<forall>ad \<in> set ads. printable ad r"
    and room: "card (pinned s) + 2 \<le> numBufs s"
  obtains h s1 s2 h2 s3 h3 s4 where "HeapFileScan_new s n = Some (OK, Some h, s1)"
    "print_loop (put_out s1 t) (h\<lparr>sc_filter := None\<rparr>) ads (UT_computeWidth ads) 0 = Some (False, FILEEOF, int (length recs), s2, h2)"
    "HeapFileScan_endScan (put_out s2 u) h2 = Some (OK, s3, h3)" "HeapFileScan_delete s3 h3 = Some s4"
    "db_inv s4" "stored s4 n k recs" "pin_of s4 = pin_of s" "apart n (filePtr h) (mute s) (mute s4)" "files s (filePtr h) = None"
    "out s4 = out s @ t @ concat (map (row_text ads \<circ> snd) recs) @ u"
proof -
  obtain s1 U hdr xs and h :: filescan where A: "HeapFileScan_new s n = Some (OK, Some h, s1)" "scan_own s1 n h U (pin_of s) hdr xs recs"
    "lay_size U = k" "apart n (filePtr h) s s1" "files s (filePtr h) = None" "chain_recs (page_of s1 (filePtr h)) xs = recs"
    by (rule HeapFileScan_new_own [OF inv st room]) (rule that)
  let ?h = "h\<lparr>sc_filter := None\<rparr>"
  have e: "?h = h\<lparr>sc_offset := sc_offset h, sc_length := sc_length h, sc_type := sc_type h, sc_filter := None, sc_op := sc_op h\<rparr>" by simp
  have "scan_own s1 n ?h U (pin_of s) hdr xs recs" by (subst e) (rule scan_own_startScan [OF A(2)])
  then have so: "scan_own (put_out s1 t) n ?h U (pin_of s) hdr xs recs" by simp
  have all: "\<forall>r. HeapFileScan_matchRec ?h r" by (simp add: HeapFileScan_matchRec_def)
  obtain s2 h2 where L: "print_loop (put_out s1 t) ?h ads (UT_computeWidth ads) 0 = Some (False, FILEEOF, int (length recs), s2, h2)"
    "scan_own s2 n h2 U (pin_of s) hdr xs []" "filePtr h2 = filePtr ?h" "apart n (filePtr ?h) (mute (put_out s1 t)) (mute s2)"
    "page_of s2 = page_of (put_out s1 t)" "out s2 = out (put_out s1 t) @ concat (map (row_text ads \<circ> snd) recs)"
    using print_loop_spec [OF so all pr, of 0] by auto
  obtain x where x: "own (put_out s2 u) n h2 U (pin_of s) hdr xs x" using L(2) by (auto simp: scan_own_def)
  obtain s3 h3 s4 where D: "HeapFileScan_endScan (put_out s2 u) h2 = Some (OK, s3, h3)" "HeapFileScan_delete s3 h3 = Some s4"
    "db_inv s4" "apart n (filePtr h2) (put_out s2 u) s4" "pin_of s4 = pin_of s"
    "stored s4 n (lay_size U) (chain_recs (page_of (put_out s2 u) (filePtr h2)) xs)"
    by (rule HeapFileScan_delete_own [OF x]) (rule that)
  have a12: "apart n (filePtr h) (mute s) (mute s2)"
    by (rule apart_trans [OF apart_mute [OF A(4)]]) (use L(4) scan_own_pins(1) [OF A(2)] in \<open>simp_all add: with_obj_same\<close>)
  have a24: "apart n (filePtr h) (mute s2) (mute s4)" using apart_mute [OF D(4)] L(3) by simp
  have a: "apart n (filePtr h) (mute s) (mute s4)"
    by (rule apart_trans [OF a12 a24]) (use scan_own_pins(1) [OF L(2)] L(3) in \<open>simp add: with_obj_same\<close>)
  have st4: "stored s4 n k recs" using D(6) L(3,5) A(3,6) by simp
  have out: "out s4 = out s @ t @ concat (map (row_text ads \<circ> snd) recs) @ u"
    using apart_data(2) [OF D(4)] L(6) apart_data(2) [OF A(4)] by simp
  show thesis by (rule that [OF A(1) L(1) D(1-3) st4 D(5) a A(5) out])
qed

text \<open>
  C11: Printing a relation shows what it holds. UT_Print answers OK and adds to the output the header
  with the attributes in the order of the catalog, one row for each record in the order of the file,
  and their number; nothing else changes: the relation, the other closed relations, the catalogs and
  the pins are as before.
\<close>
theorem UT_Print_prints:
  fixes s :: "'z minirel_scheme"
  assumes "rel_cat s r Ur m" "rel_open s ATTRCATNAME a Ua hdr xs" "cat = chain_recs (page_of s a) xs" "attr_recs cat"
    and "m n = Some rd" "n \<noteq> []" "c_name n" "stored s n k recs" "ads = rel_attrs cat n" "ads \<noteq> []"
    and "\<forall>ad \<in> set ads. type_of_code (ad_attrType ad) \<noteq> None" "\<forall>rec \<in> snd ` set recs. \<forall>ad \<in> set ads. printable ad rec"
    and "card (pinned s) + 2 \<le> numBufs s"
  shows "\<exists>s'. UT_Print s n = Some (OK, s') \<and>
    out s' = out s @ (''Relation name: '' @ n @ newline @ newline @ header_text ads) @ concat (map (row_text ads \<circ> snd) recs) @
      newline @ ''Number of records: '' @ dec_int (int (length recs)) @ newline \<and>
    stored s' n k recs \<and> (\<forall>name j rs. name \<noteq> n \<and> stored s name j rs \<longrightarrow> stored s' name j rs) \<and> rel_cat s' r Ur m \<and> rel_open s' ATTRCATNAME a Ua hdr xs \<and>
    page_of s' a = page_of s a \<and> pin_of s' = pin_of s"
proof -
  have ne: "rel_attrs cat n \<noteq> []" using assms(9,10) by simp
  obtain s1 s2 where L: "RelCatalog_getInfo s n = Some (OK, Some rd, s1)" "rd_relName rd = n"
    "AttrCatalog_getRelInfo s1 n = Some (OK, rel_attrs cat n, s2)" "rel_cat s2 r Ur m" "rel_open s2 ATTRCATNAME a Ua hdr xs"
    "page_of s2 = page_of s" "pin_of s2 = pin_of s" "\<And>x. ddl_kept x r a s s2" "files s2 = files s"
    "\<And>x k recs. stored s x k recs \<Longrightarrow> stored s2 x k recs" "\<And>x. of_map (openFiles s2) x = of_map (openFiles s) x"
    "\<And>x. of_map (openFiles s) x = None \<Longrightarrow> disk s2 x = disk s x" "db.more s2 = db.more s"
    by (rule rel_lookup [OF assms(1-4,13,6,7,5) ne]) (rule that)
  have inv2: "db_inv s2" using L(5) by (simp add: rel_open_def)
  have n2: "numBufs s2 = numBufs s" using L(8) by (simp add: ddl_kept_def)
  have room2: "card (pinned s2) + 2 \<le> numBufs s2" using assms(13) L(7) n2 by simp
  have out2: "out s2 = out s" using L(13) by (cases s; cases s2) simp
  have w: "\<forall>ad \<in> set ads. column_width ad = Some (col_width ad)"
    using assms(11) by (auto simp: col_width_def column_width_def Let_def split: Datatype.splits)
  obtain hd l where H: "print_header ads (UT_computeWidth ads) = Some hd" "print_rule (UT_computeWidth ads) = Some l" "hd @ l = header_text ads"
    by (rule header_text [OF w]) (rule that)
  let ?t = "''Relation name: '' @ n @ newline @ newline @ header_text ads"
  let ?u = "newline @ ''Number of records: '' @ dec_int (int (length recs)) @ newline"
  obtain h s3 s4 h4 s5 h5 s6 where B: "HeapFileScan_new s2 n = Some (OK, Some h, s3)"
    "print_loop (put_out s3 ?t) (h\<lparr>sc_filter := None\<rparr>) ads (UT_computeWidth ads) 0 = Some (False, FILEEOF, int (length recs), s4, h4)"
    "HeapFileScan_endScan (put_out s4 ?u) h4 = Some (OK, s5, h5)" "HeapFileScan_delete s5 h5 = Some s6"
    "db_inv s6" "stored s6 n k recs" "pin_of s6 = pin_of s2" "apart n (filePtr h) (mute s2) (mute s6)" "files s2 (filePtr h) = None"
    "out s6 = out s2 @ ?t @ concat (map (row_text ads \<circ> snd) recs) @ ?u"
    by (rule print_body [OF inv2 L(10) [OF assms(8)] assms(12) room2]) (rule that)
  have run: "UT_Print s n = Some (OK, s6)"
    using assms(6,9) L(1-3) B(1-4) H
    by (simp add: UT_Print_def Let_def header_out HeapFileScan_startScan_def append_assoc [symmetric] del: append_assoc)
  have nn: "n \<noteq> RELCATNAME" "n \<noteq> ATTRCATNAME" using assms(2,8) cat_open(1) [OF assms(1)] by (auto simp: stored_def rel_open_def)
  have "of_map (openFiles s2) RELCATNAME = Some r" "of_map (openFiles s2) ATTRCATNAME = Some a"
    using cat_open(1) [OF L(4)] L(5) by (simp_all add: rel_open_def)
  then have fh: "r \<noteq> filePtr h" "a \<noteq> filePtr h" using open_files [OF inv2] B(9) by blast+
  have "rel_cat (mute s2) r Ur m" "rel_open (mute s2) ATTRCATNAME a Ua hdr xs" using L(4,5) by simp_all
  then have "rel_cat (mute s6) r Ur m" "rel_open (mute s6) ATTRCATNAME a Ua hdr xs" "page_of (mute s6) a = page_of (mute s2) a"
    using rel_cat_apart [OF _ B(8) nn(1) fh(1) [symmetric]] rel_open_apart [OF _ B(8) nn(2) [symmetric] fh(2)] B(5) by simp_all
  moreover have "stored s6 name j rs" if "name \<noteq> n" "stored s name j rs" for name j rs
    using apartD(4) [OF B(8) that(1)] L(10) [OF that(2)] by simp
  ultimately show ?thesis using run B(6,7,10) L(6,7) out2 by (intro exI [of _ s6]) simp
qed

section \<open>An example\<close>

lemma UT_Print_prints_witness:
  "\<exists>(s :: minirel) n rid s'. stored s ''emp'' n [(rid, [7, 0, 0, 0])] \<and> UT_Print s ''emp'' = Some (OK, s') \<and>
     out s' = out s @ ''Relation name: emp'' @ newline @ newline @ ''age   '' @ newline @ ''-----  '' @ newline @ ''7      '' @ newline @
       newline @ ''Number of records: 1'' @ newline"
proof -
  let ?ad = "\<lparr>ad_relName = ''emp'', ad_attrName = ''age'', ad_attrOffset = 0, ad_attrType = 1, ad_attrLen = 4\<rparr>"
  obtain s0 :: minirel and r a Ur Ua and A :: "AttrDesc multiset" and rd where S: "catalogs s0 r a Ur Ua [''emp'' \<mapsto> rd] A" "card (pinned s0) + 3 \<le> numBufs s0"
    "A = {#?ad#}" "disk s0 ''data'' = None" "stored s0 ''emp'' 3 []" by (rule example_loaded) (rule that)
  note C = catalogsD [OF S(1)]
  have r: "[7, 0, 0, 0] \<noteq> ([] :: byte list)" "length ([7, 0, 0, 0] :: byte list) \<le> 1000" "(3 :: nat) < 2147483647" by simp_all
  obtain h1 :: heapfile and s rid n new where I: "db_inv s" "stored s ''emp'' n new" "mset new = add_mset (rid, [7, 0, 0, 0]) (mset [])"
    "apart ''emp'' (filePtr h1) s0 s" "pin_of s = pin_of s0" "files s0 (filePtr h1) = None"
    by (rule insert_stored [OF C(3) S(5) r(1,2) S(2) r(3)]) (rule that)
  have st: "stored s ''emp'' n [(rid, [7, 0, 0, 0])]" using I(2,3) by simp
  have "catalogs s r a Ur Ua [''emp'' \<mapsto> rd] A"
    by (rule catalogs_apart [OF S(1) I(4) _ _ _ _ I(1)]) (use catalogs_files [OF S(1)] I(6) in \<open>auto simp: RELCATNAME_def ATTRCATNAME_def\<close>)
  then obtain hdr xs where T: "rel_cat s r Ur [''emp'' \<mapsto> rd]" "rel_open s ATTRCATNAME a Ua hdr xs" "attr_recs (chain_recs (page_of s a) xs)"
    "mset (attr_list (chain_recs (page_of s a) xs)) = A" by (auto simp: catalogs_def attr_cat_def)
  have ads: "[?ad] = rel_attrs (chain_recs (page_of s a) xs) ''emp''" using T(4) S(3) by (simp add: rel_attrs_def)
  have w: "col_width ?ad = 5" by (simp add: col_width_def column_width_def type_of_code_def)
  have d: "dec_int 7 = ''7''" "dec_int 1 = ''1''" by code_simp+
  have h: "header_text [?ad] = ''age   '' @ newline @ ''-----  '' @ newline"
    by (simp add: header_text_def w pad_right_def numeral_eq_Suc)
  have f: "print_field ?ad 5 (bytes_mem [7, 0, 0, 0]) = ''7      ''"
  proof -
    have v: "rd_int (bytes_mem [7, 0, 0, 0]) 0 = 7" by (simp add: rd_int_def bytes_mem_def)
    have p: "pad_right 5 ''7'' = ''7    ''" by (simp add: pad_right_def numeral_eq_Suc)
    show ?thesis by (simp add: print_field_def type_of_code_def v d(1) p)
  qed
  have row: "row_text [?ad] [7, 0, 0, 0] = ''7      '' @ newline" by (simp add: row_text_def w f)
  have room: "card (pinned s) + 2 \<le> numBufs s" using S(2) I(5) apartD(1) [OF I(4)] by simp
  have p: "printable ?ad [7, 0, 0, 0]" by (simp add: printable_def type_of_code_def)
  obtain s' where "UT_Print s ''emp'' = Some (OK, s')"
    "out s' = out s @ (''Relation name: '' @ ''emp'' @ newline @ newline @ header_text [?ad]) @ concat (map (row_text [?ad] \<circ> snd) [(rid, [7, 0, 0, 0])]) @
      newline @ ''Number of records: '' @ dec_int (int (length [(rid, [7, 0, 0, 0] :: byte list)])) @ newline"
    using UT_Print_prints [OF T(1,2) refl T(3) _ _ _ st ads _ _ _ room] p by (auto simp: c_name_def type_of_code_def)
  then show ?thesis using st h row d(2) by (intro exI [of _ s] exI [of _ n] exI [of _ rid] exI [of _ s']) simp
qed

end
