(* ===== verification/JoinHT.thy ===== *)
theory JoinHT
  imports Query
begin

text \<open>
  The hash table for joins (joinHT.h, joinHT.C): chains of (join attribute value, RID) pairs. The
  union of the value is read according to the type of the join attribute; a value of another
  type is never set. What the table prints for an illegal type goes to the output.
\<close>

datatype JAttrType = IValue int | FValue fval | SValue "byte list" | Unset

record joinhashBucket =
  jb_value :: JAttrType
  jb_rid :: RID

record HTentry =
  bucketCnt :: int
  jchain :: "joinhashBucket list"

record joinHashTbl =
  joinAttr :: AttrDesc
  j_HTSIZE :: int
  j_ht :: "HTentry list"

definition joinHashTbl_new :: "int \<Rightarrow> AttrDesc \<Rightarrow> joinHashTbl" where
  "joinHashTbl_new htSize attr =
     \<lparr>joinAttr = attr, j_HTSIZE = htSize, j_ht = replicate (nat htSize) \<lparr>bucketCnt = 0, jchain = []\<rparr>\<rparr>"

text \<open>The destructor: the chains are freed.\<close>

definition joinHashTbl_delete :: "joinHashTbl \<Rightarrow> joinHashTbl" where
  "joinHashTbl_delete t = t\<lparr>j_ht := map (\<lambda>e. e\<lparr>jchain := []\<rparr>) (j_ht t)\<rparr>"

section \<open>The hash function\<close>

definition schar :: "byte \<Rightarrow> int" where
  "schar b = sint b"

text \<open>The pointer is advanced before the character is added: the first character is left out, the
  terminator is included.\<close>

partial_function (option) hash_string :: "mem \<Rightarrow> int \<Rightarrow> int \<Rightarrow> int option" where
  "hash_string m a value =
     (if m a = 0 then Some value
      else hash_string m (a + 1) (wrap32 (wrap32 (31 * value) + schar (m (a + 1)))))"

text \<open>A product that overflows wraps; a float that does not fit an int is undefined, as is a size
  of zero.\<close>

definition joinHashTbl_hash :: "joinHashTbl \<Rightarrow> mem \<Rightarrow> int \<Rightarrow> 'z minirel_scheme \<Rightarrow> (int \<times> 'z minirel_scheme) option" where
  "joinHashTbl_hash t m attrType s = do {
     (value, s) \<leftarrow>
       (case type_of_code attrType of
          Some INTEGER \<Rightarrow> Some (wrap32 (wrap32 (rd_int m 0 * j_HTSIZE t) * 31), s)
        | Some FLOAT \<Rightarrow> do {
            v \<leftarrow> fl_to_int (fl_scale (fl_scale (rd_float m 0) (j_HTSIZE t)) 31);
            Some (v, s) }
        | Some STRING \<Rightarrow> do { v \<leftarrow> hash_string m 0 0; Some (v, s) }
        | None \<Rightarrow> Some (0, put_out s (''illegal type in joinHT hash'' @ newline)));
     if j_HTSIZE t = 0 then None else Some (\<bar>c_rem value (j_HTSIZE t)\<bar>, s) }"

section \<open>Insertion and lookup\<close>

definition joinHashTbl_insert ::
  "joinHashTbl \<Rightarrow> RID \<Rightarrow> mem \<Rightarrow> 'z minirel_scheme \<Rightarrow> (Status \<times> joinHashTbl \<times> 'z minirel_scheme) option" where
  "joinHashTbl_insert t newRid tuple s = do {
     let m = (\<lambda>x. tuple (ad_attrOffset (joinAttr t) + x));
     (index, s) \<leftarrow> joinHashTbl_hash t m (ad_attrType (joinAttr t)) s;
     let (value, s) =
       (case type_of_code (ad_attrType (joinAttr t)) of
          Some INTEGER \<Rightarrow> (IValue (rd_int m 0), s)
        | Some FLOAT \<Rightarrow> (FValue (rd_float m 0), s)
        | Some STRING \<Rightarrow> (SValue (rd_bytes m 0 (nat (ad_attrLen (joinAttr t)))), s)
        | None \<Rightarrow> (Unset, put_out s (''illegal type in joinHT insert'' @ newline)));
     let e = j_ht t ! nat index;
     let e = \<lparr>bucketCnt = bucketCnt e + 1, jchain = \<lparr>jb_value = value, jb_rid = newRid\<rparr> # jchain e\<rparr>;
     Some (OK, t\<lparr>j_ht := (j_ht t)[nat index := e]\<rparr>, s) }"

definition fval_eq :: "fval \<Rightarrow> fval \<Rightarrow> bool" where
  "fval_eq a b \<longleftrightarrow> a = b \<and> a \<noteq> NotANumber"

definition bucket_match :: "joinHashTbl \<Rightarrow> mem \<Rightarrow> joinhashBucket \<Rightarrow> bool" where
  "bucket_match t m b =
     (case jb_value b of
        IValue i \<Rightarrow> i = rd_int m 0
      | FValue f \<Rightarrow> fval_eq f (rd_float m 0)
      | SValue bs \<Rightarrow> strncmp (bytes_mem bs) 0 m 0 (nat (ad_attrLen (joinAttr t))) = 0
      | Unset \<Rightarrow> False)"

text \<open>The array of the result has room for as many RIDs as the count of the chain says; writing
  more is undefined.\<close>

fun lookup_loop :: "joinHashTbl \<Rightarrow> mem \<Rightarrow> int \<Rightarrow> joinhashBucket list \<Rightarrow> RID list \<Rightarrow> 'z minirel_scheme
    \<Rightarrow> (RID list \<times> 'z minirel_scheme) option" where
  "lookup_loop t m cap [] rids s = Some (rids, s)"
| "lookup_loop t m cap (b # bs) rids s =
     (let s = (if type_of_code (ad_attrType (joinAttr t)) = None
               then put_out s (''illegal type in joinHT lookup'' @ newline) else s)
      in if bucket_match t m b then
           if int (length rids) < cap then lookup_loop t m cap bs (rids @ [jb_rid b]) s else None
         else lookup_loop t m cap bs rids s)"

definition joinHashTbl_lookup ::
  "joinHashTbl \<Rightarrow> mem \<Rightarrow> 'z minirel_scheme \<Rightarrow> (Status \<times> RID list \<times> 'z minirel_scheme) option" where
  "joinHashTbl_lookup t m s = do {
     (index, s) \<leftarrow> joinHashTbl_hash t m (ad_attrType (joinAttr t)) s;
     let e = j_ht t ! nat index;
     (rids, s) \<leftarrow> lookup_loop t m (bucketCnt e) (jchain e) [] s;
     Some (OK, rids, s) }"


section \<open>The table as a list of pairs\<close>

definition jh_inv :: "joinHashTbl \<Rightarrow> bool" where
  "jh_inv t \<longleftrightarrow> 0 < j_HTSIZE t \<and> int (length (j_ht t)) = j_HTSIZE t \<and>
     (\<forall>e \<in> set (j_ht t). bucketCnt e = int (length (jchain e)))"

lemma jh_new_inv: "0 < htSize \<Longrightarrow> jh_inv (joinHashTbl_new htSize attr)"
  by (auto simp: jh_inv_def joinHashTbl_new_def)

lemma jh_hash_bounds:
  assumes "joinHashTbl_hash t m ty s = Some (i, s')" "jh_inv t"
  shows "0 \<le> i" "nat i < length (j_ht t)"
proof -
  obtain v where "i = \<bar>c_rem v (j_HTSIZE t)\<bar>"
    using assms(1) by (auto simp: joinHashTbl_hash_def bind_eq_Some_conv split: if_splits)
  moreover have "0 < j_HTSIZE t" "int (length (j_ht t)) = j_HTSIZE t" using assms(2) by (simp_all add: jh_inv_def)
  ultimately show "0 \<le> i" "nat i < length (j_ht t)"
    using c_rem_bounds [of "j_HTSIZE t" v] by auto
qed

lemma jh_insert_inv:
  assumes "jh_inv t" "joinHashTbl_insert t rid tuple s = Some (st, t', s')"
  shows "jh_inv t' \<and> j_HTSIZE t' = j_HTSIZE t \<and> joinAttr t' = joinAttr t"
proof -
  let ?m = "\<lambda>x. tuple (ad_attrOffset (joinAttr t) + x)"
  obtain i s1 where i: "joinHashTbl_hash t ?m (ad_attrType (joinAttr t)) s = Some (i, s1)"
    using assms(2) by (auto simp: joinHashTbl_insert_def Let_def bind_eq_Some_conv)
  obtain v s2 where v: "(case type_of_code (ad_attrType (joinAttr t)) of
          Some INTEGER \<Rightarrow> (IValue (rd_int ?m 0), s1)
        | Some FLOAT \<Rightarrow> (FValue (rd_float ?m 0), s1)
        | Some STRING \<Rightarrow> (SValue (rd_bytes ?m 0 (nat (ad_attrLen (joinAttr t)))), s1)
        | None \<Rightarrow> (Unset, put_out s1 (''illegal type in joinHT insert'' @ newline))) = (v, s2)"
    by (rule prod.exhaust)
  define e where "e = \<lparr>bucketCnt = bucketCnt (j_ht t ! nat i) + 1,
      jchain = \<lparr>jb_value = v, jb_rid = rid\<rparr> # jchain (j_ht t ! nat i)\<rparr>"
  have t': "t' = t\<lparr>j_ht := (j_ht t)[nat i := e]\<rparr>"
    using assms(2) i v by (simp add: joinHashTbl_insert_def Let_def e_def)
  have e: "bucketCnt e = bucketCnt (j_ht t ! nat i) + 1" "length (jchain e) = Suc (length (jchain (j_ht t ! nat i)))"
    by (simp_all add: e_def)
  have "nat i < length (j_ht t)" using jh_hash_bounds [OF i assms(1)] by simp
  then have "bucketCnt (j_ht t ! nat i) = int (length (jchain (j_ht t ! nat i)))"
    using assms(1) by (simp add: jh_inv_def)
  then have "bucketCnt e = int (length (jchain e))" using e by simp
  then show ?thesis using assms(1) set_update_subset_insert [of "j_ht t" "nat i" e]
    by (auto simp: jh_inv_def t')
qed

text \<open>No more matches than buckets: the array of the result is large enough.\<close>

lemma lookup_loop_total:
  assumes "int (length rids + length bs) \<le> cap" "type_of_code (ad_attrType (joinAttr t)) \<noteq> None"
  shows "lookup_loop t m cap bs rids s = Some (rids @ map jb_rid (filter (bucket_match t m) bs), s)"
  using assms by (induction t m cap bs rids s rule: lookup_loop.induct) (auto simp: Let_def)

text \<open>
  A kind of join attribute: where a value is well-formed its hash is defined, and equal values
  have equal hashes. The table then returns the RIDs of the matching pairs, the last inserted
  first.
\<close>

locale join_key =
  fixes attr :: AttrDesc and ok :: "mem \<Rightarrow> bool" and h :: "int \<Rightarrow> mem \<Rightarrow> int" and val :: "mem \<Rightarrow> JAttrType"
    and dtype :: Datatype and same :: "mem \<Rightarrow> mem \<Rightarrow> bool"
  assumes attr_type: "ok m \<Longrightarrow> type_of_code (ad_attrType attr) = Some dtype"
    and hash_ok: "ok m \<Longrightarrow> joinAttr t = attr \<Longrightarrow> 0 < j_HTSIZE t
      \<Longrightarrow> joinHashTbl_hash t m (ad_attrType attr) (s :: minirel) = Some (h (j_HTSIZE t) m, s)"
    and val_ok: "ok m \<Longrightarrow> joinAttr t = attr \<Longrightarrow> jb_value b = val m \<Longrightarrow> bucket_match t m' b = same m m'"
    and insert_val: "ok (\<lambda>x. tuple (ad_attrOffset attr + x)) \<Longrightarrow> joinAttr t = attr \<Longrightarrow>
      joinHashTbl_hash t (\<lambda>x. tuple (ad_attrOffset attr + x)) (ad_attrType attr) (s :: minirel) = Some (i, s) \<Longrightarrow>
      joinHashTbl_insert t rid tuple s = Some (OK, t\<lparr>j_ht := (j_ht t)[nat i :=
        \<lparr>bucketCnt = bucketCnt (j_ht t ! nat i) + 1,
         jchain = \<lparr>jb_value = val (\<lambda>x. tuple (ad_attrOffset attr + x)), jb_rid = rid\<rparr> # jchain (j_ht t ! nat i)\<rparr>]\<rparr>, s)"
    and same_hash: "ok m \<Longrightarrow> ok m' \<Longrightarrow> same m m' \<Longrightarrow> h n m = h n m'"
begin

definition key :: "mem \<Rightarrow> mem" where
  "key tuple = (\<lambda>x. tuple (ad_attrOffset attr + x))"

definition holds :: "joinHashTbl \<Rightarrow> (RID \<times> mem) list \<Rightarrow> bool" where
  "holds t ps \<longleftrightarrow> jh_inv t \<and> joinAttr t = attr \<and>
     (\<forall>i < length (j_ht t). jchain (j_ht t ! i) =
        map (\<lambda>(r, tup). \<lparr>jb_value = val (key tup), jb_rid = r\<rparr>)
          (filter (\<lambda>(r, tup). nat (h (j_HTSIZE t) (key tup)) = i) (rev ps)))"

lemma holds_new: "0 < htSize \<Longrightarrow> holds (joinHashTbl_new htSize attr) []"
  by (simp add: holds_def jh_new_inv) (simp add: joinHashTbl_new_def)

lemma holds_insert:
  assumes "holds t ps" "ok (key tuple)"
  shows "\<exists>t'. joinHashTbl_insert t rid tuple (s :: minirel) = Some (OK, t', s) \<and> holds t' (ps @ [(rid, tuple)])"
proof -
  have t: "jh_inv t" "joinAttr t = attr" "0 < j_HTSIZE t" using assms(1) by (auto simp: holds_def jh_inv_def)
  let ?i = "h (j_HTSIZE t) (key tuple)"
  have H: "joinHashTbl_hash t (key tuple) (ad_attrType attr) s = Some (?i, s)"
    by (rule hash_ok) (use assms t in simp_all)
  obtain t' where t': "joinHashTbl_insert t rid tuple s = Some (OK, t', s)"
    "t' = t\<lparr>j_ht := (j_ht t)[nat ?i := \<lparr>bucketCnt = bucketCnt (j_ht t ! nat ?i) + 1,
         jchain = \<lparr>jb_value = val (key tuple), jb_rid = rid\<rparr> # jchain (j_ht t ! nat ?i)\<rparr>]\<rparr>"
    using insert_val [OF _ t(2), of tuple s ?i rid] H assms(2) by (auto simp: key_def)
  note J = jh_insert_inv [OF t(1) t'(1)]
  have "holds t' (ps @ [(rid, tuple)])"
    using J assms(1) jh_hash_bounds [OF H t(1)] by (auto simp: holds_def t'(2) nth_list_update)
  then show ?thesis using t'(1) by blast
qed

lemma holds_lookup:
  assumes "holds t ps" "ok m" "\<And>r tup. (r, tup) \<in> set ps \<Longrightarrow> ok (key tup)"
  shows "joinHashTbl_lookup t m (s :: minirel) = Some (OK, map fst (filter (\<lambda>(r, tup). same (key tup) m) (rev ps)), s)"
proof -
  have t: "jh_inv t" "joinAttr t = attr" "0 < j_HTSIZE t" using assms(1) by (auto simp: holds_def jh_inv_def)
  let ?i = "h (j_HTSIZE t) m"
  have H: "joinHashTbl_hash t m (ad_attrType (joinAttr t)) s = Some (?i, s)"
    using hash_ok [OF assms(2) t(2,3)] t(2) by simp
  have i: "nat ?i < length (j_ht t)" using jh_hash_bounds [OF H t(1)] by simp
  let ?e = "j_ht t ! nat ?i"
  have cnt: "bucketCnt ?e = int (length (jchain ?e))" using t(1) i by (simp add: jh_inv_def)
  have chain: "jchain ?e = map (\<lambda>(r, tup). \<lparr>jb_value = val (key tup), jb_rid = r\<rparr>)
      (filter (\<lambda>(r, tup). nat (h (j_HTSIZE t) (key tup)) = nat ?i) (rev ps))"
    using assms(1) i by (simp add: holds_def)
  have "map jb_rid (filter (bucket_match t m) (map (\<lambda>(r, tup). \<lparr>jb_value = val (key tup), jb_rid = r\<rparr>)
          (filter (\<lambda>(r, tup). nat (h (j_HTSIZE t) (key tup)) = nat ?i) qs)))
      = map fst (filter (\<lambda>(r, tup). same (key tup) m) qs)" if "\<And>r tup. (r, tup) \<in> set qs \<Longrightarrow> ok (key tup)" for qs
    using that
  proof (induction qs)
    case (Cons q qs)
    obtain r tup where q: "q = (r, tup)" by fastforce
    have "ok (key tup)" using Cons(2) [of r tup] q by simp
    then have "bucket_match t m \<lparr>jb_value = val (key tup), jb_rid = r\<rparr> = same (key tup) m"
      "same (key tup) m \<Longrightarrow> h (j_HTSIZE t) (key tup) = ?i"
      using val_ok t(2) same_hash assms(2) by simp_all
    then show ?case using Cons q by auto
  qed simp
  from this [of "rev ps"] have "map jb_rid (filter (bucket_match t m) (jchain ?e))
      = map fst (filter (\<lambda>(r, tup). same (key tup) m) (rev ps))"
    unfolding chain using assms(3) by simp
  then show ?thesis
    using H lookup_loop_total [of "[]" "jchain ?e" "bucketCnt ?e" t m s] cnt attr_type [OF assms(2)] t(2)
    by (simp add: joinHashTbl_lookup_def)
qed

end

section \<open>Integer and string attributes\<close>

text \<open>The characters of a string attribute: up to a NUL, at most len of them.\<close>

definition key_text :: "mem \<Rightarrow> nat \<Rightarrow> byte list" where
  "key_text m len = takeWhile (\<lambda>b. b \<noteq> 0) (rd_bytes m 0 len)"

fun text_hash :: "int \<Rightarrow> byte list \<Rightarrow> int" where
  "text_hash v [] = v"
| "text_hash v (c # cs) = text_hash (wrap32 (wrap32 (31 * v) + schar (case cs of [] \<Rightarrow> 0 | d # _ \<Rightarrow> d))) cs"

lemma hash_string_text:
  assumes "\<exists>i<n. m (a + int i) = 0"
  shows "hash_string m a v = Some (text_hash v (takeWhile (\<lambda>b. b \<noteq> 0) (rd_bytes m a n)))"
  using assms
proof (induction n arbitrary: a v)
  case (Suc n)
  show ?case
  proof (cases "m a = 0")
    case False
    obtain i where i: "i < Suc n" "m (a + int i) = 0" using Suc(2) by blast
    with False have "i \<noteq> 0" by (cases i) simp_all
    with i have "i - 1 < n" "m ((a + 1) + int (i - 1)) = 0" by (simp_all add: of_nat_diff)
    then have IH: "\<exists>i<n. m ((a + 1) + int i) = 0" by blast
    then obtain n' where n': "n = Suc n'" by (cases n) auto
    have next': "(case takeWhile (\<lambda>b. b \<noteq> 0) (rd_bytes m (a + 1) n) of [] \<Rightarrow> 0 | d # _ \<Rightarrow> d) = m (a + 1)"
      by (simp add: n' rd_bytes_Suc)
    have "hash_string m a v = hash_string m (a + 1) (wrap32 (wrap32 (31 * v) + schar (m (a + 1))))"
      using False by (subst hash_string.simps) simp
    then show ?thesis using Suc(1) [OF IH] False next' by (simp add: rd_bytes_Suc)
  qed (simp add: hash_string.simps [of m a] rd_bytes_Suc)
qed simp

lemma hash_string_ends: "hash_string m a v = Some v' \<Longrightarrow> \<exists>i. m (a + int i) = 0"
proof (rule hash_string.raw_induct [where P = "\<lambda>m a v v'. \<exists>i. m (a + int i) = 0"])
  fix hs and m :: mem and a v v' :: int
  assume IH: "\<And>m a v v'. hs m a v = Some v' \<Longrightarrow> \<exists>i. m (a + int i) = 0"
    and run: "(if m a = 0 then Some v else hs m (a + 1) (wrap32 (wrap32 (31 * v) + schar (m (a + 1))))) = Some v'"
  show "\<exists>i. m (a + int i) = 0"
  proof (cases "m a = 0")
    case True then show ?thesis by (intro exI [of _ 0]) simp
  next
    case False
    then obtain i where "m ((a + 1) + int i) = 0" using IH run by fastforce
    then show ?thesis by (intro exI [of _ "Suc i"]) (simp add: algebra_simps)
  qed
qed

interpretation int_key: join_key "attr :: AttrDesc" "\<lambda>m. type_of_code (ad_attrType attr) = Some INTEGER"
    "\<lambda>n m. \<bar>c_rem (wrap32 (wrap32 (rd_int m 0 * n) * 31)) n\<bar>" "\<lambda>m. IValue (rd_int m 0)" INTEGER
    "\<lambda>m m'. rd_int m 0 = rd_int m' 0" for attr
  by unfold_locales (auto simp: joinHashTbl_hash_def joinHashTbl_insert_def bucket_match_def Let_def)

interpretation string_key: join_key "attr :: AttrDesc"
    "\<lambda>m. type_of_code (ad_attrType attr) = Some STRING \<and> (\<exists>i < nat (ad_attrLen attr). m (int i) = 0)"
    "\<lambda>n m. \<bar>c_rem (text_hash 0 (key_text m (nat (ad_attrLen attr)))) n\<bar>"
    "\<lambda>m. SValue (rd_bytes m 0 (nat (ad_attrLen attr)))" STRING
    "\<lambda>m m'. key_text m (nat (ad_attrLen attr)) = key_text m' (nat (ad_attrLen attr))" for attr
proof (unfold_locales, goal_cases)
  case (2 m t s)
  then show ?case using hash_string_text [of "nat (ad_attrLen attr)" m 0 0]
    by (auto simp: joinHashTbl_hash_def key_text_def)
next
  case (3 m t b m')
  have l: "length (rd_bytes m 0 (nat (ad_attrLen attr))) = nat (ad_attrLen attr)" by (simp add: rd_bytes_def)
  show ?case using 3 by (simp add: bucket_match_def strncmp_0 rd_bytes_mem [OF l] key_text_def)
qed (auto simp: joinHashTbl_insert_def Let_def)

section \<open>Properties\<close>

text \<open>The build phase of a join: all outer tuples are inserted.\<close>

fun insert_all :: "joinHashTbl \<Rightarrow> (RID \<times> mem) list \<Rightarrow> minirel \<Rightarrow> (joinHashTbl \<times> minirel) option" where
  "insert_all t [] s = Some (t, s)"
| "insert_all t ((rid, tuple) # ps) s = do {
     (st, t, s) \<leftarrow> joinHashTbl_insert t rid tuple s;
     insert_all t ps s }"

context join_key
begin

lemma holds_insert_all:
  assumes "holds t qs" "\<And>r tup. (r, tup) \<in> set ps \<Longrightarrow> ok (key tup)"
  shows "\<exists>t'. insert_all t ps s = Some (t', s) \<and> holds t' (qs @ ps)"
  using assms
proof (induction ps arbitrary: t qs)
  case (Cons p ps)
  obtain rid tup where p: "p = (rid, tup)" by fastforce
  obtain t1 where t1: "joinHashTbl_insert t rid tup s = Some (OK, t1, s)" "holds t1 (qs @ [(rid, tup)])"
    using holds_insert [OF Cons(2), of tup rid s] Cons(3) p by auto
  from Cons(1) [OF t1(2)] Cons(3) show ?case by (auto simp: p t1(1))
qed simp

end

text \<open>The value of a join attribute in memory: what the table compares.\<close>

definition join_value :: "AttrDesc \<Rightarrow> mem \<Rightarrow> JAttrType" where
  "join_value attr m =
     (if type_of_code (ad_attrType attr) = Some INTEGER then IValue (rd_int m 0)
      else SValue (key_text m (nat (ad_attrLen attr))))"

text \<open>A well-formed value: an int, or a string that is terminated within its attribute.\<close>

definition join_ok :: "AttrDesc \<Rightarrow> mem \<Rightarrow> bool" where
  "join_ok attr m \<longleftrightarrow>
     type_of_code (ad_attrType attr) = Some INTEGER \<or>
     type_of_code (ad_attrType attr) = Some STRING \<and> (\<exists>i < nat (ad_attrLen attr). m (int i) = 0)"

definition at_attr :: "AttrDesc \<Rightarrow> mem \<Rightarrow> mem" where
  "at_attr attr tuple = (\<lambda>x. tuple (ad_attrOffset attr + x))"

text \<open>
  C32: The join hash table finds exactly the matching tuples. For a table of any positive size on
  an integer attribute, or on a string attribute whose values are terminated, let any list of
  (RID, tuple) pairs be inserted; then a lookup returns OK and the RIDs of exactly those pairs
  whose attribute has the value looked up, the last inserted first, whatever the hash function
  does with them. In particular the result array, which has room for as many RIDs as the chain
  has buckets, is never overrun.
\<close>

theorem joinHashTbl_lookup_finds:
  assumes "0 < htSize" "\<And>rid tuple. (rid, tuple) \<in> set ps \<Longrightarrow> join_ok attr (at_attr attr tuple)" "join_ok attr m"
  shows "\<exists>t. insert_all (joinHashTbl_new htSize attr) ps s = Some (t, s) \<and>
    joinHashTbl_lookup t m s =
      Some (OK, map fst (filter (\<lambda>(rid, tuple). join_value attr (at_attr attr tuple) = join_value attr m) (rev ps)), s)"
proof (cases "type_of_code (ad_attrType attr) = Some INTEGER")
  case True
  obtain t where t: "insert_all (joinHashTbl_new htSize attr) ps s = Some (t, s)" "int_key.holds attr t ([] @ ps)"
    using int_key.holds_insert_all [OF int_key.holds_new [OF assms(1)], where attr = attr and ps = ps and s = s] True by blast
  show ?thesis
    using t int_key.holds_lookup [where attr = attr and t = t and ps = ps and m = m and s = s] True
    by (auto simp: join_value_def at_attr_def int_key.key_def)
next
  case False
  note ok = assms(2,3) [unfolded join_ok_def, simplified False simp_thms]
  obtain t where t: "insert_all (joinHashTbl_new htSize attr) ps s = Some (t, s)" "string_key.holds attr t ([] @ ps)"
    using string_key.holds_insert_all [OF string_key.holds_new [OF assms(1)], where attr = attr and ps = ps and s = s] ok
    by (auto simp: at_attr_def string_key.key_def)
  show ?thesis
    using t string_key.holds_lookup [where attr = attr and t = t and ps = ps and m = m and s = s] ok False
    by (auto simp: join_value_def at_attr_def string_key.key_def)
qed

text \<open>A table of three chains on an integer attribute with the values 7, 5 and 7.\<close>

definition example_attr :: AttrDesc where
  "example_attr = \<lparr>ad_relName = ''r'', ad_attrName = ''a'', ad_attrOffset = 0, ad_attrType = 1, ad_attrLen = 4\<rparr>"

definition example_pairs :: "(RID \<times> mem) list" where
  "example_pairs = map (\<lambda>(n, v). (\<lparr>pageNo = 1, slotNo = n\<rparr>, wr_int zero_mem 0 v)) [(0, 7), (-1, 5), (-2, 7)]"

lemma example_int: "type_of_code (ad_attrType example_attr) = Some INTEGER" "at_attr example_attr m = m"
  by (simp_all add: example_attr_def type_of_code_def at_attr_def)

lemma joinHashTbl_lookup_finds_witness:
  "\<forall>s. \<exists>t. insert_all (joinHashTbl_new 3 example_attr) example_pairs s = Some (t, s) \<and>
     joinHashTbl_lookup t (wr_int zero_mem 0 7) s =
       Some (OK, [\<lparr>pageNo = 1, slotNo = -2\<rparr>, \<lparr>pageNo = 1, slotNo = 0\<rparr>], s)"
proof
  fix s
  have "join_ok example_attr m" for m by (simp add: join_ok_def example_int)
  from joinHashTbl_lookup_finds [OF _ this this, of 3 example_pairs s "wr_int zero_mem 0 7"]
  show "\<exists>t. insert_all (joinHashTbl_new 3 example_attr) example_pairs s = Some (t, s) \<and>
     joinHashTbl_lookup t (wr_int zero_mem 0 7) s =
       Some (OK, [\<lparr>pageNo = 1, slotNo = -2\<rparr>, \<lparr>pageNo = 1, slotNo = 0\<rparr>], s)"
    by (simp add: join_value_def example_int example_pairs_def mem_simps)
qed

text \<open>
  C36: The counts of the join hash table are right. Every insertion into a table whose chains are as
  long as their bucket counts say, into a valid chain, leaves it that way, for attributes of
  every type; the constructor starts so. Lookup allocates its result by these counts.
\<close>

theorem joinHashTbl_counts_invariant:
  "(0 < htSize \<longrightarrow> jh_inv (joinHashTbl_new htSize attr)) \<and>
   (jh_inv t \<and> joinHashTbl_insert t rid tuple (s :: minirel) = Some (st, t', s') \<longrightarrow> jh_inv t')"
  using jh_new_inv jh_insert_inv by blast

lemma joinHashTbl_counts_invariant_witness:
  "\<forall>s :: minirel. jh_inv (joinHashTbl_new 3 example_attr) \<and>
     (\<exists>t'. joinHashTbl_insert (joinHashTbl_new 3 example_attr) NULLRID (wr_int zero_mem 0 7) s = Some (OK, t', s) \<and> jh_inv t')"
proof
  fix s :: minirel
  have ok: "type_of_code (ad_attrType example_attr) = Some INTEGER" by (rule example_int)
  have new: "jh_inv (joinHashTbl_new 3 example_attr)" using joinHashTbl_counts_invariant [of 3 example_attr] by simp
  moreover obtain t' where "joinHashTbl_insert (joinHashTbl_new 3 example_attr) NULLRID (wr_int zero_mem 0 7) s = Some (OK, t', s)"
    using int_key.holds_insert [OF int_key.holds_new [of 3 example_attr], where rid = NULLRID and
        tuple = "wr_int zero_mem 0 7" and s = s] ok by auto
  ultimately show "jh_inv (joinHashTbl_new 3 example_attr) \<and>
     (\<exists>t'. joinHashTbl_insert (joinHashTbl_new 3 example_attr) NULLRID (wr_int zero_mem 0 7) s = Some (OK, t', s) \<and> jh_inv t')"
    using joinHashTbl_counts_invariant [of 3 example_attr "joinHashTbl_new 3 example_attr" NULLRID "wr_int zero_mem 0 7" s OK t' s]
    by blast
qed

text \<open>
  C38: The hash of a string returns exactly when memory has a terminator at or behind the
  attribute: on an attribute that its value fills, such as char(4) with four characters, the
  loop runs on into the bytes behind it, so that it need not return, and the hash depends on them.
\<close>

theorem hash_string_returns_iff:
  "(\<exists>v'. hash_string m a v = Some v') \<longleftrightarrow> (\<exists>i. m (a + int i) = 0)"
proof
  assume "\<exists>v'. hash_string m a v = Some v'"
  then obtain v' where "hash_string m a v = Some v'" by blast
  then show "\<exists>i. m (a + int i) = 0" by (rule hash_string_ends)
next
  assume "\<exists>i. m (a + int i) = 0"
  then obtain i where "m (a + int i) = 0" by blast
  then have "\<exists>j < Suc i. m (a + int j) = 0" by blast
  from hash_string_text [OF this] show "\<exists>v'. hash_string m a v = Some v'" by blast
qed

end
