(* ===== verification/Partition.thy ===== *)
theory Partition
  imports DDL
begin

text \<open>
  The class Partition (partition.C): a heap file is split into P heap files by a hash function of
  the caller, which is a parameter. An object keeps the names once all files are open. The names
  end with a NUL, which ends puts into the stream.
\<close>

record partition =
  pt_P :: nat
  pt_names :: "string list option"

definition part_name :: "string \<Rightarrow> nat \<Rightarrow> string" where
  "part_name base p = ''/tmp/'' @ base @ ''.'' @ dec_int (int p) @ [CHR 0x00]"

text \<open>The files of the partitions are opened; the first failure ends the loop.\<close>

fun open_parts :: "'z db_scheme \<Rightarrow> string \<Rightarrow> nat list \<Rightarrow> (Status \<times> heapfile list \<times> 'z db_scheme) option" where
  "open_parts s base [] = Some (OK, [], s)"
| "open_parts s base (p # ps) = do {
     (st, part, s) \<leftarrow> InsertFileScan_new s (part_name base p);
     if st \<noteq> OK then Some (st, [], s) else do {
     part \<leftarrow> part;
     (st, parts, s) \<leftarrow> open_parts s base ps;
     Some (st, part # parts, s) }}"

text \<open>The flag tells a return from inside the loop. A hash value outside of the partitions is
  undefined.\<close>

partial_function (option) part_loop ::
  "(byte list \<Rightarrow> nat \<Rightarrow> int) \<Rightarrow> 'z db_scheme \<Rightarrow> 'h filescan_scheme \<Rightarrow> heapfile list
     \<Rightarrow> (bool \<times> Status \<times> 'z db_scheme \<times> 'h filescan_scheme \<times> heapfile list) option" where
  "part_loop hashfcn s rel parts =
     Option.bind (HeapFileScan_scanNext s rel) (\<lambda>(st, rid, s, rel).
       if st \<noteq> OK then Some (False, st, s, rel, parts)
       else Option.bind (HeapFileScan_getRecord s rel) (\<lambda>(st, rec).
         if st \<noteq> OK then Some (True, st, s, rel, parts)
         else Option.bind rec (\<lambda>rec.
           let p = hashfcn rec (length parts)
           in if p < 0 \<or> p \<ge> int (length parts) then None
              else Option.bind (InsertFileScan_insertRecord s (parts ! nat p) rec) (\<lambda>(st, _, s, part).
                let parts = parts[nat p := part]
                in if st \<noteq> OK then Some (True, st, s, rel, parts)
                   else part_loop hashfcn s rel parts))))"

fun delete_parts :: "heapfile list \<Rightarrow> 'z db_scheme \<Rightarrow> 'z db_scheme option" where
  "delete_parts [] s = Some s"
| "delete_parts (p # ps) s = do { s \<leftarrow> InsertFileScan_delete s p; delete_parts ps s }"

definition Partition_new ::
  "(byte list \<Rightarrow> nat \<Rightarrow> int) \<Rightarrow> 'z db_scheme \<Rightarrow> 'h filescan_scheme \<Rightarrow> string \<Rightarrow> nat
     \<Rightarrow> (Status \<times> partition \<times> 'z db_scheme \<times> 'h filescan_scheme) option" where
  "Partition_new hashfcn s rel base P = do {
     (st, parts, s) \<leftarrow> open_parts s base [0..<P];
     if st \<noteq> OK then Some (st, \<lparr>pt_P = P, pt_names = None\<rparr>, s, rel) else do {
     let pt = \<lparr>pt_P = P, pt_names = Some (map (part_name base) [0..<P])\<rparr>;
     let (st, rel) = HeapFileScan_startScan rel 0 4 INTEGER None EQ;
     if st \<noteq> OK then Some (st, pt, s, rel) else do {
     (ret, st, s, rel, parts) \<leftarrow> part_loop hashfcn s rel parts;
     if ret \<or> st \<noteq> FILEEOF then Some (st, pt, s, rel) else do {
     s \<leftarrow> delete_parts parts s;
     (st, s, rel) \<leftarrow> HeapFileScan_endScan s rel;
     Some (st, pt, s, rel) }}}}"

text \<open>The destructor destroys the files and reports the ones it could not.\<close>

fun destroy_parts :: "string list \<Rightarrow> 'z minirel_scheme \<Rightarrow> 'z minirel_scheme" where
  "destroy_parts [] s = s"
| "destroy_parts (n # ns) s =
     (let (st, s) = DB_destroyFile s n;
          s = (if st \<noteq> OK then put_err s (''error destroying '' @ n @ newline) else s)
      in destroy_parts ns s)"

definition Partition_delete :: "'z minirel_scheme \<Rightarrow> partition \<Rightarrow> 'z minirel_scheme" where
  "Partition_delete s pt = (case pt_names pt of None \<Rightarrow> s | Some ns \<Rightarrow> destroy_parts ns s)"

text \<open>
  C34: A Partition cannot be made of files that do not exist. The constructor says that it creates the
  heap files of the partitions, but it opens them only: whatever the hash function and the relation,
  when the file of the first partition, whose name Unix cuts at the NUL that ends it, is not already
  there, the InsertFileScan on it reads members that were never set, and the run is undefined.
\<close>
theorem Partition_new_undefined:
  assumes "db_inv s" "0 < P" "disk s (c_str (part_name base 0)) = None"
  shows "Partition_new hashfcn s rel base P = None"
proof -
  have n: "part_name base 0 \<noteq> []" by (simp add: part_name_def)
  have "c_str (part_name base 0) \<noteq> part_name base 0"
    by (rule c_str_NUL) (simp add: part_name_def)
  then have "disk s (part_name base 0) = None" using db_inv_c_str [OF assms(1), of "part_name base 0"] by (cases "disk s (part_name base 0)") simp_all
  then have "of_map (openFiles s) (part_name base 0) = None"
    using no_file_closed [OF assms(1), of "part_name base 0"] by (simp add: closed_free_def)
  then have "DB_openFile s (part_name base 0) = Some (UNIXERR, Some (next_ptr s), missed s)" by (rule openFile_missing [OF assms(1) n _ assms(3)])
  then have "InsertFileScan_new s (part_name base 0) = None" by (simp add: InsertFileScan_new_def HeapFile_new_def)
  then show ?thesis using assms(2) by (simp add: Partition_new_def upt_rec)
qed

lemma Partition_new_undefined_witness:
  "\<exists>s :: minirel. \<forall>rel :: filescan. Partition_new (\<lambda>rec n. int (length rec) mod int n) s rel ''emp'' 4 = None"
proof -
  have "disk example_minirel (c_str (part_name ''emp'' 0)) = None"
    by (simp add: example_minirel_fields example_dir_def part_name_def RELCATNAME_def ATTRCATNAME_def)
  then have "Partition_new (\<lambda>rec n. int (length rec) mod int n) example_minirel rel ''emp'' 4 = None" for rel :: filescan
    by (intro Partition_new_undefined) (simp_all add: example_minirel_fields)
  then show ?thesis by blast
qed

end
