(* ===== verification/SortFile.thy ===== *)
theory SortFile
  imports Query
begin

text \<open>
  The class SortedFile (sort.h, sort.C): a file is split into runs, each of which is sorted in
  memory with qsort and written to a temporary heap file; next merges the runs. The library's
  qsort is a parameter. Fields that the constructor of a run leaves uninitialised are None.
\<close>

record SORTREC =
  sr_rid :: RID
  sr_field :: "byte list"
  sr_length :: int

record RUN =
  run_name :: string
  run_inFile :: "filescan option"
  run_valid :: "bool option"
  run_rec :: "(nat \<times> int) option"
  run_rid :: RID
  run_mark :: RID

record SortedFile =
  sf_runs :: "RUN list"
  sf_fileName :: string
  sf_type :: Datatype
  sf_offset :: int
  sf_length :: int
  sf_buffer :: "SORTREC list"
  sf_maxItems :: int

section \<open>Comparison\<close>

fun memcmp :: "mem \<Rightarrow> int \<Rightarrow> mem \<Rightarrow> int \<Rightarrow> nat \<Rightarrow> int" where
  "memcmp m a m' b 0 = 0"
| "memcmp m a m' b (Suc n) =
     (if m a \<noteq> m' b then uint (m a) - uint (m' b) else memcmp m (a + 1) m' (b + 1) n)"

text \<open>The sign of the difference: the difference of ints wraps. A NaN is not convertible: None.\<close>

definition reccmp :: "mem \<Rightarrow> mem \<Rightarrow> int \<Rightarrow> int \<Rightarrow> Datatype \<Rightarrow> int option" where
  "reccmp p1 p2 p1Len p2Len type =
     map_option sgn (case type of
        INTEGER \<Rightarrow> Some (wrap32 (rd_int p1 0 - rd_int p2 0))
      | FLOAT \<Rightarrow> float_diff (rd_float p1 0) (rd_float p2 0)
      | STRING \<Rightarrow> Some (memcmp p1 0 p2 0 (nat (min p1Len p2Len))))"

definition sortrec_cmp :: "Datatype \<Rightarrow> SORTREC \<Rightarrow> SORTREC \<Rightarrow> int option" where
  "sortrec_cmp type a b = reccmp (bytes_mem (sr_field a)) (bytes_mem (sr_field b)) (sr_length a) (sr_length b) type"

definition intcmp :: "SORTREC \<Rightarrow> SORTREC \<Rightarrow> int option" where "intcmp = sortrec_cmp INTEGER"
definition floatcmp :: "SORTREC \<Rightarrow> SORTREC \<Rightarrow> int option" where "floatcmp = sortrec_cmp FLOAT"
definition stringcmp :: "SORTREC \<Rightarrow> SORTREC \<Rightarrow> int option" where "stringcmp = sortrec_cmp STRING"

definition cmp_of :: "Datatype \<Rightarrow> SORTREC \<Rightarrow> SORTREC \<Rightarrow> int option" where
  "cmp_of type = (case type of INTEGER \<Rightarrow> intcmp | FLOAT \<Rightarrow> floatcmp | STRING \<Rightarrow> stringcmp)"

text \<open>qsort may compare any two of the items.\<close>

fun comparable :: "('a \<Rightarrow> 'a \<Rightarrow> int option) \<Rightarrow> 'a list \<Rightarrow> bool" where
  "comparable cmp [] = True"
| "comparable cmp (x # xs) = ((\<forall>y \<in> set xs. cmp x y \<noteq> None) \<and> comparable cmp xs)"

type_synonym qsort = "(SORTREC \<Rightarrow> SORTREC \<Rightarrow> int) \<Rightarrow> SORTREC list \<Rightarrow> SORTREC list"

section \<open>Writing the runs\<close>

fun write_run ::
  "'z db_scheme \<Rightarrow> heapfile \<Rightarrow> heapfile \<Rightarrow> SORTREC list \<Rightarrow> (Status \<times> 'z db_scheme \<times> heapfile \<times> heapfile) option" where
  "write_run s hfile outFile [] = Some (OK, s, hfile, outFile)"
| "write_run s hfile outFile (r # rs) = do {
     (st, rec, s, hfile) \<leftarrow> HeapFile_getRecord s hfile (sr_rid r);
     if st \<noteq> OK then Some (st, s, hfile, outFile) else do {
     rec \<leftarrow> rec;
     (st, _, s, outFile) \<leftarrow> InsertFileScan_insertRecord s outFile rec;
     if st \<noteq> OK then Some (st, s, hfile, outFile) else write_run s hfile outFile rs }}"

definition run_file_name :: "string \<Rightarrow> nat \<Rightarrow> string" where
  "run_file_name base n = base @ ''.sort.'' @ dec_int (int n) @ [CHR 0x00]"

text \<open>
  The temporary file is created and destroyed again, to see that it did not exist; then it is
  opened for insertion, which does not create it: the insert scan is never initialised.
\<close>

definition generateRun ::
  "qsort \<Rightarrow> 'z db_scheme \<Rightarrow> SortedFile \<Rightarrow> (Status \<times> 'z db_scheme \<times> SortedFile) option" where
  "generateRun qs s sf =
     (if \<not> comparable (cmp_of (sf_type sf)) (sf_buffer sf) then None else do {
      let sf = sf\<lparr>sf_buffer := qs (\<lambda>a b. the (cmp_of (sf_type sf) a b)) (sf_buffer sf)\<rparr>;
      let name = run_file_name (sf_fileName sf) (length (sf_runs sf) + 1);
      let sf = sf\<lparr>sf_runs := sf_runs sf @
        [\<lparr>run_name = name, run_inFile = None, run_valid = None, run_rec = None, run_rid = NULLRID, run_mark = NULLRID\<rparr>]\<rparr>;
      let (st, s) = DB_createFile s name;
      if st \<noteq> OK then Some (st, s, sf) else do {
      let (st, s) = DB_destroyFile s name;
      if st \<noteq> OK then Some (st, s, sf) else do {
      (st, outFile, s) \<leftarrow> InsertFileScan_new s name;
      if st \<noteq> OK then Some (st, s, sf) else do {
      outFile \<leftarrow> outFile;
      (st, hfile, s) \<leftarrow> HeapFile_new s (sf_fileName sf);
      if st \<noteq> OK then Some (st, s, sf) else do {
      hfile \<leftarrow> hfile;
      (st, s, hfile, outFile) \<leftarrow> write_run s hfile outFile (sf_buffer sf);
      if st \<noteq> OK then Some (st, s, sf) else do {
      s \<leftarrow> InsertFileScan_delete s outFile;
      s \<leftarrow> HeapFile_delete s hfile;
      Some (OK, s, sf) }}}}}})"

section \<open>Splitting the file\<close>

text \<open>The next items of the source file, at most n: the flag tells a return with an error.\<close>

fun fetch_items ::
  "nat \<Rightarrow> int \<Rightarrow> int \<Rightarrow> 'z db_scheme \<Rightarrow> filescan \<Rightarrow> SORTREC list
     \<Rightarrow> (bool \<times> Status \<times> SORTREC list \<times> 'z db_scheme \<times> filescan) option" where
  "fetch_items 0 offset len s hfs items = Some (False, OK, items, s, hfs)"
| "fetch_items (Suc n) offset len s hfs items = do {
     (st, rid, s, hfs) \<leftarrow> HeapFileScan_scanNext s hfs;
     if st = FILEEOF then Some (False, st, items, s, hfs)
     else if st \<noteq> OK then Some (True, st, items, s, hfs)
     else do {
       (st, _) \<leftarrow> HeapFileScan_getRecord s hfs;
       if st \<noteq> OK then Some (True, st, items, s, hfs) else do {
       rid \<leftarrow> rid;
       p \<leftarrow> scan_rec_ptr s hfs;
       fetch_items n offset len s hfs
         (items @ [\<lparr>sr_rid = rid, sr_field = rd_bytes (ptr_mem s p) offset (nat len), sr_length = len\<rparr>]) }} }"

partial_function (option) sort_loop ::
  "qsort \<Rightarrow> 'z db_scheme \<Rightarrow> SortedFile \<Rightarrow> filescan \<Rightarrow> (Status \<times> 'z db_scheme \<times> SortedFile \<times> filescan) option" where
  "sort_loop qs s sf hfs =
     Option.bind (fetch_items (nat (sf_maxItems sf)) (sf_offset sf) (sf_length sf) s hfs []) (\<lambda>(ret, st, items, s, hfs).
       let sf = sf\<lparr>sf_buffer := items\<rparr>
       in if ret then Some (st, s, sf, hfs)
          else if items = [] then Some (OK, s, sf, hfs)
          else Option.bind (generateRun qs s sf) (\<lambda>(st, s, sf).
            if st \<noteq> OK then Some (st, s, sf, hfs) else sort_loop qs s sf hfs))"

text \<open>The scan of every run is opened; the first failure ends the loop.\<close>

fun start_runs :: "'z db_scheme \<Rightarrow> RUN list \<Rightarrow> (Status \<times> RUN list \<times> 'z db_scheme) option" where
  "start_runs s [] = Some (OK, [], s)"
| "start_runs s (r # rs) = do {
     (st, inFile, s) \<leftarrow> HeapFileScan_new s (run_name r);
     if st \<noteq> OK then Some (st, r # rs, s) else do {
     inFile \<leftarrow> inFile;
     let (st, inFile) = HeapFileScan_startScan inFile 0 0 STRING None EQ;
     if st \<noteq> OK then Some (st, r\<lparr>run_inFile := Some inFile\<rparr> # rs, s) else do {
     (st, rs, s) \<leftarrow> start_runs s rs;
     Some (st, r\<lparr>run_inFile := Some inFile, run_valid := Some False, run_rid := NULLRID\<rparr> # rs, s) }}}"

definition startScans :: "'z db_scheme \<Rightarrow> SortedFile \<Rightarrow> (Status \<times> 'z db_scheme \<times> SortedFile) option" where
  "startScans s sf = do {
     (st, runs, s) \<leftarrow> start_runs s (sf_runs sf);
     Some (st, s, sf\<lparr>sf_runs := runs\<rparr>) }"

definition sortFile :: "qsort \<Rightarrow> 'z db_scheme \<Rightarrow> SortedFile \<Rightarrow> (Status \<times> 'z db_scheme \<times> SortedFile) option" where
  "sortFile qs s sf = do {
     (st, hfs, s) \<leftarrow> HeapFileScan_new s (sf_fileName sf);
     if st \<noteq> OK then Some (st, s, sf) else do {
     hfs \<leftarrow> hfs;
     let (st, hfs) = HeapFileScan_startScan hfs 0 0 STRING None EQ;
     if st \<noteq> OK then Some (st, s, sf) else do {
     (st, s, sf, hfs) \<leftarrow> sort_loop qs s sf hfs;
     if st \<noteq> OK then Some (st, s, sf) else do {
     s \<leftarrow> HeapFileScan_delete s hfs;
     startScans s sf }}}}"

definition SortedFile_new ::
  "qsort \<Rightarrow> 'z db_scheme \<Rightarrow> string \<Rightarrow> int \<Rightarrow> int \<Rightarrow> Datatype \<Rightarrow> int \<Rightarrow> (Status \<times> 'z db_scheme \<times> SortedFile) option" where
  "SortedFile_new qs s name offset len type maxItems =
     (let sf = \<lparr>sf_runs = [], sf_fileName = name, sf_type = type, sf_offset = offset, sf_length = len,
                sf_buffer = [], sf_maxItems = maxItems\<rparr>
      in if offset < 0 \<or> len < 1 then Some (BADSORTPARM, s, sf)
         else if type = INTEGER \<and> len \<noteq> 4 \<or> type = FLOAT \<and> len \<noteq> 4 then Some (BADSORTPARM, s, sf)
         else if maxItems < 2 then Some (INSUFMEM, s, sf)
         else sortFile qs s sf)"

section \<open>Merging the runs\<close>

text \<open>A run without a record in memory fetches its next one; pageNo -1 marks its end.\<close>

definition run_fetch :: "'z db_scheme \<Rightarrow> RUN \<Rightarrow> (Status \<times> 'z db_scheme \<times> RUN) option" where
  "run_fetch s r = do {
     v \<leftarrow> run_valid r;
     if v then Some (OK, s, r) else do {
     inFile \<leftarrow> run_inFile r;
     (st, rid, s, inFile) \<leftarrow> HeapFileScan_scanNext s inFile;
     let r = r\<lparr>run_inFile := Some inFile\<rparr>;
     if st = FILEEOF then Some (OK, s, r\<lparr>run_rid := (run_rid r)\<lparr>pageNo := -1\<rparr>, run_valid := Some True\<rparr>)
     else if st \<noteq> OK then Some (st, s, r)
     else do {
       rid \<leftarrow> rid;
       let r = r\<lparr>run_rid := rid\<rparr>;
       (st, _) \<leftarrow> HeapFileScan_getRecord s inFile;
       if st \<noteq> OK then Some (st, s, r)
       else Some (OK, s, r\<lparr>run_rec := scan_rec_ptr s inFile, run_valid := Some True\<rparr>) } }}"

text \<open>A run that has not ended is the smallest if there is none yet or it is strictly smaller. The
  result is the index of the run and its record.\<close>

definition pick_smaller ::
  "('p \<Rightarrow> 'p \<Rightarrow> int option) \<Rightarrow> nat \<Rightarrow> 'p \<Rightarrow> (nat \<times> 'p) option \<Rightarrow> (nat \<times> 'p) option option" where
  "pick_smaller cmp i p smallest =
     (case smallest of
        None \<Rightarrow> Some (Some (i, p))
      | Some (j, q) \<Rightarrow> do {
          c \<leftarrow> cmp q p;
          Some (if c > 0 then Some (i, p) else Some (j, q)) })"

definition rec_cmp :: "'z db_scheme \<Rightarrow> SortedFile \<Rightarrow> nat \<times> int \<Rightarrow> nat \<times> int \<Rightarrow> int option" where
  "rec_cmp s sf p q =
     reccmp (\<lambda>x. ptr_mem s p (sf_offset sf + x)) (\<lambda>x. ptr_mem s q (sf_offset sf + x)) (sf_length sf) (sf_length sf) (sf_type sf)"

fun next_loop ::
  "'z db_scheme \<Rightarrow> SortedFile \<Rightarrow> nat \<Rightarrow> RUN list \<Rightarrow> (nat \<times> (nat \<times> int)) option
     \<Rightarrow> (Status \<times> (nat \<times> (nat \<times> int)) option \<times> 'z db_scheme \<times> RUN list) option" where
  "next_loop s sf i [] smallest = Some (OK, smallest, s, [])"
| "next_loop s sf i (r # rs) smallest = do {
     (st, s, r) \<leftarrow> run_fetch s r;
     if st \<noteq> OK then Some (st, smallest, s, r # rs) else do {
     smallest \<leftarrow> (if pageNo (run_rid r) < 0 then Some smallest
                   else do { p \<leftarrow> run_rec r; pick_smaller (rec_cmp s sf) i p smallest });
     (st, smallest, s, rs) \<leftarrow> next_loop s sf (i + 1) rs smallest;
     Some (st, smallest, s, r # rs) }}"

definition SortedFile_next :: "'z db_scheme \<Rightarrow> SortedFile \<Rightarrow> (Status \<times> (nat \<times> int) option \<times> 'z db_scheme \<times> SortedFile) option" where
  "SortedFile_next s sf =
     (if sf_runs sf = [] then Some (FILEEOF, None, s, sf) else do {
      (st, smallest, s, runs) \<leftarrow> next_loop s sf 0 (sf_runs sf) None;
      let sf = sf\<lparr>sf_runs := runs\<rparr>;
      Some (if st \<noteq> OK then (st, None, s, sf) else
        case smallest of
          None \<Rightarrow> (FILEEOF, None, s, sf)
        | Some (i, p) \<Rightarrow> (OK, Some p, s, sf\<lparr>sf_runs := runs[i := (runs ! i)\<lparr>run_valid := Some False\<rparr>]\<rparr>)) })"

fun mark_runs :: "RUN list \<Rightarrow> RUN list option" where
  "mark_runs [] = Some []"
| "mark_runs (r # rs) = do {
     inFile \<leftarrow> run_inFile r;
     rs \<leftarrow> mark_runs rs;
     Some (r\<lparr>run_inFile := Some (HeapFileScan_markScan inFile), run_mark := run_rid r\<rparr> # rs) }"

definition setMark :: "SortedFile \<Rightarrow> (Status \<times> SortedFile) option" where
  "setMark sf = do {
     runs \<leftarrow> mark_runs (sf_runs sf);
     Some (OK, sf\<lparr>sf_runs := runs\<rparr>) }"

fun goto_runs :: "'z db_scheme \<Rightarrow> RUN list \<Rightarrow> (Status \<times> 'z db_scheme \<times> RUN list) option" where
  "goto_runs s [] = Some (OK, s, [])"
| "goto_runs s (r # rs) = do {
     inFile \<leftarrow> run_inFile r;
     (st, s, inFile) \<leftarrow> HeapFileScan_resetScan s inFile;
     let r = r\<lparr>run_inFile := Some inFile\<rparr>;
     if st \<noteq> OK then Some (st, s, r # rs) else do {
     let r = r\<lparr>run_rid := run_mark r\<rparr>;
     (st, r) \<leftarrow> (if pageNo (run_rid r) \<ge> 0 then do {
          (st, _) \<leftarrow> HeapFileScan_getRecord s inFile;
          Some (st, if st = OK then r\<lparr>run_rec := scan_rec_ptr s inFile\<rparr> else r) }
        else Some (OK, r));
     if st \<noteq> OK then Some (st, s, r # rs) else do {
     (st, s, rs) \<leftarrow> goto_runs s rs;
     Some (st, s, r\<lparr>run_valid := Some True\<rparr> # rs) }}}"

definition gotoMark :: "'z db_scheme \<Rightarrow> SortedFile \<Rightarrow> (Status \<times> 'z db_scheme \<times> SortedFile) option" where
  "gotoMark s sf = do {
     (st, s, runs) \<leftarrow> goto_runs s (sf_runs sf);
     Some (st, s, sf\<lparr>sf_runs := runs\<rparr>) }"

text \<open>The destructor.\<close>

fun delete_runs :: "RUN list \<Rightarrow> 'z db_scheme \<Rightarrow> 'z db_scheme option" where
  "delete_runs [] s = Some s"
| "delete_runs (r # rs) s = do {
     inFile \<leftarrow> run_inFile r;
     s \<leftarrow> HeapFileScan_delete s inFile;
     delete_runs rs (snd (DB_destroyFile s (run_name r))) }"

definition SortedFile_delete :: "'z db_scheme \<Rightarrow> SortedFile \<Rightarrow> 'z db_scheme option" where
  "SortedFile_delete s sf = delete_runs (sf_runs sf) s"

section \<open>Temporary files\<close>

text \<open>An insert scan on a file that does not exist is never initialised.\<close>

lemma InsertFileScan_new_missing:
  assumes "name \<noteq> []" "of_map (openFiles s) name = None" "disk s (c_str name) = None"
  shows "InsertFileScan_new s name = None"
proof -
  let ?fo = "\<lparr>fileName = name, openCnt = 0, unixFile = -1\<rparr>"
  obtain s1 where new: "File_new s name = (next_ptr s, s1)" and f: "files s1 (next_ptr s) = Some ?fo" "disk s1 = disk s"
    by (simp add: File_new_def)
  let ?s2 = "s1\<lparr>files := (files s1)(next_ptr s \<mapsto> ?fo)\<rparr>"
  have op: "File_open s1 (next_ptr s) = Some (UNIXERR, ?s2)"
    using f assms(3) by (simp add: File_open_def)
  obtain s3 where del: "File_delete ?s2 (next_ptr s) = Some s3" by (simp add: File_delete_def)
  have "DB_openFile s name = Some (UNIXERR, Some (next_ptr s), s3)"
    using assms(1,2) op del by (simp add: DB_openFile_def find_of_map new)
  then show ?thesis by (simp add: InsertFileScan_new_def HeapFile_new_def)
qed

lemma destroyed_missing:
  assumes "DB_destroyFile s name = (OK, s')"
  shows "name \<noteq> []" "of_map (openFiles s') name = None" "disk s' (c_str name) = None"
  using assms by (auto simp: DB_destroyFile_def File_destroy_def find_of_map Let_def split: if_splits option.splits)

lemma generateRun_fails: "generateRun qs s sf \<noteq> Some (OK, s', sf')"
proof
  assume run: "generateRun qs s sf = Some (OK, s', sf')"
  let ?name = "run_file_name (sf_fileName sf) (length (sf_runs sf) + 1)"
  obtain st1 s1 where c: "DB_createFile s ?name = (st1, s1)" by fastforce
  obtain st2 s2 where d: "DB_destroyFile s1 ?name = (st2, s2)" by fastforce
  have "st2 = OK" "InsertFileScan_new s2 ?name \<noteq> None"
    using run c d by (auto simp: generateRun_def Let_def bind_eq_Some_conv split: if_splits)
  then have "DB_destroyFile s1 ?name = (OK, s2)" using d by simp
  note D = destroyed_missing [OF this]
  from InsertFileScan_new_missing [OF D] \<open>InsertFileScan_new s2 ?name \<noteq> None\<close> show False by simp
qed

lemma sort_loop_runs:
  "sort_loop qs s sf hfs = Some (OK, s', sf', hfs') \<Longrightarrow> sf_runs sf' = sf_runs sf"
  by (subst (asm) sort_loop.simps)
     (auto simp: bind_eq_Some_conv Let_def generateRun_fails split: if_splits prod.splits)

section \<open>The smallest record\<close>

lemma run_fetch_valid: "run_valid r = Some True \<Longrightarrow> run_fetch s r = Some (OK, s, r)"
  by (simp add: run_fetch_def)

text \<open>With every next record in memory, the loop finds the first smallest value among those of the
  runs that have not ended and the one it starts with.\<close>

definition live :: "RUN \<Rightarrow> bool" where
  "live r \<longleftrightarrow> 0 \<le> pageNo (run_rid r)"

definition best_of :: "('p \<Rightarrow> int) \<Rightarrow> (nat \<times> 'p) list \<Rightarrow> (nat \<times> 'p) option \<Rightarrow> bool" where
  "best_of val cands res \<longleftrightarrow>
     (case res of None \<Rightarrow> cands = []
      | Some (i, p) \<Rightarrow> (i, p) \<in> set cands \<and>
          (\<forall>(j, q) \<in> set cands. val p < val q \<or> val p = val q \<and> i \<le> j))"

definition pick :: "('p \<Rightarrow> int) \<Rightarrow> nat \<times> 'p \<Rightarrow> (nat \<times> 'p) option \<Rightarrow> (nat \<times> 'p) option" where
  "pick val c best = (case best of None \<Rightarrow> Some c | Some b \<Rightarrow> if val (snd b) > val (snd c) then Some c else Some b)"

lemma fold_pick_best: "sorted (map fst cs) \<Longrightarrow> best_of val cs (fold (pick val) cs None)"
proof (induction cs rule: rev_induct)
  case (snoc c cs)
  obtain i p where c: "c = (i, p)" by fastforce
  have IH: "best_of val cs (fold (pick val) cs None)" and le: "\<And>j q. (j, q) \<in> set cs \<Longrightarrow> j \<le> i"
    using snoc by (auto simp: sorted_append c)
  show ?case
  proof (cases "fold (pick val) cs None")
    case None
    then show ?thesis using IH by (simp add: best_of_def c) (simp add: pick_def)
  next
    case (Some b)
    obtain k r where b: "b = (k, r)" by fastforce
    have B: "(k, r) \<in> set cs" "\<And>j q. (j, q) \<in> set cs \<Longrightarrow> val r < val q \<or> val r = val q \<and> k \<le> j"
      using IH Some b by (auto simp: best_of_def)
    have F: "fold (pick val) (cs @ [c]) None = (if val r > val p then Some (i, p) else Some (k, r))"
      by (simp add: Some pick_def b c)
    show ?thesis unfolding F
    proof (cases "val r > val p")
      case True
      then have "val p < val q" if "(j, q) \<in> set cs" for j q using B(2) [OF that] by auto
      then show "best_of val (cs @ [c]) (if val r > val p then Some (i, p) else Some (k, r))"
        using True c by (auto simp: best_of_def)
    next
      case False
      then show "best_of val (cs @ [c]) (if val r > val p then Some (i, p) else Some (k, r))"
        using c B le [OF B(1)] by (auto simp: best_of_def)
    qed
  qed
qed (simp add: best_of_def)

text \<open>The runs that have not ended, with their positions and records.\<close>

fun candidates :: "nat \<Rightarrow> RUN list \<Rightarrow> (nat \<times> (nat \<times> int)) list" where
  "candidates i [] = []"
| "candidates i (r # rs) = (if live r then [(i, the (run_rec r))] else []) @ candidates (i + 1) rs"

lemma candidates_bounds: "(j, q) \<in> set (candidates i rs) \<Longrightarrow> i \<le> j \<and> j < i + length rs \<and>
    live (rs ! (j - i)) \<and> q = the (run_rec (rs ! (j - i)))"
proof (induction rs arbitrary: i)
  case (Cons r rs)
  then show ?case
  proof (cases "(j, q) \<in> set (candidates (i + 1) rs)")
    case True
    from Cons(1) [OF this] have "Suc i \<le> j" "j < i + length (r # rs)" "live (rs ! (j - Suc i))"
      "q = the (run_rec (rs ! (j - Suc i)))" by auto
    moreover have "j - i = Suc (j - Suc i)" using calculation(1) by simp
    ultimately show ?thesis by simp
  qed (auto split: if_splits)
qed simp

lemma candidates_in: "j < length rs \<Longrightarrow> live (rs ! j) \<Longrightarrow> (i + j, the (run_rec (rs ! j))) \<in> set (candidates i rs)"
proof (induction rs arbitrary: i j)
  case (Cons r rs)
  then show ?case using Cons(1) [of _ "i + 1"] by (cases j) force+
qed simp

lemma candidates_sorted: "sorted (map fst (candidates i rs))"
proof (induction rs arbitrary: i)
  case (Cons r rs)
  then show ?case using candidates_bounds [of _ _ "i + 1" rs] by fastforce
qed simp

lemma next_loop_picks:
  assumes "\<And>r. r \<in> set rs \<Longrightarrow> run_valid r = Some True"
    "\<And>r. r \<in> set rs \<Longrightarrow> live r \<Longrightarrow> \<exists>p \<in> P. run_rec r = Some p"
    "\<And>p q. p \<in> P \<Longrightarrow> q \<in> P \<Longrightarrow> rec_cmp s sf p q = Some (sgn (val p - val q))"
    "\<And>c. sm = Some c \<Longrightarrow> snd c \<in> P"
  shows "next_loop s sf i rs sm = Some (OK, fold (pick val) (candidates i rs) sm, s, rs)"
  using assms
proof (induction rs arbitrary: i sm)
  case (Cons r rs)
  have V: "run_fetch s r = Some (OK, s, r)" by (rule run_fetch_valid) (use Cons(2) in simp)
  show ?case
  proof (cases "live r")
    case False
    have "next_loop s sf (Suc i) rs sm = Some (OK, fold (pick val) (candidates (Suc i) rs) sm, s, rs)"
      using Cons by simp
    then show ?thesis using False V by (simp add: live_def not_le)
  next
    case True
    obtain p where p: "run_rec r = Some p" "p \<in> P" using Cons(3) [of r] True by auto
    have pick: "pick_smaller (rec_cmp s sf) i p sm = Some (pick val (i, p) sm)"
    proof (cases sm)
      case (Some c)
      then have "rec_cmp s sf (snd c) p = Some (sgn (val (snd c) - val p))" using Cons(4,5) p by blast
      then show ?thesis using Some by (cases c) (simp add: pick_smaller_def pick_def)
    qed (simp add: pick_smaller_def pick_def)
    have "\<And>c. pick val (i, p) sm = Some c \<Longrightarrow> snd c \<in> P"
      using Cons(5) p by (auto simp: pick_def split: option.splits if_splits)
    then have "next_loop s sf (Suc i) rs (pick val (i, p) sm)
        = Some (OK, fold (pick val) (candidates (Suc i) rs) (pick val (i, p) sm), s, rs)"
      using Cons by simp
    then show ?thesis using True V p pick by (simp add: live_def)
  qed
qed simp

section \<open>Properties\<close>

text \<open>
  Sorting never succeeds on a file with records. generateRun does not return OK for any library
  sort, state and buffer: it creates the temporary file, destroys it again and opens it for
  insertion, which does not create it. So a SortedFile whose constructor returns OK has no
  runs, and next has nothing to return.
\<close>

theorem SortedFile_new_no_runs:
  fixes s :: "'z db_scheme"
  shows "generateRun qs s sf \<noteq> Some (OK, s', sf') \<and>
   SortedFile_new qs s name offset len type maxItems \<noteq> Some (OK, s', sf'\<lparr>sf_runs := r # rs\<rparr>)"
proof -
  have "sf_runs x = []" if sorted: "SortedFile_new qs s name offset len type maxItems = Some (OK, s', x)" for x
  proof -
    let ?sf = "\<lparr>sf_runs = [], sf_fileName = name, sf_type = type, sf_offset = offset, sf_length = len,
                sf_buffer = [], sf_maxItems = maxItems\<rparr>"
    have "sortFile qs s ?sf = Some (OK, s', x)"
      using sorted by (simp add: SortedFile_new_def Let_def split: if_splits)
    then have "\<exists>(s1 :: 'z db_scheme) s2 h sf1 h' s3. sort_loop qs s1 ?sf h = Some (OK, s2, sf1, h') \<and> startScans s3 sf1 = Some (OK, s', x)"
      by (auto simp: sortFile_def HeapFileScan_startScan_def bind_eq_Some_conv split: if_splits) blast+
    then obtain s1 :: "'z db_scheme" and s2 h sf1 h' where loop: "sort_loop qs s1 ?sf h = Some (OK, s2, sf1, h')"
      and scans: "\<exists>s3. startScans s3 sf1 = Some (OK, s', x)" by blast
    have "sf_runs sf1 = []" using sort_loop_runs [OF loop] by simp
    with scans show ?thesis by (auto simp: startScans_def)
  qed
  from this [of "sf'\<lparr>sf_runs := r # rs\<rparr>"] show ?thesis using generateRun_fails [of qs s sf s' sf'] by auto
qed

text \<open>The sort attribute of a record.\<close>

definition run_key :: "'z db_scheme \<Rightarrow> SortedFile \<Rightarrow> nat \<times> int \<Rightarrow> int" where
  "run_key s sf p = rd_int (ptr_mem s p) (sf_offset sf)"

lemma rec_cmp_key:
  assumes "sf_type sf = INTEGER" "\<bar>run_key s sf p\<bar> < 2 ^ 30" "\<bar>run_key s sf q\<bar> < 2 ^ 30"
  shows "rec_cmp s sf p q = Some (sgn (run_key s sf p - run_key s sf q))"
proof -
  have shift: "rd_int (\<lambda>x. m (k + x)) 0 = rd_int m k" for m k by (simp add: rd_int_def)
  have "wrap32 (run_key s sf p - run_key s sf q) = run_key s sf p - run_key s sf q"
    by (rule wrap32_id) (use assms(2,3) in \<open>auto simp: abs_less_iff\<close>)
  then show ?thesis by (simp add: rec_cmp_def reccmp_def assms(1) shift run_key_def)
qed

text \<open>
  The merge would return the smallest record: when every run of a file sorted on an integer
  attribute has its next record in memory and no difference of attributes overflows, next
  returns the record of a run that has not ended whose attribute is the least, the first such
  run when several have it, and marks just this run for advancing; when all runs have ended it
  returns FILEEOF and changes nothing. No constructor of the code brings about a SortedFile with
  runs; the theory SortRuns shows what the constructor does.
\<close>

theorem SortedFile_next_smallest:
  assumes "sf_runs sf \<noteq> []" "sf_type sf = INTEGER"
    "\<And>r. r \<in> set (sf_runs sf) \<Longrightarrow> run_valid r = Some True"
    "\<And>r. r \<in> set (sf_runs sf) \<Longrightarrow> 0 \<le> pageNo (run_rid r) \<Longrightarrow> \<exists>p. run_rec r = Some p \<and> \<bar>run_key s sf p\<bar> < 2 ^ 30"
  shows "if \<forall>r \<in> set (sf_runs sf). pageNo (run_rid r) < 0 then SortedFile_next s sf = Some (FILEEOF, None, s, sf)
    else \<exists>i p. SortedFile_next s sf = Some (OK, Some p, s,
             sf\<lparr>sf_runs := (sf_runs sf)[i := (sf_runs sf ! i)\<lparr>run_valid := Some False\<rparr>]\<rparr>) \<and>
           i < length (sf_runs sf) \<and> 0 \<le> pageNo (run_rid (sf_runs sf ! i)) \<and> run_rec (sf_runs sf ! i) = Some p \<and>
           (\<forall>j < length (sf_runs sf). 0 \<le> pageNo (run_rid (sf_runs sf ! j)) \<longrightarrow>
              run_key s sf p < run_key s sf (the (run_rec (sf_runs sf ! j))) \<or>
              run_key s sf p = run_key s sf (the (run_rec (sf_runs sf ! j))) \<and> i \<le> j)"
proof -
  let ?rs = "sf_runs sf" and ?key = "run_key s sf"
  let ?res = "fold (pick ?key) (candidates 0 ?rs) None"
  have loop: "next_loop s sf 0 ?rs None = Some (OK, ?res, s, ?rs)"
  proof (rule next_loop_picks [where P = "{p. \<bar>?key p\<bar> < 2 ^ 30}"])
    show "\<exists>p \<in> {p. \<bar>?key p\<bar> < 2 ^ 30}. run_rec r = Some p" if "r \<in> set ?rs" "live r" for r
      using assms(4) [OF that(1)] that(2) unfolding live_def by blast
    show "rec_cmp s sf p q = Some (sgn (?key p - ?key q))" if "p \<in> {p. \<bar>?key p\<bar> < 2 ^ 30}" "q \<in> {p. \<bar>?key p\<bar> < 2 ^ 30}" for p q
      using rec_cmp_key [OF assms(2)] that by blast
  qed (use assms(3) in simp_all)
  have best: "best_of ?key (candidates 0 ?rs) ?res" by (rule fold_pick_best [OF candidates_sorted])
  have res: "SortedFile_next s sf = Some (case ?res of None \<Rightarrow> (FILEEOF, None, s, sf)
      | Some (i, p) \<Rightarrow> (OK, Some p, s, sf\<lparr>sf_runs := ?rs[i := (?rs ! i)\<lparr>run_valid := Some False\<rparr>]\<rparr>))"
    using assms(1) loop by (auto simp: SortedFile_next_def split: option.splits)
  have cand: "(j, the (run_rec (?rs ! j))) \<in> set (candidates 0 ?rs)" if "j < length ?rs" "live (?rs ! j)" for j
    using candidates_in [OF that, of 0] by simp
  show ?thesis
  proof (cases ?res)
    case None
    then have "candidates 0 ?rs = []" using best by (simp add: best_of_def)
    then have "\<forall>r \<in> set ?rs. pageNo (run_rid r) < 0" using cand by (fastforce simp: in_set_conv_nth live_def)
    then show ?thesis using res None by simp
  next
    case (Some b)
    obtain i p where b: "b = (i, p)" by (rule prod.exhaust)
    have B: "(i, p) \<in> set (candidates 0 ?rs)"
      "\<And>j q. (j, q) \<in> set (candidates 0 ?rs) \<Longrightarrow> ?key p < ?key q \<or> ?key p = ?key q \<and> i \<le> j"
      using best Some b by (auto simp: best_of_def)
    have I: "i < length ?rs" "0 \<le> pageNo (run_rid (?rs ! i))" "p = the (run_rec (?rs ! i))"
      using candidates_bounds [OF B(1)] by (simp_all add: live_def)
    have rec: "run_rec (?rs ! i) = Some p" using assms(4) [of "?rs ! i"] I by auto
    have some: "\<not> (\<forall>r \<in> set ?rs. pageNo (run_rid r) < 0)" using I nth_mem by fastforce
    have min: "\<forall>j < length ?rs. 0 \<le> pageNo (run_rid (?rs ! j)) \<longrightarrow>
        ?key p < ?key (the (run_rec (?rs ! j))) \<or> ?key p = ?key (the (run_rec (?rs ! j))) \<and> i \<le> j"
      using B(2) cand by (auto simp: live_def)
    show ?thesis using res Some b I(1,2) rec some min by auto
  qed
qed

text \<open>Two runs whose records hold 5 and 3.\<close>

definition example_run :: "nat \<Rightarrow> RUN" where
  "example_run i = \<lparr>run_name = ''r'', run_inFile = None, run_valid = Some True, run_rec = Some (i, 0),
     run_rid = \<lparr>pageNo = 2, slotNo = 0\<rparr>, run_mark = NULLRID\<rparr>"

definition example_sorted :: SortedFile where
  "example_sorted = \<lparr>sf_runs = [example_run 0, example_run 1], sf_fileName = ''r'', sf_type = INTEGER,
     sf_offset = 0, sf_length = 4, sf_buffer = [], sf_maxItems = 2\<rparr>"

lemma SortedFile_next_smallest_witness:
  "\<forall>s :: db. \<exists>s'. s' = s\<lparr>bufPool := [wr_int zero_mem 0 5, wr_int zero_mem 0 3]\<rparr> \<and>
     SortedFile_next s' example_sorted = Some (OK, Some (1, 0), s',
       example_sorted\<lparr>sf_runs := [example_run 0, (example_run 1)\<lparr>run_valid := Some False\<rparr>]\<rparr>)"
proof
  fix s :: db
  let ?s = "s\<lparr>bufPool := [wr_int zero_mem 0 5, wr_int zero_mem 0 3]\<rparr>"
  have key: "run_key ?s example_sorted (0, 0) = 5" "run_key ?s example_sorted (Suc 0, 0) = 3"
    by (simp_all add: run_key_def ptr_mem_def example_sorted_def mem_simps)
  have runs: "sf_runs example_sorted = [example_run 0, example_run 1]" "sf_type example_sorted = INTEGER"
    by (simp_all add: example_sorted_def)
  have run: "run_valid (example_run i) = Some True" "run_rec (example_run i) = Some (i, 0)"
    "pageNo (run_rid (example_run i)) = 2" for i by (simp_all add: example_run_def)
  have T: "if \<forall>r \<in> set (sf_runs example_sorted). pageNo (run_rid r) < 0
    then SortedFile_next ?s example_sorted = Some (FILEEOF, None, ?s, example_sorted)
    else \<exists>i p. SortedFile_next ?s example_sorted = Some (OK, Some p, ?s, example_sorted\<lparr>sf_runs :=
             (sf_runs example_sorted)[i := (sf_runs example_sorted ! i)\<lparr>run_valid := Some False\<rparr>]\<rparr>) \<and>
           i < length (sf_runs example_sorted) \<and> 0 \<le> pageNo (run_rid (sf_runs example_sorted ! i)) \<and>
           run_rec (sf_runs example_sorted ! i) = Some p \<and>
           (\<forall>j < length (sf_runs example_sorted). 0 \<le> pageNo (run_rid (sf_runs example_sorted ! j)) \<longrightarrow>
              run_key ?s example_sorted p < run_key ?s example_sorted (the (run_rec (sf_runs example_sorted ! j))) \<or>
              run_key ?s example_sorted p = run_key ?s example_sorted (the (run_rec (sf_runs example_sorted ! j))) \<and> i \<le> j)"
    by (rule SortedFile_next_smallest) (auto simp: runs run key)
  have live: "\<not> (\<forall>r \<in> set (sf_runs example_sorted). pageNo (run_rid r) < 0)" by (simp add: runs run)
  obtain i p where P: "SortedFile_next ?s example_sorted = Some (OK, Some p, ?s,
        example_sorted\<lparr>sf_runs := (sf_runs example_sorted)[i := (sf_runs example_sorted ! i)\<lparr>run_valid := Some False\<rparr>]\<rparr>)"
      "i < length (sf_runs example_sorted)" "run_rec (sf_runs example_sorted ! i) = Some p"
      "\<forall>j < length (sf_runs example_sorted). 0 \<le> pageNo (run_rid (sf_runs example_sorted ! j)) \<longrightarrow>
              run_key ?s example_sorted p < run_key ?s example_sorted (the (run_rec (sf_runs example_sorted ! j))) \<or>
              run_key ?s example_sorted p = run_key ?s example_sorted (the (run_rec (sf_runs example_sorted ! j))) \<and> i \<le> j"
    using T [unfolded if_not_P [OF live]] by blast
  have "i \<noteq> 0"
  proof
    assume i: "i = 0"
    then have "p = (0, 0)" using P(3) by (simp add: runs run)
    then show False using P(4) [rule_format, of 1] by (simp add: runs run key)
  qed
  then have "i = 1" using P(2) by (simp add: runs)
  then show "\<exists>s'. s' = ?s \<and> SortedFile_next s' example_sorted = Some (OK, Some (1, 0), s',
       example_sorted\<lparr>sf_runs := [example_run 0, (example_run 1)\<lparr>run_valid := Some False\<rparr>]\<rparr>)"
    using P(1,3) by (simp add: runs run)
qed

end
