(* ===== verification/SortRuns.thy ===== *)
theory SortRuns
  imports SortFile Load
begin

text \<open>
  What a SortedFile can do (sort.C): its constructor reads the file and writes the first run to a
  temporary file, which it does not create. It gets past that only for a file without records. The
  library's qsort stays a parameter.
\<close>

section \<open>The name of the first run\<close>

lemma run_file_name_1:
  assumes "c_str name = name"
  shows "c_str (run_file_name name 1) = name @ ''.sort.1''" "run_file_name name 1 \<noteq> []"
    "c_str (run_file_name name 1) \<noteq> run_file_name name 1"
proof -
  have "CHR 0x00 \<notin> set name" using assms c_str_NUL by blast
  moreover have "dec_int 1 = ''1''" by code_simp
  ultimately show "c_str (run_file_name name 1) = name @ ''.sort.1''" by (simp add: run_file_name_def c_str_append)
  show "run_file_name name 1 \<noteq> []" by (simp add: run_file_name_def)
  show "c_str (run_file_name name 1) \<noteq> run_file_name name 1" by (rule c_str_NUL) (simp add: run_file_name_def)
qed

lemma NUL_not_open:
  assumes "db_inv s" "c_str n \<noteq> n"
  shows "of_map (openFiles s) n = None"
proof -
  have "disk s n = None" using db_inv_c_str [OF assms(1), of n] assms(2) by (cases "disk s n") simp_all
  then show ?thesis using no_file_closed [OF assms(1)] by (simp add: closed_free_def)
qed

section \<open>Reading the source file\<close>

lemma fetch_items_spec:
  fixes s :: "'z db_scheme" and h :: filescan
  assumes "scan_own s n h U B hdr xs rest" "\<forall>r. HeapFileScan_matchRec h r"
  shows "\<exists>st new s' h'. fetch_items m off len s h items = Some (False, st, items @ new, s', h') \<and> length new = min m (length rest) \<and>
    scan_own s' n h' U B hdr xs (drop m rest) \<and> filePtr h' = filePtr h \<and> apart n (filePtr h) s s' \<and> page_of s' = page_of s"
  using assms
proof (induction m arbitrary: s h items rest)
  case 0
  then show ?case by (auto simp: apart_refl)
next
  case (Suc m)
  note next' = scan_own_next [OF Suc.prems(1)]
  show ?case
  proof (cases rest)
    case Nil
    obtain st o2 s2 h2 where N: "HeapFileScan_scanNext s h = Some (st, o2, s2, h2)" "same_scan h h2" "apart n (filePtr h) s s2"
      "page_of s2 = page_of s" "st = FILEEOF" "scan_own s2 n h2 U B hdr xs []"
      by (rule next') (rule that, simp_all add: Nil)
    then show ?thesis using same_scanD [OF N(2)] Nil by (intro exI [of _ FILEEOF] exI [of _ "[]"] exI [of _ s2] exI [of _ h2]) simp
  next
    case (Cons x rs)
    obtain rid r where x: "x = (rid, r)" by (cases x)
    obtain st o2 s2 h2 where M: "HeapFileScan_scanNext s h = Some (st, o2, s2, h2)" "same_scan h h2" "apart n (filePtr h) s s2"
      "page_of s2 = page_of s" "case dropWhile (\<lambda>(rid, rec). \<not> HeapFileScan_matchRec h rec) rest of
         [] \<Rightarrow> st = FILEEOF \<and> scan_own s2 n h2 U B hdr xs []
       | (rid, rec) # rs \<Rightarrow> st = OK \<and> o2 = Some rid \<and> curRec h2 = rid \<and> pageNo rid = cur_pageNo h2 \<and>
           HeapFileScan_getRecord s2 h2 = Some (OK, Some rec) \<and> scan_own s2 n h2 U B hdr xs rs"
      by (rule next') (rule that)
    have N: "st = OK" "o2 = Some rid" "HeapFileScan_getRecord s2 h2 = Some (OK, Some r)" "scan_own s2 n h2 U B hdr xs rs"
      using M(5) Suc.prems(2) x Cons by simp_all
    have f: "filePtr h2 = filePtr h" "\<forall>r. HeapFileScan_matchRec h2 r" using same_scanD [OF M(2)] Suc.prems(2) by simp_all
    obtain p where p: "scan_rec_ptr s2 h2 = Some p" by (rule scan_rec_mem [OF N(3)]) (rule that)
    let ?item = "\<lparr>sr_rid = rid, sr_field = rd_bytes (ptr_mem s2 p) off (nat len), sr_length = len\<rparr>"
    obtain st' new s' h' where I: "fetch_items m off len s2 h2 (items @ [?item]) = Some (False, st', (items @ [?item]) @ new, s', h')"
      "length new = min m (length rs)" "scan_own s' n h' U B hdr xs (drop m rs)" "filePtr h' = filePtr h2"
      "apart n (filePtr h2) s2 s'" "page_of s' = page_of s2"
      using Suc.IH [OF N(4) f(2), of "items @ [?item]"] by blast
    have "apart n (filePtr h) s s'"
      by (rule apart_trans [OF M(3) I(5) [unfolded f(1)]])
        (use scan_own_pins(1) [OF N(4)] scan_own_pins(1) [OF Suc.prems(1)] f(1) in \<open>simp add: with_obj_same\<close>)
    then show ?thesis
      using M(1,4) N(1-3) p I Cons f(1)
      by (intro exI [of _ st'] exI [of _ "?item # new"] exI [of _ s'] exI [of _ h']) simp
  qed
qed

section \<open>The first run\<close>

lemma generateRun_first:
  fixes s :: "'z db_scheme"
  assumes inv: "db_inv s" and sf: "sf_runs sf = []" "sf_fileName sf \<noteq> []" "c_str (sf_fileName sf) = sf_fileName sf"
  shows "disk s (sf_fileName sf @ ''.sort.1'') = None \<Longrightarrow> generateRun qs s sf = None"
    and "disk s (sf_fileName sf @ ''.sort.1'') \<noteq> None \<Longrightarrow> comparable (cmp_of (sf_type sf)) (sf_buffer sf) \<Longrightarrow>
      \<exists>sf'. generateRun qs s sf = Some (FILEEXISTS, s, sf')"
    and "disk s (sf_fileName sf @ ''.sort.1'') \<noteq> None \<Longrightarrow> \<not> comparable (cmp_of (sf_type sf)) (sf_buffer sf) \<Longrightarrow>
      generateRun qs s sf = None"
proof -
  let ?run = "run_file_name (sf_fileName sf) 1" and ?path = "sf_fileName sf @ ''.sort.1''"
  note R = run_file_name_1 [OF sf(3)]
  have o: "of_map (openFiles s) ?run = None" by (rule NUL_not_open [OF inv R(3)])
  show "generateRun qs s sf = None" if none: "disk s ?path = None"
  proof -
    obtain ps where C: "DB_createFile s ?run = (OK, s\<lparr>disk := (disk s)(?path \<mapsto> ps)\<rparr>)"
      using o R none by (simp add: DB_createFile_def find_of_map File_create_def Let_def)
    let ?s2 = "s\<lparr>disk := (disk s)(?path := None)\<rparr>"
    have D: "DB_destroyFile (s\<lparr>disk := (disk s)(?path \<mapsto> ps)\<rparr>) ?run = (OK, ?s2)"
      using o R by (simp add: DB_destroyFile_def find_of_map File_destroy_def Let_def)
    have "InsertFileScan_new ?s2 ?run = None" by (rule InsertFileScan_new_missing) (use o R in simp_all)
    then show ?thesis using C D sf(1) by (simp add: generateRun_def Let_def)
  qed
  have E: "DB_createFile s ?run = (FILEEXISTS, s)" if "disk s ?path \<noteq> None"
    using that o R by (simp add: DB_createFile_def find_of_map File_create_def Let_def)
  show "\<exists>sf'. generateRun qs s sf = Some (FILEEXISTS, s, sf')"
    if "disk s ?path \<noteq> None" "comparable (cmp_of (sf_type sf)) (sf_buffer sf)"
    using E [OF that(1)] that(2) sf(1) by (simp add: generateRun_def Let_def)
  show "generateRun qs s sf = None" if "\<not> comparable (cmp_of (sf_type sf)) (sf_buffer sf)"
    using that by (simp add: generateRun_def)
qed

lemma comparable_total: "(\<And>x y. cmp x y \<noteq> None) \<Longrightarrow> comparable cmp xs"
  by (induction xs) auto

lemma comparable_type: "type \<noteq> FLOAT \<Longrightarrow> comparable (cmp_of type) xs"
  by (rule comparable_total) (cases type; simp add: cmp_of_def intcmp_def stringcmp_def sortrec_cmp_def reccmp_def)

section \<open>The constructor\<close>

text \<open>A file is on disk before exactly when it is afterwards, when only another one was worked with.\<close>

lemma apart_disk:
  assumes inv: "db_inv s" "db_inv s'" and a: "apart name f s s'" and n: "n \<noteq> name"
  shows "disk s' n = None \<longleftrightarrow> disk s n = None"
proof (cases "of_map (openFiles s) n")
  case None
  then show ?thesis using apartD(10) [OF a n] by simp
next
  case (Some g)
  have "disk t n \<noteq> None" if "db_inv t" "of_map (openFiles t) n = Some g" for t :: "'a db_scheme"
    using no_file_closed [OF that(1), of n] that(2) by (auto simp: closed_free_def)
  then have "disk s' n \<noteq> None" "disk s n \<noteq> None" using Some apartD(3) [OF a n] inv by metis+
  then show ?thesis by blast
qed

text \<open>The constructor up to the first run: the items are read.\<close>

lemma sort_first:
  fixes s :: "'z db_scheme"
  assumes inv: "db_inv s" and st: "stored s name k recs" and room: "card (pinned s) + 2 \<le> numBufs s"
    and p: "0 \<le> offset" "1 \<le> len" "type = STRING \<or> len = 4" "2 \<le> maxItems"
  defines "sf items \<equiv> \<lparr>sf_runs = [], sf_fileName = name, sf_type = type, sf_offset = offset, sf_length = len, sf_buffer = items, sf_maxItems = maxItems\<rparr>"
  obtains items s2 U hdr xs and h :: filescan where "db_inv s2" "apart name (filePtr h) s s2" "items = [] \<longleftrightarrow> recs = []" "lay_size U = k"
    "scan_own s2 name h U (pin_of s) hdr xs (drop (nat maxItems) recs)" "chain_recs (page_of s2 (filePtr h)) xs = recs"
    "SortedFile_new qs s name offset len type maxItems = Option.bind (if items = [] then Some (OK, s2, sf items, h)
      else Option.bind (generateRun qs s2 (sf items)) (\<lambda>(st, s, sf). if st \<noteq> OK then Some (st, s, sf, h) else sort_loop qs s sf h))
      (\<lambda>(st, s, sf, h). if st \<noteq> OK then Some (st, s, sf) else Option.bind (HeapFileScan_delete s h) (\<lambda>s. startScans s sf))"
proof -
  obtain s1 U hdr xs and h :: filescan where A: "HeapFileScan_new s name = Some (OK, Some h, s1)" "scan_own s1 name h U (pin_of s) hdr xs recs"
    "lay_size U = k" "apart name (filePtr h) s s1" "chain_recs (page_of s1 (filePtr h)) xs = recs"
    by (rule HeapFileScan_new_own [OF inv st room]) (rule that)
  let ?h = "h\<lparr>sc_filter := None\<rparr>"
  have e: "?h = h\<lparr>sc_offset := sc_offset h, sc_length := sc_length h, sc_type := sc_type h, sc_filter := None, sc_op := sc_op h\<rparr>" by simp
  have so: "scan_own s1 name ?h U (pin_of s) hdr xs recs" by (subst e) (rule scan_own_startScan [OF A(2)])
  have all: "\<forall>r. HeapFileScan_matchRec ?h r" by (simp add: HeapFileScan_matchRec_def)
  have start: "HeapFileScan_startScan h 0 0 STRING None EQ = (OK, ?h)" by (simp add: HeapFileScan_startScan_def)
  obtain st items s2 h2 where F: "fetch_items (nat maxItems) offset len s1 ?h [] = Some (False, st, items, s2, h2)"
    "length items = min (nat maxItems) (length recs)" "scan_own s2 name h2 U (pin_of s) hdr xs (drop (nat maxItems) recs)"
    "filePtr h2 = filePtr h" "apart name (filePtr h) s1 s2" "page_of s2 = page_of s1"
    using fetch_items_spec [OF so all, of "nat maxItems" offset len "[]"] by auto
  have inv2: "db_inv s2" using F(3) unfolding scan_own_def own_def heap_at_def by blast
  have a2: "apart name (filePtr h) s s2"
    by (rule apart_trans [OF A(4) F(5)]) (use scan_own_pins(1) [OF A(2)] in \<open>simp add: with_obj_same\<close>)
  have items: "items = [] \<longleftrightarrow> recs = []" using F(2) p(4) by (auto simp: min_def split: if_splits)
  have "sort_loop qs s1 (sf []) ?h = (if items = [] then Some (OK, s2, sf items, h2)
      else Option.bind (generateRun qs s2 (sf items)) (\<lambda>(st, s, sf). if st \<noteq> OK then Some (st, s, sf, h2) else sort_loop qs s sf h2))"
    by (subst sort_loop.simps) (simp add: F(1) sf_def)
  moreover have "SortedFile_new qs s name offset len type maxItems = Option.bind (sort_loop qs s1 (sf []) ?h)
      (\<lambda>(st, s, sf, h). if st \<noteq> OK then Some (st, s, sf) else Option.bind (HeapFileScan_delete s h) (\<lambda>s. startScans s sf))"
    using p A(1) start by (auto simp: SortedFile_new_def sortFile_def sf_def)
  ultimately show thesis using that [of s2 h2 items U hdr xs] inv2 a2 items A(3,5) F(3,4,6) by simp
qed

text \<open>
  C35: What a SortedFile can sort. On a relation without records the constructor answers OK, next
  answers FILEEOF at once, and the relation, the other relations and the pins are as before. On any
  relation with records, whatever the library's qsort, the attribute and the number of items that
  fit in memory, no SortedFile comes about: the temporary file of the first run is created, removed
  again and opened, and the insert scan on the file that is not there reads members that were never set;
  a file of that name that was there before makes the constructor answer FILEEXISTS (unless
  two floats cannot be compared).
\<close>
theorem SortedFile_new_sorts_nothing:
  fixes s :: "'z db_scheme"
  assumes "db_inv s" "stored s name k recs" "card (pinned s) + 2 \<le> numBufs s"
    and "0 \<le> offset" "1 \<le> len" "type = STRING \<or> len = 4" "2 \<le> maxItems"
  shows "if recs = [] then
      \<exists>s' sf. SortedFile_new qs s name offset len type maxItems = Some (OK, s', sf) \<and> SortedFile_next s' sf = Some (FILEEOF, None, s', sf) \<and>
        db_inv s' \<and> stored s' name k [] \<and> (\<forall>n j rs. n \<noteq> name \<and> stored s n j rs \<longrightarrow> stored s' n j rs) \<and> pin_of s' = pin_of s
    else if disk s (name @ ''.sort.1'') = None then SortedFile_new qs s name offset len type maxItems = None
    else (case SortedFile_new qs s name offset len type maxItems of None \<Rightarrow> type = FLOAT | Some (st, s', sf) \<Rightarrow> st = FILEEXISTS)"
proof -
  obtain items s2 U hdr xs and h :: filescan where F: "db_inv s2" "apart name (filePtr h) s s2" "items = [] \<longleftrightarrow> recs = []" "lay_size U = k"
    "scan_own s2 name h U (pin_of s) hdr xs (drop (nat maxItems) recs)" "chain_recs (page_of s2 (filePtr h)) xs = recs"
    "SortedFile_new qs s name offset len type maxItems = Option.bind (if items = []
      then Some (OK, s2, \<lparr>sf_runs = [], sf_fileName = name, sf_type = type, sf_offset = offset, sf_length = len, sf_buffer = items, sf_maxItems = maxItems\<rparr>, h)
      else Option.bind (generateRun qs s2 \<lparr>sf_runs = [], sf_fileName = name, sf_type = type, sf_offset = offset, sf_length = len,
          sf_buffer = items, sf_maxItems = maxItems\<rparr>) (\<lambda>(st, s, sf). if st \<noteq> OK then Some (st, s, sf, h) else sort_loop qs s sf h))
      (\<lambda>(st, s, sf, h). if st \<noteq> OK then Some (st, s, sf) else Option.bind (HeapFileScan_delete s h) (\<lambda>s. startScans s sf))"
    by (rule sort_first [OF assms, of qs]) (rule that)
  let ?sf = "\<lparr>sf_runs = [], sf_fileName = name, sf_type = type, sf_offset = offset, sf_length = len, sf_buffer = items, sf_maxItems = maxItems\<rparr>"
  show ?thesis
  proof (cases "recs = []")
    case True
    obtain x where x: "own s2 name h U (pin_of s) hdr xs x" using F(5) by (auto simp: scan_own_def)
    obtain s4 where D: "HeapFileScan_delete s2 h = Some s4" "db_inv s4" "apart name (filePtr h) s2 s4" "pin_of s4 = pin_of s"
      "stored s4 name (lay_size U) (chain_recs (page_of s2 (filePtr h)) xs)"
      by (rule HeapFileScan_delete_own [OF x]) (rule that)
    have "SortedFile_new qs s name offset len type maxItems = Some (OK, s4, ?sf)" using F(3,7) D(1) True by (simp add: startScans_def)
    moreover have "stored s4 name k []" using D(5) F(4,6) True by simp
    moreover have "stored s4 n j rs" if "n \<noteq> name" "stored s n j rs" for n j rs
      using apartD(4) [OF D(3) that(1)] apartD(4) [OF F(2) that] by blast
    ultimately show ?thesis using True D(2,4) by (auto simp: SortedFile_next_def)
  next
    case False
    let ?path = "name @ ''.sort.1''"
    have name: "name \<noteq> []" "c_str name = name" using assms(1,2) db_inv_c_str by (auto simp: stored_def)
    have d: "disk s2 ?path = None \<longleftrightarrow> disk s ?path = None" by (rule apart_disk [OF assms(1) F(1,2)]) simp
    have sf: "sf_runs ?sf = []" "sf_fileName ?sf \<noteq> []" "c_str (sf_fileName ?sf) = sf_fileName ?sf" using name by simp_all
    note G = generateRun_first [OF F(1) sf, of qs, unfolded SortedFile.simps d] and run = F(7) [unfolded if_not_P [OF False [folded F(3)]]]
    show ?thesis
    proof (cases "disk s ?path = None \<or> comparable (cmp_of type) items")
      case True
      then show ?thesis using False run G(1,2) by (cases "disk s ?path = None") auto
    next
      case incomparable: False
      then have "type = FLOAT" using comparable_type by blast
      then show ?thesis using False run G(3) incomparable by auto
    qed
  qed
qed

text \<open>An empty relation, and the same relation with a record.\<close>

lemma SortedFile_new_sorts_nothing_witness:
  "\<exists>(s :: minirel) s' sf (t :: minirel) k rid. stored s ''emp'' 3 [] \<and>
     SortedFile_new (\<lambda>_ xs. xs) s ''emp'' 0 4 INTEGER 2 = Some (OK, s', sf) \<and> SortedFile_next s' sf = Some (FILEEOF, None, s', sf) \<and>
     stored t ''emp'' k [(rid, [7, 0, 0, 0])] \<and> SortedFile_new (\<lambda>_ xs. xs) t ''emp'' 0 4 INTEGER 2 = None"
proof -
  let ?qs = "\<lambda>_ xs. xs" and ?s = "example_minirel"
  have st: "stored ?s ''emp'' 3 []" by (rule example_stored) (simp_all add: example_dir_def RELCATNAME_def ATTRCATNAME_def)
  have pins: "pinned ?s = {}" "numBufs ?s = 8" by (simp_all add: busy_def example_minirel_fields)
  then have room: "card (pinned ?s) + 3 \<le> numBufs ?s" "card (pinned ?s) + 2 \<le> numBufs ?s" by simp_all
  have p: "(0 :: int) \<le> 0" "1 \<le> (4 :: int)" "INTEGER = STRING \<or> (4 :: int) = 4" "2 \<le> (2 :: int)" by simp_all
  note inv = example_minirel_fields(7)
  obtain s' sf where E: "SortedFile_new ?qs ?s ''emp'' 0 4 INTEGER 2 = Some (OK, s', sf)" "SortedFile_next s' sf = Some (FILEEOF, None, s', sf)"
    using SortedFile_new_sorts_nothing [OF inv st room(2) p, of ?qs] by auto
  have r: "[7, 0, 0, 0] \<noteq> ([] :: byte list)" "length ([7, 0, 0, 0] :: byte list) \<le> 1000" "(3 :: nat) < 2147483647" by simp_all
  obtain h1 :: heapfile and t rid n new where I: "db_inv t" "stored t ''emp'' n new" "mset new = add_mset (rid, [7, 0, 0, 0]) (mset [])"
    "apart ''emp'' (filePtr h1) ?s t" "pin_of t = pin_of ?s"
    by (rule insert_stored [OF inv st r(1,2) room(1) r(3)]) (rule that)
  have t: "stored t ''emp'' n [(rid, [7, 0, 0, 0])]" using I(2,3) by simp
  have "card (pinned t) + 2 \<le> numBufs t" using room(2) I(5) apartD(1) [OF I(4)] by simp
  note T = SortedFile_new_sorts_nothing [OF I(1) t this p, of ?qs]
  have "disk ?s ''emp.sort.1'' = None" by (simp add: example_minirel_fields example_dir_def RELCATNAME_def ATTRCATNAME_def)
  then have "disk t ''emp.sort.1'' = None" using apartD(10) [OF I(4), of "''emp.sort.1''"] by (simp add: example_minirel_fields of_new_map)
  then have "SortedFile_new ?qs t ''emp'' 0 4 INTEGER 2 = None" using T by simp
  then show ?thesis using st E t by blast
qed

end
