(* ===== verification/Nodes.thy ===== *)
theory Nodes
  imports Utility
begin

text \<open>
  The parse tree (parse.h, nodes.C). Nodes come from a pool of 100, used up for each query; the
  state is the number of nodes taken, and an allocation that finds the pool empty ends the
  program: None. A list of nodes is the chain of its list nodes. A char* that may be null is an
  option. A float is its 32 bits.
\<close>

section \<open>Nodes\<close>

record QUALATTR =
  q_relname :: "string option"
  q_attrname :: string

datatype VALUE = VInt int | VFloat int | VString string

record ATTRVAL =
  av_attrname :: string
  av_value :: "VALUE option"

record ATTRTYPE =
  at_attrname :: string
  at_type :: int

record ALIAS =
  al_relname :: string
  al_alias :: "string option"

record PRIMATTR =
  pa_attrname :: string
  pa_nbuckets :: int

datatype QUAL = N_SELECT QUALATTR Operator VALUE | N_JOIN QUALATTR Operator QUALATTR

datatype NODE =
    N_QUERY "string option" "QUALATTR list" "QUAL option"
  | N_INSERT string "ATTRVAL list"
  | N_DELETE string "QUAL option"
  | N_CREATE string "ATTRTYPE list" "PRIMATTR option"
  | N_DESTROY string
  | N_BUILD string string int
  | N_REBUILD string string int
  | N_DROP string "string option"
  | N_LOAD string string
  | N_PRINT string
  | N_HELP "string option"

definition MAXNODE :: int where "MAXNODE = 100"

definition newnode :: "int \<Rightarrow> int option" where
  "newnode nodeptr = (if nodeptr = MAXNODE then None else Some (nodeptr + 1))"

definition node :: "'n \<Rightarrow> int \<Rightarrow> ('n \<times> int) option" where
  "node n nodeptr = do { nodeptr \<leftarrow> newnode nodeptr; Some (n, nodeptr) }"

definition query_node :: "string option \<Rightarrow> QUALATTR list \<Rightarrow> QUAL option \<Rightarrow> int \<Rightarrow> (NODE \<times> int) option" where
  "query_node relname attrlist qual = node (N_QUERY relname attrlist qual)"

definition insert_node :: "string \<Rightarrow> ATTRVAL list \<Rightarrow> int \<Rightarrow> (NODE \<times> int) option" where
  "insert_node relname attrlist = node (N_INSERT relname attrlist)"

definition delete_node :: "string \<Rightarrow> QUAL option \<Rightarrow> int \<Rightarrow> (NODE \<times> int) option" where
  "delete_node relname qual = node (N_DELETE relname qual)"

definition create_node :: "string \<Rightarrow> ATTRTYPE list \<Rightarrow> PRIMATTR option \<Rightarrow> int \<Rightarrow> (NODE \<times> int) option" where
  "create_node relname attrlist primattr = node (N_CREATE relname attrlist primattr)"

definition destroy_node :: "string \<Rightarrow> int \<Rightarrow> (NODE \<times> int) option" where
  "destroy_node relname = node (N_DESTROY relname)"

definition build_node :: "string \<Rightarrow> string \<Rightarrow> int \<Rightarrow> int \<Rightarrow> (NODE \<times> int) option" where
  "build_node relname attrname nbuckets = node (N_BUILD relname attrname nbuckets)"

definition rebuild_node :: "string \<Rightarrow> string \<Rightarrow> int \<Rightarrow> int \<Rightarrow> (NODE \<times> int) option" where
  "rebuild_node relname attrname nbuckets = node (N_REBUILD relname attrname nbuckets)"

definition drop_node :: "string \<Rightarrow> string option \<Rightarrow> int \<Rightarrow> (NODE \<times> int) option" where
  "drop_node relname attrname = node (N_DROP relname attrname)"

definition load_node :: "string \<Rightarrow> string \<Rightarrow> int \<Rightarrow> (NODE \<times> int) option" where
  "load_node relname filename = node (N_LOAD relname filename)"

definition print_node :: "string \<Rightarrow> int \<Rightarrow> (NODE \<times> int) option" where
  "print_node relname = node (N_PRINT relname)"

definition help_node :: "string option \<Rightarrow> int \<Rightarrow> (NODE \<times> int) option" where
  "help_node relname = node (N_HELP relname)"

definition select_node :: "QUALATTR \<Rightarrow> Operator \<Rightarrow> VALUE \<Rightarrow> int \<Rightarrow> (QUAL \<times> int) option" where
  "select_node selattr op value = node (N_SELECT selattr op value)"

definition join_node :: "QUALATTR \<Rightarrow> Operator \<Rightarrow> QUALATTR \<Rightarrow> int \<Rightarrow> (QUAL \<times> int) option" where
  "join_node joinattr1 op joinattr2 = node (N_JOIN joinattr1 op joinattr2)"

definition primattr_node :: "string \<Rightarrow> int \<Rightarrow> int \<Rightarrow> (PRIMATTR \<times> int) option" where
  "primattr_node attrname nbuckets = node \<lparr>pa_attrname = attrname, pa_nbuckets = nbuckets\<rparr>"

definition qualattr_node :: "string option \<Rightarrow> string \<Rightarrow> int \<Rightarrow> (QUALATTR \<times> int) option" where
  "qualattr_node relname attrname = node \<lparr>q_relname = relname, q_attrname = attrname\<rparr>"

definition attrval_node :: "string \<Rightarrow> VALUE option \<Rightarrow> int \<Rightarrow> (ATTRVAL \<times> int) option" where
  "attrval_node attrname value = node \<lparr>av_attrname = attrname, av_value = value\<rparr>"

definition attrtype_node :: "string \<Rightarrow> int \<Rightarrow> int \<Rightarrow> (ATTRTYPE \<times> int) option" where
  "attrtype_node attrname type = node \<lparr>at_attrname = attrname, at_type = type\<rparr>"

definition int_node :: "int \<Rightarrow> int \<Rightarrow> (VALUE \<times> int) option" where
  "int_node ival = node (VInt ival)"

definition float_node :: "int \<Rightarrow> int \<Rightarrow> (VALUE \<times> int) option" where
  "float_node rval = node (VFloat rval)"

definition string_node :: "string \<Rightarrow> int \<Rightarrow> (VALUE \<times> int) option" where
  "string_node str = node (VString str)"

definition list_node :: "'n \<Rightarrow> int \<Rightarrow> ('n list \<times> int) option" where
  "list_node n = node [n]"

definition prepend :: "'n \<Rightarrow> 'n list \<Rightarrow> int \<Rightarrow> ('n list \<times> int) option" where
  "prepend n list = node (n # list)"

definition alias_node :: "string \<Rightarrow> string option \<Rightarrow> int \<Rightarrow> (ALIAS \<times> int) option" where
  "alias_node relname alias = node \<lparr>al_relname = relname, al_alias = alias\<rparr>"

text \<open>A new query starts with an empty pool, as does the parser after a syntax error.\<close>

definition new_query :: "int \<times> int \<Rightarrow> int \<times> int" where
  "new_query = (\<lambda>(nodeptr, charptr). (0, 0))"

definition reset_parser :: "int \<times> int \<Rightarrow> int \<times> int" where
  "reset_parser = (\<lambda>(nodeptr, charptr). (0, 0))"

section \<open>Attribute and value lists\<close>

text \<open>Inl is the message on stderr with a null result.\<close>

fun merge_attr_value_list :: "ATTRVAL list \<Rightarrow> VALUE list \<Rightarrow> string + ATTRVAL list" where
  "merge_attr_value_list [] [] = Inr []"
| "merge_attr_value_list [] (v # vs) = Inl (''Error: Value list is longer than attr list!'' @ newline)"
| "merge_attr_value_list (a # as) [] = Inl (''Error: Value list is shorter than attr list!'' @ newline)"
| "merge_attr_value_list (a # as) (v # vs) =
     (case merge_attr_value_list as vs of
        Inl e \<Rightarrow> Inl e
      | Inr rest \<Rightarrow> Inr (a\<lparr>av_value := Some v\<rparr> # rest))"

section \<open>Aliases\<close>

fun find_match_in_alias :: "ALIAS list \<Rightarrow> string \<Rightarrow> string option" where
  "find_match_in_alias [] rel_alias = None"
| "find_match_in_alias (a # as) rel_alias =
     (if al_relname a = rel_alias then Some rel_alias
      else if al_alias a = Some rel_alias then Some (al_relname a)
      else find_match_in_alias as rel_alias)"

text \<open>The relation an attribute belongs to; the list of tables is never empty.\<close>

definition replace_alias :: "ALIAS list \<Rightarrow> QUALATTR \<Rightarrow> (string + QUALATTR) option" where
  "replace_alias alias q =
     (case q_relname q of
        None \<Rightarrow> (case alias of
            [] \<Rightarrow> None
          | [a] \<Rightarrow> Some (Inr (q\<lparr>q_relname := Some (al_relname a)\<rparr>))
          | _ \<Rightarrow> Some (Inl (''Error: must have relation qualifier before'' @
                            ''attributes if multi-table invovle in the query'' @ newline)))
      | Some rel \<Rightarrow> (case find_match_in_alias alias rel of
            None \<Rightarrow> Some (Inl (''Error: relation qualifier '' @ rel @ '' not found'' @ newline))
          | Some r \<Rightarrow> Some (Inr (q\<lparr>q_relname := Some r\<rparr>))))"

fun replace_alias_in_qualattr_list :: "ALIAS list \<Rightarrow> QUALATTR list \<Rightarrow> (string + QUALATTR list) option" where
  "replace_alias_in_qualattr_list alias [] = Some (Inr [])"
| "replace_alias_in_qualattr_list alias (q # qs) = do {
     r \<leftarrow> replace_alias alias q;
     case r of Inl e \<Rightarrow> Some (Inl e)
     | Inr q \<Rightarrow> do {
         r \<leftarrow> replace_alias_in_qualattr_list alias qs;
         case r of Inl e \<Rightarrow> Some (Inl e) | Inr qs \<Rightarrow> Some (Inr (q # qs)) } }"

text \<open>The value of a selection is not touched.\<close>

definition replace_alias_in_condition :: "ALIAS list \<Rightarrow> QUAL option \<Rightarrow> (string + QUAL option) option" where
  "replace_alias_in_condition alias where_cond =
     (case where_cond of
        None \<Rightarrow> Some (Inr None)
      | Some (N_SELECT q op v) \<Rightarrow> do {
          r \<leftarrow> replace_alias alias q;
          case r of Inl e \<Rightarrow> Some (Inl e) | Inr q \<Rightarrow> Some (Inr (Some (N_SELECT q op v))) }
      | Some (N_JOIN q1 op q2) \<Rightarrow> do {
          r \<leftarrow> replace_alias alias q1;
          case r of Inl e \<Rightarrow> Some (Inl e)
          | Inr q1 \<Rightarrow> do {
              r \<leftarrow> replace_alias alias q2;
              case r of Inl e \<Rightarrow> Some (Inl e) | Inr q2 \<Rightarrow> Some (Inr (Some (N_JOIN q1 op q2))) } })"

end
