(* ===== verification/ScanHelp.thy ===== *)
theory ScanHelp
  imports Nodes
begin

text \<open>
  The helpers of the scanner (scanhelp.C): the pool of 5000 characters strings are allocated in,
  reserved words, and quoted strings. The state is the number of characters taken; running out
  ends the program, a store behind an array is undefined: both are None. Strings are those of the
  tokens, without NUL.
\<close>

definition MAXCHAR :: int where "MAXCHAR = 5000"

definition string_alloc :: "int \<Rightarrow> int \<Rightarrow> (int \<times> int) option" where
  "string_alloc len charptr = (if charptr + len > MAXCHAR then None else Some (charptr, charptr + len))"

definition reset_charptr :: "int \<Rightarrow> int" where
  "reset_charptr charptr = 0"

definition reset_scanner :: "int \<Rightarrow> int" where
  "reset_scanner charptr = 0"

text \<open>The copy takes len + 1 characters; a longer string would be left without its terminator.\<close>

definition mk_string :: "string \<Rightarrow> int \<Rightarrow> int \<Rightarrow> (string \<times> int) option" where
  "mk_string str len charptr = do {
     (p, charptr) \<leftarrow> string_alloc (len + 1) charptr;
     if int (length str) > len then None else Some (str, charptr) }"

text \<open>The closing quote is overwritten by a terminator, the opening one skipped. Doubled quotes
  inside the string stay doubled.\<close>

definition get_qstring :: "string \<Rightarrow> int \<Rightarrow> (string \<times> int) option" where
  "get_qstring qstring charptr =
     mk_string (drop 1 (take (length qstring - 1) qstring)) (int (length qstring) - 2) charptr"

definition MAXIDLEN :: nat where "MAXIDLEN = 50"

text \<open>The characters written to dst, an array of dstlen characters, and the terminator behind them.\<close>

definition lower :: "nat \<Rightarrow> string \<Rightarrow> nat \<Rightarrow> (string \<times> nat) option" where
  "lower dstlen src mx =
     (let len = min (length src) mx
      in if dstlen \<le> len then None else Some (map to_lower (take mx src) @ [CHR 0x00], len))"

datatype token =
    RW_CREATE | RW_BUILD | RW_REBUILD | RW_DROP | RW_DESTROY | RW_PRINT | RW_LOAD | RW_HELP | RW_QUIT
  | RW_SELECT | RW_INTO | RW_WHERE | RW_INSERT | RW_DELETE | RW_PRIMARY | RW_NUMBUCKETS | RW_ALL
  | RW_FROM | RW_AS | RW_TABLE | RW_AND | RW_OR | RW_NOT | RW_VALUES | INT_TYPE | REAL_TYPE | CHAR_TYPE
  | NOTOKEN | T_STRING string

text \<open>The comparisons with the reserved words, in order.\<close>

definition reserved_words :: "(string \<times> token) list" where
  "reserved_words =
    [(''select'', RW_SELECT), (''insert'', RW_INSERT), (''delete'', RW_DELETE), (''create'', RW_CREATE),
     (''destroy'', RW_DESTROY), (''buildindex'', RW_BUILD), (''rebuildindex'', RW_REBUILD),
     (''dropindex'', RW_DROP), (''load'', RW_LOAD), (''print'', RW_PRINT), (''help'', RW_HELP),
     (''quit'', RW_QUIT), (''into'', RW_INTO), (''where'', RW_WHERE), (''primary'', RW_PRIMARY),
     (''numbuckets'', RW_NUMBUCKETS), (''all'', RW_ALL), (''from'', RW_FROM), (''as'', RW_AS),
     (''table'', RW_TABLE), (''and'', RW_AND), (''or'', RW_OR), (''not'', RW_NOT), (''values'', RW_VALUES),
     (''int'', INT_TYPE), (''real'', REAL_TYPE), (''char'', CHAR_TYPE)]"

text \<open>The static buffer string has as many characters as lower may copy, so that the terminator of an
  identifier that fills it is written behind it, before the answer NOTOKEN is given.\<close>

definition get_id :: "string \<Rightarrow> int \<Rightarrow> (token \<times> int) option" where
  "get_id str charptr = do {
     (buf, len) \<leftarrow> lower MAXIDLEN str MAXIDLEN;
     if len = MAXIDLEN then Some (NOTOKEN, charptr)
     else case map_of reserved_words (c_string (bytes_of buf)) of
       Some tok \<Rightarrow> Some (tok, charptr)
     | None \<Rightarrow> do {
         (copy, charptr) \<leftarrow> mk_string str (int len) charptr;
         Some (T_STRING copy, charptr) }}"


section \<open>Identifiers\<close>

lemma takeWhile_bytes_of: "CHR 0x00 \<notin> set s \<Longrightarrow> takeWhile (\<lambda>b. b \<noteq> 0) (bytes_of s @ 0 # r) = bytes_of s"
proof (induction s)
  case (Cons c s)
  have "(of_char c :: byte) \<noteq> 0"
  proof
    assume "(of_char c :: byte) = 0"
    then have "string_of (bytes_of [c]) = string_of (bytes_of [CHR 0x00])" by (simp add: bytes_of_def)
    then show False using Cons(2) by (simp only: string_of_bytes) simp
  qed
  then show ?case using Cons by (simp add: bytes_of_def)
qed (simp add: bytes_of_def)

lemma bytes_of_append: "bytes_of (s @ t) = bytes_of s @ bytes_of t"
  by (simp add: bytes_of_def)


lemma to_lower_not_NUL: "c \<noteq> CHR 0x00 \<Longrightarrow> to_lower c \<noteq> CHR 0x00"
proof
  assume c: "c \<noteq> CHR 0x00" "to_lower c = CHR 0x00"
  then have n: "65 \<le> (of_char c :: nat)" "(of_char c :: nat) \<le> 90" "char_of ((of_char c :: nat) + 32) = CHR 0x00"
    by (simp_all add: to_lower_def split: if_splits)
  have "of_char (char_of ((of_char c :: nat) + 32)) = (of_char CHR 0x00 :: nat)" using n(3) by (rule arg_cong)
  then have "((of_char c :: nat) + 32) mod 256 = 0" by (simp only: of_char_of) simp
  then show False using n(1,2) by simp
qed

lemma lower_c_string:
  assumes "CHR 0x00 \<notin> set str"
  shows "c_string (bytes_of (map to_lower str @ [CHR 0x00])) = map to_lower str"
proof -
  have n: "CHR 0x00 \<notin> set (map to_lower str)" 
  proof
    assume "CHR 0x00 \<in> set (map to_lower str)"
    then obtain c where "c \<in> set str" "to_lower c = CHR 0x00" by auto
    then show False using assms(1) to_lower_not_NUL [of c] by auto
  qed
  have "bytes_of (map to_lower str @ [CHR 0x00]) = bytes_of (map to_lower str) @ 0 # []"
    unfolding bytes_of_append by (simp add: bytes_of_def of_char_def)
  then show ?thesis using takeWhile_bytes_of [OF n, of "[]"] by (simp add: c_string_def)
qed

lemma reserved_distinct: "distinct (map fst reserved_words)"
  by (simp add: reserved_words_def)

text \<open>
  C37: The lexer's identifiers. One of 50 characters or more, which should be no token, makes lower
  store its terminator behind its buffer of 50: the run is undefined, already for one of exactly
  50 characters. A shorter one is a reserved word when it equals
  one in any mixture of cases, without touching the pool; any other is copied as it is written
  to the pool of 5000 characters, of which it takes its length and a terminator; an exhausted
  pool ends the program.
\<close>

theorem get_id_classifies:
  assumes "CHR 0x00 \<notin> set str"
  shows "(50 \<le> length str \<longrightarrow> lower MAXIDLEN str MAXIDLEN = None \<and> get_id str p = None) \<and>
    (length str < 50 \<longrightarrow>
      (\<forall>tok. (map to_lower str, tok) \<in> set reserved_words \<longrightarrow> get_id str p = Some (tok, p)) \<and>
      ((\<forall>tok. (map to_lower str, tok) \<notin> set reserved_words) \<longrightarrow>
        get_id str p = (if p + int (length str) + 1 \<le> 5000 then Some (T_STRING str, p + int (length str) + 1) else None)))"
proof (cases "50 \<le> length str")
  case True
  then show ?thesis by (simp add: get_id_def lower_def MAXIDLEN_def)
next
  case False
  then have l: "lower MAXIDLEN str MAXIDLEN = Some (map to_lower str @ [CHR 0x00], length str)" "length str \<noteq> MAXIDLEN"
    by (simp_all add: lower_def MAXIDLEN_def)
  note c = lower_c_string [OF assms]
  have g: "get_id str p = (case map_of reserved_words (map to_lower str) of
      Some tok \<Rightarrow> Some (tok, p)
    | None \<Rightarrow> do { (copy, p) \<leftarrow> mk_string str (int (length str)) p; Some (T_STRING copy, p) })"
    using l c by (simp add: get_id_def split_beta)
  have m: "mk_string str (int (length str)) p
      = (if p + int (length str) + 1 \<le> 5000 then Some (str, p + int (length str) + 1) else None)"
    by (simp add: mk_string_def string_alloc_def MAXCHAR_def algebra_simps)
  show ?thesis
  proof (cases "map_of reserved_words (map to_lower str)")
    case None
    then have "\<forall>tok. (map to_lower str, tok) \<notin> set reserved_words" by (force simp: map_of_eq_None_iff)
    then show ?thesis using False by (simp add: g None m)
  next
    case (Some t)
    have "(map to_lower str, tok) \<in> set reserved_words \<longleftrightarrow> tok = t" for tok
      using map_of_eq_Some_iff [OF reserved_distinct, of "map to_lower str" tok] Some by auto
    then show ?thesis using False by (simp add: g Some)
  qed
qed

lemma get_id_classifies_witness:
  "get_id ''SeLect'' 10 = Some (RW_SELECT, 10) \<and> get_id ''Emp'' 10 = Some (T_STRING ''Emp'', 14) \<and>
   get_id (replicate 50 CHR ''x'') 0 = None"
proof -
  have l: "map to_lower ''SeLect'' = ''select''" "map to_lower ''Emp'' = ''emp''"
    by (simp_all add: to_lower_def char_of_def of_char_def bit_Suc [symmetric] bit_0)
  have "(map to_lower ''SeLect'', RW_SELECT) \<in> set reserved_words"
    unfolding l(1) by (simp add: reserved_words_def)
  then have "get_id ''SeLect'' 10 = Some (RW_SELECT, 10)" using get_id_classifies [of "''SeLect''" 10] by simp
  moreover have "\<forall>tok. (map to_lower ''Emp'', tok) \<notin> set reserved_words"
    unfolding l(2) by (simp add: reserved_words_def)
  then have "get_id ''Emp'' 10 = Some (T_STRING ''Emp'', 14)" using get_id_classifies [of "''Emp''" 10] by simp
  moreover have "get_id (replicate 50 CHR ''x'') 0 = None"
    using get_id_classifies [of "replicate 50 CHR ''x''" 0] by simp
  ultimately show ?thesis by simp
qed

end
