(* ===== verification/Interp.thy ===== *)
theory Interp
  imports Query Nodes
begin

text \<open>
  The interpreter of parse trees (interp.C): it turns lists of nodes into arrays, calls the
  operators of the query layer and the catalogs, and prints the errors they return. The arrays
  have 40 elements. Names are copied into fields of 32 characters without a check: a longer name
  is undefined (None), as is a null name that is compared or copied. The text of a value is
  built in 255 characters.
\<close>

record session = minirel +
  counter :: int

section \<open>Error codes\<close>

definition E_INCOMPATIBLE :: int where "E_INCOMPATIBLE = -1"
definition E_TOOMANYATTRS :: int where "E_TOOMANYATTRS = -2"
definition E_INVFORMATSTRING :: int where "E_INVFORMATSTRING = -6"
definition E_STRINGTOOLONG :: int where "E_STRINGTOOLONG = -10"
definition MAXATTRS :: nat where "MAXATTRS = 40"
definition MAXSTRINGLEN :: int where "MAXSTRINGLEN = 255"

definition print_error :: "string option \<Rightarrow> int \<Rightarrow> string" where
  "print_error errmsg errval =
     (case errmsg of Some m \<Rightarrow> m @ '': '' | None \<Rightarrow> []) @
     (if errval = 0 then ''no error''
      else if errval = -1 then ''attributes must be from selected relation(s)''
      else if errval = -2 then ''too many attributes''
      else if errval = -3 then ''length must be specified for STRING attribute''
      else if errval = -4 then ''invalid size for INTEGER attribute (should be 4)''
      else if errval = -5 then ''invalid size for FLOAT attribute (should be 4)''
      else if errval = -6 then ''invalid format string''
      else if errval = -7 then ''invalid length for string attribute''
      else if errval = -8 then ''duplicated attribute name''
      else if errval = -9 then ''relation name or attribute name too long''
      else if errval = -10 then ''string attribute too long''
      else ''unrecognized errval: '' @ dec_int errval) @ newline"

section \<open>Values\<close>

definition type_of :: "VALUE \<Rightarrow> Datatype" where
  "type_of v = (case v of VInt _ \<Rightarrow> INTEGER | VFloat _ \<Rightarrow> FLOAT | VString _ \<Rightarrow> STRING)"

definition length_of :: "VALUE \<Rightarrow> int" where
  "length_of v = (case v of VString t \<Rightarrow> int (length t) | _ \<Rightarrow> 0)"

definition value_text :: "VALUE \<Rightarrow> string" where
  "value_text v = (case v of VInt i \<Rightarrow> dec_int i | VFloat r \<Rightarrow> fixed 6 r | VString t \<Rightarrow> t)"

definition value_of :: "VALUE \<Rightarrow> string option" where
  "value_of v = (let t = value_text v in if length t < 255 then Some t else None)"

section \<open>Lists of nodes to arrays\<close>

text \<open>Inl is an error code; the last component is the name of the relation. The first argument
  is the index.\<close>

fun mk_attrnames :: "nat \<Rightarrow> QUALATTR list \<Rightarrow> string option \<Rightarrow> (int + string list \<times> string option) option" where
  "mk_attrnames i [] relname = Some (if i = MAXATTRS then Inl E_TOOMANYATTRS else Inr ([], relname))"
| "mk_attrnames i (q # qs) relname =
     (if i \<ge> MAXATTRS then Some (Inl E_TOOMANYATTRS) else do {
      (ok, relname) \<leftarrow>
        (case relname of
           None \<Rightarrow> Some (True, q_relname q)
         | Some r \<Rightarrow> do { r' \<leftarrow> q_relname q; Some (r = r', relname) });
      if \<not> ok then Some (Inl E_INCOMPATIBLE) else do {
      res \<leftarrow> mk_attrnames (i + 1) qs relname;
      Some (case res of Inl e \<Rightarrow> Inl e | Inr (names, r) \<Rightarrow> Inr (q_attrname q # names, r)) }})"

fun mk_qual_attrs :: "nat \<Rightarrow> QUALATTR list \<Rightarrow> string option \<Rightarrow> string option \<Rightarrow> (int + (string \<times> string) list) option" where
  "mk_qual_attrs i [] relname1 relname2 = Some (if i = MAXATTRS then Inl E_TOOMANYATTRS else Inr [])"
| "mk_qual_attrs i (q # qs) relname1 relname2 =
     (if i \<ge> MAXATTRS then Some (Inl E_TOOMANYATTRS) else do {
      r \<leftarrow> q_relname q;
      r1 \<leftarrow> relname1;
      ok \<leftarrow> (if r = r1 then Some True else do { r2 \<leftarrow> relname2; Some (r = r2) });
      if \<not> ok then Some (Inl E_INCOMPATIBLE) else do {
      res \<leftarrow> mk_qual_attrs (i + 1) qs relname1 relname2;
      Some (case res of Inl e \<Rightarrow> Inl e | Inr as \<Rightarrow> Inr ((r, q_attrname q) # as)) }})"

text \<open>'i' - 128 is an int, 'f' - 128 a float, 1 to 255 a string of that length.\<close>

definition parse_format_string :: "int \<Rightarrow> (Datatype \<times> int) option" where
  "parse_format_string format =
     (if format = 105 - 128 then Some (INTEGER, 4)
      else if format = 102 - 128 then Some (FLOAT, 4)
      else if format \<le> 255 \<and> format \<ge> 1 then Some (STRING, format)
      else None)"

fun mk_attr_descrs :: "nat \<Rightarrow> ATTRTYPE list \<Rightarrow> int + (string \<times> Datatype \<times> int) list" where
  "mk_attr_descrs i [] = (if i = MAXATTRS then Inl E_TOOMANYATTRS else Inr [])"
| "mk_attr_descrs i (a # as) =
     (if i \<ge> MAXATTRS then Inl E_TOOMANYATTRS
      else case parse_format_string (at_type a) of
        None \<Rightarrow> Inl E_INVFORMATSTRING
      | Some (type, len) \<Rightarrow>
          (case mk_attr_descrs (i + 1) as of
             Inl e \<Rightarrow> Inl e
           | Inr ds \<Rightarrow> Inr ((at_attrname a, type, len) # ds)))"

fun mk_ins_attrs :: "nat \<Rightarrow> ATTRVAL list \<Rightarrow> (int + (string \<times> Datatype \<times> string) list) option" where
  "mk_ins_attrs i [] = Some (if i = MAXATTRS then Inl E_TOOMANYATTRS else Inr [])"
| "mk_ins_attrs i (a # as) =
     (if i \<ge> MAXATTRS then Some (Inl E_TOOMANYATTRS) else do {
      v \<leftarrow> av_value a;
      if type_of v = STRING \<and> length_of v > MAXSTRINGLEN then Some (Inl E_STRINGTOOLONG) else do {
      text \<leftarrow> value_of v;
      res \<leftarrow> mk_ins_attrs (i + 1) as;
      Some (case res of Inl e \<Rightarrow> Inl e | Inr vs \<Rightarrow> Inr ((av_attrname a, type_of v, text) # vs)) }})"

text \<open>An attrInfo with the names copied into its fields.\<close>

definition mk_attrInfo :: "string \<Rightarrow> string \<Rightarrow> int \<Rightarrow> int \<Rightarrow> string option \<Rightarrow> attrInfo option" where
  "mk_attrInfo rel attr type len val =
     (if length rel < MAXNAME \<and> length attr < MAXNAME
      then Some \<lparr>ai_relName = rel, ai_attrName = attr, ai_attrType = type, ai_attrLen = len, ai_attrValue = val\<rparr>
      else None)"

fun mk_attrInfos :: "(string \<times> string) list \<Rightarrow> attrInfo list option" where
  "mk_attrInfos [] = Some []"
| "mk_attrInfos ((rel, attr) # as) = do {
     a \<leftarrow> mk_attrInfo rel attr (-1) (-1) None;
     as \<leftarrow> mk_attrInfos as;
     Some (a # as) }"

section \<open>Printing queries\<close>

text \<open>printf prints a null string as (null).\<close>

definition opt_string :: "string option \<Rightarrow> string" where
  "opt_string t = (case t of None \<Rightarrow> ''(null)'' | Some t \<Rightarrow> t)"

definition print_qualattr :: "QUALATTR \<Rightarrow> string" where
  "print_qualattr q = opt_string (q_relname q) @ ''.'' @ q_attrname q"

definition print_op :: "Operator \<Rightarrow> string" where
  "print_op op = (case op of LT \<Rightarrow> '' <'' | LTE \<Rightarrow> '' <='' | EQ \<Rightarrow> '' ='' | GT \<Rightarrow> '' >'' | GTE \<Rightarrow> '' >='' | NE \<Rightarrow> '' <>'')"

definition print_val :: "VALUE \<Rightarrow> string" where
  "print_val v =
     (case v of VInt i \<Rightarrow> '' '' @ dec_int i | VFloat r \<Rightarrow> '' '' @ fixed 6 r
      | VString t \<Rightarrow> '' '' @ quote_mark @ t @ quote_mark)"

fun print_attrnames :: "QUALATTR list \<Rightarrow> string" where
  "print_attrnames [] = []"
| "print_attrnames (q # qs) = print_qualattr q @ (if qs \<noteq> [] then '', '' else []) @ print_attrnames qs"

fun print_attrvals :: "ATTRVAL list \<Rightarrow> string option" where
  "print_attrvals [] = Some []"
| "print_attrvals (a # as) = do {
     v \<leftarrow> av_value a;
     t \<leftarrow> print_attrvals as;
     Some (av_attrname a @ '' ='' @ print_val v @ (if as \<noteq> [] then '', '' else []) @ t) }"

fun print_attrdescrs :: "ATTRTYPE list \<Rightarrow> string" where
  "print_attrdescrs [] = []"
| "print_attrdescrs (a # as) =
     at_attrname a @ '' = '' @
     (if at_type a = 105 - 128 then ''int''
      else if at_type a = 102 - 128 then ''real''
      else if at_type a \<le> 255 \<and> at_type a \<ge> 1 then ''char('' @ dec_int (at_type a) @ '')'' else []) @
     (if as \<noteq> [] then '', '' else []) @ print_attrdescrs as"

definition print_primattr :: "PRIMATTR option \<Rightarrow> string" where
  "print_primattr p =
     (case p of None \<Rightarrow> []
      | Some p \<Rightarrow> '' primary '' @ pa_attrname p @ '' numbuckets = '' @ dec_int (pa_nbuckets p))"

definition print_qual :: "QUAL option \<Rightarrow> string" where
  "print_qual q =
     (case q of None \<Rightarrow> []
      | Some (N_SELECT a op v) \<Rightarrow> '' where '' @ print_qualattr a @ print_op op @ print_val v
      | Some (N_JOIN a op b) \<Rightarrow> '' where '' @ print_qualattr a @ print_op op @ '' '' @ print_qualattr b)"

definition echo_query :: "NODE \<Rightarrow> string option" where
  "echo_query n =
     (case n of
        N_QUERY rel as q \<Rightarrow>
          Some (''select'' @ (case rel of Some r \<Rightarrow> '' into '' @ r | None \<Rightarrow> []) @ '' ('' @ print_attrnames as @ '')'' @
                print_qual q @ '';'' @ newline)
      | N_INSERT rel as \<Rightarrow> do {
          t \<leftarrow> print_attrvals as;
          Some (''insert '' @ rel @ '' ('' @ t @ '');'' @ newline) }
      | N_DELETE rel q \<Rightarrow> Some (''delete '' @ rel @ print_qual q @ '';'' @ newline)
      | N_CREATE rel as p \<Rightarrow>
          Some (''create '' @ rel @ '' ('' @ print_attrdescrs as @ '')'' @ print_primattr p @ '';'' @ newline)
      | N_DESTROY rel \<Rightarrow> Some (''destroy '' @ rel @ '';'' @ newline)
      | N_BUILD rel attr nb \<Rightarrow> Some (''buildindex '' @ rel @ ''('' @ attr @ '');'' @ newline)
      | N_REBUILD rel attr nb \<Rightarrow>
          Some (''rebuildindex '' @ rel @ ''('' @ attr @ '') numbuckets = '' @ dec_int nb @ '';'' @ newline)
      | N_DROP rel attr \<Rightarrow>
          Some (''dropindex '' @ rel @ (case attr of Some a \<Rightarrow> ''('' @ a @ '')'' | None \<Rightarrow> []) @ '';'' @ newline)
      | N_LOAD rel f \<Rightarrow> Some (''load '' @ rel @ ''('' @ quote_mark @ f @ quote_mark @ '');'' @ newline)
      | N_PRINT rel \<Rightarrow> Some (''print '' @ rel @ '';'' @ newline)
      | N_HELP rel \<Rightarrow> Some (''help'' @ (case rel of Some r \<Rightarrow> '' '' @ r | None \<Rightarrow> []) @ '';'' @ newline))"

section \<open>Queries\<close>

text \<open>error.print for a status that is not OK.\<close>

definition report :: "(Status \<times> 'z minirel_scheme) option \<Rightarrow> 'z minirel_scheme option" where
  "report r = do {
     (st, s) \<leftarrow> r;
     Some (if st \<noteq> OK then put_err s (Error_print st) else s) }"

definition TMP_RESULT :: string where "TMP_RESULT = ''Tmp_Minirel_Result''"

text \<open>The result relation: its name, whether it exists, and its attributes. The flag tells that
  interp has returned.\<close>

definition query_result :: "'z minirel_scheme \<Rightarrow> string option
    \<Rightarrow> (bool \<times> string \<times> Status \<times> AttrDesc list \<times> 'z minirel_scheme) option" where
  "query_result s relname =
     (case relname of
        Some resultName \<Rightarrow> do {
          (st, attrs, s) \<leftarrow> AttrCatalog_getRelInfo s resultName;
          Some (if st \<noteq> OK \<and> st \<noteq> RELNOTFOUND then (True, resultName, st, attrs, put_err s (Error_print st))
                else (False, resultName, st, attrs, s)) }
      | None \<Rightarrow> do {
          (st, _, s) \<leftarrow> RelCatalog_getInfo s TMP_RESULT;
          Some (if st \<noteq> OK \<and> st \<noteq> RELNOTFOUND then (True, TMP_RESULT, st, [], put_err s (Error_print st))
                else if st = OK then (True, TMP_RESULT, st, [], put_err s (Error_print TMP_RES_EXISTS))
                else (False, TMP_RESULT, st, [], s)) })"

text \<open>The attributes of a result relation that is created. With the flag, an attribute whose name
  is that of an earlier one should get the number of the counter as a suffix; the sprintf that does
  so writes over the string it reads, which is undefined.\<close>

fun result_attrs :: "bool \<Rightarrow> string \<Rightarrow> attrInfo list \<Rightarrow> attrInfo list \<Rightarrow> 'z session_scheme
    \<Rightarrow> (Status \<times> attrInfo list \<times> 'z session_scheme) option" where
  "result_attrs rename resultName done [] s = Some (OK, done, s)"
| "result_attrs rename resultName done (a # as) s = do {
     c \<leftarrow> (if rename \<and> (\<exists>b \<in> set done. ai_attrName b = ai_attrName a) then None
          else mk_attrInfo resultName (ai_attrName a) 0 0 None);
     (st, ad, s) \<leftarrow> AttrCatalog_getInfo s (ai_relName a) (ai_attrName a);
     if st \<noteq> OK then Some (st, done, s) else do {
     ad \<leftarrow> ad;
     result_attrs rename resultName (done @ [c\<lparr>ai_attrType := ad_attrType ad, ai_attrLen := ad_attrLen ad\<rparr>]) as s }}"

text \<open>The types of the attributes must be those of an existing result relation.\<close>

fun check_types :: "attrInfo list \<Rightarrow> AttrDesc list \<Rightarrow> 'z db_scheme \<Rightarrow> (Status \<times> 'z db_scheme) option" where
  "check_types (a # as) (d # ds) s = do {
     (st, ad, s) \<leftarrow> AttrCatalog_getInfo s (ai_relName a) (ai_attrName a);
     if st \<noteq> OK then Some (st, s) else do {
     ad \<leftarrow> ad;
     if ad_attrType ad \<noteq> ad_attrType d \<or> ad_attrLen ad \<noteq> ad_attrLen d then Some (ATTRTYPEMISMATCH, s)
     else check_types as ds s }}"
| "check_types _ _ s = Some (OK, s)"

definition prepare_result ::
  "bool \<Rightarrow> string \<Rightarrow> Status \<Rightarrow> AttrDesc list \<Rightarrow> attrInfo list \<Rightarrow> 'z session_scheme \<Rightarrow> (Status \<times> 'z session_scheme) option" where
  "prepare_result rename resultName status attrs attrList s =
     (if status = RELNOTFOUND then do {
        (st, cs, s) \<leftarrow> result_attrs rename resultName [] attrList s;
        if st \<noteq> OK then Some (st, s) else createRel s resultName cs }
      else if length attrList \<noteq> length attrs then Some (ATTRTYPEMISMATCH, s)
      else check_types attrList attrs s)"

text \<open>The three kinds of queries. The flag tells whether the end of the query is reached, where a
  temporary result is printed.\<close>

definition query_all ::
  "'z session_scheme \<Rightarrow> string \<Rightarrow> Status \<Rightarrow> AttrDesc list \<Rightarrow> QUALATTR list \<Rightarrow> (bool \<times> 'z session_scheme) option" where
  "query_all s resultName status attrs attrlist = do {
     res \<leftarrow> mk_attrnames 0 attrlist None;
     case res of
       Inl e \<Rightarrow> Some (False, put_err s (print_error (Some ''select'') e))
     | Inr (names, relname) \<Rightarrow> do {
         attrList \<leftarrow> (if names = [] then Some [] else do {
           rel \<leftarrow> relname;
           mk_attrInfos (map (Pair rel) names) });
         (st, s) \<leftarrow> prepare_result False resultName status attrs attrList s;
         if st \<noteq> OK then Some (False, put_err s (Error_print st)) else do {
         s \<leftarrow> report (QU_Select s resultName attrList None LT None);
         Some (True, s) }} }"

definition query_select ::
  "'z session_scheme \<Rightarrow> string \<Rightarrow> Status \<Rightarrow> AttrDesc list \<Rightarrow> QUALATTR list \<Rightarrow> QUALATTR \<Rightarrow> Operator \<Rightarrow> VALUE
     \<Rightarrow> (bool \<times> 'z session_scheme) option" where
  "query_select s resultName status attrs attrlist selattr op v = do {
     res \<leftarrow> mk_attrnames 0 attrlist (q_relname selattr);
     case res of
       Inl e \<Rightarrow> Some (False, put_err s (print_error (Some ''select'') e))
     | Inr (names, relname) \<Rightarrow> do {
         rel \<leftarrow> relname;
         attrList \<leftarrow> mk_attrInfos (map (Pair rel) names);
         text \<leftarrow> value_of v;
         attr1 \<leftarrow> mk_attrInfo rel (q_attrname selattr) (type_code (type_of v)) (-1) (Some text);
         (st, s) \<leftarrow> prepare_result False resultName status attrs attrList s;
         if st \<noteq> OK then Some (False, put_err s (Error_print st)) else do {
         s \<leftarrow> report (QU_Select s resultName attrList (Some attr1) op (Some text));
         Some (True, s) }} }"

definition query_join ::
  "JoinType \<Rightarrow> 'z session_scheme \<Rightarrow> string \<Rightarrow> Status \<Rightarrow> AttrDesc list \<Rightarrow> QUALATTR list \<Rightarrow> QUALATTR \<Rightarrow> Operator \<Rightarrow> QUALATTR
     \<Rightarrow> (bool \<times> 'z session_scheme) option" where
  "query_join JoinMethod s resultName status attrs attrlist j1 op j2 = do {
     res \<leftarrow> mk_qual_attrs 0 attrlist (q_relname j1) (q_relname j2);
     case res of
       Inl e \<Rightarrow> Some (False, put_err s (print_error (Some ''select'') e))
     | Inr quals \<Rightarrow> do {
         attrList \<leftarrow> mk_attrInfos quals;
         rel1 \<leftarrow> q_relname j1;
         attr1 \<leftarrow> mk_attrInfo rel1 (q_attrname j1) (-1) (-1) None;
         rel2 \<leftarrow> q_relname j2;
         attr2 \<leftarrow> mk_attrInfo rel2 (q_attrname j2) (-1) (-1) None;
         (st, s) \<leftarrow> prepare_result True resultName status attrs attrList s;
         if st \<noteq> OK then Some (False, put_err s (Error_print st)) else do {
         s \<leftarrow> report (QU_Join JoinMethod s resultName attrList attr1 op attr2);
         Some (True, s) }} }"

definition interp_query ::
  "JoinType \<Rightarrow> 'z session_scheme \<Rightarrow> string option \<Rightarrow> QUALATTR list \<Rightarrow> QUAL option \<Rightarrow> 'z session_scheme option" where
  "interp_query JoinMethod s relname attrlist qual = do {
     (ret, resultName, st, attrs, s) \<leftarrow> query_result s relname;
     if ret then Some s else do {
     (fin, s) \<leftarrow>
       (case qual of
          None \<Rightarrow> query_all s resultName st attrs attrlist
        | Some (N_SELECT q op v) \<Rightarrow> query_select s resultName st attrs attrlist q op v
        | Some (N_JOIN j1 op j2) \<Rightarrow> query_join JoinMethod s resultName st attrs attrlist j1 op j2);
     if fin \<and> resultName = TMP_RESULT then do {
       s \<leftarrow> report (UT_Print s resultName);
       report (destroyRel s resultName) }
     else Some s }}"

section \<open>The other commands\<close>

fun ins_attrInfos :: "string \<Rightarrow> (string \<times> Datatype \<times> string) list \<Rightarrow> attrInfo list option" where
  "ins_attrInfos rel [] = Some []"
| "ins_attrInfos rel ((attr, type, text) # vs) = do {
     a \<leftarrow> mk_attrInfo rel attr (type_code type) (-1) (Some text);
     as \<leftarrow> ins_attrInfos rel vs;
     Some (a # as) }"

definition interp_insert :: "'z minirel_scheme \<Rightarrow> string \<Rightarrow> ATTRVAL list \<Rightarrow> 'z minirel_scheme option" where
  "interp_insert s relname attrlist = do {
     res \<leftarrow> mk_ins_attrs 0 attrlist;
     case res of
       Inl e \<Rightarrow> Some (put_err s (print_error (Some ''insert'') e))
     | Inr vals \<Rightarrow> do {
         attrList \<leftarrow> ins_attrInfos relname vals;
         report (QU_Insert s relname attrList) } }"

definition interp_delete :: "'z minirel_scheme \<Rightarrow> string \<Rightarrow> QUAL option \<Rightarrow> 'z minirel_scheme option" where
  "interp_delete s relname qual =
     (case qual of
        None \<Rightarrow> report (QU_Delete s relname [] LT STRING None)
      | Some (N_SELECT q op v) \<Rightarrow> do {
          text \<leftarrow> value_of v;
          report (QU_Delete s relname (q_attrname q) op (type_of v) (Some text)) }
      | Some (N_JOIN _ _ _) \<Rightarrow> Some (put_err s (''Syntax Error'' @ newline)))"

fun create_attrInfos :: "string \<Rightarrow> (string \<times> Datatype \<times> int) list \<Rightarrow> attrInfo list option" where
  "create_attrInfos rel [] = Some []"
| "create_attrInfos rel ((attr, type, len) # ds) = do {
     a \<leftarrow> mk_attrInfo rel attr (type_code type) len None;
     as \<leftarrow> create_attrInfos rel ds;
     Some (a # as) }"

definition interp_create :: "'z minirel_scheme \<Rightarrow> string \<Rightarrow> ATTRTYPE list \<Rightarrow> 'z minirel_scheme option" where
  "interp_create s relname attrlist =
     (case mk_attr_descrs 0 attrlist of
        Inl e \<Rightarrow> Some (put_err s (print_error (Some ''create'') e))
      | Inr ds \<Rightarrow> do {
          attrList \<leftarrow> create_attrInfos relname ds;
          report (createRel s relname attrList) })"

text \<open>The commands on indices are parsed and fail an assert. A query is echoed first when the input
  is no terminal.\<close>

definition interp :: "bool \<Rightarrow> JoinType \<Rightarrow> NODE \<Rightarrow> 'z session_scheme \<Rightarrow> 'z session_scheme option" where
  "interp tty JoinMethod n s = do {
     s \<leftarrow> (if tty then Some s else do { t \<leftarrow> echo_query n; Some (put_out s t) });
     case n of
       N_QUERY rel as q \<Rightarrow> interp_query JoinMethod s rel as q
     | N_INSERT rel as \<Rightarrow> interp_insert s rel as
     | N_DELETE rel q \<Rightarrow> interp_delete s rel q
     | N_CREATE rel as p \<Rightarrow> interp_create s rel as
     | N_DESTROY rel \<Rightarrow> report (destroyRel s rel)
     | N_LOAD rel f \<Rightarrow> report (UT_Load s rel f)
     | N_PRINT rel \<Rightarrow> report (UT_Print s rel)
     | N_HELP rel \<Rightarrow> report (RelCatalog_help s (case rel of Some r \<Rightarrow> r | None \<Rightarrow> []))
     | _ \<Rightarrow> None }"

text \<open>quit ends the program through UT_Quit.\<close>

definition quit :: "'z minirel_scheme \<Rightarrow> (int \<times> 'z minirel_scheme) option" where
  "quit s = UT_Quit s"


section \<open>Qualified attributes\<close>

text \<open>The attribute carries the name of one of the tables.\<close>

definition well_qualified :: "ALIAS list \<Rightarrow> QUALATTR \<Rightarrow> bool" where
  "well_qualified tables q \<longleftrightarrow> (\<exists>r. q_relname q = Some r \<and> r \<in> al_relname ` set tables)"

lemma find_match_sound: "find_match_in_alias tables r = Some r' \<Longrightarrow> r' \<in> al_relname ` set tables"
  by (induction tables r rule: find_match_in_alias.induct) (auto split: if_splits)

lemma replace_alias_sound:
  assumes "replace_alias tables q = Some (Inr q')"
  shows "well_qualified tables q' \<and> q_attrname q' = q_attrname q"
proof (cases "q_relname q")
  case None
  then show ?thesis using assms by (auto simp: replace_alias_def well_qualified_def split: list.splits)
next
  case (Some r)
  then obtain r' where "find_match_in_alias tables r = Some r'" "q' = q\<lparr>q_relname := Some r'\<rparr>"
    using assms by (auto simp: replace_alias_def split: option.splits)
  then show ?thesis using find_match_sound by (auto simp: well_qualified_def)
qed

lemma case_error_Inr:
  "case_sum (\<lambda>e. Some (Inl e)) f r = Some (Inr y) \<longleftrightarrow> (\<exists>x. r = Inr x \<and> f x = Some (Inr y))"
  by (cases r) auto

lemma replace_list_sound:
  "replace_alias_in_qualattr_list tables qs = Some (Inr qs') \<Longrightarrow>
     list_all (well_qualified tables) qs' \<and> map q_attrname qs' = map q_attrname qs"
proof (induction qs arbitrary: qs')
  case (Cons q qs)
  from Cons(2) obtain q1 qs1 where q: "replace_alias tables q = Some (Inr q1)"
    and qs: "replace_alias_in_qualattr_list tables qs = Some (Inr qs1)" "qs' = q1 # qs1"
    by (auto simp: bind_eq_Some_conv case_error_Inr)
  then show ?case using Cons(1) [OF qs(1)] replace_alias_sound [OF q] by simp
qed simp

lemma replace_condition_sound:
  assumes "replace_alias_in_condition tables c = Some (Inr c')"
  shows "(\<forall>q op v. c' = Some (N_SELECT q op v) \<longrightarrow> well_qualified tables q) \<and>
    (\<forall>q1 op q2. c' = Some (N_JOIN q1 op q2) \<longrightarrow> well_qualified tables q1 \<and> well_qualified tables q2)"
proof (cases c)
  case (Some c1)
  show ?thesis
  proof (cases c1)
    case (N_SELECT q op v)
    then show ?thesis using assms Some
      by (auto simp: replace_alias_in_condition_def bind_eq_Some_conv case_error_Inr dest: replace_alias_sound)
  next
    case (N_JOIN q1 op q2)
    then show ?thesis using assms Some
      by (auto simp: replace_alias_in_condition_def bind_eq_Some_conv case_error_Inr dest: replace_alias_sound)
  qed
qed (use assms in \<open>simp add: replace_alias_in_condition_def\<close>)

lemma mk_attrnames_qualified:
  assumes "list_all (well_qualified tables) qs" "i \<le> MAXATTRS"
  shows "\<exists>res. mk_attrnames i qs rel = Some res \<and>
    (\<forall>names r. res = Inr (names, r) \<longrightarrow> names = map q_attrname qs \<and> i + length names < MAXATTRS)"
  using assms
proof (induction qs arbitrary: i rel)
  case (Cons q qs)
  obtain r where r: "q_relname q = Some r" using Cons(2) by (auto simp: well_qualified_def)
  show ?case
  proof (cases "i < MAXATTRS")
    case True
    then have "\<exists>res. mk_attrnames (Suc i) qs x = Some res \<and>
      (\<forall>names r. res = Inr (names, r) \<longrightarrow> names = map q_attrname qs \<and> Suc i + length names < MAXATTRS)" for x
      using Cons(1) [of "Suc i" x] Cons(2) by simp
    from this [of rel] this [of "Some r"] show ?thesis
      using True r by (cases rel) (auto split: sum.splits)
  qed simp
qed simp

lemma mk_qual_attrs_qualified:
  assumes "list_all (well_qualified tables) qs" "rel1 = Some r1" "rel2 = Some r2" "i \<le> MAXATTRS"
  shows "\<exists>res. mk_qual_attrs i qs rel1 rel2 = Some res \<and>
    (\<forall>as. res = Inr as \<longrightarrow> map snd as = map q_attrname qs \<and> i + length as < MAXATTRS)"
  using assms(1,4)
proof (induction qs arbitrary: i)
  case (Cons q qs)
  obtain r where r: "q_relname q = Some r" using Cons(2) by (auto simp: well_qualified_def)
  show ?case
  proof (cases "i < MAXATTRS")
    case True
    then have "\<exists>res. mk_qual_attrs (Suc i) qs rel1 rel2 = Some res \<and>
      (\<forall>as. res = Inr as \<longrightarrow> map snd as = map q_attrname qs \<and> Suc i + length as < MAXATTRS)"
      using Cons(1) [of "Suc i"] Cons(2) by simp
    then show ?thesis using True r assms(2,3) by (auto split: sum.splits)
  qed simp
qed simp

text \<open>The relation names interp passes for the attributes of a query.\<close>

definition query_attrs :: "QUALATTR list \<Rightarrow> QUAL option \<Rightarrow> (int + string list) option" where
  "query_attrs qs c =
     (case c of
        None \<Rightarrow> map_option (map_sum id fst) (mk_attrnames 0 qs None)
      | Some (N_SELECT q op v) \<Rightarrow> map_option (map_sum id fst) (mk_attrnames 0 qs (q_relname q))
      | Some (N_JOIN q1 op q2) \<Rightarrow> map_option (map_sum id (map snd)) (mk_qual_attrs 0 qs (q_relname q1) (q_relname q2)))"

text \<open>
  C33: A query whose aliases have been resolved is well typed for the interpreter: every
  attribute of the list and of the condition keeps its name and is qualified by a table of the
  from clause, so that the conversion of the list to an array compares no null name; it either
  reports an error or yields all the names, at most 39 of them, which fit the array of 40.
\<close>

theorem resolved_query_defined:
  assumes "replace_alias_in_qualattr_list tables qs = Some (Inr qs')"
    and "replace_alias_in_condition tables c = Some (Inr c')"
  shows "list_all (well_qualified tables) qs' \<and> map q_attrname qs' = map q_attrname qs \<and>
    (\<forall>q op v. c' = Some (N_SELECT q op v) \<longrightarrow> well_qualified tables q) \<and>
    (\<forall>q1 op q2. c' = Some (N_JOIN q1 op q2) \<longrightarrow> well_qualified tables q1 \<and> well_qualified tables q2) \<and>
    (\<exists>res. query_attrs qs' c' = Some res \<and>
       (\<forall>names. res = Inr names \<longrightarrow> names = map q_attrname qs \<and> length names < 40))"
proof -
  have qs: "list_all (well_qualified tables) qs'" "map q_attrname qs' = map q_attrname qs"
    using replace_list_sound [OF assms(1)] by simp_all
  note c = replace_condition_sound [OF assms(2)]
  have "\<exists>res. query_attrs qs' c' = Some res \<and>
       (\<forall>names. res = Inr names \<longrightarrow> names = map q_attrname qs' \<and> length names < 40)"
  proof (cases c')
    case None
    obtain res where "mk_attrnames 0 qs' None = Some res"
      "\<forall>names r. res = Inr (names, r) \<longrightarrow> names = map q_attrname qs' \<and> 0 + length names < MAXATTRS"
      using mk_attrnames_qualified [OF qs(1), of 0 None] by auto
    then show ?thesis using None by (cases res) (auto simp: query_attrs_def MAXATTRS_def)
  next
    case (Some c1)
    show ?thesis
    proof (cases c1)
      case (N_SELECT q op v)
      obtain res where "mk_attrnames 0 qs' (q_relname q) = Some res"
        "\<forall>names r. res = Inr (names, r) \<longrightarrow> names = map q_attrname qs' \<and> 0 + length names < MAXATTRS"
        using mk_attrnames_qualified [OF qs(1), of 0 "q_relname q"] by auto
      then show ?thesis using Some N_SELECT by (cases res) (auto simp: query_attrs_def MAXATTRS_def)
    next
      case (N_JOIN q1 op q2)
      then obtain r1 r2 where r: "q_relname q1 = Some r1" "q_relname q2 = Some r2"
        using c Some by (auto simp: well_qualified_def)
      obtain res where "mk_qual_attrs 0 qs' (q_relname q1) (q_relname q2) = Some res"
        "\<forall>as. res = Inr as \<longrightarrow> map snd as = map q_attrname qs' \<and> 0 + length as < MAXATTRS"
        using mk_qual_attrs_qualified [OF qs(1) r, of 0] by auto
      then show ?thesis using Some N_JOIN by (cases res) (auto simp: query_attrs_def MAXATTRS_def dest: map_eq_imp_length_eq)
    qed
  qed
  then show ?thesis using qs c by simp
qed

lemma resolved_query_defined_witness:
  "\<exists>res. query_attrs [\<lparr>q_relname = Some ''emp'', q_attrname = ''age''\<rparr>] None = Some res \<and>
     (\<forall>names. res = Inr names \<longrightarrow> names = [''age''])"
proof -
  have "replace_alias_in_qualattr_list [\<lparr>al_relname = ''emp'', al_alias = Some ''e''\<rparr>]
      [\<lparr>q_relname = Some ''e'', q_attrname = ''age''\<rparr>] = Some (Inr [\<lparr>q_relname = Some ''emp'', q_attrname = ''age''\<rparr>])"
    by (simp add: replace_alias_def)
  moreover have "replace_alias_in_condition [\<lparr>al_relname = ''emp'', al_alias = Some ''e''\<rparr>] None = Some (Inr None)"
    by (simp add: replace_alias_in_condition_def)
  ultimately show ?thesis using resolved_query_defined by fastforce
qed

end
