(* ===== verification/BufHash3.thy ===== *)
theory BufHash3
  imports BufHash
begin

text \<open>
  The hash tables of the earlier hand-ins (part3/bufHash.C and Stage4/bufHash.C). The buckets, the
  chains and the loops over them are those of stage 6; the hash functions differ. hash_index is the
  interface of a hash function: an index below the size. Any such function gives a keyed table, so
  that all three tables are the same finite map, whatever the order of their chains.
\<close>

section \<open>The code\<close>

definition uint32 :: "int \<Rightarrow> int" where
  "uint32 v = v mod 4294967296"

text \<open>Stage 3 computes in unsigned int.\<close>

definition BufHashTbl3_hash :: "int \<Rightarrow> fptr \<Rightarrow> int \<Rightarrow> int" where
  "BufHashTbl3_hash htSize file page =
     (let tmp = uint32 file; value = uint32 (tmp + uint32 page) mod uint32 htSize in wrap32 value)"

definition BufHashTbl3_new :: "int \<Rightarrow> BufHashTbl" where
  "BufHashTbl3_new htSize = \<lparr>HTSIZE = htSize, ht = replicate (nat htSize) []\<rparr>"

definition BufHashTbl3_insert :: "BufHashTbl \<Rightarrow> fptr \<Rightarrow> int \<Rightarrow> int \<Rightarrow> Status \<times> BufHashTbl" where
  "BufHashTbl3_insert t file page frame =
     (let index = nat (BufHashTbl3_hash (HTSIZE t) file page)
      in if chain_find (bucket_matches file page) (ht t ! index) \<noteq> None then (HASHTBLERROR, t)
         else (OK, t\<lparr>ht := (ht t)[index :=
                \<lparr>hb_file = file, hb_pageNo = page, hb_frameNo = frame\<rparr> # ht t ! index]\<rparr>))"

definition BufHashTbl3_lookup :: "BufHashTbl \<Rightarrow> fptr \<Rightarrow> int \<Rightarrow> int \<Rightarrow> Status \<times> int" where
  "BufHashTbl3_lookup t file page frame =
     (let index = nat (BufHashTbl3_hash (HTSIZE t) file page)
      in case chain_find (bucket_matches file page) (ht t ! index) of
           Some b \<Rightarrow> (OK, hb_frameNo b)
         | None \<Rightarrow> (HASHNOTFOUND, frame))"

definition BufHashTbl3_remove :: "BufHashTbl \<Rightarrow> fptr \<Rightarrow> int \<Rightarrow> Status \<times> BufHashTbl" where
  "BufHashTbl3_remove t file page =
     (let index = nat (BufHashTbl3_hash (HTSIZE t) file page)
      in case chain_unlink (bucket_matches file page) (ht t ! index) of
           Some bs \<Rightarrow> (OK, t\<lparr>ht := (ht t)[index := bs]\<rparr>)
         | None \<Rightarrow> (HASHTBLERROR, t))"

text \<open>Stage 4 computes in long; the result is stored in an unsigned int.\<close>

definition long64 :: "int \<Rightarrow> int" where
  "long64 v = (v + 9223372036854775808) mod 18446744073709551616 - 9223372036854775808"

definition BufHashTbl4_hash :: "int \<Rightarrow> fptr \<Rightarrow> int \<Rightarrow> int" where
  "BufHashTbl4_hash htSize file page =
     (let tmp = long64 file; value = uint32 (c_rem (c_rem (long64 (tmp + page)) htSize + htSize) htSize)
      in wrap32 value)"

definition BufHashTbl4_new :: "int \<Rightarrow> BufHashTbl" where
  "BufHashTbl4_new htSize = \<lparr>HTSIZE = htSize, ht = replicate (nat htSize) []\<rparr>"

definition BufHashTbl4_insert :: "BufHashTbl \<Rightarrow> fptr \<Rightarrow> int \<Rightarrow> int \<Rightarrow> Status \<times> BufHashTbl" where
  "BufHashTbl4_insert t file page frame =
     (let index = nat (BufHashTbl4_hash (HTSIZE t) file page)
      in if chain_find (bucket_matches file page) (ht t ! index) \<noteq> None then (HASHTBLERROR, t)
         else (OK, t\<lparr>ht := (ht t)[index :=
                \<lparr>hb_file = file, hb_pageNo = page, hb_frameNo = frame\<rparr> # ht t ! index]\<rparr>))"

definition BufHashTbl4_lookup :: "BufHashTbl \<Rightarrow> fptr \<Rightarrow> int \<Rightarrow> int \<Rightarrow> Status \<times> int" where
  "BufHashTbl4_lookup t file page frame =
     (let index = nat (BufHashTbl4_hash (HTSIZE t) file page)
      in case chain_find (bucket_matches file page) (ht t ! index) of
           Some b \<Rightarrow> (OK, hb_frameNo b)
         | None \<Rightarrow> (HASHNOTFOUND, frame))"

definition BufHashTbl4_remove :: "BufHashTbl \<Rightarrow> fptr \<Rightarrow> int \<Rightarrow> Status \<times> BufHashTbl" where
  "BufHashTbl4_remove t file page =
     (let index = nat (BufHashTbl4_hash (HTSIZE t) file page)
      in case chain_unlink (bucket_matches file page) (ht t ! index) of
           Some bs \<Rightarrow> (OK, t\<lparr>ht := (ht t)[index := bs]\<rparr>)
         | None \<Rightarrow> (HASHTBLERROR, t))"

section \<open>Tables over any hash function\<close>

definition bucket_key :: "hashBucket \<Rightarrow> fptr \<times> int" where
  "bucket_key b = (hb_file b, hb_pageNo b)"

definition tab_idx :: "(int \<Rightarrow> fptr \<Rightarrow> int \<Rightarrow> int) \<Rightarrow> BufHashTbl \<Rightarrow> fptr \<times> int \<Rightarrow> nat" where
  "tab_idx hash t k = nat (hash (HTSIZE t) (fst k) (snd k))"

definition tab_inv :: "(int \<Rightarrow> fptr \<Rightarrow> int \<Rightarrow> int) \<Rightarrow> BufHashTbl \<Rightarrow> bool" where
  "tab_inv hash t \<longleftrightarrow> 0 < HTSIZE t \<and> HTSIZE t < 2147483648 \<and> length (ht t) = nat (HTSIZE t) \<and>
     chains_ok (tab_idx hash t) bucket_key (ht t)"

definition tab_map :: "(int \<Rightarrow> fptr \<Rightarrow> int \<Rightarrow> int) \<Rightarrow> BufHashTbl \<Rightarrow> fptr \<times> int \<Rightarrow> int option" where
  "tab_map hash t k = map_option hb_frameNo (chains_find (tab_idx hash t) bucket_key (ht t) k)"

definition tab_ins :: "(int \<Rightarrow> fptr \<Rightarrow> int \<Rightarrow> int) \<Rightarrow> BufHashTbl \<Rightarrow> fptr \<times> int \<Rightarrow> int \<Rightarrow> Status \<times> BufHashTbl" where
  "tab_ins hash t k i =
     (let index = tab_idx hash t k
      in if chain_find (\<lambda>b. bucket_key b = k) (ht t ! index) \<noteq> None then (HASHTBLERROR, t)
         else (OK, t\<lparr>ht := (ht t)[index := \<lparr>hb_file = fst k, hb_pageNo = snd k, hb_frameNo = i\<rparr> # ht t ! index]\<rparr>))"

definition tab_del :: "(int \<Rightarrow> fptr \<Rightarrow> int \<Rightarrow> int) \<Rightarrow> BufHashTbl \<Rightarrow> fptr \<times> int \<Rightarrow> Status \<times> BufHashTbl" where
  "tab_del hash t k =
     (let index = tab_idx hash t k
      in case chain_unlink (\<lambda>b. bucket_key b = k) (ht t ! index) of
           Some bs \<Rightarrow> (OK, t\<lparr>ht := (ht t)[index := bs]\<rparr>)
         | None \<Rightarrow> (HASHTBLERROR, t))"

lemma tab_idx_ht [simp]: "tab_idx hash (t\<lparr>ht := x\<rparr>) = tab_idx hash t"
  by (simp add: tab_idx_def fun_eq_iff)

lemma matches_bucket_key: "bucket_matches f p = (\<lambda>b. bucket_key b = (f, p))"
  by (simp add: bucket_matches_def bucket_key_def fun_eq_iff)

lemma tab_keyed:
  assumes inv: "tab_inv hash t"
  shows "tab_map hash t k = None \<Longrightarrow>
      \<exists>t'. tab_ins hash t k v = (OK, t') \<and> tab_inv hash t' \<and> tab_map hash t' = (tab_map hash t)(k \<mapsto> v)"
    and "tab_map hash t k \<noteq> None \<Longrightarrow> tab_ins hash t k v = (HASHTBLERROR, t)"
    and "tab_map hash t k \<noteq> None \<Longrightarrow>
      \<exists>t'. tab_del hash t k = (OK, t') \<and> tab_inv hash t' \<and> tab_map hash t' = (tab_map hash t)(k := None)"
    and "tab_map hash t k = None \<Longrightarrow> tab_del hash t k = (HASHTBLERROR, t)"
proof -
  let ?h = "tab_idx hash t" and ?b = "\<lparr>hb_file = fst k, hb_pageNo = snd k, hb_frameNo = v\<rparr>"
  have ok: "chains_ok ?h bucket_key (ht t)" using inv by (simp add: tab_inv_def)
  have b: "bucket_key ?b = k" by (simp add: bucket_key_def)
  have unlink: "chain_unlink (\<lambda>b. bucket_key b = k) (ht t ! ?h k) = None \<longleftrightarrow> tab_map hash t k = None"
    by (simp add: chain_unlink_None tab_map_def chains_find_def)
  show "\<exists>t'. tab_ins hash t k v = (OK, t') \<and> tab_inv hash t' \<and> tab_map hash t' = (tab_map hash t)(k \<mapsto> v)"
    if none: "tab_map hash t k = None"
  proof -
    have "chains_find ?h bucket_key (ht t) (bucket_key ?b) = None" using none b by (simp add: tab_map_def)
    note I = chains_ok_insert [OF ok this]
    show ?thesis using none inv I b by (auto simp: tab_ins_def tab_map_def tab_inv_def chains_find_def Let_def fun_eq_iff)
  qed
  show "tab_ins hash t k v = (HASHTBLERROR, t)" if "tab_map hash t k \<noteq> None"
    using that by (simp add: tab_ins_def tab_map_def chains_find_def Let_def)
  show "\<exists>t'. tab_del hash t k = (OK, t') \<and> tab_inv hash t' \<and> tab_map hash t' = (tab_map hash t)(k := None)"
    if some: "tab_map hash t k \<noteq> None"
  proof -
    obtain bs where bs: "chain_unlink (\<lambda>b. bucket_key b = k) (ht t ! ?h k) = Some bs" using some unlink by auto
    from chains_ok_unlink [OF ok bs] show ?thesis
      using bs inv by (simp add: tab_del_def tab_map_def Let_def tab_inv_def fun_eq_iff)
  qed
  show "tab_del hash t k = (HASHTBLERROR, t)" if "tab_map hash t k = None"
    using that unlink by (simp add: tab_del_def Let_def)
qed

locale hash_index =
  fixes hash :: "int \<Rightarrow> fptr \<Rightarrow> int \<Rightarrow> int"
  assumes hash_less: "0 < n \<Longrightarrow> n < 2147483648 \<Longrightarrow> 0 \<le> hash n f p \<and> hash n f p < n"
begin

lemma new_table:
  assumes "0 < n" "n < 2147483648"
  shows "tab_inv hash \<lparr>HTSIZE = n, ht = replicate (nat n) []\<rparr>" "tab_map hash \<lparr>HTSIZE = n, ht = replicate (nat n) []\<rparr> = Map.empty"
proof -
  have "nat (hash n f p) < nat n" for f p using hash_less [OF assms, of f p] by simp
  then show "tab_inv hash \<lparr>HTSIZE = n, ht = replicate (nat n) []\<rparr>" "tab_map hash \<lparr>HTSIZE = n, ht = replicate (nat n) []\<rparr> = Map.empty"
    using assms by (simp_all add: tab_inv_def tab_map_def tab_idx_def chains_ok_def chains_find_def fun_eq_iff)
qed

end

sublocale hash_index \<subseteq> table: keyed_table "tab_inv hash" "tab_map hash" "tab_ins hash" "tab_del hash"
  by unfold_locales (fact tab_keyed)+

lemma index_small:
  assumes "0 \<le> x" "x < n" "n < 2147483648"
  shows "wrap32 x = x" "uint32 x = x"
  using assms by (simp_all add: uint32_def)

interpretation h3: hash_index BufHashTbl3_hash
proof
  fix n p :: int and f :: fptr
  assume n: "0 < n" "n < 2147483648"
  let ?v = "uint32 (uint32 f + uint32 p) mod n"
  have "0 \<le> ?v" "?v < n" "uint32 n = n" using n by (simp_all add: uint32_def)
  then show "0 \<le> BufHashTbl3_hash n f p \<and> BufHashTbl3_hash n f p < n"
    using index_small(1) [of ?v n] n by (simp add: BufHashTbl3_hash_def Let_def)
qed

interpretation h4: hash_index BufHashTbl4_hash
proof
  fix n p :: int and f :: fptr
  assume n: "0 < n" "n < 2147483648"
  let ?r = "c_rem (long64 (long64 f + p)) n + n"
  have "0 < ?r" using c_rem_bounds [OF n(1), of "long64 (long64 f + p)"] by simp
  then have "0 \<le> c_rem ?r n" "c_rem ?r n < n"
    using n(1) by (simp_all add: c_rem_def [of ?r] zero_less_mult_iff)
  then show "0 \<le> BufHashTbl4_hash n f p \<and> BufHashTbl4_hash n f p < n"
    using index_small [of "c_rem ?r n" n] n by (simp add: BufHashTbl4_hash_def Let_def)
qed

text \<open>The operations of the code are those of the tables over their hash function.\<close>

lemma tab3_code:
  "BufHashTbl3_insert t f p i = tab_ins BufHashTbl3_hash t (f, p) i"
  "BufHashTbl3_remove t f p = tab_del BufHashTbl3_hash t (f, p)"
  "BufHashTbl3_lookup t f p i = (case tab_map BufHashTbl3_hash t (f, p) of Some j \<Rightarrow> (OK, j) | None \<Rightarrow> (HASHNOTFOUND, i))"
  "BufHashTbl3_new n = \<lparr>HTSIZE = n, ht = replicate (nat n) []\<rparr>"
  by (simp_all add: BufHashTbl3_insert_def BufHashTbl3_remove_def BufHashTbl3_lookup_def BufHashTbl3_new_def tab_ins_def tab_del_def
      tab_map_def chains_find_def tab_idx_def matches_bucket_key Let_def split: option.splits)

lemma tab4_code:
  "BufHashTbl4_insert t f p i = tab_ins BufHashTbl4_hash t (f, p) i"
  "BufHashTbl4_remove t f p = tab_del BufHashTbl4_hash t (f, p)"
  "BufHashTbl4_lookup t f p i = (case tab_map BufHashTbl4_hash t (f, p) of Some j \<Rightarrow> (OK, j) | None \<Rightarrow> (HASHNOTFOUND, i))"
  "BufHashTbl4_new n = \<lparr>HTSIZE = n, ht = replicate (nat n) []\<rparr>"
  by (simp_all add: BufHashTbl4_insert_def BufHashTbl4_remove_def BufHashTbl4_lookup_def BufHashTbl4_new_def tab_ins_def tab_del_def
      tab_map_def chains_find_def tab_idx_def matches_bucket_key Let_def split: option.splits)

section \<open>The three tables agree\<close>

text \<open>A sequence of insertions and removals, on a table and on a map.\<close>

datatype tab_op = TabInsert fptr int int | TabRemove fptr int

fun tab_run :: "('t \<Rightarrow> fptr \<Rightarrow> int \<Rightarrow> int \<Rightarrow> Status \<times> 't) \<Rightarrow> ('t \<Rightarrow> fptr \<Rightarrow> int \<Rightarrow> Status \<times> 't)
    \<Rightarrow> tab_op list \<Rightarrow> 't \<Rightarrow> Status list \<times> 't" where
  "tab_run ins del [] t = ([], t)"
| "tab_run ins del (TabInsert f p i # ops) t = (let (st, t) = ins t f p i; (sts, t) = tab_run ins del ops t in (st # sts, t))"
| "tab_run ins del (TabRemove f p # ops) t = (let (st, t) = del t f p; (sts, t) = tab_run ins del ops t in (st # sts, t))"

fun map_run :: "tab_op list \<Rightarrow> (fptr \<times> int \<Rightarrow> int option) \<Rightarrow> Status list \<times> (fptr \<times> int \<Rightarrow> int option)" where
  "map_run [] m = ([], m)"
| "map_run (TabInsert f p i # ops) m =
     (let (sts, m') = map_run ops (if m (f, p) = None then m((f, p) \<mapsto> i) else m)
      in ((if m (f, p) = None then OK else HASHTBLERROR) # sts, m'))"
| "map_run (TabRemove f p # ops) m =
     (let (sts, m') = map_run ops (m((f, p) := None)) in ((if m (f, p) = None then HASHTBLERROR else OK) # sts, m'))"

lemma tab_run_map:
  assumes table: "keyed_table ok look ins del"
    and code: "\<And>t f p i. ins' t f p i = ins t (f, p) i" "\<And>t f p. del' t f p = del t (f, p)" and t: "ok t"
  shows "fst (tab_run ins' del' ops t) = fst (map_run ops (look t)) \<and> ok (snd (tab_run ins' del' ops t)) \<and>
    look (snd (tab_run ins' del' ops t)) = snd (map_run ops (look t))"
  using t
proof (induction ops arbitrary: t)
  case (Cons op ops)
  note K = keyed_table.ins_status [OF table Cons(2)] keyed_table.inv_ins [OF table Cons(2)] keyed_table.find_ins [OF table Cons(2)]
    keyed_table.del_status [OF table Cons(2)] keyed_table.inv_del [OF table Cons(2)] keyed_table.find_del [OF table Cons(2)]
  show ?case
  proof (cases op)
    case (TabInsert f p i)
    show ?thesis using Cons(1) [OF K(2), of "(f, p)" i] K(1,3) by (simp add: TabInsert code case_prod_unfold Let_def)
  next
    case (TabRemove f p)
    show ?thesis using Cons(1) [OF K(5), of "(f, p)", unfolded K(6)] by (simp add: TabRemove code K(4) case_prod_unfold Let_def del: fun_upd_apply)
  qed
qed simp

lemmas tab_run6_map = tab_run_map [where ins' = BufHashTbl_insert and del' = BufHashTbl_remove, OF bht.keyed_table_axioms]
lemmas tab_run3_map = tab_run_map [where ins' = BufHashTbl3_insert and del' = BufHashTbl3_remove, OF h3.table.keyed_table_axioms]
lemmas tab_run4_map = tab_run_map [where ins' = BufHashTbl4_insert and del' = BufHashTbl4_remove, OF h4.table.keyed_table_axioms]

text \<open>
  C21: The hash tables of the three stages answer alike: for every size up to 2 to the 30,
  beyond which the sum of stage 6 overflows, and every sequence of insertions and removals from the
  empty table, stage 3, stage 4 and stage 6 return the same statuses, and afterwards every lookup
  finds the same frame or nothing in all three.
\<close>
theorem BufHashTbl_stages_agree:
  assumes "0 < n" "n \<le> 1073741824"
  shows "let (sts6, t6) = tab_run BufHashTbl_insert BufHashTbl_remove ops (BufHashTbl_new n);
             (sts4, t4) = tab_run BufHashTbl4_insert BufHashTbl4_remove ops (BufHashTbl4_new n);
             (sts3, t3) = tab_run BufHashTbl3_insert BufHashTbl3_remove ops (BufHashTbl3_new n)
         in sts3 = sts6 \<and> sts4 = sts6 \<and> BufHashTbl3_lookup t3 f p i = BufHashTbl_lookup t6 f p i \<and>
            BufHashTbl4_lookup t4 f p i = BufHashTbl_lookup t6 f p i"
proof -
  have "BufHashTbl_insert t f p i = bht_ins t (f, p) i" "BufHashTbl_remove t f p = bht_del t (f, p)" for t f p i
    by (simp_all add: bht_ins_def bht_del_def)
  note R6 = tab_run6_map [OF this bht_new_inv [OF assms], of ops]
  have n: "n < 2147483648" using assms(2) by simp
  note R3 = tab_run3_map [OF tab3_code(1,2) h3.new_table(1) [OF assms(1) n], of ops]
  note R4 = tab_run4_map [OF tab4_code(1,2) h4.new_table(1) [OF assms(1) n], of ops]
  show ?thesis using R6 R3 R4
    by (simp add: tab3_code(3,4) tab4_code(3,4) lookup_bht_map bht_new_map assms h3.new_table(2) [OF assms(1) n] h4.new_table(2) [OF assms(1) n]
        case_prod_unfold Let_def)
qed

lemma BufHashTbl_stages_agree_witness:
  "BufHashTbl3_hash 3 (-1) 0 \<noteq> BufHashTbl_hash 3 (-1) 0 \<and>
   (let ops = [TabInsert 4096 7 1, TabInsert 4096 7 2, TabRemove 4096 8]
    in fst (tab_run BufHashTbl3_insert BufHashTbl3_remove ops (BufHashTbl3_new 3)) =
       fst (tab_run BufHashTbl_insert BufHashTbl_remove ops (BufHashTbl_new 3)))"
  using BufHashTbl_stages_agree [of 3 "[TabInsert 4096 7 1, TabInsert 4096 7 2, TabRemove 4096 8]" 0 0 0]
  by (simp add: BufHashTbl3_hash_def BufHashTbl_hash_def uint32_def wrap32_def c_rem_def case_prod_unfold Let_def del: tab_run.simps)

end
