(* ===== verification/Buf3.thy ===== *)
theory Buf3
  imports Buf BufHash3
begin

text \<open>
  The buffer manager of stage 3 (part3/buf.C, with the same buf.h): the clock looks at the frame
  under the hand before it moves, the victim is cleared before it is filled, and every error is
  given to Error::print. The state is the pool of stage 6 with the statuses printed so far. twin
  relates a pool to the pool of stage 6 that differs in the hash table only, so that the invariant
  and the lemmas of Buf carry over.
\<close>

section \<open>State and construction\<close>

record pool3 = pool +
  printed :: "Status list"

definition e_print :: "Status \<Rightarrow> 'z pool3_scheme \<Rightarrow> 'z pool3_scheme" where
  "e_print st s = s\<lparr>printed := printed s @ [st]\<rparr>"

definition BufMgr3_new :: "io \<Rightarrow> nat \<Rightarrow> pool3" where
  "BufMgr3_new s bufs = io.extend s
     \<lparr>clockHand = bufs - 1, numBufs = bufs,
      hashTable = BufHashTbl3_new (wrap32 (int (bufs * 6 div 5) * 2) div 2 + 1),
      bufTable = map (\<lambda>i. \<lparr>bd_file = 0, bd_pageNo = 0, bd_frameNo = int i, pinCnt = 0,
                              dirty = False, valid = False, refbit = False\<rparr>) [0..<bufs],
      bufStats = BufStats_clear,
      bufPool = replicate bufs zero_mem,
      printed = []\<rparr>"

text \<open>The destructor.\<close>

fun BufMgr3_flush_all :: "nat list \<Rightarrow> 'z pool_scheme \<Rightarrow> 'z pool_scheme option" where
  "BufMgr3_flush_all [] s = Some s"
| "BufMgr3_flush_all (i # is) s =
     (let tmpbuf = bufTable s ! i
      in if valid tmpbuf \<and> dirty tmpbuf then do {
           (st, s) \<leftarrow> File_writePage s (bd_file tmpbuf) (bd_pageNo tmpbuf) (bufPool s ! i);
           BufMgr3_flush_all is s }
         else BufMgr3_flush_all is s)"

definition BufMgr3_delete :: "'z pool_scheme \<Rightarrow> 'z pool_scheme option" where
  "BufMgr3_delete s = BufMgr3_flush_all [0..<numBufs s] s"

section \<open>The clock\<close>

text \<open>The victim: its entry leaves the hash table and its descriptor is cleared.\<close>

definition take_frame :: "'z pool_scheme \<Rightarrow> nat \<Rightarrow> 'z pool_scheme" where
  "take_frame s i =
     (let d = bufTable s ! i
      in s\<lparr>hashTable := snd (BufHashTbl3_remove (hashTable s) (bd_file d) (bd_pageNo d)),
           bufTable := (bufTable s)[i := BufDesc_Clear d]\<rparr>)"

text \<open>The counter is the number of rounds left, 2 * numBufs - i.\<close>

fun allocBuf3_loop :: "nat \<Rightarrow> 'z pool3_scheme \<Rightarrow> (Status \<times> nat option \<times> 'z pool3_scheme) option" where
  "allocBuf3_loop 0 s = Some (BUFFEREXCEEDED, None, s)"
| "allocBuf3_loop (Suc n) s =
     (let d = bufTable s ! clockHand s
      in if \<not> valid d then Some (OK, Some (clockHand s), s)
         else if refbit d then
           allocBuf3_loop n (advanceClock
             (s\<lparr>bufTable := (bufTable s)[clockHand s := d\<lparr>refbit := False\<rparr>],
                bufStats := (bufStats s)\<lparr>accesses := accesses (bufStats s) + 1\<rparr>\<rparr>))
         else if pinCnt d > 0 then allocBuf3_loop n (advanceClock s)
         else if dirty d then do {
           (st, s) \<leftarrow> File_writePage s (bd_file d) (bd_pageNo d) (bufPool s ! clockHand s);
           let s = s\<lparr>bufStats := (bufStats s)\<lparr>diskwrites := diskwrites (bufStats s) + 1\<rparr>\<rparr>;
           if st \<noteq> OK then Some (st, None, e_print st s)
           else Some (OK, Some (clockHand s), take_frame s (clockHand s)) }
         else Some (OK, Some (clockHand s), take_frame s (clockHand s)))"

definition allocBuf3 :: "'z pool3_scheme \<Rightarrow> (Status \<times> nat option \<times> 'z pool3_scheme) option" where
  "allocBuf3 s = allocBuf3_loop (2 * numBufs s) s"

section \<open>Operations\<close>

text \<open>The descriptor with the number of the frame; without one, target stays a null pointer.\<close>

definition target :: "BufDesc list \<Rightarrow> int \<Rightarrow> nat option" where
  "target bt frame =
     (let j = length (takeWhile (\<lambda>d. bd_frameNo d \<noteq> frame) bt) in if j < length bt then Some j else None)"

definition readPage3 :: "'z pool3_scheme \<Rightarrow> fptr \<Rightarrow> int \<Rightarrow> (Status \<times> nat option \<times> 'z pool3_scheme) option" where
  "readPage3 s f no =
     (let (st, frame) = BufHashTbl3_lookup (hashTable s) f no (-1)
      in if st \<noteq> OK then do {
           (st, fr, s) \<leftarrow> allocBuf3 s;
           if st \<noteq> OK then Some (st, None, e_print st s)
           else do {
             i \<leftarrow> fr;
             (st, pg) \<leftarrow> File_readPage s f no;
             let s = s\<lparr>bufStats := (bufStats s)\<lparr>diskreads := diskreads (bufStats s) + 1\<rparr>\<rparr>;
             if st \<noteq> OK then Some (st, None, e_print st s)
             else do {
               pg \<leftarrow> pg;
               j \<leftarrow> target (bufTable s) (int i);
               let s = s\<lparr>bufPool := (bufPool s)[i := pg], bufTable := (bufTable s)[j := BufDesc_Set (bufTable s ! j) f no]\<rparr>;
               let (st, t) = BufHashTbl3_insert (hashTable s) f no (int i);
               let s = s\<lparr>hashTable := t\<rparr>;
               Some (if st \<noteq> OK then (st, Some i, e_print st s) else (OK, Some i, s)) }}}
         else do {
           j \<leftarrow> target (bufTable s) frame;
           let d = bufTable s ! j;
           Some (OK, Some (nat frame), s\<lparr>bufTable := (bufTable s)[j := d\<lparr>pinCnt := pinCnt d + 1, refbit := True\<rparr>]\<rparr>) })"

definition unPinPage3 :: "'z pool3_scheme \<Rightarrow> fptr \<Rightarrow> int \<Rightarrow> bool \<Rightarrow> Status \<times> 'z pool3_scheme" where
  "unPinPage3 s f no dirt =
     (let (st, frame) = BufHashTbl3_lookup (hashTable s) f no (-1)
      in if st \<noteq> OK then (st, e_print st s)
         else let i = nat frame; d = bufTable s ! i
              in if pinCnt d = 0 then (PAGENOTPINNED, s)
                 else let d = d\<lparr>pinCnt := pinCnt d - 1\<rparr>; d = (if dirt then d\<lparr>dirty := True\<rparr> else d)
                      in (OK, s\<lparr>bufTable := (bufTable s)[i := d]\<rparr>))"

definition allocPage3 ::
  "'z pool3_scheme \<Rightarrow> fptr \<Rightarrow> (Status \<times> int option \<times> nat option \<times> 'z pool3_scheme) option" where
  "allocPage3 s f = do {
     (st, no, s) \<leftarrow> File_allocatePage s f;
     if st \<noteq> OK then Some (st, no, None, e_print st s)
     else do {
       pageNo \<leftarrow> no;
       (st, fr, s) \<leftarrow> allocBuf3 s;
       if st \<noteq> OK then Some (st, Some pageNo, None, e_print st s)
       else do {
         i \<leftarrow> fr;
         let s = s\<lparr>bufTable := (bufTable s)[i := BufDesc_Set (bufTable s ! i) f pageNo]\<rparr>;
         let (st, t) = BufHashTbl3_insert (hashTable s) f pageNo (int i);
         let s = s\<lparr>hashTable := t\<rparr>;
         Some (if st \<noteq> OK then (st, Some pageNo, Some i, e_print st s) else (OK, Some pageNo, Some i, s)) }}}"

definition disposePage3 :: "'z pool3_scheme \<Rightarrow> fptr \<Rightarrow> int \<Rightarrow> (Status \<times> 'z pool3_scheme) option" where
  "disposePage3 s f no =
     (let (st, fr) = BufHashTbl3_lookup (hashTable s) f no 0;
          s = (if st = OK
               then s\<lparr>bufTable := (bufTable s)[nat fr := BufDesc_Clear (bufTable s ! nat fr)]\<rparr> else s);
          s = s\<lparr>hashTable := snd (BufHashTbl3_remove (hashTable s) f no)\<rparr>
      in File_disposePage s f no)"

definition flush_drop3 :: "'z pool_scheme \<Rightarrow> fptr \<Rightarrow> nat \<Rightarrow> 'z pool_scheme" where
  "flush_drop3 s f i =
     (let d = bufTable s ! i
      in s\<lparr>hashTable := snd (BufHashTbl3_remove (hashTable s) f (bd_pageNo d)),
           bufTable := (bufTable s)[i := d\<lparr>dirty := False, bd_file := 0, bd_pageNo := -1, valid := False\<rparr>]\<rparr>)"

fun flushFile3_loop :: "fptr \<Rightarrow> nat list \<Rightarrow> 'z pool3_scheme \<Rightarrow> (Status \<times> 'z pool3_scheme) option" where
  "flushFile3_loop f [] s = Some (OK, s)"
| "flushFile3_loop f (i # is) s =
     (let d = bufTable s ! i
      in if valid d \<and> bd_file d = f then
           if pinCnt d > 0 then Some (PAGEPINNED, s)
           else if dirty d then do {
             (st, s) \<leftarrow> File_writePage s (bd_file d) (bd_pageNo d) (bufPool s ! i);
             if st \<noteq> OK then Some (st, s) else flushFile3_loop f is (flush_drop3 s f i) }
           else flushFile3_loop f is (flush_drop3 s f i)
         else if \<not> valid d \<and> bd_file d = f then Some (BADBUFFER, s)
         else flushFile3_loop f is s)"

definition flushFile3 :: "'z pool3_scheme \<Rightarrow> fptr \<Rightarrow> (Status \<times> 'z pool3_scheme) option" where
  "flushFile3 s f = flushFile3_loop f [0..<numBufs s] s"

section \<open>The pool of stage 6 with the same pages\<close>

definition twin :: "'z pool_scheme \<Rightarrow> 'z pool_scheme \<Rightarrow> bool" where
  "twin s t \<longleftrightarrow> tab_inv BufHashTbl3_hash (hashTable s) \<and> bht_inv (hashTable t) \<and>
     bht_map (hashTable t) = tab_map BufHashTbl3_hash (hashTable s) \<and> t = s\<lparr>hashTable := hashTable t\<rparr>"

definition page_of3 :: "'z pool_scheme \<Rightarrow> fptr \<Rightarrow> int \<Rightarrow> page option" where
  "page_of3 s f no = (case tab_map BufHashTbl3_hash (hashTable s) (f, no) of
      Some i \<Rightarrow> Some (bufPool s ! nat i) | None \<Rightarrow> disk_page s f no)"

definition pin_of3 :: "'z pool_scheme \<Rightarrow> fptr \<Rightarrow> int \<Rightarrow> int" where
  "pin_of3 s f no = (case tab_map BufHashTbl3_hash (hashTable s) (f, no) of
      Some i \<Rightarrow> pinCnt (bufTable s ! nat i) | None \<Rightarrow> 0)"

definition pool3_inv :: "'z pool_scheme \<Rightarrow> bool" where
  "pool3_inv s \<longleftrightarrow> (\<exists>t. twin s t \<and> pool_ok {} t \<and> coherent {} t)"

lemma twin_fields:
  assumes "twin s t"
  shows "bufTable t = bufTable s" "bufPool t = bufPool s" "numBufs t = numBufs s" "clockHand t = clockHand s" "bufStats t = bufStats s"
    "disk_page t = disk_page s" "file_pages t = file_pages s" "file_name t = file_name s" "files t = files s"
    "fds t = fds s" "disk t = disk s" "pool.more t = pool.more s" "io_inv t = io_inv s"
proof -
  obtain T where t: "t = s\<lparr>hashTable := T\<rparr>" using assms by (metis twin_def)
  show "bufTable t = bufTable s" "bufPool t = bufPool s" "numBufs t = numBufs s" "clockHand t = clockHand s" "bufStats t = bufStats s"
    "disk_page t = disk_page s" "file_pages t = file_pages s" "file_name t = file_name s" "files t = files s"
    "fds t = fds s" "disk t = disk s" "pool.more t = pool.more s" "io_inv t = io_inv s"
    by (simp_all add: t fun_eq_iff)
qed

lemma twin_map: "twin s t \<Longrightarrow> tab_map BufHashTbl3_hash (hashTable s) = bht_map (hashTable t)"
  by (simp add: twin_def)

lemma twin_view: "twin s t \<Longrightarrow> page_of3 s = page_of t \<and> pin_of3 s = pin_of t"
  by (simp add: fun_eq_iff page_of3_def pin_of3_def page_of_def pin_of_def twin_map twin_fields split: option.split)

text \<open>Changes that leave the hash tables alone.\<close>

lemma twin_upd:
  assumes "twin s t"
  shows "twin (s\<lparr>bufTable := bt\<rparr>) (t\<lparr>bufTable := bt\<rparr>)" "twin (s\<lparr>bufPool := bp\<rparr>) (t\<lparr>bufPool := bp\<rparr>)"
    "twin (s\<lparr>bufStats := bs\<rparr>) (t\<lparr>bufStats := bs\<rparr>)" "twin (s\<lparr>clockHand := h\<rparr>) (t\<lparr>clockHand := h\<rparr>)"
    "twin (s\<lparr>disk := d\<rparr>) (t\<lparr>disk := d\<rparr>)"
proof -
  obtain T where t: "t = s\<lparr>hashTable := T\<rparr>" "bht_inv T" "bht_map T = tab_map BufHashTbl3_hash (hashTable s)"
    "tab_inv BufHashTbl3_hash (hashTable s)"
    using assms by (metis twin_def)
  then show "twin (s\<lparr>bufTable := bt\<rparr>) (t\<lparr>bufTable := bt\<rparr>)" "twin (s\<lparr>bufPool := bp\<rparr>) (t\<lparr>bufPool := bp\<rparr>)"
    "twin (s\<lparr>bufStats := bs\<rparr>) (t\<lparr>bufStats := bs\<rparr>)" "twin (s\<lparr>clockHand := h\<rparr>) (t\<lparr>clockHand := h\<rparr>)"
    "twin (s\<lparr>disk := d\<rparr>) (t\<lparr>disk := d\<rparr>)"
    by (simp_all add: twin_def)
qed

lemma twin_printed:
  fixes s t :: "'z pool3_scheme"
  shows "twin s t \<Longrightarrow> twin (s\<lparr>printed := p\<rparr>) (t\<lparr>printed := p\<rparr>)"
  by (cases s; cases t) (simp add: twin_def)

text \<open>Changes of the hash tables.\<close>

lemma twin_remove:
  assumes "twin s t"
  shows "twin (s\<lparr>hashTable := snd (BufHashTbl3_remove (hashTable s) f no)\<rparr>) (t\<lparr>hashTable := snd (BufHashTbl_remove (hashTable t) f no)\<rparr>)"
proof -
  have i: "tab_inv BufHashTbl3_hash (hashTable s)" "bht_inv (hashTable t)" using assms by (simp_all add: twin_def)
  obtain T where t: "t = s\<lparr>hashTable := T\<rparr>" using assms by (metis twin_def)
  note A = h3.table.inv_del [OF i(1), of "(f, no)"] h3.table.find_del [OF i(1), of "(f, no)"]
  note B = bht.inv_del [OF i(2), of "(f, no)"] bht.find_del [OF i(2), of "(f, no)"]
  show ?thesis using A B twin_map [OF assms] t by (simp add: twin_def tab3_code bht_del_def)
qed

lemma twin_insert:
  assumes "twin s t"
  shows "fst (BufHashTbl3_insert (hashTable s) f no i) = fst (BufHashTbl_insert (hashTable t) f no i)"
    "twin (s\<lparr>hashTable := snd (BufHashTbl3_insert (hashTable s) f no i)\<rparr>) (t\<lparr>hashTable := snd (BufHashTbl_insert (hashTable t) f no i)\<rparr>)"
proof -
  have i: "tab_inv BufHashTbl3_hash (hashTable s)" "bht_inv (hashTable t)" using assms by (simp_all add: twin_def)
  obtain T where t: "t = s\<lparr>hashTable := T\<rparr>" using assms by (metis twin_def)
  note A = h3.table.ins_status [OF i(1), of "(f, no)" i] h3.table.inv_ins [OF i(1), of "(f, no)" i] h3.table.find_ins [OF i(1), of "(f, no)" i]
  note B = bht.ins_status [OF i(2), of "(f, no)" i] bht.inv_ins [OF i(2), of "(f, no)" i] bht.find_ins [OF i(2), of "(f, no)" i]
  show "fst (BufHashTbl3_insert (hashTable s) f no i) = fst (BufHashTbl_insert (hashTable t) f no i)"
    using A(1) B(1) twin_map [OF assms] by (simp add: tab3_code bht_ins_def)
  show "twin (s\<lparr>hashTable := snd (BufHashTbl3_insert (hashTable s) f no i)\<rparr>) (t\<lparr>hashTable := snd (BufHashTbl_insert (hashTable t) f no i)\<rparr>)"
    using A(2,3) B(2,3) twin_map [OF assms] t by (simp add: twin_def tab3_code bht_ins_def)
qed

lemma twin_lookup:
  "twin s t \<Longrightarrow> BufHashTbl3_lookup (hashTable s) f no i = BufHashTbl_lookup (hashTable t) f no i"
  by (simp add: tab3_code lookup_bht_map twin_map)

section \<open>The file operations\<close>

abbreviation twin_result :: "(Status \<times> 'z pool_scheme) option \<Rightarrow> (Status \<times> 'z pool_scheme) option \<Rightarrow> bool" where
  "twin_result \<equiv> rel_option (rel_prod (=) twin)"

lemma rel_option_bind:
  "rel_option A x y \<Longrightarrow> (\<And>a b. A a b \<Longrightarrow> rel_option B (g a) (h b)) \<Longrightarrow> rel_option B (Option.bind x g) (Option.bind y h)"
  by (cases x; cases y) simp_all

lemma twin_intread: "twin s t \<Longrightarrow> File_intread t f no = File_intread s f no"
  by (simp add: File_intread_def fd_pages_def twin_fields cong: option.case_cong)

lemma twin_intwrite:
  assumes "twin s t"
  shows "twin_result (File_intwrite s f no p) (File_intwrite t f no p)"
  using assms twin_upd(5) [OF assms] by (auto simp: File_intwrite_def twin_fields split: option.splits Option.bind_split)

lemma twin_readPage: "twin s t \<Longrightarrow> File_readPage t f no = File_readPage s f no"
  by (simp add: File_readPage_def twin_intread)

lemma twin_writePage: "twin s t \<Longrightarrow> twin_result (File_writePage s f no p) (File_writePage t f no p)"
  by (simp add: File_writePage_def twin_intwrite)

section \<open>The clock finds a victim\<close>

definition hand_dist :: "'z pool_scheme \<Rightarrow> nat \<Rightarrow> nat" where
  "hand_dist s k = (if clockHand s \<le> k then Suc (k - clockHand s) else Suc (k + numBufs s - clockHand s))"

definition hand_pot :: "'z pool_scheme \<Rightarrow> nat \<Rightarrow> nat" where
  "hand_pot s k = hand_dist s k + (if valid (bufTable s ! k) \<and> refbit (bufTable s ! k) then numBufs s else 0)"

lemma hand_dist_step:
  assumes "clockHand s < numBufs s" "k < numBufs s"
  shows "hand_dist (advanceClock s) k = (if k = clockHand s then numBufs s else hand_dist s k - 1) \<and> 1 \<le> hand_dist s k \<and>
    (k = clockHand s \<longrightarrow> hand_dist s k = 1) \<and> hand_dist s k \<le> numBufs s"
  using assms by (cases "Suc (clockHand s) = numBufs s") (auto simp: hand_dist_def advanceClock_def)

text \<open>The victim, written back when it is dirty, leaves the pool.\<close>

lemma twin_take:
  assumes tw: "twin s t" and ok: "pool_ok {} t" and coh: "coherent {} t" and h: "h < numBufs s"
    and v: "valid (bufTable s ! h)" "pinCnt (bufTable s ! h) = 0"
    and clean: "disk_page t (bd_file (bufTable s ! h)) (bd_pageNo (bufTable s ! h)) = page_of t (bd_file (bufTable s ! h)) (bd_pageNo (bufTable s ! h))"
  obtains t' where "twin (take_frame s h) t'" "pool_ok {} t'" "coherent {} t'" "page_of t' = page_of t" "pin_of t' = pin_of t"
    "disk_changes A t t'" "cached t' \<subseteq> cached t" "bufTable t' = (bufTable s)[h := BufDesc_Clear (bufTable s ! h)]" "numBufs t' = numBufs t"
proof -
  let ?d = "bufTable s ! h"
  let ?f = "bd_file ?d" and ?no = "bd_pageNo ?d" and ?c = "BufDesc_Clear ?d"
  note F = twin_fields [OF tw]
  have ht: "h < numBufs t" and fr: "in_frame (bufTable t ! h) ?f ?no" using h v F by (simp_all add: in_frame_def)
  have c: "\<not> valid ?c" "\<not> dirty ?c" "bd_file ?c = 0" "bd_frameNo ?c = int h"
    using ok ht F by (simp_all add: BufDesc_Clear_def pool_ok_def)
  note E = pool_ok_evict_free [OF ok coh ht fr c]
  let ?t = "t\<lparr>hashTable := snd (BufHashTbl_remove (hashTable t) ?f ?no), bufTable := (bufTable t)[h := ?c]\<rparr>"
  have "twin (take_frame s h) ?t"
    using twin_upd(1) [OF twin_remove [OF tw, of ?f ?no], of "(bufTable s)[h := ?c]"] F by (simp add: take_frame_def Let_def)
  moreover have "pin_of t ?f ?no = 0" using in_frame_map [OF ok ht _ fr] v F by (simp add: pin_of_def)
  then have "page_of ?t = page_of t" "pin_of ?t = pin_of t" unfolding E(4,5) using clean by (auto simp: fun_eq_iff)
  moreover have "cached ?t \<subseteq> cached t" using E(3) by (auto simp: cached_def)
  ultimately show thesis using that [of ?t] E(1,2) F by (simp add: disk_changes_refl)
qed

text \<open>One result of the loop, on the twin.\<close>

definition victim_found :: "'z pool3_scheme \<Rightarrow> 'z pool3_scheme \<Rightarrow> Status \<Rightarrow> nat option \<Rightarrow> 'z pool3_scheme \<Rightarrow> 'z pool3_scheme \<Rightarrow> bool" where
  "victim_found s t st fr s' t' \<longleftrightarrow> twin s' t' \<and> pool_ok {} t' \<and> coherent {} t' \<and> page_of t' = page_of t \<and> pin_of t' = pin_of t \<and>
     disk_changes (cached t) t t' \<and> cached t' \<subseteq> cached t \<and> numBufs t' = numBufs t \<and>
     (st = OK \<and> (\<exists>i < numBufs s. fr = Some i \<and> usable (bufTable s ! i) \<and> \<not> valid (bufTable s' ! i)) \<or> st = BUFFEREXCEEDED \<and> fr = None)"

lemma victim_step:
  fixes bs :: BufStats
  assumes tw: "twin s t" and ok: "pool_ok {} t" and coh: "coherent {} t" and same: "same_table (bufTable s) bt" and h: "h < numBufs s"
  defines "s1 \<equiv> s\<lparr>clockHand := h, bufStats := bs, bufTable := bt\<rparr>" and "t1 \<equiv> t\<lparr>clockHand := h, bufStats := bs, bufTable := bt\<rparr>"
  shows "twin s1 t1" "pool_ok {} t1" "coherent {} t1" "victim_found s1 t1 st fr s' t' \<Longrightarrow> victim_found s t st fr s' t'"
proof -
  note F = twin_fields [OF tw]
  show "twin s1 t1" unfolding s1_def t1_def by (intro twin_upd tw)
  note S = pool_ok_same [OF ok, of bt h bs]
  show ok1: "pool_ok {} t1" "coherent {} t1" using S coh same h F by (simp_all add: t1_def)
  have p: "page_of t1 = page_of t" using S(3) same h F by (simp add: t1_def)
  have q: "pin_of t1 = pin_of t" by (rule pin_of_same_table [OF ok]) (use same F in \<open>simp_all add: t1_def\<close>)
  have len: "length (bufTable s) = numBufs s" using pool_okD [OF ok] F by simp
  have us: "usable (bt ! i) = usable (bufTable s ! i)" if "i < numBufs s" for i
    using same same_desc_simps(4) [of "bufTable s ! i" "bt ! i"] that len by (simp add: same_table_def)
  have c: "cached t1 = cached t" "disk_changes A t1 t' = disk_changes A t t'" for A
    by (simp_all add: t1_def cached_def disk_changes_def fun_eq_iff)
  show "victim_found s t st fr s' t'" if "victim_found s1 t1 st fr s' t'"
    using that us p q unfolding victim_found_def c by (auto simp: s1_def t1_def)
qed

text \<open>The frame under the hand is taken: invalid, clean, or dirty and written back.\<close>

lemma victim_taken:
  assumes tw: "twin s t" and ok: "pool_ok {} t" and coh: "coherent {} t" and h: "clockHand s < numBufs s"
    and us: "usable (bufTable s ! clockHand s)" and rb: "valid (bufTable s ! clockHand s) \<Longrightarrow> \<not> refbit (bufTable s ! clockHand s)"
  obtains i s' t' where "allocBuf3_loop (Suc n) s = Some (OK, Some i, s')" "victim_found s t OK (Some i) s' t'"
proof (cases "valid (bufTable s ! clockHand s)")
  case False
  then show thesis using that [of "clockHand s" s t] assms by (auto simp: victim_found_def disk_changes_refl)
next
  case True
  let ?h = "clockHand s" and ?d = "bufTable s ! clockHand s"
  let ?f = "bd_file ?d" and ?no = "bd_pageNo ?d"
  note F = twin_fields [OF tw]
  have ht: "?h < numBufs t" and fr: "in_frame (bufTable t ! ?h) ?f ?no" and pin: "pinCnt ?d = 0"
    using h us True F by (simp_all add: in_frame_def usable_def)
  have len: "?h < length (bufTable s)" using pool_okD [OF ok] h F by simp
  have bad: "\<not> valid (BufDesc_Clear ?d)" by (simp add: BufDesc_Clear_def)
  have found: "victim_found s t OK (Some ?h) s' t'"
    if "twin s' t'" "pool_ok {} t'" "coherent {} t'" "page_of t' = page_of t" "pin_of t' = pin_of t" "disk_changes (cached t) t t'"
      "cached t' \<subseteq> cached t" "bufTable t' = (bufTable s)[?h := BufDesc_Clear ?d]" "numBufs t' = numBufs t" for s' t'
    using that us h bad len twin_fields [OF that(1)] by (auto simp: victim_found_def)
  show thesis
  proof (cases "dirty ?d")
    case False
    have "desc_coherent t ?d (bufPool t ! ?h)" using coh ht F by (simp add: coherent_def)
    then have "disk_page t ?f ?no = page_of t ?f ?no"
      using True False pin in_frame_map [OF ok ht _ fr] by (simp add: desc_coherent_def page_of_def)
    from twin_take [OF tw ok coh h True pin this] obtain t' where T: "twin (take_frame s ?h) t'" "pool_ok {} t'" "coherent {} t'"
      "page_of t' = page_of t" "pin_of t' = pin_of t" "disk_changes (cached t) t t'" "cached t' \<subseteq> cached t"
      "bufTable t' = (bufTable s)[?h := BufDesc_Clear ?d]" "numBufs t' = numBufs t"
      by (metis (no_types, lifting))
    show thesis by (rule that [OF _ found [OF T]]) (use True rb pin False in \<open>simp add: Let_def\<close>)
  next
    case dt: True
    obtain d where W: "File_writePage t ?f ?no (bufPool t ! ?h) = Some (OK, t\<lparr>disk := d\<rparr>)"
      "pool_ok {} (t\<lparr>disk := d\<rparr>)" "coherent {} (t\<lparr>disk := d\<rparr>)" "page_of (t\<lparr>disk := d\<rparr>) = page_of t"
      "pin_of (t\<lparr>disk := d\<rparr>) = pin_of t" "disk_changes (cached t) t (t\<lparr>disk := d\<rparr>)"
      "disk_page (t\<lparr>disk := d\<rparr>) ?f ?no = page_of t ?f ?no"
      by (rule write_frame [OF ok coh ht fr]) (use pin F in simp, rule that)
    obtain s1 where S1: "File_writePage s ?f ?no (bufPool s ! ?h) = Some (OK, s1)" "twin s1 (t\<lparr>disk := d\<rparr>)"
      using twin_writePage [OF tw, of ?f ?no "bufPool s ! ?h"] W(1) F by (auto simp: option_rel_Some2)
    let ?u = "\<lambda>x. x\<lparr>bufStats := (bufStats s1)\<lparr>diskwrites := diskwrites (bufStats s1) + 1\<rparr>\<rparr>"
    have F1: "bufTable s1 = bufTable s" "numBufs s1 = numBufs s" "clockHand s1 = clockHand s"
      using twin_fields [OF S1(2)] F by simp_all
    have tw2: "twin (?u s1) (?u (t\<lparr>disk := d\<rparr>))" by (rule twin_upd(3) [OF S1(2)])
    have a: "pool_ok {} (?u (t\<lparr>disk := d\<rparr>))" "coherent {} (?u (t\<lparr>disk := d\<rparr>))" "?h < numBufs (?u s1)" "valid (bufTable (?u s1) ! ?h)"
      "pinCnt (bufTable (?u s1) ! ?h) = 0"
      "disk_page (?u (t\<lparr>disk := d\<rparr>)) (bd_file (bufTable (?u s1) ! ?h)) (bd_pageNo (bufTable (?u s1) ! ?h))
         = page_of (?u (t\<lparr>disk := d\<rparr>)) (bd_file (bufTable (?u s1) ! ?h)) (bd_pageNo (bufTable (?u s1) ! ?h))"
      using W h True pin F1 by simp_all
    from twin_take [OF tw2 a] obtain t' where T: "twin (take_frame (?u s1) ?h) t'" "pool_ok {} t'" "coherent {} t'"
      "page_of t' = page_of (?u (t\<lparr>disk := d\<rparr>))" "pin_of t' = pin_of (?u (t\<lparr>disk := d\<rparr>))" "disk_changes (cached t) (?u (t\<lparr>disk := d\<rparr>)) t'"
      "cached t' \<subseteq> cached (?u (t\<lparr>disk := d\<rparr>))" "bufTable t' = (bufTable (?u s1))[?h := BufDesc_Clear (bufTable (?u s1) ! ?h)]"
      "numBufs t' = numBufs (?u (t\<lparr>disk := d\<rparr>))"
      by (metis (no_types, lifting))
    have c: "cached (?u (t\<lparr>disk := d\<rparr>)) = cached t" by (simp add: cached_def)
    have dc: "disk_changes (cached t) t t'"
      by (rule disk_changes_trans [OF W(6)]) (use T(6) in \<open>simp add: disk_changes_def fun_eq_iff\<close>)
    have run: "allocBuf3_loop (Suc n) s = Some (OK, Some ?h, take_frame (?u s1) ?h)"
      using True rb pin dt S1(1) F1 by (simp add: Let_def)
    show thesis by (rule that [OF run found [of _ t']]) (use T W(4,5) c dc F1 in simp_all)
  qed
qed

lemma upd_order:
  fixes s :: "'z pool_scheme" and bs :: BufStats
  shows "s\<lparr>bufTable := bt, bufStats := bs, clockHand := h\<rparr> = s\<lparr>clockHand := h, bufStats := bs, bufTable := bt\<rparr>"
  by (cases s) simp

lemma allocBuf3_loop_spec:
  fixes s t :: "'z pool3_scheme"
  assumes "twin s t" "pool_ok {} t" "coherent {} t"
  shows "\<exists>st fr s' t'. allocBuf3_loop n s = Some (st, fr, s') \<and> victim_found s t st fr s' t' \<and>
    (\<forall>k < numBufs s. usable (bufTable s ! k) \<and> hand_pot s k \<le> n \<longrightarrow> st = OK)"
  using assms
proof (induction n arbitrary: s t)
  case 0
  then have "hand_pot s k > 0" for k by (simp add: hand_pot_def hand_dist_def)
  then show ?case using 0 by (auto simp: victim_found_def disk_changes_refl)
next
  case (Suc n)
  let ?h = "clockHand s" and ?d = "bufTable s ! clockHand s"
  note F = twin_fields [OF Suc.prems(1)]
  have wf: "?h < numBufs s" "length (bufTable s) = numBufs s" "0 < numBufs s" using pool_okD [OF Suc.prems(2)] F by simp_all
  have next_h: "Suc ?h mod numBufs s < numBufs s" using wf by simp
  have step: ?case if same: "same_table (bufTable s) bt"
    and run: "allocBuf3_loop (Suc n) s = allocBuf3_loop n (s\<lparr>clockHand := Suc ?h mod numBufs s, bufStats := bs, bufTable := bt\<rparr>)"
    and pot: "\<And>k. k < numBufs s \<Longrightarrow> usable (bufTable s ! k) \<Longrightarrow>
      hand_pot s k = Suc (hand_pot (s\<lparr>clockHand := Suc ?h mod numBufs s, bufStats := bs, bufTable := bt\<rparr>) k)" for bs bt
  proof -
    let ?s1 = "s\<lparr>clockHand := Suc ?h mod numBufs s, bufStats := bs, bufTable := bt\<rparr>"
    let ?t1 = "t\<lparr>clockHand := Suc ?h mod numBufs s, bufStats := bs, bufTable := bt\<rparr>"
    note V = victim_step [OF Suc.prems same next_h, of bs]
    obtain st fr s' t' where I: "allocBuf3_loop n ?s1 = Some (st, fr, s')" "victim_found ?s1 ?t1 st fr s' t'"
      "\<forall>k < numBufs ?s1. usable (bufTable ?s1 ! k) \<and> hand_pot ?s1 k \<le> n \<longrightarrow> st = OK"
      using Suc.IH [OF V(1-3)] by blast
    have "usable (bt ! k) = usable (bufTable s ! k)" if "k < numBufs s" for k
      using same same_desc_simps(4) [of "bufTable s ! k" "bt ! k"] that wf by (simp add: same_table_def)
    then have "\<forall>k < numBufs s. usable (bufTable s ! k) \<and> hand_pot s k \<le> Suc n \<longrightarrow> st = OK" using I(3) pot by auto
    then show ?thesis using run I(1) V(4) [OF I(2)] by auto
  qed
  have dist0: "hand_dist (s\<lparr>clockHand := Suc ?h mod numBufs s\<rparr>) k = hand_dist (advanceClock s) k" for k
    by (simp add: advanceClock_def)
  have dist: "hand_dist (s\<lparr>clockHand := Suc ?h mod numBufs s, bufStats := bs, bufTable := bt\<rparr>) k = hand_dist (advanceClock s) k" for bs bt k
    by (simp add: hand_dist_def advanceClock_def)
  show ?case
  proof (cases "usable ?d \<and> (valid ?d \<longrightarrow> \<not> refbit ?d)")
    case True
    obtain i s' t' where "allocBuf3_loop (Suc n) s = Some (OK, Some i, s')" "victim_found s t OK (Some i) s' t'"
      by (rule victim_taken [OF Suc.prems wf(1)]) (use True in auto)
    then show ?thesis by blast
  next
    case False
    then have v: "valid ?d" by (auto simp: usable_def)
    show ?thesis
    proof (cases "refbit ?d")
      case rb: True
      show ?thesis
      proof (rule step [where bt = "(bufTable s)[?h := ?d\<lparr>refbit := False\<rparr>]"])
        show "same_table (bufTable s) ((bufTable s)[?h := ?d\<lparr>refbit := False\<rparr>])" by (rule same_table_refbit)
        show "allocBuf3_loop (Suc n) s = allocBuf3_loop n (s\<lparr>clockHand := Suc ?h mod numBufs s,
            bufStats := (bufStats s)\<lparr>accesses := accesses (bufStats s) + 1\<rparr>, bufTable := (bufTable s)[?h := ?d\<lparr>refbit := False\<rparr>]\<rparr>)"
          using v rb by (simp add: Let_def advanceClock_def upd_order)
        show "hand_pot s k = Suc (hand_pot (s\<lparr>clockHand := Suc ?h mod numBufs s, bufStats := bs,
            bufTable := (bufTable s)[?h := ?d\<lparr>refbit := False\<rparr>]\<rparr>) k)" if "k < numBufs s" for k bs
          using hand_dist_step [OF wf(1) that] v rb wf that by (cases "k = ?h") (auto simp: hand_pot_def dist)
      qed
    next
      case nrb: False
      then have pin: "pinCnt ?d \<noteq> 0" using False v by (auto simp: usable_def)
      have "desc_ok t ?d" using pool_ok_desc [OF Suc.prems(2), of ?h] wf(1) F by simp
      then have pin2: "0 < pinCnt ?d" using v pin by (simp add: desc_ok_def)
      show ?thesis
      proof (rule step [where bt = "bufTable s" and bs = "bufStats s"])
        show "same_table (bufTable s) (bufTable s)" by simp
        show "allocBuf3_loop (Suc n) s = allocBuf3_loop n (s\<lparr>clockHand := Suc ?h mod numBufs s, bufStats := bufStats s, bufTable := bufTable s\<rparr>)"
          using v nrb pin2 by (simp add: Let_def advanceClock_def)
        show "hand_pot s k = Suc (hand_pot (s\<lparr>clockHand := Suc ?h mod numBufs s, bufStats := bufStats s, bufTable := bufTable s\<rparr>) k)"
          if "k < numBufs s" "usable (bufTable s ! k)" for k
          using hand_dist_step [OF wf(1) that(1)] v pin that by (cases "k = ?h") (auto simp: hand_pot_def dist0 usable_def)
      qed
    qed
  qed
qed

lemma allocBuf3_spec:
  fixes s t :: "'z pool3_scheme"
  assumes tw: "twin s t" and ok: "pool_ok {} t" "coherent {} t"
  obtains st fr s' t' where "allocBuf3 s = Some (st, fr, s')" "victim_found s t st fr s' t'"
    "st = OK \<longleftrightarrow> (\<exists>k < numBufs s. usable (bufTable s ! k))"
proof -
  note F = twin_fields [OF tw]
  have wf: "clockHand s < numBufs s" using pool_okD [OF ok(1)] F by simp
  obtain st fr s' t' where L: "allocBuf3 s = Some (st, fr, s')" "victim_found s t st fr s' t'"
    "\<forall>k < numBufs s. usable (bufTable s ! k) \<and> hand_pot s k \<le> 2 * numBufs s \<longrightarrow> st = OK"
    using allocBuf3_loop_spec [OF assms, of "2 * numBufs s"] by (auto simp: allocBuf3_def)
  have "hand_pot s k \<le> 2 * numBufs s" if "k < numBufs s" for k
    using hand_dist_step [OF wf that] by (simp add: hand_pot_def)
  then have "st = OK" if "\<exists>k < numBufs s. usable (bufTable s ! k)" using L(3) that by blast
  moreover have "\<exists>k < numBufs s. usable (bufTable s ! k)" if "st = OK" using L(2) that by (auto simp: victim_found_def)
  ultimately show thesis using that [OF L(1,2)] by blast
qed

section \<open>Reading and unpinning\<close>

lemma target_frame:
  assumes ok: "pool_ok X t" and i: "i < numBufs t"
  shows "target (bufTable t) (int i) = Some i"
proof -
  have fn: "bd_frameNo (bufTable t ! j) = int j" "length (bufTable t) = numBufs t" if "j < numBufs t" for j
    using ok that by (simp_all add: pool_ok_def)
  have "takeWhile (\<lambda>d. bd_frameNo d \<noteq> int i) (bufTable t) = take i (bufTable t)"
    by (rule takeWhile_eq_take_P_nth) (use fn i in auto)
  then show ?thesis using fn(2) [OF i] i by (simp add: target_def Let_def)
qed

lemma printed_view [simp]:
  fixes s :: "'z pool3_scheme"
  shows "page_of3 (e_print st s) = page_of3 s" "pin_of3 (e_print st s) = pin_of3 s" "pool3_inv (e_print st s) \<longleftrightarrow> pool3_inv s"
proof -
  have d: "disk_page (e_print st s) = disk_page s"
    by (simp add: e_print_def fun_eq_iff disk_page_def file_pages_def file_name_def)
  show "page_of3 (e_print st s) = page_of3 s" "pin_of3 (e_print st s) = pin_of3 s"
    by (simp_all add: fun_eq_iff page_of3_def pin_of3_def d split: option.split) (simp_all add: e_print_def)
  have restore: "e_print st s\<lparr>printed := printed s\<rparr> = s" by (simp add: e_print_def)
  have p: "pool_ok {} (t\<lparr>printed := p\<rparr>) = pool_ok {} t \<and> coherent {} (t\<lparr>printed := p\<rparr>) = coherent {} t" for t :: "'z pool3_scheme" and p
    by (simp add: pool_ok_def coherent_def io_inv_def desc_ok_def desc_coherent_def disk_page_def file_pages_def file_name_def cong: conj_cong)
  show "pool3_inv (e_print st s) \<longleftrightarrow> pool3_inv s"
  proof
    assume "pool3_inv s"
    then obtain t where "twin s t" "pool_ok {} t" "coherent {} t" by (auto simp: pool3_inv_def)
    then show "pool3_inv (e_print st s)"
      unfolding pool3_inv_def e_print_def using p twin_printed [of s t "printed s @ [st]"] by blast
  next
    assume "pool3_inv (e_print st s)"
    then obtain t where "twin (e_print st s) t" "pool_ok {} t" "coherent {} t" by (auto simp: pool3_inv_def)
    then show "pool3_inv s"
      unfolding pool3_inv_def using p twin_printed [of "e_print st s" t "printed s"] restore by metis
  qed
qed

lemma pool3_invI: "twin s t \<Longrightarrow> pool_ok {} t \<Longrightarrow> coherent {} t \<Longrightarrow> pool3_inv s"
  by (auto simp: pool3_inv_def)

lemma pin_order: "d\<lparr>pinCnt := a, refbit := b\<rparr> = d\<lparr>refbit := b, pinCnt := a\<rparr>"
  by (cases d) simp

text \<open>A cached page is pinned once more.\<close>

lemma readPage3_hit:
  fixes s t :: "'z pool3_scheme"
  assumes tw: "twin s t" and ok: "pool_ok {} t" "coherent {} t" and at: "bht_map (hashTable t) (f, no) = Some i"
  obtains s' where "readPage3 s f no = Some (OK, Some (nat i), s')" "pool3_inv s'" "page_of3 s' = page_of3 s"
    "pin_of3 s' = (\<lambda>g q. if g = f \<and> q = no then pin_of3 s g q + 1 else pin_of3 s g q)"
    "tab_map BufHashTbl3_hash (hashTable s') (f, no) = Some i" "bufPool s' = bufPool s"
proof -
  note F = twin_fields [OF tw]
  have i: "0 \<le> i" "nat i < numBufs t" using pool_ok_map [OF ok(1)] at by auto
  let ?d = "bufTable s ! nat i"
  let ?bt = "(bufTable s)[nat i := ?d\<lparr>refbit := True, pinCnt := pinCnt ?d + 1\<rparr>]"
  obtain t' where H: "readPage t f no = Some (OK, Some (nat i), t')" "pool_ok {} t'" "coherent {} t'" "page_of t' = page_of t"
    "pin_of t' = (\<lambda>g q. if g = f \<and> q = no then pin_of t g q + 1 else pin_of t g q)"
    by (rule readPage_hit [OF ok at])
  have t': "t' = t\<lparr>bufTable := ?bt\<rparr>" using H(1) at F by (simp add: readPage_def lookup_pool Let_def)
  have tg: "target (bufTable s) i = Some (nat i)" using target_frame [OF ok(1) i(2)] i(1) F by simp
  have run: "readPage3 s f no = Some (OK, Some (nat i), s\<lparr>bufTable := ?bt\<rparr>)"
    using at tg by (simp add: readPage3_def twin_lookup [OF tw] lookup_bht_map Let_def pin_order)
  have tw': "twin (s\<lparr>bufTable := ?bt\<rparr>) t'" unfolding t' by (rule twin_upd [OF tw])
  have v: "page_of3 (s\<lparr>bufTable := ?bt\<rparr>) = page_of t'" "pin_of3 (s\<lparr>bufTable := ?bt\<rparr>) = pin_of t'" "page_of t = page_of3 s" "pin_of t = pin_of3 s"
    using twin_view [OF tw'] twin_view [OF tw] by simp_all
  have pins: "pin_of3 (s\<lparr>bufTable := ?bt\<rparr>) = (\<lambda>g q. if g = f \<and> q = no then pin_of3 s g q + 1 else pin_of3 s g q)"
    using v(2) H(5) unfolding v(4) by (rule trans)
  show thesis
    by (rule that [OF run pool3_invI [OF tw' H(2,3)] _ pins])
      (use v(1,3) H(4) twin_map [OF tw] at in simp_all)
qed

text \<open>An allocated frame is filled with the page.\<close>

lemma pool3_fill:
  fixes s t :: "'z pool3_scheme" and q :: page
  assumes tw: "twin s t" and ok: "pool_ok {} t" "coherent {} t" and h: "h < numBufs s" "\<not> valid (bufTable s ! h)"
    and new: "bht_map (hashTable t) (f, no) = None" and pg: "disk_page t f no = Some pg" and ins: "BufHashTbl3_insert (hashTable s) f no (int h) = (st, T)"
  defines "s' \<equiv> s\<lparr>bufPool := (bufPool s)[h := q], bufTable := (bufTable s)[h := BufDesc_Set (bufTable s ! h) f no], hashTable := T\<rparr>"
  shows "st = OK" "pool3_inv s'" "page_of3 s' = (\<lambda>g n. if g = f \<and> n = no then Some q else page_of3 s g n)"
    "pin_of3 s' = (\<lambda>g n. if g = f \<and> n = no then 1 else pin_of3 s g n)" "tab_map BufHashTbl3_hash (hashTable s') (f, no) = Some (int h)"
proof -
  note F = twin_fields [OF tw]
  have okh: "pool_ok {h} t" "coherent {h} t" "h < numBufs t"
    using ok h F by (auto simp: pool_ok_def in_frame_def coherent_def)
  obtain st2 T2 where ins2: "BufHashTbl_insert (hashTable t) f no (int h) = (st2, T2)" by (metis surj_pair)
  note P = pool_ok_fill_page [OF okh new pg ins2]
  let ?u = "\<lambda>s. s\<lparr>bufPool := (bufPool s)[h := q], bufTable := (bufTable s)[h := BufDesc_Set (bufTable s ! h) f no]\<rparr>"
  have tw1: "twin (?u s) (?u t)" using twin_upd(1) [OF twin_upd(2) [OF tw]] F by simp
  have st: "st = st2" using twin_insert(1) [OF tw, of f no "int h"] ins ins2 by simp
  have tw': "twin s' ((?u t)\<lparr>hashTable := T2\<rparr>)"
    using twin_insert(2) [OF tw1, of f no "int h"] ins ins2 by (simp add: s'_def)
  show "st = OK" using st P(1) by simp
  show "pool3_inv s'" by (rule pool3_invI [OF tw']) (use P(2,3) in simp_all)
  have e: "page_of3 s = page_of t" "pin_of3 s = pin_of t" using twin_view [OF tw] by simp_all
  show "page_of3 s' = (\<lambda>g n. if g = f \<and> n = no then Some q else page_of3 s g n)"
    "pin_of3 s' = (\<lambda>g n. if g = f \<and> n = no then 1 else pin_of3 s g n)"
    unfolding e using twin_view [OF tw'] P(4,5) by simp_all
  show "tab_map BufHashTbl3_hash (hashTable s') (f, no) = Some (int h)" using twin_map [OF tw'] P(6) by simp
qed

lemma pool3_stats [simp]:
  fixes s :: "'z pool3_scheme" and b :: BufStats
  shows "page_of3 (s\<lparr>bufStats := b\<rparr>) = page_of3 s" "pin_of3 (s\<lparr>bufStats := b\<rparr>) = pin_of3 s"
  by (simp_all add: fun_eq_iff page_of3_def pin_of3_def split: option.split)

text \<open>A page that is not cached: the clock, the read, the entry.\<close>

lemma readPage3_miss:
  fixes s t :: "'z pool3_scheme"
  assumes tw: "twin s t" and ok: "pool_ok {} t" "coherent {} t" and none: "bht_map (hashTable t) (f, no) = None"
    and op: "file_pages s f \<noteq> None" and us: "\<exists>k < numBufs s. usable (bufTable s ! k)"
  shows "\<exists>st fr s'. readPage3 s f no = Some (st, fr, s') \<and> pool3_inv s' \<and> page_of3 s' = page_of3 s \<and>
    (case page_of3 s f no of
       Some pg \<Rightarrow> st = OK \<and> (\<exists>i. fr = Some i \<and> bufPool s' ! i = pg \<and> tab_map BufHashTbl3_hash (hashTable s') (f, no) = Some (int i)) \<and>
         pin_of3 s' = (\<lambda>g q. if g = f \<and> q = no then pin_of3 s g q + 1 else pin_of3 s g q)
     | None \<Rightarrow> st = (if no < 1 then BADPAGENO else UNIXERR) \<and> fr = None \<and> pin_of3 s' = pin_of3 s)"
proof -
  note F = twin_fields [OF tw]
  obtain st fr s1 t1 where A: "allocBuf3 s = Some (st, fr, s1)" "victim_found s t st fr s1 t1" "st = OK"
    by (rule allocBuf3_spec [OF tw ok]) (use us in auto)
  obtain i where i: "fr = Some i" "i < numBufs s" "\<not> valid (bufTable s1 ! i)" using A(2,3) by (auto simp: victim_found_def)
  have V: "twin s1 t1" "pool_ok {} t1" "coherent {} t1" "page_of t1 = page_of t" "pin_of t1 = pin_of t" "disk_changes (cached t) t t1"
    "cached t1 \<subseteq> cached t" "numBufs t1 = numBufs t"
    using A(2) by (simp_all add: victim_found_def)
  note F1 = twin_fields [OF V(1)]
  let ?u = "\<lambda>x. x\<lparr>bufStats := (bufStats s1)\<lparr>diskreads := diskreads (bufStats s1) + 1\<rparr>\<rparr>"
  have none1: "bht_map (hashTable t1) (f, no) = None" using V(7) none by (auto simp: cached_def)
  have pg: "disk_page t1 f no = page_of3 s f no"
    using page_of_uncached [OF none1] V(4) twin_view [OF tw] by simp
  obtain ps where "file_pages t f = Some ps" using op F by auto
  then have "file_pages t1 f \<noteq> None" using V(6) unfolding disk_changes_def by fastforce
  then have rd: "File_readPage s1 f no = Some (case page_of3 s f no of Some pg \<Rightarrow> (OK, Some pg)
      | None \<Rightarrow> (if no < 1 then BADPAGENO else UNIXERR, None))"
    using readPage_disk [of s1 f no] pg F1 by simp
  have lk: "BufHashTbl3_lookup (hashTable s) f no (-1) = (HASHNOTFOUND, -1)" by (simp add: tab3_code twin_map [OF tw] none)
  have v1: "page_of3 s1 = page_of3 s" "pin_of3 s1 = pin_of3 s" using twin_view [OF V(1)] twin_view [OF tw] V(4,5) by simp_all
  have tu: "twin (?u s1) (?u t1)" by (rule twin_upd(3) [OF V(1)])
  show ?thesis
  proof (cases "page_of3 s f no")
    case None
    let ?st = "if no < 1 then BADPAGENO else UNIXERR"
    have "readPage3 s f no = Some (?st, None, e_print ?st (?u s1))"
      using None lk A(1,3) i(1) rd by (simp add: readPage3_def Let_def)
    moreover have "pool3_inv (?u s1)" by (rule pool3_invI [OF tu]) (use V(2,3) in simp_all)
    ultimately show ?thesis using None v1 by simp
  next
    case (Some pg')
    obtain st' T where ins: "BufHashTbl3_insert (hashTable (?u s1)) f no (int i) = (st', T)" by (metis surj_pair)
    have a: "pool_ok {} (?u t1)" "coherent {} (?u t1)" "i < numBufs (?u s1)" "\<not> valid (bufTable (?u s1) ! i)"
      "bht_map (hashTable (?u t1)) (f, no) = None" "disk_page (?u t1) f no = Some pg'"
      using V i none1 pg Some F F1 by simp_all
    note P = pool3_fill [OF tu a ins]
    let ?s' = "?u s1\<lparr>bufPool := (bufPool s1)[i := pg'], bufTable := (bufTable s1)[i := BufDesc_Set (bufTable s1 ! i) f no], hashTable := T\<rparr>"
    have tg: "target (bufTable s1) (int i) = Some i" using target_frame [OF V(2), of i] i(2) F F1 V(8) by simp
    have run: "readPage3 s f no = Some (OK, Some i, ?s')"
      using Some lk A(1,3) i(1) rd tg ins P(1) by (simp add: readPage3_def Let_def)
    have pin0: "pin_of3 s f no = 0" using none by (simp add: pin_of3_def twin_map [OF tw])
    have "i < length (bufPool s1)" using pool_okD [OF V(2)] i(2) F F1 V(8) by simp
    then show ?thesis
      using run P(2-5) v1 pin0 Some by (auto simp: fun_eq_iff)
  qed
qed

text \<open>
  C24: The buffer manager of stage 3 survives a read that fails. On a pool that satisfies the
  invariant readPage keeps the invariant and the contents of every page in every case. A page that
  exists is returned pinned once more when it is cached or some frame is usable, and otherwise the
  answer is BUFFEREXCEEDED; for a page that does not exist the answer is the error of the file and
  no pin changes. The victim was cleared before the read, so that no stranded frame is left behind,
  as stage 6 leaves one.
\<close>
theorem readPage3_keeps_pool:
  fixes s :: "'z pool3_scheme"
  assumes "pool3_inv s" "file_pages s f \<noteq> None"
  shows "\<exists>st fr s'. readPage3 s f no = Some (st, fr, s') \<and> pool3_inv s' \<and> page_of3 s' = page_of3 s \<and>
    (if tab_map BufHashTbl3_hash (hashTable s) (f, no) = None \<and> \<not> (\<exists>k < numBufs s. usable (bufTable s ! k))
     then st = BUFFEREXCEEDED \<and> fr = None \<and> pin_of3 s' = pin_of3 s
     else case page_of3 s f no of
       Some pg \<Rightarrow> st = OK \<and> (\<exists>i. fr = Some i \<and> bufPool s' ! i = pg \<and> tab_map BufHashTbl3_hash (hashTable s') (f, no) = Some (int i)) \<and>
         pin_of3 s' = (\<lambda>g q. if g = f \<and> q = no then pin_of3 s g q + 1 else pin_of3 s g q)
     | None \<Rightarrow> st = (if no < 1 then BADPAGENO else UNIXERR) \<and> fr = None \<and> pin_of3 s' = pin_of3 s)"
proof -
  obtain t where t: "twin s t" "pool_ok {} t" "coherent {} t" using assms(1) by (auto simp: pool3_inv_def)
  note m = twin_map [OF t(1)]
  show ?thesis
  proof (cases "bht_map (hashTable t) (f, no)")
    case (Some i)
    obtain s' where H: "readPage3 s f no = Some (OK, Some (nat i), s')" "pool3_inv s'" "page_of3 s' = page_of3 s"
      "pin_of3 s' = (\<lambda>g q. if g = f \<and> q = no then pin_of3 s g q + 1 else pin_of3 s g q)"
      "tab_map BufHashTbl3_hash (hashTable s') (f, no) = Some i" "bufPool s' = bufPool s"
      by (rule readPage3_hit [OF t Some])
    have "page_of3 s f no = Some (bufPool s ! nat i)" by (simp add: page_of3_def m Some)
    moreover have "0 \<le> i" using Some pool_ok_map [OF t(2)] by blast
    ultimately show ?thesis using H Some by (auto simp: m)
  next
    case None
    show ?thesis
    proof (cases "\<exists>k < numBufs s. usable (bufTable s ! k)")
      case True
      then show ?thesis using readPage3_miss [OF t None assms(2) True] by (simp only: m simp_thms if_False)
    next
      case False
      obtain st fr s1 t1 where A: "allocBuf3 s = Some (st, fr, s1)" "victim_found s t st fr s1 t1" "st \<noteq> OK"
        by (rule allocBuf3_spec [OF t]) (use False in auto)
      have V: "twin s1 t1" "pool_ok {} t1" "coherent {} t1" "page_of t1 = page_of t" "pin_of t1 = pin_of t" "st = BUFFEREXCEEDED"
        using A(2,3) by (simp_all add: victim_found_def)
      have "readPage3 s f no = Some (BUFFEREXCEEDED, None, e_print BUFFEREXCEEDED s1)"
        using None A(1) V(6) by (simp add: readPage3_def tab3_code m Let_def)
      moreover have "pool3_inv s1" by (rule pool3_invI [OF V(1-3)])
      ultimately show ?thesis
        using False None V(4,5) twin_view [OF V(1)] twin_view [OF t(1)] by (simp add: m)
    qed
  qed
qed

section \<open>flushFile, disposePage and unPinPage\<close>

lemma twin_flush_drop: "twin s t \<Longrightarrow> twin (flush_drop3 s f i) (flush_drop t f i)"
  using twin_upd(1) [OF twin_remove [of s t f "bd_pageNo (bufTable s ! i)"]]
  by (simp add: flush_drop3_def flush_drop_def twin_fields Let_def)

lemma twin_flush_loop:
  fixes s t :: "'z pool3_scheme"
  shows "twin s t \<Longrightarrow> twin_result (flushFile3_loop f is s) (flushFile_loop f is t)"
proof (induction "is" arbitrary: s t)
  case (Cons i "is")
  note F = twin_fields [OF Cons.prems]
  have next_ok: "twin_result (flushFile3_loop f is (flush_drop3 u f i)) (flushFile_loop f is (flush_drop v f i))" if "twin u v" for u v :: "'z pool3_scheme"
    by (rule Cons.IH [OF twin_flush_drop [OF that]])
  have "twin_result
      (do { (st, u) \<leftarrow> File_writePage s f (bd_pageNo (bufTable s ! i)) (bufPool s ! i);
            if st \<noteq> OK then Some (st, u) else flushFile3_loop f is (flush_drop3 u f i) })
      (do { (st, u) \<leftarrow> File_writePage t f (bd_pageNo (bufTable s ! i)) (bufPool s ! i);
            if st \<noteq> OK then Some (st, u) else flushFile_loop f is (flush_drop u f i) })"
    by (rule rel_option_bind [OF twin_writePage [OF Cons.prems]]) (auto simp: next_ok)
  then show ?case
    using Cons.prems next_ok [OF Cons.prems] Cons.IH [OF Cons.prems] by (auto simp: F Let_def)
qed simp

text \<open>The file operations leave the frames alone, so that they run alike on twins.\<close>

lemma twin_dispose_file:
  assumes "twin s t"
  shows "twin_result (File_disposePage s f no) (File_disposePage t f no)"
proof -
  have I: "File_intread t g q = File_intread s g q" for g q by (rule twin_intread [OF assms])
  have W: "twin_result (do { (st, s) \<leftarrow> File_intwrite s f no p; if st \<noteq> OK then Some (st, s) else File_intwrite s f 0 q })
      (do { (st, s) \<leftarrow> File_intwrite t f no p; if st \<noteq> OK then Some (st, s) else File_intwrite s f 0 q })" for p q
    by (rule rel_option_bind [OF twin_intwrite [OF assms]]) (auto intro!: twin_intwrite)
  show ?thesis
    using assms unfolding File_disposePage_def I
    by (cases "File_intread s f 0"; cases "File_intread s f no") (auto split: option.split simp: W Let_def)
qed

lemma twin_dispose:
  fixes s t :: "'z pool3_scheme"
  assumes tw: "twin s t"
  shows "twin_result (disposePage3 s f no) (disposePage t f no)"
proof -
  note F = twin_fields [OF tw]
  note rm = twin_remove [OF twin_upd(1) [OF tw], of _ f no, simplified] twin_remove [OF tw, of f no]
  show ?thesis
    unfolding disposePage3_def disposePage_def twin_lookup [OF tw]
    by (cases "BufHashTbl_lookup (hashTable t) f no 0") (auto simp: F Let_def intro!: twin_dispose_file rm)
qed

lemma twin_unpin:
  fixes s t :: "'z pool3_scheme"
  assumes tw: "twin s t" and pin: "pin_of3 s f no \<noteq> 0"
  shows "rel_prod (=) twin (unPinPage3 s f no dirt) (unPinPage t f no dirt)"
proof -
  note F = twin_fields [OF tw]
  obtain i where i: "bht_map (hashTable t) (f, no) = Some i" "pinCnt (bufTable s ! nat i) \<noteq> 0"
    using pin by (auto simp: pin_of3_def twin_map [OF tw] split: option.splits)
  have order: "(bufTable s ! nat i)\<lparr>dirty := True, pinCnt := c\<rparr> = (bufTable s ! nat i)\<lparr>pinCnt := c, dirty := True\<rparr>" for c
    by (cases "bufTable s ! nat i") simp
  show ?thesis
    using i by (auto simp: unPinPage3_def unPinPage_def twin_lookup [OF tw] lookup_bht_map F order Let_def intro!: twin_upd(1) [OF tw])
qed

text \<open>
  The operations of stage 3 refine those of stage 6: on a pool and its twin, which differ in
  the hash table only, flushFile and disposePage return the same status, or are both undefined, and
  leave twins again; so does unPinPage of a page that is pinned. Of a page that is cached but not
  pinned, stage 3 leaves the descriptor alone, while stage 6 marks it dirty.
\<close>
theorem stage3_refines_stage6:
  fixes s t :: "'z pool3_scheme"
  assumes "twin s t"
  shows "twin_result (flushFile3 s f) (flushFile t f) \<and> twin_result (disposePage3 s f no) (disposePage t f no) \<and>
    (if pin_of3 s f no \<noteq> 0 then rel_prod (=) twin (unPinPage3 s f no dirt) (unPinPage t f no dirt)
     else fst (unPinPage3 s f no dirt) = fst (unPinPage t f no dirt) \<and> bufTable (snd (unPinPage3 s f no dirt)) = bufTable s)"
proof -
  have "fst (unPinPage3 s f no dirt) = fst (unPinPage t f no dirt) \<and> bufTable (snd (unPinPage3 s f no dirt)) = bufTable s"
    if "pin_of3 s f no = 0"
    using that by (auto simp: unPinPage3_def unPinPage_def twin_lookup [OF assms] lookup_bht_map pin_of3_def
        twin_map [OF assms] twin_fields [OF assms] e_print_def Let_def split: option.splits)
  then show ?thesis
    using twin_flush_loop [OF assms, of f "[0..<numBufs s]"] twin_dispose [OF assms, of f no] twin_unpin [OF assms, of f no dirt]
    by (simp add: flushFile3_def flushFile_def twin_fields [OF assms])
qed

section \<open>A fresh pool\<close>

definition fresh_twin :: "io \<Rightarrow> nat \<Rightarrow> pool3" where
  "fresh_twin s n = (BufMgr3_new s n)\<lparr>hashTable := BufHashTbl_new (wrap32 (int (n * 6 div 5) * 2) div 2 + 1)\<rparr>"

lemma BufMgr3_new_files:
  "file_name (BufMgr3_new s n) = file_name s" "file_pages (BufMgr3_new s n) = file_pages s"
  "disk_page (BufMgr3_new s n) = disk_page s" "io_inv (BufMgr3_new s n) = io_inv s"
proof -
  have f: "files (BufMgr3_new s n) = files s" "fds (BufMgr3_new s n) = fds s" "disk (BufMgr3_new s n) = disk s"
    "next_fd (BufMgr3_new s n) = next_fd s" "next_ptr (BufMgr3_new s n) = next_ptr s"
    by (simp_all add: BufMgr3_new_def io.defs)
  then show a: "file_name (BufMgr3_new s n) = file_name s" by (simp add: file_name_def fun_eq_iff)
  then show b: "file_pages (BufMgr3_new s n) = file_pages s" using f by (simp add: file_pages_def fun_eq_iff)
  then show "disk_page (BufMgr3_new s n) = disk_page s" by (simp add: disk_page_def fun_eq_iff)
  show "io_inv (BufMgr3_new s n) = io_inv s" using a f by (simp add: io_inv_def)
qed

lemma BufMgr3_new_inv:
  assumes "io_inv s" "0 < n" "int (n * 6 div 5) < 1073741824"
  shows "twin (BufMgr3_new s n) (fresh_twin s n)" "pool3_inv (BufMgr3_new s n)" "page_of3 (BufMgr3_new s n) = disk_page s"
    "pin_of3 (BufMgr3_new s n) = (\<lambda>f no. 0)"
proof -
  let ?k = "int (n * 6 div 5) + 1"
  have k: "0 < ?k" "?k < 2147483648" "?k \<le> 1073741824" using assms(3) by simp_all
  note H = h3.new_table [OF k(1,2)]
  have tab: "hashTable (BufMgr3_new s n) = BufHashTbl3_new ?k" "hashTable (fresh_twin s n) = BufHashTbl_new ?k"
    using k(3) by (simp_all add: BufMgr3_new_def fresh_twin_def io.defs)
  have m: "tab_map BufHashTbl3_hash (hashTable (BufMgr3_new s n)) = Map.empty" "bht_map (hashTable (fresh_twin s n)) = Map.empty"
    "tab_inv BufHashTbl3_hash (hashTable (BufMgr3_new s n))" "bht_inv (hashTable (fresh_twin s n))"
    using H k by (simp_all add: tab BufHashTbl3_new_def bht_new_map bht_new_inv)
  show tw: "twin (BufMgr3_new s n) (fresh_twin s n)" using m by (simp add: twin_def) (simp add: fresh_twin_def)
  note F = twin_fields [OF tw]
  have d: "bufTable (BufMgr3_new s n) ! i = \<lparr>bd_file = 0, bd_pageNo = 0, bd_frameNo = int i, pinCnt = 0,
     dirty = False, valid = False, refbit = False\<rparr>" if "i < n" for i
    using that by (simp add: BufMgr3_new_def io.defs)
  have l: "length (bufTable (BufMgr3_new s n)) = n" "length (bufPool (BufMgr3_new s n)) = n" "numBufs (BufMgr3_new s n) = n"
    "clockHand (BufMgr3_new s n) < n"
    using assms by (simp_all add: BufMgr3_new_def io.defs)
  have "pool_ok {} (fresh_twin s n)"
    using assms m l d by (auto simp: pool_ok_def F BufMgr3_new_files in_frame_def desc_ok_def)
  moreover have "coherent {} (fresh_twin s n)" using l d by (simp add: coherent_def F desc_coherent_def)
  ultimately show "pool3_inv (BufMgr3_new s n)" by (rule pool3_invI [OF tw])
  show "page_of3 (BufMgr3_new s n) = disk_page s" "pin_of3 (BufMgr3_new s n) = (\<lambda>f no. 0)"
    by (simp_all add: page_of3_def pin_of3_def fun_eq_iff m BufMgr3_new_files)
qed

definition example_pool3 :: pool3 where
  "example_pool3 = BufMgr3_new example_io 2"

lemma example_pool3:
  "pool3_inv example_pool3" "file_pages example_pool3 4096 \<noteq> None" "page_of3 example_pool3 = disk_page example_io"
  "pin_of3 example_pool3 = (\<lambda>f no. 0)" "twin example_pool3 (fresh_twin example_io 2)" "numBufs example_pool3 = 2"
  "\<not> valid (bufTable example_pool3 ! 0)"
proof -
  note I = BufMgr3_new_inv [OF example_io_inv, of 2]
  show "pool3_inv example_pool3" "page_of3 example_pool3 = disk_page example_io" "pin_of3 example_pool3 = (\<lambda>f no. 0)"
    "twin example_pool3 (fresh_twin example_io 2)"
    using I by (simp_all add: example_pool3_def)
  show "file_pages example_pool3 4096 \<noteq> None" by (simp add: example_pool3_def BufMgr3_new_files example_file example_db)
  show "numBufs example_pool3 = 2" "\<not> valid (bufTable example_pool3 ! 0)" by (simp_all add: example_pool3_def BufMgr3_new_def io.defs)
qed

lemma readPage3_keeps_pool_witness:
  "\<exists>s'. readPage3 example_pool3 4096 99 = Some (UNIXERR, None, s') \<and> pool3_inv s' \<and> page_of3 s' = page_of3 example_pool3"
proof -
  have "usable (bufTable example_pool3 ! 0)" "0 < numBufs example_pool3" by (simp_all add: usable_def example_pool3)
  then have "\<exists>k < numBufs example_pool3. usable (bufTable example_pool3 ! k)" by blast
  then show ?thesis
    using readPage3_keeps_pool [OF example_pool3(1,2), of 99] by (auto simp: example_pool3(3) example_file)
qed

lemma stage3_refines_stage6_witness:
  "twin_result (flushFile3 example_pool3 4096) (flushFile (fresh_twin example_io 2) 4096)"
  using stage3_refines_stage6 [OF example_pool3(5), of 4096] by blast

end
