(* ===== verification/Heap4.thy ===== *)
theory Heap4
  imports HeapProps
begin

text \<open>
  Heap files of stage 4 (Stage4/heapfile.C). The classes and the layout of the file are those of
  stage 6; what differs is modelled here: the creation of a file, the constructor, getRecord, the
  scan, and insertRecord, which starts on the first page and adds a new page behind the page it
  stands on. The buffer manager underneath is that of stage 6 (Stage4/buf.C is the same code, over
  the hash table of BufHash3).
\<close>

section \<open>Creation and construction\<close>

text \<open>
  The name is copied without a check into the 50 bytes at the start of the header page, after the
  fields behind it have been set.
\<close>

definition set_hdr_fileName4 :: "page \<Rightarrow> string \<Rightarrow> page" where
  "set_hdr_fileName4 p name = wr_bytes p 0 (map of_char name @ [0])"

definition createHeapFile4 :: "'z db_scheme \<Rightarrow> string \<Rightarrow> (Status \<times> 'z db_scheme) option" where
  "createHeapFile4 s name = do {
     (st, _, s) \<leftarrow> DB_openFile s name;
     if st \<noteq> OK then do {
       let (st, s) = DB_createFile s name;
       if st \<noteq> OK then Some (st, s) else do {
       (st, file, s) \<leftarrow> DB_openFile s name;
       if st \<noteq> OK then Some (st, s) else do {
       file \<leftarrow> file;
       (st, hdrPageNo, hdrPage, s) \<leftarrow> allocPage s file;
       if st \<noteq> OK then Some (st, s) else do {
       hdrPageNo \<leftarrow> hdrPageNo; hdrPage \<leftarrow> hdrPage;
       (st, newPageNo, newPage, s) \<leftarrow> allocPage s file;
       if st \<noteq> OK then Some (st, s) else do {
       newPageNo \<leftarrow> newPageNo; newPage \<leftarrow> newPage;
       let s = bufUpdate s newPage (\<lambda>p. Page_init p newPageNo);
       let s = bufUpdate s hdrPage (\<lambda>p. set_hdr_lastPage (set_hdr_firstPage p newPageNo) newPageNo);
       let s = bufUpdate s hdrPage (\<lambda>p. set_hdr_recCnt (set_hdr_pageCnt p 1) 0);
       if int (length name) \<ge> PAGESIZE then None else do {
       let s = bufUpdate s hdrPage (\<lambda>p. set_hdr_fileName4 p name);
       let (st, s) = unPinPage s file hdrPageNo True;
       if st \<noteq> OK then Some (st, s) else do {
       let (st, s) = unPinPage s file newPageNo True;
       if st \<noteq> OK then Some (st, s) else do {
       (st, s) \<leftarrow> flushFile s file;
       if st \<noteq> OK then Some (st, s) else DB_closeFile s file }}}}}}}}
     else Some (FILEEXISTS, s)
   }"

lemma fileName4_keeps:
  assumes "length name < 52"
  shows "hdr_firstPage (set_hdr_fileName4 p name) = hdr_firstPage p" "hdr_lastPage (set_hdr_fileName4 p name) = hdr_lastPage p"
    "hdr_pageCnt (set_hdr_fileName4 p name) = hdr_pageCnt p" "hdr_recCnt (set_hdr_fileName4 p name) = hdr_recCnt p"
  using assms by (simp_all add: set_hdr_fileName4_def hdr_firstPage_def hdr_lastPage_def hdr_pageCnt_def hdr_recCnt_def mem_simps)

lemma fileName4_overwrites:
  assumes "length name = 52" "0 \<le> v" "v < 256"
  shows "hdr_firstPage (set_hdr_fileName4 (set_hdr_firstPage p v) name) = 0"
  using assms by (simp add: set_hdr_fileName4_def set_hdr_firstPage_def hdr_firstPage_def rd_int_def wr_int_def wr_bytes_def
      nth_append wrap32_def)

text \<open>
  The constructor returns at once when a step fails; the object is not usable then, and what has
  been pinned stays pinned.
\<close>

definition HeapFile4_new :: "'z db_scheme \<Rightarrow> string \<Rightarrow> (Status \<times> heapfile option \<times> 'z db_scheme) option" where
  "HeapFile4_new s name = do {
     (st, file, s) \<leftarrow> DB_openFile s name;
     if st = OK then do {
       file \<leftarrow> file;
       (st, hdrNo) \<leftarrow> File_getFirstPage s file;
       if st \<noteq> OK then Some (st, None, s) else do {
       hdrNo \<leftarrow> hdrNo;
       (st, fr, s) \<leftarrow> readPage s file hdrNo;
       if st \<noteq> OK then Some (st, None, s) else do {
       hdr \<leftarrow> fr;
       let no = hdr_firstPage (bufPool s ! hdr);
       (st, fr, s) \<leftarrow> readPage s file no;
       if st \<noteq> OK then Some (st, None, s) else do {
       i \<leftarrow> fr;
       Some (OK, Some \<lparr>filePtr = file, headerPage = hdr, headerPageNo = hdrNo, hdrDirtyFlag = False,
                       curPage = Frame i, cur_pageNo = no, curDirtyFlag = False, curRec = NULLRID\<rparr>, s) }}}}
     else Some (st, None, s)
   }"

text \<open>When the constructor of stage 4 reports no error, the one of stage 6 builds the same object.\<close>

lemma HeapFile4_new_agrees: "HeapFile4_new s name = Some (OK, Some h, s') \<Longrightarrow> HeapFile_new s name = Some (OK, Some h, s')"
  by (auto simp: HeapFile4_new_def HeapFile_new_def Let_def bind_eq_Some_conv split: if_splits prod.splits)

lemma HeapFile4_new_reports: "HeapFile4_new s name = Some (st, h, s') \<Longrightarrow> st = OK \<longleftrightarrow> h \<noteq> None"
  by (auto simp: HeapFile4_new_def Let_def bind_eq_Some_conv split: if_splits prod.splits)

definition HeapFileScan4_new :: "'z db_scheme \<Rightarrow> string \<Rightarrow> (Status \<times> filescan option \<times> 'z db_scheme) option" where
  "HeapFileScan4_new s name = do {
     (st, h, s) \<leftarrow> HeapFile4_new s name;
     Some (st, map_option (\<lambda>h. heapfile.extend h
       \<lparr>sc_offset = 0, sc_length = 0, sc_type = STRING, sc_filter = None, sc_op = LT,
        markedPageNo = 0, markedRec = NULLRID\<rparr>) h, s) }"

lemma HeapFileScan4_new_agrees:
  "HeapFileScan4_new s name = Some (OK, Some h, s') \<Longrightarrow> HeapFileScan_new s name = Some (OK, Some h, s')"
  by (auto simp: HeapFileScan4_new_def HeapFileScan_new_def bind_eq_Some_conv dest!: HeapFile4_new_agrees)

text \<open>The constructor of an InsertFileScan stays on the first page of the file.\<close>

definition InsertFileScan4_new :: "'z db_scheme \<Rightarrow> string \<Rightarrow> (Status \<times> heapfile option \<times> 'z db_scheme) option" where
  "InsertFileScan4_new s name = HeapFile4_new s name"

lemma HeapFile4_new_spec:
  assumes inv: "db_inv s" and name: "name \<noteq> []" "of_map (openFiles s) name = None" "disk s name = Some ps"
    and db: "db_file ps fl" and hf: "heap_file (disk_view ps) (db_firstPage (ps ! 0)) hdr xs"
    and U: "set xs \<subseteq> used_pages ps fl" and room: "card (pinned s) + 2 \<le> numBufs s"
  shows "HeapFile4_new s name = HeapFile_new s name"
proof -
  let ?f = "next_ptr s" and ?U = "layout_of ps fl"
  obtain s1 where O: "DB_openFile s name = Some (OK, Some ?f, s1)" "db_inv s1" "pool_used s1 ?f ?U" "lay_first ?U \<in> lay_used ?U"
    "page_of s1 ?f = disk_view ps" "pin_of s1 = pin_of s" "numBufs s1 = numBufs s"
    by (rule openFile_layout [OF inv name db hf]) (rule that)
  have a: "set xs \<subseteq> lay_used ?U" "heap_file (page_of s1 ?f) (lay_first ?U) hdr xs" "card (pinned s1) + 2 \<le> numBufs s1"
    using U hf O(5) room O(6,7) by simp_all
  obtain i s2 j s3 where "File_getFirstPage s1 ?f = Some (OK, Some (lay_first ?U))"
    "readPage s1 ?f (lay_first ?U) = Some (OK, Some i, s2)" "bufPool s2 ! i = hdr" "hdr_firstPage hdr = hd xs"
    "readPage s2 ?f (hd xs) = Some (OK, Some j, s3)"
    by (rule heap_open [OF O(2-4) a]) (rule that)
  then show ?thesis using O(1) by (simp add: HeapFile4_new_def HeapFile_new_def)
qed

lemma InsertFileScan4_new_first_page:
  assumes "db_inv s" "name \<noteq> []" "of_map (openFiles s) name = None" "disk s name = Some ps" "db_file ps fl"
    "heap_file (disk_view ps) (db_firstPage (ps ! 0)) hdr xs" "set xs \<subseteq> used_pages ps fl" "card (pinned s) + 2 \<le> numBufs s"
  obtains s' h where "InsertFileScan4_new s name = Some (OK, Some h, s')" "heap_at s' h (layout_of ps fl) (pin_of s) hdr xs (hd xs)"
proof -
  obtain s' h where "HeapFile_new s name = Some (OK, Some h, s')" "heap_at s' h (layout_of ps fl) (pin_of s) hdr xs (hd xs)"
    by (rule HeapFile_new_spec [OF assms]) (rule that)
  then show thesis using that HeapFile4_new_spec [OF assms] by (simp add: InsertFileScan4_new_def)
qed

text \<open>What readPage does to a page pointer: it is set when a frame has been found.\<close>

definition page_ptr :: "nat option \<Rightarrow> 'h heapfile_scheme \<Rightarrow> 'h heapfile_scheme" where
  "page_ptr fr h = (case fr of Some i \<Rightarrow> h\<lparr>curPage := Frame i\<rparr> | None \<Rightarrow> h)"

definition HeapFile4_getRecord ::
  "'z db_scheme \<Rightarrow> 'h heapfile_scheme \<Rightarrow> RID \<Rightarrow> (Status \<times> byte list option \<times> 'z db_scheme \<times> 'h heapfile_scheme) option" where
  "HeapFile4_getRecord s h rid = do {
     (st, s, h) \<leftarrow>
       (if cur_pageNo h = RID.pageNo rid then Some (OK, s, h)
        else do {
          (st, s) \<leftarrow> (case curPage h of
              Null \<Rightarrow> Some (OK, s)
            | Wild \<Rightarrow> None
            | Frame i \<Rightarrow> Some (unPinPage s (filePtr h) (cur_pageNo h) (curDirtyFlag h)));
          if st \<noteq> OK then Some (st, s, h) else do {
          (st, fr, s) \<leftarrow> readPage s (filePtr h) (RID.pageNo rid);
          let h = page_ptr fr h;
          if st \<noteq> OK then Some (st, s, h)
          else Some (OK, s, h\<lparr>cur_pageNo := RID.pageNo rid, curDirtyFlag := False\<rparr>) }});
     if st \<noteq> OK then Some (st, None, s, h) else do {
     i \<leftarrow> (case curPage h of Frame i \<Rightarrow> Some i | _ \<Rightarrow> None);
     let (st, rec) = Page_getRecord (bufPool s ! i) rid;
     if st \<noteq> OK then Some (st, rec, s, h) else Some (OK, rec, s, h\<lparr>curRec := rid\<rparr>) }}"

section \<open>The scan\<close>

text \<open>The inner loop of scanNext, which looks for the next page that has a record.\<close>

partial_function (option) scan_nextPage4 ::
  "'z db_scheme \<Rightarrow> 'h filescan_scheme \<Rightarrow> (Status \<times> 'z db_scheme \<times> 'h filescan_scheme) option" where
  "scan_nextPage4 s h =
     (case curPage h of Null \<Rightarrow> None | Wild \<Rightarrow> None
      | Frame i \<Rightarrow>
        let (st, nextPageNo) = Page_getNextPage (bufPool s ! i)
        in if st \<noteq> OK then Some (st, s, h)
           else if nextPageNo = -1 then Some (FILEEOF, s, h)
           else
             let (st, s) = unPinPage s (filePtr h) (cur_pageNo h) (curDirtyFlag h)
             in if st \<noteq> OK then Some (st, s, h)
                else Option.bind (readPage s (filePtr h) nextPageNo) (\<lambda>(st, fr, s).
                  let h = page_ptr fr (h\<lparr>curDirtyFlag := False, cur_pageNo := nextPageNo\<rparr>)
                  in if st \<noteq> OK then Some (st, s, h)
                     else case curPage h of Null \<Rightarrow> None | Wild \<Rightarrow> None
                     | Frame j \<Rightarrow>
                       let (st, rid) = Page_firstRecord (bufPool s ! j);
                           h = h\<lparr>curRec := (case rid of Some r \<Rightarrow> r | None \<Rightarrow> curRec h)\<rparr>
                       in if st = NORECORDS then scan_nextPage4 s h else Some (OK, s, h)))"

partial_function (option) scan_loop4 ::
  "'z db_scheme \<Rightarrow> 'h filescan_scheme \<Rightarrow> (Status \<times> RID option \<times> 'z db_scheme \<times> 'h filescan_scheme) option" where
  "scan_loop4 s h =
     (case curPage h of Null \<Rightarrow> None | Wild \<Rightarrow> None
      | Frame i \<Rightarrow>
        Option.bind
          (case Page_nextRecord (bufPool s ! i) (curRec h) of
             (OK, Some rid) \<Rightarrow> Some (OK, s, h\<lparr>curRec := rid\<rparr>)
           | _ \<Rightarrow> scan_nextPage4 s h)
          (\<lambda>(st, s, h).
             if st \<noteq> OK then Some (st, None, s, h)
             else case curPage h of Null \<Rightarrow> None | Wild \<Rightarrow> None
             | Frame j \<Rightarrow>
               (case Page_getRecord (bufPool s ! j) (curRec h) of
                  (OK, Some rec) \<Rightarrow>
                    if HeapFileScan_matchRec h rec then Some (OK, Some (curRec h), s, h) else scan_loop4 s h
                | (st, _) \<Rightarrow> Some (st, None, s, h))))"

text \<open>A first page without records ends the scan, and stays pinned.\<close>

definition HeapFileScan4_scanNext ::
  "'z db_scheme \<Rightarrow> 'h filescan_scheme \<Rightarrow> (Status \<times> RID option \<times> 'z db_scheme \<times> 'h filescan_scheme) option" where
  "HeapFileScan4_scanNext s h =
     (case curPage h of
        Wild \<Rightarrow> None
      | Frame i \<Rightarrow> scan_loop4 s h
      | Null \<Rightarrow>
        let h = h\<lparr>cur_pageNo := hdr_firstPage (bufPool s ! headerPage h)\<rparr>
        in if cur_pageNo h = -1 then Some (FILEEOF, None, s, h)
           else do {
             let h = h\<lparr>curDirtyFlag := False\<rparr>;
             (st, fr, s) \<leftarrow> readPage s (filePtr h) (cur_pageNo h);
             let h = page_ptr fr h;
             if st \<noteq> OK then Some (st, None, s, h)
             else case curPage h of Null \<Rightarrow> None | Wild \<Rightarrow> None
             | Frame i \<Rightarrow>
               (case Page_firstRecord (bufPool s ! i) of
                  (OK, Some rid) \<Rightarrow>
                    let h = h\<lparr>curRec := rid\<rparr>
                    in (case Page_getRecord (bufPool s ! i) rid of
                         (OK, Some rec) \<Rightarrow>
                           if HeapFileScan_matchRec h rec then Some (OK, Some rid, s, h) else scan_loop4 s h
                       | (st, _) \<Rightarrow> Some (st, None, s, h))
                | (st, _) \<Rightarrow> Some (if st = NORECORDS then FILEEOF else st, None, s, h)) })"

section \<open>insertRecord\<close>

text \<open>The part that is reached when the current page has no room. The new page is pinned twice.\<close>

definition insert4_newPage ::
  "'z db_scheme \<Rightarrow> heapfile \<Rightarrow> nat \<Rightarrow> byte list \<Rightarrow> (Status \<times> RID option \<times> 'z db_scheme \<times> heapfile) option" where
  "insert4_newPage s h cur rec = do {
     (st, no, fr, s) \<leftarrow> allocPage s (filePtr h);
     if st \<noteq> OK then Some (st, None, s, h) else do {
     newPageNo \<leftarrow> no; newPage \<leftarrow> fr;
     let s = bufUpdate s newPage (\<lambda>p. Page_init p newPageNo);
     let s = bufUpdate s (headerPage h) (\<lambda>p. set_hdr_lastPage p newPageNo);
     let s = bufUpdate s (headerPage h) (\<lambda>p. set_hdr_pageCnt p (hdr_pageCnt p + 1));
     let h = h\<lparr>hdrDirtyFlag := True\<rparr>;
     let s = bufUpdate s cur (\<lambda>p. snd (Page_setNextPage p newPageNo));
     let (st, s) = unPinPage s (filePtr h) (cur_pageNo h) (curDirtyFlag h);
     if st \<noteq> OK then Some (st, None, s, h) else do {
     let h = h\<lparr>curPage := Frame newPage, cur_pageNo := newPageNo\<rparr>;
     (st, fr, s) \<leftarrow> readPage s (filePtr h) (cur_pageNo h);
     let h = page_ptr fr h;
     if st \<noteq> OK then Some (st, None, s, h) else do {
     i \<leftarrow> (case curPage h of Frame i \<Rightarrow> Some i | _ \<Rightarrow> None);
     let (st, p, rid) = Page_insertRecord (bufPool s ! i) rec;
     let s = bufUpdate s i (\<lambda>_. p);
     if st \<noteq> OK then Some (st, None, s, h) else do {
     let s = bufUpdate s i (\<lambda>p. snd (Page_setNextPage p (-1)));
     let (st, s) = unPinPage s (filePtr h) (cur_pageNo h) (curDirtyFlag h);
     if st \<noteq> OK then Some (st, None, s, h) else Some (OK, rid, s, h) }}}}}"

definition InsertFileScan4_insertRecord ::
  "'z db_scheme \<Rightarrow> heapfile \<Rightarrow> byte list \<Rightarrow> (Status \<times> RID option \<times> 'z db_scheme \<times> heapfile) option" where
  "InsertFileScan4_insertRecord s h rec =
     (if int (length rec) > PAGESIZE - DPFIXED then Some (INVALIDRECLEN, None, s, h)
      else do {
        (st, s, h) \<leftarrow> (case curPage h of
            Null \<Rightarrow> do {
              let h = h\<lparr>cur_pageNo := hdr_lastPage (bufPool s ! headerPage h)\<rparr>;
              (st, fr, s) \<leftarrow> readPage s (filePtr h) (cur_pageNo h);
              let h = page_ptr fr h;
              if st \<noteq> OK then Some (st, s, h) else Some (OK, s, h\<lparr>curDirtyFlag := False\<rparr>) }
          | _ \<Rightarrow> Some (OK, s, h));
        if st \<noteq> OK then Some (st, None, s, h) else do {
        i \<leftarrow> (case curPage h of Frame i \<Rightarrow> Some i | _ \<Rightarrow> None);
        let (st, p, rid) = Page_insertRecord (bufPool s ! i) rec;
        let s = bufUpdate s i (\<lambda>_. p);
        (st, rid, s, h) \<leftarrow> (if st \<noteq> OK then insert4_newPage s h i rec else Some (OK, rid, s, h));
        if st \<noteq> OK then Some (st, None, s, h) else do {
        rid \<leftarrow> rid;
        let s = bufUpdate s (headerPage h) (\<lambda>p. set_hdr_recCnt p (hdr_recCnt p + 1));
        Some (OK, Some rid, s, h\<lparr>hdrDirtyFlag := True, curDirtyFlag := True, curRec := rid\<rparr>) }}})"

section \<open>The scan agrees with that of stage 6\<close>

lemma scan4_nextPage:
  assumes "scan_at s h U B x k ys"
  shows "scan_nextPage4 s h = scan_nextPage s h"
  using assms
proof (induction ys arbitrary: s h x k)
  case Nil
  obtain i p where p: "curPage h = Frame i" "bufPool s ! i = p" "page_chain (page_of s (filePtr h)) (nextPage p) []"
    by (rule scan_at_page [OF Nil]) (rule that)
  then show ?case
    by (subst scan_nextPage.simps, subst scan_nextPage4.simps) (simp add: Page_getNextPage_def)
next
  case (Cons y ys)
  let ?f = "filePtr h" and ?P = "page_of s (filePtr h)"
  obtain i p where p: "curPage h = Frame i" "bufPool s ! i = p" "page_chain ?P (nextPage p) (y # ys)"
    by (rule scan_at_page [OF Cons.prems]) (rule that)
  then have y: "nextPage p = y" and d: "data_page y (the (?P y))" by auto
  then have y1: "y \<noteq> -1" and inv: "page_inv (the (?P y))" by (auto simp: data_page_def)
  obtain s1 j s2 where B: "unPinPage s ?f x (curDirtyFlag h) = (OK, s1)" "readPage s1 ?f y = Some (OK, Some j, s2)"
    "\<And>h' k'. filePtr h' = ?f \<Longrightarrow> curPage h' = Frame j \<Longrightarrow> cur_pageNo h' = y \<Longrightarrow> slotNo (curRec h') = int k' - 1 \<Longrightarrow>
       scan_at s2 (h' :: 'b filescan_scheme) U B y k' ys \<and> scan_kept B s h s2 h'"
    "bufPool s2 ! j = the (?P y)"
    by (rule scan_swap [OF Cons.prems]) (rule that)
  have cx: "cur_pageNo h = x" and ck: "slotNo (curRec h) = int k - 1" using Cons.prems by (auto simp: scan_at_def)
  let ?h0 = "\<lambda>r. h\<lparr>cur_pageNo := y, curDirtyFlag := False, curPage := Frame j, curRec := r\<rparr>"
  have order: "h\<lparr>curDirtyFlag := False, cur_pageNo := y, curPage := Frame j, curRec := r\<rparr> = ?h0 r" for r
    by (cases h) simp
  have "scan_at s2 (?h0 (curRec h)) U B y k ys" by (rule conjunct1 [OF B(3)]) (simp_all add: ck)
  note IH = Cons.IH [OF this]
  show ?case
    using p(1,2) y y1 B(1,2,4) cx firstRecord_spec [OF inv] IH
    by (subst scan_nextPage.simps, subst scan_nextPage4.simps)
      (simp add: Page_getNextPage_def page_ptr_def order Let_def split: option.splits)
qed

lemma scan4_loop:
  assumes "scan_at s h U B x k ys"
  shows "scan_loop4 s h = scan_loop s h"
  using assms
proof (induction "length (scan_rest s (filePtr h) x k ys)" arbitrary: s h x k ys rule: less_induct)
  case less
  let ?f = "filePtr h" and ?P = "page_of s (filePtr h)"
  note at = less.prems
  obtain i p where p: "curPage h = Frame i" "bufPool s ! i = p" "?P x = Some p" "data_page x p"
    by (rule scan_at_page [OF at]) (rule that)
  have inv: "page_inv p" and no: "curPageNo p = x" using p(4) by (simp_all add: data_page_def)
  have ck: "slotNo (curRec h) = int k - 1" using at by (simp add: scan_at_def)
  note nr = nextRecord_spec [OF inv ck]
  note rest = scan_rest_next [of s ?f x k ys, unfolded p(3) option.sel]
  show ?case
  proof (cases "next_used (page_slots p) k")
    case (Some n)
    let ?r = "\<lparr>pageNo = x, slotNo = int n\<rparr>"
    have get: "Page_getRecord p ?r = (OK, Some (the (page_slots p ! n)))" by (rule getRecord_used [OF p(4) Some])
    have "scan_loop4 s (h\<lparr>curRec := ?r\<rparr>) = scan_loop s (h\<lparr>curRec := ?r\<rparr>)"
      by (rule less.hyps [where k = "Suc n" and ys = ys and x = x]) (use rest Some scan_at_rec [OF at, of ?r "Suc n"] in simp_all)
    then show ?thesis
      using p(1,2) nr Some no get by (subst scan_loop.simps, subst scan_loop4.simps) simp
  next
    case None
    from scan_nextPage_spec [OF at] obtain st s1 h1 x1 k1 ys1 where N: "scan_nextPage s h = Some (st, s1, h1)" "same_scan h h1"
      "scan_at s1 h1 U B x1 k1 ys1"
      "if chain_recs ?P ys = [] then st = FILEEOF
       else st = OK \<and> (\<exists>rec i. chain_recs ?P ys = (curRec h1, rec) # scan_rest s1 ?f x1 k1 ys1 \<and>
         curPage h1 = Frame i \<and> Page_getRecord (bufPool s1 ! i) (curRec h1) = (OK, Some rec))"
      by (metis (no_types, lifting))
    have N4: "scan_nextPage4 s h = Some (st, s1, h1)" using scan4_nextPage [OF at] N(1) by simp
    show ?thesis
    proof (cases "chain_recs ?P ys = []")
      case True
      then show ?thesis
        using p(1,2) nr None N(1,4) N4 by (subst scan_loop.simps, subst scan_loop4.simps) simp
    next
      case False
      then obtain rec j where R: "chain_recs ?P ys = (curRec h1, rec) # scan_rest s1 ?f x1 k1 ys1" "curPage h1 = Frame j"
        "Page_getRecord (bufPool s1 ! j) (curRec h1) = (OK, Some rec)" "st = OK"
        using N(4) by auto
      have "scan_loop4 s1 h1 = scan_loop s1 h1"
        by (rule less.hyps [OF _ N(3)]) (use rest None R(1) same_scanD(1) [OF N(2)] in simp)
      then show ?thesis
        using p(1,2) nr None N(1) N4 R by (subst scan_loop.simps, subst scan_loop4.simps) simp
    qed
  qed
qed

text \<open>
  C30: The scans of stage 4 and stage 6 on a heap file. From a current page, wherever the scan
  stands, scanNext of stage 4 returns the same status and record and leaves the same state as that
  of stage 6. After endScan, when there is no current page, both start again at the first page of the
  file: when it has a record they agree again; when it has none both answer FILEEOF, whatever the
  other pages hold, and stage 6 gives the page back, but stage 4 keeps it pinned.
\<close>
theorem scanNext4_agrees:
  assumes "heap_at s (h :: 'h filescan_scheme) U B hdr xs x" "slotNo (curRec h) = int k - 1"
  shows "(\<exists>res. HeapFileScan4_scanNext s h = Some res \<and> HeapFileScan_scanNext s h = Some res) \<and>
    (\<exists>s1 h1. HeapFileScan_endScan s h = Some (OK, s1, h1) \<and> curPage h1 = Null \<and>
      (if page_recs (hd xs) (the (page_of s (filePtr h) (hd xs))) \<noteq> []
       then \<exists>res. HeapFileScan4_scanNext s1 h1 = Some res \<and> HeapFileScan_scanNext s1 h1 = Some res
       else \<exists>s4 h4 s6 h6. HeapFileScan4_scanNext s1 h1 = Some (FILEEOF, None, s4, h4) \<and> pin_of s4 = hold (filePtr h) (hd xs) (pin_of s1) \<and>
         HeapFileScan_scanNext s1 h1 = Some (FILEEOF, None, s6, h6) \<and> pin_of s6 = pin_of s1))"
proof -
  let ?f = "filePtr h" and ?y = "hd xs" and ?h1 = "h\<lparr>curPage := Null, cur_pageNo := 0, curDirtyFlag := False\<rparr>"
  have total: "\<exists>res. scan_loop4 t g = Some res \<and> scan_loop t g = Some res" if "scan_at t g U C z n ys"
    for t :: "'a db_scheme" and g :: "'h filescan_scheme" and C z n ys
    using scan4_loop [OF that] scan_loop_spec [OF that] by auto
  obtain as ys where at: "scan_at s h U (hold ?f (headerPageNo h) B) x k ys"
    by (rule heap_at_scan [OF assms]) (rule that)
  obtain i where "curPage h = Frame i" using at by (auto simp: scan_at_def)
  then have now: "\<exists>res. HeapFileScan4_scanNext s h = Some res \<and> HeapFileScan_scanNext s h = Some res"
    using total [OF at] scanNext_loop [OF at] by (simp add: HeapFileScan4_scanNext_def)
  obtain s1 j s2 s3 where E: "HeapFileScan_endScan s h = Some (OK, s1, ?h1)" "hdr_firstPage (bufPool s1 ! headerPage h) = ?y"
    "data_page ?y (bufPool s2 ! j)" "bufPool s2 ! j = the (page_of s ?f ?y)" "readPage s1 ?f ?y = Some (OK, Some j, s2)"
    "\<And>r. heap_at s2 (h\<lparr>curPage := Frame j, cur_pageNo := ?y, curDirtyFlag := False, curRec := r\<rparr>) U B hdr xs ?y"
    "pin_of s2 = hold ?f ?y (pin_of s1)" "unPinPage s2 ?f ?y False = (OK, s3)" "pin_of s3 = pin_of s1"
    by (rule endScan_restart [OF assms(1)]) (rule that)
  let ?p = "bufPool s2 ! j"
  have inv: "page_inv ?p" "curPageNo ?p = ?y" "?y \<noteq> -1" using E(3) by (auto simp: data_page_def)
  note fr = firstRecord_spec [OF inv(1)]
  show ?thesis
  proof (cases "next_used (page_slots ?p) 0")
    case None
    then have "page_recs ?y ?p = []" by (simp add: page_recs_next [of _ _ 0])
    moreover have "HeapFileScan4_scanNext s1 ?h1 =
        Some (FILEEOF, None, s2, ?h1\<lparr>cur_pageNo := ?y, curDirtyFlag := False, curPage := Frame j\<rparr>)"
      using E(2,5) inv fr None by (simp add: HeapFileScan4_scanNext_def page_ptr_def)
    moreover have "HeapFileScan_scanNext s1 ?h1 = Some (FILEEOF, None, s3, ?h1\<lparr>curRec := NULLRID, cur_pageNo := -1, curPage := Null\<rparr>)"
      using E(2,5,8) inv fr None by (simp add: HeapFileScan_scanNext_def)
    ultimately show ?thesis using now E(1,4,7,9) by (intro conjI now exI [of _ s1] exI [of _ ?h1]) simp_all
  next
    case (Some n)
    let ?r = "\<lparr>pageNo = ?y, slotNo = int n\<rparr>"
    let ?h2 = "h\<lparr>curPage := Frame j, cur_pageNo := ?y, curDirtyFlag := False, curRec := ?r\<rparr>"
    have get: "Page_getRecord ?p ?r = (OK, Some (the (page_slots ?p ! n)))" by (rule getRecord_used [OF E(3) Some])
    have "page_recs ?y ?p \<noteq> []" using Some by (simp add: page_recs_next [of _ _ 0])
    moreover obtain zs where "scan_at s2 ?h2 U (hold ?f (headerPageNo h) B) ?y (Suc n) zs"
      using heap_at_scan [OF E(6) [of ?r], of "Suc n"] by auto
    from total [OF this] have "\<exists>res. HeapFileScan4_scanNext s1 ?h1 = Some res \<and> HeapFileScan_scanNext s1 ?h1 = Some res"
      using E(2,5) inv fr Some get
      by (cases h) (auto simp: HeapFileScan4_scanNext_def HeapFileScan_scanNext_def page_ptr_def Let_def)
    ultimately show ?thesis using now E(1,4) by (intro conjI now exI [of _ s1] exI [of _ ?h1]) simp_all
  qed
qed

text \<open>So does getRecord.\<close>

lemma getRecord4_agrees:
  assumes h: "heap_at s h U B hdr xs x" and r: "(rid, r) \<in> set (chain_recs (page_of s (filePtr h)) xs)"
  shows "HeapFile4_getRecord s h rid = HeapFile_getRecord s h rid"
proof -
  let ?f = "filePtr h"
  note H = heap_atD [OF h]
  obtain i where i: "curPage h = Frame i" "pool_frame s ?f x = Some i" using H(11) by blast
  have y: "pageNo rid \<in> set xs" using r by (simp add: chain_recs_mem)
  obtain s1 j s2 where S: "unPinPage s ?f x (curDirtyFlag h) = (OK, s1)" "readPage s1 ?f (pageNo rid) = Some (OK, Some j, s2)"
    by (rule heap_goto [OF h y]) (rule that)
  obtain s' h' where G: "HeapFile_getRecord s h rid = Some (OK, Some r, s', h')"
    using HeapFile_getRecord_spec [OF h r] by blast
  show ?thesis
    using G i(1) H(10) S by (auto simp: HeapFile4_getRecord_def HeapFile_getRecord_def page_ptr_def split: prod.splits if_splits)
qed

section \<open>insertRecord cuts the file off behind the current page\<close>

text \<open>The chain up to a page x that gets a new successor n, which is the last page.\<close>

lemma page_chain_cut:
  assumes "page_chain P no (as @ x # bs)" "distinct (as @ x # bs)" "data_page x q" "nextPage q = n" "P' x = Some q"
    "\<And>y. y \<in> set as \<Longrightarrow> P' y = P y" "P' n = Some r" "data_page n r" "nextPage r = -1"
  shows "page_chain P' no (as @ [x, n])"
  using assms by (induction as arbitrary: no) auto

lemma chain_recs_cut:
  assumes "\<And>y. y \<in> set as \<Longrightarrow> P' y = P y" "P x = Some p" "P' x = Some q" "page_recs x q = page_recs x p" "P' n = Some r"
  shows "chain_recs P' (as @ [x, n]) = chain_recs P (as @ [x]) @ page_recs n r"
proof -
  have "chain_recs P' as = chain_recs P as" using assms(1) by (auto simp: chain_recs_def intro: arg_cong [of _ _ concat])
  then show ?thesis using assms(2-5) by simp
qed

text \<open>The new page, linked behind the current one.\<close>

lemma insert4_grow:
  assumes h: "heap_at s h U B hdr xs x" and i: "curPage h = Frame i" and p: "page_of s (filePtr h) x = Some p"
    and d: "curDirtyFlag h" and r: "r \<noteq> []" "length r \<le> 1000" and fr: "file_room s (filePtr h)" "pool_room s"
  obtains no s' j q hdr' where "insert4_newPage s h i r = Some (OK, Some \<lparr>pageNo = no, slotNo = 0\<rparr>, s',
       h\<lparr>hdrDirtyFlag := True, curPage := Frame j, cur_pageNo := no\<rparr>)"
    "no \<notin> lay_used U" "wrap32 no = no" "db_inv s'" "pool_frame s' (filePtr h) (headerPageNo h) = Some (headerPage h)"
    "0 < pin_of s' (filePtr h) (headerPageNo h)" "pin_of s' = hold (filePtr h) no (hold (filePtr h) (headerPageNo h) B)"
    "page_of s' = (\<lambda>a b. if a = filePtr h \<and> b = no then Some q else if a = filePtr h \<and> b = headerPageNo h then Some hdr'
       else if a = filePtr h \<and> b = x then Some (snd (Page_setNextPage p no)) else page_of s a b)"
    "data_page no q" "nextPage q = -1" "page_recs no q = [(\<lparr>pageNo = no, slotNo = 0\<rparr>, r)]"
    "hdr_lastPage hdr' = no" "hdr_firstPage hdr' = hdr_firstPage hdr" "hdr_pageCnt hdr' = wrap32 (hdr_pageCnt hdr + 1)"
    "hdr_recCnt hdr' = hdr_recCnt hdr"
proof -
  let ?f = "filePtr h" and ?hno = "headerPageNo h"
  note H = heap_atD [OF h]
  have hf: "page_of s ?f ?hno = Some hdr" using H(5) by (simp add: heap_file_def)
  have fi: "pool_frame s ?f x = Some i" using H(11) i by auto
  have Une: "lay_used U \<noteq> {}" using H(3) by auto
  obtain no n j s0 where A: "allocPage s ?f = Some (OK, Some no, Some j, s0)" "db_inv s0" "pool_used s0 ?f (grown no n U)"
    "no \<notin> lay_used U" "1 \<le> no" "wrap32 no = no" "pool_frame s0 ?f no = Some j"
    "\<And>g q. (g, q) \<noteq> (?f, no) \<Longrightarrow> page_of s0 g q = page_of s g q"
    "pin_of s0 = hold ?f no (pin_of s)" "pinned_kept pin_of pool_frame settled s s0" "pool_rest s0 = pool_rest s"
    by (rule allocPage_db [OF H(1,2) Une fr]) (rule that)
  have no: "no \<noteq> ?hno" "no \<noteq> x" using A(4) H(3,4,9) by auto
  note hx = H(14)
  have kept: "pool_frame s0 ?f x = Some i" "pool_frame s0 ?f ?hno = Some (headerPage h)"
    using A(10) H(6,7,12) fi by (auto simp: pinned_kept_def)
  have po0: "pool_ok {} s0" using A(2) by (simp add: db_inv_def)
  have bound: "k < length (bufPool s0)" if "pool_frame s0 ?f q = Some k" for k q
    using pool_ok_map [OF po0, of ?f q "int k"] pool_frame_Some [OF po0, of ?f q k] pool_okD [OF po0] that by simp
  let ?new = "\<lambda>p. Page_init p no"
  let ?hdr = "\<lambda>p. set_hdr_pageCnt (set_hdr_lastPage p no) (hdr_pageCnt (set_hdr_lastPage p no) + 1)"
  let ?next = "\<lambda>p. snd (Page_setNextPage p no)"
  let ?s2 = "bufUpdate s0 j ?new" let ?s4 = "bufUpdate ?s2 (headerPage h) ?hdr" let ?s5 = "bufUpdate ?s4 i ?next"
  have len: "length (bufPool (bufUpdate t k g)) = length (bufPool t)" for t :: "'a db_scheme" and k g
    by (simp add: bufUpdate_def pool_write_def)
  have nn0: "\<And>g q. 0 \<le> pin_of s g q" by (rule pool.pins_nonneg [OF H(1)])
  have pos0: "0 < pin_of s g q \<Longrightarrow> 0 < pin_of s0 g q" for g q unfolding A(9) by (rule hold_pos)
  have pj: "0 < pin_of s0 ?f no" using nn0 [of ?f no] by (simp add: A(9))
  obtain p0 where p0: "page_of s0 ?f no = Some p0" using pool.view_frame [OF A(2,7)] by blast
  note B = bufUpdate_spec [where g = ?new, OF A(2,7) pj p0]
  have q2: "pool_frame ?s2 ?f ?hno = Some (headerPage h)" "0 < pin_of ?s2 ?f ?hno" "page_of ?s2 ?f ?hno = Some hdr"
    using B(2-4) kept A(8) pos0 [OF H(7)] no(1) hf by auto
  note C = bufUpdate_spec [where g = ?hdr, OF B(1) q2]
  have q4: "pool_frame ?s4 ?f x = Some i" "0 < pin_of ?s4 ?f x" "page_of ?s4 ?f x = Some p"
    using C(2-4) B(2-4) kept A(8) pos0 [OF H(12)] no(2) hx p by auto
  note D = bufUpdate_spec [where g = ?next, OF C(1) q4]
  have fr5: "pool_frame ?s5 = pool_frame s0" and rest5: "pool_rest ?s5 = pool_rest s"
    using B(2,10) C(2,10) D(2,10) A(11) by simp_all
  let ?B = "hold ?f no (hold ?f ?hno B)"
  have pins5: "pin_of ?s5 = hold ?f x ?B" unfolding D(3) C(3) B(3) A(9) H(16) by (rule hold_swap)
  have nnB: "\<And>g q. 0 \<le> hold ?f ?hno B g q" by (intro hold_nonneg H(17))
  have nn: "\<And>g q. 0 \<le> ?B g q" by (intro hold_nonneg H(17))
  have used5: "pool_used ?s5 ?f (grown no n U)" using D(6) C(6) B(6) A(3) by blast
  obtain s6 where E: "unPinPage ?s5 ?f x True = (OK, s6)" "db_inv s6" "page_of s6 = page_of ?s5" "pool_frame s6 = pool_frame ?s5"
    "pool_rest s6 = pool_rest ?s5" "pin_of s6 = ?B" "\<And>g q. settled ?s5 g q \<or> True \<and> g = ?f \<and> q = x \<Longrightarrow> settled s6 g q"
    "\<And>g U. pool_used ?s5 g U \<Longrightarrow> pool_used s6 g U"
    by (rule pool.release_page [OF D(1) pins5 nn, of True]) (simp, rule that)
  have P6: "page_of s6 = (\<lambda>a b. if a = ?f \<and> b = x then Some (?next p) else if a = ?f \<and> b = ?hno then Some (?hdr hdr)
      else if a = ?f \<and> b = no then Some (?new p0) else page_of s a b)"
    unfolding E(3) D(4) C(4) B(4) using A(8) by (auto simp: fun_eq_iff)
  have pn: "page_of s6 ?f no = Some (?new p0)" "0 < pin_of s6 ?f no" using P6 no nnB [of ?f no] by (simp_all add: E(6))
  obtain k s7 where R: "readPage s6 ?f no = Some (OK, Some k, s7)" "db_inv s7" "page_of s7 = page_of s6" "pool_frame s7 ?f no = Some k"
    "pin_of s7 = hold ?f no (pin_of s6)" "pinned_kept pin_of pool_frame settled s6 s7"
    using pool.read_page [OF E(2) pn(1) disjI2 [OF pn(2)]] by blast
  have k: "k = j" using R(4,6) pn(2) E(4) fr5 A(7) by (auto simp: pinned_kept_def)
  have fh7: "pool_frame s7 ?f ?hno = Some (headerPage h)"
    using R(6) E(4) fr5 kept(2) hold_pos [of "hold ?f ?hno B" ?f ?hno ?f no] nnB H(17) [of ?f ?hno] by (auto simp: pinned_kept_def E(6))
  have pos7: "0 < pin_of s7 ?f no" unfolding R(5) E(6) using nnB [of ?f no] by simp
  have inv: "page_inv (?new p0)" "page_slots (?new p0) = []" "freeSpace (?new p0) = 1004" "nextPage (?new p0) = -1" "curPageNo (?new p0) = no"
    using page_init_inv [of p0 no] A(6) by (simp_all add: page_init_fields)
  obtain q where q: "Page_insertRecord (?new p0) r = (OK, q, Some \<lparr>pageNo = no, slotNo = 0\<rparr>)" "page_inv q" "page_slots q = [Some r]"
    "nextPage q = -1" "curPageNo q = no"
    using insertRecord_sound [OF inv(1), of r] r(2) inv by (auto simp: first_empty_def put_slot_def)
  have b7: "bufPool s7 ! j = ?new p0" using pool.view_frame [OF R(2,4)] R(3) pn(1) k by simp
  let ?q = "snd (Page_setNextPage q (-1))"
  note S = setNextPage_data [OF q(2), of "-1"]
  have n1: "num_slots q = 1" using length_page_slots [of q] q(3) by simp
  have dq: "data_page no ?q" "nextPage ?q = -1" "page_recs no ?q = [(\<lparr>pageNo = no, slotNo = 0\<rparr>, r)]"
    using S q(2-5) r(1) A(5) n1 by (simp_all add: data_page_def page_recs_from_def used_from_def wrap32_def)
  have pg7: "page_of s7 ?f no = Some (?new p0)" using R(3) pn(1) by simp
  note W = bufUpdate_spec [where g = "\<lambda>_. ?q", OF R(2) R(4)[unfolded k] pos7 pg7]
  let ?s8 = "bufUpdate s7 j (\<lambda>_. ?q)"
  have pins8: "pin_of ?s8 = hold ?f no ?B" unfolding W(3) R(5) E(6) ..
  obtain s9 where Z: "unPinPage ?s8 ?f no True = (OK, s9)" "db_inv s9" "page_of s9 = page_of ?s8" "pool_frame s9 = pool_frame ?s8"
    "pin_of s9 = ?B"
    by (rule pool.release_page [OF W(1) pins8 nn, of True]) (simp, rule that)
  have b0: "j < length (bufPool s0)" "headerPage h < length (bufPool s0)" using bound A(7) kept(2) by blast+
  have po7: "pool_ok {} s7" using R(2) by (simp add: db_inv_def)
  have b7': "j < length (bufPool s7)"
    using pool_ok_map [OF po7, of ?f no "int j"] pool_frame_Some [OF po7, of ?f no j] pool_okD [OF po7] R(4) k by simp
  have run: "insert4_newPage s h i r = Some (OK, Some \<lparr>pageNo = no, slotNo = 0\<rparr>, s9,
       h\<lparr>hdrDirtyFlag := True, curPage := Frame j, cur_pageNo := no\<rparr>)"
    using A(1) E(1) R(1) k b7 q(1) Z(1) d H(10) b0 b7'
    by (simp add: insert4_newPage_def bufUpdate_twice len page_ptr_def)
  have P9: "page_of s9 = (\<lambda>a b. if a = ?f \<and> b = no then Some ?q else if a = ?f \<and> b = ?hno then Some (?hdr hdr)
      else if a = ?f \<and> b = x then Some (?next p) else page_of s a b)"
    unfolding Z(3) W(4) R(3) P6 using no hx by (auto simp: fun_eq_iff)
  have fh: "pool_frame s9 ?f ?hno = Some (headerPage h)" using Z(4) W(2) fh7 by simp
  have ph: "0 < pin_of s9 ?f ?hno" unfolding Z(5) by (rule hold_pos) (use H(17) [of ?f ?hno] in simp)
  show thesis
    by (rule that [OF run A(4,6) Z(2) fh ph Z(5) P9 dq]) (use A(6) in \<open>simp_all add: hdr_fields\<close>)
qed

text \<open>The whole call, when the record fits and when it does not.\<close>

lemma insert4_fits:
  assumes h: "heap_at s h U B hdr xs x" and p: "page_of s (filePtr h) x = Some p" and r: "r \<noteq> []"
    and fits: "int (length r) + 4 \<le> freeSpace p"
  obtains s' hdr' rid h' where "InsertFileScan4_insertRecord s h r = Some (OK, Some rid, s', h')"
    "h' = h\<lparr>curDirtyFlag := True, hdrDirtyFlag := True, curRec := rid\<rparr>" "heap_at s' h' U B hdr' xs x"
    "mset (chain_recs (page_of s' (filePtr h)) xs) = add_mset (rid, r) (mset (chain_recs (page_of s (filePtr h)) xs))"
    "\<And>g q. g \<noteq> filePtr h \<or> q \<notin> insert (headerPageNo h) (set xs) \<Longrightarrow> page_of s' g q = page_of s g q" "numBufs s' = numBufs s"
proof -
  note H = heap_atD [OF h]
  obtain i where i: "curPage h = Frame i" "pool_frame s (filePtr h) x = Some i" using H(11) by blast
  obtain s' hdr' rid P' where I: "InsertFileScan_insertRecord s h r = Some (OK, Some rid, s', h\<lparr>curDirtyFlag := True, hdrDirtyFlag := True\<rparr>)"
    "heap_at s' (h\<lparr>curDirtyFlag := True, hdrDirtyFlag := True\<rparr>) U B hdr' xs x" "P' = page_of s' (filePtr h)"
    "mset (chain_recs P' xs) = add_mset (rid, r) (mset (chain_recs (page_of s (filePtr h)) xs))"
    "\<And>g q. g \<noteq> filePtr h \<or> q \<notin> insert (headerPageNo h) (set xs) \<Longrightarrow> page_of s' g q = page_of s g q" "numBufs s' = numBufs s"
    by (rule insert_fits [OF h p r fits]) (rule that)
  obtain as bs p' where dp: "page_inv p" using heap_fileD [OF H(5,9)] p by (metis data_page_def option.inject)
  have small: "int (length r) \<le> PAGESIZE - DPFIXED"
    using fits page_layout_bounds(3) [of p] dp by (simp add: page_inv_def PAGESIZE_def DPFIXED_def)
  obtain q where q: "Page_insertRecord p r = (OK, q, Some \<lparr>pageNo = curPageNo p, slotNo = int (first_empty (page_slots p))\<rparr>)"
    using insertRecord_sound [OF dp, of r] fits by auto
  have bp: "bufPool s ! i = p" using pool.view_frame [OF H(1) i(2)] p by simp
  let ?h = "h\<lparr>curDirtyFlag := True, hdrDirtyFlag := True, curRec := rid\<rparr>"
  have "h\<lparr>hdrDirtyFlag := True, curDirtyFlag := True, curRec := rid\<rparr> = ?h" by (cases h) simp
  then have run: "InsertFileScan4_insertRecord s h r = Some (OK, Some rid, s', ?h)"
    using I(1) small i(1) bp q by (simp add: InsertFileScan_insertRecord_def InsertFileScan4_insertRecord_def)
  have "heap_at s' ?h U B hdr' xs x" using I(2) by (simp only: heap_at_curRec)
  then show thesis using that [OF run refl] I(3-6) by simp
qed

text \<open>
  C31: When the current page of stage 4's insertRecord has no room, the record goes to a new page
  that becomes the successor of the current page and the last page of the file. The chain of the
  file then consists of the pages up to the current one and the new page: the records of all pages
  bs that came behind the current page can no longer be reached, although the page and record
  counts only go up. On the last page (bs empty) this is a proper insertion.
\<close>
theorem insertRecord4_cuts_chain:
  assumes h: "heap_at s h U B hdr (as @ x # bs) x" and d: "curDirtyFlag h" and p: "page_of s (filePtr h) x = Some p"
    and r: "r \<noteq> []" "length r \<le> 1000" and full: "freeSpace p < int (length r) + 4" and fr: "file_room s (filePtr h)" "pool_room s"
  shows "\<exists>no s' h' hdr'. InsertFileScan4_insertRecord s h r = Some (OK, Some \<lparr>pageNo = no, slotNo = 0\<rparr>, s', h') \<and>
    no \<notin> set (as @ x # bs) \<and> page_of s' (filePtr h) (headerPageNo h) = Some hdr' \<and>
    page_chain (page_of s' (filePtr h)) (hdr_firstPage hdr') (as @ [x, no]) \<and>
    chain_recs (page_of s' (filePtr h)) (as @ [x, no]) =
      chain_recs (page_of s (filePtr h)) (as @ [x]) @ [(\<lparr>pageNo = no, slotNo = 0\<rparr>, r)] \<and>
    hdr_lastPage hdr' = no \<and> hdr_pageCnt hdr' = wrap32 (hdr_pageCnt hdr + 1) \<and> hdr_recCnt hdr' = wrap32 (hdr_recCnt hdr + 1) \<and>
    (\<forall>g q. g \<noteq> filePtr h \<or> q \<in> set bs \<longrightarrow> page_of s' g q = page_of s g q)"
proof -
  let ?f = "filePtr h" and ?hno = "headerPageNo h" and ?xs = "as @ x # bs"
  note H = heap_atD [OF h]
  obtain i where i: "curPage h = Frame i" "pool_frame s ?f x = Some i" using H(11) by blast
  have dp: "data_page x p" using heap_fileD [OF H(5,9)] p by (metis option.inject)
  then have inv: "page_inv p" by (simp add: data_page_def)
  have bp: "bufPool s ! i = p" using pool.view_frame [OF H(1) i(2)] p by simp
  have no_fit: "Page_insertRecord p r = (NOSPACE, p, None)" using insertRecord_sound [OF inv, of r] full by simp
  obtain no s1 j q hdr1 where G: "insert4_newPage s h i r = Some (OK, Some \<lparr>pageNo = no, slotNo = 0\<rparr>, s1,
       h\<lparr>hdrDirtyFlag := True, curPage := Frame j, cur_pageNo := no\<rparr>)"
    "no \<notin> lay_used U" "wrap32 no = no" "db_inv s1" "pool_frame s1 ?f ?hno = Some (headerPage h)" "0 < pin_of s1 ?f ?hno"
    "page_of s1 = (\<lambda>a b. if a = ?f \<and> b = no then Some q else if a = ?f \<and> b = ?hno then Some hdr1
       else if a = ?f \<and> b = x then Some (snd (Page_setNextPage p no)) else page_of s a b)"
    "data_page no q" "nextPage q = -1" "page_recs no q = [(\<lparr>pageNo = no, slotNo = 0\<rparr>, r)]"
    "hdr_lastPage hdr1 = no" "hdr_firstPage hdr1 = hdr_firstPage hdr" "hdr_pageCnt hdr1 = wrap32 (hdr_pageCnt hdr + 1)"
    "hdr_recCnt hdr1 = hdr_recCnt hdr"
    by (rule insert4_grow [OF h i(1) p d r fr]) (rule that)
  have nx: "no \<notin> set ?xs" "no \<noteq> ?hno" using G(2) H(3,4) by auto
  have ph: "page_of s1 ?f ?hno = Some hdr1" using G(7) nx(2) by simp
  note W = bufUpdate_spec [where g = "\<lambda>p. set_hdr_recCnt p (hdr_recCnt p + 1)", OF G(4-6) ph]
  let ?s' = "bufUpdate s1 (headerPage h) (\<lambda>p. set_hdr_recCnt p (hdr_recCnt p + 1))"
  let ?hdr = "set_hdr_recCnt hdr1 (hdr_recCnt hdr1 + 1)"
  let ?h' = "h\<lparr>hdrDirtyFlag := True, curPage := Frame j, cur_pageNo := no, curDirtyFlag := True, curRec := \<lparr>pageNo = no, slotNo = 0\<rparr>\<rparr>"
  have "h\<lparr>curPage := Frame j, cur_pageNo := no, hdrDirtyFlag := True, curDirtyFlag := True, curRec := \<lparr>pageNo = no, slotNo = 0\<rparr>\<rparr> = ?h'"
    by (cases h) simp
  then have run: "InsertFileScan4_insertRecord s h r = Some (OK, Some \<lparr>pageNo = no, slotNo = 0\<rparr>, ?s', ?h')"
    using r(2) i(1) bp no_fit bufUpdate_id [OF bp] G(1)
    by (simp add: InsertFileScan4_insertRecord_def PAGESIZE_def DPFIXED_def)
  have dist: "distinct ?xs" "?hno \<notin> set ?xs" and chain: "page_chain (page_of s ?f) (hdr_firstPage hdr) ?xs"
    using H(5) by (simp_all add: heap_file_def)
  have P: "page_of ?s' = (\<lambda>a b. if a = ?f \<and> b = no then Some q else if a = ?f \<and> b = ?hno then Some ?hdr
      else if a = ?f \<and> b = x then Some (snd (Page_setNextPage p no)) else page_of s a b)"
    unfolding W(4) G(7) using nx(2) by (auto simp: fun_eq_iff)
  have Px: "page_of ?s' ?f x = Some (snd (Page_setNextPage p no))" "page_of ?s' ?f no = Some q" "page_of ?s' ?f ?hno = Some ?hdr"
    and Pas: "\<And>y. y \<in> set as \<Longrightarrow> page_of ?s' ?f y = page_of s ?f y"
    and rest: "\<And>g q. g \<noteq> ?f \<or> q \<in> set bs \<Longrightarrow> page_of ?s' g q = page_of s g q"
    using dist nx H(14) by (auto simp: P)
  note N = setNextPage_data [OF inv, where v = no]
  have dn: "data_page x (snd (Page_setNextPage p no))" "nextPage (snd (Page_setNextPage p no)) = no"
    "page_recs x (snd (Page_setNextPage p no)) = page_recs x p"
    using dp N G(3) by (simp_all add: data_page_def)
  have "page_chain (page_of ?s' ?f) (hdr_firstPage hdr) (as @ [x, no])"
    by (rule page_chain_cut [OF chain dist(1) dn(1,2) Px(1) Pas Px(2) G(8,9)])
  moreover have "chain_recs (page_of ?s' ?f) (as @ [x, no]) = chain_recs (page_of s ?f) (as @ [x]) @ page_recs no q"
    by (rule chain_recs_cut [OF Pas p Px(1) dn(3) Px(2)])
  ultimately show ?thesis
    using run nx(1) Px(3) rest G(10-14)
    by (intro exI [of _ no] exI [of _ ?s'] exI [of _ ?h'] exI [of _ ?hdr]) (simp add: hdr_fields)
qed

section \<open>Two insertions that lose a page\<close>

lemma example_Heap4:
  obtains s h U B where "HeapFile4_new (example_db example_first 2) ''r'' = Some (OK, Some h, s)"
    "heap_at s h U B (example_hdr 2) [2, 3] 2" "page_of s (filePtr h) = disk_view (example_heap example_first 2)" "curRec h = NULLRID"
    "numBufs s = 3" "B = (\<lambda>f no. 0)"
proof -
  have n: "(2 :: int) = 1 + int (length (page_recs 2 example_first))" by (simp add: example_first(2))
  note E = example_heap_file [OF example_first(1) n]
  let ?s = "example_db example_first 2" and ?ps = "example_heap example_first 2"
  have inv: "db_inv ?s" and pins: "pin_of ?s = (\<lambda>f no. 0)" by (simp_all add: example_db_def db_start_inv)
  have o: "of_map (openFiles ?s) ''r'' = None" "disk ?s ''r'' = Some ?ps"
    by (simp_all add: example_db_def db_start_fields of_new_map)
  have room: "card (pinned ?s) + 2 \<le> numBufs ?s" by (simp add: busy_def pins) (simp add: example_db_def db_start_fields)
  have h1: "heap_file (disk_view ?ps) (db_firstPage (?ps ! 0)) (example_hdr 2) [2, 3]" using E(2,3) by simp
  have same: "HeapFile4_new ?s ''r'' = HeapFile_new ?s ''r''"
    by (rule HeapFile4_new_spec [OF inv _ o E(1) h1 E(4) room]) simp_all
  show thesis
    by (rule example_HeapFile [OF example_first(1) n]) (simp, rule that, simp_all add: same)
qed

lemma insertRecord4_cuts_chain_witness:
  "\<exists>s h rid s' h' hdr. HeapFile4_new (example_db example_first 2) ''r'' = Some (OK, Some h, s) \<and>
     InsertFileScan4_insertRecord s (h\<lparr>curDirtyFlag := True\<rparr>) (replicate 1000 0) = Some (OK, Some rid, s', h') \<and>
     chain_recs (page_of s (filePtr h)) [2, 3] = [(\<lparr>pageNo = 2, slotNo = 0\<rparr>, [1, 2, 3]), (\<lparr>pageNo = 3, slotNo = 0\<rparr>, [7, 7])] \<and>
     page_chain (page_of s' (filePtr h)) (hdr_firstPage hdr) [2, pageNo rid] \<and> hdr_pageCnt hdr = 3 \<and>
     chain_recs (page_of s' (filePtr h)) [2, pageNo rid] = [(\<lparr>pageNo = 2, slotNo = 0\<rparr>, [1, 2, 3]), (rid, replicate 1000 0)]"
proof -
  obtain s h U B where S: "HeapFile4_new (example_db example_first 2) ''r'' = Some (OK, Some h, s)"
    "heap_at s h U B (example_hdr 2) [2, 3] 2" "page_of s (filePtr h) = disk_view (example_heap example_first 2)"
    "numBufs s = 3" "B = (\<lambda>f no. 0)"
    by (rule example_Heap4) (rule that)
  let ?h = "h\<lparr>curDirtyFlag := True\<rparr>" and ?p = "snd (Page_setNextPage example_first 3)"
  have at: "heap_at s ?h U B (example_hdr 2) ([] @ 2 # [3]) 2" using S(2) unfolding heap_at_def by auto
  have inv: "page_inv example_first" using example_first(1) by (simp add: data_page_def)
  have p: "page_of s (filePtr ?h) 2 = Some ?p" by (simp add: S(3) disk_view_def example_heap_def numeral_2_eq_2)
  have free: "freeSpace ?p = 997"
    using example_insert(4) [of 2 "[1, 2, 3]"] by (simp add: setNextPage_data [OF inv]) (simp add: example_first_def wrap32_def)
  have "pinned s \<subseteq> {(filePtr h, 2), (filePtr h, headerPageNo h)}"
    using heap_atD(16) [OF S(2)] by (auto simp: busy_def S(5) hold_def split: if_splits)
  from card_mono [OF _ this] have "card (pinned s) \<le> 2" by (simp add: card_insert_if split: if_splits)
  then have room: "pool_room s"
    by (intro pool_room_count) (use heap_atD(1) [OF S(2)] S(4) in \<open>simp_all add: db_inv_def\<close>)
  have n: "(2 :: int) = 1 + int (length (page_recs 2 example_first))" by (simp add: example_first(2))
  note E = example_heap_file [OF example_first(1) n]
  have "page_of s (filePtr h) 4 = None" using E(6) by (simp add: S(3) disk_view_def)
  then have fr: "file_room s (filePtr ?h)" by (simp add: file_roomI [OF heap_atD(2) [OF S(2)]])
  have r: "replicate 1000 0 \<noteq> ([] :: byte list)" "length (replicate 1000 (0 :: byte)) \<le> 1000" by simp_all
  have full: "freeSpace ?p < int (length (replicate 1000 (0 :: byte))) + 4" using free by simp
  from insertRecord4_cuts_chain [OF at _ p r full fr room] obtain no s' h' hdr where
    I: "InsertFileScan4_insertRecord s ?h (replicate 1000 0) = Some (OK, Some \<lparr>pageNo = no, slotNo = 0\<rparr>, s', h')"
    "page_chain (page_of s' (filePtr h)) (hdr_firstPage hdr) ([] @ [2, no])"
    "chain_recs (page_of s' (filePtr h)) ([] @ [2, no]) =
       chain_recs (page_of s (filePtr h)) ([] @ [2]) @ [(\<lparr>pageNo = no, slotNo = 0\<rparr>, replicate 1000 0)]"
    "hdr_pageCnt hdr = wrap32 (hdr_pageCnt (example_hdr 2) + 1)"
    by (auto simp del: chain_recs_simps page_chain.simps)
  have c2: "chain_recs (page_of s (filePtr h)) [2] = [(\<lparr>pageNo = 2, slotNo = 0\<rparr>, [1, 2, 3])]"
    using p example_first(2) by (simp add: setNextPage_data [OF inv])
  have c23: "chain_recs (page_of s (filePtr h)) [2, 3] = [(\<lparr>pageNo = 2, slotNo = 0\<rparr>, [1, 2, 3]), (\<lparr>pageNo = 3, slotNo = 0\<rparr>, [7, 7])]"
    unfolding S(3) using E(5) by (simp add: example_first(2))
  have cnt: "hdr_pageCnt hdr = 3" using I(4) by (simp add: example_hdr_def hdr_fields wrap32_def)
  show ?thesis
    by (intro exI [of _ s] exI [of _ h] exI [of _ "\<lparr>pageNo = no, slotNo = 0\<rparr>"] exI [of _ s'] exI [of _ h'] exI [of _ hdr])
      (use S(1) I(1-3) c2 c23 cnt in \<open>simp del: chain_recs_simps page_chain.simps\<close>)
qed

lemma scanNext4_agrees_witness:
  "\<exists>s (h :: filescan) s1 h1 s4 h4 s6 h6. HeapFileScan_new (example_db (Page_init zero_mem 2) 1) ''r'' = Some (OK, Some h, s) \<and>
     HeapFileScan4_scanNext s h = HeapFileScan_scanNext s h \<and> HeapFileScan_endScan s h = Some (OK, s1, h1) \<and>
     HeapFileScan4_scanNext s1 h1 = Some (FILEEOF, None, s4, h4) \<and> HeapFileScan_scanNext s1 h1 = Some (FILEEOF, None, s6, h6) \<and>
     pin_of s4 (filePtr h) 2 = pin_of s6 (filePtr h) 2 + 1"
proof -
  let ?p = "Page_init zero_mem 2"
  have n: "(1 :: int) = 1 + int (length (page_recs 2 ?p))" by (simp add: example_empty(2))
  obtain s and h :: filescan and U B where S: "HeapFileScan_new (example_db ?p 1) ''r'' = Some (OK, Some h, s)"
    "heap_at s h U B (example_hdr 1) [2, 3] 2" "page_of s (filePtr h) = disk_view (example_heap ?p 1)" "curRec h = NULLRID"
    by (rule example_scan [OF example_empty(1) n]) (simp, rule that)
  have k: "slotNo (curRec h) = int 0 - 1" using S(4) by (simp add: NULLRID_def)
  have "chain_recs (page_of s (filePtr h)) [2, 3] = [(\<lparr>pageNo = 3, slotNo = 0\<rparr>, [7, 7])]"
    using example_heap_file(5) [OF example_empty(1) n] S(3) by (simp add: example_empty(2))
  then have e: "page_recs (hd [2, 3]) (the (page_of s (filePtr h) (hd [2, 3]))) = []"
    by (auto simp: page_recs_from_def append_eq_Cons_conv)
  from scanNext4_agrees [OF S(2) k, unfolded e] obtain s1 h1 s4 h4 s6 h6 where
    "HeapFileScan4_scanNext s h = HeapFileScan_scanNext s h" "HeapFileScan_endScan s h = Some (OK, s1, h1)"
    "HeapFileScan4_scanNext s1 h1 = Some (FILEEOF, None, s4, h4)" "HeapFileScan_scanNext s1 h1 = Some (FILEEOF, None, s6, h6)"
    "pin_of s4 = hold (filePtr h) 2 (pin_of s1)" "pin_of s6 = pin_of s1" by auto
  then show ?thesis using S(1)
    by (intro exI [of _ s] exI [of _ h] exI [of _ s1] exI [of _ h1] exI [of _ s4] exI [of _ h4] exI [of _ s6] exI [of _ h6]) simp
qed

end
