(* ===== verification/Spec2Isabelle.thy ===== *)
theory Spec2Isabelle
  imports HeapProps Modify DDL JoinLoops Load Print JoinHT Partition SortRuns ScanHelp Interp Buf3 Heap4
begin

text \<open>
  Minirel, a small relational database system in C++ (src/stage6). A relation is a heap file; the
  relations and their attributes are themselves described by two heap files, relcat and attrcat.
  The layers, from the disk up, and the theories that model them:

  \<^item> Page (page.C): the slotted page of 1024 bytes. A page is raw memory; records grow from the
    front, the slot array from the back. Prelude holds the memory accessors, the C integers and
    the status codes of error.h, which ErrorText maps to the messages of error.C.
  \<^item> FileIO (db.C, class File): a file is a sequence of pages; page 0 holds the head of the free
    list. DB (db.C, classes OpenFileHashTbl and DB): the table of open files and the operations
    on files by name. The calls of db.C pass c_str(), so that a name ends at its first NUL: c_str
    cuts it, and a disk has only names without NUL.
  \<^item> BufHash, Buf (bufHash.C, buf.C): the hash table from pages to frames and the buffer manager
    with its clock algorithm. Pages are reached through frame numbers in place of pointers.
  \<^item> HeapFile (heapfile.C): heap files, scans with a filter, insertions.
  \<^item> Catalog (catalog.C, create.C, destroy.C), Utility (print.C, help.C, load.C, quit.C,
    dbcreate.C, minirel.C), Query (insert.C, delete.C, select.C, join.C), JoinHT (joinHT.C),
    Partition (partition.C), SortFile (sort.C): the upper layers. Cstring models what they use of
    the C library: strings, atoi, atof and printf.
  \<^item> Nodes, ScanHelp, Interp (parser/nodes.C, scanhelp.C, interp.C): the parse tree, the helpers
    of the lexer and the interpreter.

  The directories part3 and Stage4 hold earlier versions of some layers, which differ:

  \<^item> BufHash3 (part3/bufHash.C, Stage4/bufHash.C): the hash tables of stages 3 and 4, with their
    own hash functions. Buf3 (part3/buf.C): the buffer manager of stage 3.
  \<^item> Heap4 (Stage4/heapfile.C): creation, the constructors, getRecord, the scan and the insertion of
    stage 4. Their names end in 3 or 4 (readPage3, InsertFileScan4_insertRecord).

  The functions keep the names of the code, with the class in front (File_allocatePage is
  File::allocatePage). The state is one record that every layer extends: io (disk, descriptors,
  File objects), pool (frames, descriptors, hash table, clock), db (open files), minirel (catalogs,
  outputs) and session (the counter of interp). An operation takes the state and returns its
  status and the new state.

  An option result is None for a run that C++ leaves undefined (a wild or null pointer, an access
  outside of an array, an uninitialised value), that ends in an assertion or in exit, or that does
  not return. Loops that may not end are partial functions into option; the loops whose end matters
  are proved to end (the clock, the flush, the scan). The clock runs with the bound 2 * numBufs of
  the code itself. The integers of the code are written out: int and short wrap (wrap32, wrap16).

  What the lemmas show:

  \<^item> Page: every operation keeps the layout invariant of a page and refines the abstract page, a
    list of optional byte strings; insertion and deletion change just one slot.
  \<^item> KeyedTable is the interface of a table of chains with unique keys; BufHash and DB interpret it,
    so that both tables are finite maps.
  \<^item> FileIO, Buf, DB: allocation is fresh, the free list is a stack, the buffer is coherent with the
    disk (page_of is the current contents of a page wherever it is), readPage and allocPage return
    the right page and lose none, the clock finds a victim iff there is one, and the last close
    writes everything back.
  \<^item> PageStore is the interface the heap file relies on (pinned pages stay, reads return page_of,
    the layout of a file grows by the pages allocated, other files are left alone); the buffer
    manager over the open files interprets it.
  \<^item> HeapScan, HeapOps, HeapProps: a heap file is a chain of pages whose records form a list; scans
    return exactly the matching ones, insertion adds one record, deletion removes one, lookup by RID
    finds it. The filter on integers is the comparison unless the difference overflows.
  \<^item> HeapSession: a whole use of a heap file, from the constructor of HeapFile, HeapFileScan or
    InsertFileScan through its operations to the destructor, on a file the program has open and with
    other users' pages in the pool. Such a use leaves no page pinned and no user behind. RelFile:
    the same for a relation that nobody else has open, as a step from the closed file to the closed
    file; stored is the closed file with its records, own the object that has it open, apart what
    an object on one file leaves alone, with_obj the pins of several objects at work.
  \<^item> Catalog: descriptors survive their byte encoding and the lookup filter selects the exact name.
    CatalogMap: any sequence of getInfo, addInfo and removeInfo on the relation catalog that adds
    only new names answers as on a finite map. CatalogAttrs: the lookups of the attribute catalog return exactly the
    attributes of a relation, in the order of the file.
    Query: the inner scan of the join is the join condition. Select and Modify: a selection adds to
    the result relation exactly the projections of the records that satisfy the condition, an
    insertion adds the record of its values or nothing, a deletion removes exactly the records that
    satisfy the condition; all three leave the catalog, the other relations and the pins alone.
  \<^item> HeapCreate: createHeapFile, from the directory without the file to the closed, empty relation.
    DDL: createRel and destroyRel as steps on the two catalogs (the map of relcat, the multiset of
    the descriptors in attrcat) and the relations on disk: what they answer and leave on every
    path, the refusals of createRel in their order, the late test of the attribute names, and that
    destroyRel undoes createRel.
  \<^item> JoinLoops: the nested loops join adds to the result relation exactly the joined projections of
    the pairs of records that satisfy the join condition. Three objects share the pool: selecting
    is the state of a scan and an InsertFileScan at work, rec_held keeps the record of the outer
    relation in place while the inner relation is scanned.
  \<^item> Load: UT_Load adds exactly the complete tuples of the data file to a relation. Print: the whole
    output of UT_Print, a row for every record. Partition: the constructor of Partition opens files
    that nobody has created.
  \<^item> JoinHT: the locale of a join key, interpreted for integers and for strings, gives
    that lookup returns exactly the matches. SortFile: the merge picks the least record. SortRuns:
    what the constructor of SortedFile does before that: on a relation without records it succeeds
    and there is nothing to sort, on any other it never does, because the temporary file of the
    first run is not there when it is opened. Interp, ScanHelp: resolved queries are well typed;
    the classification of identifiers of fewer than 50 characters, the others being undefined.

  \<^item> BufHash3: the locale of a hash function with values below the size, interpreted for stages 3
    and 4, gives keyed tables, so that the three tables answer every sequence of operations alike,
    up to 2^30 chains; beyond that an int overflows in the hash of stage 6.
    Buf3: a pool of stage 3 is related to its twin, the same pool with the table of stage 6, so
    that the invariant and the lemmas of Buf carry over; a failed read keeps the pool intact there.
    Heap4: the constructors, getRecord and scanNext agree with stage 6, scanNext from any record of
    the current page and after endScan, but for the page that stage 4 leaves pinned when the first
    page is empty; an InsertFileScan starts on the first page and insertRecord loses the pages
    behind the current one.

  Parameters: the hash function given to a Partition, and qsort in SortFile, which the library
  leaves open for equal keys; the results of mkdir and chdir for the main programs.

  Assumptions of the model: the disk has room and denies no access, memory allocation succeeds,
  File objects are not reused after their deletion, numBufs is positive and fits an int.

  Not modelled: the grammar and the lexer tables (parse.y, scan.l), which yacc and lex turn into
  the parser; dbdestroy.C, which asks on the terminal and runs rm; the debugging output (dumpPage,
  printSelf, listFree); the test programs of part3 and Stage4; the files of part3 and Stage4 that
  are the code of stage6 but for comments and messages (db, page, error, Stage4/buf.C, and the
  functions of Stage4/heapfile.C that Heap4 does not name). The directory p2 holds SQL exercises
  that do not belong to Minirel.

  Bounds: the theorems on the operations name the free frames that are enough (two per object that
  is open at the same time, and one to add a page), take hash tables of at most 2^30 chains, as
  BufMgr makes them for pools of less than 900 gigabytes, and keep the number of pages below 2^31.
\<close>

end
